(* ===== verification/SM_Prelude.thy ===== *)
theory SM_Prelude
  imports Main "HOL-Library.Word" "HOL-Library.Multiset" "HOL-Library.Signed_Division"
begin

unbundle bit_operations_syntax

text \<open>
  Shared vocabulary of the development: the integer types of the C++ code, the result type of
  operations that may throw, and the generic facts on lists, characters and words that several
  components use.
\<close>

section \<open>Types\<close>

text \<open>
  \<open>uint32_t\<close> and \<open>unsigned int\<close> are 32-bit words; a sum with the thrown error on the left is
  the result of an operation that may throw.
\<close>

type_synonym u32 = "32 word"
type_synonym i16 = "16 word"
type_synonym ('e, 'a) result = "'e + 'a"

section \<open>Collections of facts\<close>

named_theorems sm_simps \<open>unfolding rules of small accessors and predicates\<close>
named_theorems sm_inv \<open>operations preserve the invariant of their component\<close>

section \<open>Sequencing operations that may throw\<close>

definition rbind :: "('e, 'a) result \<Rightarrow> ('a \<Rightarrow> ('e, 'b) result) \<Rightarrow> ('e, 'b) result" where
  "rbind m f = (case m of Inl e \<Rightarrow> Inl e | Inr x \<Rightarrow> f x)"

definition guard :: "'e \<Rightarrow> bool \<Rightarrow> ('e, 'a) result \<Rightarrow> ('e, 'a) result" where
  "guard e b m = (if b then m else Inl e)"

definition deref :: "'e \<Rightarrow> 'a option \<Rightarrow> ('e, 'a) result" where
  "deref e x = (case x of None \<Rightarrow> Inl e | Some y \<Rightarrow> Inr y)"

lemma rbind_simps [simp]: "rbind (Inl e) f = Inl e" "rbind (Inr x) f = f x"
  by (simp_all add: rbind_def)

lemma guard_simps [simp]: "guard e True m = m" "guard e False m = Inl e"
  by (simp_all add: guard_def)

lemma deref_simps [simp]: "deref e None = Inl e" "deref e (Some x) = Inr x"
  by (simp_all add: deref_def)

lemma rbind_Inr: "rbind m f = Inr y \<longleftrightarrow> (\<exists>x. m = Inr x \<and> f x = Inr y)"
  by (simp add: rbind_def split: sum.split)

lemma guard_Inr: "guard e b m = Inr y \<longleftrightarrow> b \<and> m = Inr y"
  by (simp add: guard_def)

lemma deref_Inr: "deref e x = Inr y \<longleftrightarrow> x = Some y"
  by (simp add: deref_def split: option.split)

lemma Inr_unique: "m = Inr x \<Longrightarrow> m = Inr y \<Longrightarrow> x = y"
  by simp

lemma Inr_pair_unique: "m = Inr (x, a) \<Longrightarrow> m = Inr (y, b) \<Longrightarrow> x = y"
  by simp

lemmas result_Inr = rbind_Inr guard_Inr deref_Inr

section \<open>Running an operation over a list, stopping at the first error\<close>

fun run_list :: "('s \<Rightarrow> 'a \<Rightarrow> ('e, 's) result) \<Rightarrow> 's \<Rightarrow> 'a list \<Rightarrow> ('e, 's) result" where
  "run_list f s [] = Inr s"
| "run_list f s (x # xs) = (case f s x of Inl e \<Rightarrow> Inl e | Inr s' \<Rightarrow> run_list f s' xs)"

lemma run_list_Cons_Inr:
  "run_list f s (x # xs) = Inr t \<longleftrightarrow> (\<exists>s1. f s x = Inr s1 \<and> run_list f s1 xs = Inr t)"
  by (simp split: sum.split)

lemma run_list_append:
  "run_list f s (xs @ ys) =
     (case run_list f s xs of Inl e \<Rightarrow> Inl e | Inr s' \<Rightarrow> run_list f s' ys)"
  by (induction xs arbitrary: s) (auto split: sum.splits)

lemma run_list_each: "run_list f s xs = Inr t \<Longrightarrow> x \<in> set xs \<Longrightarrow> \<exists>s1 s2. f s1 x = Inr s2"
  by (induction xs arbitrary: s) (auto split: sum.splits)

lemma run_list_invariant:
  assumes "\<And>s x s'. x \<in> set xs \<Longrightarrow> P s \<Longrightarrow> f s x = Inr s' \<Longrightarrow> P s'"
    and "P s" and "run_list f s xs = Inr s'"
  shows "P s'"
  using assms
proof (induction xs arbitrary: s)
  case Nil
  then show ?case by simp
next
  case (Cons x xs)
  from Cons.prems(3) obtain t where t: "f s x = Inr t" and r: "run_list f t xs = Inr s'"
    by (auto split: sum.splits)
  have "P t" using Cons.prems(1) [OF _ Cons.prems(2) t] by simp
  with r show ?case using Cons.IH Cons.prems(1) by (meson list.set_intros(2))
qed

lemma run_list_total:
  assumes "\<And>s x. x \<in> set xs \<Longrightarrow> P s \<Longrightarrow> \<exists>s'. f s x = Inr s' \<and> P s'" and "P s"
  shows "\<exists>s'. run_list f s xs = Inr s' \<and> P s'"
  using assms
proof (induction xs arbitrary: s)
  case (Cons x xs)
  from Cons.prems(1) [of x s] Cons.prems(2) obtain t where t: "f s x = Inr t" "P t" by auto
  from Cons.IH [OF Cons.prems(1) t(2)] t(1) show ?case by simp
qed simp

text \<open>A loop whose body cannot throw is a fold.\<close>

lemma foldl_invariant:
  assumes "\<And>s x. x \<in> set xs \<Longrightarrow> P s \<Longrightarrow> P (f s x)" and "P s"
  shows "P (foldl f s xs)"
  using assms by (induction xs arbitrary: s) auto

lemma case_list_last:
  "(case xs of [] \<Rightarrow> n | y # ys \<Rightarrow> f (last (y # ys))) = (if xs = [] then n else f (last xs))"
  by (cases xs) simp_all

section \<open>Decimal digits\<close>

definition digit_char :: "nat \<Rightarrow> char" where
  "digit_char n = char_of (48 + n)"

lemma of_digit_char [simp]: "n < 10 \<Longrightarrow> (of_char (digit_char n) :: nat) = 48 + n"
  by (simp add: digit_char_def)

lemma digit_char_inj: "m < 10 \<Longrightarrow> n < 10 \<Longrightarrow> digit_char m = digit_char n \<longleftrightarrow> m = n"
  by (metis of_digit_char add_left_cancel)

section \<open>Lists at numeral indices\<close>

lemma list_update_Cons_numeral [simp]:
  "(x # xs)[numeral n := y] = x # xs[pred_numeral n := y]"
  by (simp add: numeral_eq_Suc)

section \<open>C++ integer division\<close>

text \<open>\<open>/\<close>, \<open>%\<close> and \<open>std::div\<close> truncate towards zero; on non-negative operands they are the
  division of the natural numbers.\<close>

lemma sdiv_nat: "int a sdiv int b = int (a div b)"
  by (cases "a = 0"; cases "b = 0") (simp_all add: signed_divide_int_def zdiv_int sgn_if)

lemma smod_nat: "int a smod int b = int (a mod b)"
  by (cases "a = 0"; cases "b = 0") (simp_all add: signed_modulo_int_def zmod_int sgn_if)

lemma sint_small: "n < 2147483648 \<Longrightarrow> sint (word_of_nat n :: u32) = int n"
  by (simp add: sint_uint unsigned_of_nat take_bit_nat_eq_self signed_take_bit_int_eq_self)

lemma sint_if: "sint (w :: 32 word) = (if uint w < 2147483648 then uint w else uint w - 4294967296)"
proof -
  have b: "0 \<le> uint w" "uint w < 4294967296" using uint_lt2p [of w] by simp_all
  have "sint w = (uint w + 2147483648) mod 4294967296 - 2147483648"
    by (simp add: sint_uint signed_take_bit_eq_take_bit_shift take_bit_eq_mod)
  moreover have "(uint w + 2147483648) mod 4294967296 = uint w + 2147483648" if "uint w < 2147483648"
    using b that by (intro mod_pos_pos_trivial) simp_all
  moreover have "(uint w + 2147483648) mod 4294967296 = uint w - 2147483648" if "\<not> uint w < 2147483648"
  proof -
    have "(uint w + 2147483648) mod 4294967296 = (uint w + 2147483648 - 4294967296) mod 4294967296"
      by (rule minus_mod_self2 [symmetric])
    also have "\<dots> = uint w + 2147483648 - 4294967296"
      using b that by (intro mod_pos_pos_trivial) simp_all
    finally show ?thesis by simp
  qed
  ultimately show ?thesis by simp
qed

lemma unat_Suc_word: "unat (w :: 32 word) + 1 < 2 ^ 32 \<Longrightarrow> unat (w + 1) = Suc (unat w)"
  by (simp add: unat_word_ariths)

lemma unat_Suc_below: "w < v \<Longrightarrow> unat (w + 1 :: 32 word) = Suc (unat w)"
proof (rule unat_Suc_word)
  assume "w < v"
  moreover have "unat v < 2 ^ LENGTH(32)" by (rule unsigned_less)
  ultimately show "unat w + 1 < 2 ^ 32" by (simp add: word_less_nat_alt)
qed

lemma sint_eq_uint_nonneg: "0 \<le> sint (w :: 32 word) \<Longrightarrow> uint w = sint w"
  using uint_lt2p [of w] by (simp add: sint_if split: if_splits)

lemma sint_neg_uint: "\<not> 0 \<le> sint (w :: 32 word) \<Longrightarrow> 2147483648 \<le> uint w"
  by (simp add: sint_if split: if_splits)

section \<open>Shifts and masks of 32-bit words as arithmetic\<close>

lemma or_push_bit_nat:
  fixes m n :: nat
  assumes "n < 2 ^ k"
  shows "push_bit k m OR n = m * 2 ^ k + n"
proof -
  have "n = take_bit k n" using assms by (simp add: take_bit_nat_eq_self)
  then have "\<not> bit (push_bit k m) i \<or> \<not> bit n i" for i
    by (metis bit_push_bit_iff bit_take_bit_iff linorder_not_less)
  then have "push_bit k m + n = push_bit k m OR n" by (rule disjunctive_add)
  then show ?thesis by (simp add: push_bit_eq_mult)
qed

lemma masks: "(0xFF :: u32) = mask 8" "(0x3F :: u32) = mask 6" "(0xF :: u32) = mask 4" "(0x3 :: u32) = mask 2"
  by (simp_all add: mask_eq_exp_minus_1)

lemma unat_take_bit_mod: "unat (take_bit n w :: u32) = unat w mod 2 ^ n"
  by (simp add: unsigned_take_bit_eq flip: take_bit_eq_mod)

lemma unat_and_mask: "unat (w AND mask n :: u32) = unat w mod 2 ^ n"
  by (simp only: take_bit_eq_mask [symmetric] unat_take_bit_mod)

lemma unat_drop: "unat (drop_bit n w :: u32) = unat w div 2 ^ n"
proof -
  have "unat w < 2 ^ LENGTH(32)" by (rule unsigned_less)
  then show ?thesis
    unfolding unsigned_drop_bit_eq by (simp only: take_bit_nat_eq_self) (simp add: drop_bit_eq_div)
qed

lemma unat_push: "unat w * 2 ^ n < 2 ^ 32 \<Longrightarrow> unat (push_bit n w :: u32) = unat w * 2 ^ n"
  by (simp only: unsigned_push_bit_eq) (simp add: push_bit_eq_mult take_bit_nat_eq_self)

lemma unat_push_or: "unat w * 2 ^ n < 2 ^ 32 \<Longrightarrow> unat v < 2 ^ n \<Longrightarrow>
   unat (push_bit n w OR v :: u32) = unat w * 2 ^ n + unat v"
  by (simp only: unsigned_or_eq unat_push or_push_bit_nat push_bit_eq_mult [symmetric])

end
