(* ===== verification/Daily_Time.thy ===== *)
theory Daily_Time
  imports SM_Prelude
begin

text \<open>
  Times of day: \<open>shared/util/DailyTime.cpp\<close> and \<open>DailyTime.hpp\<close>. A \<open>DailyTime\<close> is an unsigned
  32-bit number of milliseconds; arithmetic wraps. The parser of \<open>hh:mi:ss(.mil)\<close> strings is the
  character loop of \<open>parseStringRepr\<close> over the record of its local variables; every \<open>throw\<close> is a
  constructor of \<open>dt_error\<close>. The printer writes the two-digit table of \<open>timeDecimalDigitToChar\<close>
  through a cursor into an 8-character buffer.
\<close>

section \<open>Constants and the digit table\<close>

definition SECONDS_IN_DAY :: u32 where
  "SECONDS_IN_DAY = 86400"

definition MILLISECONDS_IN_DAY :: u32 where
  "MILLISECONDS_IN_DAY = SECONDS_IN_DAY * 1000"

definition TEMPLATE_STRING :: string where
  "TEMPLATE_STRING = ''00000000''"

text \<open>The switch of \<open>timeDecimalDigitToChar\<close>, one entry per \<open>case\<close> label.\<close>

definition twoDigits :: "string list" where
  "twoDigits =
    [''00'', ''01'', ''02'', ''03'', ''04'', ''05'', ''06'', ''07'', ''08'', ''09'',
     ''10'', ''11'', ''12'', ''13'', ''14'', ''15'', ''16'', ''17'', ''18'', ''19'',
     ''20'', ''21'', ''22'', ''23'', ''24'', ''25'', ''26'', ''27'', ''28'', ''29'',
     ''30'', ''31'', ''32'', ''33'', ''34'', ''35'', ''36'', ''37'', ''38'', ''39'',
     ''40'', ''41'', ''42'', ''43'', ''44'', ''45'', ''46'', ''47'', ''48'', ''49'',
     ''50'', ''51'', ''52'', ''53'', ''54'', ''55'', ''56'', ''57'', ''58'', ''59'']"

text \<open>
  The cursor \<open>c\<close> is an index of the buffer. Outside the labels 0 to 59 the switch writes nothing
  and leaves the cursor where it is.
\<close>

definition timeDecimalDigitToChar :: "int \<Rightarrow> nat \<Rightarrow> string \<Rightarrow> nat \<times> string" where
  "timeDecimalDigitToChar num c buf =
     (if 0 \<le> num \<and> num < 60
      then (let d = twoDigits ! nat num in (c + 1, (buf[c := d ! 0])[c + 1 := d ! 1]))
      else (c, buf))"

text \<open>
  \<open>std::div\<close> takes \<open>int\<close>s and truncates; the unsigned argument converts to a signed 32-bit
  value. A resized string holds NUL characters.
\<close>

definition buildStringRepr :: "u32 \<Rightarrow> string" where
  "buildStringRepr timeValInSec =
     (let t = sint timeValInSec;
          seconds = t smod 60;
          minutes0 = t sdiv 60;
          hours0 = minutes0 sdiv 60;
          minutes = minutes0 smod 60;
          hours = (if hours0 \<ge> 24 then hours0 smod 24 else hours0);
          repr = replicate 8 (CHR 0x00);
          (c1, b1) = timeDecimalDigitToChar hours 0 repr;
          c2 = c1 + 1; b2 = b1[c2 := CHR '':'']; c3 = c2 + 1;
          (c4, b4) = timeDecimalDigitToChar minutes c3 b2;
          c5 = c4 + 1; b5 = b4[c5 := CHR '':'']; c6 = c5 + 1;
          (c7, b7) = timeDecimalDigitToChar seconds c6 b5
      in b7)"

section \<open>The parser\<close>

text \<open>The four messages \<open>parseStringRepr\<close> throws, with the text they quote.\<close>

datatype dt_error =
    TooManyFields
  | UnexpectedCharacter string
  | InvalidDigits string
  | InvalidColons string

record parse_state =
  numColon :: nat
  hasDot :: bool
  timePart :: "u32 list"
  numDigits :: "i16 list"
  timePartIdx :: nat
  num :: u32

definition parse_init :: parse_state where
  "parse_init = \<lparr>numColon = 0, hasDot = False, timePart = [0, 0, 0, 0],
     numDigits = [0, 0, 0, 0], timePartIdx = 0, num = 0\<rparr>"

text \<open>Storing the current number and moving to the next field, shared by \<open>:\<close> and \<open>.\<close>.\<close>

definition next_field :: "parse_state \<Rightarrow> (dt_error, parse_state) result" where
  "next_field s =
     (let s1 = s\<lparr>timePart := (timePart s)[timePartIdx s := num s],
                 timePartIdx := timePartIdx s + 1\<rparr>
      in if timePartIdx s1 > 3 then Inl TooManyFields else Inr (s1\<lparr>num := 0\<rparr>))"

definition is_digit :: "char \<Rightarrow> bool" where
  "is_digit c \<longleftrightarrow> 48 \<le> (of_char c :: nat) \<and> (of_char c :: nat) \<le> 57"

definition parse_char :: "string \<Rightarrow> parse_state \<Rightarrow> char \<Rightarrow> (dt_error, parse_state) result" where
  "parse_char timeRepr s c =
     (if c = CHR '','' \<or> c = CHR ''.'' then next_field (s\<lparr>hasDot := True\<rparr>)
      else if c = CHR '':'' then next_field (s\<lparr>numColon := numColon s + 1\<rparr>)
      else if is_digit c then
        (let i = timePartIdx s;
             s1 = (if \<not> hasDot s
                   then s\<lparr>numDigits := (numDigits s)[i := numDigits s ! i + 1]\<rparr> else s)
         in Inr (s1\<lparr>num := num s1 * 10 + word_of_nat (of_char c - 48)\<rparr>))
      else if c \<noteq> CHR '' '' \<and> c \<noteq> CHR 0x09 then Inl (UnexpectedCharacter timeRepr)
      else Inr s)"

definition parse_finish :: "string \<Rightarrow> parse_state \<Rightarrow> (dt_error, u32) result" where
  "parse_finish timeRepr s =
     (let tp = (if num s > 0 then (timePart s)[timePartIdx s := num s] else timePart s);
          nd = numDigits s
      in if (nd ! 0 \<noteq> 1 \<and> nd ! 0 \<noteq> 2) \<or> nd ! 1 \<noteq> 2 \<or> nd ! 2 \<noteq> 2
         then Inl (InvalidDigits timeRepr)
         else if numColon s \<noteq> 2 then Inl (InvalidColons timeRepr)
         else Inr (tp ! 0 * 3600000 + tp ! 1 * 60000 + tp ! 2 * 1000 + tp ! 3))"

definition parseStringRepr :: "string \<Rightarrow> (dt_error, u32) result" where
  "parseStringRepr timeRepr =
     (case run_list (parse_char timeRepr) parse_init timeRepr of
        Inl e \<Rightarrow> Inl e
      | Inr s \<Rightarrow> parse_finish timeRepr s)"

section \<open>The class\<close>

datatype DailyTime = DailyTime (getValue: u32)

definition newDailyTime :: "u32 \<Rightarrow> u32 \<Rightarrow> DailyTime" where
  "newDailyTime value base = DailyTime (value - base)"

definition newDailyTime_str :: "string \<Rightarrow> (dt_error, DailyTime) result" where
  "newDailyTime_str value =
     (case parseStringRepr value of Inl e \<Rightarrow> Inl e | Inr t \<Rightarrow> Inr (DailyTime t))"

definition isBefore :: "DailyTime \<Rightarrow> DailyTime \<Rightarrow> bool" where
  "isBefore this other \<longleftrightarrow> getValue this < getValue other"

definition isBeforeEqual :: "DailyTime \<Rightarrow> DailyTime \<Rightarrow> bool" where
  "isBeforeEqual this other \<longleftrightarrow> getValue this \<le> getValue other"

definition isAfter :: "DailyTime \<Rightarrow> DailyTime \<Rightarrow> bool" where
  "isAfter this other \<longleftrightarrow> getValue this > getValue other"

definition isAfterEqual :: "DailyTime \<Rightarrow> DailyTime \<Rightarrow> bool" where
  "isAfterEqual this other \<longleftrightarrow> getValue this \<ge> getValue other"

definition isEqual :: "DailyTime \<Rightarrow> DailyTime \<Rightarrow> bool" where
  "isEqual this other \<longleftrightarrow> getValue this = getValue other"

definition offsetMS_From :: "DailyTime \<Rightarrow> DailyTime \<Rightarrow> u32" where
  "offsetMS_From this other = getValue this - getValue other"

definition addTime :: "DailyTime \<Rightarrow> DailyTime \<Rightarrow> DailyTime" where
  "addTime this dt = DailyTime (getValue this + getValue dt)"

definition subTime :: "DailyTime \<Rightarrow> DailyTime \<Rightarrow> DailyTime" where
  "subTime this dt = DailyTime (getValue this - getValue dt)"

text \<open>
  \<open>timeList\<close> is a global vector: template strings until \<open>initAllTimes\<close> has filled it.
\<close>

definition timeList0 :: "nat \<Rightarrow> string" where
  "timeList0 i = TEMPLATE_STRING"

definition initAllTimes :: "(nat \<Rightarrow> string) \<Rightarrow> (nat \<Rightarrow> string)" where
  "initAllTimes timeList =
     (\<lambda>i. if i < unat SECONDS_IN_DAY then buildStringRepr (word_of_nat i) else timeList i)"

definition getStrRepr :: "(nat \<Rightarrow> string) \<Rightarrow> DailyTime \<Rightarrow> string" where
  "getStrRepr timeList this =
     (let timeValInSec = getValue this div 1000;
          t = (if timeValInSec \<ge> SECONDS_IN_DAY then timeValInSec mod SECONDS_IN_DAY
               else timeValInSec)
      in timeList (unat t))"

section \<open>Printing\<close>

text \<open>The specification of the printer: three zero-padded two-digit fields.\<close>

definition pad2 :: "nat \<Rightarrow> string" where
  "pad2 n = [digit_char (n div 10), digit_char (n mod 10)]"

definition hms_string :: "nat \<Rightarrow> nat \<Rightarrow> nat \<Rightarrow> string" where
  "hms_string h m s = pad2 h @ CHR '':'' # pad2 m @ CHR '':'' # pad2 s"

lemma twoDigits_table: "twoDigits = map pad2 [0..<60]"
  by code_simp

lemma twoDigits_nth: "n < 60 \<Longrightarrow> twoDigits ! n = pad2 n"
  by (simp add: twoDigits_table)

lemma timeDecimalDigitToChar_in:
  "n < 60 \<Longrightarrow> timeDecimalDigitToChar (int n) c buf =
     (c + 1, (buf[c := digit_char (n div 10)])[c + 1 := digit_char (n mod 10)])"
  by (simp add: timeDecimalDigitToChar_def twoDigits_nth pad2_def)

lemma empty_repr: "replicate 8 c = [c, c, c, c, c, c, c, c]"
  by (simp add: numeral_eq_Suc)

lemma buildStringRepr_hms:
  assumes "s < 86400"
  shows "buildStringRepr (word_of_nat s) = hms_string (s div 3600) (s div 60 mod 60) (s mod 60)"
proof -
  have d: "s div 60 div 60 = s div 3600"
    by (simp add: div_mult2_eq [symmetric])
  have t: "sint (word_of_nat s :: u32) = int s"
    using assms by (intro sint_small) simp
  have h: "int s sdiv 60 = int (s div 60)" "int s smod 60 = int (s mod 60)"
    "int (s div 60) sdiv 60 = int (s div 3600)" "int (s div 60) smod 60 = int (s div 60 mod 60)"
    using sdiv_nat [of s 60] smod_nat [of s 60] sdiv_nat [of "s div 60" 60]
      smod_nat [of "s div 60" 60] d by simp_all
  have b: "s div 3600 < 24" "s div 60 mod 60 < 60" "s mod 60 < 60"
    using assms by simp_all
  show ?thesis
    using b by (simp add: buildStringRepr_def t h Let_def timeDecimalDigitToChar_in hms_string_def
        pad2_def empty_repr)
qed

section \<open>Parsing\<close>

definition digits_value :: "nat list \<Rightarrow> nat" where
  "digits_value ds = foldl (\<lambda>v d. v * 10 + d) 0 ds"

lemma is_digit_char: "d < 10 \<Longrightarrow> is_digit (digit_char d)"
  by (simp add: is_digit_def)

lemma digit_char_neq:
  "d < 10 \<Longrightarrow> digit_char d \<noteq> CHR '':'' \<and> digit_char d \<noteq> CHR ''.'' \<and> digit_char d \<noteq> CHR '',''"
  by (auto dest!: arg_cong [where f = "of_char :: char \<Rightarrow> nat"])

lemma parse_digit:
  "d < 10 \<Longrightarrow> parse_char t s (digit_char d) =
     Inr ((if hasDot s then s
           else s\<lparr>numDigits := (numDigits s)[timePartIdx s := numDigits s ! timePartIdx s + 1]\<rparr>)
          \<lparr>num := num s * 10 + word_of_nat d\<rparr>)"
  using digit_char_neq [of d] by (simp add: parse_char_def is_digit_char Let_def)

lemma parse_colon: "parse_char t s (CHR '':'') = next_field (s\<lparr>numColon := numColon s + 1\<rparr>)"
  by (simp add: parse_char_def)

lemma parse_dot: "parse_char t s (CHR ''.'') = next_field (s\<lparr>hasDot := True\<rparr>)"
  by (simp add: parse_char_def)

text \<open>After the dot digits are no longer counted, only accumulated (modulo \<open>2 ^ 32\<close>).\<close>

lemma parse_digits_after_dot:
  assumes "\<forall>d \<in> set ds. d < 10" and "hasDot s"
  shows "run_list (parse_char t) s (map digit_char ds) =
    Inr (s\<lparr>num := word_of_nat (foldl (\<lambda>v d. v * 10 + d) (unat (num s)) ds)\<rparr>)"
  using assms
proof (induction ds arbitrary: s)
  case Nil
  then show ?case by simp
next
  case (Cons d ds)
  let ?n = "num s * 10 + word_of_nat d"
  have fold_cong: "word_of_nat (foldl (\<lambda>v d. v * 10 + d) a ds) =
      (word_of_nat (foldl (\<lambda>v d. v * 10 + d) b ds) :: u32)"
    if "(word_of_nat a :: u32) = word_of_nat b" for a b
    using that by (induction ds arbitrary: a b) simp_all
  have "(word_of_nat (unat (num s) * 10 + d) :: u32) = ?n"
    by simp
  then have "word_of_nat (foldl (\<lambda>v d. v * 10 + d) (unat ?n) ds) =
      (word_of_nat (foldl (\<lambda>v d. v * 10 + d) (unat (num s) * 10 + d) ds) :: u32)"
    by (intro fold_cong) simp
  with Cons show ?case
    by (simp add: parse_digit)
qed

lemma parse_two_fields:
  assumes "h < 100" "m < 100" "s < 100"
  shows "run_list (parse_char t) parse_init (hms_string h m s) =
    Inr \<lparr>numColon = 2, hasDot = False, timePart = [word_of_nat h, word_of_nat m, 0, 0],
         numDigits = [2, 2, 2, 0], timePartIdx = 2, num = word_of_nat s\<rparr>"
proof -
  have w: "(word_of_nat (n div 10) :: u32) * 10 + word_of_nat (n mod 10) = word_of_nat n" for n
    by (metis div_mult_mod_eq of_nat_add of_nat_mult of_nat_numeral)
  have "h div 10 < 10" "m div 10 < 10" "s div 10 < 10"
    using assms by simp_all
  then show ?thesis
    by (simp add: hms_string_def pad2_def parse_digit parse_colon parse_init_def next_field_def w)
qed

text \<open>
  the parser reads \<open>hh:mm:ss\<close> as the number of milliseconds since midnight, and a fraction
  after the dot as a plain count of milliseconds, whatever its number of digits.
\<close>

theorem parseStringRepr_hms_fraction:
  assumes "h < 100" "m < 100" "s < 100" and "\<forall>d \<in> set ds. d < 10"
  shows "parseStringRepr (hms_string h m s @ CHR ''.'' # map digit_char ds) =
    Inr (word_of_nat (h * 3600000 + m * 60000 + s * 1000 + digits_value ds))"
proof -
  have z: "word_of_nat (digits_value ds) = (0 :: u32)"
    if "\<not> word_of_nat (digits_value ds) > (0 :: u32)"
    using that by (simp add: word_gt_0)
  show ?thesis
    using z assms by (simp add: parseStringRepr_def run_list_append parse_two_fields parse_dot
        next_field_def parse_digits_after_dot parse_finish_def Let_def digits_value_def)
qed

theorem parseStringRepr_hms_fraction_witness:
  "parseStringRepr (hms_string 8 30 0 @ CHR ''.'' # map digit_char [5]) = Inr (30600005 :: u32)"
  using parseStringRepr_hms_fraction [of 8 30 0 "[5]"] by (simp add: digits_value_def)

lemma parseStringRepr_hms:
  assumes "h < 100" "m < 100" "s < 100"
  shows "parseStringRepr (hms_string h m s) =
    Inr (word_of_nat (h * 3600000 + m * 60000 + s * 1000))"
proof -
  have z: "(0 :: u32) < word_of_nat s \<or> word_of_nat s = (0 :: u32)"
    by (simp add: word_gt_0)
  show ?thesis
    using z assms by (auto simp: parseStringRepr_def parse_two_fields parse_finish_def Let_def)
qed

text \<open>
  C36: printing a time and parsing it back gives the start of the printed second: for every
  time, of any day, the milliseconds within the day rounded down to a whole second.
\<close>

theorem print_parse_roundtrip:
  "parseStringRepr (getStrRepr (initAllTimes timeList0) t) =
     Inr (word_of_nat (unat (getValue t) div 1000 mod 86400 * 1000))"
proof -
  define v where "v = unat (getValue t) div 1000"
  have "unat (getValue t div 1000) = v"
    by (simp add: v_def unat_div)
  moreover have "unat (getValue t div 1000 mod 86400) = v mod 86400"
    by (simp add: v_def unat_div unat_mod)
  ultimately have "getStrRepr (initAllTimes timeList0) t =
      initAllTimes timeList0 (v mod 86400)"
    by (simp add: getStrRepr_def Let_def SECONDS_IN_DAY_def word_le_nat_alt)
  also have "\<dots> = hms_string (v mod 86400 div 3600) (v mod 86400 div 60 mod 60) (v mod 86400 mod 60)"
    by (simp add: initAllTimes_def SECONDS_IN_DAY_def buildStringRepr_hms)
  finally have p: "getStrRepr (initAllTimes timeList0) t =
      hms_string (v mod 86400 div 3600) (v mod 86400 div 60 mod 60) (v mod 86400 mod 60)" .
  define w where "w = v mod 86400"
  have "w < 86400" by (simp add: w_def)
  then have b: "w div 3600 < 100" "w div 60 mod 60 < 100" "w mod 60 < 100"
    by simp_all
  have "w div 60 = w div 3600 * 60 + w div 60 mod 60"
    using div_mult_mod_eq [of "w div 60" 60] by (simp add: div_mult2_eq [symmetric])
  moreover have "w = w div 60 * 60 + w mod 60"
    by simp
  ultimately have "w div 3600 * 3600000 + w div 60 mod 60 * 60000 + w mod 60 * 1000 = w * 1000"
    by linarith
  with parseStringRepr_hms [OF b] show ?thesis
    unfolding p w_def [symmetric] v_def [symmetric] by simp
qed

text \<open>What an accepted string looks like: the loop counts what it has passed.\<close>

definition separators :: "string \<Rightarrow> nat" where
  "separators xs = length (filter (\<lambda>c. c \<in> {CHR '':'', CHR '','', CHR ''.''}) xs)"

definition time_chars :: "char set" where
  "time_chars = {c. is_digit c} \<union> {CHR '':'', CHR '','', CHR ''.'', CHR '' '', CHR 0x09}"

lemma parse_loop_counts:
  assumes "run_list (parse_char t) s xs = Inr s'" and "timePartIdx s \<le> 3"
  shows "numColon s' = numColon s + count_list xs (CHR '':'') \<and>
    timePartIdx s' = timePartIdx s + separators xs \<and> timePartIdx s' \<le> 3 \<and>
    set xs \<subseteq> time_chars"
  using assms
proof (induction xs arbitrary: s)
  case Nil
  then show ?case by (simp add: separators_def)
next
  case (Cons c xs)
  then obtain s1 where s1: "parse_char t s c = Inr s1" and r: "run_list (parse_char t) s1 xs = Inr s'"
    by (auto split: sum.splits)
  have "numColon s1 = numColon s + count_list [c] (CHR '':'') \<and>
      timePartIdx s1 = timePartIdx s + separators [c] \<and> timePartIdx s1 \<le> 3 \<and> c \<in> time_chars"
    using s1 Cons.prems(2)
    by (auto simp: parse_char_def next_field_def Let_def separators_def time_chars_def is_digit_def
        split: if_splits)
  with Cons.IH [OF r] show ?case by (auto simp: separators_def)
qed

text \<open>
  a string the parser accepts has exactly two colons, at most one fraction mark (\<open>.\<close> or
  \<open>,\<close>), and apart from these only digits, blanks and tabs; every other string is refused.
\<close>

theorem parseStringRepr_accepts:
  assumes "parseStringRepr t = Inr v"
  shows "count_list t (CHR '':'') = 2 \<and>
    count_list t (CHR ''.'') + count_list t (CHR '','') \<le> 1 \<and> set t \<subseteq> time_chars"
proof -
  obtain s where r: "run_list (parse_char t) parse_init t = Inr s" and f: "parse_finish t s = Inr v"
    using assms by (auto simp: parseStringRepr_def split: sum.splits)
  have "separators t =
      count_list t (CHR '':'') + count_list t (CHR ''.'') + count_list t (CHR '','')"
    by (induction t) (auto simp: separators_def)
  with parse_loop_counts [OF r] f show ?thesis
    by (auto simp: parse_init_def parse_finish_def Let_def split: if_splits)
qed

theorem parseStringRepr_accepts_witness:
  "count_list (hms_string 8 30 0) (CHR '':'') = 2 \<and>
    count_list (hms_string 8 30 0) (CHR ''.'') + count_list (hms_string 8 30 0) (CHR '','') \<le> 1 \<and>
    set (hms_string 8 30 0) \<subseteq> time_chars"
  by (rule parseStringRepr_accepts [OF parseStringRepr_hms]) simp_all

text \<open>the seconds are not optional: \<open>hh:mm\<close> is refused with the digit-count error.\<close>

theorem parseStringRepr_seconds_required:
  assumes "h < 100" "m < 100"
  shows "parseStringRepr (pad2 h @ CHR '':'' # pad2 m) = Inl (InvalidDigits (pad2 h @ CHR '':'' # pad2 m))"
proof -
  have "h div 10 < 10" "m div 10 < 10" using assms by simp_all
  then show ?thesis
    by (simp add: parseStringRepr_def pad2_def parse_digit parse_colon parse_init_def next_field_def
        parse_finish_def Let_def)
qed

theorem parseStringRepr_seconds_required_witness:
  "parseStringRepr (pad2 8 @ CHR '':'' # pad2 30) = Inl (InvalidDigits (pad2 8 @ CHR '':'' # pad2 30))"
  by (rule parseStringRepr_seconds_required) simp_all

section \<open>Times are linearly ordered by \<open>isBefore\<close>\<close>

instantiation DailyTime :: linorder
begin

definition less_eq_DailyTime :: "DailyTime \<Rightarrow> DailyTime \<Rightarrow> bool" where
  "less_eq_DailyTime = isBeforeEqual"

definition less_DailyTime :: "DailyTime \<Rightarrow> DailyTime \<Rightarrow> bool" where
  "less_DailyTime = isBefore"

instance
  by standard (auto simp: less_eq_DailyTime_def less_DailyTime_def isBefore_def isBeforeEqual_def
      DailyTime.expand)

end

lemma isAfter_less: "isAfter a b \<longleftrightarrow> b < a"
  by (simp add: isAfter_def less_DailyTime_def isBefore_def)

lemma isAfterEqual_less_eq: "isAfterEqual a b \<longleftrightarrow> b \<le> a"
  by (simp add: isAfterEqual_def less_eq_DailyTime_def isBeforeEqual_def)

lemma isEqual_eq: "isEqual a b \<longleftrightarrow> a = b"
  by (cases a; cases b) (simp add: isEqual_def)

text \<open>An offset read after the other time is the true distance; otherwise it wraps.\<close>

lemma offsetMS_From_unat:
  "isAfterEqual a b \<Longrightarrow> unat (offsetMS_From a b) = unat (getValue a) - unat (getValue b)"
  by (simp add: isAfterEqual_def offsetMS_From_def unat_sub)

lemma subTime_addTime: "subTime (addTime a b) b = a"
  by (simp add: subTime_def addTime_def)

end
