(* ===== verification/Base64_Codec.thy ===== *)
theory Base64_Codec
  imports SM_Prelude
begin

unbundle bit_operations_syntax

text \<open>
  The two base-64 codecs of the repository: \<open>shared/util/Base64.cpp\<close> (used by the FMOD and
  visualiser messages) and \<open>short/entities/commsim/serialization/Base64Escape.cpp\<close> (used by the
  communication simulator). Both are translated down to the shifts and masks on
  \<open>uint32_t\<close>/\<open>unsigned int\<close>; a \<open>char\<close> is signed, so it is sign-extended wherever the code
  widens it. Both are compared with one reference encoder over bytes.
\<close>

section \<open>Characters widened to 32 bits\<close>

definition widen :: "char \<Rightarrow> u32" where
  "widen c = (if (of_char c :: nat) < 128 then word_of_nat (of_char c)
              else word_of_int (of_char c - 256))"

definition narrow :: "u32 \<Rightarrow> char" where
  "narrow w = char_of (unat w)"

definition Alphabet :: string where
  "Alphabet = ''ABCDEFGHIJKLMNOPQRSTUVWXYZabcdefghijklmnopqrstuvwxyz0123456789+/''"

section \<open>\<open>Base64\<close>\<close>

text \<open>\<open>OutOfRange\<close> is the exception of \<open>string::at\<close>.\<close>

datatype b64_error = InvalidCharacter | OutOfRange

fun RevLookup_from :: "string \<Rightarrow> nat \<Rightarrow> char \<Rightarrow> (b64_error, nat) result" where
  "RevLookup_from [] i letter = Inl InvalidCharacter"
| "RevLookup_from (a # as) i letter =
     (if a = letter then Inr i else RevLookup_from as (i + 1) letter)"

definition RevLookup :: "char \<Rightarrow> (b64_error, nat) result" where
  "RevLookup letter = RevLookup_from Alphabet 0 letter"

fun encode_loop :: "string \<Rightarrow> (b64_error, string) result" where
  "encode_loop [] = Inr []"
| "encode_loop (a # b # c # src) =
     (let triplet = push_bit 16 (widen a) OR push_bit 8 (widen b) OR widen c;
          q = [Alphabet ! unat (drop_bit 18 triplet AND 0x3F),
               Alphabet ! unat (drop_bit 12 triplet AND 0x3F),
               Alphabet ! unat (drop_bit 6 triplet AND 0x3F),
               Alphabet ! unat (triplet AND 0x3F)]
      in case encode_loop src of Inl e \<Rightarrow> Inl e | Inr res \<Rightarrow> Inr (q @ res))"
| "encode_loop _ = Inl OutOfRange"

definition encode :: "string \<Rightarrow> (b64_error, string) result" where
  "encode bytes =
     (if bytes = [] then Inr []
      else (let padding = (3 - length bytes mod 3) mod 3;
                src = bytes @ replicate padding (CHR 0x00)
            in case encode_loop src of
                 Inl e \<Rightarrow> Inl e
               | Inr res \<Rightarrow> Inr (take (length res - padding) res @ replicate padding (CHR ''=''))))"

text \<open>
  The operands are evaluated from left to right, an order that the language leaves open: in a last
  group of fewer than four letters, an invalid letter is found before the read past the end.
\<close>

fun decode_loop :: "string \<Rightarrow> (b64_error, string) result" where
  "decode_loop [] = Inr []"
| "decode_loop (a # b # c # d # source) =
     (case (RevLookup a, RevLookup b, RevLookup c, RevLookup d) of
        (Inr ra, Inr rb, Inr rc, Inr rd) \<Rightarrow>
          (let tetra = (push_bit 18 (word_of_nat ra) OR push_bit 12 (word_of_nat rb)
                        OR push_bit 6 (word_of_nat rc) OR word_of_nat rd) :: u32;
               t = [narrow (drop_bit 16 tetra AND 0xFF),
                    narrow (drop_bit 8 tetra AND 0xFF),
                    narrow (tetra AND 0xFF)]
           in case decode_loop source of Inl e \<Rightarrow> Inl e | Inr res \<Rightarrow> Inr (t @ res))
      | _ \<Rightarrow> Inl InvalidCharacter)"
| "decode_loop rest =
     (if list_all (\<lambda>c. RevLookup c \<noteq> Inl InvalidCharacter) rest then Inl OutOfRange
      else Inl InvalidCharacter)"

text \<open>
  Every \<open>=\<close> of the text counts as padding. \<open>substr\<close> with a length that has wrapped below zero
  returns the whole string.
\<close>

definition decode :: "string \<Rightarrow> (b64_error, string) result" where
  "decode text =
     (let postfix = replicate (count_list text (CHR ''='')) (CHR ''A'');
          source = take (length text - length postfix) text @ postfix
      in case decode_loop source of
           Inl e \<Rightarrow> Inl e
         | Inr res \<Rightarrow>
             Inr (if length postfix \<le> length res
                  then take (length res - length postfix) res else res))"

section \<open>\<open>Base64Escape\<close>\<close>

text \<open>
  \<open>UndefinedRead\<close> marks the two places where the code reads outside an object: the last character
  of an empty line, and the output buffer when more than three \<open>=\<close> have been counted.
\<close>

datatype esc_error =
    NotInitialized | AlphabetExceeded | UnknownEscape | InvalidBase64 | UndefinedRead

fun Init_from :: "string \<Rightarrow> nat \<Rightarrow> (char \<times> nat) list \<Rightarrow> (char \<times> nat) list" where
  "Init_from [] i table = table"
| "Init_from (c # cs) i table = Init_from cs (i + 1) ((c, i) # filter (\<lambda>p. fst p \<noteq> c) table)"

definition Init :: "(char \<times> nat) list" where
  "Init = Init_from Alphabet 0 []"

record enc_state =
  inBuff :: "u32 list"
  numEq :: nat
  out :: string

definition enc_init :: enc_state where
  "enc_init = \<lparr>inBuff = [], numEq = 0, out = []\<rparr>"

text \<open>Three buffered bytes make one quartet, of which \<open>numEq\<close> letters become \<open>=\<close>.\<close>

definition Encode_flush :: "enc_state \<Rightarrow> (esc_error, enc_state) result" where
  "Encode_flush s =
     (let b0 = inBuff s ! 0; b1 = inBuff s ! 1; b2 = inBuff s ! 2;
          outputBuff = [drop_bit 2 b0 AND 0x3F,
                        push_bit 4 (b0 AND 0x3) OR (drop_bit 4 b1 AND 0xF),
                        push_bit 2 (b1 AND 0xF) OR (drop_bit 6 b2 AND 0x3),
                        b2 AND 0x3F];
          used = take (4 - numEq s) outputBuff
      in if \<exists>w \<in> set used. unat w \<ge> length Alphabet then Inl AlphabetExceeded
         else Inr (s\<lparr>inBuff := [],
                     out := out s @ map (\<lambda>w. Alphabet ! unat w) used
                            @ replicate (numEq s) (CHR ''='')\<rparr>))"

definition Encode_char :: "bool \<Rightarrow> enc_state \<Rightarrow> char \<Rightarrow> (esc_error, enc_state) result" where
  "Encode_char veryLast s c =
     (let s1 = s\<lparr>inBuff := inBuff s @ [widen c]\<rparr>;
          s2 = (if veryLast
                then (let n = 3 - length (inBuff s1)
                      in s1\<lparr>numEq := n, inBuff := inBuff s1 @ replicate n 0\<rparr>)
                else s1)
      in if length (inBuff s2) = 3 then Encode_flush s2 else Inr s2)"

fun Encode_line :: "bool \<Rightarrow> enc_state \<Rightarrow> string \<Rightarrow> (esc_error, enc_state) result" where
  "Encode_line lastLine s [] = Inr s"
| "Encode_line lastLine s (c # cs) =
     (case Encode_char (lastLine \<and> cs = []) s c of
        Inl e \<Rightarrow> Inl e
      | Inr s' \<Rightarrow> Encode_line lastLine s' cs)"

fun Encode_lines :: "char \<Rightarrow> enc_state \<Rightarrow> string list \<Rightarrow> (esc_error, enc_state) result" where
  "Encode_lines endline s [] = Inr s"
| "Encode_lines endline s (l # ls) =
     (if endline \<noteq> CHR 0x00 \<and> l = [] then Inl UndefinedRead
      else (let l' = (if endline \<noteq> CHR 0x00 \<and> last l \<noteq> endline \<and> ls \<noteq> []
                      then l @ [endline] else l)
            in case Encode_line (ls = []) s l' of
                 Inl e \<Rightarrow> Inl e
               | Inr s' \<Rightarrow> Encode_lines endline s' ls))"

definition Encode :: "(char \<times> nat) list \<Rightarrow> string list \<Rightarrow> char \<Rightarrow> (esc_error, string) result" where
  "Encode revLookup data endline =
     (if revLookup = [] then Inl NotInitialized
      else (case Encode_lines endline enc_init data of Inl e \<Rightarrow> Inl e | Inr s \<Rightarrow> Inr (out s)))"

record dec_state =
  esc :: bool
  eqs :: nat
  curr :: string
  dBuff :: "u32 list"
  dRes :: "string list"

definition dec_init :: dec_state where
  "dec_init = \<lparr>esc = False, eqs = 0, curr = [], dBuff = [], dRes = []\<rparr>"

fun lookup_all :: "(char \<times> nat) list \<Rightarrow> u32 list \<Rightarrow> (esc_error, u32 list) result" where
  "lookup_all revLookup [] = Inr []"
| "lookup_all revLookup (w # ws) =
     (case (if w = widen (CHR ''='') then Some 0 else map_of revLookup (narrow w)) of
        None \<Rightarrow> Inl InvalidBase64
      | Some v \<Rightarrow>
          (case lookup_all revLookup ws of
             Inl e \<Rightarrow> Inl e
           | Inr vs \<Rightarrow> Inr (word_of_nat v # vs)))"

fun Decode_emit :: "char \<Rightarrow> dec_state \<Rightarrow> string \<Rightarrow> dec_state" where
  "Decode_emit split s [] = s"
| "Decode_emit split s (c # cs) =
     Decode_emit split
       (if c = split \<and> split \<noteq> CHR 0x00
        then s\<lparr>dRes := dRes s @ [curr s], curr := []\<rparr>
        else s\<lparr>curr := curr s @ [c]\<rparr>) cs"

definition Decode_flush ::
    "(char \<times> nat) list \<Rightarrow> char \<Rightarrow> dec_state \<Rightarrow> (esc_error, dec_state) result" where
  "Decode_flush revLookup split s =
     (case lookup_all revLookup (dBuff s) of
        Inl e \<Rightarrow> Inl e
      | Inr b \<Rightarrow>
          (let outputBuff =
                 [narrow (push_bit 2 (b ! 0) OR drop_bit 4 (b ! 1)),
                  narrow (push_bit 4 (b ! 1 AND 0xF) OR drop_bit 2 (b ! 2)),
                  narrow (push_bit 6 (b ! 2 AND 0x3) OR (b ! 3 AND 0x3F))]
           in if eqs s > 3 then Inl UndefinedRead
              else Inr (Decode_emit split (s\<lparr>dBuff := []\<rparr>) (take (3 - eqs s) outputBuff))))"

text \<open>The characters after an escape dot: \<open>1\<close> and \<open>2\<close> are replaced, a second dot stays.\<close>

definition Decode_push ::
    "(char \<times> nat) list \<Rightarrow> char \<Rightarrow> dec_state \<Rightarrow> char \<Rightarrow> (esc_error, dec_state) result" where
  "Decode_push revLookup split s c =
     (let s1 = (if c = CHR ''='' then s\<lparr>eqs := eqs s + 1\<rparr> else s);
          s2 = s1\<lparr>dBuff := dBuff s1 @ [widen c]\<rparr>
      in if length (dBuff s2) = 4 then Decode_flush revLookup split s2 else Inr s2)"

definition Decode_char ::
    "(char \<times> nat) list \<Rightarrow> char \<Rightarrow> dec_state \<Rightarrow> char \<Rightarrow> (esc_error, dec_state) result" where
  "Decode_char revLookup split s c =
     (if esc s then
        (let s1 = s\<lparr>esc := False\<rparr>
         in if c = CHR ''1'' then Decode_push revLookup split s1 (CHR '';'')
            else if c = CHR ''2'' then Decode_push revLookup split s1 (CHR '':'')
            else if c = CHR ''2'' then Decode_push revLookup split s1 (CHR 0x0A)
            else if c \<noteq> CHR ''.'' then Inl UnknownEscape
            else Decode_push revLookup split s1 c)
      else if c = CHR ''.'' then Inr (s\<lparr>esc := True\<rparr>)
      else Decode_push revLookup split s c)"

definition Decode :: "(char \<times> nat) list \<Rightarrow> string \<Rightarrow> char \<Rightarrow> (esc_error, string list) result" where
  "Decode revLookup data split =
     (if revLookup = [] then Inl NotInitialized
      else (case run_list (Decode_char revLookup split) dec_init data of
              Inl e \<Rightarrow> Inl e
            | Inr s \<Rightarrow> Inr (dRes s @ [curr s])))"

section \<open>The reference encoder\<close>

fun rfc64 :: "nat list \<Rightarrow> string" where
  "rfc64 [] = []"
| "rfc64 [a] = [Alphabet ! (a div 4), Alphabet ! (a mod 4 * 16), CHR ''='', CHR ''='']"
| "rfc64 [a, b] = [Alphabet ! (a div 4), Alphabet ! (a mod 4 * 16 + b div 16),
                   Alphabet ! (b mod 16 * 4), CHR ''='']"
| "rfc64 (a # b # c # bs) =
     [Alphabet ! (a div 4), Alphabet ! (a mod 4 * 16 + b div 16),
      Alphabet ! (b mod 16 * 4 + c div 64), Alphabet ! (c mod 64)] @ rfc64 bs"

abbreviation bytes_of :: "string \<Rightarrow> nat list" where
  "bytes_of s \<equiv> map of_char s"

text \<open>
  The contract of a base-64 codec: on the byte strings it supports it encodes as the reference
  does, and it decodes every reference encoding.
\<close>

locale base64_codec =
  fixes enc :: "string \<Rightarrow> ('e, string) result"
    and dec :: "string \<Rightarrow> ('e, string) result"
    and supported :: "string \<Rightarrow> bool"
  assumes enc_ref: "supported s \<Longrightarrow> enc s = Inr (rfc64 (bytes_of s))"
    and dec_ref: "s \<noteq> [] \<Longrightarrow> dec (rfc64 (bytes_of s)) = Inr s"
begin

lemma roundtrip: "supported s \<Longrightarrow> s \<noteq> [] \<Longrightarrow> enc s = Inr t \<Longrightarrow> dec t = Inr s"
  by (auto simp: enc_ref dec_ref)

lemma encode_inj:
  "supported s \<Longrightarrow> supported s' \<Longrightarrow> s \<noteq> [] \<Longrightarrow> s' \<noteq> [] \<Longrightarrow> enc s = enc s' \<Longrightarrow> s = s'"
  using roundtrip by (metis enc_ref sum.inject(2))

end

section \<open>Arithmetic of the quartets\<close>

lemma unat_widen_mod: "unat (widen c) mod 256 = of_char c"
proof (cases "(of_char c :: nat) < 128")
  case True
  then show ?thesis by (simp add: widen_def unsigned_of_nat take_bit_nat_eq_self)
next
  case False
  have b: "(of_char c :: nat) < 256" by (rule nat_of_char_less_256)
  have "int (unat (widen c) mod 256) = (of_char c - 256) mod 2 ^ 32 mod 256"
    using False by (simp add: widen_def zmod_int unsigned_of_int take_bit_eq_mod del: of_int_diff of_int_numeral)
  also have "\<dots> = of_char c"
    using b by (simp add: mod_mod_cancel)
  finally have "int (unat (widen c) mod 256) = int (of_char c)"
    by (simp only: of_nat_of_char)
  then show ?thesis by (simp only: of_nat_eq_iff)
qed

lemma unat_widen_ascii: "(of_char c :: nat) < 128 \<Longrightarrow> unat (widen c) = of_char c"
  by (simp add: widen_def unsigned_of_nat take_bit_nat_eq_self)

lemma narrow_byte: "unat w mod 256 = of_char c \<Longrightarrow> narrow w = c"
  by (metis narrow_def char_of_mod_256 char_of_char)

lemma quartet_arith:
  fixes X b c :: nat
  assumes "b < 256" "c < 256"
  defines "v \<equiv> X * 65536 + b * 256 + c"
  shows "v div 262144 mod 64 = X mod 256 div 4"
    "v div 4096 mod 64 = X mod 256 mod 4 * 16 + b div 16"
    "v div 64 mod 64 = b mod 16 * 4 + c div 64"
    "v mod 64 = c mod 64"
proof -
  obtain q a1 a2 where X: "X = 256 * q + 4 * a1 + a2" and a: "a1 < 64" "a2 < 4"
  proof
    have "4 dvd (256 :: nat)" by simp
    then have "X mod 256 mod 4 = X mod 4" by (rule mod_mod_cancel)
    then show "X = 256 * (X div 256) + 4 * (X mod 256 div 4) + X mod 4"
      using mult_div_mod_eq [of 256 X] mult_div_mod_eq [of 4 "X mod 256"] by linarith
  qed (simp_all add: less_mult_imp_div_less)
  obtain b1 b2 where b: "b = 16 * b1 + b2" "b1 < 16" "b2 < 16"
    using assms(1) by (metis less_mult_imp_div_less mod_less_divisor mult_div_mod_eq
        numeral_Bit0 numeral_times_numeral semiring_norm(11-13) zero_less_numeral)
  obtain c1 c2 where c: "c = 64 * c1 + c2" "c1 < 4" "c2 < 64"
  proof
    show "c = 64 * (c div 64) + c mod 64" by simp
  qed (use assms(2) in \<open>simp_all add: less_mult_imp_div_less\<close>)
  have mm: "r < 64 \<Longrightarrow> (64 * n + r) mod 64 = r" for n r :: nat by simp
  have "v div 262144 = 64 * q + a1"
    by (rule div_nat_eqI) (use a b c in \<open>simp_all add: v_def X\<close>)
  then have 1: "v div 262144 mod 64 = a1" using a by (simp only: mm)
  have "v div 4096 = 64 * (64 * q + a1) + (16 * a2 + b1)"
    by (rule div_nat_eqI) (use a b c in \<open>simp_all add: v_def X\<close>)
  then have 2: "v div 4096 mod 64 = 16 * a2 + b1" using a b by (simp only: mm)
  have "v div 64 = 64 * (64 * (64 * q + a1) + 16 * a2 + b1) + (4 * b2 + c1)"
    by (rule div_nat_eqI) (use a b c in \<open>simp_all add: v_def X\<close>)
  then have 3: "v div 64 mod 64 = 4 * b2 + c1" using b c by (simp only: mm)
  have "v = 64 * (64 * (64 * (64 * q + a1) + 16 * a2 + b1) + 4 * b2 + c1) + c2"
    by (simp add: v_def X b c)
  then have 4: "v mod 64 = c2" using c by (simp only: mm)
  have x: "X mod 256 = 4 * a1 + a2"
    using a by (simp add: X add.assoc)
  show "v div 262144 mod 64 = X mod 256 div 4"
    "v div 4096 mod 64 = X mod 256 mod 4 * 16 + b div 16"
    "v div 64 mod 64 = b mod 16 * 4 + c div 64"
    "v mod 64 = c mod 64"
    using a b c by (simp_all add: 1 2 3 4 x)
qed

lemma triplet_unat:
  assumes "(of_char b :: nat) < 128" "(of_char c :: nat) < 128"
  shows "unat (push_bit 16 (widen a) OR push_bit 8 (widen b) OR widen c) =
    (unat (widen a) mod 65536) * 65536 + of_char b * 256 + of_char c"
proof -
  have l: "unat (push_bit 8 (widen b) OR widen c) = of_char b * 256 + of_char c"
    using assms by (subst unat_push_or) (simp_all add: unat_widen_ascii)
  have "unat (push_bit 16 (widen a)) = push_bit 16 (unat (widen a) mod 65536)"
    unfolding unsigned_push_bit_eq by (simp only: take_bit_push_bit) (simp add: take_bit_eq_mod)
  then have "unat (push_bit 16 (widen a) OR push_bit 8 (widen b) OR widen c) =
      push_bit 16 (unat (widen a) mod 65536) OR (of_char b * 256 + of_char c)"
    by (simp only: unsigned_or_eq l [unfolded unsigned_or_eq] or.assoc)
  also have "\<dots> = (unat (widen a) mod 65536) * 65536 + of_char b * 256 + of_char c"
    using assms by (subst or_push_bit_nat) simp_all
  finally show ?thesis .
qed


lemma Alphabet_length: "length Alphabet = 64"
  by (simp add: Alphabet_def)

lemma Alphabet_distinct: "distinct Alphabet"
  by (simp add: Alphabet_def)

lemma RevLookup_from_nth:
  "distinct xs \<Longrightarrow> i < length xs \<Longrightarrow> RevLookup_from xs k (xs ! i) = Inr (k + i)"
proof (induction xs arbitrary: i k)
  case Nil
  then show ?case by simp
next
  case (Cons x xs)
  then show ?case by (cases i) auto
qed

lemma map_of_filter_other: "c \<noteq> d \<Longrightarrow> map_of (filter (\<lambda>p. fst p \<noteq> d) xs) c = map_of xs c"
  by (induction xs) auto

lemma Init_from_notin:
  "c \<notin> set xs \<Longrightarrow> map_of (Init_from xs k table) c = map_of table c"
  by (induction xs k table rule: Init_from.induct) (auto simp: map_of_filter_other)

lemma Init_from_nth:
  "distinct xs \<Longrightarrow> i < length xs \<Longrightarrow> map_of (Init_from xs k table) (xs ! i) = Some (k + i)"
proof (induction xs arbitrary: i k table)
  case Nil
  then show ?case by simp
next
  case (Cons x xs)
  then show ?case by (cases i) (auto simp: Init_from_notin)
qed

lemma Init_nth: "i < 64 \<Longrightarrow> map_of Init (Alphabet ! i) = Some i"
  by (simp add: Init_def Init_from_nth Alphabet_distinct Alphabet_length)

lemma Alphabet_nth:
  assumes "i < 64"
  shows "RevLookup (Alphabet ! i) = Inr i" "Alphabet ! i \<noteq> CHR ''=''" "Alphabet ! i \<noteq> CHR ''.''"
proof -
  have "CHR ''='' \<notin> set Alphabet" "CHR ''.'' \<notin> set Alphabet"
    by (simp_all add: Alphabet_def)
  then show "Alphabet ! i \<noteq> CHR ''=''" "Alphabet ! i \<noteq> CHR ''.''"
    using assms by (metis Alphabet_length nth_mem)+
  show "RevLookup (Alphabet ! i) = Inr i"
    using assms by (simp add: RevLookup_def RevLookup_from_nth Alphabet_distinct Alphabet_length)
qed

lemma Alphabet_0: "Alphabet ! 0 = CHR ''A''"
  by (simp add: Alphabet_def)

lemma mod3_Suc3 [simp]: "Suc (Suc (Suc n)) mod 3 = n mod 3"
  by presburger

lemma rfc64_append: "length xs mod 3 = 0 \<Longrightarrow> rfc64 (xs @ ys) = rfc64 xs @ rfc64 ys"
  by (induction xs rule: rfc64.induct) auto

lemma sextet_bounds:
  fixes a b c :: nat
  shows "a < 256 \<Longrightarrow> a div 4 < 64" "b < 256 \<Longrightarrow> a mod 4 * 16 + b div 16 < 64"
    "c < 256 \<Longrightarrow> b mod 16 * 4 + c div 64 < 64" "a mod 4 * 16 < 64" "b mod 16 * 4 < 64" "c mod 64 < 64"
proof -
  have m: "a mod 4 \<le> 3" "b mod 16 \<le> 15"
    using mod_less_divisor [of 4 a] mod_less_divisor [of 16 b] by linarith+
  show "a < 256 \<Longrightarrow> a div 4 < 64" by (simp add: less_mult_imp_div_less)
  show "a mod 4 * 16 + b div 16 < 64" if "b < 256"
    using m less_mult_imp_div_less [of b 16 16] that by simp
  show "b mod 16 * 4 + c div 64 < 64" if "c < 256"
    using m less_mult_imp_div_less [of c 4 64] that by simp
  show "a mod 4 * 16 < 64" "b mod 16 * 4 < 64" "c mod 64 < 64" using m by simp_all
qed

definition pad_count :: "nat \<Rightarrow> nat" where
  "pad_count n = (3 - n mod 3) mod 3"

lemma pad_count_Suc3 [simp]: "pad_count (Suc (Suc (Suc n))) = pad_count n"
  by (simp add: pad_count_def)

lemma pad_count_small [simp]: "pad_count 0 = 0" "pad_count (Suc 0) = 2" "pad_count (Suc (Suc 0)) = 1"
  by (simp_all add: pad_count_def)

lemma rep2: "replicate 2 x = [x, x]"
  by (simp add: numeral_2_eq_2)

lemma rfc64_length_pad: "length (rfc64 (bs @ replicate (pad_count (length bs)) 0)) = length (rfc64 bs)"
  by (induction bs rule: rfc64.induct) (simp_all add: rep2)

lemma rfc64_length_ge: "pad_count (length bs) \<le> length (rfc64 bs)"
  by (induction bs rule: rfc64.induct) simp_all

lemma rfc64_padding:
  "take (length (rfc64 bs) - pad_count (length bs)) (rfc64 (bs @ replicate (pad_count (length bs)) 0))
      @ replicate (pad_count (length bs)) (CHR ''='') = rfc64 bs"
  by (induction bs rule: rfc64.induct) (simp_all add: rep2 Suc_diff_le le_SucI rfc64_length_ge)

lemma rfc64_unpadding:
  "take (length (rfc64 bs) - pad_count (length bs)) (rfc64 bs) @ replicate (pad_count (length bs)) (CHR ''A'')
      = rfc64 (bs @ replicate (pad_count (length bs)) 0)"
  by (induction bs rule: rfc64.induct) (simp_all add: rep2 Alphabet_0 Suc_diff_le le_SucI rfc64_length_ge)

lemma rfc64_count_eq:
  assumes "\<forall>b \<in> set bs. b < 256"
  shows "count_list (rfc64 bs) (CHR ''='') = pad_count (length bs)"
  using assms by (induction bs rule: rfc64.induct) (simp_all add: sextet_bounds Alphabet_nth)

subsection \<open>Correctness of \<open>Base64\<close>\<close>

text \<open>
  The strings \<open>encode\<close> handles correctly: the second and third byte of every triplet are below 128
  (the first may be any byte).
\<close>

fun b64_supported :: "string \<Rightarrow> bool" where
  "b64_supported (a # b # c # s) \<longleftrightarrow>
     (of_char b :: nat) < 128 \<and> (of_char c :: nat) < 128 \<and> b64_supported s"
| "b64_supported [a, b] \<longleftrightarrow> (of_char b :: nat) < 128"
| "b64_supported s \<longleftrightarrow> True"

lemma b64_supported_pad:
  "b64_supported s \<Longrightarrow> b64_supported (s @ replicate (pad_count (length s)) (CHR 0x00))"
  by (induction s rule: b64_supported.induct) (simp_all add: rep2)

lemma add_pad_count: "(n + pad_count n) mod 3 = 0"
proof -
  have "n mod 3 = 0 \<or> n mod 3 = 1 \<or> n mod 3 = 2" by linarith
  then have "(n mod 3 + pad_count n) mod 3 = 0" by (auto simp: pad_count_def)
  then show ?thesis by (simp add: mod_add_left_eq)
qed

lemma encode_loop_rfc64:
  "b64_supported src \<Longrightarrow> length src mod 3 = 0 \<Longrightarrow> encode_loop src = Inr (rfc64 (bytes_of src))"
proof (induction src rule: encode_loop.induct)
  case (2 a b c src)
  let ?X = "unat (widen a) mod 65536"
  have X: "?X mod 256 = of_char a"
    by (simp add: mod_mod_cancel unat_widen_mod)
  have t: "unat (push_bit 16 (widen a) OR push_bit 8 (widen b) OR widen c) =
      ?X * 65536 + of_char b * 256 + of_char c"
    using 2 by (simp add: triplet_unat)
  have bc: "(of_char b :: nat) < 256" "(of_char c :: nat) < 256"
    by (rule nat_of_char_less_256)+
  show ?case
    using 2 quartet_arith [OF bc, of ?X]
    by (simp add: Let_def masks unat_and_mask unat_drop t X)
qed simp_all

lemma encode_rfc64:
  assumes "b64_supported s"
  shows "encode s = Inr (rfc64 (bytes_of s))"
proof -
  let ?p = "pad_count (length s)"
  have "encode_loop (s @ replicate ?p (CHR 0x00)) = Inr (rfc64 (bytes_of s @ replicate ?p 0))"
    by (subst encode_loop_rfc64) (simp_all add: b64_supported_pad assms add_pad_count)
  moreover have "take (length (rfc64 (bytes_of s @ replicate ?p 0)) - ?p)
      (rfc64 (bytes_of s @ replicate ?p 0)) @ replicate ?p (CHR ''='') = rfc64 (bytes_of s)"
    using rfc64_padding [of "bytes_of s"] rfc64_length_pad [of "bytes_of s"] by simp
  ultimately show ?thesis
    by (simp add: encode_def Let_def flip: pad_count_def)
qed

lemma tetra_unat:
  fixes r0 r1 r2 r3 :: nat
  assumes "r0 < 64" "r1 < 64" "r2 < 64" "r3 < 64"
  shows "unat ((push_bit 18 (word_of_nat r0) OR push_bit 12 (word_of_nat r1)
      OR push_bit 6 (word_of_nat r2) OR word_of_nat r3) :: u32) =
    r0 * 262144 + r1 * 4096 + r2 * 64 + r3"
proof -
  have u: "unat (word_of_nat r :: u32) = r" if "r < 64" for r
    using that by (simp add: unsigned_of_nat take_bit_nat_eq_self)
  have 3: "unat ((push_bit 6 (word_of_nat r2) OR word_of_nat r3) :: u32) = r2 * 64 + r3"
    using assms by (subst unat_push_or) (simp_all add: u)
  have 2: "unat ((push_bit 12 (word_of_nat r1) OR push_bit 6 (word_of_nat r2) OR word_of_nat r3) :: u32)
      = r1 * 4096 + (r2 * 64 + r3)"
    using assms by (subst unat_push_or) (simp_all add: u 3)
  show ?thesis
    using assms by (subst unat_push_or) (simp_all add: u 2)
qed

lemma sextets_recompose:
  fixes a b c :: nat
  shows "a div 4 * 262144 + (a mod 4 * 16 + b div 16) * 4096 + (b mod 16 * 4 + c div 64) * 64 + c mod 64
    = a * 65536 + b * 256 + c"
proof -
  have "q * 262144 + (r * 16 + s) * 4096 + (t * 4 + u) * 64 + v =
      (4 * q + r) * 65536 + (16 * s + t) * 256 + (64 * u + v)" for q r s t u v :: nat
    by (simp add: algebra_simps)
  from this [of "a div 4" "a mod 4" "b div 16" "b mod 16" "c div 64" "c mod 64"]
  show ?thesis by (simp only: mult_div_mod_eq)
qed

lemma byte_split:
  fixes a b c :: nat
  assumes "a < 256" "b < 256" "c < 256"
  shows "(a * 65536 + b * 256 + c) div 65536 = a" "(a * 65536 + b * 256 + c) div 256 mod 256 = b"
    "(a * 65536 + b * 256 + c) mod 256 = c"
proof -
  show "(a * 65536 + b * 256 + c) div 65536 = a"
    by (rule div_nat_eqI) (use assms in simp_all)
  have d: "(a * 65536 + b * 256 + c) div 256 = b + 256 * a"
    by (rule div_nat_eqI) (use assms in simp_all)
  show "(a * 65536 + b * 256 + c) div 256 mod 256 = b" using assms unfolding d by simp
  have d: "a * 65536 + b * 256 + c = c + 256 * (a * 256 + b)" by simp
  show "(a * 65536 + b * 256 + c) mod 256 = c"
    using assms by (simp only: d mod_mult_self2 mod_less)
qed

lemma decode_loop_rfc64:
  assumes "\<forall>b \<in> set bs. b < 256" and "length bs mod 3 = 0"
  shows "decode_loop (rfc64 bs) = Inr (map char_of bs)"
  using assms
proof (induction bs rule: rfc64.induct)
  case (4 a b c bs)
  then have abc: "a < 256" "b < 256" "c < 256" by simp_all
  note b = byte_split [OF abc]
  note t = tetra_unat [OF sextet_bounds(1) [OF abc(1)] sextet_bounds(2) [OF abc(2)]
      sextet_bounds(3) [OF abc(3)] sextet_bounds(6), of a b c, unfolded sextets_recompose]
  show ?case
    using 4 abc
    by (simp add: Let_def Alphabet_nth sextet_bounds masks narrow_def unat_and_mask unat_drop t b
        del: of_nat_add of_nat_mult)
qed simp_all

lemma char_0: "char_of (0 :: nat) = CHR 0x00"
  by (simp add: char_of_def)

lemma decode_rfc64:
  assumes "s \<noteq> []"
  shows "decode (rfc64 (bytes_of s)) = Inr s"
proof -
  let ?p = "pad_count (length s)"
  have b: "\<forall>b \<in> set (bytes_of s). b < 256"
    by (auto simp: nat_of_char_less_256)
  have "take (length (rfc64 (bytes_of s)) - ?p) (rfc64 (bytes_of s)) @ replicate ?p (CHR ''A'') =
      rfc64 (bytes_of s @ replicate ?p 0)"
    using rfc64_unpadding [of "bytes_of s"] by simp
  moreover have "decode_loop (rfc64 (bytes_of s @ replicate ?p 0)) =
      Inr (s @ replicate ?p (CHR 0x00))"
    using b by (subst decode_loop_rfc64) (auto simp: add_pad_count comp_def char_0)
  ultimately show ?thesis
    using rfc64_count_eq [OF b] by (simp add: decode_def Let_def)
qed

interpretation plain: base64_codec encode decode b64_supported
  by unfold_locales (simp_all add: encode_rfc64 decode_rfc64)

text \<open>A second byte of 128 or more is sign-extended over the first byte of its triplet.\<close>

lemma encode_sign_extended:
  assumes "(of_char b :: nat) \<ge> 128" "(of_char c :: nat) < 128"
  shows "encode [a, b, c] = Inr (rfc64 [255, of_char b, of_char c])"
proof -
  let ?X = "unat (widen a) mod 65536"
  have b: "(of_char b :: nat) < 256" by (rule nat_of_char_less_256)
  have m: "(int (of_char b) - 256) mod 4294967296 = int (of_char b) + 4294967040"
    using b mod_add_self2 [of "int (of_char b) - 256" 4294967296] by simp
  have o: "(of_char b :: int) = int (of_char b)" by (simp only: of_nat_of_char)
  have "int (unat (widen b)) = int (of_char b) + 4294967040"
    using assms(1) m by (simp add: widen_def unsigned_of_int take_bit_eq_mod o del: of_int_diff of_nat_of_char)
  then have "int (unat (widen b)) = int (of_char b + 4294967040)"
    by (simp only: of_nat_add of_nat_numeral)
  then have wb: "unat (widen b) = of_char b + 4294967040" by (simp only: of_nat_eq_iff)
  have m: "(of_char b + 4294967040) mod 16777216 = (of_char b :: nat) + 16776960"
    using b by (simp add: mod_if)
  have "unat (push_bit 8 (widen b)) = push_bit 8 (take_bit 24 (of_char b + 4294967040 :: nat))"
    unfolding unsigned_push_bit_eq wb by (simp only: take_bit_push_bit) simp
  then have "unat (push_bit 8 (widen b)) = 65535 * 2 ^ 16 + of_char b * 256"
    using b by (simp add: m push_bit_eq_mult take_bit_eq_mod)
  also have "\<dots> = push_bit 16 65535 OR of_char b * 256"
    using b by (subst or_push_bit_nat) simp_all
  finally have pb: "unat (push_bit 8 (widen b)) = push_bit 16 65535 OR push_bit 8 (of_char b)"
    by (simp add: push_bit_eq_mult)
  have pa: "unat (push_bit 16 (widen a)) = push_bit 16 ?X"
    unfolding unsigned_push_bit_eq by (simp only: take_bit_push_bit) (simp add: take_bit_eq_mod)
  have X: "?X OR 65535 = 65535"
  proof -
    have e: "?X = take_bit 16 (unat (widen a))" by (simp add: take_bit_eq_mod)
    have f: "(65535 :: nat) = mask 16" by (simp add: mask_eq_exp_minus_1)
    show ?thesis unfolding e f by (rule bit_eqI) (auto simp: bit_simps)
  qed
  have "unat (push_bit 16 (widen a) OR push_bit 8 (widen b) OR widen c) =
      (push_bit 16 ?X OR push_bit 16 65535) OR (push_bit 8 (of_char b) OR of_char c)"
    using assms(2) by (simp only: unsigned_or_eq pa pb unat_widen_ascii or.assoc)
  also have "\<dots> = push_bit 16 (?X OR 65535) OR (of_char b * 2 ^ 8 + of_char c)"
    by (subst (2) or_push_bit_nat) (simp_all only: push_bit_or nat_of_char_less_256, simp add: nat_of_char_less_256)
  also have "\<dots> = 65535 * 65536 + of_char b * 256 + of_char c"
  proof -
    have "of_char b * 256 + of_char c < (65536 :: nat)"
      using nat_of_char_less_256 [of b] assms(2) by linarith
    then have "push_bit 16 65535 OR (of_char b * 256 + of_char c) = 65535 * 2 ^ 16 + (of_char b * 256 + of_char c :: nat)"
      by (intro or_push_bit_nat) simp
    then show ?thesis unfolding X by simp
  qed
  finally have t0: "unat (push_bit 16 (widen a) OR push_bit 8 (widen b) OR widen c) =
      65535 * 65536 + of_char b * 256 + of_char c" .
  define Y where "Y = (65535 :: nat)"
  have t: "unat (push_bit 16 (widen a) OR push_bit 8 (widen b) OR widen c) =
      Y * 65536 + of_char b * 256 + of_char c"
    unfolding Y_def by (rule t0)
  have Y: "Y mod 256 = 255" by (simp add: Y_def)
  have bc: "(of_char b :: nat) < 256" "(of_char c :: nat) < 256"
    by (rule nat_of_char_less_256)+
  have pow_eqs: "(2 :: nat) ^ 18 = 262144" "(2 :: nat) ^ 12 = 4096" "(2 :: nat) ^ 6 = 64"
    by simp_all
  have "encode_loop [a, b, c] = Inr (rfc64 [Y mod 256, of_char b, of_char c])"
    by (simp only: encode_loop.simps Let_def masks unat_and_mask unat_drop t rfc64.simps sum.case
        pow_eqs quartet_arith [OF bc, of Y])
  then have l: "encode_loop [a, b, c] = Inr (rfc64 [255, of_char b, of_char c])"
    by (simp only: Y)
  have "length (rfc64 [255, of_char b, of_char c]) = 4" by simp
  then show ?thesis
    by (simp add: encode_def l del: encode_loop.simps rfc64.simps)
qed

subsection \<open>Correctness of \<open>Base64Escape\<close>\<close>

lemma Init_neq_Nil: "Init \<noteq> []"
  using Init_nth [of 0] by auto

text \<open>The low bits of a widened byte, as the masks of \<open>Encode\<close> read them.\<close>

lemma widen_bits:
  "unat (drop_bit 2 (widen c) AND mask 6) = of_char c div 4"
  "unat (widen c AND mask 2) = of_char c mod 4"
  "unat (drop_bit 4 (widen c) AND mask 4) = of_char c div 16"
  "unat (widen c AND mask 4) = of_char c mod 16"
  "unat (drop_bit 6 (widen c) AND mask 2) = of_char c div 64"
  "unat (widen c AND mask 6) = of_char c mod 64"
proof -
  let ?w = "unat (widen c)"
  have m: "of_char c = ?w mod 256" by (simp add: unat_widen_mod)
  have "?w mod 256 div 4 = ?w div 4 mod 64" "?w mod 256 div 16 = ?w div 16 mod 16"
    "?w mod 256 div 64 = ?w div 64 mod 4"
    subgoal using mod_mult2_eq [of ?w 4 64] by simp
    subgoal using mod_mult2_eq [of ?w 16 16] by simp
    subgoal using mod_mult2_eq [of ?w 64 4] by simp
    done
  note dm = this
  have p: "(2 :: nat) ^ 2 = 4" "(2 :: nat) ^ 4 = 16" "(2 :: nat) ^ 6 = 64"
    by simp_all
  show "unat (drop_bit 2 (widen c) AND mask 6) = of_char c div 4"
    "unat (drop_bit 4 (widen c) AND mask 4) = of_char c div 16"
    "unat (drop_bit 6 (widen c) AND mask 2) = of_char c div 64"
    by (simp_all only: unat_and_mask unat_drop m p dm)
  show "unat (widen c AND mask 2) = of_char c mod 4" "unat (widen c AND mask 4) = of_char c mod 16"
    "unat (widen c AND mask 6) = of_char c mod 64"
    by (simp_all add: unat_and_mask m mod_mod_cancel)
qed

lemma esc_quartet:
  "unat (push_bit 4 (widen a AND mask 2) OR (drop_bit 4 (widen b) AND mask 4)) =
     of_char a mod 4 * 16 + of_char b div 16"
  "unat (push_bit 2 (widen b AND mask 4) OR (drop_bit 6 (widen c) AND mask 2)) =
     of_char b mod 16 * 4 + of_char c div 64"
proof -
  have m: "(of_char a :: nat) mod 4 < 4" "(of_char b :: nat) mod 16 < 16"
    "(of_char b :: nat) div 16 < 16" "(of_char c :: nat) div 64 < 4"
    by (simp_all add: less_mult_imp_div_less nat_of_char_less_256)
  show "unat (push_bit 4 (widen a AND mask 2) OR (drop_bit 4 (widen b) AND mask 4)) =
     of_char a mod 4 * 16 + of_char b div 16"
    using m by (subst unat_push_or) (simp_all add: widen_bits)
  show "unat (push_bit 2 (widen b AND mask 4) OR (drop_bit 6 (widen c) AND mask 2)) =
     of_char b mod 16 * 4 + of_char c div 64"
    using m by (subst unat_push_or) (simp_all add: widen_bits)
qed

lemma Encode_flush_triplet:
  assumes "inBuff s = [widen a, widen b, widen c]" "numEq s < 3"
  shows "Encode_flush s = Inr (s\<lparr>inBuff := [],
    out := out s @ take (4 - numEq s) (rfc64 (bytes_of [a, b, c])) @ replicate (numEq s) (CHR ''='')\<rparr>)"
proof -
  define ob where "ob = [drop_bit 2 (widen a) AND mask 6,
    push_bit 4 (widen a AND mask 2) OR (drop_bit 4 (widen b) AND mask 4),
    push_bit 2 (widen b AND mask 4) OR (drop_bit 6 (widen c) AND mask 2), widen c AND mask 6]"
  have u: "map unat ob = [of_char a div 4, of_char a mod 4 * 16 + of_char b div 16,
      of_char b mod 16 * 4 + of_char c div 64, of_char c mod 64]"
    by (simp add: ob_def widen_bits esc_quartet del: push_bit_and)
  then have "\<forall>n \<in> set (map unat ob). n < 64"
    by (simp add: sextet_bounds)
  then have "\<forall>w \<in> set (take (4 - numEq s) ob). \<not> 64 \<le> unat w"
    by (auto dest!: in_set_takeD)
  moreover have "map (\<lambda>w. Alphabet ! unat w) (take n ob) = take n (rfc64 (bytes_of [a, b, c]))" for n
  proof -
    have "map (\<lambda>w. Alphabet ! unat w) (take n ob) = take n (map (\<lambda>i. Alphabet ! i) (map unat ob))"
      by (simp add: take_map comp_def)
    then show ?thesis by (simp only: u) simp
  qed
  moreover have "Encode_flush s = (let used = take (4 - numEq s) ob
      in if \<exists>w \<in> set used. unat w \<ge> length Alphabet then Inl AlphabetExceeded
         else Inr (s\<lparr>inBuff := [], out := out s @ map (\<lambda>w. Alphabet ! unat w) used
                            @ replicate (numEq s) (CHR ''='')\<rparr>))"
    by (simp only: Encode_flush_def Let_def assms(1) ob_def masks nth_Cons_0 nth_Cons_Suc numeral_2_eq_2 One_nat_def)
  ultimately show ?thesis
    by (simp add: Alphabet_length Let_def)
qed

lemma widen_NUL: "widen (CHR 0x00) = 0"
  by (simp add: widen_def)

lemma Encode_char_full:
  assumes "inBuff s = map widen [a, b]" "numEq s = 0"
  shows "Encode_char False s c =
    Inr (s\<lparr>inBuff := [], out := out s @ rfc64 (bytes_of [a, b, c])\<rparr>)"
  using assms by (simp add: Encode_char_def Encode_flush_triplet)

lemma Encode_char_short:
  assumes "inBuff s = map widen p" "length p < 2"
  shows "Encode_char False s c = Inr (s\<lparr>inBuff := map widen (p @ [c])\<rparr>)"
  using assms by (simp add: Encode_char_def)

lemma Encode_line_rest:
  assumes "inBuff s = map widen p" "length p < 3" "numEq s = 0"
  shows "\<exists>full p'. p @ cs = full @ p' \<and> length full mod 3 = 0 \<and> length p' < 3 \<and>
    Encode_line False s cs =
      Inr (s\<lparr>inBuff := map widen p', out := out s @ rfc64 (bytes_of full)\<rparr>)"
  using assms
proof (induction cs arbitrary: s p)
  case Nil
  then have "Encode_line False s [] = Inr (s\<lparr>inBuff := map widen p, out := out s @ rfc64 (bytes_of [])\<rparr>)"
    by simp
  with Nil.prems(2) show ?case by (metis append_Nil append_Nil2 length_0_conv mod_0)
next
  case (Cons c cs)
  show ?case
  proof (cases "length p = 2")
    case True
    then obtain a b where p: "p = [a, b]" by (auto simp: length_Suc_conv numeral_2_eq_2)
    let ?s = "s\<lparr>inBuff := [], out := out s @ rfc64 (bytes_of [a, b, c])\<rparr>"
    have e: "Encode_char False s c = Inr ?s"
      using Cons.prems p by (simp add: Encode_char_full)
    from Cons.IH [of ?s "[]"] Cons.prems(3) obtain full p' where
      f: "cs = full @ p'" "length full mod 3 = 0" "length p' < 3"
      and r: "Encode_line False ?s cs =
        Inr (?s\<lparr>inBuff := map widen p', out := out ?s @ rfc64 (bytes_of full)\<rparr>)"
      by auto
    have "Encode_line False s (c # cs) =
        Inr (s\<lparr>inBuff := map widen p', out := out s @ rfc64 (bytes_of (a # b # c # full))\<rparr>)"
      using r by (simp add: e)
    with f p show ?thesis by (intro exI [of _ "a # b # c # full"] exI [of _ p']) simp
  next
    case False
    then have l: "length p < 2" using Cons.prems(2) by simp
    let ?s = "s\<lparr>inBuff := map widen (p @ [c])\<rparr>"
    have e: "Encode_char False s c = Inr ?s"
      using Cons.prems(1) l by (rule Encode_char_short)
    from Cons.IH [of ?s "p @ [c]"] Cons.prems(3) l obtain full p' where
      f: "(p @ [c]) @ cs = full @ p'" "length full mod 3 = 0" "length p' < 3"
      and r: "Encode_line False ?s cs =
        Inr (?s\<lparr>inBuff := map widen p', out := out ?s @ rfc64 (bytes_of full)\<rparr>)"
      by fastforce
    then show ?thesis by (intro exI [of _ full] exI [of _ p']) (simp add: e)
  qed
qed

lemma Encode_char_last:
  assumes "inBuff s = map widen p" "length p < 3" "numEq s = 0"
  shows "\<exists>n. Encode_char True s c =
    Inr (s\<lparr>numEq := n, inBuff := [], out := out s @ rfc64 (bytes_of (p @ [c]))\<rparr>)"
proof -
  consider "p = []" | a where "p = [a]" | a b where "p = [a, b]"
    using assms(2) by (cases p; cases "tl p"; cases "tl (tl p)") auto
  then show ?thesis
  proof cases
    case 1
    then have "Encode_char True s c = Encode_flush (s\<lparr>numEq := 2, inBuff := [widen c, widen (CHR 0x00), widen (CHR 0x00)]\<rparr>)"
      using assms by (simp add: Encode_char_def Let_def widen_NUL rep2 del: replicate_Suc)
    then show ?thesis using 1 by (intro exI [of _ 2]) (simp add: Encode_flush_triplet rep2)
  next
    case (2 a)
    then have "Encode_char True s c = Encode_flush (s\<lparr>numEq := 1, inBuff := [widen a, widen c, widen (CHR 0x00)]\<rparr>)"
      using assms by (simp add: Encode_char_def Let_def widen_NUL)
    then show ?thesis using 2 by (intro exI [of _ 1]) (simp add: Encode_flush_triplet)
  next
    case (3 a b)
    then have "Encode_char True s c = Encode_flush (s\<lparr>numEq := 0, inBuff := [widen a, widen b, widen c]\<rparr>)"
      using assms by (simp add: Encode_char_def Let_def)
    then show ?thesis using 3 by (intro exI [of _ 0]) (simp add: Encode_flush_triplet)
  qed
qed

lemma Encode_line_append:
  "ys \<noteq> [] \<Longrightarrow> Encode_line l s (xs @ ys) =
     (case Encode_line False s xs of Inl e \<Rightarrow> Inl e | Inr s' \<Rightarrow> Encode_line l s' ys)"
  by (induction xs arbitrary: s) (auto split: sum.splits)

lemma Encode_line_last:
  assumes "inBuff s = map widen p" "length p < 3" "numEq s = 0" "cs \<noteq> []"
  shows "\<exists>n. Encode_line True s cs =
    Inr (s\<lparr>numEq := n, inBuff := [], out := out s @ rfc64 (bytes_of (p @ cs))\<rparr>)"
proof -
  obtain cs' c where cs: "cs = cs' @ [c]" using assms(4) by (cases cs rule: rev_cases) auto
  obtain full p' where f: "p @ cs' = full @ p'" "length full mod 3 = 0" "length p' < 3"
    and r: "Encode_line False s cs' =
      Inr (s\<lparr>inBuff := map widen p', out := out s @ rfc64 (bytes_of full)\<rparr>)" (is "_ = Inr ?s")
    using Encode_line_rest [OF assms(1-3), of cs'] by (elim exE conjE) (rule that; assumption)
  obtain n where n: "Encode_char True ?s c =
      Inr (?s\<lparr>numEq := n, inBuff := [], out := out ?s @ rfc64 (bytes_of (p' @ [c]))\<rparr>)"
    using Encode_char_last [of ?s p' c] f(3) assms(3) by auto
  have "p @ cs = full @ p' @ [c]" using f(1) by (simp add: cs)
  then have "rfc64 (bytes_of full) @ rfc64 (bytes_of (p' @ [c])) = rfc64 (bytes_of (p @ cs))"
    by (simp only: map_append) (simp add: rfc64_append f(2))
  then show ?thesis
    using n by (intro exI [of _ n]) (simp add: cs Encode_line_append r)
qed

text \<open>What \<open>Encode\<close> encodes: the lines, each but the last closed with the end-of-line character.\<close>

fun payload :: "char \<Rightarrow> string list \<Rightarrow> string" where
  "payload endline [] = []"
| "payload endline [l] = l"
| "payload endline (l # ls) =
     (if endline \<noteq> CHR 0x00 \<and> last l \<noteq> endline then l @ [endline] else l) @ payload endline ls"

lemma Encode_lines_payload:
  assumes "ls \<noteq> []" "last ls \<noteq> []" "endline \<noteq> CHR 0x00 \<Longrightarrow> [] \<notin> set ls"
    and "inBuff s = map widen p" "length p < 3" "numEq s = 0"
  shows "\<exists>s'. Encode_lines endline s ls = Inr s' \<and>
    out s' = out s @ rfc64 (bytes_of (p @ payload endline ls))"
  using assms
proof (induction endline ls arbitrary: s p rule: payload.induct)
  case (2 endline l)
  then obtain n where "Encode_line True s l =
      Inr (s\<lparr>numEq := n, inBuff := [], out := out s @ rfc64 (bytes_of (p @ l))\<rparr>)"
    using Encode_line_last [of s p l] by auto
  with 2 show ?case by auto
next
  case (3 endline l l2 ls)
  let ?l = "if endline \<noteq> CHR 0x00 \<and> last l \<noteq> endline then l @ [endline] else l"
  obtain full p' where f: "p @ ?l = full @ p'" "length full mod 3 = 0" "length p' < 3"
    and r: "Encode_line False s ?l =
      Inr (s\<lparr>inBuff := map widen p', out := out s @ rfc64 (bytes_of full)\<rparr>)" (is "_ = Inr ?s")
    using Encode_line_rest [OF 3(5-7), of ?l] by (elim exE conjE) (rule that; assumption)
  obtain s' where s': "Encode_lines endline ?s (l2 # ls) = Inr s'"
    "out s' = out ?s @ rfc64 (bytes_of (p' @ payload endline (l2 # ls)))"
    using "3.IH" [of ?s p'] 3(3,4,7) f(3) by auto
  have "\<not> (endline \<noteq> CHR 0x00 \<and> l = [])" using 3(4) by auto
  then have e: "Encode_lines endline s (l # l2 # ls) = Inr s'"
    using r s'(1) by (subst Encode_lines.simps) (simp del: Encode_lines.simps)
  have "rfc64 (bytes_of full) @ rfc64 (bytes_of (p' @ payload endline (l2 # ls))) =
      rfc64 (bytes_of ((full @ p') @ payload endline (l2 # ls)))"
    using f(2) by (simp add: rfc64_append)
  moreover have "(full @ p') @ payload endline (l2 # ls) = p @ payload endline (l # l2 # ls)"
    unfolding f(1) [symmetric] by simp
  ultimately have "out s' = out s @ rfc64 (bytes_of (p @ payload endline (l # l2 # ls)))"
    using s'(2) by (simp del: payload.simps map_append)
  with e show ?case by blast
qed simp

lemma Encode_payload:
  assumes "data \<noteq> []" "last data \<noteq> []" "endline \<noteq> CHR 0x00 \<Longrightarrow> [] \<notin> set data"
  shows "Encode Init data endline = Inr (rfc64 (bytes_of (payload endline data)))"
proof -
  obtain s' where "Encode_lines endline enc_init data = Inr s'"
    "out s' = out enc_init @ rfc64 (bytes_of ([] @ payload endline data))"
    using Encode_lines_payload [OF assms, where s = enc_init and p = "[]"] by (auto simp: enc_init_def)
  then show ?thesis by (simp add: Encode_def Init_neq_Nil enc_init_def)
qed

text \<open>What \<open>Decode\<close> splits at every occurrence of the separator.\<close>

fun split_on :: "char \<Rightarrow> string \<Rightarrow> string list" where
  "split_on e [] = [[]]"
| "split_on e (c # cs) =
     (if c = e \<and> e \<noteq> CHR 0x00 then [] # split_on e cs
      else (c # hd (split_on e cs)) # tl (split_on e cs))"

lemma split_on_neq_Nil [simp]: "split_on e s \<noteq> []"
  by (cases s) auto

lemma Decode_emit_split:
  "dRes (Decode_emit e s cs) @ [curr (Decode_emit e s cs)] =
     dRes s @ (curr s @ hd (split_on e cs)) # tl (split_on e cs)"
  by (induction e s cs rule: Decode_emit.induct) auto

lemma Decode_emit_frame [simp]:
  "esc (Decode_emit e s cs) = esc s" "eqs (Decode_emit e s cs) = eqs s"
  "dBuff (Decode_emit e s cs) = dBuff s"
  by (induction e s cs rule: Decode_emit.induct) auto

lemma Decode_emit_append:
  "Decode_emit e s (xs @ ys) = Decode_emit e (Decode_emit e s xs) ys"
  by (induction e s xs rule: Decode_emit.induct) auto

lemma narrow_widen [simp]: "narrow (widen c) = c"
  by (rule narrow_byte) (rule unat_widen_mod)

lemma widen_eq_iff [simp]: "widen c = widen d \<longleftrightarrow> c = d"
  by (metis narrow_widen)

lemma narrow_nat: "unat w = n \<Longrightarrow> narrow w = char_of n"
  by (simp add: narrow_def)

text \<open>Four sextets give back the three bytes.\<close>

lemma recombine:
  fixes a b c :: nat
  assumes "a < 256" "b < 256" "c < 256"
  shows
    "narrow (push_bit 2 (word_of_nat (a div 4)) OR drop_bit 4 (word_of_nat (a mod 4 * 16 + b div 16))) = char_of a"
    "narrow (push_bit 4 (word_of_nat (a mod 4 * 16 + b div 16) AND mask 4) OR
        drop_bit 2 (word_of_nat (b mod 16 * 4 + c div 64))) = char_of b"
    "narrow (push_bit 6 (word_of_nat (b mod 16 * 4 + c div 64) AND mask 2) OR
        (word_of_nat (c mod 64) AND mask 6)) = char_of c"
proof -
  have u: "unat (word_of_nat r :: u32) = r" if "r < 64" for r
    using that by (simp add: unsigned_of_nat take_bit_nat_eq_self)
  note u1 = u [OF sextet_bounds(1) [OF assms(1)]] and u2 = u [OF sextet_bounds(2) [OF assms(2), of a]]
    and u3 = u [OF sextet_bounds(3) [OF assms(3), of b]] and u4 = u [OF sextet_bounds(6) [of c]]
  have d: "a div 4 < 64" "a mod 4 < 4" "b div 16 < 16" "b mod 16 < 16" "c div 64 < 4"
    using assms by (simp_all add: less_mult_imp_div_less)
  have n: "(x * 16 + y) div 16 = x" "(x * 16 + y) mod 16 = y" if "y < 16" for x y :: nat
    using that by simp_all
  have n4: "(x * 4 + y) div 4 = x" "(x * 4 + y) mod 4 = y" if "y < 4" for x y :: nat
    using that by simp_all
  have "unat (push_bit 2 (word_of_nat (a div 4)) OR drop_bit 4 (word_of_nat (a mod 4 * 16 + b div 16)) :: u32) =
      a div 4 * 2 ^ 2 + (a mod 4 * 16 + b div 16) div 2 ^ 4"
    using d by (subst unat_push_or) (simp_all add: u1 u2 unat_drop n del: of_nat_add of_nat_mult)
  then show "narrow (push_bit 2 (word_of_nat (a div 4)) OR drop_bit 4 (word_of_nat (a mod 4 * 16 + b div 16))) = char_of a"
    using d by (intro narrow_nat) (simp add: n del: of_nat_add of_nat_mult)
  have "unat (push_bit 4 (word_of_nat (a mod 4 * 16 + b div 16) AND mask 4) OR
        drop_bit 2 (word_of_nat (b mod 16 * 4 + c div 64)) :: u32) = b div 16 * 2 ^ 4 + b mod 16"
    using d by (subst unat_push_or) (simp_all add: u2 u3 unat_drop unat_and_mask n n4 del: of_nat_add of_nat_mult push_bit_and)
  then show "narrow (push_bit 4 (word_of_nat (a mod 4 * 16 + b div 16) AND mask 4) OR
        drop_bit 2 (word_of_nat (b mod 16 * 4 + c div 64))) = char_of b"
    by (intro narrow_nat) (simp del: of_nat_add of_nat_mult push_bit_and)
  have "unat (push_bit 6 (word_of_nat (b mod 16 * 4 + c div 64) AND mask 2) OR
        (word_of_nat (c mod 64) AND mask 6) :: u32) = c div 64 * 2 ^ 6 + c mod 64"
    using d by (subst unat_push_or) (simp_all add: u3 u4 unat_and_mask n4 del: of_nat_add of_nat_mult push_bit_and)
  then show "narrow (push_bit 6 (word_of_nat (b mod 16 * 4 + c div 64) AND mask 2) OR
        (word_of_nat (c mod 64) AND mask 6)) = char_of c"
    by (intro narrow_nat) (simp del: of_nat_add of_nat_mult push_bit_and)
qed

lemma lookup_letter:
  "i < 64 \<Longrightarrow> lookup_all Init (widen (Alphabet ! i) # ws) =
     (case lookup_all Init ws of Inl e \<Rightarrow> Inl e | Inr vs \<Rightarrow> Inr (word_of_nat i # vs))"
  by (simp add: Alphabet_nth Init_nth)

lemma lookup_pad:
  "lookup_all Init (widen (CHR ''='') # ws) =
     (case lookup_all Init ws of Inl e \<Rightarrow> Inl e | Inr vs \<Rightarrow> Inr (0 # vs))"
  by (simp split: sum.split)

text \<open>Feeding one quartet without escapes.\<close>

lemma Decode_char_buffers:
  assumes "\<not> esc s" "c \<noteq> CHR ''.''"
  defines "s' \<equiv> s\<lparr>eqs := eqs s + count_list [c] (CHR ''=''), dBuff := dBuff s @ [widen c]\<rparr>"
  shows "length (dBuff s) < 3 \<Longrightarrow> Decode_char Init e s c = Inr s'"
    "length (dBuff s) = 3 \<Longrightarrow> Decode_char Init e s c = Decode_flush Init e s'"
  using assms(1,2) by (simp_all add: Decode_char_def Decode_push_def s'_def)

lemma Decode_quartet:
  assumes "dBuff s = []" "\<not> esc s" "CHR ''.'' \<notin> set [w, x, y, z]"
  shows "run_list (Decode_char Init e) s [w, x, y, z] =
    Decode_flush Init e
      (s\<lparr>eqs := eqs s + count_list [w, x, y, z] (CHR ''=''), dBuff := map widen [w, x, y, z]\<rparr>)"
proof -
  have n: "w \<noteq> CHR ''.''" "x \<noteq> CHR ''.''" "y \<noteq> CHR ''.''" "z \<noteq> CHR ''.''"
    using assms(3) by auto
  have r: "(case f of Inl e \<Rightarrow> Inl e | Inr s' \<Rightarrow> run_list g s' []) = f"
    for f :: "(esc_error, dec_state) result" and g :: "dec_state \<Rightarrow> char \<Rightarrow> (esc_error, dec_state) result"
    by (cases f) auto
  show ?thesis
    using assms(1,2) n by (simp add: Decode_char_buffers r del: count_list.simps) simp
qed

lemma Decode_flush_quartet:
  assumes "dBuff s = map widen [Alphabet ! i, Alphabet ! j, Alphabet ! k, Alphabet ! l]"
    and "i < 64" "j < 64" "k < 64" "l < 64" "eqs s \<le> 3"
  shows "Decode_flush Init e s = Inr (Decode_emit e (s\<lparr>dBuff := []\<rparr>) (take (3 - eqs s)
    [narrow (push_bit 2 (word_of_nat i) OR drop_bit 4 (word_of_nat j)),
     narrow (push_bit 4 (word_of_nat j AND mask 4) OR drop_bit 2 (word_of_nat k)),
     narrow (push_bit 6 (word_of_nat k AND mask 2) OR (word_of_nat l AND mask 6))]))"
  using assms lookup_letter
  by (simp add: Decode_flush_def Let_def masks del: lookup_all.simps(2) push_bit_and of_nat_add)

lemma Alphabet_nodot: "i < 64 \<Longrightarrow> CHR ''.'' \<noteq> Alphabet ! i"
  using Alphabet_nth(3) by metis

lemma Decode_rfc64_triplet:
  assumes "a < 256" "b < 256" "c < 256" "dBuff s = []" "\<not> esc s" "eqs s = 0"
  shows "run_list (Decode_char Init e) s (rfc64 [a, b, c]) =
    Inr (Decode_emit e s (map char_of [a, b, c]))"
proof -
  note x = sextet_bounds(1) [OF assms(1)] sextet_bounds(2) [OF assms(2), of a]
    sextet_bounds(3) [OF assms(3), of b] sextet_bounds(6) [of c]
  have "run_list (Decode_char Init e) s (rfc64 [a, b, c]) = Decode_flush Init e
      (s\<lparr>eqs := 0, dBuff := map widen [Alphabet ! (a div 4), Alphabet ! (a mod 4 * 16 + b div 16),
        Alphabet ! (b mod 16 * 4 + c div 64), Alphabet ! (c mod 64)]\<rparr>)"
    unfolding rfc64.simps append_Nil2 by (subst Decode_quartet) (use assms x Alphabet_nodot in \<open>simp_all add: Alphabet_nth\<close>)
  also have "\<dots> = Inr (Decode_emit e (s\<lparr>eqs := 0, dBuff := []\<rparr>) (map char_of [a, b, c]))" (is "Decode_flush Init e ?s = _")
  proof -
    have "Decode_flush Init e ?s = Inr (Decode_emit e (?s\<lparr>dBuff := []\<rparr>) (take (3 - eqs ?s)
        [char_of a, char_of b, char_of c]))"
      unfolding recombine [OF assms(1-3), symmetric]
      by (rule Decode_flush_quartet [OF _ x]) simp_all
    then show ?thesis by simp
  qed
  also have "s\<lparr>eqs := 0, dBuff := []\<rparr> = s" using assms(4,6) by simp
  finally show ?thesis .
qed

lemma eq_not_dot: "CHR ''.'' \<noteq> CHR ''=''"
  by simp

lemma Decode_flush_padded:
  assumes "dBuff s = map widen ([Alphabet ! i, Alphabet ! j] @ x)" "eqs s \<le> 3"
    "x = [Alphabet ! k, CHR ''=''] \<and> l = 0 \<or> x = [CHR ''='', CHR ''=''] \<and> k = 0 \<and> l = 0"
    and "i < 64" "j < 64" "k < 64"
  shows "Decode_flush Init e s = Inr (Decode_emit e (s\<lparr>dBuff := []\<rparr>) (take (3 - eqs s)
    [narrow (push_bit 2 (word_of_nat i) OR drop_bit 4 (word_of_nat j)),
     narrow (push_bit 4 (word_of_nat j AND mask 4) OR drop_bit 2 (word_of_nat k)),
     narrow (push_bit 6 (word_of_nat k AND mask 2) OR (word_of_nat l AND mask 6))]))"
  using assms lookup_letter lookup_pad
  by (auto simp add: Decode_flush_def Let_def masks simp del: lookup_all.simps(2) push_bit_and of_nat_add)

lemma Decode_rfc64_pair:
  assumes "a < 256" "b < 256" "dBuff s = []" "\<not> esc s" "eqs s = 0"
  shows "run_list (Decode_char Init e) s (rfc64 [a, b]) =
    Inr (Decode_emit e (s\<lparr>eqs := 1\<rparr>) (map char_of [a, b]))"
proof -
  have z: "(0 :: nat) < 256" by simp
  note x = sextet_bounds(1) [OF assms(1)] sextet_bounds(2) [OF assms(2), of a] sextet_bounds(5) [of b]
  note r = recombine [OF assms(1,2) z, unfolded div_0 mod_0 add_0_right, symmetric]
  let ?s = "s\<lparr>eqs := 1, dBuff := map widen [Alphabet ! (a div 4), Alphabet ! (a mod 4 * 16 + b div 16),
        Alphabet ! (b mod 16 * 4), CHR ''='']\<rparr>"
  have "run_list (Decode_char Init e) s (rfc64 [a, b]) = Decode_flush Init e ?s"
    unfolding rfc64.simps append_Nil2
    by (subst Decode_quartet) (use assms x Alphabet_nodot in \<open>simp_all add: Alphabet_nth\<close>)
  also have "\<dots> = Inr (Decode_emit e (?s\<lparr>dBuff := []\<rparr>) (take (3 - eqs ?s)
      [char_of a, char_of b, char_of (0 :: nat)]))"
    unfolding r
    by (rule Decode_flush_padded [OF _ _ _ x, where x = "[Alphabet ! (b mod 16 * 4), CHR ''='']"]) simp_all
  also have "?s\<lparr>dBuff := []\<rparr> = s\<lparr>eqs := 1\<rparr>" using assms(3) by simp
  finally show ?thesis by (simp add: numeral_2_eq_2)
qed

lemma Decode_rfc64_single:
  assumes "a < 256" "dBuff s = []" "\<not> esc s" "eqs s = 0"
  shows "run_list (Decode_char Init e) s (rfc64 [a]) =
    Inr (Decode_emit e (s\<lparr>eqs := 2\<rparr>) (map char_of [a]))"
proof -
  have z: "(0 :: nat) < 256" by simp
  note x = sextet_bounds(1) [OF assms(1)] sextet_bounds(4) [of a] zero_less_numeral [of "num.Bit0 (num.Bit0 (num.Bit0 (num.Bit0 (num.Bit0 (num.Bit0 num.One)))))", where 'a = nat]
  note r = recombine [OF assms(1) z z, unfolded div_0 mod_0 add_0_right mult_zero_left, symmetric]
  let ?s = "s\<lparr>eqs := 2, dBuff := map widen [Alphabet ! (a div 4), Alphabet ! (a mod 4 * 16),
        CHR ''='', CHR ''='']\<rparr>"
  have "run_list (Decode_char Init e) s (rfc64 [a]) = Decode_flush Init e ?s"
    unfolding rfc64.simps append_Nil2
    by (subst Decode_quartet) (use assms x Alphabet_nodot in \<open>simp_all add: Alphabet_nth numeral_2_eq_2\<close>)
  also have "\<dots> = Inr (Decode_emit e (?s\<lparr>dBuff := []\<rparr>) (take (3 - eqs ?s) [char_of a,
      narrow (push_bit 4 (word_of_nat (a mod 4 * 16) AND mask 4) OR drop_bit 2 (word_of_nat 0)),
      narrow (push_bit 6 (word_of_nat 0 AND mask 2) OR (word_of_nat 0 AND mask 6))]))"
    unfolding r(1)
    by (rule Decode_flush_padded [OF _ _ _ x, where x = "[CHR ''='', CHR ''='']"]) simp_all
  also have "?s\<lparr>dBuff := []\<rparr> = s\<lparr>eqs := 2\<rparr>" using assms(2) by simp
  finally show ?thesis by simp
qed

lemma Decode_emit_eqs: "Decode_emit e (s\<lparr>eqs := n\<rparr>) cs = (Decode_emit e s cs)\<lparr>eqs := n\<rparr>"
proof (induction e s cs rule: Decode_emit.induct)
  case (2 split s c cs)
  have "s\<lparr>eqs := n, dRes := x, curr := y\<rparr> = s\<lparr>dRes := x, curr := y\<rparr>\<lparr>eqs := n\<rparr>"
    "s\<lparr>eqs := n, curr := y\<rparr> = s\<lparr>curr := y\<rparr>\<lparr>eqs := n\<rparr>" for x y
    by (cases s; simp)+
  note upd = this
  show ?case
  proof (cases "c = split \<and> split \<noteq> CHR 0x00")
    case True
    then have "Decode_emit split (s\<lparr>eqs := n\<rparr>) (c # cs) =
        Decode_emit split (s\<lparr>dRes := dRes s @ [curr s], curr := []\<rparr>\<lparr>eqs := n\<rparr>) cs"
      by (simp flip: upd)
    with 2 True show ?thesis by simp
  next
    case False
    then have "Decode_emit split (s\<lparr>eqs := n\<rparr>) (c # cs) =
        Decode_emit split (s\<lparr>curr := curr s @ [c]\<rparr>\<lparr>eqs := n\<rparr>) cs"
      by (subst Decode_emit.simps) (simp only: if_False upd, simp)
    also have "\<dots> = (Decode_emit split (s\<lparr>curr := curr s @ [c]\<rparr>) cs)\<lparr>eqs := n\<rparr>"
      using 2 False by (simp only: if_False)
    also have "Decode_emit split (s\<lparr>curr := curr s @ [c]\<rparr>) cs = Decode_emit split s (c # cs)"
      using False by (subst Decode_emit.simps) (simp only: if_False)
    finally show ?thesis .
  qed
qed simp

lemma Decode_run_rfc64:
  assumes "dBuff s = []" "\<not> esc s" "eqs s = 0"
  shows "\<exists>n. run_list (Decode_char Init e) s (rfc64 (bytes_of cs)) =
    Inr ((Decode_emit e s cs)\<lparr>eqs := n\<rparr>)"
  using assms
proof (induction cs arbitrary: s rule: b64_supported.induct [case_names triple pair empty single])
  case (triple a b c cs)
  let ?s = "Decode_emit e s [a, b, c]"
  obtain n where n: "run_list (Decode_char Init e) ?s (rfc64 (bytes_of cs)) =
      Inr ((Decode_emit e ?s cs)\<lparr>eqs := n\<rparr>)"
    using triple.IH [of ?s] triple.prems by (auto simp del: Decode_emit.simps)
  have "run_list (Decode_char Init e) s (rfc64 (bytes_of [a, b, c])) = Inr ?s"
    using Decode_rfc64_triplet [of "of_char a" "of_char b" "of_char c" s e] triple.prems
    by (simp del: rfc64.simps Decode_emit.simps)
  moreover have "rfc64 (bytes_of (a # b # c # cs)) = rfc64 (bytes_of [a, b, c]) @ rfc64 (bytes_of cs)"
    by simp
  moreover have "Decode_emit e s (a # b # c # cs) = Decode_emit e ?s cs"
    using Decode_emit_append [of e s "[a, b, c]" cs] by (simp del: Decode_emit.simps)
  ultimately show ?case
    using n by (simp only: run_list_append sum.case) blast
next
  case (pair a b)
  then show ?case
    using Decode_rfc64_pair [of "of_char a" "of_char b" s e]
    by (auto simp: Decode_emit_eqs simp del: rfc64.simps Decode_emit.simps)
next
  case empty
  then show ?case by (intro exI [of _ 0]) simp
next
  case (single a)
  then show ?case
    using Decode_rfc64_single [of "of_char a" s e]
    by (auto simp: Decode_emit_eqs simp del: rfc64.simps Decode_emit.simps)
qed

lemma Decode_rfc64: "Decode Init (rfc64 (bytes_of cs)) e = Inr (split_on e cs)"
proof -
  obtain n where n: "run_list (Decode_char Init e) dec_init (rfc64 (bytes_of cs)) =
      Inr ((Decode_emit e dec_init cs)\<lparr>eqs := n\<rparr>)"
    using Decode_run_rfc64 [of dec_init e cs] by (auto simp: dec_init_def)
  have "dRes (Decode_emit e dec_init cs) @ [curr (Decode_emit e dec_init cs)] = split_on e cs"
    by (simp add: Decode_emit_split) (simp add: dec_init_def)
  then show ?thesis by (simp add: Decode_def Init_neq_Nil n)
qed

lemma split_on_NUL: "split_on (CHR 0x00) cs = [cs]"
  by (induction cs) auto

interpretation escaped: base64_codec "\<lambda>s. Encode Init [s] (CHR 0x00)"
  "\<lambda>t. case Decode Init t (CHR 0x00) of Inl e \<Rightarrow> Inl e | Inr ls \<Rightarrow> Inr (concat ls)"
  "\<lambda>s. s \<noteq> []"
  by unfold_locales (simp_all add: Encode_payload Decode_rfc64 split_on_NUL)

lemma split_on_line:
  "e \<notin> set l \<Longrightarrow> e \<noteq> CHR 0x00 \<Longrightarrow> split_on e (l @ e # cs) = l # split_on e cs"
  by (induction l) auto

lemma split_on_last: "e \<notin> set l \<Longrightarrow> split_on e l = [l]"
  by (induction l) auto

lemma split_on_payload:
  assumes "data \<noteq> []" "e \<noteq> CHR 0x00" "\<forall>l \<in> set data. l \<noteq> [] \<and> e \<notin> set l"
  shows "split_on e (payload e data) = data"
  using assms
proof (induction e data rule: payload.induct)
  case (3 e l l2 ls)
  then have "last l \<noteq> e" by (metis last_in_set list.set_intros(1))
  with 3 show ?case by (simp add: split_on_line)
qed (auto simp: split_on_last)

section \<open>The properties\<close>

text \<open>
  C35: on strings whose second and third bytes of every triplet are ASCII, \<open>Base64::encode\<close> is the
  standard encoder and \<open>Base64::decode\<close> inverts it.
\<close>

theorem Base64_roundtrip:
  assumes "b64_supported s" "s \<noteq> []"
  shows "encode s = Inr (rfc64 (bytes_of s)) \<and> decode (rfc64 (bytes_of s)) = Inr s"
  using plain.enc_ref plain.dec_ref assms by blast

theorem Base64_roundtrip_witness:
  "encode ''Man!'' = Inr (rfc64 [77, 97, 110, 33]) \<and> decode (rfc64 [77, 97, 110, 33]) = Inr ''Man!''"
  using Base64_roundtrip [of "''Man!''"] by simp

text \<open>
  a byte of 128 or more in the second place of a triplet is sign-extended into the first
  place: decoding the encoded triplet gives 255 there, so \<open>Base64\<close> is not a codec for byte streams.
\<close>

theorem Base64_high_byte_corrupts:
  assumes "(of_char b :: nat) \<ge> 128" "(of_char c :: nat) < 128"
  shows "\<exists>t. encode [a, b, c] = Inr t \<and> decode t = Inr [CHR 0xFF, b, c]"
proof -
  have "decode (rfc64 (bytes_of [CHR 0xFF, b, c])) = Inr [CHR 0xFF, b, c]"
    by (rule plain.dec_ref) simp
  moreover have "bytes_of [CHR 0xFF, b, c] = [255, of_char b, of_char c]" by simp
  ultimately show ?thesis using encode_sign_extended [OF assms] by metis
qed

theorem Base64_high_byte_corrupts_witness:
  "\<exists>t. encode [CHR 0x01, CHR 0x80, CHR 0x02] = Inr t \<and> decode t = Inr [CHR 0xFF, CHR 0x80, CHR 0x02]"
  by (rule Base64_high_byte_corrupts) simp_all

text \<open>
  \<open>Base64Escape\<close> returns every list of non-empty lines of arbitrary bytes that do not contain
  the end-of-line character.
\<close>

theorem Base64Escape_roundtrip:
  assumes "data \<noteq> []" "e \<noteq> CHR 0x00" "\<forall>l \<in> set data. l \<noteq> [] \<and> e \<notin> set l"
  shows "\<exists>t. Encode Init data e = Inr t \<and> Decode Init t e = Inr data"
proof -
  have "last data \<noteq> []" "[] \<notin> set data" using assms by auto
  with assms show ?thesis by (simp add: Encode_payload Decode_rfc64 split_on_payload)
qed

theorem Base64Escape_roundtrip_witness:
  "\<exists>t. Encode Init [''ab'', [CHR 0xFF]] (CHR 0x0A) = Inr t \<and>
     Decode Init t (CHR 0x0A) = Inr [''ab'', [CHR 0xFF]]"
  by (rule Base64Escape_roundtrip) simp_all

end
