(* ===== verification/Fixed_Delayed.thy ===== *)
theory Fixed_Delayed
  imports SM_Prelude
begin

text \<open>
  Delayed perception: \<open>shared/perception/FixedDelayed.hpp\<close>. The history is a \<open>std::list\<close>, whose
  iterators stay valid until their own node is erased: every node has an identity, \<open>percFront\<close>
  holds the identity it points to (\<open>None\<close> for \<open>history.end()\<close>), and dereferencing an identity that
  is no longer in the list is an error of its own. The items handed to \<open>safe_delete_item\<close> are
  collected in \<open>reclaimed\<close>.
\<close>

section \<open>State and operations\<close>

datatype fd_error = BackwardsInTime | CantSense | DanglingIterator

record 'a hist_item =
  node :: nat
  item :: 'a
  observedTime :: u32

record 'a fixed_delayed =
  history :: "'a hist_item list"
  maxDelayMS :: u32
  currDelayMS :: u32
  currTime :: u32
  percFront :: "nat option"
  reclaimPtrs :: bool
  zeroDelayValue :: "'a option"
  reclaimed :: "'a list"
  freshNode :: nat

definition canObserve :: "'a hist_item \<Rightarrow> u32 \<Rightarrow> u32 \<Rightarrow> bool" where
  "canObserve h currTimeMS delayMS \<longleftrightarrow> observedTime h + delayMS \<le> currTimeMS"

definition newFixedDelayed :: "u32 \<Rightarrow> bool \<Rightarrow> 'a fixed_delayed" where
  "newFixedDelayed maxD reclaim =
     \<lparr>history = [], maxDelayMS = maxD, currDelayMS = maxD, currTime = 0, percFront = None,
      reclaimPtrs = reclaim, zeroDelayValue = None, reclaimed = [], freshNode = 0\<rparr>"

definition zero_delay :: "'a fixed_delayed \<Rightarrow> bool" where
  "zero_delay s \<longleftrightarrow> maxDelayMS s = 0"

definition del_history_front :: "'a fixed_delayed \<Rightarrow> bool \<times> 'a fixed_delayed" where
  "del_history_front s =
     (case history s of
        [] \<Rightarrow> (False, s)
      | h # hs \<Rightarrow>
          (let s1 = (if reclaimPtrs s then s\<lparr>reclaimed := reclaimed s @ [item h]\<rparr> else s);
               s2 = s1\<lparr>history := hs\<rparr>
           in (hs \<noteq> [], s2)))"

text \<open>\<open>while (del_history_front());\<close>, in \<open>clear\<close> and in the destructor.\<close>

function clear :: "'a fixed_delayed \<Rightarrow> 'a fixed_delayed" where
  "clear s = (case del_history_front s of (again, s') \<Rightarrow> if again then clear s' else s')"
  by pat_completeness auto
termination
  by (relation "measure (\<lambda>s. length (history s))")
    (auto simp: del_history_front_def Let_def split: list.splits)

declare clear.simps [simp del]

fun observable_front :: "u32 \<Rightarrow> u32 \<Rightarrow> nat option \<Rightarrow> 'a hist_item list \<Rightarrow> nat option" where
  "observable_front now delay perc [] = perc"
| "observable_front now delay perc (h # hs) =
     (if \<not> canObserve h now delay then perc
      else observable_front now delay (Some (node h)) hs)"

definition update_iterator :: "'a fixed_delayed \<Rightarrow> 'a fixed_delayed" where
  "update_iterator s =
     s\<lparr>percFront := observable_front (currTime s) (currDelayMS s) None (history s)\<rparr>"

definition set_delay :: "'a fixed_delayed \<Rightarrow> u32 \<Rightarrow> 'a fixed_delayed" where
  "set_delay s d =
     (if zero_delay s then s else update_iterator (s\<lparr>currDelayMS := d\<rparr>))"

text \<open>The loop of \<open>update\<close> that discards what lies behind the sensing window.\<close>

function discard_old :: "u32 \<Rightarrow> 'a fixed_delayed \<Rightarrow> 'a fixed_delayed" where
  "discard_old minTime s =
     (case history s of
        h # h2 # hs \<Rightarrow>
          if observedTime h \<le> minTime \<and> observedTime h2 \<le> minTime
          then discard_old minTime (snd (del_history_front s)) else s
      | _ \<Rightarrow> s)"
  by pat_completeness auto
termination
  by (relation "measure (\<lambda>(m, s). length (history s))")
    (auto simp: del_history_front_def Let_def split: list.splits)

declare discard_old.simps [simp del]

definition update :: "'a fixed_delayed \<Rightarrow> u32 \<Rightarrow> (fd_error, 'a fixed_delayed) result" where
  "update s currTimeMS =
     (if zero_delay s then Inr s
      else if currTimeMS < currTime s then Inl BackwardsInTime
      else if currTimeMS = currTime s then Inr s
      else
        (let s1 = s\<lparr>currTime := currTimeMS\<rparr>;
             s2 = (if currTime s1 \<ge> maxDelayMS s1
                   then discard_old (currTimeMS - maxDelayMS s1) s1 else s1)
         in Inr (set_delay s2 (currDelayMS s2))))"

definition delay :: "'a fixed_delayed \<Rightarrow> 'a \<Rightarrow> 'a fixed_delayed" where
  "delay s v =
     (if zero_delay s then s\<lparr>zeroDelayValue := Some v\<rparr>
      else
        (let h = \<lparr>node = freshNode s, item = v, observedTime = currTime s\<rparr>;
             s1 = s\<lparr>history := history s @ [h], freshNode := freshNode s + 1\<rparr>
         in set_delay s1 (currDelayMS s1)))"

definition can_sense :: "'a fixed_delayed \<Rightarrow> bool" where
  "can_sense s \<longleftrightarrow>
     (if zero_delay s then zeroDelayValue s \<noteq> None else percFront s \<noteq> None)"

definition sense :: "'a fixed_delayed \<Rightarrow> (fd_error, 'a) result" where
  "sense s =
     (if \<not> can_sense s then Inl CantSense
      else if zero_delay s then
        (case zeroDelayValue s of None \<Rightarrow> Inl CantSense | Some v \<Rightarrow> Inr v)
      else
        (case find (\<lambda>h. Some (node h) = percFront s) (history s) of
           None \<Rightarrow> Inl DanglingIterator
         | Some h \<Rightarrow> Inr (item h)))"

section \<open>The abstract delayed value\<close>

text \<open>
  What the class promises: every value ever delayed, with its time, is remembered, and \<open>sense\<close>
  gives the latest one that is at least the current delay old.
\<close>

record 'a delay_log =
  entries :: "('a \<times> nat) list"
  now :: nat
  lag :: nat

datatype 'a fd_op = Update u32 | SetDelay u32 | Delay 'a

fun log_step :: "'a delay_log \<Rightarrow> 'a fd_op \<Rightarrow> (unit, 'a delay_log) result" where
  "log_step a (Update t) = (if unat t < now a then Inl () else Inr (a\<lparr>now := unat t\<rparr>))"
| "log_step a (SetDelay d) = Inr (a\<lparr>lag := unat d\<rparr>)"
| "log_step a (Delay v) = Inr (a\<lparr>entries := entries a @ [(v, now a)]\<rparr>)"

definition log_init :: "u32 \<Rightarrow> 'a delay_log" where
  "log_init maxD = \<lparr>entries = [], now = 0, lag = unat maxD\<rparr>"

definition log_sense :: "'a delay_log \<Rightarrow> 'a option" where
  "log_sense a =
     (case filter (\<lambda>(v, t). t + lag a \<le> now a) (entries a) of
        [] \<Rightarrow> None | xs \<Rightarrow> Some (fst (last xs)))"

fun fd_step :: "'a fixed_delayed \<Rightarrow> 'a fd_op \<Rightarrow> (fd_error, 'a fixed_delayed) result" where
  "fd_step s (Update t) = update s t"
| "fd_step s (SetDelay d) = Inr (set_delay s d)"
| "fd_step s (Delay v) = Inr (delay s v)"

text \<open>The bounds under which 32-bit time does not wrap and the window is long enough.\<close>

fun op_ok :: "u32 \<Rightarrow> 'a fd_op \<Rightarrow> bool" where
  "op_ok maxD (Update t) \<longleftrightarrow> unat t + unat maxD < 2 ^ 32"
| "op_ok maxD (SetDelay d) \<longleftrightarrow> d \<le> maxD"
| "op_ok maxD (Delay v) \<longleftrightarrow> True"

section \<open>What the loops compute\<close>

lemma del_history_front_Cons:
  "history s = h # hs \<Longrightarrow> \<exists>r. snd (del_history_front s) = s\<lparr>history := hs, reclaimed := r\<rparr>"
  by (intro exI [of _ "if reclaimPtrs s then reclaimed s @ [item h] else reclaimed s"])
    (cases s, simp add: del_history_front_def)

lemma discard_old_spec:
  "\<exists>dr r hs. discard_old m s = s\<lparr>history := hs, reclaimed := r\<rparr> \<and> history s = dr @ hs \<and>
     (dr \<noteq> [] \<longrightarrow> hs \<noteq> [] \<and> observedTime (hd hs) \<le> m)"
proof (induction m s rule: discard_old.induct)
  case (1 m s)
  have stop: ?case if "discard_old m s = s"
    using that by (intro exI [of _ "[]"] exI [of _ "reclaimed s"] exI [of _ "history s"]) simp
  show ?case
  proof (cases "\<exists>h h2 hs. history s = h # h2 # hs \<and> observedTime h \<le> m \<and> observedTime h2 \<le> m")
    case False
    then have "discard_old m s = s"
      by (subst discard_old.simps) (auto split: list.splits)
    then show ?thesis by (rule stop)
  next
    case True
    then obtain h h2 hs where h: "history s = h # h2 # hs"
      and o: "observedTime h \<le> m" "observedTime h2 \<le> m" by blast
    obtain r where r: "snd (del_history_front s) = s\<lparr>history := h2 # hs, reclaimed := r\<rparr>" (is "_ = ?s")
      using del_history_front_Cons [OF h] by blast
    have e: "discard_old m s = discard_old m ?s"
      using h o r by (subst discard_old.simps) simp
    have "\<exists>dr r' hs'. discard_old m ?s = s\<lparr>history := hs', reclaimed := r'\<rparr> \<and>
        h2 # hs = dr @ hs' \<and> (dr \<noteq> [] \<longrightarrow> hs' \<noteq> [] \<and> observedTime (hd hs') \<le> m)"
      using "1.IH" [OF h refl] o r by simp
    then obtain dr r' hs' where i: "discard_old m ?s = s\<lparr>history := hs', reclaimed := r'\<rparr>"
      "h2 # hs = dr @ hs'" "dr \<noteq> [] \<longrightarrow> hs' \<noteq> [] \<and> observedTime (hd hs') \<le> m"
      by (elim exE conjE) (rule that; assumption)
    show ?thesis
      unfolding e i(1) using i(2,3) h o(2)
      by (intro exI [of _ "h # dr"] exI [of _ r'] exI [of _ hs']) (auto simp: Cons_eq_append_conv)
  qed
qed

lemma observable_front_takeWhile:
  "observable_front t d p hs =
     (case takeWhile (\<lambda>h. canObserve h t d) hs of
        [] \<Rightarrow> p | xs \<Rightarrow> Some (node (last xs)))"
  by (induction t d p hs rule: observable_front.induct) (auto split: list.splits)

lemma clear_history: "history (clear s) = []"
  by (induction s rule: clear.induct)
    (subst clear.simps, auto simp: del_history_front_def Let_def split: list.splits prod.splits if_splits)

lemma clear_frame: "percFront (clear s) = percFront s \<and> maxDelayMS (clear s) = maxDelayMS s"
  by (induction s rule: clear.induct)
    (subst (1 2) clear.simps, auto simp: del_history_front_def Let_def split: list.splits prod.splits if_splits)

lemma sorted_filter_takeWhile:
  assumes "sorted (map f xs)" "\<And>x. x \<in> set xs \<Longrightarrow> P x \<longleftrightarrow> f x + l \<le> (k :: nat)"
  shows "filter P xs = takeWhile P xs"
  using assms
proof (induction xs)
  case (Cons x xs)
  show ?case
  proof (cases "P x")
    case False
    then have "\<not> P y" if "y \<in> set xs" for y
      using that Cons.prems(1) Cons.prems(2) [of x] Cons.prems(2) [of y] by fastforce
    with False show ?thesis by simp
  qed (use Cons in simp)
qed simp

lemma find_node:
  "distinct (map node hs) \<Longrightarrow> x \<in> set hs \<Longrightarrow> find (\<lambda>h. node h = node x) hs = Some x"
  by (induction hs) auto

lemma find_last_takeWhile:
  assumes "distinct (map node hs)" "takeWhile P hs \<noteq> []"
  shows "find (\<lambda>h. Some (node h) = Some (node (last (takeWhile P hs)))) hs =
    Some (last (takeWhile P hs))"
proof -
  have "last (takeWhile P hs) \<in> set hs"
    using assms(2) by (meson last_in_set set_takeWhileD)
  with assms(1) show ?thesis by (simp add: find_node)
qed

section \<open>Simulation\<close>

definition logged :: "'a hist_item list \<Rightarrow> ('a \<times> nat) list" where
  "logged hs = map (\<lambda>h. (item h, unat (observedTime h))) hs"

lemma logged_Nil: "logged xs = [] \<longleftrightarrow> xs = []"
  by (simp add: logged_def)

lemma last_logged: "xs \<noteq> [] \<Longrightarrow> fst (last (logged xs)) = item (last xs)"
  by (simp add: logged_def last_map)

definition fd_common :: "u32 \<Rightarrow> 'a fixed_delayed \<Rightarrow> 'a delay_log \<Rightarrow> bool" where
  "fd_common m c a \<longleftrightarrow> maxDelayMS c = m \<and> now a + unat m < 2 ^ 32 \<and> lag a \<le> unat m \<and>
     unat (currDelayMS c) = lag a \<and> sorted (map snd (entries a)) \<and> (\<forall>(v, t) \<in> set (entries a). t \<le> now a)"

definition fd_window :: "u32 \<Rightarrow> 'a fixed_delayed \<Rightarrow> 'a delay_log \<Rightarrow> bool" where
  "fd_window m c a \<longleftrightarrow> unat (currTime c) = now a \<and>
     (\<exists>pre. entries a = pre @ logged (history c) \<and>
        (pre \<noteq> [] \<longrightarrow> history c \<noteq> [] \<and> unat (observedTime (hd (history c))) + unat m \<le> now a)) \<and>
     distinct (map node (history c)) \<and> (\<forall>h \<in> set (history c). node h < freshNode c)"

definition fd_inv :: "u32 \<Rightarrow> 'a fixed_delayed \<Rightarrow> 'a delay_log \<Rightarrow> bool" where
  "fd_inv m c a \<longleftrightarrow> fd_common m c a \<and>
     (if m = 0 then zeroDelayValue c = (case entries a of [] \<Rightarrow> None | es \<Rightarrow> Some (fst (last es)))
      else fd_window m c a \<and>
        percFront c = observable_front (currTime c) (currDelayMS c) None (history c))"

lemma fd_inv_init: "unat m < 2 ^ 32 \<Longrightarrow> fd_inv m (newFixedDelayed m r) (log_init m)"
  by (simp add: fd_inv_def fd_common_def fd_window_def newFixedDelayed_def log_init_def logged_def)

lemma canObserve_unat:
  assumes "unat (observedTime h) + unat d < 2 ^ 32"
  shows "canObserve h t d \<longleftrightarrow> unat (observedTime h) + unat d \<le> unat t"
proof -
  have "unat (observedTime h + d) = unat (observedTime h) + unat d"
    using assms by (simp add: unat_word_ariths)
  then show ?thesis by (simp add: canObserve_def word_le_nat_alt)
qed

text \<open>In a simulated state \<open>sense\<close> gives what the abstract log gives.\<close>

lemma fd_window_log_sense:
  assumes c: "fd_common m c a" and w: "fd_window m c a"
  shows "log_sense a =
    (case takeWhile (\<lambda>h. canObserve h (currTime c) (currDelayMS c)) (history c) of
       [] \<Rightarrow> None | xs \<Rightarrow> Some (item (last xs)))"
proof -
  obtain pre where e: "entries a = pre @ logged (history c)"
    and p: "pre \<noteq> [] \<Longrightarrow> history c \<noteq> [] \<and> unat (observedTime (hd (history c))) + unat m \<le> now a"
    using w by (auto simp: fd_window_def)
  let ?tm = "\<lambda>h. unat (observedTime h)" and ?k = "now a - lag a"
  let ?P = "\<lambda>h. canObserve h (currTime c) (currDelayMS c)"
  have le: "?tm h \<le> now a" if "h \<in> set (history c)" for h
    using that c e by (force simp: fd_common_def logged_def)
  have P: "?P h \<longleftrightarrow> ?tm h + lag a \<le> now a" if "h \<in> set (history c)" for h
    using canObserve_unat [of h "currDelayMS c" "currTime c"] le [OF that] c w
    by (simp add: fd_common_def fd_window_def)
  have s: "sorted (map ?tm (history c))"
    using c e by (simp add: fd_common_def logged_def sorted_append comp_def)
  have "filter (\<lambda>(v, t). t + lag a \<le> now a) (logged (history c)) = logged (filter ?P (history c))"
    using P by (simp add: logged_def filter_map comp_def cong: filter_cong)
  also have "filter ?P (history c) = takeWhile ?P (history c)"
    by (rule sorted_filter_takeWhile [OF s P])
  finally have f: "filter (\<lambda>(v, t). t + lag a \<le> now a) (logged (history c)) =
      logged (takeWhile ?P (history c))" .
  have ne: "takeWhile ?P (history c) \<noteq> []" if "pre \<noteq> []"
    using p [OF that] P c by (cases "history c") (auto simp: fd_common_def)
  have "log_sense a = (let es = filter (\<lambda>(v, t). t + lag a \<le> now a) (entries a)
      in if es = [] then None else Some (fst (last es)))"
    unfolding log_sense_def Let_def by (rule case_list_last)
  then show ?thesis
    unfolding case_list_last [where f = "\<lambda>h. Some (item h)"] using f ne
    by (cases "pre = []") (simp_all add: e last_append Let_def logged_Nil last_logged)
qed

lemma fd_inv_sense:
  assumes "fd_inv m c a"
  shows "sense c = (case log_sense a of None \<Rightarrow> Inl CantSense | Some v \<Rightarrow> Inr v)"
proof (cases "m = 0")
  case True
  then have z: "zero_delay c" "lag a = 0" "\<forall>(v, t) \<in> set (entries a). t \<le> now a"
    "zeroDelayValue c = (case entries a of [] \<Rightarrow> None | es \<Rightarrow> Some (fst (last es)))"
    using assms by (auto simp: fd_inv_def fd_common_def zero_delay_def)
  have "filter (\<lambda>(v, t). t + lag a \<le> now a) (entries a) = entries a"
    using z(2,3) by (auto simp: filter_id_conv)
  then show ?thesis
    using z(1,4) by (auto simp: sense_def can_sense_def log_sense_def split: list.splits option.splits)
next
  case False
  let ?P = "\<lambda>h. canObserve h (currTime c) (currDelayMS c)"
  have w: "fd_common m c a" "fd_window m c a"
    and p: "percFront c = observable_front (currTime c) (currDelayMS c) None (history c)"
    using assms False by (auto simp: fd_inv_def)
  have nz: "\<not> zero_delay c" using w(1) False by (simp add: fd_common_def zero_delay_def)
  have d: "distinct (map node (history c))" using w(2) by (simp add: fd_window_def)
  show ?thesis
  proof (cases "takeWhile ?P (history c)")
    case Nil
    then show ?thesis
      using nz p by (simp add: sense_def can_sense_def fd_window_log_sense [OF w] observable_front_takeWhile)
  next
    case (Cons h hs)
    then have "percFront c = Some (node (last (takeWhile ?P (history c))))"
      "log_sense a = Some (item (last (takeWhile ?P (history c))))"
      using p by (simp_all add: fd_window_log_sense [OF w] observable_front_takeWhile)
    then show ?thesis
      using nz find_last_takeWhile [OF d, of ?P] Cons by (simp add: sense_def can_sense_def)
  qed
qed

text \<open>Every operation keeps the simulation, and \<open>update\<close> fails only when time goes backwards.\<close>

lemma update_iterator_frame:
  "fd_window m (update_iterator c) a = fd_window m c a"
  "fd_common m (update_iterator c) a = fd_common m c a"
  by (simp_all add: update_iterator_def fd_window_def fd_common_def)

lemma fd_inv_update_iterator:
  "m \<noteq> 0 \<Longrightarrow> fd_common m c a \<Longrightarrow> fd_window m c a \<Longrightarrow> fd_inv m (update_iterator c) a"
  by (simp add: fd_inv_def update_iterator_frame) (simp add: update_iterator_def)

lemma fd_inv_set_delay:
  assumes "fd_inv m c a" "d \<le> m"
  shows "fd_inv m (set_delay c d) (a\<lparr>lag := unat d\<rparr>)"
proof (cases "m = 0")
  case True
  with assms show ?thesis
    by (auto simp: set_delay_def zero_delay_def fd_inv_def fd_common_def)
next
  case False
  then have "\<not> zero_delay c" using assms by (simp add: fd_inv_def fd_common_def zero_delay_def)
  moreover have "fd_common m (c\<lparr>currDelayMS := d\<rparr>) (a\<lparr>lag := unat d\<rparr>)"
    using assms by (auto simp: fd_inv_def fd_common_def word_le_nat_alt)
  moreover have "fd_window m (c\<lparr>currDelayMS := d\<rparr>) (a\<lparr>lag := unat d\<rparr>)"
    using assms False by (simp add: fd_inv_def fd_window_def)
  ultimately show ?thesis using False by (simp add: set_delay_def zero_delay_def fd_inv_update_iterator)
qed

lemma fd_inv_delay:
  assumes "fd_inv m c a"
  shows "fd_inv m (delay c v) (a\<lparr>entries := entries a @ [(v, now a)]\<rparr>)"
proof (cases "m = 0")
  case True
  with assms show ?thesis
    by (auto simp: delay_def zero_delay_def fd_inv_def fd_common_def sorted_append split: list.splits)
next
  case False
  let ?c = "c\<lparr>history := history c @ [\<lparr>node = freshNode c, item = v, observedTime = currTime c\<rparr>],
    freshNode := freshNode c + 1\<rparr>"
  let ?a = "a\<lparr>entries := entries a @ [(v, now a)]\<rparr>"
  have nz: "\<not> zero_delay c" using assms False by (simp add: fd_inv_def fd_common_def zero_delay_def)
  have "fd_common m ?c ?a"
    using assms by (auto simp: fd_inv_def fd_common_def sorted_append)
  moreover have "fd_window m ?c ?a"
    using assms False by (force simp: fd_inv_def fd_window_def logged_def hd_append)
  ultimately have "fd_inv m (update_iterator ?c) ?a"
    using False by (rule fd_inv_update_iterator [rotated 1])
  then show ?thesis using nz by (simp add: delay_def set_delay_def zero_delay_def)
qed

lemma fd_inv_update:
  assumes i: "fd_inv m c a" and b: "unat t + unat m < 2 ^ 32" and mono: "now a \<le> unat t"
  shows "\<exists>c'. update c t = Inr c' \<and> fd_inv m c' (a\<lparr>now := unat t\<rparr>)"
proof (cases "m = 0")
  case True
  with assms show ?thesis
    by (fastforce simp: update_def zero_delay_def fd_inv_def fd_common_def)
next
  case False
  let ?a = "a\<lparr>now := unat t\<rparr>"
  have com: "fd_common m c a" and win: "fd_window m c a" using i False by (simp_all add: fd_inv_def)
  have nz: "\<not> zero_delay c" and ct: "unat (currTime c) = now a" "maxDelayMS c = m"
    using com win False by (simp_all add: fd_common_def fd_window_def zero_delay_def)
  show ?thesis
  proof (cases "t = currTime c")
    case True
    then have "?a = a" using ct by simp
    with True i nz show ?thesis by (simp add: update_def)
  next
    case neq: False
    have le: "\<not> t < currTime c" using mono ct by (simp add: word_less_nat_alt)
    let ?c1 = "c\<lparr>currTime := t\<rparr>"
    define c2 where "c2 = (if t \<ge> m then discard_old (t - m) ?c1 else ?c1)"
    obtain dr r hs where c2: "c2 = c\<lparr>currTime := t, history := hs, reclaimed := r\<rparr>"
      and h: "history c = dr @ hs"
      and d: "dr \<noteq> [] \<Longrightarrow> hs \<noteq> [] \<and> unat (observedTime (hd hs)) + unat m \<le> unat t"
    proof (cases "t \<ge> m")
      case True
      obtain dr r hs where "discard_old (t - m) ?c1 = ?c1\<lparr>history := hs, reclaimed := r\<rparr>"
        "history ?c1 = dr @ hs" "dr \<noteq> [] \<longrightarrow> hs \<noteq> [] \<and> observedTime (hd hs) \<le> t - m"
        using discard_old_spec [of "t - m" ?c1] by (elim exE conjE) (rule that; assumption)
      moreover have "unat (t - m) = unat t - unat m" "unat m \<le> unat t"
        using True by (simp_all add: unat_sub word_le_nat_alt)
      ultimately show ?thesis
        using True by (intro that [of r hs dr]) (auto simp: c2_def word_le_nat_alt)
    next
      case False
      then show ?thesis
        by (intro that [of "reclaimed c" "history c" "[]"]) (simp_all add: c2_def)
    qed
    obtain pre where e: "entries a = pre @ logged (history c)"
      and p: "pre \<noteq> [] \<Longrightarrow> history c \<noteq> [] \<and> unat (observedTime (hd (history c))) + unat m \<le> now a"
      using win by (auto simp: fd_window_def)
    have "fd_common m c2 ?a"
      using com b mono by (fastforce simp: fd_common_def c2)
    moreover have "fd_window m c2 ?a"
    proof -
      have "entries ?a = (pre @ logged dr) @ logged (history c2)"
        by (simp add: e h c2 logged_def)
      moreover have "history c2 \<noteq> [] \<and> unat (observedTime (hd (history c2))) + unat m \<le> now ?a"
        if "pre @ logged dr \<noteq> []"
        using that d p mono h by (cases "dr = []") (auto simp: c2 logged_def)
      ultimately show ?thesis
        using win h by (auto simp: fd_window_def c2)
    qed
    ultimately have "fd_inv m (update_iterator c2) ?a"
      using False by (rule fd_inv_update_iterator [rotated 1])
    moreover have "update c t = Inr (update_iterator c2)"
    proof -
      have "update c t = Inr (set_delay c2 (currDelayMS c2))"
        using nz neq le ct(2) by (simp add: update_def Let_def c2_def)
      moreover have "\<not> zero_delay c2" using nz by (simp add: zero_delay_def c2)
      ultimately show ?thesis by (simp add: set_delay_def)
    qed
    ultimately show ?thesis by blast
  qed
qed

lemma fd_step_simulates:
  assumes "fd_inv m c a" "op_ok m p" "log_step a p = Inr a'"
  shows "\<exists>c'. fd_step c p = Inr c' \<and> fd_inv m c' a'"
  using assms fd_inv_update [OF assms(1)] fd_inv_set_delay [OF assms(1)] fd_inv_delay [OF assms(1)]
  by (cases p) (auto split: if_splits)

lemma fd_run_simulates:
  assumes "fd_inv m c a" "\<forall>p \<in> set ps. op_ok m p" "run_list log_step a ps = Inr a'"
  shows "\<exists>c'. run_list fd_step c ps = Inr c' \<and> fd_inv m c' a'"
  using assms
proof (induction ps arbitrary: c a)
  case (Cons p ps)
  then obtain a1 where a1: "log_step a p = Inr a1" "run_list log_step a1 ps = Inr a'"
    by (auto split: sum.splits)
  obtain c1 where c1: "fd_step c p = Inr c1" "fd_inv m c1 a1"
    using fd_step_simulates [OF Cons.prems(1) _ a1(1)] Cons.prems(2) by auto
  with Cons.IH [OF c1(2) _ a1(2)] Cons.prems(2) show ?case by auto
qed auto

section \<open>Properties\<close>

text \<open>
  C8: as long as the delay never exceeds the maximum and 32-bit time does not wrap, the class
  implements the delayed value: any run of updates (with times that do not go back), delay changes
  and stored values succeeds, and \<open>sense\<close> returns the latest value that is old enough, or throws
  when there is none; the discarding of old history is never observable.
\<close>

theorem FixedDelayed_refines_log:
  assumes "\<forall>p \<in> set ps. op_ok m p" "run_list log_step (log_init m) ps = Inr a"
  shows "\<exists>c. run_list fd_step (newFixedDelayed m r) ps = Inr c \<and>
    sense c = (case log_sense a of None \<Rightarrow> Inl CantSense | Some v \<Rightarrow> Inr v)"
proof -
  have "unat m < 2 ^ LENGTH(32)" by (rule unsigned_less)
  then have "fd_inv m (newFixedDelayed m r) (log_init m)" by (intro fd_inv_init) simp
  from fd_run_simulates [OF this assms] show ?thesis by (auto simp: fd_inv_sense)
qed

theorem FixedDelayed_refines_log_witness:
  "\<exists>c. run_list fd_step (newFixedDelayed 10 True) [Delay ''a'', Update 5, Delay ''b'', Update 12] = Inr c \<and>
    sense c = Inr ''a''"
  using FixedDelayed_refines_log [of "[Delay ''a'', Update 5, Delay ''b'', Update 12]" 10
      "\<lparr>entries = [(''a'', 0), (''b'', 5)], now = 12, lag = 10\<rparr>" True]
  by (simp add: log_init_def log_sense_def)

text \<open>
  \<open>clear\<close> empties the history but leaves the iterator: if a value could be sensed before, then
  after \<open>clear\<close> the object still claims it can sense, and \<open>sense\<close> reads an erased node.
\<close>

theorem clear_leaves_dangling_iterator:
  assumes "maxDelayMS s \<noteq> 0" "can_sense s"
  shows "can_sense (clear s) \<and> sense (clear s) = Inl DanglingIterator"
  using assms clear_history [of s] clear_frame [of s]
  by (auto simp: can_sense_def sense_def zero_delay_def)

theorem clear_leaves_dangling_iterator_witness:
  "sense (clear (set_delay (delay (newFixedDelayed 10 True) ''a'') 0)) = Inl DanglingIterator"
proof -
  let ?s = "set_delay (delay (newFixedDelayed 10 True) ''a'') 0"
  have "maxDelayMS ?s \<noteq> 0" "can_sense ?s"
    by (simp_all add: set_delay_def delay_def newFixedDelayed_def zero_delay_def update_iterator_def
        can_sense_def canObserve_def)
  then show ?thesis using clear_leaves_dangling_iterator by blast
qed

end
