(* ===== verification/SM_Types.thy ===== *)
theory SM_Types
  imports SM_Prelude
begin

text \<open>
  Types that several components share: addresses of objects, points of simulation time
  (\<open>shared/metrics/Frame.hpp\<close>), and \<open>std::set\<close> of pointers.
\<close>

type_synonym address = nat

section \<open>Simulation time\<close>

text \<open>The comparisons look at the milliseconds only (\<open>!=\<close> looks at the frames).\<close>

record timeslice =
  frame :: u32
  ms :: u32

definition ts_eq :: "timeslice \<Rightarrow> timeslice \<Rightarrow> bool" where
  "ts_eq a b \<longleftrightarrow> ms a = ms b"

definition ts_less :: "timeslice \<Rightarrow> timeslice \<Rightarrow> bool" where
  "ts_less a b \<longleftrightarrow> ms a < ms b"

section \<open>Sets of pointers\<close>

text \<open>\<open>std::set\<close> of pointers: a strictly increasing list.\<close>

definition std_insert :: "nat \<Rightarrow> nat list \<Rightarrow> nat list" where
  "std_insert x xs = (if x \<in> set xs then xs else insort x xs)"

definition std_erase :: "nat \<Rightarrow> nat list \<Rightarrow> nat list" where
  "std_erase x xs = remove1 x xs"

abbreviation std_set :: "nat list \<Rightarrow> bool" where
  "std_set xs \<equiv> sorted xs \<and> distinct xs"

lemma std_set_insert [simp]: "std_set xs \<Longrightarrow> std_set (std_insert x xs)"
  by (simp add: std_insert_def sorted_insort distinct_insort)

lemma std_set_erase [simp]: "std_set xs \<Longrightarrow> std_set (std_erase x xs)"
  by (simp add: std_erase_def sorted_remove1)

lemma set_std_insert [simp]: "set (std_insert x xs) = insert x (set xs)"
  by (auto simp: std_insert_def set_insort_key)

lemma set_std_erase [simp]: "distinct xs \<Longrightarrow> set (std_erase x xs) = set xs - {x}"
  by (simp add: std_erase_def)

end
