(* ===== verification/Event_Publisher.thy ===== *)
theory Event_Publisher
  imports SM_Types
begin

text \<open>
  Event subscription and delivery: \<open>shared/event/EventPublisher.cpp\<close> (the routing of notifications),
  \<open>ConcurrentEventPublisher.cpp\<close> (the same operations under a mutex that is not recursive) and
  \<open>EventManager.cpp\<close> (listeners woken at a time). Objects are addresses, \<open>0\<close> is the null pointer.
  A notification is recorded as the call it makes; what the called listener does is its own code,
  and a listener is assumed not to change the publisher while it is being notified.
\<close>

section \<open>State\<close>

type_synonym event_id = u32

datatype callback = OnEvent | Method nat

record entry =
  listener :: address
  handler :: callback

record publisher =
  this :: address
  listeners :: "event_id \<rightharpoonup> (address \<rightharpoonup> entry list)"

record 'a notification =
  n_handler :: callback
  n_listener :: address
  n_id :: event_id
  n_ctx :: address
  n_sender :: address
  n_args :: 'a

definition newPublisher :: "address \<Rightarrow> publisher" where
  "newPublisher a = \<lparr>this = a, listeners = (\<lambda>i. None)\<rparr>"

definition invoke :: "entry \<Rightarrow> event_id \<Rightarrow> address \<Rightarrow> address \<Rightarrow> 'a \<Rightarrow> 'a notification list" where
  "invoke e i ctx sender args =
     (if listener e \<noteq> 0
      then [\<lparr>n_handler = handler e, n_listener = listener e, n_id = i, n_ctx = ctx,
             n_sender = sender, n_args = args\<rparr>]
      else [])"

section \<open>Operations of the publisher\<close>

definition exitsEvent :: "(event_id \<rightharpoonup> (address \<rightharpoonup> entry list)) \<Rightarrow> event_id \<Rightarrow> bool" where
  "exitsEvent ls i \<longleftrightarrow> ls i \<noteq> None"

fun remove_first :: "entry list \<Rightarrow> address \<Rightarrow> entry list" where
  "remove_first [] l = []"
| "remove_first (e # es) l = (if listener e = l then es else e # remove_first es l)"

definition remove_listener :: "entry list \<Rightarrow> address \<Rightarrow> entry list" where
  "remove_listener es l = (if l \<noteq> 0 then remove_first es l else es)"

definition subscribeListener ::
  "(event_id \<rightharpoonup> (address \<rightharpoonup> entry list)) \<Rightarrow> event_id \<Rightarrow> address \<Rightarrow> address \<Rightarrow> callback \<Rightarrow>
   (event_id \<rightharpoonup> (address \<rightharpoonup> entry list))" where
  "subscribeListener ls i ctx l cb =
     (case ls i of
        None \<Rightarrow> ls
      | Some cm \<Rightarrow>
          (let ctxList = (case cm ctx of None \<Rightarrow> [] | Some es \<Rightarrow> es)
           in ls(i \<mapsto> cm(ctx \<mapsto> ctxList @ [\<lparr>listener = l, handler = cb\<rparr>]))))"

definition publishEvent ::
  "(event_id \<rightharpoonup> (address \<rightharpoonup> entry list)) \<Rightarrow> bool \<Rightarrow> address \<Rightarrow> event_id \<Rightarrow> address \<Rightarrow> 'a \<Rightarrow>
   'a notification list" where
  "publishEvent ls globalCtx sender i ctx args =
     (case ls i of
        None \<Rightarrow> []
      | Some cm \<Rightarrow>
          (case cm ctx of
             None \<Rightarrow> []
           | Some es \<Rightarrow>
               concat (map (\<lambda>e. if globalCtx then invoke e i sender sender args
                                else invoke e i ctx sender args) es)))"

definition registerEvent :: "publisher \<Rightarrow> event_id \<Rightarrow> publisher" where
  "registerEvent p i =
     (if \<not> exitsEvent (listeners p) i then p\<lparr>listeners := (listeners p)(i \<mapsto> (\<lambda>c. None))\<rparr> else p)"

definition unRegisterEvent :: "publisher \<Rightarrow> event_id \<Rightarrow> publisher" where
  "unRegisterEvent p i =
     (if exitsEvent (listeners p) i then p\<lparr>listeners := (listeners p)(i := None)\<rparr> else p)"

definition isEventRegistered :: "publisher \<Rightarrow> event_id \<Rightarrow> bool" where
  "isEventRegistered p i \<longleftrightarrow> exitsEvent (listeners p) i"

definition publish :: "publisher \<Rightarrow> event_id \<Rightarrow> 'a \<Rightarrow> 'a notification list" where
  "publish p i args = publishEvent (listeners p) True (this p) i (this p) args"

definition publishCtx :: "publisher \<Rightarrow> event_id \<Rightarrow> address \<Rightarrow> 'a \<Rightarrow> 'a notification list" where
  "publishCtx p i ctx args =
     publishEvent (listeners p) True (this p) i (this p) args @
     publishEvent (listeners p) False (this p) i ctx args"

definition subscribeCallback ::
  "publisher \<Rightarrow> event_id \<Rightarrow> address \<Rightarrow> callback option \<Rightarrow> address \<Rightarrow> publisher" where
  "subscribeCallback p i l cb ctx =
     (if exitsEvent (listeners p) i \<and> l \<noteq> 0 \<and> cb \<noteq> None
      then p\<lparr>listeners := subscribeListener (listeners p) i (if ctx \<noteq> 0 then ctx else this p) l (the cb)\<rparr>
      else p)"

definition subscribe :: "publisher \<Rightarrow> event_id \<Rightarrow> address \<Rightarrow> address \<Rightarrow> publisher" where
  "subscribe p i l ctx = subscribeCallback p i l (Some OnEvent) ctx"

definition unSubscribeCtx :: "publisher \<Rightarrow> event_id \<Rightarrow> address \<Rightarrow> address \<Rightarrow> publisher" where
  "unSubscribeCtx p i ctx l =
     (if exitsEvent (listeners p) i \<and> l \<noteq> 0 then
        (case listeners p i of
           None \<Rightarrow> p
         | Some cm \<Rightarrow>
             (case cm ctx of
                None \<Rightarrow> p
              | Some es \<Rightarrow>
                  (let ll = remove_listener es l
                   in p\<lparr>listeners := (listeners p)(i \<mapsto>
                        (if ll = [] then cm(ctx := None) else cm(ctx \<mapsto> ll)))\<rparr>)))
      else p)"

definition unSubscribe :: "publisher \<Rightarrow> event_id \<Rightarrow> address \<Rightarrow> publisher" where
  "unSubscribe p i l = unSubscribeCtx p i (this p) l"

definition unSubscribeListener :: "publisher \<Rightarrow> address \<Rightarrow> publisher" where
  "unSubscribeListener p l =
     (if l \<noteq> 0 then
        p\<lparr>listeners := (\<lambda>i. map_option (\<lambda>cm c. map_option (\<lambda>es. remove_first es l) (cm c))
                        (listeners p i))\<rparr>
      else p)"

definition unSubscribeAllCtx :: "publisher \<Rightarrow> event_id \<Rightarrow> address \<Rightarrow> publisher" where
  "unSubscribeAllCtx p i ctx =
     (if exitsEvent (listeners p) i then
        (case listeners p i of
           None \<Rightarrow> p
         | Some cm \<Rightarrow>
             (if cm ctx \<noteq> None then p\<lparr>listeners := (listeners p)(i \<mapsto> cm(ctx := None))\<rparr> else p))
      else p)"

definition unSubscribeAll :: "publisher \<Rightarrow> event_id \<Rightarrow> publisher" where
  "unSubscribeAll p i = unSubscribeAllCtx p i (this p)"

section \<open>The contract of a routing table\<close>

text \<open>
  The operations as data, and what a client may expect of them: \<open>known\<close> tells the registered events
  and \<open>route\<close> the entries that are notified for an event and a context, in order. A log of
  subscriptions is the specification.
\<close>

datatype pub_op =
    Register event_id
  | UnRegister event_id
  | Subscribe event_id address "callback option" address
  | UnSubscribe event_id address address
  | UnSubscribeListener address
  | UnSubscribeAll event_id address

record subscription =
  s_event :: event_id
  s_ctx :: address
  s_entry :: entry

record sub_log =
  registered :: "event_id list"
  subs :: "subscription list"

fun drop_first_sub :: "(subscription \<Rightarrow> bool) \<Rightarrow> subscription list \<Rightarrow> subscription list" where
  "drop_first_sub P [] = []"
| "drop_first_sub P (x # xs) = (if P x then xs else x # drop_first_sub P xs)"

text \<open>The first subscription of a listener for each event and context.\<close>

fun drop_first_each :: "(event_id \<times> address) set \<Rightarrow> address \<Rightarrow> subscription list \<Rightarrow> subscription list" where
  "drop_first_each seen l [] = []"
| "drop_first_each seen l (x # xs) =
     (if listener (s_entry x) = l \<and> (s_event x, s_ctx x) \<notin> seen
      then drop_first_each (insert (s_event x, s_ctx x) seen) l xs
      else x # drop_first_each seen l xs)"

fun sub_step :: "address \<Rightarrow> sub_log \<Rightarrow> pub_op \<Rightarrow> sub_log" where
  "sub_step me a (Register i) = a\<lparr>registered := i # registered a\<rparr>"
| "sub_step me a (UnRegister i) =
     a\<lparr>registered := removeAll i (registered a), subs := filter (\<lambda>x. s_event x \<noteq> i) (subs a)\<rparr>"
| "sub_step me a (Subscribe i l cb ctx) =
     (case cb of
        None \<Rightarrow> a
      | Some f \<Rightarrow>
          if i \<in> set (registered a) \<and> l \<noteq> 0 then
            a\<lparr>subs := subs a @ [\<lparr>s_event = i, s_ctx = (if ctx = 0 then me else ctx),
                                 s_entry = \<lparr>listener = l, handler = f\<rparr>\<rparr>]\<rparr>
          else a)"
| "sub_step me a (UnSubscribe i ctx l) =
     (if l = 0 then a
      else a\<lparr>subs := drop_first_sub (\<lambda>x. s_event x = i \<and> s_ctx x = ctx \<and> listener (s_entry x) = l) (subs a)\<rparr>)"
| "sub_step me a (UnSubscribeListener l) =
     (if l = 0 then a else a\<lparr>subs := drop_first_each {} l (subs a)\<rparr>)"
| "sub_step me a (UnSubscribeAll i ctx) =
     a\<lparr>subs := filter (\<lambda>x. \<not> (s_event x = i \<and> s_ctx x = ctx)) (subs a)\<rparr>"

definition log_route :: "sub_log \<Rightarrow> event_id \<Rightarrow> address \<Rightarrow> entry list" where
  "log_route a i ctx = map s_entry (filter (\<lambda>x. s_event x = i \<and> s_ctx x = ctx) (subs a))"

definition empty_log :: sub_log where
  "empty_log = \<lparr>registered = [], subs = []\<rparr>"

text \<open>The log as the header documents it: \<open>unSubscribe\<close> takes the listener out of the event and context, and
  \<open>unSubscribeAll(listener)\<close> takes it out of all events. Where nobody is subscribed twice to the same event and context
  this is the log above.\<close>

fun doc_step :: "address \<Rightarrow> sub_log \<Rightarrow> pub_op \<Rightarrow> sub_log" where
  "doc_step me a (UnSubscribe i ctx l) =
     a\<lparr>subs := filter (\<lambda>x. l = 0 \<or> \<not> (s_event x = i \<and> s_ctx x = ctx \<and> listener (s_entry x) = l)) (subs a)\<rparr>"
| "doc_step me a (UnSubscribeListener l) = a\<lparr>subs := filter (\<lambda>x. l = 0 \<or> listener (s_entry x) \<noteq> l) (subs a)\<rparr>"
| "doc_step me a p = sub_step me a p"

definition sub_key :: "subscription \<Rightarrow> event_id \<times> address \<times> address" where
  "sub_key x = (s_event x, s_ctx x, listener (s_entry x))"

text \<open>In a run from the log \<open>a\<close> no listener is ever subscribed twice to the same event and context.\<close>

fun never_twice :: "address \<Rightarrow> sub_log \<Rightarrow> pub_op list \<Rightarrow> bool" where
  "never_twice me a [] \<longleftrightarrow> distinct (map sub_key (subs a))"
| "never_twice me a (p # ps) \<longleftrightarrow> distinct (map sub_key (subs a)) \<and> never_twice me (doc_step me a p) ps"

lemma drop_first_sub_once:
  assumes "distinct (map sub_key xs)" "\<And>x. P x \<longleftrightarrow> sub_key x = k"
  shows "drop_first_sub P xs = filter (\<lambda>x. \<not> P x) xs"
  using assms(1)
proof (induction xs)
  case (Cons x xs)
  have "filter (\<lambda>y. \<not> P y) xs = xs" if "P x"
    using Cons.prems that by (auto simp: filter_id_conv assms(2)) (metis image_eqI)
  with Cons show ?case by simp
qed simp

lemma drop_first_each_once:
  assumes "distinct (map sub_key xs)" "\<And>i c. (i, c) \<in> seen \<Longrightarrow> (i, c, l) \<notin> set (map sub_key xs)"
  shows "drop_first_each seen l xs = filter (\<lambda>x. listener (s_entry x) \<noteq> l) xs"
  using assms
proof (induction seen l xs rule: drop_first_each.induct)
  case (2 seen l x xs)
  show ?case
  proof (cases "listener (s_entry x) = l")
    case True
    then have k: "sub_key x = (s_event x, s_ctx x, l)" by (simp add: sub_key_def)
    then have new: "(s_event x, s_ctx x) \<notin> seen" using 2(4) [of "s_event x" "s_ctx x"] by auto
    have "drop_first_each (insert (s_event x, s_ctx x) seen) l xs = filter (\<lambda>x. listener (s_entry x) \<noteq> l) xs"
      using True new 2(3,4) k by (intro 2(1)) auto
    with True new show ?thesis by simp
  next
    case False
    with 2(2) [OF _ _] 2(3,4) show ?thesis by simp
  qed
qed simp

lemma doc_step_once:
  assumes "distinct (map sub_key (subs a))"
  shows "sub_step me a p = doc_step me a p"
proof (cases p)
  case (UnSubscribe i ctx l)
  have "drop_first_sub (\<lambda>x. s_event x = i \<and> s_ctx x = ctx \<and> listener (s_entry x) = l) (subs a) =
      filter (\<lambda>x. \<not> (s_event x = i \<and> s_ctx x = ctx \<and> listener (s_entry x) = l)) (subs a)"
    by (rule drop_first_sub_once [OF assms, of _ "(i, ctx, l)"]) (auto simp: sub_key_def)
  then show ?thesis by (simp add: UnSubscribe)
qed (use drop_first_each_once [OF assms, of "{}"] in simp_all)

lemma doc_log: "never_twice me a ps \<Longrightarrow> foldl (sub_step me) a ps = foldl (doc_step me) a ps"
  by (induction ps arbitrary: a) (simp_all add: doc_step_once)


locale event_routes =
  fixes step :: "'s \<Rightarrow> pub_op \<Rightarrow> 's"
    and owner :: "'s \<Rightarrow> address"
    and known :: "'s \<Rightarrow> event_id \<Rightarrow> bool"
    and route :: "'s \<Rightarrow> event_id \<Rightarrow> address \<Rightarrow> entry list"
  assumes owner_step: "owner (step s p) = owner s"
    and known_step: "known (step s p) j \<longleftrightarrow>
      (case p of Register i \<Rightarrow> j = i \<or> known s j | UnRegister i \<Rightarrow> j \<noteq> i \<and> known s j | _ \<Rightarrow> known s j)"
    and route_register: "route (step s (Register i)) j c = route s j c"
    and route_unregister: "route (step s (UnRegister i)) j c = (if j = i then [] else route s j c)"
    and route_subscribe: "route (step s (Subscribe i l cb ctx)) j c =
      (case cb of
         None \<Rightarrow> route s j c
       | Some f \<Rightarrow>
           if known s i \<and> l \<noteq> 0 \<and> j = i \<and> c = (if ctx = 0 then owner s else ctx)
           then route s j c @ [\<lparr>listener = l, handler = f\<rparr>] else route s j c)"
    and route_unSubscribe: "route (step s (UnSubscribe i ctx l)) j c =
      (if l \<noteq> 0 \<and> j = i \<and> c = ctx then remove_first (route s j c) l else route s j c)"
    and route_unSubscribeListener: "route (step s (UnSubscribeListener l)) j c =
      (if l \<noteq> 0 then remove_first (route s j c) l else route s j c)"
    and route_unSubscribeAll: "route (step s (UnSubscribeAll i ctx)) j c =
      (if j = i \<and> c = ctx then [] else route s j c)"
begin

lemmas routes = route_register route_unregister route_subscribe route_unSubscribe
  route_unSubscribeListener route_unSubscribeAll

definition logged_as :: "'s \<Rightarrow> sub_log \<Rightarrow> bool" where
  "logged_as s a \<longleftrightarrow> (\<forall>i. known s i \<longleftrightarrow> i \<in> set (registered a)) \<and> (\<forall>i c. route s i c = log_route a i c)"

lemma remove_first_log:
  "remove_first (map s_entry xs) l = map s_entry (drop_first_sub (\<lambda>x. listener (s_entry x) = l) xs)"
  by (induction xs) auto

lemma filter_drop_first_sub:
  "(\<And>x. P x \<Longrightarrow> Q x) \<Longrightarrow> filter Q (drop_first_sub P xs) = drop_first_sub P (filter Q xs)"
  by (induction xs) auto

lemma filter_drop_first_sub_disjoint:
  "(\<And>x. P x \<Longrightarrow> \<not> Q x) \<Longrightarrow> filter Q (drop_first_sub P xs) = filter Q xs"
  by (induction xs) auto

lemma drop_first_sub_cong:
  "(\<And>x. x \<in> set xs \<Longrightarrow> P x = Q x) \<Longrightarrow> drop_first_sub P xs = drop_first_sub Q xs"
  by (induction xs) auto

lemma filter_drop_first_each:
  "filter (\<lambda>x. s_event x = i \<and> s_ctx x = c) (drop_first_each seen l xs) =
     (if (i, c) \<in> seen then filter (\<lambda>x. s_event x = i \<and> s_ctx x = c) xs
      else drop_first_sub (\<lambda>x. listener (s_entry x) = l) (filter (\<lambda>x. s_event x = i \<and> s_ctx x = c) xs))"
  by (induction seen l xs rule: drop_first_each.induct) auto

lemma logged_step:
  assumes "logged_as s a"
  shows "logged_as (step s p) (sub_step (owner s) a p)"
proof -
  have k: "known s i \<longleftrightarrow> i \<in> set (registered a)" and r: "route s i c = log_route a i c" for i c
    using assms by (auto simp: logged_as_def)
  have "known (step s p) i \<longleftrightarrow> i \<in> set (registered (sub_step (owner s) a p))" for i
    by (cases p) (auto simp: known_step k split: option.split)
  moreover have "route (step s p) i c = log_route (sub_step (owner s) a p) i c" for i c
  proof (cases p)
    case (UnSubscribe j ctx l)
    show ?thesis
    proof (cases "j = i \<and> ctx = c")
      case True
      have "filter (\<lambda>x. s_event x = i \<and> s_ctx x = c)
            (drop_first_sub (\<lambda>x. s_event x = i \<and> s_ctx x = c \<and> listener (s_entry x) = l) (subs a)) =
          drop_first_sub (\<lambda>x. listener (s_entry x) = l)
            (filter (\<lambda>x. s_event x = i \<and> s_ctx x = c) (subs a))"
        by (subst filter_drop_first_sub) (auto intro: drop_first_sub_cong)
      then show ?thesis
        using True by (simp add: UnSubscribe routes r log_route_def remove_first_log)
    next
      case False
      then have "filter (\<lambda>x. s_event x = i \<and> s_ctx x = c)
            (drop_first_sub (\<lambda>x. s_event x = j \<and> s_ctx x = ctx \<and> listener (s_entry x) = l) (subs a)) =
          filter (\<lambda>x. s_event x = i \<and> s_ctx x = c) (subs a)"
        by (intro filter_drop_first_sub_disjoint) auto
      with False show ?thesis by (auto simp: UnSubscribe routes r log_route_def)
    qed
  next
    case (UnSubscribeListener l)
    then show ?thesis by (simp add: routes r log_route_def remove_first_log filter_drop_first_each)
  qed (auto simp: routes r k log_route_def filter_filter split: option.split
      intro!: arg_cong [of _ _ "map s_entry"] filter_cong)
  ultimately show ?thesis by (simp add: logged_as_def)
qed

lemma owner_run: "owner (foldl step s ps) = owner s"
  by (induction ps arbitrary: s) (simp_all add: owner_step)

lemma logged_run:
  "logged_as s a \<Longrightarrow> logged_as (foldl step s ps) (foldl (sub_step (owner s)) a ps)"
proof (induction ps arbitrary: s a)
  case (Cons p ps)
  then show ?case using logged_step [OF Cons.prems] by (simp add: owner_step) (metis owner_step)
qed simp

lemma route_of_log:
  assumes "\<And>i. \<not> known s i" "\<And>i c. route s i c = []"
  shows "route (foldl step s ps) i c = log_route (foldl (sub_step (owner s)) empty_log ps) i c"
proof -
  have "logged_as s empty_log" by (simp add: logged_as_def assms empty_log_def log_route_def)
  from logged_run [OF this] show ?thesis by (simp add: logged_as_def)
qed

end

section \<open>The publisher keeps the contract\<close>

fun pub_step :: "publisher \<Rightarrow> pub_op \<Rightarrow> publisher" where
  "pub_step p (Register i) = registerEvent p i"
| "pub_step p (UnRegister i) = unRegisterEvent p i"
| "pub_step p (Subscribe i l cb ctx) = subscribeCallback p i l cb ctx"
| "pub_step p (UnSubscribe i ctx l) = unSubscribeCtx p i ctx l"
| "pub_step p (UnSubscribeListener l) = unSubscribeListener p l"
| "pub_step p (UnSubscribeAll i ctx) = unSubscribeAllCtx p i ctx"

definition pub_route :: "publisher \<Rightarrow> event_id \<Rightarrow> address \<Rightarrow> entry list" where
  "pub_route p i ctx =
     (case listeners p i of None \<Rightarrow> [] | Some cm \<Rightarrow> (case cm ctx of None \<Rightarrow> [] | Some es \<Rightarrow> es))"

lemmas pub_defs = registerEvent_def unRegisterEvent_def subscribeCallback_def subscribeListener_def
  unSubscribeCtx_def remove_listener_def unSubscribeListener_def unSubscribeAllCtx_def exitsEvent_def

lemma pub_this [simp]: "this (pub_step p x) = this p"
  by (cases x) (auto simp: pub_defs Let_def split: option.split)

interpretation ev: event_routes pub_step this isEventRegistered pub_route
proof
  fix s :: publisher and p :: pub_op and j :: event_id
  show "isEventRegistered (pub_step s p) j \<longleftrightarrow>
      (case p of Register i \<Rightarrow> j = i \<or> isEventRegistered s j
       | UnRegister i \<Rightarrow> j \<noteq> i \<and> isEventRegistered s j | _ \<Rightarrow> isEventRegistered s j)"
    by (cases p) (auto simp: isEventRegistered_def pub_defs Let_def split: option.split)
qed (auto simp: pub_route_def isEventRegistered_def pub_defs Let_def split: option.split)

lemma publishEvent_route:
  "publishEvent (listeners p) g sender i ctx args =
     concat (map (\<lambda>e. invoke e i (if g then sender else ctx) sender args) (pub_route p i ctx))"
  by (auto simp: publishEvent_def pub_route_def split: option.split)


lemma set_remove_first: "e \<in> set (remove_first es l) \<Longrightarrow> e \<in> set es"
  by (induction es) (auto split: if_splits)

lemma pub_route_listener:
  assumes "\<And>i c e. e \<in> set (pub_route s i c) \<Longrightarrow> listener e \<noteq> 0" "e \<in> set (pub_route (pub_step s p) i c)"
  shows "listener e \<noteq> 0"
  using assms
  by (cases p) (auto simp: ev.routes simp del: pub_step.simps dest: set_remove_first split: if_splits option.splits)

lemma pub_run_listener:
  assumes "e \<in> set (pub_route (foldl pub_step (newPublisher a) ps) i c)"
  shows "listener e \<noteq> 0"
proof -
  have "\<forall>i c. \<forall>e \<in> set (pub_route (foldl pub_step (newPublisher a) ps) i c). listener e \<noteq> 0"
  proof (rule foldl_invariant)
    show "\<forall>i c. \<forall>e \<in> set (pub_route (newPublisher a) i c). listener e \<noteq> 0"
      by (simp add: pub_route_def newPublisher_def)
  qed (use pub_route_listener in blast)
  then show ?thesis using assms by blast
qed

lemma concat_map_invoke:
  "(\<And>e. e \<in> set es \<Longrightarrow> listener e \<noteq> 0) \<Longrightarrow>
   concat (map (\<lambda>e. invoke e i c sender args) es) =
   map (\<lambda>e. \<lparr>n_handler = handler e, n_listener = listener e, n_id = i, n_ctx = c,
              n_sender = sender, n_args = args\<rparr>) es"
  by (induction es) (auto simp: invoke_def)

section \<open>The publisher under a mutex\<close>

text \<open>
  \<open>boost::shared_mutex\<close> is not recursive: a thread that acquires it while holding it waits for
  itself. \<open>held\<close> is the mutex of the object, seen by the one thread that runs the operations. The
  base class calls its virtual member functions on the object, so that the inherited
  \<open>unSubscribe(id, listener)\<close> reaches the overridden three-argument one.
\<close>

datatype lock_error = SelfDeadlock

record concurrent_publisher =
  base :: publisher
  held :: bool

definition locked_scope ::
  "(concurrent_publisher \<Rightarrow> (lock_error, concurrent_publisher \<times> 'r) result) \<Rightarrow>
   concurrent_publisher \<Rightarrow> (lock_error, concurrent_publisher \<times> 'r) result" where
  "locked_scope body c =
     (if held c then Inl SelfDeadlock
      else (case body (c\<lparr>held := True\<rparr>) of
              Inl e \<Rightarrow> Inl e
            | Inr (c', r) \<Rightarrow> Inr (c'\<lparr>held := False\<rparr>, r)))"

definition in_base :: "(publisher \<Rightarrow> publisher) \<Rightarrow> concurrent_publisher \<Rightarrow>
   (lock_error, concurrent_publisher \<times> unit) result" where
  "in_base f c = Inr (c\<lparr>base := f (base c)\<rparr>, ())"

definition conc_registerEvent :: "concurrent_publisher \<Rightarrow> event_id \<Rightarrow>
   (lock_error, concurrent_publisher \<times> unit) result" where
  "conc_registerEvent c i = locked_scope (in_base (\<lambda>p. registerEvent p i)) c"

definition conc_unRegisterEvent :: "concurrent_publisher \<Rightarrow> event_id \<Rightarrow>
   (lock_error, concurrent_publisher \<times> unit) result" where
  "conc_unRegisterEvent c i = locked_scope (in_base (\<lambda>p. unRegisterEvent p i)) c"

definition conc_isEventRegistered :: "concurrent_publisher \<Rightarrow> event_id \<Rightarrow>
   (lock_error, concurrent_publisher \<times> bool) result" where
  "conc_isEventRegistered c i = locked_scope (\<lambda>c. Inr (c, isEventRegistered (base c) i)) c"

definition conc_publish :: "concurrent_publisher \<Rightarrow> event_id \<Rightarrow> 'a \<Rightarrow>
   (lock_error, concurrent_publisher \<times> 'a notification list) result" where
  "conc_publish c i args = locked_scope (\<lambda>c. Inr (c, publish (base c) i args)) c"

definition conc_publishCtx :: "concurrent_publisher \<Rightarrow> event_id \<Rightarrow> address \<Rightarrow> 'a \<Rightarrow>
   (lock_error, concurrent_publisher \<times> 'a notification list) result" where
  "conc_publishCtx c i ctx args = locked_scope (\<lambda>c. Inr (c, publishCtx (base c) i ctx args)) c"

definition conc_subscribe :: "concurrent_publisher \<Rightarrow> event_id \<Rightarrow> address \<Rightarrow> callback option \<Rightarrow> address \<Rightarrow>
   (lock_error, concurrent_publisher \<times> unit) result" where
  "conc_subscribe c i l cb ctx = locked_scope (in_base (\<lambda>p. subscribeCallback p i l cb ctx)) c"

definition conc_unSubscribeCtx :: "concurrent_publisher \<Rightarrow> event_id \<Rightarrow> address \<Rightarrow> address \<Rightarrow>
   (lock_error, concurrent_publisher \<times> unit) result" where
  "conc_unSubscribeCtx c i ctx l = locked_scope (in_base (\<lambda>p. unSubscribeCtx p i ctx l)) c"

text \<open>\<open>EventPublisher::unSubscribe(id, listener)\<close> calls the virtual three-argument function.\<close>

definition conc_unSubscribe :: "concurrent_publisher \<Rightarrow> event_id \<Rightarrow> address \<Rightarrow>
   (lock_error, concurrent_publisher \<times> unit) result" where
  "conc_unSubscribe c i l =
     locked_scope (\<lambda>c. conc_unSubscribeCtx c i (this (base c)) l) c"

definition conc_unSubscribeAllCtx :: "concurrent_publisher \<Rightarrow> event_id \<Rightarrow> address \<Rightarrow>
   (lock_error, concurrent_publisher \<times> unit) result" where
  "conc_unSubscribeAllCtx c i ctx = locked_scope (in_base (\<lambda>p. unSubscribeAllCtx p i ctx)) c"

definition conc_unSubscribeAll :: "concurrent_publisher \<Rightarrow> event_id \<Rightarrow>
   (lock_error, concurrent_publisher \<times> unit) result" where
  "conc_unSubscribeAll c i = locked_scope (in_base (\<lambda>p. unSubscribeAll p i)) c"


fun conc_step :: "concurrent_publisher \<Rightarrow> pub_op \<Rightarrow> (lock_error, concurrent_publisher \<times> unit) result" where
  "conc_step c (Register i) = conc_registerEvent c i"
| "conc_step c (UnRegister i) = conc_unRegisterEvent c i"
| "conc_step c (Subscribe i l cb ctx) = conc_subscribe c i l cb ctx"
| "conc_step c (UnSubscribe i ctx l) = conc_unSubscribeCtx c i ctx l"
| "conc_step c (UnSubscribeListener l) = in_base (\<lambda>p. unSubscribeListener p l) c"
| "conc_step c (UnSubscribeAll i ctx) = conc_unSubscribeAllCtx c i ctx"

lemmas conc_defs = locked_scope_def in_base_def conc_registerEvent_def conc_unRegisterEvent_def
  conc_subscribe_def conc_unSubscribeCtx_def conc_unSubscribeAllCtx_def

lemma conc_step_base: "\<not> held c \<Longrightarrow> conc_step c p = Inr (c\<lparr>base := pub_step (base c) p\<rparr>, ())"
  by (cases c, cases p) (simp_all add: conc_defs)

section \<open>The event manager\<close>

text \<open>
  A window is a node of a \<open>std::list\<close>, its address is the context of the subscription; the address
  the allocator returns is an argument of \<open>schedule\<close>. The result of \<open>em_update\<close> tells, beside the
  notifications, whether the loop went on to advance an iterator to an erased node.
\<close>

record temporal_window =
  w_addr :: address
  w_from :: timeslice
  w_to :: timeslice

record event_manager =
  publisher :: publisher
  windows :: "timeslice \<rightharpoonup> temporal_window list"
  emTime :: timeslice

definition EM_WND_EXPIRED :: event_id where "EM_WND_EXPIRED = 0"
definition EM_WND_UPDATED :: event_id where "EM_WND_UPDATED = 1"

definition newEventManager :: "address \<Rightarrow> event_manager" where
  "newEventManager a =
     \<lparr>publisher = registerEvent (registerEvent (newPublisher a) EM_WND_EXPIRED) EM_WND_UPDATED,
      windows = (\<lambda>t. None), emTime = \<lparr>frame = 0, ms = 0\<rparr>\<rparr>"

definition isExpired :: "temporal_window \<Rightarrow> timeslice \<Rightarrow> bool" where
  "isExpired w current \<longleftrightarrow>
     ms current > ms (w_to w) \<or> ms current = ms (w_to w) \<and> frame current \<ge> frame (w_to w)"

definition em_schedule ::
  "address \<Rightarrow> event_manager \<Rightarrow> timeslice \<Rightarrow> address \<Rightarrow> callback option \<Rightarrow> event_manager" where
  "em_schedule addr m target l cb =
     (let wl = (case windows m target of None \<Rightarrow> [] | Some ws \<Rightarrow> ws);
          tw = \<lparr>w_addr = addr, w_from = emTime m, w_to = target\<rparr>;
          m1 = m\<lparr>windows := (windows m)(target \<mapsto> wl @ [tw])\<rparr>
      in if cb \<noteq> None
         then m1\<lparr>publisher := subscribeCallback (publisher m1) EM_WND_EXPIRED l cb addr\<rparr>
         else m1\<lparr>publisher := subscribe (publisher m1) EM_WND_EXPIRED l addr\<rparr>)"

definition em_update :: "event_manager \<Rightarrow> timeslice \<Rightarrow> event_manager \<times> unit notification list \<times> bool" where
  "em_update m t =
     (let m1 = m\<lparr>emTime := t\<rparr> in
      case windows m1 t of
        None \<Rightarrow> (m1, [], False)
      | Some [] \<Rightarrow> (m1, [], False)
      | Some (w # ws) \<Rightarrow>
          (let (m2, ns) =
             (if isExpired w t
              then (m1\<lparr>publisher := unSubscribeAllCtx (publisher m1) EM_WND_EXPIRED (w_addr w)\<rparr>,
                    publishCtx (publisher m1) EM_WND_EXPIRED (w_addr w) ())
              else (m1, []));
             m3 = m2\<lparr>windows := (windows m2)(t := None)\<rparr>
           in (m3, ns, True)))"

definition em_inv :: "event_manager \<Rightarrow> bool" where
  "em_inv m \<longleftrightarrow> isEventRegistered (publisher m) EM_WND_EXPIRED \<and>
     (\<forall>t ws. windows m t = Some ws \<longrightarrow> ws \<noteq> [] \<and> (\<forall>w \<in> set ws. w_to w = t)) \<and>
     (\<forall>i c e. e \<in> set (pub_route (publisher m) i c) \<longrightarrow> listener e \<noteq> 0)"

lemma subscribe_step: "subscribe p i l ctx = pub_step p (Subscribe i l (Some OnEvent) ctx)"
  by (simp add: subscribe_def)

lemmas em_steps = pub_step.simps [symmetric] subscribe_step

lemma em_inv_new: "em_inv (newEventManager a)"
  unfolding em_inv_def newEventManager_def
  by (auto simp: isEventRegistered_def exitsEvent_def registerEvent_def newPublisher_def
      pub_route_def EM_WND_EXPIRED_def EM_WND_UPDATED_def split: option.splits)

lemma em_pub_step:
  assumes "isEventRegistered p i" "\<forall>i c. \<forall>e \<in> set (pub_route p i c). listener e \<noteq> 0"
    and "\<And>j. x \<noteq> UnRegister j"
  shows "isEventRegistered (pub_step p x) i \<and> (\<forall>i c. \<forall>e \<in> set (pub_route (pub_step p x) i c). listener e \<noteq> 0)"
  using assms pub_route_listener [of p _ x]
  by (cases x) (auto simp: ev.known_step simp del: pub_step.simps)

lemma em_schedule_eq:
  "em_schedule addr m t l cb =
     m\<lparr>windows := (windows m)(t \<mapsto> (case windows m t of None \<Rightarrow> [] | Some ws \<Rightarrow> ws) @
         [\<lparr>w_addr = addr, w_from = emTime m, w_to = t\<rparr>]),
       publisher := pub_step (publisher m)
         (Subscribe EM_WND_EXPIRED l (Some (case cb of None \<Rightarrow> OnEvent | Some f \<Rightarrow> f)) addr)\<rparr>"
  by (cases m) (simp add: em_schedule_def subscribe_def Let_def split: option.split)

lemma em_inv_schedule [sm_inv]:
  assumes "em_inv m"
  shows "em_inv (em_schedule addr m t l cb)"
proof -
  let ?x = "Subscribe EM_WND_EXPIRED l (Some (case cb of None \<Rightarrow> OnEvent | Some f \<Rightarrow> f)) addr"
  have "isEventRegistered (pub_step (publisher m) ?x) EM_WND_EXPIRED \<and>
      (\<forall>i c. \<forall>e \<in> set (pub_route (pub_step (publisher m) ?x) i c). listener e \<noteq> 0)"
    using assms by (intro em_pub_step) (auto simp: em_inv_def)
  then show ?thesis
    using assms unfolding em_inv_def em_schedule_eq
    by (cases "windows m t") (auto simp del: pub_step.simps)
qed

lemma em_inv_update [sm_inv]:
  assumes "em_inv m"
  shows "em_inv (fst (em_update m t))"
proof (cases "windows m t")
  case None
  with assms show ?thesis by (simp add: em_update_def em_inv_def)
next
  case (Some ws)
  then obtain w rest where w: "windows m t = Some (w # rest)"
    using assms by (cases ws) (auto simp: em_inv_def)
  have "isExpired w t" using assms w by (auto simp: em_inv_def isExpired_def)
  then show ?thesis
    using assms w em_pub_step [of "publisher m" EM_WND_EXPIRED "UnSubscribeAll EM_WND_EXPIRED (w_addr w)"]
    by (simp add: em_update_def em_inv_def)
qed

section \<open>Properties\<close>

text \<open>
  C14: the publisher implements the documented log of subscriptions, in which unsubscribing takes a listener out of the
  event and context, or out of all events: after any sequence of operations in which no listener is ever subscribed
  twice to the same event and context, publishing an event for a context makes exactly the calls to the listeners
  subscribed with the publisher itself as context, with that context, then to the listeners of the given context, each in
  the order of subscription, and to no one else. Of a listener subscribed twice the code takes out one entry only
  (\<open>unSubscribeListener_removes_one\<close>).
\<close>

theorem publish_delivers_log:
  assumes "never_twice a empty_log ps"
  shows "publishCtx (foldl pub_step (newPublisher a) ps) i ctx args =
     (let log = foldl (doc_step a) empty_log ps;
          call = (\<lambda>c e. \<lparr>n_handler = handler e, n_listener = listener e, n_id = i, n_ctx = c,
                         n_sender = a, n_args = args\<rparr>)
      in map (call a) (log_route log i a) @ map (call ctx) (log_route log i ctx))"
proof -
  let ?p = "foldl pub_step (newPublisher a) ps"
  have own: "this (newPublisher a) = a" by (simp add: newPublisher_def)
  then have own_run: "this ?p = a" using ev.owner_run [of "newPublisher a" ps] by simp
  have "pub_route ?p i c = log_route (foldl (sub_step a) empty_log ps) i c" for c
    using ev.route_of_log [of "newPublisher a" ps i c]
    by (simp add: own) (simp add: newPublisher_def isEventRegistered_def exitsEvent_def pub_route_def)
  then show ?thesis
    by (simp add: publishCtx_def publishEvent_route own_run Let_def concat_map_invoke [OF pub_run_listener]
        flip: \<open>\<And>c. pub_route ?p i c = _\<close> doc_log [OF assms])
qed

theorem publish_delivers_log_witness:
  "publishCtx (foldl pub_step (newPublisher 1) [Register 3, Subscribe 3 5 (Some OnEvent) 0, Subscribe 3 6 (Some OnEvent) 9,
       Subscribe 3 5 (Some (Method 2)) 9, UnSubscribe 3 9 6, Subscribe 3 7 (Some OnEvent) 9, UnSubscribeListener 7]) 3 9 ()
   = [\<lparr>n_handler = OnEvent, n_listener = 5, n_id = 3, n_ctx = 1, n_sender = 1, n_args = ()\<rparr>,
      \<lparr>n_handler = Method 2, n_listener = 5, n_id = 3, n_ctx = 9, n_sender = 1, n_args = ()\<rparr>]"
proof -
  have "never_twice 1 empty_log [Register 3, Subscribe 3 5 (Some OnEvent) 0, Subscribe 3 6 (Some OnEvent) 9,
       Subscribe 3 5 (Some (Method 2)) 9, UnSubscribe 3 9 6, Subscribe 3 7 (Some OnEvent) 9, UnSubscribeListener 7]"
    by (simp add: empty_log_def sub_key_def)
  from publish_delivers_log [OF this, of 3 9 "()"] show ?thesis
    by (simp add: empty_log_def log_route_def)
qed

text \<open>
  \<open>unSubscribeAll(listener)\<close> takes out one entry of the listener for each event and context: a
  listener that subscribed several times with the same event and context stays subscribed.
\<close>

theorem unSubscribeListener_removes_one:
  assumes "l \<noteq> 0"
  shows "length (filter (\<lambda>e. listener e = l) (pub_route (unSubscribeListener p l) i ctx)) =
     length (filter (\<lambda>e. listener e = l) (pub_route p i ctx)) - 1"
proof -
  have "length (filter (\<lambda>e. listener e = l) (remove_first es l)) =
      length (filter (\<lambda>e. listener e = l) es) - 1" for es
    by (induction es) auto
  then show ?thesis using assms ev.route_unSubscribeListener [of p l i ctx] by simp
qed

theorem unSubscribeListener_removes_one_witness:
  "length (filter (\<lambda>e. listener e = 5) (pub_route (unSubscribeListener
     (subscribe (subscribe (registerEvent (newPublisher 1) 3) 3 5 0) 3 5 0) 5) 3 1)) = 1"
  using unSubscribeListener_removes_one [of 5 "subscribe (subscribe (registerEvent (newPublisher 1) 3) 3 5 0) 3 5 0" 3 1]
  by (simp add: newPublisher_def registerEvent_def subscribe_def subscribeCallback_def exitsEvent_def
      subscribeListener_def pub_route_def)

text \<open>
  under its mutex the concurrent publisher does what the publisher does: from a free mutex any
  sequence of the operations runs to the end, leaves the mutex free and the state of the
  sequential publisher.
\<close>

theorem concurrent_publisher_sequential:
  assumes "\<not> held c"
  shows "run_list (\<lambda>c p. map_sum id fst (conc_step c p)) c ps = Inr (c\<lparr>base := foldl pub_step (base c) ps\<rparr>)"
  using assms
proof (induction ps arbitrary: c)
  case (Cons p ps)
  then show ?case using Cons.IH [of "c\<lparr>base := pub_step (base c) p\<rparr>"] by (simp add: conc_step_base)
qed simp

theorem concurrent_publisher_sequential_witness:
  "run_list (\<lambda>c p. map_sum id fst (conc_step c p)) \<lparr>base = newPublisher 1, held = False\<rparr> [Register 3, UnRegister 3] =
     Inr \<lparr>base = foldl pub_step (newPublisher 1) [Register 3, UnRegister 3], held = False\<rparr>"
  using concurrent_publisher_sequential [of "\<lparr>base = newPublisher 1, held = False\<rparr>" "[Register 3, UnRegister 3]"]
  by simp

text \<open>
  \<open>unSubscribe(id, listener)\<close> of the concurrent publisher never returns: the overriding function
  locks the mutex and the inherited one calls the three-argument function, which locks it again.
\<close>

theorem concurrent_unSubscribe_deadlocks: "conc_unSubscribe c i l = Inl SelfDeadlock"
  by (simp add: conc_unSubscribe_def conc_unSubscribeCtx_def locked_scope_def)

text \<open>
  a listener scheduled alone for a time is notified when the manager is updated at that time:
  after the global listeners of the event it gets one call, with the address of its
  window as context, and the window and its subscription are gone.
\<close>

theorem schedule_then_update_fires:
  assumes "em_inv m" "windows m t = None" "pub_route (publisher m) EM_WND_EXPIRED addr = []"
    and "l \<noteq> 0" "addr \<noteq> 0" "addr \<noteq> this (publisher m)"
  shows "fst (snd (em_update (em_schedule addr m t l cb) t)) =
       publish (publisher m) EM_WND_EXPIRED () @
       [\<lparr>n_handler = (case cb of None \<Rightarrow> OnEvent | Some f \<Rightarrow> f), n_listener = l, n_id = EM_WND_EXPIRED,
         n_ctx = addr, n_sender = this (publisher m), n_args = ()\<rparr>] \<and>
     windows (fst (em_update (em_schedule addr m t l cb) t)) t = None \<and>
     pub_route (publisher (fst (em_update (em_schedule addr m t l cb) t))) EM_WND_EXPIRED addr = []"
proof -
  let ?f = "case cb of None \<Rightarrow> OnEvent | Some f \<Rightarrow> f"
  let ?p = "pub_step (publisher m) (Subscribe EM_WND_EXPIRED l (Some ?f) addr)"
  let ?w = "\<lparr>w_addr = addr, w_from = emTime m, w_to = t\<rparr>"
  have k: "isEventRegistered (publisher m) EM_WND_EXPIRED" using assms(1) by (simp add: em_inv_def)
  have s: "em_schedule addr m t l cb = m\<lparr>windows := (windows m)(t \<mapsto> [?w]), publisher := ?p\<rparr>"
    using assms(2) by (simp add: em_schedule_eq)
  have r: "pub_route ?p EM_WND_EXPIRED addr = [\<lparr>listener = l, handler = ?f\<rparr>]"
    "pub_route ?p EM_WND_EXPIRED (this (publisher m)) = pub_route (publisher m) EM_WND_EXPIRED (this (publisher m))"
    using assms k by (simp_all add: ev.route_subscribe del: pub_step.simps)
  have t: "this ?p = this (publisher m)" by (rule pub_this)
  have u: "em_update (em_schedule addr m t l cb) t =
      (m\<lparr>windows := (windows m)(t := None), publisher := pub_step ?p (UnSubscribeAll EM_WND_EXPIRED addr), emTime := t\<rparr>,
       publishCtx ?p EM_WND_EXPIRED addr (), True)"
    unfolding s by (cases m) (simp add: em_update_def isExpired_def)
  show ?thesis
    unfolding u using assms(4)
    by (simp add: ev.route_unSubscribeAll publishCtx_def publish_def publishEvent_route r t invoke_def
        del: pub_step.simps)
qed

theorem schedule_then_update_fires_witness:
  "fst (snd (em_update (em_schedule 9 (newEventManager 1) \<lparr>frame = 2, ms = 200\<rparr> 5 None) \<lparr>frame = 2, ms = 200\<rparr>)) =
     [\<lparr>n_handler = OnEvent, n_listener = 5, n_id = EM_WND_EXPIRED, n_ctx = 9, n_sender = 1, n_args = ()\<rparr>]"
  using schedule_then_update_fires [OF em_inv_new, of 1 "\<lparr>frame = 2, ms = 200\<rparr>" 9 5 None]
  by (simp add: newEventManager_def registerEvent_def newPublisher_def pub_route_def exitsEvent_def
      publish_def publishEvent_def EM_WND_EXPIRED_def EM_WND_UPDATED_def)

text \<open>
  when several windows end at the same time, an update at that time drops all of them but notifies
  only the listeners of the first, keeps the subscriptions of the others, whose windows no longer
  exist, and then advances an iterator to a node it has erased.
\<close>

theorem update_drops_later_windows:
  assumes "em_inv m" "windows m t = Some (w # w2 # ws)" "w_addr w2 \<noteq> w_addr w"
  shows "fst (snd (em_update m t)) = publishCtx (publisher m) EM_WND_EXPIRED (w_addr w) () \<and>
     windows (fst (em_update m t)) t = None \<and>
     pub_route (publisher (fst (em_update m t))) EM_WND_EXPIRED (w_addr w2) =
       pub_route (publisher m) EM_WND_EXPIRED (w_addr w2) \<and>
     snd (snd (em_update m t))"
proof -
  have "isExpired w t" using assms by (auto simp: em_inv_def isExpired_def)
  moreover have "pub_route (unSubscribeAllCtx (publisher m) EM_WND_EXPIRED (w_addr w)) EM_WND_EXPIRED (w_addr w2) =
      pub_route (publisher m) EM_WND_EXPIRED (w_addr w2)"
    using ev.route_unSubscribeAll [of "publisher m" EM_WND_EXPIRED "w_addr w" EM_WND_EXPIRED "w_addr w2"] assms(3)
    by simp
  ultimately show ?thesis using assms(2) by (simp add: em_update_def)
qed

theorem update_drops_later_windows_witness:
  "windows (fst (em_update (em_schedule 8 (em_schedule 9 (newEventManager 1) \<lparr>frame = 2, ms = 200\<rparr> 5 None)
      \<lparr>frame = 2, ms = 200\<rparr> 6 None) \<lparr>frame = 2, ms = 200\<rparr>)) \<lparr>frame = 2, ms = 200\<rparr> = None"
  using update_drops_later_windows
    [OF em_inv_schedule [OF em_inv_schedule [OF em_inv_new]],
      of 8 9 1 "\<lparr>frame = 2, ms = 200\<rparr>" 5 None "\<lparr>frame = 2, ms = 200\<rparr>" 6 None "\<lparr>frame = 2, ms = 200\<rparr>"
        "\<lparr>w_addr = 9, w_from = \<lparr>frame = 0, ms = 0\<rparr>, w_to = \<lparr>frame = 2, ms = 200\<rparr>\<rparr>"
        "\<lparr>w_addr = 8, w_from = \<lparr>frame = 0, ms = 0\<rparr>, w_to = \<lparr>frame = 2, ms = 200\<rparr>\<rparr>" "[]"]
  by (simp add: em_schedule_def newEventManager_def)

end
