(* ===== verification/Message_Bus.thy ===== *)
theory Message_Bus
  imports Event_Publisher
begin

text \<open>
  The message bus: \<open>shared/message/MessageBus.cpp\<close>. Every thread has a context with an input queue,
  an output queue and a list of future messages; the main thread moves messages from the output to
  the input queues, every thread handles its own input queue. An operation takes the thread that
  calls it. What a message handler does with a message, and a listener with an event, is the
  parameter \<open>react\<close> of the model: it changes the state of the clients and posts messages.
\<close>

section \<open>Priority queues\<close>

text \<open>
  \<open>std::priority_queue\<close>, kept in the order of removal. The standard leaves the order of equal
  elements open; the lemmas below use only the laws of the locale, which do not fix it.
\<close>

fun pq_push :: "('e \<Rightarrow> 'e \<Rightarrow> bool) \<Rightarrow> 'e \<Rightarrow> 'e list \<Rightarrow> 'e list" where
  "pq_push lt x [] = [x]"
| "pq_push lt x (y # ys) = (if lt y x then x # y # ys else y # pq_push lt x ys)"

definition pq_top :: "'e list \<Rightarrow> 'e option" where
  "pq_top q = (case q of [] \<Rightarrow> None | x # xs \<Rightarrow> Some x)"

definition pq_pop :: "'e list \<Rightarrow> 'e list" where
  "pq_pop q = tl q"

locale prio_queue =
  fixes lt :: "'e \<Rightarrow> 'e \<Rightarrow> bool"
    and push :: "'e \<Rightarrow> 'q \<Rightarrow> 'q"
    and peek :: "'q \<Rightarrow> 'e option"
    and pop :: "'q \<Rightarrow> 'q"
    and elems :: "'q \<Rightarrow> 'e multiset"
    and ok :: "'q \<Rightarrow> bool"
  assumes ok_push: "ok q \<Longrightarrow> ok (push x q)"
    and ok_pop: "ok q \<Longrightarrow> ok (pop q)"
    and elems_push: "elems (push x q) = add_mset x (elems q)"
    and top_None: "peek q = None \<longleftrightarrow> elems q = {#}"
    and top_max: "ok q \<Longrightarrow> peek q = Some x \<Longrightarrow> x \<in># elems q \<and> (\<forall>y \<in># elems q. \<not> lt x y)"
    and elems_pop: "peek q = Some x \<Longrightarrow> elems (pop q) = elems q - {#x#}"
begin

text \<open>The order in which a loop of \<open>top\<close> and \<open>pop\<close> removes the elements.\<close>

fun drain :: "nat \<Rightarrow> 'q \<Rightarrow> 'e list" where
  "drain 0 q = []"
| "drain (Suc n) q = (case peek q of None \<Rightarrow> [] | Some x \<Rightarrow> x # drain n (pop q))"

lemma drain_mset: "ok q \<Longrightarrow> size (elems q) \<le> n \<Longrightarrow> mset (drain n q) = elems q"
proof (induction n arbitrary: q)
  case (Suc n)
  show ?case
  proof (cases "peek q")
    case (Some x)
    then have x: "x \<in># elems q" "elems (pop q) = elems q - {#x#}"
      using top_max [OF Suc.prems(1)] elems_pop by auto
    then have "size (elems (pop q)) \<le> n" using Suc.prems(2) by (simp add: size_Diff_singleton)
    with Suc.IH ok_pop Suc.prems(1) show ?thesis using Some x by simp
  qed (use top_None [of q] in simp)
qed simp

lemma drain_sorted: "ok q \<Longrightarrow> size (elems q) \<le> n \<Longrightarrow> sorted_wrt (\<lambda>x y. \<not> lt x y) (drain n q)"
proof (induction n arbitrary: q)
  case (Suc n)
  show ?case
  proof (cases "peek q")
    case (Some x)
    then have x: "x \<in># elems q" "elems (pop q) = elems q - {#x#}" "\<forall>y \<in># elems q. \<not> lt x y"
      using top_max [OF Suc.prems(1)] elems_pop by auto
    then have n: "size (elems (pop q)) \<le> n" using Suc.prems(2) by (simp add: size_Diff_singleton)
    have "set (drain n (pop q)) = set_mset (elems (pop q))"
      using drain_mset [OF ok_pop [OF Suc.prems(1)] n] by (metis set_mset_mset)
    then have "\<forall>y \<in> set (drain n (pop q)). \<not> lt x y"
      using x by (auto dest: in_diffD)
    then show ?thesis using Suc.IH [OF ok_pop [OF Suc.prems(1)] n] Some by simp
  qed simp
qed simp

end

section \<open>Messages and contexts\<close>

datatype bus_error =
    MainContextExists | ContextExists | NotMainThread | NotThreadContext
  | HandlerInOtherContext | HandlerOfOtherThread | InvalidContext | ContextsInconsistency
  | OutsideContext | NullDereference | BadCast

type_synonym thread_id = nat
type_synonym msg_type = "32 word"

datatype 'a msg_body =
    Internal address address
  | InternalEvent event_id address "'a option"
  | Custom 'a

record 'a message =
  msg_priority :: "32 word"
  body :: "'a msg_body"

record 'a message_entry =
  destination :: address
  e_message :: "'a message option"
  e_type :: msg_type
  e_internal :: bool
  e_priority :: "32 word"
  e_event :: bool
  processOnMainThread :: bool
  triggerTime :: u32

record 'a thread_context =
  threadId :: thread_id
  main_ctx :: bool
  inputQ :: "'a message_entry list"
  outputQ :: "'a message_entry list"
  futureEventList :: "'a message_entry list"
  eventPublisher :: publisher
  receivedMessages :: "64 word"
  processedMessages :: "64 word"
  eventMessages :: "64 word"

definition MB_MIN_MSG_PRIORITY :: "32 word" where "MB_MIN_MSG_PRIORITY = 5"
definition INTERNAL_EVENT_MSG_PRIORITY :: "32 word" where "INTERNAL_EVENT_MSG_PRIORITY = 3"
definition INTERNAL_EVENT_ACTION_PRIORITY :: "32 word" where "INTERNAL_EVENT_ACTION_PRIORITY = 4"
definition MSGI_PUBLISH_EVENT :: msg_type where "MSGI_PUBLISH_EVENT = 1004"
definition MSGI_UNSUBSCRIBE_ALL :: msg_type where "MSGI_UNSUBSCRIBE_ALL = 1005"

definition ComparePriority :: "'a message_entry \<Rightarrow> 'a message_entry \<Rightarrow> bool" where
  "ComparePriority t1 t2 \<longleftrightarrow> sint (e_priority t1) < sint (e_priority t2)"

definition CompareTriggerTime :: "'a message_entry \<Rightarrow> 'a message_entry \<Rightarrow> bool" where
  "CompareTriggerTime t1 t2 \<longleftrightarrow> triggerTime t1 > triggerTime t2"

lemma pq_push_mset: "mset (pq_push lt x q) = add_mset x (mset q)"
  by (induction q) simp_all

lemma pq_push_sorted:
  assumes "\<And>x y z. \<not> lt x y \<Longrightarrow> \<not> lt y z \<Longrightarrow> \<not> lt x z" "\<And>x y. lt x y \<Longrightarrow> \<not> lt y x"
    and "sorted_wrt (\<lambda>x y. \<not> lt x y) q"
  shows "sorted_wrt (\<lambda>x y. \<not> lt x y) (pq_push lt x q)"
  using assms(3)
proof (induction q)
  case (Cons y ys)
  have "set (pq_push lt x ys) = insert x (set ys)"
    using pq_push_mset [of lt x ys] by (metis set_mset_add_mset_insert set_mset_mset)
  moreover have "\<not> lt x z" if "lt y x" "z \<in> set ys" for z
    using that assms(1) [of x y z] assms(2) [of y x] Cons.prems by auto
  ultimately show ?case using Cons by (auto dest: assms(2))
qed simp

lemma pq_top_max: "sorted_wrt (\<lambda>x y. \<not> lt x y) q \<Longrightarrow> \<not> lt x x \<Longrightarrow> pq_top q = Some x \<Longrightarrow>
    x \<in># mset q \<and> (\<forall>y \<in># mset q. \<not> lt x y)"
  by (cases q) (auto simp: pq_top_def)

interpretation msgq: prio_queue ComparePriority "pq_push ComparePriority" pq_top pq_pop mset
    "sorted_wrt (\<lambda>x y. \<not> ComparePriority x y)"
proof
  fix x :: "'a message_entry" and q
  show "sorted_wrt (\<lambda>x y. \<not> ComparePriority x y) (pq_push ComparePriority x q)"
    if "sorted_wrt (\<lambda>x y. \<not> ComparePriority x y) q"
    using that by (rule pq_push_sorted [rotated 2]) (auto simp: ComparePriority_def)
  show "sorted_wrt (\<lambda>x y. \<not> ComparePriority x y) (pq_pop q)"
    if "sorted_wrt (\<lambda>x y. \<not> ComparePriority x y) q"
    using that by (cases q) (simp_all add: pq_pop_def)
qed (auto simp: pq_push_mset pq_top_def pq_pop_def ComparePriority_def neq_Nil_conv split: list.splits)

interpretation timeq: prio_queue CompareTriggerTime "pq_push CompareTriggerTime" pq_top pq_pop mset
    "sorted_wrt (\<lambda>x y. \<not> CompareTriggerTime x y)"
proof
  fix x :: "'a message_entry" and q
  show "sorted_wrt (\<lambda>x y. \<not> CompareTriggerTime x y) (pq_push CompareTriggerTime x q)"
    if "sorted_wrt (\<lambda>x y. \<not> CompareTriggerTime x y) q"
    using that by (rule pq_push_sorted [rotated 2]) (auto simp: CompareTriggerTime_def)
  show "sorted_wrt (\<lambda>x y. \<not> CompareTriggerTime x y) (pq_pop q)"
    if "sorted_wrt (\<lambda>x y. \<not> CompareTriggerTime x y) q"
    using that by (cases q) (simp_all add: pq_pop_def)
qed (auto simp: pq_push_mset pq_top_def pq_pop_def CompareTriggerTime_def neq_Nil_conv split: list.splits)


text \<open>
  The bus: the contexts by address and the list \<open>threadContexts\<close>, the thread-local pointer of each
  thread, the \<open>context\<close> field of each handler, and \<open>currentTime\<close>. \<open>handled\<close> is the sequence of calls
  of \<open>HandleMessage\<close>, \<open>notified\<close> the calls of listeners.
\<close>

record 'a call =
  c_dest :: address
  c_type :: msg_type
  c_message :: "'a message"

record ('a, 's) bus =
  contexts :: "address \<rightharpoonup> 'a thread_context"
  threadContexts :: "address list"
  threadContext :: "thread_id \<rightharpoonup> address"
  handler_context :: "address \<rightharpoonup> address"
  currentTime :: u32
  clients :: 's
  handled :: "'a call list"
  notified :: "'a notification list"

datatype 'a stimulus = Handle address msg_type "'a message" | Notify "'a notification"

record 'a post =
  p_target :: address
  p_type :: msg_type
  p_message :: "'a message option"
  p_onMain :: bool
  p_offset :: u32

record ('a, 's) bus_env =
  runningMidTerm :: bool
  react :: "'s \<Rightarrow> 'a stimulus \<Rightarrow> 's \<times> 'a post list"

definition context_at :: "('a, 's) bus \<Rightarrow> address \<Rightarrow> (bus_error, 'a thread_context) result" where
  "context_at b a = deref NullDereference (contexts b a)"

definition set_context :: "('a, 's) bus \<Rightarrow> address \<Rightarrow> 'a thread_context \<Rightarrow> ('a, 's) bus" where
  "set_context b a c = b\<lparr>contexts := (contexts b)(a \<mapsto> c)\<rparr>"

definition CheckMainThread :: "('a, 's) bus \<Rightarrow> thread_id \<Rightarrow> (bus_error, unit) result" where
  "CheckMainThread b th =
     (case threadContext b th of
        None \<Rightarrow> Inl NotMainThread
      | Some a \<Rightarrow> rbind (context_at b a) (\<lambda>c. guard NotMainThread (main_ctx c) (Inr ())))"

definition CheckThreadContext :: "('a, 's) bus \<Rightarrow> thread_id \<Rightarrow> (bus_error, address \<times> 'a thread_context) result" where
  "CheckThreadContext b th =
     (case threadContext b th of
        None \<Rightarrow> Inl NotThreadContext
      | Some a \<Rightarrow> rbind (context_at b a) (\<lambda>c. guard NotThreadContext (th = threadId c) (Inr (a, c))))"

definition newContext :: "thread_id \<Rightarrow> address \<Rightarrow> bool \<Rightarrow> 'a thread_context" where
  "newContext th pub isMain =
     \<lparr>threadId = th, main_ctx = isMain, inputQ = [], outputQ = [], futureEventList = [],
      eventPublisher = newPublisher pub, receivedMessages = 0, processedMessages = 0, eventMessages = 0\<rparr>"

definition RegisterHandler :: "('a, 's) bus \<Rightarrow> thread_id \<Rightarrow> address \<Rightarrow> (bus_error, ('a, 's) bus) result" where
  "RegisterHandler b th h =
     rbind (CheckThreadContext b th) (\<lambda>(a, c).
       if h \<noteq> 0 then
         (case handler_context b h of
            None \<Rightarrow> Inr (b\<lparr>handler_context := (handler_context b)(h \<mapsto> a)\<rparr>)
          | Some a' \<Rightarrow> if a \<noteq> a' then Inl HandlerInOtherContext else Inr b)
       else Inr b)"

definition UnRegisterHandler :: "('a, 's) bus \<Rightarrow> thread_id \<Rightarrow> address \<Rightarrow> (bus_error, ('a, 's) bus) result" where
  "UnRegisterHandler b th h =
     rbind (CheckThreadContext b th) (\<lambda>(a, c).
       if h \<noteq> 0 \<and> handler_context b h \<noteq> None then
         (if Some a = handler_context b h \<or> main_ctx c
          then Inr (b\<lparr>handler_context := (handler_context b)(h := None)\<rparr>)
          else Inl HandlerOfOtherThread)
       else Inr b)"

definition ReRegisterHandler ::
  "('a, 's) bus \<Rightarrow> thread_id \<Rightarrow> address \<Rightarrow> address \<Rightarrow> (bus_error, ('a, 's) bus) result" where
  "ReRegisterHandler b th h newCtx =
     rbind (CheckThreadContext b th) (\<lambda>_.
       if h \<noteq> 0 then
         guard InvalidContext (newCtx \<in> set (threadContexts b))
           (Inr (b\<lparr>handler_context := (handler_context b)(h \<mapsto> newCtx)\<rparr>))
       else Inr b)"

text \<open>The addresses of the new context and of its publisher are the allocator's.\<close>

definition register_context ::
  "bool \<Rightarrow> address \<Rightarrow> address \<Rightarrow> ('a, 's) bus \<Rightarrow> thread_id \<Rightarrow> (bus_error, ('a, 's) bus) result" where
  "register_context isMain a pub b th =
     RegisterHandler (b\<lparr>contexts := (contexts b)(a \<mapsto> newContext th pub isMain),
                        threadContext := (threadContext b)(th \<mapsto> a),
                        threadContexts := threadContexts b @ [a]\<rparr>) th pub"

definition RegisterMainThread ::
  "address \<Rightarrow> address \<Rightarrow> ('a, 's) bus \<Rightarrow> thread_id \<Rightarrow> (bus_error, ('a, 's) bus) result" where
  "RegisterMainThread a pub b th =
     (if threadContext b th = None then register_context True a pub b th else Inl MainContextExists)"

definition RegisterThread ::
  "address \<Rightarrow> address \<Rightarrow> ('a, 's) bus \<Rightarrow> thread_id \<Rightarrow> (bus_error, ('a, 's) bus) result" where
  "RegisterThread a pub b th =
     (if threadContext b th = None then register_context False a pub b th else Inl ContextExists)"

definition UnRegisterMainThread :: "('a, 's) bus \<Rightarrow> thread_id \<Rightarrow> (bus_error, ('a, 's) bus) result" where
  "UnRegisterMainThread b th =
     rbind (CheckMainThread b th) (\<lambda>_.
       Inr (b\<lparr>contexts := (\<lambda>a. if a \<in> set (threadContexts b) then None else contexts b a),
              threadContexts := []\<rparr>))"

section \<open>Posting\<close>

definition effective_priority :: "'a message \<Rightarrow> 32 word" where
  "effective_priority msg =
     (case body msg of
        Custom _ \<Rightarrow> if msg_priority msg < MB_MIN_MSG_PRIORITY then MB_MIN_MSG_PRIORITY else msg_priority msg
      | _ \<Rightarrow> msg_priority msg)"

definition is_event :: "'a message \<Rightarrow> bool" where
  "is_event msg \<longleftrightarrow> (case body msg of InternalEvent _ _ _ \<Rightarrow> True | _ \<Rightarrow> False)"

definition is_internal :: "'a message \<Rightarrow> bool" where
  "is_internal msg \<longleftrightarrow> (case body msg of Internal _ _ \<Rightarrow> True | _ \<Rightarrow> False)"

definition PostMessage ::
  "('a, 's) bus \<Rightarrow> thread_id \<Rightarrow> address \<Rightarrow> msg_type \<Rightarrow> 'a message option \<Rightarrow> bool \<Rightarrow> u32 \<Rightarrow>
   (bus_error, ('a, 's) bus) result" where
  "PostMessage b th dest ty msgp onMain timeOffset =
     rbind (CheckThreadContext b th) (\<lambda>(a, c).
       if dest \<noteq> 0 \<or> (case msgp of None \<Rightarrow> False | Some msg \<Rightarrow> is_event msg) then
         rbind (deref NullDereference msgp) (\<lambda>msg.
           let entry = \<lparr>destination = dest, e_message = msgp, e_type = ty, e_internal = is_internal msg,
                        e_priority = effective_priority msg, e_event = is_event msg,
                        processOnMainThread = onMain, triggerTime = 0\<rparr>
           in if timeOffset = 0
              then Inr (set_context b a (c\<lparr>outputQ := pq_push ComparePriority entry (outputQ c)\<rparr>))
              else Inr (set_context b a (c\<lparr>futureEventList := pq_push CompareTriggerTime
                     (entry\<lparr>triggerTime := currentTime b + timeOffset\<rparr>) (futureEventList c)\<rparr>)))
       else Inr b)"

definition post :: "thread_id \<Rightarrow> ('a, 's) bus \<Rightarrow> 'a post \<Rightarrow> (bus_error, ('a, 's) bus) result" where
  "post th b p = PostMessage b th (p_target p) (p_type p) (p_message p) (p_onMain p) (p_offset p)"


section \<open>Distribution by the main thread\<close>

definition push_input :: "'a message_entry \<Rightarrow> 'a thread_context \<Rightarrow> 'a thread_context" where
  "push_input e c = c\<lparr>inputQ := pq_push ComparePriority e (inputQ c)\<rparr>"

definition push_event :: "'a message_entry \<Rightarrow> ('a, 's) bus \<Rightarrow> address \<Rightarrow> (bus_error, ('a, 's) bus) result" where
  "push_event entry b x =
     rbind (context_at b x) (\<lambda>ctx.
       Inr (set_context b x (push_input (entry\<lparr>destination := this (eventPublisher ctx)\<rparr>) ctx)))"

definition dispatch ::
  "'a message_entry \<Rightarrow> address \<Rightarrow> address \<Rightarrow> ('a, 's) bus \<Rightarrow> (bus_error, ('a, 's) bus) result" where
  "dispatch entry a mainA b =
     (if e_event entry then
        rbind (context_at b a) (\<lambda>c.
          let b1 = set_context b a (c\<lparr>eventMessages := eventMessages c + 1\<rparr>)
          in run_list (push_event entry) b1 (threadContexts b1))
      else
        rbind (context_at b a) (\<lambda>c.
          let b1 = set_context b a (c\<lparr>receivedMessages := receivedMessages c + 1\<rparr>)
          in if processOnMainThread entry then
               rbind (context_at b1 mainA) (\<lambda>m. Inr (set_context b1 mainA (push_input entry m)))
             else
               guard NullDereference (destination entry \<noteq> 0)
                 (case handler_context b1 (destination entry) of
                    None \<Rightarrow> Inr b1
                  | Some d \<Rightarrow>
                      rbind (context_at b1 d) (\<lambda>dc. Inr (set_context b1 d (push_input entry dc))))))"

text \<open>One round of each of the two loops over a context; the loops end when no round is left.\<close>

definition output_round :: "address \<Rightarrow> address \<Rightarrow> ('a, 's) bus \<Rightarrow> (bus_error, ('a, 's) bus) result option" where
  "output_round mainA a b =
     (case contexts b a of
        None \<Rightarrow> Some (Inl NullDereference)
      | Some c \<Rightarrow>
          (case pq_top (outputQ c) of
             None \<Rightarrow> None
           | Some entry \<Rightarrow> Some
               (rbind (dispatch entry a mainA b) (\<lambda>b1.
                rbind (context_at b1 a) (\<lambda>c1.
                  Inr (set_context b1 a (c1\<lparr>outputQ := pq_pop (outputQ c1)\<rparr>)))))))"

definition future_round :: "address \<Rightarrow> address \<Rightarrow> ('a, 's) bus \<Rightarrow> (bus_error, ('a, 's) bus) result option" where
  "future_round mainA a b =
     (case contexts b a of
        None \<Rightarrow> Some (Inl NullDereference)
      | Some c \<Rightarrow>
          (case pq_top (futureEventList c) of
             None \<Rightarrow> None
           | Some entry \<Rightarrow>
               if triggerTime entry \<le> currentTime b then Some
                 (rbind (dispatch entry a mainA b) (\<lambda>b1.
                  rbind (context_at b1 a) (\<lambda>c1.
                    Inr (set_context b1 a (c1\<lparr>futureEventList := pq_pop (futureEventList c1)\<rparr>)))))
               else None))"

text \<open>What \<open>dispatch\<close> leaves alone: it adds to the input queues and counts, nothing else.\<close>

definition same_but_input :: "'a thread_context \<Rightarrow> 'a thread_context \<Rightarrow> bool" where
  "same_but_input c c' \<longleftrightarrow> threadId c' = threadId c \<and> main_ctx c' = main_ctx c \<and> outputQ c' = outputQ c \<and>
     futureEventList c' = futureEventList c \<and> eventPublisher c' = eventPublisher c"

definition bus_frame :: "('a, 's) bus \<Rightarrow> ('a, 's) bus \<Rightarrow> bool" where
  "bus_frame b b' \<longleftrightarrow> (\<forall>a. rel_option same_but_input (contexts b a) (contexts b' a)) \<and>
     threadContexts b' = threadContexts b \<and> threadContext b' = threadContext b \<and>
     handler_context b' = handler_context b \<and> currentTime b' = currentTime b \<and>
     clients b' = clients b \<and> handled b' = handled b \<and> notified b' = notified b"

lemma same_but_input_refl [simp]: "same_but_input c c"
  by (simp add: same_but_input_def)

lemma same_but_input_trans: "same_but_input c d \<Longrightarrow> same_but_input d e \<Longrightarrow> same_but_input c e"
  by (simp add: same_but_input_def)

lemma bus_frame_refl [simp]: "bus_frame b b"
  by (simp add: bus_frame_def option.rel_refl)

lemma rel_same_trans:
  "rel_option same_but_input x y \<Longrightarrow> rel_option same_but_input y z \<Longrightarrow> rel_option same_but_input x z"
  by (cases x; cases y; cases z) (auto intro: same_but_input_trans)

lemma bus_frame_trans: "bus_frame b c \<Longrightarrow> bus_frame c d \<Longrightarrow> bus_frame b d"
  unfolding bus_frame_def by (metis rel_same_trans)

lemma bus_frame_set: "contexts b a = Some c \<Longrightarrow> same_but_input c c' \<Longrightarrow> bus_frame b (set_context b a c')"
  by (auto simp: bus_frame_def set_context_def option.rel_refl)


lemma context_at_Inr: "context_at b a = Inr c \<longleftrightarrow> contexts b a = Some c"
  by (simp add: context_at_def deref_Inr)

lemmas bus_Inr = result_Inr context_at_Inr

lemma set_context_simps [simp]:
  "contexts (set_context b a c) = (contexts b)(a \<mapsto> c)"
  "threadContexts (set_context b a c) = threadContexts b"
  "threadContext (set_context b a c) = threadContext b"
  "handler_context (set_context b a c) = handler_context b"
  "currentTime (set_context b a c) = currentTime b"
  "clients (set_context b a c) = clients b"
  "handled (set_context b a c) = handled b"
  "notified (set_context b a c) = notified b"
  by (simp_all add: set_context_def)

lemma push_event_frame: "push_event e b x = Inr b' \<Longrightarrow> bus_frame b b'"
  by (auto simp: push_event_def bus_Inr push_input_def same_but_input_def intro: bus_frame_set)

lemma dispatch_frame:
  assumes "dispatch e a m b = Inr b'"
  shows "bus_frame b b'"
proof (cases "e_event e")
  case True
  then obtain c where c: "contexts b a = Some c"
    and r: "run_list (push_event e) (set_context b a (c\<lparr>eventMessages := eventMessages c + 1\<rparr>)) (threadContexts b) = Inr b'"
    using assms by (auto simp: dispatch_def bus_Inr)
  show ?thesis
  proof (rule run_list_invariant [OF _ _ r])
    show "bus_frame b (set_context b a (c\<lparr>eventMessages := eventMessages c + 1\<rparr>))"
      using c by (rule bus_frame_set) (simp add: same_but_input_def)
  qed (blast intro: bus_frame_trans push_event_frame)
next
  case False
  then obtain c where c: "contexts b a = Some c" using assms by (auto simp: dispatch_def bus_Inr)
  let ?b1 = "set_context b a (c\<lparr>receivedMessages := receivedMessages c + 1\<rparr>)"
  have b1: "bus_frame b ?b1" using c by (rule bus_frame_set) (simp add: same_but_input_def)
  have step: "bus_frame b b'"
    if "contexts ?b1 x = Some d" "b' = set_context ?b1 x (push_input e d)" for x d
    using bus_frame_trans [OF b1 bus_frame_set [OF that(1)]] that(2)
    by (simp add: push_input_def same_but_input_def)
  have "b' = ?b1 \<or> (\<exists>x d. contexts ?b1 x = Some d \<and> b' = set_context ?b1 x (push_input e d))"
    using assms False c
    by (simp add: dispatch_def bus_Inr Let_def split: if_splits option.splits) blast+
  with b1 step show ?thesis by blast
qed

lemma bus_frame_context:
  "bus_frame b b' \<Longrightarrow> contexts b a = Some c \<Longrightarrow> \<exists>c'. contexts b' a = Some c' \<and> same_but_input c c'"
  unfolding bus_frame_def by (metis option.rel_cases option.distinct(1) option.inject)

lemma output_round_length:
  assumes "output_round m a b = Some (Inr b')"
  shows "\<exists>c c'. contexts b a = Some c \<and> contexts b' a = Some c' \<and> length (outputQ c') < length (outputQ c)"
proof -
  obtain c e where c: "contexts b a = Some c" "pq_top (outputQ c) = Some e"
    and r: "rbind (dispatch e a m b) (\<lambda>b1. rbind (context_at b1 a) (\<lambda>c1.
      Inr (set_context b1 a (c1\<lparr>outputQ := pq_pop (outputQ c1)\<rparr>)))) = Inr b'"
    using assms by (auto simp: output_round_def split: option.splits)
  from r obtain b1 c1 where d: "dispatch e a m b = Inr b1" "contexts b1 a = Some c1"
    "b' = set_context b1 a (c1\<lparr>outputQ := pq_pop (outputQ c1)\<rparr>)" by (auto simp: bus_Inr)
  have "outputQ c1 = outputQ c"
    using bus_frame_context [OF dispatch_frame [OF d(1)] c(1)] d(2) by (auto simp: same_but_input_def)
  with c d(3) show ?thesis by (auto simp: pq_top_def pq_pop_def split: list.splits)
qed

lemma future_round_length:
  assumes "future_round m a b = Some (Inr b')"
  shows "\<exists>c c'. contexts b a = Some c \<and> contexts b' a = Some c' \<and>
    length (futureEventList c') < length (futureEventList c)"
proof -
  obtain c e where c: "contexts b a = Some c" "pq_top (futureEventList c) = Some e"
    and r: "rbind (dispatch e a m b) (\<lambda>b1. rbind (context_at b1 a) (\<lambda>c1.
      Inr (set_context b1 a (c1\<lparr>futureEventList := pq_pop (futureEventList c1)\<rparr>)))) = Inr b'"
    using assms by (auto simp: future_round_def split: option.splits if_splits)
  from r obtain b1 c1 where d: "dispatch e a m b = Inr b1" "contexts b1 a = Some c1"
    "b' = set_context b1 a (c1\<lparr>futureEventList := pq_pop (futureEventList c1)\<rparr>)" by (auto simp: bus_Inr)
  have "futureEventList c1 = futureEventList c"
    using bus_frame_context [OF dispatch_frame [OF d(1)] c(1)] d(2) by (auto simp: same_but_input_def)
  with c d(3) show ?thesis by (auto simp: pq_top_def pq_pop_def split: list.splits)
qed

definition queue_size :: "('a thread_context \<Rightarrow> 'a message_entry list) \<Rightarrow> ('a, 's) bus \<Rightarrow> address \<Rightarrow> nat" where
  "queue_size f b a = (case contexts b a of None \<Rightarrow> 0 | Some c \<Rightarrow> length (f c))"

function output_loop :: "address \<Rightarrow> address \<Rightarrow> ('a, 's) bus \<Rightarrow> (bus_error, ('a, 's) bus) result" where
  "output_loop mainA a b =
     (case output_round mainA a b of
        None \<Rightarrow> Inr b
      | Some (Inl e) \<Rightarrow> Inl e
      | Some (Inr b') \<Rightarrow> output_loop mainA a b')"
  by pat_completeness auto
termination
  by (relation "measure (\<lambda>(m, a, b). queue_size outputQ b a)")
    (auto simp: queue_size_def dest!: output_round_length)

function future_loop :: "address \<Rightarrow> address \<Rightarrow> ('a, 's) bus \<Rightarrow> (bus_error, ('a, 's) bus) result" where
  "future_loop mainA a b =
     (case future_round mainA a b of
        None \<Rightarrow> Inr b
      | Some (Inl e) \<Rightarrow> Inl e
      | Some (Inr b') \<Rightarrow> future_loop mainA a b')"
  by pat_completeness auto
termination
  by (relation "measure (\<lambda>(m, a, b). queue_size futureEventList b a)")
    (auto simp: queue_size_def dest!: future_round_length)

declare output_loop.simps [simp del] future_loop.simps [simp del]

definition collect_context :: "address \<Rightarrow> ('a, 's) bus \<Rightarrow> address \<Rightarrow> (bus_error, ('a, 's) bus) result" where
  "collect_context mainA b a = rbind (output_loop mainA a b) (future_loop mainA a)"

definition DispatchMessages :: "('a, 's) bus \<Rightarrow> thread_id \<Rightarrow> (bus_error, ('a, 's) bus) result" where
  "DispatchMessages b th =
     rbind (CheckMainThread b th) (\<lambda>_.
       case threadContext b th of
         None \<Rightarrow> Inr b
       | Some mainA \<Rightarrow>
           run_list (collect_context mainA) (b\<lparr>currentTime := currentTime b + 1\<rparr>) (threadContexts b))"


section \<open>Handling by the threads\<close>

definition run_posts :: "thread_id \<Rightarrow> 's \<times> 'a post list \<Rightarrow> ('a, 's) bus \<Rightarrow> (bus_error, ('a, 's) bus) result" where
  "run_posts th r b = run_list (post th) (b\<lparr>clients := fst r\<rparr>) (snd r)"

definition notify ::
  "('a, 's) bus_env \<Rightarrow> thread_id \<Rightarrow> ('a, 's) bus \<Rightarrow> 'a notification \<Rightarrow> (bus_error, ('a, 's) bus) result" where
  "notify env th b n =
     run_posts th (react env (clients b) (Notify n)) (b\<lparr>notified := notified b @ [n]\<rparr>)"

definition publisher_at :: "('a, 's) bus \<Rightarrow> address \<Rightarrow> address option" where
  "publisher_at b h =
     find (\<lambda>a. case contexts b a of None \<Rightarrow> False | Some c \<Rightarrow> this (eventPublisher c) = h) (threadContexts b)"

text \<open>\<open>InternalEventPublisher::HandleMessage\<close>.\<close>

definition handle_publisher ::
  "('a, 's) bus_env \<Rightarrow> thread_id \<Rightarrow> address \<Rightarrow> msg_type \<Rightarrow> 'a message \<Rightarrow> ('a, 's) bus \<Rightarrow>
   (bus_error, ('a, 's) bus) result" where
  "handle_publisher env th a ty msg b =
     (case body msg of
        InternalEvent i ctx data \<Rightarrow>
          rbind (context_at b a) (\<lambda>c.
            if ty = MSGI_PUBLISH_EVENT then
              rbind (deref NullDereference data) (\<lambda>args.
                run_list (notify env th) b
                  (if ctx = 0 then publish (eventPublisher c) i args
                   else publishCtx (eventPublisher c) i ctx args))
            else if ty = MSGI_UNSUBSCRIBE_ALL then
              Inr (set_context b a (c\<lparr>eventPublisher :=
                (if ctx = 0 then unSubscribeAll (eventPublisher c) i
                 else unSubscribeAllCtx (eventPublisher c) i ctx)\<rparr>))
            else Inr b)
      | _ \<Rightarrow> Inl BadCast)"

definition HandleMessage ::
  "('a, 's) bus_env \<Rightarrow> thread_id \<Rightarrow> address \<Rightarrow> msg_type \<Rightarrow> 'a message \<Rightarrow> ('a, 's) bus \<Rightarrow>
   (bus_error, ('a, 's) bus) result" where
  "HandleMessage env th dest ty msg b =
     (let b1 = b\<lparr>handled := handled b @ [\<lparr>c_dest = dest, c_type = ty, c_message = msg\<rparr>]\<rparr>
      in case publisher_at b1 dest of
           Some a \<Rightarrow> handle_publisher env th a ty msg b1
         | None \<Rightarrow> run_posts th (react env (clients b1) (Handle dest ty msg)) b1)"

text \<open>
  The recipient may have moved to another thread: the mid-term simulation forwards the message, the
  others give up. The handler is called in either case.
\<close>

definition forward ::
  "('a, 's) bus_env \<Rightarrow> thread_id \<Rightarrow> 'a thread_context \<Rightarrow> 'a message_entry \<Rightarrow> ('a, 's) bus \<Rightarrow>
   (bus_error, ('a, 's) bus) result" where
  "forward env th c entry b =
     (if processOnMainThread entry then Inr b
      else rbind (deref NullDereference (handler_context b (destination entry))) (\<lambda>d.
             rbind (context_at b d) (\<lambda>dc.
               if threadId c \<noteq> threadId dc then
                 (if runningMidTerm env
                  then PostMessage b th (destination entry) (e_type entry) (e_message entry)
                         (processOnMainThread entry) 0
                  else Inl ContextsInconsistency)
               else Inr b)))"

definition handle_entry ::
  "('a, 's) bus_env \<Rightarrow> thread_id \<Rightarrow> 'a thread_context \<Rightarrow> 'a message_entry \<Rightarrow> ('a, 's) bus \<Rightarrow>
   (bus_error, ('a, 's) bus) result" where
  "handle_entry env th c entry b =
     (case e_message entry of
        None \<Rightarrow> Inr b
      | Some msg \<Rightarrow>
          if destination entry \<noteq> 0 then
            rbind (forward env th c entry b) (HandleMessage env th (destination entry) (e_type entry) msg)
          else Inr b)"

definition input_round ::
  "('a, 's) bus_env \<Rightarrow> thread_id \<Rightarrow> address \<Rightarrow> ('a, 's) bus \<Rightarrow> (bus_error, ('a, 's) bus) result option" where
  "input_round env th a b =
     (case contexts b a of
        None \<Rightarrow> Some (Inl NullDereference)
      | Some c \<Rightarrow>
          (case pq_top (inputQ c) of
             None \<Rightarrow> None
           | Some entry \<Rightarrow> Some
               (rbind (handle_entry env th c entry b) (\<lambda>b1.
                rbind (context_at b1 a) (\<lambda>c1.
                  Inr (set_context b1 a (c1\<lparr>inputQ := pq_pop (inputQ c1),
                                            processedMessages := processedMessages c1 + 1\<rparr>)))))))"

text \<open>Handling leaves the input queues, the counters and the registrations alone.\<close>

definition same_input :: "'a thread_context \<Rightarrow> 'a thread_context \<Rightarrow> bool" where
  "same_input c c' \<longleftrightarrow> threadId c' = threadId c \<and> main_ctx c' = main_ctx c \<and> inputQ c' = inputQ c \<and>
     this (eventPublisher c') = this (eventPublisher c) \<and> receivedMessages c' = receivedMessages c \<and>
     processedMessages c' = processedMessages c \<and> eventMessages c' = eventMessages c"

definition input_frame :: "('a, 's) bus \<Rightarrow> ('a, 's) bus \<Rightarrow> bool" where
  "input_frame b b' \<longleftrightarrow> (\<forall>a. rel_option same_input (contexts b a) (contexts b' a)) \<and>
     threadContexts b' = threadContexts b \<and> threadContext b' = threadContext b \<and>
     handler_context b' = handler_context b \<and> currentTime b' = currentTime b"

lemma same_input_refl [simp]: "same_input c c"
  by (simp add: same_input_def)

lemma input_frame_refl [simp]: "input_frame b b"
  by (simp add: input_frame_def option.rel_refl)

lemma rel_same_input_trans:
  "rel_option same_input x y \<Longrightarrow> rel_option same_input y z \<Longrightarrow> rel_option same_input x z"
  by (cases x; cases y; cases z) (auto simp: same_input_def)

lemma input_frame_trans: "input_frame b c \<Longrightarrow> input_frame c d \<Longrightarrow> input_frame b d"
  unfolding input_frame_def by (metis rel_same_input_trans)

lemma input_frame_set: "contexts b a = Some c \<Longrightarrow> same_input c c' \<Longrightarrow> input_frame b (set_context b a c')"
  by (auto simp: input_frame_def option.rel_refl)

lemma input_frame_log [simp]:
  "input_frame b (b'\<lparr>clients := s\<rparr>) = input_frame b b'"
  "input_frame b (b'\<lparr>handled := hs\<rparr>) = input_frame b b'"
  "input_frame b (b'\<lparr>notified := ns\<rparr>) = input_frame b b'"
  by (simp_all add: input_frame_def)

lemma input_frame_context:
  "input_frame b b' \<Longrightarrow> contexts b a = Some c \<Longrightarrow> \<exists>c'. contexts b' a = Some c' \<and> same_input c c'"
  unfolding input_frame_def by (metis option.rel_cases option.distinct(1) option.inject)

lemma CheckThreadContext_Inr:
  "CheckThreadContext b th = Inr (a, c) \<longleftrightarrow> threadContext b th = Some a \<and> contexts b a = Some c \<and> threadId c = th"
  by (auto simp: CheckThreadContext_def bus_Inr split: option.split)

lemma PostMessage_frame:
  assumes "PostMessage b th d ty m p k = Inr b'"
  shows "input_frame b b' \<and> handled b' = handled b"
proof -
  obtain a c where c: "contexts b a = Some c"
    and "b' = b \<or> (\<exists>q. b' = set_context b a (c\<lparr>outputQ := q\<rparr>)) \<or>
      (\<exists>q. b' = set_context b a (c\<lparr>futureEventList := q\<rparr>))"
    using assms by (auto simp: PostMessage_def bus_Inr CheckThreadContext_Inr Let_def split: if_splits)
  then show ?thesis by (auto simp: same_input_def intro: input_frame_set)
qed

lemma run_posts_frame:
  assumes "run_posts th r b = Inr b'"
  shows "input_frame b b' \<and> handled b' = handled b"
proof (rule run_list_invariant [OF _ _ assms [unfolded run_posts_def]])
  show "input_frame b x' \<and> handled x' = handled b"
    if "input_frame b x \<and> handled x = handled b" "post th x p = Inr x'" for x p x'
    using that PostMessage_frame [of x th] by (auto simp: post_def intro: input_frame_trans)
qed simp

lemma notify_frame: "notify env th b n = Inr b' \<Longrightarrow> input_frame b b' \<and> handled b' = handled b"
  by (auto simp: notify_def dest!: run_posts_frame intro: input_frame_trans [rotated])


lemma handle_publisher_frame:
  assumes "handle_publisher env th a ty msg b = Inr b'"
  shows "input_frame b b' \<and> handled b' = handled b"
proof -
  obtain i ctx data c where body: "body msg = InternalEvent i ctx data" and c: "contexts b a = Some c"
    using assms by (auto simp: handle_publisher_def bus_Inr split: msg_body.splits)
  show ?thesis
  proof (cases "ty = MSGI_PUBLISH_EVENT")
    case True
    then obtain ns where r: "run_list (notify env th) b ns = Inr b'"
      using assms body c by (auto simp: handle_publisher_def context_at_def deref_Inr rbind_Inr)
    show ?thesis
    proof (rule run_list_invariant [OF _ _ r])
      show "input_frame b x' \<and> handled x' = handled b"
        if "input_frame b x \<and> handled x = handled b" "notify env th x n = Inr x'" for x n x'
        using that notify_frame [of env th x n x'] by (auto intro: input_frame_trans)
    qed simp
  next
    case False
    then have "b' = b \<or> (\<exists>p. this p = this (eventPublisher c) \<and> b' = set_context b a (c\<lparr>eventPublisher := p\<rparr>))"
      using assms body c pub_this [of "eventPublisher c" "UnSubscribeAll _ _"]
      by (auto simp: handle_publisher_def context_at_def unSubscribeAll_def split: if_splits)
    then show ?thesis using c by (auto simp: same_input_def intro: input_frame_set)
  qed
qed

lemma HandleMessage_frame:
  assumes "HandleMessage env th d ty msg b = Inr b'"
  shows "input_frame b b' \<and> handled b' = handled b @ [\<lparr>c_dest = d, c_type = ty, c_message = msg\<rparr>]"
proof -
  let ?b1 = "b\<lparr>handled := handled b @ [\<lparr>c_dest = d, c_type = ty, c_message = msg\<rparr>]\<rparr>"
  have "input_frame ?b1 b' \<and> handled b' = handled ?b1"
    using assms run_posts_frame [of th _ ?b1 b'] handle_publisher_frame [of env th _ ty msg ?b1 b']
    by (auto simp: HandleMessage_def Let_def split: option.splits)
  moreover have "input_frame b ?b1" by simp
  ultimately show ?thesis using input_frame_trans by (metis (no_types, lifting) bus.select_convs(7) bus.surjective bus.update_convs(7))
qed

lemma forward_frame: "forward env th c e b = Inr b' \<Longrightarrow> input_frame b b' \<and> handled b' = handled b"
  using PostMessage_frame [of b th "destination e" "e_type e" "e_message e" False 0 b']
  by (auto simp: forward_def bus_Inr split: if_splits)

definition call_of :: "'a message_entry \<Rightarrow> 'a call list" where
  "call_of e = (case e_message e of
     None \<Rightarrow> []
   | Some msg \<Rightarrow> if destination e \<noteq> 0
                then [\<lparr>c_dest = destination e, c_type = e_type e, c_message = msg\<rparr>] else [])"

lemma handle_entry_frame:
  assumes "handle_entry env th c e b = Inr b'"
  shows "input_frame b b' \<and> handled b' = handled b @ call_of e"
proof (cases "e_message e")
  case (Some msg)
  show ?thesis
  proof (cases "destination e = 0")
    case False
    then obtain b1 where b1: "forward env th c e b = Inr b1"
      and h: "HandleMessage env th (destination e) (e_type e) msg b1 = Inr b'"
      using assms Some by (auto simp: handle_entry_def rbind_Inr)
    show ?thesis
      using forward_frame [OF b1] HandleMessage_frame [OF h] False Some
      by (auto simp: call_of_def intro: input_frame_trans)
  qed (use assms Some in \<open>simp add: handle_entry_def call_of_def\<close>)
qed (use assms in \<open>simp add: handle_entry_def call_of_def\<close>)

lemma input_round_Inr:
  assumes "input_round env th a b = Some (Inr b')"
  obtains c e b1 c1 where "contexts b a = Some c" "pq_top (inputQ c) = Some e"
    "handle_entry env th c e b = Inr b1" "contexts b1 a = Some c1" "inputQ c1 = inputQ c"
    "processedMessages c1 = processedMessages c" "threadId c1 = threadId c"
    "b' = set_context b1 a (c1\<lparr>inputQ := pq_pop (inputQ c), processedMessages := processedMessages c + 1\<rparr>)"
proof -
  obtain c e where c: "contexts b a = Some c" "pq_top (inputQ c) = Some e"
    and r: "rbind (handle_entry env th c e b) (\<lambda>b1. rbind (context_at b1 a) (\<lambda>c1.
      Inr (set_context b1 a (c1\<lparr>inputQ := pq_pop (inputQ c1),
        processedMessages := processedMessages c1 + 1\<rparr>)))) = Inr b'"
    using assms by (auto simp: input_round_def split: option.splits)
  from r obtain b1 c1 where d: "handle_entry env th c e b = Inr b1" "contexts b1 a = Some c1"
    "b' = set_context b1 a (c1\<lparr>inputQ := pq_pop (inputQ c1), processedMessages := processedMessages c1 + 1\<rparr>)"
    by (auto simp: bus_Inr)
  then show ?thesis
    using that c input_frame_context [OF conjunct1 [OF handle_entry_frame [OF d(1)]] c(1)]
    by (auto simp: same_input_def)
qed

function input_loop ::
  "('a, 's) bus_env \<Rightarrow> thread_id \<Rightarrow> address \<Rightarrow> ('a, 's) bus \<Rightarrow> (bus_error, ('a, 's) bus) result" where
  "input_loop env th a b =
     (case input_round env th a b of
        None \<Rightarrow> Inr b
      | Some (Inl e) \<Rightarrow> Inl e
      | Some (Inr b') \<Rightarrow> input_loop env th a b')"
  by pat_completeness auto
termination
  by (relation "measure (\<lambda>(env, th, a, b). queue_size inputQ b a)")
    (auto simp: queue_size_def pq_top_def pq_pop_def elim!: input_round_Inr split: list.splits)

declare input_loop.simps [simp del]

definition ThreadDispatchMessages ::
  "('a, 's) bus_env \<Rightarrow> ('a, 's) bus \<Rightarrow> thread_id \<Rightarrow> (bus_error, ('a, 's) bus) result" where
  "ThreadDispatchMessages env b th =
     rbind (CheckThreadContext b th) (\<lambda>(a, c). input_loop env th a b)"

definition DistributeMessages ::
  "('a, 's) bus_env \<Rightarrow> ('a, 's) bus \<Rightarrow> thread_id \<Rightarrow> (bus_error, ('a, 's) bus) result" where
  "DistributeMessages env b th =
     rbind (CheckMainThread b th) (\<lambda>_.
     rbind (DispatchMessages b th) (\<lambda>b1. ThreadDispatchMessages env b1 th))"

section \<open>The other operations\<close>

definition count_instant :: "address \<Rightarrow> ('a, 's) bus \<Rightarrow> (bus_error, ('a, 's) bus) result" where
  "count_instant a b =
     rbind (context_at b a) (\<lambda>c.
       Inr (set_context b a (c\<lparr>receivedMessages := receivedMessages c + 1,
                              processedMessages := processedMessages c + 1\<rparr>)))"

text \<open>The condition reads \<open>destination->context\<close> before \<open>destination\<close> is tested.\<close>

definition SendInstantaneousMessage ::
  "('a, 's) bus_env \<Rightarrow> ('a, 's) bus \<Rightarrow> thread_id \<Rightarrow> address \<Rightarrow> msg_type \<Rightarrow> 'a message option \<Rightarrow>
   (bus_error, ('a, 's) bus) result" where
  "SendInstantaneousMessage env b th dest ty msgp =
     rbind (CheckThreadContext b th) (\<lambda>(a, c).
       guard NullDereference (dest \<noteq> 0)
         (if handler_context b dest = Some a \<or> main_ctx c then
            (if dest \<noteq> 0 then
               rbind (deref NullDereference msgp) (\<lambda>msg.
               rbind (HandleMessage env th dest ty msg b) (count_instant a))
             else Inl OutsideContext)
          else Inr b))"

definition SendMessage ::
  "('a, 's) bus_env \<Rightarrow> ('a, 's) bus \<Rightarrow> thread_id \<Rightarrow> address \<Rightarrow> msg_type \<Rightarrow> 'a message option \<Rightarrow> bool \<Rightarrow>
   (bus_error, ('a, 's) bus) result" where
  "SendMessage env b th dest ty msgp onMain =
     rbind (CheckThreadContext b th) (\<lambda>(a, c).
       if dest \<noteq> 0 \<and> handler_context b dest = Some a
       then SendInstantaneousMessage env b th dest ty msgp
       else PostMessage b th dest ty msgp onMain 0)"

definition on_publisher ::
  "(publisher \<Rightarrow> publisher) \<Rightarrow> ('a, 's) bus \<Rightarrow> thread_id \<Rightarrow> bool \<Rightarrow> (bus_error, ('a, 's) bus) result" where
  "on_publisher f b th go =
     rbind (CheckThreadContext b th) (\<lambda>(a, c).
       if go then Inr (set_context b a (c\<lparr>eventPublisher := f (eventPublisher c)\<rparr>)) else Inr b)"

definition SubscribeEvent :: "('a, 's) bus \<Rightarrow> thread_id \<Rightarrow> event_id \<Rightarrow> address \<Rightarrow> (bus_error, ('a, 's) bus) result" where
  "SubscribeEvent b th i l = on_publisher (\<lambda>p. subscribe (registerEvent p i) i l 0) b th (l \<noteq> 0)"

definition SubscribeEventCtx ::
  "('a, 's) bus \<Rightarrow> thread_id \<Rightarrow> event_id \<Rightarrow> address \<Rightarrow> address \<Rightarrow> (bus_error, ('a, 's) bus) result" where
  "SubscribeEventCtx b th i ctx l =
     on_publisher (\<lambda>p. subscribe (registerEvent p i) i l ctx) b th (l \<noteq> 0 \<and> ctx \<noteq> 0)"

definition UnSubscribeEvent :: "('a, 's) bus \<Rightarrow> thread_id \<Rightarrow> event_id \<Rightarrow> address \<Rightarrow> (bus_error, ('a, 's) bus) result" where
  "UnSubscribeEvent b th i l = on_publisher (\<lambda>p. unSubscribe p i l) b th (l \<noteq> 0)"

definition UnSubscribeEventCtx ::
  "('a, 's) bus \<Rightarrow> thread_id \<Rightarrow> event_id \<Rightarrow> address \<Rightarrow> address \<Rightarrow> (bus_error, ('a, 's) bus) result" where
  "UnSubscribeEventCtx b th i ctx l = on_publisher (\<lambda>p. unSubscribeCtx p i ctx l) b th (l \<noteq> 0 \<and> ctx \<noteq> 0)"

definition bus_UnSubscribeAll ::
  "('a, 's) bus \<Rightarrow> thread_id \<Rightarrow> event_id \<Rightarrow> address \<Rightarrow> (bus_error, ('a, 's) bus) result" where
  "bus_UnSubscribeAll b th i ctx =
     rbind (CheckThreadContext b th) (\<lambda>_.
       PostMessage b th 0 MSGI_UNSUBSCRIBE_ALL
         (Some \<lparr>msg_priority = INTERNAL_EVENT_ACTION_PRIORITY, body = InternalEvent i ctx None\<rparr>) False 0)"

definition PublishEvent ::
  "('a, 's) bus \<Rightarrow> thread_id \<Rightarrow> event_id \<Rightarrow> address \<Rightarrow> 'a option \<Rightarrow> (bus_error, ('a, 's) bus) result" where
  "PublishEvent b th i ctx args =
     rbind (CheckThreadContext b th) (\<lambda>_.
       PostMessage b th 0 MSGI_PUBLISH_EVENT
         (Some \<lparr>msg_priority = INTERNAL_EVENT_MSG_PRIORITY, body = InternalEvent i ctx args\<rparr>) False 0)"

definition PublishInstantaneousEvent ::
  "('a, 's) bus_env \<Rightarrow> ('a, 's) bus \<Rightarrow> thread_id \<Rightarrow> event_id \<Rightarrow> address \<Rightarrow> 'a option \<Rightarrow>
   (bus_error, ('a, 's) bus) result" where
  "PublishInstantaneousEvent env b th i ctx args =
     rbind (CheckThreadContext b th) (\<lambda>(a, c).
     rbind (deref NullDereference args) (\<lambda>v.
     rbind (run_list (notify env th) b (publishCtx (eventPublisher c) i ctx v)) (\<lambda>b1.
     rbind (context_at b1 a) (\<lambda>c1.
       Inr (set_context b1 a (c1\<lparr>eventMessages := eventMessages c1 + 1\<rparr>))))))"


section \<open>The invariant of the bus\<close>

abbreviation by_priority :: "'a message_entry list \<Rightarrow> bool" where
  "by_priority \<equiv> sorted_wrt (\<lambda>x y. \<not> ComparePriority x y)"

abbreviation by_time :: "'a message_entry list \<Rightarrow> bool" where
  "by_time \<equiv> sorted_wrt (\<lambda>x y. \<not> CompareTriggerTime x y)"

definition entry_ok :: "'a message_entry \<Rightarrow> bool" where
  "entry_ok e \<longleftrightarrow> e_event e \<or> destination e \<noteq> 0"

definition ctx_ok :: "'a thread_context \<Rightarrow> bool" where
  "ctx_ok c \<longleftrightarrow> by_priority (inputQ c) \<and> by_priority (outputQ c) \<and> by_time (futureEventList c) \<and>
     (\<forall>e \<in> set (outputQ c) \<union> set (futureEventList c). entry_ok e)"

definition bus_inv :: "('a, 's) bus \<Rightarrow> bool" where
  "bus_inv b \<longleftrightarrow> distinct (threadContexts b) \<and> (\<forall>a \<in> set (threadContexts b). contexts b a \<noteq> None) \<and>
     (\<forall>th a. threadContext b th = Some a \<longrightarrow>
        a \<in> set (threadContexts b) \<and> (\<exists>c. contexts b a = Some c \<and> threadId c = th)) \<and>
     (\<forall>h a. handler_context b h = Some a \<longrightarrow> a \<in> set (threadContexts b)) \<and>
     (\<forall>a c. contexts b a = Some c \<longrightarrow> ctx_ok c)"

definition newBus :: "'s \<Rightarrow> ('a, 's) bus" where
  "newBus s = \<lparr>contexts = (\<lambda>a. None), threadContexts = [], threadContext = (\<lambda>t. None),
     handler_context = (\<lambda>h. None), currentTime = 0, clients = s, handled = [], notified = []\<rparr>"

lemma bus_inv_new: "bus_inv (newBus s)"
  by (simp add: bus_inv_def newBus_def)

lemma bus_inv_set:
  "bus_inv b \<Longrightarrow> contexts b a = Some c \<Longrightarrow> ctx_ok c' \<Longrightarrow> threadId c' = threadId c \<Longrightarrow>
   bus_inv (set_context b a c')"
  by (auto simp: bus_inv_def) fastforce

lemma bus_inv_ctx: "bus_inv b \<Longrightarrow> contexts b a = Some c \<Longrightarrow> ctx_ok c"
  by (auto simp: bus_inv_def)

lemma bus_inv_live: "bus_inv b \<Longrightarrow> a \<in> set (threadContexts b) \<Longrightarrow> \<exists>c. contexts b a = Some c"
  by (auto simp: bus_inv_def)

lemma bus_inv_handler: "bus_inv b \<Longrightarrow> handler_context b h = Some a \<Longrightarrow> a \<in> set (threadContexts b)"
  by (auto simp: bus_inv_def)

lemma bus_inv_log [simp]:
  "bus_inv (b\<lparr>clients := s\<rparr>) = bus_inv b" "bus_inv (b\<lparr>handled := hs\<rparr>) = bus_inv b"
  "bus_inv (b\<lparr>notified := ns\<rparr>) = bus_inv b" "bus_inv (b\<lparr>currentTime := t\<rparr>) = bus_inv b"
  by (simp_all add: bus_inv_def)

lemma ctx_ok_push_input: "ctx_ok c \<Longrightarrow> ctx_ok (push_input e c)"
  by (simp add: ctx_ok_def push_input_def msgq.ok_push)

section \<open>What the main thread moves\<close>

definition inp :: "('a, 's) bus \<Rightarrow> address \<Rightarrow> 'a message_entry multiset" where
  "inp b x = (case contexts b x of None \<Rightarrow> {#} | Some c \<Rightarrow> mset (inputQ c))"

definition outp :: "('a, 's) bus \<Rightarrow> address \<Rightarrow> 'a message_entry list" where
  "outp b x = (case contexts b x of None \<Rightarrow> [] | Some c \<Rightarrow> outputQ c)"

definition futp :: "('a, 's) bus \<Rightarrow> address \<Rightarrow> 'a message_entry list" where
  "futp b x = (case contexts b x of None \<Rightarrow> [] | Some c \<Rightarrow> futureEventList c)"

definition pub_addr :: "('a, 's) bus \<Rightarrow> address \<Rightarrow> address" where
  "pub_addr b x = (case contexts b x of None \<Rightarrow> 0 | Some c \<Rightarrow> this (eventPublisher c))"

definition mainp :: "('a, 's) bus \<Rightarrow> address \<Rightarrow> bool" where
  "mainp b x = (case contexts b x of None \<Rightarrow> False | Some c \<Rightarrow> main_ctx c)"

definition static :: "('a, 's) bus \<Rightarrow> ('a, 's) bus \<Rightarrow> bool" where
  "static b b' \<longleftrightarrow> pub_addr b' = pub_addr b \<and> mainp b' = mainp b \<and> threadContexts b' = threadContexts b \<and>
     threadContext b' = threadContext b \<and> handler_context b' = handler_context b \<and>
     currentTime b' = currentTime b"

text \<open>Where an entry goes: an event to the publisher of every context, a message to the main
  context or to the context of its destination, if that has one.\<close>

definition sent :: "('a, 's) bus \<Rightarrow> address \<Rightarrow> 'a message_entry \<Rightarrow> address \<Rightarrow> 'a message_entry multiset" where
  "sent b mainA e x =
     (if e_event e then
        (if x \<in> set (threadContexts b) then {#e\<lparr>destination := pub_addr b x\<rparr>#} else {#})
      else if x = mainA \<and> processOnMainThread e \<or>
              \<not> processOnMainThread e \<and> handler_context b (destination e) = Some x
      then {#e#} else {#})"

lemmas proj_defs = inp_def outp_def futp_def pub_addr_def mainp_def

lemma proj_set_context:
  "inp (set_context b a c) = (inp b)(a := mset (inputQ c))"
  "outp (set_context b a c) = (outp b)(a := outputQ c)"
  "futp (set_context b a c) = (futp b)(a := futureEventList c)"
  "pub_addr (set_context b a c) = (pub_addr b)(a := this (eventPublisher c))"
  by (auto simp: proj_defs fun_eq_iff)

lemma proj_at:
  assumes "contexts b a = Some c"
  shows "inp b a = mset (inputQ c)" "outp b a = outputQ c" "futp b a = futureEventList c"
    "pub_addr b a = this (eventPublisher c)"
  using assms by (simp_all add: proj_defs)

lemma static_sent: "static b b' \<Longrightarrow> sent b' = sent b"
  by (intro ext) (simp add: static_def sent_def)

lemma static_trans: "static a b \<Longrightarrow> static b c \<Longrightarrow> static a c"
  by (simp add: static_def)

lemma static_refl [simp]: "static b b"
  by (simp add: static_def)

lemma push_event_spec:
  assumes "bus_inv b" "x \<in> set (threadContexts b)"
  shows "\<exists>b'. push_event e b x = Inr b' \<and> bus_inv b' \<and> static b b' \<and> outp b' = outp b \<and> futp b' = futp b \<and>
    inp b' = (inp b)(x := add_mset (e\<lparr>destination := pub_addr b x\<rparr>) (inp b x))"
proof -
  obtain c where c: "contexts b x = Some c" using assms by (auto simp: bus_inv_def)
  let ?b = "set_context b x (push_input (e\<lparr>destination := this (eventPublisher c)\<rparr>) c)"
  have "push_event e b x = Inr ?b" using c by (simp add: push_event_def context_at_def)
  moreover have "bus_inv ?b"
    using bus_inv_set [OF assms(1) c] ctx_ok_push_input [OF bus_inv_ctx [OF assms(1) c]]
    by (simp add: push_input_def)
  ultimately show ?thesis
    using c by (intro exI [of _ ?b]) (auto simp: static_def proj_defs push_input_def pq_push_mset fun_eq_iff)
qed

lemma push_events_spec:
  assumes "bus_inv b" "set xs \<subseteq> set (threadContexts b)" "distinct xs"
  shows "\<exists>b'. run_list (push_event e) b xs = Inr b' \<and> bus_inv b' \<and> static b b' \<and> outp b' = outp b \<and>
    futp b' = futp b \<and>
    inp b' = (\<lambda>x. inp b x + (if x \<in> set xs then {#e\<lparr>destination := pub_addr b x\<rparr>#} else {#}))"
  using assms
proof (induction xs arbitrary: b)
  case (Cons y ys)
  obtain b1 where b1: "push_event e b y = Inr b1" "bus_inv b1" "static b b1" "outp b1 = outp b" "futp b1 = futp b"
    "inp b1 = (inp b)(y := add_mset (e\<lparr>destination := pub_addr b y\<rparr>) (inp b y))"
    using push_event_spec [OF Cons.prems(1), of y e] Cons.prems(2) by auto
  have p: "pub_addr b1 = pub_addr b" using b1(3) by (simp add: static_def)
  have "set ys \<subseteq> set (threadContexts b1)" "distinct ys"
    using b1(3) Cons.prems by (auto simp: static_def)
  from Cons.IH [OF b1(2) this] obtain b2 where b2: "run_list (push_event e) b1 ys = Inr b2"
    "bus_inv b2" "static b1 b2" "outp b2 = outp b" "futp b2 = futp b"
    "inp b2 = (\<lambda>x. inp b1 x + (if x \<in> set ys then {#e\<lparr>destination := pub_addr b1 x\<rparr>#} else {#}))"
    using b1 by (elim exE conjE) (rule that; simp)
  have "inp b2 = (\<lambda>x. inp b x + (if x \<in> set (y # ys) then {#e\<lparr>destination := pub_addr b x\<rparr>#} else {#}))"
    using Cons.prems(3) by (auto simp: b2(6) b1(6) p fun_eq_iff)
  with b1 b2 show ?case by (auto intro: static_trans)
qed (simp add: fun_eq_iff)

lemma dispatch_spec:
  assumes inv: "bus_inv b" and a: "a \<in> set (threadContexts b)" and m: "m \<in> set (threadContexts b)"
    and e: "entry_ok e"
  shows "\<exists>b'. dispatch e a m b = Inr b' \<and> bus_inv b' \<and> static b b' \<and> outp b' = outp b \<and> futp b' = futp b \<and>
    inp b' = (\<lambda>x. inp b x + sent b m e x)"
proof -
  obtain c where c: "contexts b a = Some c" using a inv by (auto simp: bus_inv_def)
  have frame: "bus_inv (set_context b a c')" "static b (set_context b a c')"
    "outp (set_context b a c') = outp b" "futp (set_context b a c') = futp b" "inp (set_context b a c') = inp b"
    if "c' = c\<lparr>eventMessages := n\<rparr> \<or> c' = c\<lparr>receivedMessages := n\<rparr>" for c' n
    using that bus_inv_set [OF inv c, of c'] bus_inv_ctx [OF inv c] c
    by (auto simp: static_def proj_defs ctx_ok_def fun_eq_iff)
  show ?thesis
  proof (cases "e_event e")
    case True
    let ?b1 = "set_context b a (c\<lparr>eventMessages := eventMessages c + 1\<rparr>)"
    have "distinct (threadContexts b)" using inv by (simp add: bus_inv_def)
    with push_events_spec [OF frame(1), of "c\<lparr>eventMessages := eventMessages c + 1\<rparr>" _ "threadContexts b" e]
    obtain b2 where b2: "run_list (push_event e) ?b1 (threadContexts b) = Inr b2" "bus_inv b2" "static ?b1 b2"
      "outp b2 = outp ?b1" "futp b2 = futp ?b1"
      "inp b2 = (\<lambda>x. inp ?b1 x + (if x \<in> set (threadContexts b) then {#e\<lparr>destination := pub_addr ?b1 x\<rparr>#} else {#}))"
      by auto
    have "dispatch e a m b = Inr b2" using True c b2(1) by (simp add: dispatch_def context_at_def)
    moreover have "pub_addr ?b1 = pub_addr b"
      using frame(2) [of "c\<lparr>eventMessages := eventMessages c + 1\<rparr>" "eventMessages c + 1"] by (simp add: static_def)
    ultimately show ?thesis
      using b2 frame [of "c\<lparr>eventMessages := eventMessages c + 1\<rparr>" "eventMessages c + 1"] True
      by (intro exI [of _ b2]) (auto simp: sent_def intro: static_trans)
  next
    case False
    let ?c = "c\<lparr>receivedMessages := receivedMessages c + 1\<rparr>"
    let ?b1 = "set_context b a ?c"
    note f = frame [of ?c "receivedMessages c + 1", simplified]
    have target: "\<exists>b'. rbind (context_at ?b1 d) (\<lambda>dc. Inr (set_context ?b1 d (push_input e dc))) = Inr b' \<and>
        bus_inv b' \<and> static b b' \<and> outp b' = outp b \<and> futp b' = futp b \<and> inp b' = (inp b)(d := add_mset e (inp b d))"
      if "d \<in> set (threadContexts b)" for d
    proof -
      have "d \<in> set (threadContexts ?b1)" using that by simp
      then obtain dc where dc: "contexts ?b1 d = Some dc" using bus_inv_live [OF f(1)] by blast
      let ?b2 = "set_context ?b1 d (push_input e dc)"
      have "bus_inv ?b2"
        using bus_inv_set [OF f(1) dc] ctx_ok_push_input [OF bus_inv_ctx [OF f(1) dc]]
        by (simp add: push_input_def)
      moreover have "static ?b1 ?b2" "outp ?b2 = outp ?b1" "futp ?b2 = futp ?b1"
        "inp ?b2 = (inp ?b1)(d := add_mset e (inp ?b1 d))"
        using dc by (auto simp: static_def proj_defs push_input_def pq_push_mset fun_eq_iff)
      ultimately show ?thesis
        using dc f by (intro exI [of _ ?b2]) (auto simp: context_at_def intro: static_trans)
    qed
    show ?thesis
    proof (cases "processOnMainThread e")
      case True
      with target [OF m] False c show ?thesis
        by (auto simp: dispatch_def context_at_def sent_def fun_eq_iff)
    next
      case main: False
      have d0: "destination e \<noteq> 0" using e False by (simp add: entry_ok_def)
      show ?thesis
      proof (cases "handler_context b (destination e)")
        case None
        with False main d0 c f show ?thesis
          by (intro exI [of _ ?b1]) (auto simp: dispatch_def context_at_def sent_def fun_eq_iff)
      next
        case (Some d)
        with target [OF bus_inv_handler [OF inv Some]] False main d0 c show ?thesis
          by (auto simp: dispatch_def context_at_def sent_def fun_eq_iff)
      qed
    qed
  qed
qed


lemma output_loop_spec:
  assumes "bus_inv b" "a \<in> set (threadContexts b)" "m \<in> set (threadContexts b)"
  shows "\<exists>b'. output_loop m a b = Inr b' \<and> bus_inv b' \<and> static b b' \<and> outp b' = (outp b)(a := []) \<and>
    futp b' = futp b \<and> inp b' = (\<lambda>x. inp b x + (\<Sum>e \<in># mset (outp b a). sent b m e x))"
  using assms
proof (induction "length (outp b a)" arbitrary: b)
  case 0
  then obtain c where c: "contexts b a = Some c" by (auto simp: bus_inv_def)
  with 0 have "output_round m a b = None" "outp b a = []" by (simp_all add: output_round_def outp_def pq_top_def)
  with 0 show ?case by (intro exI [of _ b]) (auto simp: output_loop.simps fun_eq_iff)
next
  case (Suc n)
  obtain c where c: "contexts b a = Some c" using Suc.prems by (auto simp: bus_inv_def)
  then obtain e es where q: "outputQ c = e # es" "outp b a = e # es"
    using Suc.hyps(2) by (cases "outputQ c") (auto simp: outp_def)
  have e: "entry_ok e" using bus_inv_ctx [OF Suc.prems(1) c] q by (simp add: ctx_ok_def)
  obtain b1 where b1: "dispatch e a m b = Inr b1" "bus_inv b1" "static b b1" "outp b1 = outp b"
    "futp b1 = futp b" "inp b1 = (\<lambda>x. inp b x + sent b m e x)"
    using dispatch_spec [OF Suc.prems e] by (elim exE conjE) (rule that; assumption)
  have "a \<in> set (threadContexts b1)" using b1(3) Suc.prems by (simp add: static_def)
  then obtain c1 where c1: "contexts b1 a = Some c1" using bus_inv_live [OF b1(2)] by blast
  have q1: "outputQ c1 = e # es" using b1(4) q(2) c1 by (auto simp: outp_def fun_eq_iff split: option.splits)
  let ?b2 = "set_context b1 a (c1\<lparr>outputQ := es\<rparr>)"
  have r: "output_round m a b = Some (Inr ?b2)"
    using c q b1(1) c1 q1 by (simp add: output_round_def pq_top_def pq_pop_def context_at_def)
  have inv: "bus_inv ?b2"
    using bus_inv_set [OF b1(2) c1, of "c1\<lparr>outputQ := es\<rparr>"] bus_inv_ctx [OF b1(2) c1] q1
    by (auto simp: ctx_ok_def)
  have st: "static b1 ?b2" using c1 by (auto simp: static_def pub_addr_def mainp_def fun_eq_iff)
  have o: "outp ?b2 = (outp b)(a := es)" "futp ?b2 = futp b" "inp ?b2 = (\<lambda>x. inp b x + sent b m e x)"
    by (simp_all add: proj_set_context flip: proj_at [OF c1]) (simp_all add: b1)
  have tc: "threadContexts ?b2 = threadContexts b" using st b1(3) by (simp add: static_def)
  have "n = length (outp ?b2 a)" using Suc.hyps(2) q o by simp
  moreover have "a \<in> set (threadContexts ?b2)" "m \<in> set (threadContexts ?b2)" using Suc.prems by (simp_all only: tc)
  ultimately obtain b3 where b3: "output_loop m a ?b2 = Inr b3"
    "bus_inv b3" "static ?b2 b3" "outp b3 = (outp ?b2)(a := [])" "futp b3 = futp ?b2"
    "inp b3 = (\<lambda>x. inp ?b2 x + (\<Sum>e \<in># mset (outp ?b2 a). sent ?b2 m e x))"
    using Suc.hyps(1) [OF _ inv] by (metis (no_types, lifting))
  have s: "static b ?b2" using static_trans [OF b1(3) st] .
  have "output_loop m a b = Inr b3" using r b3(1) by (subst output_loop.simps) simp
  moreover have "inp b3 = (\<lambda>x. inp b x + (\<Sum>e \<in># mset (outp b a). sent b m e x))"
    by (simp add: b3(6) o q static_sent [OF s] ac_simps)
  ultimately show ?case
    using b3 o static_trans [OF s b3(3)] by (intro exI [of _ b3]) auto
qed

text \<open>The loop over the future list stops at the first entry that is not due: the list is in the
  order of the trigger times, so none behind it is.\<close>

lemma takeWhile_due:
  "by_time q \<Longrightarrow> takeWhile (\<lambda>e. triggerTime e \<le> t) q = filter (\<lambda>e. triggerTime e \<le> t) q"
proof (induction q)
  case (Cons x xs)
  show ?case
  proof (cases "triggerTime x \<le> t")
    case False
    then have "\<forall>y \<in> set xs. \<not> triggerTime y \<le> t"
      using Cons.prems by (auto simp: CompareTriggerTime_def)
    with False show ?thesis by simp
  qed (use Cons in simp)
qed simp

lemma future_loop_spec:
  assumes "bus_inv b" "a \<in> set (threadContexts b)" "m \<in> set (threadContexts b)"
  shows "\<exists>b'. future_loop m a b = Inr b' \<and> bus_inv b' \<and> static b b' \<and> outp b' = outp b \<and>
    futp b' = (futp b)(a := filter (\<lambda>e. \<not> triggerTime e \<le> currentTime b) (futp b a)) \<and>
    inp b' = (\<lambda>x. inp b x +
      (\<Sum>e \<in># mset (filter (\<lambda>e. triggerTime e \<le> currentTime b) (futp b a)). sent b m e x))"
  using assms
proof (induction "length (futp b a)" arbitrary: b)
  case 0
  then obtain c where c: "contexts b a = Some c" by (auto simp: bus_inv_def)
  with 0 have "future_round m a b = None" "futp b a = []" by (simp_all add: future_round_def futp_def pq_top_def)
  with 0 show ?case by (intro exI [of _ b]) (auto simp: future_loop.simps fun_eq_iff)
next
  case (Suc n)
  obtain c where c: "contexts b a = Some c" using Suc.prems by (auto simp: bus_inv_def)
  then obtain e es where q: "futureEventList c = e # es" "futp b a = e # es"
    using Suc.hyps(2) by (cases "futureEventList c") (auto simp: futp_def)
  have ok: "ctx_ok c" by (rule bus_inv_ctx [OF Suc.prems(1) c])
  then have e: "entry_ok e" and sorted: "by_time (e # es)" using q by (simp_all add: ctx_ok_def)
  show ?case
  proof (cases "triggerTime e \<le> currentTime b")
    case False
    then have "future_round m a b = None" using c q by (simp add: future_round_def pq_top_def)
    moreover have "filter (\<lambda>e. triggerTime e \<le> currentTime b) (futp b a) = []"
      using takeWhile_due [OF sorted, of "currentTime b"] False q by simp
    moreover from this have "filter (\<lambda>e. \<not> triggerTime e \<le> currentTime b) (futp b a) = futp b a"
      by (auto simp: filter_empty_conv filter_id_conv)
    ultimately show ?thesis using Suc.prems by (intro exI [of _ b]) (simp add: future_loop.simps)
  next
    case True
    obtain b1 where b1: "dispatch e a m b = Inr b1" "bus_inv b1" "static b b1" "outp b1 = outp b"
      "futp b1 = futp b" "inp b1 = (\<lambda>x. inp b x + sent b m e x)"
      using dispatch_spec [OF Suc.prems e] by (elim exE conjE) (rule that; assumption)
    have "a \<in> set (threadContexts b1)" using b1(3) Suc.prems by (simp add: static_def)
    then obtain c1 where c1: "contexts b1 a = Some c1" using bus_inv_live [OF b1(2)] by blast
    have q1: "futureEventList c1 = e # es" using b1(5) q(2) c1 by (auto simp: futp_def fun_eq_iff split: option.splits)
    let ?b2 = "set_context b1 a (c1\<lparr>futureEventList := es\<rparr>)"
    have r: "future_round m a b = Some (Inr ?b2)"
      using c q b1(1) c1 q1 True by (simp add: future_round_def pq_top_def pq_pop_def context_at_def)
    have inv: "bus_inv ?b2"
      using bus_inv_set [OF b1(2) c1, of "c1\<lparr>futureEventList := es\<rparr>"] bus_inv_ctx [OF b1(2) c1] q1
      by (auto simp: ctx_ok_def)
    have st: "static b1 ?b2" using c1 by (auto simp: static_def pub_addr_def mainp_def fun_eq_iff)
    have o: "futp ?b2 = (futp b)(a := es)" "outp ?b2 = outp b" "inp ?b2 = (\<lambda>x. inp b x + sent b m e x)"
      by (simp_all add: proj_set_context flip: proj_at [OF c1]) (simp_all add: b1)
    have tc: "threadContexts ?b2 = threadContexts b" "currentTime ?b2 = currentTime b"
      using st b1(3) by (simp_all add: static_def)
    have "n = length (futp ?b2 a)" using Suc.hyps(2) q o by simp
    moreover have "a \<in> set (threadContexts ?b2)" "m \<in> set (threadContexts ?b2)" using Suc.prems by (simp_all only: tc)
  ultimately obtain b3 where b3: "future_loop m a ?b2 = Inr b3"
      "bus_inv b3" "static ?b2 b3" "outp b3 = outp ?b2"
      "futp b3 = (futp ?b2)(a := filter (\<lambda>e. \<not> triggerTime e \<le> currentTime b) (futp ?b2 a))"
      "inp b3 = (\<lambda>x. inp ?b2 x +
        (\<Sum>e \<in># mset (filter (\<lambda>e. triggerTime e \<le> currentTime b) (futp ?b2 a)). sent ?b2 m e x))"
      using Suc.hyps(1) [OF _ inv] unfolding tc(2) by (metis (no_types, lifting))
    have s: "static b ?b2" using static_trans [OF b1(3) st] .
    have "future_loop m a b = Inr b3" using r b3(1) by (subst future_loop.simps) simp
    moreover have "inp b3 = (\<lambda>x. inp b x +
        (\<Sum>e \<in># mset (filter (\<lambda>e. triggerTime e \<le> currentTime b) (futp b a)). sent b m e x))"
      using True by (simp add: b3(6) o q static_sent [OF s] ac_simps)
    ultimately show ?thesis
      using b3 o q True static_trans [OF s b3(3)] by (intro exI [of _ b3]) auto
  qed
qed


definition due :: "('a, 's) bus \<Rightarrow> address \<Rightarrow> 'a message_entry list" where
  "due b a = filter (\<lambda>e. triggerTime e \<le> currentTime b) (futp b a)"

definition later :: "('a, 's) bus \<Rightarrow> address \<Rightarrow> 'a message_entry list" where
  "later b a = filter (\<lambda>e. \<not> triggerTime e \<le> currentTime b) (futp b a)"

lemma collect_context_spec:
  assumes "bus_inv b" "a \<in> set (threadContexts b)" "m \<in> set (threadContexts b)"
  shows "\<exists>b'. collect_context m b a = Inr b' \<and> bus_inv b' \<and> static b b' \<and> outp b' = (outp b)(a := []) \<and>
    futp b' = (futp b)(a := later b a) \<and>
    inp b' = (\<lambda>x. inp b x + (\<Sum>e \<in># mset (outp b a @ due b a). sent b m e x))"
proof -
  obtain b1 where b1: "output_loop m a b = Inr b1" "bus_inv b1" "static b b1" "outp b1 = (outp b)(a := [])"
    "futp b1 = futp b" "inp b1 = (\<lambda>x. inp b x + (\<Sum>e \<in># mset (outp b a). sent b m e x))"
    using output_loop_spec [OF assms] by (elim exE conjE) (rule that; assumption)
  have t: "threadContexts b1 = threadContexts b" "currentTime b1 = currentTime b" using b1(3) by (simp_all add: static_def)
  obtain b2 where b2: "future_loop m a b1 = Inr b2" "bus_inv b2" "static b1 b2" "outp b2 = outp b1"
    "futp b2 = (futp b1)(a := filter (\<lambda>e. \<not> triggerTime e \<le> currentTime b1) (futp b1 a))"
    "inp b2 = (\<lambda>x. inp b1 x +
      (\<Sum>e \<in># mset (filter (\<lambda>e. triggerTime e \<le> currentTime b1) (futp b1 a)). sent b1 m e x))"
    using future_loop_spec [OF b1(2) assms(2,3) [folded t(1)]] by (elim exE conjE) (rule that; assumption)
  show ?thesis
    using b1(1) b2(1,2) static_trans [OF b1(3) b2(3)]
    by (intro exI [of _ b2])
      (simp add: collect_context_def b2(4-6) b1(4-6) t due_def later_def static_sent [OF b1(3)] ac_simps)
qed

lemma collect_all_spec:
  assumes "bus_inv b" "set xs \<subseteq> set (threadContexts b)" "m \<in> set (threadContexts b)" "distinct xs"
  shows "\<exists>b'. run_list (collect_context m) b xs = Inr b' \<and> bus_inv b' \<and> static b b' \<and>
    outp b' = (\<lambda>x. if x \<in> set xs then [] else outp b x) \<and>
    futp b' = (\<lambda>x. if x \<in> set xs then later b x else futp b x) \<and>
    inp b' = (\<lambda>x. inp b x + (\<Sum>a\<leftarrow>xs. \<Sum>e \<in># mset (outp b a @ due b a). sent b m e x))"
  using assms
proof (induction xs arbitrary: b)
  case (Cons y ys)
  have y0: "y \<in> set (threadContexts b)" using Cons.prems(2) by simp
  obtain b1 where b1: "collect_context m b y = Inr b1" "bus_inv b1" "static b b1" "outp b1 = (outp b)(y := [])"
    "futp b1 = (futp b)(y := later b y)"
    "inp b1 = (\<lambda>x. inp b x + (\<Sum>e \<in># mset (outp b y @ due b y). sent b m e x))"
    using collect_context_spec [OF Cons.prems(1) y0 Cons.prems(3)] by (elim exE conjE) (rule that; assumption)
  have t: "threadContexts b1 = threadContexts b" "currentTime b1 = currentTime b" using b1(3) by (simp_all add: static_def)
  have ys: "set ys \<subseteq> set (threadContexts b1)" "m \<in> set (threadContexts b1)" "distinct ys"
    using Cons.prems t by auto
  obtain b2 where b2: "run_list (collect_context m) b1 ys = Inr b2" "bus_inv b2" "static b1 b2"
    "outp b2 = (\<lambda>x. if x \<in> set ys then [] else outp b1 x)"
    "futp b2 = (\<lambda>x. if x \<in> set ys then later b1 x else futp b1 x)"
    "inp b2 = (\<lambda>x. inp b1 x + (\<Sum>a\<leftarrow>ys. \<Sum>e \<in># mset (outp b1 a @ due b1 a). sent b1 m e x))"
    using Cons.IH [OF b1(2) ys] by (elim exE conjE) (rule that; assumption)
  have y: "y \<notin> set ys" using Cons.prems(4) by simp
  have same: "outp b1 a = outp b a" "due b1 a = due b a" "later b1 a = later b a" if "a \<in> set ys" for a
    using that y by (auto simp: b1(4,5) due_def later_def t)
  have "(\<Sum>a\<leftarrow>ys. \<Sum>e \<in># mset (outp b1 a @ due b1 a). sent b1 m e x) =
      (\<Sum>a\<leftarrow>ys. \<Sum>e \<in># mset (outp b a @ due b a). sent b m e x)" for x
    by (intro arg_cong [of _ _ sum_list] map_cong) (simp_all add: same static_sent [OF b1(3)])
  then have "inp b2 = (\<lambda>x. inp b x + (\<Sum>a\<leftarrow>y # ys. \<Sum>e \<in># mset (outp b a @ due b a). sent b m e x))"
    by (simp add: b2(6) b1(6) ac_simps)
  moreover have "outp b2 = (\<lambda>x. if x \<in> set (y # ys) then [] else outp b x)"
    using same by (auto simp: b2(4) b1(4) fun_eq_iff)
  moreover have "futp b2 = (\<lambda>x. if x \<in> set (y # ys) then later b x else futp b x)"
    using same y by (auto simp: b2(5) b1(5) fun_eq_iff)
  ultimately show ?case
    using b1(1) b2(1,2) static_trans [OF b1(3) b2(3)] by (intro exI [of _ b2]) simp
qed simp

lemma DispatchMessages_spec:
  assumes inv: "bus_inv b" and th: "threadContext b th = Some m" and c: "contexts b m = Some c" "main_ctx c"
  defines "b0 \<equiv> b\<lparr>currentTime := currentTime b + 1\<rparr>"
  shows "\<exists>b'. DispatchMessages b th = Inr b' \<and> bus_inv b' \<and> static b0 b' \<and>
    (\<forall>x \<in> set (threadContexts b). outp b' x = [] \<and> futp b' x = later b0 x) \<and>
    (\<forall>x. inp b' x = inp b x + (\<Sum>a\<leftarrow>threadContexts b. \<Sum>e \<in># mset (outp b a @ due b0 a). sent b m e x))"
proof -
  have p: "inp b0 = inp b" "outp b0 = outp b" "futp b0 = futp b" "sent b0 = sent b" "threadContexts b0 = threadContexts b"
    by (auto simp: b0_def proj_defs sent_def fun_eq_iff)
  have "bus_inv b0" "m \<in> set (threadContexts b0)" "distinct (threadContexts b0)"
    using inv th by (auto simp: b0_def) (auto simp: bus_inv_def)
  from collect_all_spec [OF this(1) subset_refl this(2,3)] obtain b' where
    "run_list (collect_context m) b0 (threadContexts b) = Inr b'" "bus_inv b'" "static b0 b'"
    "outp b' = (\<lambda>x. if x \<in> set (threadContexts b) then [] else outp b x)"
    "futp b' = (\<lambda>x. if x \<in> set (threadContexts b) then later b0 x else futp b x)"
    "inp b' = (\<lambda>x. inp b x + (\<Sum>a\<leftarrow>threadContexts b. \<Sum>e \<in># mset (outp b a @ due b0 a). sent b m e x))"
    unfolding p by (elim exE conjE) (rule that; assumption)
  moreover have "DispatchMessages b th = run_list (collect_context m) b0 (threadContexts b)"
    using th c by (simp add: DispatchMessages_def CheckMainThread_def context_at_def b0_def)
  ultimately show ?thesis by (intro exI [of _ b']) simp
qed

section \<open>Handling keeps the invariant\<close>

lemma PostMessage_Inr:
  assumes "PostMessage b th d ty m p k = Inr b'"
  obtains "b' = b"
  | a c e where "contexts b a = Some c" "entry_ok e"
      "b' = set_context b a (c\<lparr>outputQ := pq_push ComparePriority e (outputQ c)\<rparr>)"
  | a c e where "contexts b a = Some c" "entry_ok e"
      "b' = set_context b a (c\<lparr>futureEventList := pq_push CompareTriggerTime e (futureEventList c)\<rparr>)"
proof -
  obtain a c where c: "contexts b a = Some c" "CheckThreadContext b th = Inr (a, c)"
    using assms by (auto simp: PostMessage_def bus_Inr CheckThreadContext_Inr)
  show thesis
  proof (cases "d \<noteq> 0 \<or> (case m of None \<Rightarrow> False | Some msg \<Rightarrow> is_event msg)")
    case True
    then obtain msg where m: "m = Some msg" using assms c(2) by (cases m) (auto simp: PostMessage_def)
    let ?e = "\<lparr>destination = d, e_message = m, e_type = ty, e_internal = is_internal msg,
      e_priority = effective_priority msg, e_event = is_event msg, processOnMainThread = p, triggerTime = 0\<rparr>"
    have "entry_ok ?e" "entry_ok (?e\<lparr>triggerTime := n\<rparr>)" for n
      using True m by (auto simp: entry_ok_def)
    then show thesis
      using assms c True m that(2) [OF c(1), of ?e] that(3) [OF c(1), of "?e\<lparr>triggerTime := currentTime b + k\<rparr>"]
      by (auto simp: PostMessage_def Let_def split: if_splits)
  next
    case False
    then show thesis using assms c(2) that(1) by (auto simp: PostMessage_def split: if_splits)
  qed
qed

lemma PostMessage_inv [sm_inv]:
  assumes "bus_inv b" "PostMessage b th d ty m p k = Inr b'"
  shows "bus_inv b'"
proof -
  have "set (pq_push lt e q) = insert e (set q)" for lt q and e :: "'a message_entry"
    using pq_push_mset [of lt e q] by (metis set_mset_add_mset_insert set_mset_mset)
  then have "ctx_ok (c\<lparr>outputQ := pq_push ComparePriority e (outputQ c)\<rparr>)"
    "ctx_ok (c\<lparr>futureEventList := pq_push CompareTriggerTime e (futureEventList c)\<rparr>)"
    if "entry_ok e" "ctx_ok c" for e :: "'a message_entry" and c
    using that by (auto simp: ctx_ok_def msgq.ok_push timeq.ok_push)
  with assms(1) show ?thesis
    by (cases rule: PostMessage_Inr [OF assms(2)]) (auto intro!: bus_inv_set dest: bus_inv_ctx)
qed

lemma run_posts_inv [sm_inv]: "bus_inv b \<Longrightarrow> run_posts th r b = Inr b' \<Longrightarrow> bus_inv b'"
  unfolding run_posts_def
  by (erule run_list_invariant [rotated 2]) (auto simp: post_def intro: PostMessage_inv)

lemma notify_inv [sm_inv]: "bus_inv b \<Longrightarrow> notify env th b n = Inr b' \<Longrightarrow> bus_inv b'"
  unfolding notify_def by (rule run_posts_inv) auto

lemma handle_publisher_inv [sm_inv]:
  assumes inv: "bus_inv b" and h: "handle_publisher env th a ty msg b = Inr b'"
  shows "bus_inv b'"
proof -
  obtain i ctx data c where body: "body msg = InternalEvent i ctx data" and c: "contexts b a = Some c"
    using h by (auto simp: handle_publisher_def bus_Inr split: msg_body.splits)
  show ?thesis
  proof (cases "ty = MSGI_PUBLISH_EVENT")
    case True
    then obtain ns where r: "run_list (notify env th) b ns = Inr b'"
      using h body c by (auto simp: handle_publisher_def context_at_def deref_Inr rbind_Inr)
    show ?thesis by (rule run_list_invariant [where P = bus_inv, OF _ inv r]) (rule notify_inv)
  next
    case False
    then have "b' = b \<or> (\<exists>p. b' = set_context b a (c\<lparr>eventPublisher := p\<rparr>))"
      using h body c by (auto simp: handle_publisher_def context_at_def split: if_splits)
    then show ?thesis using bus_inv_set [OF inv c] bus_inv_ctx [OF inv c] inv by (auto simp: ctx_ok_def)
  qed
qed

lemma HandleMessage_inv [sm_inv]: "bus_inv b \<Longrightarrow> HandleMessage env th d ty msg b = Inr b' \<Longrightarrow> bus_inv b'"
  unfolding HandleMessage_def Let_def
  by (auto split: option.splits dest: handle_publisher_inv [rotated] run_posts_inv [rotated])

lemma forward_inv [sm_inv]: "bus_inv b \<Longrightarrow> forward env th c e b = Inr b' \<Longrightarrow> bus_inv b'"
  by (auto simp: forward_def bus_Inr split: if_splits intro: PostMessage_inv)

lemma handle_entry_inv [sm_inv]: "bus_inv b \<Longrightarrow> handle_entry env th c e b = Inr b' \<Longrightarrow> bus_inv b'"
  by (auto simp: handle_entry_def rbind_Inr split: option.splits if_splits dest: forward_inv HandleMessage_inv)

lemma input_round_inv [sm_inv]:
  assumes inv: "bus_inv b" and "input_round env th a b = Some (Inr b')"
  shows "bus_inv b'"
proof -
  obtain c e b1 c1 where c: "contexts b a = Some c" and h: "handle_entry env th c e b = Inr b1"
    and c1: "contexts b1 a = Some c1" "inputQ c1 = inputQ c" "threadId c1 = threadId c"
    and b': "b' = set_context b1 a (c1\<lparr>inputQ := pq_pop (inputQ c), processedMessages := processedMessages c + 1\<rparr>)"
    using assms(2) by (rule input_round_Inr)
  have "bus_inv b1" by (rule handle_entry_inv [OF inv h])
  then show ?thesis
    using bus_inv_ctx [OF _ c1(1)] c1(2) unfolding b'
    by (intro bus_inv_set [OF _ c1(1)]) (auto simp: ctx_ok_def msgq.ok_pop)
qed


section \<open>Handling succeeds\<close>

text \<open>
  \<open>attached\<close>: the thread has a live context. \<open>polite\<close>: handlers and listeners never post a null
  message. \<open>entry_safe\<close>: the recipient has a live context, on this thread unless the simulation is
  mid-term, and only well-formed event messages reach a publisher.
\<close>

definition attached :: "('a, 's) bus \<Rightarrow> thread_id \<Rightarrow> address \<Rightarrow> bool" where
  "attached b th a \<longleftrightarrow> threadContext b th = Some a \<and> (\<exists>c. contexts b a = Some c \<and> threadId c = th)"

definition polite :: "('a, 's) bus_env \<Rightarrow> bool" where
  "polite env \<longleftrightarrow> (\<forall>s st. \<forall>p \<in> set (snd (react env s st)). p_message p \<noteq> None)"

definition event_well_formed :: "msg_type \<Rightarrow> 'a message \<Rightarrow> bool" where
  "event_well_formed ty msg \<longleftrightarrow>
     (case body msg of InternalEvent i ctx data \<Rightarrow> ty = MSGI_PUBLISH_EVENT \<longrightarrow> data \<noteq> None | _ \<Rightarrow> False)"

definition entry_safe :: "('a, 's) bus_env \<Rightarrow> ('a, 's) bus \<Rightarrow> thread_id \<Rightarrow> 'a message_entry \<Rightarrow> bool" where
  "entry_safe env b th e \<longleftrightarrow>
     (case e_message e of
        None \<Rightarrow> True
      | Some msg \<Rightarrow>
          (processOnMainThread e \<or>
             (\<exists>d dc. handler_context b (destination e) = Some d \<and> contexts b d = Some dc \<and>
                (threadId dc = th \<or> runningMidTerm env))) \<and>
          (publisher_at b (destination e) \<noteq> None \<longrightarrow> event_well_formed (e_type e) msg))"

text \<open>\<open>entry_here\<close>: the recipient is still registered with the context of this thread (or is handled on the main thread), so
  that nothing is forwarded.\<close>

definition entry_here :: "('a, 's) bus \<Rightarrow> thread_id \<Rightarrow> 'a message_entry \<Rightarrow> bool" where
  "entry_here b th e \<longleftrightarrow>
     (case e_message e of
        None \<Rightarrow> True
      | Some msg \<Rightarrow>
          (processOnMainThread e \<or>
             (\<exists>d dc. handler_context b (destination e) = Some d \<and> contexts b d = Some dc \<and> threadId dc = th)) \<and>
          (publisher_at b (destination e) \<noteq> None \<longrightarrow> event_well_formed (e_type e) msg))"

lemma entry_here_safe: "entry_here b th e \<Longrightarrow> entry_safe env b th e"
  unfolding entry_here_def entry_safe_def by (cases "e_message e") auto

lemma attached_frame: "input_frame b b' \<Longrightarrow> attached b th a \<Longrightarrow> attached b' th a"
  unfolding attached_def using input_frame_context [of b b' a]
  by (auto simp: same_input_def input_frame_def)

lemma publisher_at_frame:
  assumes "input_frame b b'"
  shows "publisher_at b' h = publisher_at b h"
proof -
  have "(case contexts b' a of None \<Rightarrow> False | Some c \<Rightarrow> this (eventPublisher c) = h) =
      (case contexts b a of None \<Rightarrow> False | Some c \<Rightarrow> this (eventPublisher c) = h)" for a
    using assms unfolding input_frame_def
    by (auto simp: same_input_def elim!: allE [of _ a] elim: option.rel_cases split: option.split)
  with assms show ?thesis by (simp add: publisher_at_def input_frame_def)
qed

lemma entry_safe_frame:
  assumes "input_frame b b'" "entry_safe env b th e"
  shows "entry_safe env b' th e"
proof -
  have live: "\<exists>dc'. contexts b' d = Some dc' \<and> threadId dc' = threadId dc" if "contexts b d = Some dc" for d dc
    using input_frame_context [OF assms(1) that] by (auto simp: same_input_def)
  have h: "handler_context b' = handler_context b" using assms(1) by (simp add: input_frame_def)
  show ?thesis
  proof (cases "e_message e")
    case (Some msg)
    have "\<exists>d dc. handler_context b' (destination e) = Some d \<and> contexts b' d = Some dc \<and>
        (threadId dc = th \<or> runningMidTerm env)" if "\<not> processOnMainThread e"
    proof -
      obtain d dc where "handler_context b (destination e) = Some d" "contexts b d = Some dc"
        "threadId dc = th \<or> runningMidTerm env"
        using that assms(2) Some \<open>\<not> processOnMainThread e\<close> unfolding entry_safe_def by auto
      with live [of d dc] h show ?thesis by auto
    qed
    then show ?thesis using assms(2) Some by (auto simp: entry_safe_def publisher_at_frame [OF assms(1)])
  qed (simp add: entry_safe_def)
qed

lemma PostMessage_succeeds:
  "attached b th a \<Longrightarrow> m \<noteq> None \<Longrightarrow> \<exists>b'. PostMessage b th d ty m p k = Inr b'"
  by (auto simp: PostMessage_def CheckThreadContext_def attached_def context_at_def Let_def)

lemma run_posts_succeeds:
  assumes "attached b th a" "\<forall>p \<in> set ps. p_message p \<noteq> None"
  shows "\<exists>b'. run_list (post th) b ps = Inr b'"
  using assms
proof (induction ps arbitrary: b)
  case (Cons p ps)
  have "p_message p \<noteq> None" using Cons.prems(2) by simp
  then obtain b1 where b1: "post th b p = Inr b1"
    using PostMessage_succeeds [OF Cons.prems(1)] unfolding post_def by blast
  then have "attached b1 th a"
    using Cons.prems(1) PostMessage_frame unfolding post_def by (blast intro: attached_frame)
  with Cons b1 show ?case by auto
qed simp

lemma react_succeeds:
  assumes "polite env" "attached b th a"
  shows "\<exists>b'. run_posts th (react env s st) b = Inr b'"
  using assms run_posts_succeeds [of "b\<lparr>clients := fst (react env s st)\<rparr>" th a "snd (react env s st)"]
  by (auto simp: run_posts_def polite_def attached_def)

lemma notify_succeeds: "polite env \<Longrightarrow> attached b th a \<Longrightarrow> \<exists>b'. notify env th b n = Inr b'"
  unfolding notify_def by (rule react_succeeds) (auto simp: attached_def)

lemma notify_all_succeeds:
  assumes "polite env" "attached b th a"
  shows "\<exists>b'. run_list (notify env th) b ns = Inr b'"
  using assms(2)
proof (induction ns arbitrary: b)
  case (Cons n ns)
  obtain b1 where b1: "notify env th b n = Inr b1" using notify_succeeds [OF assms(1) Cons.prems] by blast
  with notify_frame [OF b1] Cons show ?case by (auto intro: attached_frame)
qed simp

lemma HandleMessage_succeeds:
  assumes "polite env" "attached b th a" "publisher_at b d \<noteq> None \<longrightarrow> event_well_formed ty msg"
  shows "\<exists>b'. HandleMessage env th d ty msg b = Inr b'"
proof -
  let ?b = "b\<lparr>handled := handled b @ [\<lparr>c_dest = d, c_type = ty, c_message = msg\<rparr>]\<rparr>"
  have at: "attached ?b th a" and p: "publisher_at ?b d = publisher_at b d"
    using assms(2) by (simp_all add: attached_def publisher_at_def)
  show ?thesis
  proof (cases "publisher_at b d")
    case None
    with p react_succeeds [OF assms(1) at] show ?thesis by (simp add: HandleMessage_def)
  next
    case (Some x)
    then obtain c where c: "contexts b x = Some c"
      by (auto simp: publisher_at_def find_Some_iff split: option.splits)
    obtain i ctx data where body: "body msg = InternalEvent i ctx data" "ty = MSGI_PUBLISH_EVENT \<longrightarrow> data \<noteq> None"
      using assms(3) Some by (auto simp: event_well_formed_def split: msg_body.splits)
    have "\<exists>b'. handle_publisher env th x ty msg ?b = Inr b'"
      using notify_all_succeeds [OF assms(1) at] body c
      by (auto simp: handle_publisher_def context_at_def)
    with p Some show ?thesis by (simp add: HandleMessage_def)
  qed
qed

lemma handle_entry_succeeds:
  assumes "polite env" "attached b th a" "entry_safe env b th e" "threadId c = th"
  shows "\<exists>b'. handle_entry env th c e b = Inr b'"
proof (cases "e_message e")
  case (Some msg)
  have "\<exists>b1. PostMessage b th (destination e) (e_type e) (e_message e) (processOnMainThread e) 0 = Inr b1"
    using PostMessage_succeeds [OF assms(2)] Some by simp
  then have "\<exists>b1. forward env th c e b = Inr b1"
    using assms(3,4) Some by (auto simp: forward_def entry_safe_def context_at_def)
  then obtain b1 where b1: "forward env th c e b = Inr b1" by blast
  have f: "input_frame b b1" using forward_frame [OF b1] by simp
  have "\<exists>b'. HandleMessage env th (destination e) (e_type e) msg b1 = Inr b'"
    using HandleMessage_succeeds [OF assms(1) attached_frame [OF f assms(2)]] entry_safe_frame [OF f assms(3)] Some
    by (simp add: entry_safe_def)
  with b1 Some show ?thesis by (simp add: handle_entry_def)
qed (simp add: handle_entry_def)

lemma input_loop_spec:
  assumes "polite env" "attached b th a" "contexts b a = Some c" "\<forall>e \<in> set (inputQ c). entry_safe env b th e"
  shows "\<exists>b' c'. input_loop env th a b = Inr b' \<and> contexts b' a = Some c' \<and> inputQ c' = [] \<and>
    processedMessages c' = processedMessages c + of_nat (length (inputQ c)) \<and>
    handled b' = handled b @ concat (map call_of (msgq.drain (length (inputQ c)) (inputQ c)))"
  using assms(2-)
proof (induction "length (inputQ c)" arbitrary: b c)
  case 0
  then have "input_round env th a b = None" by (simp add: input_round_def pq_top_def)
  with 0 show ?case by (intro exI [of _ b] exI [of _ c]) (simp add: input_loop.simps)
next
  case (Suc n)
  obtain e es where q: "inputQ c = e # es" using Suc.hyps(2) by (cases "inputQ c") auto
  have th: "threadId c = th" using Suc.prems(1,2) by (simp add: attached_def)
  obtain b1 where b1: "handle_entry env th c e b = Inr b1"
    using handle_entry_succeeds [OF assms(1) Suc.prems(1) _ th, of e] Suc.prems(3) q by auto
  note f = handle_entry_frame [OF b1]
  obtain c1 where c1: "contexts b1 a = Some c1" "same_input c c1"
    using input_frame_context [OF conjunct1 [OF f] Suc.prems(2)] by blast
  let ?c2 = "c1\<lparr>inputQ := es, processedMessages := processedMessages c + 1\<rparr>"
  let ?b2 = "set_context b1 a ?c2"
  have r: "input_round env th a b = Some (Inr ?b2)"
    using Suc.prems(2) q b1 c1 by (simp add: input_round_def pq_top_def pq_pop_def context_at_def same_input_def)
  have at: "attached ?b2 th a"
    using attached_frame [OF conjunct1 [OF f] Suc.prems(1)] c1(1) by (auto simp: attached_def)
  have "publisher_at ?b2 h = publisher_at b1 h" for h
    unfolding publisher_at_def by (intro arg_cong2 [of _ _ _ _ find]) (auto simp: c1(1) fun_eq_iff)
  then have "entry_safe env ?b2 th x = entry_safe env b1 th x" for x
    using c1(1) by (auto simp: entry_safe_def split: option.splits)
  moreover have "entry_safe env b1 th x" if "x \<in> set es" for x
    using entry_safe_frame [OF conjunct1 [OF f]] Suc.prems(3) q that by simp
  ultimately have safe: "\<forall>x \<in> set (inputQ ?c2). entry_safe env ?b2 th x" by simp
  have n: "n = length (inputQ ?c2)" using Suc.hyps(2) q by simp
  obtain b3 c3 where b3: "input_loop env th a ?b2 = Inr b3" "contexts b3 a = Some c3" "inputQ c3 = []"
    "processedMessages c3 = processedMessages ?c2 + of_nat (length (inputQ ?c2))"
    "handled b3 = handled ?b2 @ concat (map call_of (msgq.drain (length (inputQ ?c2)) (inputQ ?c2)))"
    using Suc.hyps(1) [OF n at _ safe] by auto
  have "input_loop env th a b = Inr b3" using r b3(1) by (subst input_loop.simps) simp
  with b3 f show ?case by (intro exI [of _ b3] exI [of _ c3]) (simp add: q pq_top_def pq_pop_def)
qed


section \<open>The report\<close>

definition total :: "('a thread_context \<Rightarrow> 64 word) \<Rightarrow> ('a, 's) bus \<Rightarrow> 64 word" where
  "total f b = (\<Sum>a\<leftarrow>threadContexts b. case contexts b a of None \<Rightarrow> 0 | Some c \<Rightarrow> f c)"

definition remaining :: "'a thread_context \<Rightarrow> 64 word" where
  "remaining c = of_nat (length (inputQ c) + length (outputQ c))"

definition report_balance :: "('a, 's) bus \<Rightarrow> int" where
  "report_balance b =
     (let numThreads = of_nat (length (threadContexts b))
      in \<bar>sint (total processedMessages b - total receivedMessages b - total eventMessages b * numThreads
               - total remaining b)\<bar>)"

section \<open>Operations keep the invariant\<close>

datatype 'a bus_op =
    ORegisterMain address address | ORegister address address
  | OHandler address | OUnHandler address | OReHandler address address
  | OPost "'a post" | OSend "'a post" | OInstant address msg_type "'a message option"
  | OSubscribe event_id address | OSubscribeCtx event_id address address
  | OUnSubscribe event_id address | OUnSubscribeCtx event_id address address
  | OUnSubscribeAll event_id address | OPublish event_id address "'a option"
  | OPublishInstant event_id address "'a option"
  | ODispatch | OThreadDispatch | ODistribute

fun bus_step ::
  "('a, 's) bus_env \<Rightarrow> ('a, 's) bus \<Rightarrow> thread_id \<times> 'a bus_op \<Rightarrow> (bus_error, ('a, 's) bus) result" where
  "bus_step env b (th, ORegisterMain a p) = RegisterMainThread a p b th"
| "bus_step env b (th, ORegister a p) = RegisterThread a p b th"
| "bus_step env b (th, OHandler h) = RegisterHandler b th h"
| "bus_step env b (th, OUnHandler h) = UnRegisterHandler b th h"
| "bus_step env b (th, OReHandler h x) = ReRegisterHandler b th h x"
| "bus_step env b (th, OPost p) = post th b p"
| "bus_step env b (th, OSend p) =
     SendMessage env b th (p_target p) (p_type p) (p_message p) (p_onMain p)"
| "bus_step env b (th, OInstant h ty m) = SendInstantaneousMessage env b th h ty m"
| "bus_step env b (th, OSubscribe i l) = SubscribeEvent b th i l"
| "bus_step env b (th, OSubscribeCtx i x l) = SubscribeEventCtx b th i x l"
| "bus_step env b (th, OUnSubscribe i l) = UnSubscribeEvent b th i l"
| "bus_step env b (th, OUnSubscribeCtx i x l) = UnSubscribeEventCtx b th i x l"
| "bus_step env b (th, OUnSubscribeAll i x) = bus_UnSubscribeAll b th i x"
| "bus_step env b (th, OPublish i x v) = PublishEvent b th i x v"
| "bus_step env b (th, OPublishInstant i x v) = PublishInstantaneousEvent env b th i x v"
| "bus_step env b (th, ODispatch) = DispatchMessages b th"
| "bus_step env b (th, OThreadDispatch) = ThreadDispatchMessages env b th"
| "bus_step env b (th, ODistribute) = DistributeMessages env b th"

text \<open>The allocator returns an address that no context has.\<close>

fun fresh_op :: "('a, 's) bus \<Rightarrow> 'a bus_op \<Rightarrow> bool" where
  "fresh_op b (ORegisterMain a p) \<longleftrightarrow> contexts b a = None"
| "fresh_op b (ORegister a p) \<longleftrightarrow> contexts b a = None"
| "fresh_op b _ \<longleftrightarrow> True"

lemma input_loop_inv [sm_inv]: "bus_inv b \<Longrightarrow> input_loop env th a b = Inr b' \<Longrightarrow> bus_inv b'"
proof (induction env th a b rule: input_loop.induct)
  case (1 env th a b)
  then show ?case
    by (subst (asm) (2) input_loop.simps) (auto split: option.splits sum.splits dest: input_round_inv)
qed

lemma output_loop_inv: "bus_inv b \<Longrightarrow> a \<in> set (threadContexts b) \<Longrightarrow> m \<in> set (threadContexts b) \<Longrightarrow>
    output_loop m a b = Inr b' \<Longrightarrow> bus_inv b'"
  using output_loop_spec [of b a m] by auto

lemma RegisterHandler_inv [sm_inv]:
  assumes "bus_inv b" "RegisterHandler b th h = Inr b'"
  shows "bus_inv b'"
proof -
  obtain a c where c: "threadContext b th = Some a" "contexts b a = Some c"
    and b': "b' = b \<or> b' = b\<lparr>handler_context := (handler_context b)(h \<mapsto> a)\<rparr>"
    using assms(2) by (auto simp: RegisterHandler_def bus_Inr CheckThreadContext_Inr split: if_splits option.splits)
  have "a \<in> set (threadContexts b)" using assms(1) c by (simp add: bus_inv_def)
  with b' assms(1) show ?thesis by (auto simp: bus_inv_def split: if_splits)
qed

lemma register_context_inv:
  assumes inv: "bus_inv b" and fresh: "contexts b a = None" "threadContext b th = None"
    and r: "register_context isMain a p b th = Inr b'"
  shows "bus_inv b'"
proof (rule RegisterHandler_inv [OF _ r [unfolded register_context_def]])
  have "a \<notin> set (threadContexts b)" using inv fresh(1) by (auto simp: bus_inv_def)
  moreover have "ctx_ok (newContext th p isMain)" "threadId (newContext th p isMain) = th"
    by (simp_all add: ctx_ok_def newContext_def)
  ultimately show "bus_inv (b\<lparr>contexts := (contexts b)(a \<mapsto> newContext th p isMain),
      threadContext := (threadContext b)(th \<mapsto> a), threadContexts := threadContexts b @ [a]\<rparr>)"
    using inv fresh unfolding bus_inv_def by auto
qed

lemma on_publisher_inv [sm_inv]: "bus_inv b \<Longrightarrow> on_publisher f b th go = Inr b' \<Longrightarrow> bus_inv b'"
  by (auto simp: on_publisher_def bus_Inr CheckThreadContext_Inr ctx_ok_def
      intro!: bus_inv_set dest: bus_inv_ctx split: if_splits)

lemma SendInstantaneousMessage_inv [sm_inv]:
  assumes inv: "bus_inv b" and s: "SendInstantaneousMessage env b th h ty m = Inr b'"
  shows "bus_inv b'"
proof -
  have "b' = b \<or> (\<exists>msg b1 a c. HandleMessage env th h ty msg b = Inr b1 \<and> contexts b1 a = Some c \<and>
      b' = set_context b1 a (c\<lparr>receivedMessages := receivedMessages c + 1,
                              processedMessages := processedMessages c + 1\<rparr>))"
    using s by (auto simp: SendInstantaneousMessage_def count_instant_def bus_Inr split: if_splits)
  moreover have "bus_inv (set_context b1 a (c\<lparr>receivedMessages := receivedMessages c + 1,
      processedMessages := processedMessages c + 1\<rparr>))"
    if "bus_inv b1" "contexts b1 a = Some c" for b1 :: "('a, 's) bus" and a c
    using bus_inv_ctx [OF that] by (intro bus_inv_set [OF that]) (simp_all add: ctx_ok_def)
  ultimately show ?thesis using inv HandleMessage_inv [OF inv] by blast
qed

lemma ThreadDispatchMessages_inv [sm_inv]:
  "bus_inv b \<Longrightarrow> ThreadDispatchMessages env b th = Inr b' \<Longrightarrow> bus_inv b'"
  by (auto simp: ThreadDispatchMessages_def rbind_Inr dest: input_loop_inv)

lemma CheckMainThread_Inr:
  "CheckMainThread b th = Inr u \<longleftrightarrow> (\<exists>a c. threadContext b th = Some a \<and> contexts b a = Some c \<and> main_ctx c)"
  by (auto simp: CheckMainThread_def bus_Inr split: option.split)

lemma DispatchMessages_inv [sm_inv]:
  assumes "bus_inv b" "DispatchMessages b th = Inr b'"
  shows "bus_inv b'"
proof -
  obtain a c where "threadContext b th = Some a" "contexts b a = Some c" "main_ctx c"
    using assms(2) by (auto simp: DispatchMessages_def rbind_Inr CheckMainThread_Inr)
  from DispatchMessages_spec [OF assms(1) this] assms(2) show ?thesis by auto
qed

lemma PublishInstantaneousEvent_inv [sm_inv]:
  assumes inv: "bus_inv b" and p: "PublishInstantaneousEvent env b th i x v = Inr b'"
  shows "bus_inv b'"
proof -
  obtain ns b1 a c where r: "run_list (notify env th) b ns = Inr b1" and c: "contexts b1 a = Some c"
    and b': "b' = set_context b1 a (c\<lparr>eventMessages := eventMessages c + 1\<rparr>)"
    using p by (auto simp: PublishInstantaneousEvent_def bus_Inr)
  have b1: "bus_inv b1" by (rule run_list_invariant [where P = bus_inv, OF _ inv r]) (rule notify_inv)
  show ?thesis
    unfolding b' using bus_inv_ctx [OF b1 c] by (intro bus_inv_set [OF b1 c]) (simp_all add: ctx_ok_def)
qed

lemma handlers_inv [sm_inv]:
  "bus_inv b \<Longrightarrow> UnRegisterHandler b th h = Inr b' \<Longrightarrow> bus_inv b'"
  "bus_inv b \<Longrightarrow> ReRegisterHandler b th h x = Inr b' \<Longrightarrow> bus_inv b'"
  by (auto simp: UnRegisterHandler_def ReRegisterHandler_def bus_Inr bus_inv_def split: if_splits)

lemma bus_step_inv:
  assumes inv: "bus_inv b" and f: "fresh_op b (snd p)" and s: "bus_step env b p = Inr b'"
  shows "bus_inv b'"
proof (cases p)
  case (Pair th x)
  show ?thesis
  proof (cases x)
    case (ORegisterMain a q)
    then show ?thesis using assms Pair by (auto simp: RegisterMainThread_def split: if_splits dest: register_context_inv [OF inv])
  next
    case (ORegister a q)
    then show ?thesis using assms Pair by (auto simp: RegisterThread_def split: if_splits dest: register_context_inv [OF inv])
  next
    case (OSend q)
    then show ?thesis
      using s inv Pair by (auto simp: SendMessage_def rbind_Inr split: if_splits dest: SendInstantaneousMessage_inv PostMessage_inv)
  next
    case ODistribute
    then show ?thesis
      using s inv Pair by (auto simp: DistributeMessages_def rbind_Inr dest!: DispatchMessages_inv [OF inv] intro: ThreadDispatchMessages_inv)
  qed (use s inv Pair in \<open>auto simp: post_def SubscribeEvent_def SubscribeEventCtx_def UnSubscribeEvent_def
      UnSubscribeEventCtx_def bus_UnSubscribeAll_def PublishEvent_def rbind_Inr
      intro: RegisterHandler_inv handlers_inv PostMessage_inv SendInstantaneousMessage_inv on_publisher_inv
        PublishInstantaneousEvent_inv DispatchMessages_inv ThreadDispatchMessages_inv\<close>)
qed

inductive bus_reachable :: "('a, 's) bus_env \<Rightarrow> 's \<Rightarrow> ('a, 's) bus \<Rightarrow> bool" for env s where
  start: "bus_reachable env s (newBus s)"
| step: "bus_reachable env s b \<Longrightarrow> fresh_op b (snd p) \<Longrightarrow> bus_step env b p = Inr b' \<Longrightarrow> bus_reachable env s b'"

lemma reachable_inv: "bus_reachable env s b \<Longrightarrow> bus_inv b"
  by (induction rule: bus_reachable.induct) (auto intro: bus_inv_new bus_step_inv)


section \<open>A concrete bus\<close>

text \<open>
  Two threads, a handler of the first, two messages for it that have been distributed and
  one more that was posted with an offset; the handlers do nothing.
\<close>

definition idle_env :: "(nat, unit) bus_env" where
  "idle_env = \<lparr>runningMidTerm = True, react = (\<lambda>s st. (s, []))\<rparr>"

definition example_post :: "32 word \<Rightarrow> u32 \<Rightarrow> nat post" where
  "example_post prio k = \<lparr>p_target = 5, p_type = 1, p_message = Some \<lparr>msg_priority = prio, body = Custom 42\<rparr>,
     p_onMain = False, p_offset = k\<rparr>"

definition example_entry :: "32 word \<Rightarrow> 32 word \<Rightarrow> u32 \<Rightarrow> nat message_entry" where
  "example_entry prio eff k = \<lparr>destination = 5, e_message = Some \<lparr>msg_priority = prio, body = Custom 42\<rparr>, e_type = 1,
     e_internal = False, e_priority = eff, e_event = False, processOnMainThread = False, triggerTime = k\<rparr>"

definition example_ops :: "(thread_id \<times> nat bus_op) list" where
  "example_ops = [(1, ORegisterMain 10 11), (2, ORegister 20 21), (1, OHandler 5),
     (1, OPost (example_post 2 0)), (2, OPost (example_post 9 0)), (1, OPost (example_post 7 3)), (1, ODispatch)]"

definition checked_step ::
  "('a, 's) bus_env \<Rightarrow> ('a, 's) bus \<Rightarrow> thread_id \<times> 'a bus_op \<Rightarrow> (bus_error, ('a, 's) bus) result" where
  "checked_step env b p = guard InvalidContext (fresh_op b (snd p)) (bus_step env b p)"

lemma checked_reachable:
  assumes "run_list (checked_step env) (newBus s) ps = Inr b"
  shows "bus_reachable env s b"
proof (rule run_list_invariant [where P = "bus_reachable env s", OF _ start assms])
  show "bus_reachable env s y" if "bus_reachable env s x" "checked_step env x p = Inr y" for x p y
    using that by (auto simp: checked_step_def guard_Inr intro: step)
qed

lemma polite_idle: "polite idle_env"
  by (simp add: polite_def idle_env_def)

lemma example_run:
  "\<exists>b. run_list (checked_step idle_env) (newBus ()) example_ops = Inr b \<and>
     threadContext b 1 = Some 10 \<and> threadContext b 2 = Some 20 \<and> threadContexts b = [10, 20] \<and>
     handler_context b 5 = Some 10 \<and> publisher_at b 5 = None \<and> currentTime b = 1 \<and> handled b = [] \<and>
     (\<exists>c d. contexts b 10 = Some c \<and> main_ctx c \<and> threadId c = 1 \<and>
        inputQ c = [example_entry 9 9 0, example_entry 2 5 0] \<and> futureEventList c = [example_entry 7 7 3] \<and>
        contexts b 20 = Some d \<and> \<not> main_ctx d \<and> threadId d = 2)"
  by (simp add: example_ops_def checked_step_def RegisterMainThread_def RegisterThread_def register_context_def
      RegisterHandler_def CheckThreadContext_def context_at_def newBus_def newContext_def post_def PostMessage_def
      example_post_def example_entry_def is_event_def is_internal_def effective_priority_def MB_MIN_MSG_PRIORITY_def
      set_context_def DispatchMessages_def CheckMainThread_def collect_context_def
      output_loop.simps output_round_def future_loop.simps future_round_def pq_top_def pq_pop_def
      dispatch_def push_input_def ComparePriority_def CompareTriggerTime_def publisher_at_def newPublisher_def)
    (simp add: word_le_nat_alt)

lemma example_bus:
  obtains b c d where "bus_reachable idle_env () b"
    "threadContext b 1 = Some 10" "threadContext b 2 = Some 20" "threadContexts b = [10, 20]"
    "handler_context b 5 = Some 10" "publisher_at b 5 = None" "currentTime b = 1" "handled b = []"
    "contexts b 10 = Some c" "main_ctx c" "threadId c = 1"
    "inputQ c = [example_entry 9 9 0, example_entry 2 5 0]" "futureEventList c = [example_entry 7 7 3]"
    "contexts b 20 = Some d" "\<not> main_ctx d" "threadId d = 2"
  using example_run by (elim exE conjE) (rule that, erule checked_reachable, assumption+)

section \<open>Properties\<close>

text \<open>
  C1: on every reachable bus \<open>DispatchMessages\<close> of the main thread succeeds and moves exactly what
  is to be moved: every output queue is emptied, every future message whose time has come is
  taken, and the input queue of every context grows by the copies of the events and
  the messages routed to it, no more and no less.
\<close>

theorem DispatchMessages_delivers:
  assumes "bus_reachable env s b" "threadContext b th = Some m" "contexts b m = Some c" "main_ctx c"
  shows "\<exists>b'. DispatchMessages b th = Inr b' \<and> currentTime b' = currentTime b + 1 \<and>
    (\<forall>x \<in> set (threadContexts b). outp b' x = [] \<and>
       futp b' x = filter (\<lambda>e. currentTime b + 1 < triggerTime e) (futp b x)) \<and>
    (\<forall>x. inp b' x = inp b x + (\<Sum>a\<leftarrow>threadContexts b.
       \<Sum>e \<in># mset (outp b a @ filter (\<lambda>e. triggerTime e \<le> currentTime b + 1) (futp b a)). sent b m e x))"
proof -
  have "futp (b\<lparr>currentTime := t\<rparr>) = futp b" for t by (auto simp: futp_def fun_eq_iff)
  with DispatchMessages_spec [OF reachable_inv [OF assms(1)] assms(2-)] show ?thesis
    by (simp add: later_def due_def static_def linorder_not_le) blast
qed

theorem DispatchMessages_delivers_witness:
  "\<exists>b b'. bus_reachable idle_env () b \<and> inp b 10 = {#example_entry 9 9 0, example_entry 2 5 0#} \<and>
     DispatchMessages b 1 = Inr b' \<and> currentTime b' = 2 \<and> outp b' 10 = []"
proof (rule example_bus)
  fix b and c d :: "nat thread_context"
  assume b: "bus_reachable idle_env () b"
    "threadContext b 1 = Some 10" "threadContext b 2 = Some 20" "threadContexts b = [10, 20]"
    "handler_context b 5 = Some 10" "publisher_at b 5 = None" "currentTime b = 1" "handled b = []"
    "contexts b 10 = Some c" "main_ctx c" "threadId c = 1"
    "inputQ c = [example_entry 9 9 0, example_entry 2 5 0]" "futureEventList c = [example_entry 7 7 3]"
    "contexts b 20 = Some d" "\<not> main_ctx d" "threadId d = 2"
  from DispatchMessages_delivers [OF b(1,2,9,10)] obtain b' where
    "DispatchMessages b 1 = Inr b'" "currentTime b' = 2" "outp b' 10 = []" using b(4,7) by auto
  with b show ?thesis by (intro exI [of _ b] exI [of _ b']) (simp add: inp_def)
qed

text \<open>
  C10: handling its input queue, a thread calls the handler of every message once, messages of the same kind (internal,
  event or custom) in the order of decreasing priority, and empties the queue. The handlers are still registered
  with the thread, so no message is forwarded (a forwarded one is handled twice, \<open>moved_handler_handled_twice\<close>), only
  well-formed event messages reach a publisher, and what the handlers post is never null. The order between kinds,
  for which the header and the queue disagree, is not claimed (\<open>custom_priority\<close>).
\<close>

theorem ThreadDispatchMessages_by_priority:
  assumes "bus_reachable env s b" "polite env" "threadContext b th = Some a" "contexts b a = Some c"
    and "\<forall>e \<in> set (inputQ c). entry_here b th e"
  shows "\<exists>b' c' es. ThreadDispatchMessages env b th = Inr b' \<and> contexts b' a = Some c' \<and> inputQ c' = [] \<and>
    processedMessages c' = processedMessages c + of_nat (length (inputQ c)) \<and>
    mset es = mset (inputQ c) \<and>
    (\<forall>i j. i < j \<and> j < length es \<and> e_internal (es ! i) = e_internal (es ! j) \<and> e_event (es ! i) = e_event (es ! j) \<longrightarrow>
       sint (e_priority (es ! j)) \<le> sint (e_priority (es ! i))) \<and>
    handled b' = handled b @ concat (map call_of es)"
proof -
  have inv: "bus_inv b" by (rule reachable_inv [OF assms(1)])
  have at: "attached b th a" using inv assms(3,4) by (fastforce simp: attached_def bus_inv_def)
  have th: "threadId c = th" using at assms(4) by (simp add: attached_def)
  have ok: "by_priority (inputQ c)" using bus_inv_ctx [OF inv assms(4)] by (simp add: ctx_ok_def)
  let ?es = "msgq.drain (length (inputQ c)) (inputQ c)"
  have "mset ?es = mset (inputQ c)" by (rule msgq.drain_mset [OF ok]) simp
  moreover have "by_priority ?es" by (rule msgq.drain_sorted [OF ok]) simp
  then have "\<forall>i j. i < j \<and> j < length ?es \<longrightarrow> sint (e_priority (?es ! j)) \<le> sint (e_priority (?es ! i))"
    by (auto simp: sorted_wrt_iff_nth_less ComparePriority_def linorder_not_less)
  ultimately show ?thesis
    using input_loop_spec [OF assms(2) at assms(4)] assms(3-5) entry_here_safe th
    by (simp add: ThreadDispatchMessages_def CheckThreadContext_def context_at_def) blast
qed

theorem ThreadDispatchMessages_by_priority_witness:
  "\<exists>b b'. bus_reachable idle_env () b \<and> handled b = [] \<and> ThreadDispatchMessages idle_env b 1 = Inr b' \<and>
     length (handled b') = 2"
proof (rule example_bus)
  fix b and c d :: "nat thread_context"
  assume b: "bus_reachable idle_env () b"
    "threadContext b 1 = Some 10" "threadContext b 2 = Some 20" "threadContexts b = [10, 20]"
    "handler_context b 5 = Some 10" "publisher_at b 5 = None" "currentTime b = 1" "handled b = []"
    "contexts b 10 = Some c" "main_ctx c" "threadId c = 1"
    "inputQ c = [example_entry 9 9 0, example_entry 2 5 0]" "futureEventList c = [example_entry 7 7 3]"
    "contexts b 20 = Some d" "\<not> main_ctx d" "threadId d = 2"
  have safe: "\<forall>e \<in> set (inputQ c). entry_here b 1 e"
    using b by (auto simp: entry_here_def example_entry_def)
  from ThreadDispatchMessages_by_priority [OF b(1) polite_idle b(2,9) safe] obtain b' and es where
    h: "ThreadDispatchMessages idle_env b 1 = Inr b'" "mset es = mset (inputQ c)"
    "handled b' = handled b @ concat (map call_of es)" by blast
  have "set es = set (inputQ c)" "length es = 2"
    using h(2) b(12) by (metis set_mset_mset, metis b(12) size_mset length_Cons list.size(3) numeral_2_eq_2)
  then obtain x y where "es = [x, y]" "x \<in> set (inputQ c)" "y \<in> set (inputQ c)"
    by (cases es; cases "tl es") auto
  then have "length (handled b') = 2"
    using h(3) b(8,12) by (auto simp: call_of_def example_entry_def)
  with b(1,8) h(1) show ?thesis by blast
qed

text \<open>
  the priority a posted message is queued with: at least the minimum for a message whose own
  priority is not negative, so that it is handled before every event message; a
  negative priority is compared as unsigned, is not raised, and puts the message after them.
\<close>

theorem custom_priority:
  assumes "body msg = Custom v"
  shows "(0 \<le> sint (msg_priority msg) \<longrightarrow> 5 \<le> sint (effective_priority msg)) \<and>
     (sint (msg_priority msg) < 0 \<longrightarrow> effective_priority msg = msg_priority msg) \<and>
     (0 \<le> sint (msg_priority msg) \<longleftrightarrow> sint INTERNAL_EVENT_MSG_PRIORITY < sint (effective_priority msg))"
proof -
  let ?p = "msg_priority msg"
  have five: "sint (5 :: 32 word) = 5" "sint (3 :: 32 word) = 3" by simp_all
  have lt: "?p < 5 \<longleftrightarrow> 0 \<le> sint ?p \<and> sint ?p < 5"
  proof (cases "0 \<le> sint ?p")
    case True
    then have "uint ?p = sint ?p" by (rule sint_eq_uint_nonneg)
    then show ?thesis using True by (simp add: word_less_def)
  next
    case False
    then have "2147483648 \<le> uint ?p" by (rule sint_neg_uint)
    then show ?thesis using False by (simp add: word_less_def)
  qed
  have e: "effective_priority msg = (if ?p < 5 then 5 else ?p)"
    using assms by (simp add: effective_priority_def MB_MIN_MSG_PRIORITY_def)
  have i: "sint INTERNAL_EVENT_MSG_PRIORITY = 3" by (simp add: INTERNAL_EVENT_MSG_PRIORITY_def)
  show ?thesis using lt unfolding e i by (auto simp: five)
qed

theorem custom_priority_witness:
  "sint (effective_priority \<lparr>msg_priority = - 1, body = Custom ()\<rparr>) < sint INTERNAL_EVENT_MSG_PRIORITY"
  using custom_priority [of "\<lparr>msg_priority = - 1, body = Custom ()\<rparr>" "()"]
  by (simp add: INTERNAL_EVENT_MSG_PRIORITY_def)

text \<open>
  a message with an offset waits: after \<open>n + 1\<close> dispatches the future list of a
  context holds exactly the messages whose trigger time has not been reached, as long as the
  32-bit time does not wrap.
\<close>

theorem future_messages_wait:
  assumes "bus_reachable env s b" "threadContext b th = Some m" "contexts b m = Some c" "main_ctx c"
    and "unat (currentTime b) + Suc n < 2 ^ 32" "x \<in> set (threadContexts b)"
  shows "\<exists>b'. run_list (bus_step env) b (replicate (Suc n) (th, ODispatch)) = Inr b' \<and>
    futp b' x = filter (\<lambda>e. unat (currentTime b) + Suc n < unat (triggerTime e)) (futp b x)"
  using assms
proof (induction n arbitrary: b c)
  case 0
  have "unat (currentTime b + 1) = Suc (unat (currentTime b))"
    using 0(5) by (intro unat_Suc_word) simp
  with DispatchMessages_delivers [OF 0(1-4)] 0(6) show ?case
    by (auto simp: word_less_nat_alt)
next
  case (Suc n)
  have one: "unat (currentTime b + 1) = Suc (unat (currentTime b))"
    using Suc.prems(5) by (intro unat_Suc_word) simp
  obtain b1 where b1: "DispatchMessages b th = Inr b1" "currentTime b1 = currentTime b + 1"
    "futp b1 x = filter (\<lambda>e. currentTime b + 1 < triggerTime e) (futp b x)"
    using DispatchMessages_delivers [OF Suc.prems(1-4)] Suc.prems(6) by auto
  have st: "static (b\<lparr>currentTime := currentTime b + 1\<rparr>) b1"
    using DispatchMessages_spec [OF reachable_inv [OF Suc.prems(1)] Suc.prems(2-4)] b1(1) by auto
  have r: "bus_reachable env s b1"
    using b1(1) by (intro bus_reachable.step [OF Suc.prems(1), of "(th, ODispatch)"]) simp_all
  have "mainp b1 m" using st Suc.prems(3,4) by (simp add: static_def) (simp add: mainp_def)
  then obtain c1 where c1: "contexts b1 m = Some c1" "main_ctx c1"
    by (auto simp: mainp_def split: option.splits)
  have "threadContext b1 th = Some m" "x \<in> set (threadContexts b1)"
    using st Suc.prems(2,6) by (simp_all add: static_def)
  with Suc.IH [OF r _ c1] Suc.prems(5) obtain b2 where
    b2: "run_list (bus_step env) b1 (replicate (Suc n) (th, ODispatch)) = Inr b2"
    "futp b2 x = filter (\<lambda>e. unat (currentTime b1) + Suc n < unat (triggerTime e)) (futp b1 x)"
    using b1(2) one by auto
  have "futp b2 x = filter (\<lambda>e. unat (currentTime b) + Suc (Suc n) < unat (triggerTime e)) (futp b x)"
    unfolding b2(2) b1(2,3) one by (auto simp: word_less_nat_alt one intro: filter_cong)
  with b1(1) b2(1) show ?case by simp
qed

theorem future_messages_wait_witness:
  "\<exists>b b'. bus_reachable idle_env () b \<and> futp b 10 = [example_entry 7 7 3] \<and>
     run_list (bus_step idle_env) b (replicate (Suc 0) (1, ODispatch)) = Inr b' \<and> futp b' 10 = [example_entry 7 7 3]"
proof (rule example_bus)
  fix b and c d :: "nat thread_context"
  assume b: "bus_reachable idle_env () b"
    "threadContext b 1 = Some 10" "threadContext b 2 = Some 20" "threadContexts b = [10, 20]"
    "handler_context b 5 = Some 10" "publisher_at b 5 = None" "currentTime b = 1" "handled b = []"
    "contexts b 10 = Some c" "main_ctx c" "threadId c = 1"
    "inputQ c = [example_entry 9 9 0, example_entry 2 5 0]" "futureEventList c = [example_entry 7 7 3]"
    "contexts b 20 = Some d" "\<not> main_ctx d" "threadId d = 2"
  have f: "futp b 10 = [example_entry 7 7 3]" using b by (simp add: futp_def)
  from future_messages_wait [OF b(1,2,9,10), of 0 10] obtain b' where
    "run_list (bus_step idle_env) b (replicate (Suc 0) (1, ODispatch)) = Inr b'"
    "futp b' 10 = filter (\<lambda>e. unat (currentTime b) + Suc 0 < unat (triggerTime e)) (futp b 10)"
    using b(4,7) by auto
  with b(1,7) f show ?thesis by (intro exI [of _ b] exI [of _ b']) (simp add: example_entry_def)
qed

text \<open>
  in the mid-term simulation a message for a handler that has moved to another thread is posted
  again to the output queue and all the same handled at once on the wrong thread, so that it
  is handled twice.
\<close>

theorem moved_handler_handled_twice:
  assumes "bus_reachable env s b" "threadContext b th = Some a" "contexts b a = Some c"
    and "runningMidTerm env" "e_message e = Some msg" "destination e \<noteq> 0" "\<not> processOnMainThread e"
    and "handler_context b (destination e) = Some d" "contexts b d = Some dc" "threadId dc \<noteq> th"
  shows "\<exists>b1 e'. forward env th c e b = Inr b1 \<and> e' \<in> set (outp b1 a) \<and>
     destination e' = destination e \<and> e_message e' = e_message e \<and> e_type e' = e_type e \<and>
     handle_entry env th c e b = HandleMessage env th (destination e) (e_type e) msg b1 \<and>
     (\<forall>b'. handle_entry env th c e b = Inr b' \<longrightarrow>
        handled b' = handled b @ [\<lparr>c_dest = destination e, c_type = e_type e, c_message = msg\<rparr>])"
proof -
  have th: "threadId c = th" using reachable_inv [OF assms(1)] assms(2,3) by (fastforce simp: bus_inv_def)
  let ?e = "\<lparr>destination = destination e, e_message = Some msg, e_type = e_type e,
    e_internal = is_internal msg, e_priority = effective_priority msg, e_event = is_event msg,
    processOnMainThread = False, triggerTime = 0\<rparr>"
  let ?b1 = "set_context b a (c\<lparr>outputQ := pq_push ComparePriority ?e (outputQ c)\<rparr>)"
  have f: "forward env th c e b = Inr ?b1"
    using assms th by (simp add: forward_def context_at_def PostMessage_def CheckThreadContext_def)
  have "?e \<in># mset (pq_push ComparePriority ?e (outputQ c))" by (simp only: pq_push_mset) simp
  then have "?e \<in> set (outp ?b1 a)" by (simp add: proj_set_context)
  moreover have "handle_entry env th c e b = HandleMessage env th (destination e) (e_type e) msg ?b1"
    using f assms by (simp add: handle_entry_def)
  moreover have "handled b' = handled b @ [\<lparr>c_dest = destination e, c_type = e_type e, c_message = msg\<rparr>]"
    if "handle_entry env th c e b = Inr b'" for b'
    using handle_entry_frame [OF that] assms by (simp add: call_of_def)
  ultimately show ?thesis using f assms by (intro exI [of _ ?b1] exI [of _ ?e]) simp
qed

theorem moved_handler_handled_twice_witness:
  "\<exists>b d b1 e'. bus_reachable idle_env () b \<and> contexts b 20 = Some d \<and>
     forward idle_env 2 d (example_entry 9 9 0) b = Inr b1 \<and> e' \<in> set (outp b1 20) \<and> destination e' = 5"
proof (rule example_bus)
  fix b and c d :: "nat thread_context"
  assume b: "bus_reachable idle_env () b"
    "threadContext b 1 = Some 10" "threadContext b 2 = Some 20" "threadContexts b = [10, 20]"
    "handler_context b 5 = Some 10" "publisher_at b 5 = None" "currentTime b = 1" "handled b = []"
    "contexts b 10 = Some c" "main_ctx c" "threadId c = 1"
    "inputQ c = [example_entry 9 9 0, example_entry 2 5 0]" "futureEventList c = [example_entry 7 7 3]"
    "contexts b 20 = Some d" "\<not> main_ctx d" "threadId d = 2"
  have e: "e_message (example_entry 9 9 0) = Some \<lparr>msg_priority = 9, body = Custom 42\<rparr>"
    "destination (example_entry 9 9 0) = 5" "\<not> processOnMainThread (example_entry 9 9 0)"
    "runningMidTerm idle_env" by (simp_all add: example_entry_def idle_env_def)
  from moved_handler_handled_twice [OF b(1,3,14) e(4,1) _ e(3), of 10 c] b e show ?thesis by fastforce
qed

text \<open>
  \<open>SendInstantaneousMessage\<close> to a handler of another context, from a thread that is not the main
  one, drops the message without an error; with no destination it reads through the null pointer.
\<close>

theorem SendInstantaneousMessage_outside:
  assumes "bus_reachable env s b" "threadContext b th = Some a" "contexts b a = Some c"
  shows "(\<not> main_ctx c \<and> dest \<noteq> 0 \<and> handler_context b dest \<noteq> Some a \<longrightarrow>
       SendInstantaneousMessage env b th dest ty msg = Inr b) \<and>
     SendInstantaneousMessage env b th 0 ty msg = Inl NullDereference"
proof -
  have "threadId c = th" using reachable_inv [OF assms(1)] assms(2,3) by (fastforce simp: bus_inv_def)
  then show ?thesis
    using assms by (simp add: SendInstantaneousMessage_def CheckThreadContext_def context_at_def)
qed

theorem SendInstantaneousMessage_outside_witness:
  "\<exists>b. bus_reachable idle_env () b \<and> handler_context b 5 = Some 10 \<and>
     SendInstantaneousMessage idle_env b 2 5 1 None = Inr b"
proof (rule example_bus)
  fix b and c d :: "nat thread_context"
  assume b: "bus_reachable idle_env () b"
    "threadContext b 1 = Some 10" "threadContext b 2 = Some 20" "threadContexts b = [10, 20]"
    "handler_context b 5 = Some 10" "publisher_at b 5 = None" "currentTime b = 1" "handled b = []"
    "contexts b 10 = Some c" "main_ctx c" "threadId c = 1"
    "inputQ c = [example_entry 9 9 0, example_entry 2 5 0]" "futureEventList c = [example_entry 7 7 3]"
    "contexts b 20 = Some d" "\<not> main_ctx d" "threadId d = 2"
  from SendInstantaneousMessage_outside [OF b(1,3,14), of 5 1 None] b show ?thesis by auto
qed

text \<open>
  the balance of the report \<open>should be 0\<close>, but it is twice the number of unhandled messages when
  every message that was received or copied has been processed or is still in a queue.
\<close>

theorem report_balance_doubles_remaining:
  assumes "total processedMessages b + total remaining b =
     total receivedMessages b + total eventMessages b * of_nat (length (threadContexts b))"
  shows "report_balance b = \<bar>sint (- (2 * total remaining b))\<bar>"
proof -
  have "total processedMessages b = total receivedMessages b +
      total eventMessages b * of_nat (length (threadContexts b)) - total remaining b"
    using assms by (simp add: eq_diff_eq)
  then show ?thesis by (simp add: report_balance_def Let_def)
qed

theorem report_balance_doubles_remaining_witness:
  "report_balance \<lparr>contexts = [1 \<mapsto> (newContext 0 2 True)
       \<lparr>receivedMessages := 1, inputQ := [example_entry 9 9 0]\<rparr>], threadContexts = [1],
     threadContext = Map.empty, handler_context = Map.empty, currentTime = 0, clients = (),
     handled = [], notified = []\<rparr> = 2"
  using report_balance_doubles_remaining
    [of "\<lparr>contexts = [1 \<mapsto> (newContext 0 2 True)
       \<lparr>receivedMessages := 1, inputQ := [example_entry 9 9 0]\<rparr>], threadContexts = [1],
     threadContext = Map.empty, handler_context = Map.empty, currentTime = 0, clients = (),
     handled = [], notified = []\<rparr>"]
  by (simp add: total_def remaining_def newContext_def)

end
