(* ===== verification/Buffered_Data.thy ===== *)
theory Buffered_Data
  imports SM_Types
begin

text \<open>
  Double-buffered data: \<open>shared/buffering/Buffered.hpp\<close>, \<open>Buffered_uint32.hpp\<close>, \<open>Locked.hpp\<close>,
  \<open>Shared.hpp\<close> and \<open>BufferedDataManager.cpp\<close>. A datum is a record with the kind of its class; data
  live at addresses, a manager is the \<open>std::set\<close> of the addresses it flips, in increasing order.
\<close>

section \<open>Data\<close>

datatype mutex_strategy = MtxStrat_Buffered | MtxStrat_Locked

datatype datum_class = Buffered | Locked | Shared mutex_strategy

record 'v datum =
  datum_class :: datum_class
  currentV :: 'v
  nextV :: 'v
  refCount :: u32

definition newBuffered :: "'v \<Rightarrow> 'v datum" where
  "newBuffered v = \<lparr>datum_class = Buffered, currentV = v, nextV = v, refCount = 0\<rparr>"

definition newLocked :: "'v \<Rightarrow> 'v datum" where
  "newLocked v = \<lparr>datum_class = Locked, currentV = v, nextV = v, refCount = 0\<rparr>"

definition newShared :: "mutex_strategy \<Rightarrow> 'v \<Rightarrow> 'v datum" where
  "newShared strategy v = \<lparr>datum_class = Shared strategy, currentV = v, nextV = v, refCount = 0\<rparr>"

definition get :: "'v datum \<Rightarrow> 'v" where
  "get d = currentV d"

definition set_value :: "'v \<Rightarrow> 'v datum \<Rightarrow> 'v datum" where
  "set_value v d =
     (case datum_class d of
        Buffered \<Rightarrow> d\<lparr>nextV := v\<rparr>
      | Locked \<Rightarrow> d\<lparr>currentV := v\<rparr>
      | Shared _ \<Rightarrow> d\<lparr>nextV := v\<rparr>)"

definition skip :: "'v datum \<Rightarrow> 'v datum" where
  "skip d = set_value (get d) d"

text \<open>\<open>force\<close> of \<open>Buffered\<close> and \<open>Shared\<close>; \<open>Locked\<close> has none.\<close>

definition force :: "'v \<Rightarrow> 'v datum \<Rightarrow> 'v datum" where
  "force v d =
     (case datum_class d of
        Buffered \<Rightarrow> d\<lparr>currentV := v, nextV := v\<rparr>
      | Locked \<Rightarrow> d
      | Shared strategy \<Rightarrow>
          (let d1 = d\<lparr>currentV := v\<rparr> in
           if strategy = MtxStrat_Buffered then d1\<lparr>nextV := v\<rparr> else d1))"

definition flip :: "'v datum \<Rightarrow> 'v datum" where
  "flip d =
     (case datum_class d of
        Buffered \<Rightarrow> d\<lparr>currentV := nextV d\<rparr>
      | Locked \<Rightarrow> d
      | Shared strategy \<Rightarrow> if strategy = MtxStrat_Buffered then d\<lparr>currentV := nextV d\<rparr> else d)"

text \<open>\<open>Buffered_uint32\<close>: the operators work on the next value and wrap; \<open>delta\<close> is an \<open>int\<close>.\<close>

definition increment :: "u32 datum \<Rightarrow> u32 datum" where
  "increment d = d\<lparr>nextV := nextV d + 1\<rparr>"

definition decrement :: "u32 datum \<Rightarrow> u32 datum" where
  "decrement d = d\<lparr>nextV := nextV d - 1\<rparr>"

definition add_delta :: "32 word \<Rightarrow> u32 datum \<Rightarrow> u32 datum" where
  "add_delta delta d = d\<lparr>nextV := nextV d + delta\<rparr>"

definition sub_delta :: "32 word \<Rightarrow> u32 datum \<Rightarrow> u32 datum" where
  "sub_delta delta d = d\<lparr>nextV := nextV d - delta\<rparr>"

section \<open>The contract of a double buffer\<close>

locale double_buffer =
  fixes look :: "'d \<Rightarrow> 'v"
    and put :: "'v \<Rightarrow> 'd \<Rightarrow> 'd"
    and swap :: "'d \<Rightarrow> 'd"
    and ok :: "'d \<Rightarrow> bool"
  assumes ok_write: "ok d \<Longrightarrow> ok (put v d)"
    and ok_swap: "ok d \<Longrightarrow> ok (swap d)"
    and read_write: "ok d \<Longrightarrow> look (put v d) = look d"
    and read_swap: "ok d \<Longrightarrow> look (swap (put v d)) = v"
    and write_write: "ok d \<Longrightarrow> put w (put v d) = put w d"
begin

text \<open>However often a datum is written in a tick, the readers of the tick see the old value and
  those of the next tick the last one written.\<close>

lemma read_writes: "ok d \<Longrightarrow> look (foldl (\<lambda>d v. put v d) d vs) = look d"
  by (induction vs arbitrary: d) (simp_all add: ok_write read_write)

lemma writes_last: "ok d \<Longrightarrow> vs \<noteq> [] \<Longrightarrow> foldl (\<lambda>d v. put v d) d vs = put (last vs) d"
proof (induction vs rule: rev_induct)
  case (snoc v vs)
  then show ?case by (cases "vs = []") (simp_all add: write_write)
qed simp

lemma read_swap_writes: "ok d \<Longrightarrow> vs \<noteq> [] \<Longrightarrow> look (swap (foldl (\<lambda>d v. put v d) d vs)) = last vs"
  by (simp add: writes_last read_swap)

end

definition double_buffered :: "'v datum \<Rightarrow> bool" where
  "double_buffered d \<longleftrightarrow> datum_class d = Buffered \<or> datum_class d = Shared MtxStrat_Buffered"

interpretation buf: double_buffer get set_value flip double_buffered
  by unfold_locales
    (auto simp: double_buffered_def get_def set_value_def flip_def split: datum_class.splits)

section \<open>The manager\<close>

type_synonym datum_addr = nat
type_synonym 'v store = "datum_addr \<Rightarrow> 'v datum"

type_synonym 'v managed = "'v store \<times> datum_addr list"

definition beginManaging :: "'v managed \<Rightarrow> datum_addr \<Rightarrow> 'v managed" where
  "beginManaging m d =
     (case m of (h, ds) \<Rightarrow>
        if d \<notin> set ds then (h(d := (h d)\<lparr>refCount := refCount (h d) + 1\<rparr>), std_insert d ds)
        else (h, ds))"

definition stopManaging :: "'v managed \<Rightarrow> datum_addr \<Rightarrow> 'v managed" where
  "stopManaging m d =
     (case m of (h, ds) \<Rightarrow>
        if d \<in> set ds then (h(d := (h d)\<lparr>refCount := refCount (h d) - 1\<rparr>), std_erase d ds)
        else (h, ds))"

definition beginManagingAll :: "'v managed \<Rightarrow> datum_addr list \<Rightarrow> 'v managed" where
  "beginManagingAll m data = foldl beginManaging m data"

definition stopManagingAll :: "'v managed \<Rightarrow> datum_addr list \<Rightarrow> 'v managed" where
  "stopManagingAll m data = foldl stopManaging m data"

definition flip_all :: "'v managed \<Rightarrow> 'v managed" where
  "flip_all m = (case m of (h, ds) \<Rightarrow> (foldl (\<lambda>h d. h(d := flip (h d))) h ds, ds))"

text \<open>The destructor stops managing the first datum until none is left.\<close>

function destroy_manager :: "'v managed \<Rightarrow> 'v managed" where
  "destroy_manager m =
     (case snd m of [] \<Rightarrow> m | d # ds \<Rightarrow> destroy_manager (stopManaging m d))"
  by pat_completeness auto
termination
  by (relation "measure (\<lambda>m. length (snd m))")
    (auto simp: stopManaging_def std_erase_def split: prod.splits)

declare destroy_manager.simps [simp del]

section \<open>What the managers do\<close>

lemma flip_all_store:
  "distinct ds \<Longrightarrow> fst (flip_all (h, ds)) = (\<lambda>d. if d \<in> set ds then flip (h d) else h d)"
proof -
  assume "distinct ds"
  then have "foldl (\<lambda>h d. h(d := flip (h d))) h ds = (\<lambda>d. if d \<in> set ds then flip (h d) else h d)"
    by (induction ds arbitrary: h) (auto simp: fun_eq_iff)
  then show ?thesis by (simp add: flip_all_def)
qed

lemma set_beginManagingAll [simp]: "set (snd (beginManagingAll m ds)) = set (snd m) \<union> set ds"
proof (induction ds arbitrary: m)
  case (Cons d ds)
  then show ?case
    by (cases m) (auto simp: beginManagingAll_def beginManaging_def)
qed (simp add: beginManagingAll_def)

lemma std_beginManagingAll: "std_set (snd m) \<Longrightarrow> std_set (snd (beginManagingAll m ds))"
  unfolding beginManagingAll_def
  by (rule foldl_invariant [where P = "\<lambda>m. std_set (snd m)"])
    (auto simp: beginManaging_def simp del: set_std_insert split: prod.splits dest: std_set_insert)

lemma std_stopManagingAll: "std_set (snd m) \<Longrightarrow> std_set (snd (stopManagingAll m ds))"
  unfolding stopManagingAll_def
  by (rule foldl_invariant [where P = "\<lambda>m. std_set (snd m)"])
    (auto simp: stopManaging_def split: prod.splits dest: std_set_erase)

lemma set_stopManagingAll:
  "std_set (snd m) \<Longrightarrow> set (snd (stopManagingAll m ds)) = set (snd m) - set ds"
proof (induction ds arbitrary: m)
  case (Cons d ds)
  have "std_set (snd (stopManaging m d))"
    using Cons.prems std_stopManagingAll [of m "[d]"] by (simp add: stopManagingAll_def)
  from Cons.IH [OF this] show ?case
    using Cons.prems by (cases m) (auto simp: stopManagingAll_def stopManaging_def)
qed (simp add: stopManagingAll_def)


text \<open>A manager never touches the values of a datum, only its count.\<close>

definition same_value :: "'v datum \<Rightarrow> 'v datum \<Rightarrow> bool" where
  "same_value d d' \<longleftrightarrow> datum_class d' = datum_class d \<and> currentV d' = currentV d \<and> nextV d' = nextV d"

lemma managing_same_value:
  "same_value (h d) (fst (beginManaging (h, ds) x) d)" "same_value (h d) (fst (stopManaging (h, ds) x) d)"
  by (auto simp: same_value_def beginManaging_def stopManaging_def)

section \<open>Several managers\<close>

datatype mgr_op = Begin nat "datum_addr list" | Stop nat "datum_addr list" | Destroy nat

definition on_manager ::
  "nat \<Rightarrow> ('v managed \<Rightarrow> 'v managed) \<Rightarrow> 'v store \<times> datum_addr list list \<Rightarrow> 'v store \<times> datum_addr list list" where
  "on_manager i f s =
     (case s of (h, mgrs) \<Rightarrow>
        if i < length mgrs then (let r = f (h, mgrs ! i) in (fst r, mgrs[i := snd r])) else (h, mgrs))"

fun mgr_step :: "'v store \<times> datum_addr list list \<Rightarrow> mgr_op \<Rightarrow> 'v store \<times> datum_addr list list" where
  "mgr_step s (Begin i ds) = on_manager i (\<lambda>m. beginManagingAll m ds) s"
| "mgr_step s (Stop i ds) = on_manager i (\<lambda>m. stopManagingAll m ds) s"
| "mgr_step s (Destroy i) = on_manager i destroy_manager s"

definition managers_of :: "datum_addr list list \<Rightarrow> datum_addr \<Rightarrow> u32" where
  "managers_of mgrs d = (\<Sum>ds\<leftarrow>mgrs. if d \<in> set ds then 1 else 0)"

definition counts_ok :: "'v store \<times> datum_addr list list \<Rightarrow> bool" where
  "counts_ok s \<longleftrightarrow> (\<forall>ds \<in> set (snd s). std_set ds) \<and> (\<forall>d. refCount (fst s d) = managers_of (snd s) d)"

lemma managers_of_update:
  "i < length mgrs \<Longrightarrow> managers_of (mgrs[i := ds]) d =
     managers_of mgrs d + (if d \<in> set ds then 1 else 0) - (if d \<in> set (mgrs ! i) then 1 else 0)"
proof (induction mgrs arbitrary: i)
  case (Cons m mgrs)
  then show ?case by (cases i) (auto simp: managers_of_def)
qed simp

lemma counts_ok_single:
  assumes ok: "counts_ok (h, mgrs)" and i: "i < length mgrs"
    and f: "f = beginManaging \<or> f = stopManaging"
  shows "counts_ok (fst (f (h, mgrs ! i) d), mgrs[i := snd (f (h, mgrs ! i) d)])"
proof -
  have s: "std_set (mgrs ! i)" using ok i by (simp add: counts_ok_def)
  then have "std_set (snd (f (h, mgrs ! i) d))"
    using f by (auto simp: beginManaging_def stopManaging_def dest: std_set_insert std_set_erase)
  with ok i have "\<forall>ds \<in> set (mgrs[i := snd (f (h, mgrs ! i) d)]). std_set ds"
    using set_update_subset_insert [of mgrs i] by (fastforce simp: counts_ok_def)
  moreover have "refCount (fst (f (h, mgrs ! i) d) x) = managers_of (mgrs[i := snd (f (h, mgrs ! i) d)]) x" for x
    using ok f s by (auto simp: managers_of_update [OF i] counts_ok_def beginManaging_def stopManaging_def split: if_splits)
  ultimately show ?thesis by (simp add: counts_ok_def)
qed

lemma counts_ok_list:
  assumes f: "f = beginManaging \<or> f = stopManaging"
  shows "counts_ok (h, mgrs) \<Longrightarrow> i < length mgrs \<Longrightarrow>
    counts_ok (fst (foldl f (h, mgrs ! i) ds), mgrs[i := snd (foldl f (h, mgrs ! i) ds)])"
proof (induction ds arbitrary: h mgrs)
  case (Cons d ds)
  let ?r = "f (h, mgrs ! i) d"
  let ?mgrs = "mgrs[i := snd ?r]"
  have "counts_ok (fst ?r, ?mgrs)" by (rule counts_ok_single [OF Cons.prems f])
  from Cons.IH [OF this] Cons.prems(2) show ?case by simp
qed simp

lemma destroy_manager_foldl: "\<exists>ds. destroy_manager m = foldl stopManaging m ds \<and> snd (destroy_manager m) = []"
proof (induction m rule: destroy_manager.induct)
  case (1 m)
  show ?case
  proof (cases "snd m")
    case Nil
    then show ?thesis by (intro exI [of _ "[]"]) (simp add: destroy_manager.simps)
  next
    case (Cons d ds)
    then obtain xs where "destroy_manager (stopManaging m d) = foldl stopManaging (stopManaging m d) xs"
      "snd (destroy_manager (stopManaging m d)) = []" using 1 [OF Cons] by blast
    then show ?thesis
      using Cons by (intro exI [of _ "d # xs"]) (subst (1 2) destroy_manager.simps, simp)
  qed
qed

lemma counts_ok_step [sm_inv]: "counts_ok s \<Longrightarrow> counts_ok (mgr_step s p)"
proof -
  assume ok: "counts_ok s"
  obtain h mgrs where s: "s = (h, mgrs)" by fastforce
  show ?thesis
  proof (cases p)
    case (Begin i ds)
    then show ?thesis
      using ok counts_ok_list [of beginManaging h mgrs i ds] s
      by (auto simp: on_manager_def beginManagingAll_def Let_def)
  next
    case (Stop i ds)
    then show ?thesis
      using ok counts_ok_list [of stopManaging h mgrs i ds] s
      by (auto simp: on_manager_def stopManagingAll_def Let_def)
  next
    case (Destroy i)
    obtain ds where "destroy_manager (h, mgrs ! i) = foldl stopManaging (h, mgrs ! i) ds"
      using destroy_manager_foldl by blast
    then show ?thesis
      using Destroy ok counts_ok_list [of stopManaging h mgrs i ds] s
      by (auto simp: on_manager_def Let_def)
  qed
qed

section \<open>The update phase\<close>

text \<open>In a tick every agent writes its own data from the values all agents read.\<close>

type_synonym 'v update_fun = "datum_addr \<times> ((datum_addr \<Rightarrow> 'v) \<Rightarrow> 'v)"

definition apply_update :: "'v store \<Rightarrow> 'v update_fun \<Rightarrow> 'v store" where
  "apply_update h u = (case u of (d, f) \<Rightarrow> h(d := set_value (f (\<lambda>x. get (h x))) (h d)))"

definition run_updates :: "'v store \<Rightarrow> 'v update_fun list \<Rightarrow> 'v store" where
  "run_updates h us = foldl apply_update h us"

lemma run_updates_store:
  assumes "\<forall>(d, f) \<in> set us. double_buffered (h d)" "distinct (map fst us)"
  shows "run_updates h us d =
     (case map_of us d of None \<Rightarrow> h d | Some f \<Rightarrow> set_value (f (\<lambda>x. get (h x))) (h d))"
  using assms
proof (induction us arbitrary: h)
  case (Cons u us)
  obtain e f where u: "u = (e, f)" by fastforce
  let ?h = "apply_update h u"
  have e: "double_buffered (h e)" using Cons.prems(1) u by auto
  have read: "(\<lambda>x. get (?h x)) = (\<lambda>x. get (h x))"
    using buf.read_write [OF e] by (auto simp: u apply_update_def fun_eq_iff)
  have "\<forall>(d, f) \<in> set us. double_buffered (?h d)"
    using Cons.prems u buf.ok_write [OF e] by (auto simp: apply_update_def)
  from Cons.IH [OF this] Cons.prems(2) have IH: "run_updates ?h us d =
      (case map_of us d of None \<Rightarrow> ?h d | Some f \<Rightarrow> set_value (f (\<lambda>x. get (h x))) (?h d))"
    unfolding read by simp
  have "map_of us e = None" using Cons.prems(2) u by (simp add: map_of_eq_None_iff)
  with IH u show ?case
    by (auto simp: run_updates_def) (auto simp: apply_update_def split: option.split)
qed (simp add: run_updates_def)

section \<open>Properties\<close>

text \<open>The writes of a tick, in order: \<open>set\<close>, or \<open>force\<close> where the flag holds.\<close>

definition write_step :: "'v datum \<Rightarrow> 'v \<times> bool \<Rightarrow> 'v datum" where
  "write_step d w = (case w of (v, forced) \<Rightarrow> if forced then force v d else set_value v d)"

lemma writes_seen:
  assumes "double_buffered d"
  shows "double_buffered (foldl write_step d ws) \<and>
     currentV (foldl write_step d ws) = (if filter snd ws = [] then currentV d else fst (last (filter snd ws))) \<and>
     nextV (foldl write_step d ws) = (if ws = [] then nextV d else fst (last ws))"
  by (induction ws rule: rev_induct)
    (use assms in \<open>auto simp: write_step_def double_buffered_def force_def set_value_def Let_def split: prod.splits\<close>)

text \<open>
  C34: a double-buffered value: whatever is written in a tick, readers see the old value, or the last one that was
  forced, until the flip, and the last value written, by \<open>set\<close> or by \<open>force\<close>, after it.
\<close>

theorem buffered_last_write:
  assumes "datum_class d = Buffered \<or> datum_class d = Shared MtxStrat_Buffered" "ws \<noteq> []"
  shows "get (foldl write_step d ws) = (if filter snd ws = [] then get d else fst (last (filter snd ws))) \<and>
     get (flip (foldl write_step d ws)) = fst (last ws)"
  using writes_seen [of d ws] assms by (auto simp: double_buffered_def get_def flip_def)

theorem buffered_last_write_witness:
  "get (foldl write_step (newBuffered ''x'') [(''y'', False), (''f'', True), (''z'', False)]) = ''f'' \<and>
   get (flip (foldl write_step (newBuffered ''x'') [(''y'', False), (''f'', True), (''z'', False)])) = ''z''"
  using buffered_last_write [of "newBuffered ''x''" "[(''y'', False), (''f'', True), (''z'', False)]"]
  by (simp add: newBuffered_def)

text \<open>
  a \<open>Shared\<close> value with the locking strategy can not be changed through its operations: \<open>set\<close>
  writes the next value, which this strategy never makes current.
\<close>

theorem Shared_locked_ignores_set:
  assumes "datum_class d = Shared MtxStrat_Locked"
    and "\<forall>f \<in> set fs. f = flip \<or> f = skip \<or> (\<exists>v. f = set_value v)"
  shows "get (foldl (\<lambda>d f. f d) d fs) = get d"
proof -
  have "get (foldl (\<lambda>d f. f d) d fs) = get d \<and> datum_class (foldl (\<lambda>d f. f d) d fs) = Shared MtxStrat_Locked"
  proof (rule foldl_invariant)
    show "get (f s) = get d \<and> datum_class (f s) = Shared MtxStrat_Locked"
      if "f \<in> set fs" "get s = get d \<and> datum_class s = Shared MtxStrat_Locked" for s f
      using that assms(2) by (auto simp: flip_def skip_def set_value_def get_def)
  qed (use assms(1) in simp)
  then show ?thesis by simp
qed

theorem Shared_locked_ignores_set_witness:
  "get (foldl (\<lambda>d f. f d) (newShared MtxStrat_Locked ''x'') [set_value ''y'', flip]) = ''x''"
proof -
  have "\<forall>f \<in> set [set_value ''y'', flip]. f = flip \<or> f = skip \<or> (\<exists>v. f = set_value v)" by auto
  with Shared_locked_ignores_set [of "newShared MtxStrat_Locked ''x''" "[set_value ''y'', flip]"]
  show ?thesis by (simp add: newShared_def get_def)
qed

text \<open>
  the update phase does not depend on the order of the agents: when every datum is double-buffered
  and has one writer, any two orders of the updates leave the same store.
\<close>

theorem update_order_irrelevant:
  assumes "mset us = mset us'" "distinct (map fst us)" "\<forall>(d, f) \<in> set us. double_buffered (h d)"
  shows "run_updates h us = run_updates h us'"
proof
  fix d
  have set: "set us = set us'" using assms(1) by (rule mset_eq_setD)
  have "mset (map fst us) = mset (map fst us')" using assms(1) by simp
  with assms(2) have dist: "distinct (map fst us')" using mset_eq_imp_distinct_iff by blast
  then have "map_of us d = map_of us' d"
    using assms(2) set by (metis map_of_inject_set)
  then show "run_updates h us d = run_updates h us' d"
    using assms set dist run_updates_store [of us h d] run_updates_store [of us' h d] by simp
qed

theorem update_order_irrelevant_witness:
  "run_updates (\<lambda>d. newBuffered (0 :: nat)) [(1, \<lambda>r. r 2 + 1), (2, \<lambda>r. r 1 + 2)] =
   run_updates (\<lambda>d. newBuffered 0) [(2, \<lambda>r. r 1 + 2), (1, \<lambda>r. r 2 + 1)]"
  by (rule update_order_irrelevant) (simp_all add: double_buffered_def newBuffered_def)

text \<open>
  the reference counts: after any operations on any number of managers the count of every datum is
  the number of managers that manage it.
\<close>

theorem refCount_counts_managers:
  assumes "\<forall>d. refCount (h d) = 0"
  shows "refCount (fst (foldl mgr_step (h, replicate n []) ps) d) =
     managers_of (snd (foldl mgr_step (h, replicate n []) ps)) d"
proof -
  have "managers_of (replicate n []) d = 0" for d by (induction n) (simp_all add: managers_of_def)
  then have "counts_ok (h, replicate n [])" using assms by (simp add: counts_ok_def)
  then have "counts_ok (foldl mgr_step (h, replicate n []) ps)"
    by (rule foldl_invariant [rotated]) (rule counts_ok_step)
  then show ?thesis by (simp add: counts_ok_def)
qed

theorem refCount_counts_managers_witness:
  "refCount (fst (foldl mgr_step (\<lambda>d. newBuffered (0 :: nat), replicate 2 []) [Begin 0 [7, 8], Begin 1 [7], Stop 0 [8]]) 7) = 2"
  using refCount_counts_managers [of "\<lambda>d. newBuffered 0" 2 "[Begin 0 [7, 8], Begin 1 [7], Stop 0 [8]]" 7]
  by (simp add: newBuffered_def on_manager_def managers_of_def numeral_2_eq_2 beginManagingAll_def
      stopManagingAll_def beginManaging_def stopManaging_def std_insert_def std_erase_def)

end
