(* ===== verification/Flexi_Barrier.thy ===== *)
theory Flexi_Barrier
  imports SM_Prelude
begin

text \<open>
  The barrier of \<open>shared/util/FlexiBarrier.cpp\<close>: arrivals count down from a threshold, the one that
  reaches zero starts a new generation. The two member functions run under a mutex, so each is
  one step; a thread that waits sleeps with the generation it saw and wakes when it has changed.
\<close>

section \<open>The barrier\<close>

datatype barrier_error = ZeroCount | Overflow

record barrier =
  m_threshold :: u32
  m_count :: u32
  m_generation :: u32

definition newFlexiBarrier :: "u32 \<Rightarrow> (barrier_error, barrier) result" where
  "newFlexiBarrier cnt =
     (if cnt = 0 then Inl ZeroCount
      else Inr \<lparr>m_threshold = cnt, m_count = cnt, m_generation = 0\<rparr>)"

text \<open>\<open>wait\<close> up to the point where it would sleep: the leader returns, the others sleep on the
  generation.\<close>

datatype wait_result = Leader | Sleep u32

definition wait :: "barrier \<Rightarrow> u32 \<Rightarrow> (barrier_error, wait_result \<times> barrier) result" where
  "wait b amount =
     (let gen = m_generation b in
      if amount > m_count b then Inl Overflow
      else
        (let b1 = b\<lparr>m_count := m_count b - amount\<rparr> in
         if m_count b1 = 0
         then Inr (Leader, b1\<lparr>m_generation := m_generation b1 + 1, m_count := m_threshold b1\<rparr>)
         else Inr (Sleep gen, b1)))"

definition contribute :: "barrier \<Rightarrow> u32 \<Rightarrow> (barrier_error, bool \<times> barrier) result" where
  "contribute b amount =
     (if amount > m_count b then Inl Overflow
      else
        (let b1 = b\<lparr>m_count := m_count b - amount\<rparr> in
         if m_count b1 = 0
         then Inr (True, b1\<lparr>m_generation := m_generation b1 + 1, m_count := m_threshold b1\<rparr>)
         else Inr (False, b1)))"

text \<open>The test of the loop in which a thread sleeps.\<close>

definition still_waiting :: "barrier \<Rightarrow> u32 \<Rightarrow> bool" where
  "still_waiting b gen \<longleftrightarrow> gen = m_generation b"

section \<open>Counting arrivals\<close>

datatype arrival = Wait u32 | Contribute u32

fun amount_of :: "arrival \<Rightarrow> u32" where
  "amount_of (Wait n) = n"
| "amount_of (Contribute n) = n"

definition arrive :: "barrier \<Rightarrow> arrival \<Rightarrow> (barrier_error, barrier) result" where
  "arrive b a =
     (case a of
        Wait n \<Rightarrow> rbind (wait b n) (\<lambda>r. Inr (snd r))
      | Contribute n \<Rightarrow> rbind (contribute b n) (\<lambda>r. Inr (snd r)))"

definition barrier_ok :: "barrier \<Rightarrow> bool" where
  "barrier_ok b \<longleftrightarrow> 0 < m_count b \<and> m_count b \<le> m_threshold b"

text \<open>Both ways to arrive change the barrier in the same way.\<close>

lemma arrive_eq:
  "arrive b a =
     (if m_count b < amount_of a then Inl Overflow
      else if m_count b = amount_of a
      then Inr (b\<lparr>m_count := m_threshold b, m_generation := m_generation b + 1\<rparr>)
      else Inr (b\<lparr>m_count := m_count b - amount_of a\<rparr>))"
  by (cases a; cases b) (auto simp: arrive_def wait_def contribute_def Let_def)

lemma barrier_ok_new: "newFlexiBarrier n = Inr b \<Longrightarrow> barrier_ok b \<and> m_count b = m_threshold b \<and> m_threshold b = n"
  by (auto simp: newFlexiBarrier_def barrier_ok_def word_neq_0_conv split: if_splits)

lemma barrier_ok_arrive [sm_inv]:
  "barrier_ok b \<Longrightarrow> arrive b a = Inr b' \<Longrightarrow> barrier_ok b' \<and> m_threshold b' = m_threshold b"
  by (auto simp: arrive_eq barrier_ok_def word_le_nat_alt word_less_nat_alt word_unat_eq_iff unat_sub split: if_splits)

lemma arrive_partial:
  assumes "barrier_ok b" "unat (amount_of a) < unat (m_count b)"
  shows "\<exists>b'. arrive b a = Inr b' \<and> barrier_ok b' \<and> m_threshold b' = m_threshold b \<and>
    m_generation b' = m_generation b \<and> unat (m_count b') = unat (m_count b) - unat (amount_of a)"
proof -
  let ?b = "b\<lparr>m_count := m_count b - amount_of a\<rparr>"
  have "arrive b a = Inr ?b" using assms by (auto simp: arrive_eq word_less_nat_alt)
  moreover have "unat (m_count ?b) = unat (m_count b) - unat (amount_of a)"
    using assms(2) by (simp add: unat_sub word_le_nat_alt)
  moreover have "barrier_ok ?b" using barrier_ok_arrive [OF assms(1) calculation(1)] by simp
  ultimately show ?thesis by (intro exI [of _ ?b]) simp
qed

text \<open>Arrivals that stay below the count.\<close>

lemma arrivals_partial:
  assumes "barrier_ok b" "(\<Sum>a\<leftarrow>as. unat (amount_of a)) < unat (m_count b)"
  shows "\<exists>b'. run_list arrive b as = Inr b' \<and> barrier_ok b' \<and> m_threshold b' = m_threshold b \<and>
    m_generation b' = m_generation b \<and> unat (m_count b') = unat (m_count b) - (\<Sum>a\<leftarrow>as. unat (amount_of a))"
  using assms
proof (induction as arbitrary: b)
  case (Cons a as)
  then obtain b1 where b1: "arrive b a = Inr b1" "barrier_ok b1" "m_threshold b1 = m_threshold b"
    "m_generation b1 = m_generation b" "unat (m_count b1) = unat (m_count b) - unat (amount_of a)"
    using arrive_partial [of b a] by auto
  have "(\<Sum>a\<leftarrow>as. unat (amount_of a)) < unat (m_count b1)" using b1(5) Cons.prems(2) by simp
  from Cons.IH [OF b1(2) this] b1 show ?case by auto
qed simp

lemma arrive_last:
  "unat (amount_of a) = unat (m_count b) \<Longrightarrow>
   arrive b a = Inr (b\<lparr>m_count := m_threshold b, m_generation := m_generation b + 1\<rparr>)"
  by (simp add: arrive_eq flip: word_unat_eq_iff)

text \<open>Arrivals of positive amounts that add up to the count complete the round, with the last one.\<close>

lemma arrivals_complete:
  assumes "barrier_ok b" "(\<Sum>a\<leftarrow>as. unat (amount_of a)) = unat (m_count b)" "\<forall>a \<in> set as. amount_of a \<noteq> 0"
  shows "run_list arrive b as = Inr (b\<lparr>m_count := m_threshold b, m_generation := m_generation b + 1\<rparr>)"
proof -
  have "as \<noteq> []" using assms(1,2) by (auto simp: barrier_ok_def word_less_nat_alt)
  then obtain xs a where as: "as = xs @ [a]" by (metis rev_exhaust)
  have "unat (amount_of a) > 0" using assms(3) by (auto simp: as unat_gt_0)
  then have "(\<Sum>a\<leftarrow>xs. unat (amount_of a)) < unat (m_count b)" using assms(2) as by simp
  from arrivals_partial [OF assms(1) this] obtain b' where b': "run_list arrive b xs = Inr b'"
    "m_threshold b' = m_threshold b" "m_generation b' = m_generation b"
    "unat (m_count b') = unat (m_count b) - (\<Sum>a\<leftarrow>xs. unat (amount_of a))" by auto
  have "b'\<lparr>m_count := m_threshold b', m_generation := m_generation b' + 1\<rparr> =
      b\<lparr>m_count := m_threshold b, m_generation := m_generation b + 1\<rparr>"
    using b'(2,3) by (cases b; cases b') simp
  moreover have "unat (amount_of a) = unat (m_count b')" using b'(4) assms(2) as by simp
  ultimately show ?thesis by (simp add: as run_list_append b'(1) arrive_last)
qed

section \<open>Threads at the barrier\<close>

text \<open>
  \<open>rounds\<close> and \<open>arrived\<close> count, without wrapping, the completed rounds and what arrived in all of them;
  a sleeping thread is kept with the generation it waits for to pass and the round it arrived in.
\<close>

record barrier_system =
  bar :: barrier
  asleep :: "(nat \<times> u32 \<times> nat) list"
  rounds :: nat
  arrived :: nat

definition newSystem :: "barrier \<Rightarrow> barrier_system" where
  "newSystem b = \<lparr>bar = b, asleep = [], rounds = 0, arrived = 0\<rparr>"

inductive barrier_step :: "barrier_system \<Rightarrow> barrier_system \<Rightarrow> bool" where
  lead: "t \<notin> fst ` set (asleep s) \<Longrightarrow> wait (bar s) n = Inr (Leader, b) \<Longrightarrow>
    barrier_step s (s\<lparr>bar := b, rounds := rounds s + 1, arrived := arrived s + unat n\<rparr>)"
| sleep: "t \<notin> fst ` set (asleep s) \<Longrightarrow> wait (bar s) n = Inr (Sleep g, b) \<Longrightarrow>
    barrier_step s (s\<lparr>bar := b, asleep := (t, g, rounds s) # asleep s, arrived := arrived s + unat n\<rparr>)"
| add: "t \<notin> fst ` set (asleep s) \<Longrightarrow> contribute (bar s) n = Inr (r, b) \<Longrightarrow>
    barrier_step s (s\<lparr>bar := b, rounds := rounds s + (if r then 1 else 0), arrived := arrived s + unat n\<rparr>)"
| wake: "(t, g, k) \<in> set (asleep s) \<Longrightarrow> \<not> still_waiting (bar s) g \<Longrightarrow>
    barrier_step s (s\<lparr>asleep := removeAll (t, g, k) (asleep s)\<rparr>)"

inductive barrier_reachable :: "u32 \<Rightarrow> barrier_system \<Rightarrow> bool" for n where
  start: "newFlexiBarrier n = Inr b \<Longrightarrow> barrier_reachable n (newSystem b)"
| next_state: "barrier_reachable n s \<Longrightarrow> barrier_step s s' \<Longrightarrow> barrier_reachable n s'"

definition barrier_inv :: "u32 \<Rightarrow> barrier_system \<Rightarrow> bool" where
  "barrier_inv n s \<longleftrightarrow> barrier_ok (bar s) \<and> m_threshold (bar s) = n \<and>
     m_generation (bar s) = of_nat (rounds s) \<and>
     arrived s + unat (m_count (bar s)) = (rounds s + 1) * unat n \<and>
     (\<forall>(t, g, k) \<in> set (asleep s). g = of_nat k \<and> k \<le> rounds s)"

lemma wait_cases:
  assumes "wait b n = Inr (r, b')"
  shows "n \<le> m_count b \<and>
    (r = Leader \<and> n = m_count b \<and> b' = b\<lparr>m_count := m_threshold b, m_generation := m_generation b + 1\<rparr> \<or>
     r = Sleep (m_generation b) \<and> n < m_count b \<and> b' = b\<lparr>m_count := m_count b - n\<rparr>)"
  using assms by (cases b) (auto simp: wait_def Let_def split: if_splits)

lemma contribute_cases:
  assumes "contribute b n = Inr (r, b')"
  shows "n \<le> m_count b \<and>
    (r \<and> n = m_count b \<and> b' = b\<lparr>m_count := m_threshold b, m_generation := m_generation b + 1\<rparr> \<or>
     \<not> r \<and> n < m_count b \<and> b' = b\<lparr>m_count := m_count b - n\<rparr>)"
  using assms by (cases b) (auto simp: contribute_def Let_def split: if_splits)

lemma barrier_inv_count:
  assumes "barrier_inv n s" "k < m_count (bar s)"
  shows "unat (m_count (bar s) - k) = unat (m_count (bar s)) - unat k"
    "0 < m_count (bar s) - k" "m_count (bar s) - k \<le> n"
  using assms
  by (auto simp: barrier_inv_def barrier_ok_def word_less_nat_alt word_le_nat_alt unat_sub)

lemma barrier_inv_step [sm_inv]:
  assumes inv: "barrier_inv n s" and "barrier_step s s'"
  shows "barrier_inv n s'"
  using assms(2)
proof (cases rule: barrier_step.cases)
  case (lead t k b)
  from wait_cases [OF lead(3)] have "k = m_count (bar s)"
    "b = (bar s)\<lparr>m_count := m_threshold (bar s), m_generation := m_generation (bar s) + 1\<rparr>" by auto
  then show ?thesis
    using inv lead(1) by (auto simp: barrier_inv_def barrier_ok_def)
next
  case (sleep t k g b)
  from wait_cases [OF sleep(3)] have "g = m_generation (bar s)" "k < m_count (bar s)"
    "b = (bar s)\<lparr>m_count := m_count (bar s) - k\<rparr>" by auto
  then show ?thesis
    using inv sleep(1) barrier_inv_count [OF inv] by (auto simp: barrier_inv_def barrier_ok_def word_less_nat_alt)
next
  case (add t k r b)
  from contribute_cases [OF add(3)] show ?thesis
    using inv add(1) barrier_inv_count [OF inv]
    by (auto simp: barrier_inv_def barrier_ok_def word_less_nat_alt word_le_nat_alt)
next
  case (wake t g k)
  then show ?thesis using inv by (auto simp: barrier_inv_def)
qed

lemma barrier_inv_reachable: "barrier_reachable n s \<Longrightarrow> barrier_inv n s"
proof (induction rule: barrier_reachable.induct)
  case (start b)
  then show ?case
    by (auto simp: barrier_inv_def newSystem_def newFlexiBarrier_def barrier_ok_def word_neq_0_conv split: if_splits)
qed (rule barrier_inv_step)

section \<open>Properties\<close>

text \<open>
  C32: whatever the order in which they come, and whether they wait or only contribute, arrivals of
  positive amounts that add up to the threshold complete exactly one round: none of them
  overflows, the generation advances by one, and the count is back at the threshold.
\<close>

theorem barrier_round_any_order:
  assumes "newFlexiBarrier n = Inr b" "mset as = mset bs" "\<forall>a \<in> set bs. amount_of a \<noteq> 0"
    and "(\<Sum>a\<leftarrow>bs. unat (amount_of a)) = unat n"
  shows "run_list arrive b as = Inr (b\<lparr>m_generation := m_generation b + 1\<rparr>)"
proof -
  have "(\<Sum>a\<leftarrow>as. unat (amount_of a)) = unat n"
    using assms(2,4) by (metis mset_map sum_mset_sum_list)
  moreover have "\<forall>a \<in> set as. amount_of a \<noteq> 0" using assms(2,3) by (metis mset_eq_setD)
  ultimately have "run_list arrive b as = Inr (b\<lparr>m_count := m_threshold b, m_generation := m_generation b + 1\<rparr>)"
    using barrier_ok_new [OF assms(1)] by (intro arrivals_complete) auto
  moreover have "b\<lparr>m_count := m_threshold b, m_generation := m_generation b + 1\<rparr> = b\<lparr>m_generation := m_generation b + 1\<rparr>"
    using barrier_ok_new [OF assms(1)] by (cases b) simp
  ultimately show ?thesis by simp
qed

theorem barrier_round_any_order_witness:
  "run_list arrive \<lparr>m_threshold = 4, m_count = 4, m_generation = 0\<rparr> [Contribute 2, Wait 1, Wait 1] =
     Inr \<lparr>m_threshold = 4, m_count = 4, m_generation = 1\<rparr>"
  using barrier_round_any_order [of 4 "\<lparr>m_threshold = 4, m_count = 4, m_generation = 0\<rparr>"
      "[Contribute 2, Wait 1, Wait 1]" "[Wait 1, Wait 1, Contribute 2]"]
  by (simp add: newFlexiBarrier_def)

text \<open>
  C27: no thread gets through early and none is left behind: in every reachable state a thread that
  is asleep in the current round stays asleep, one that may wake has seen at least as many
  complete thresholds arrive as the rounds it takes, and all threads of the round that has
  just been completed may wake.
\<close>

theorem barrier_releases_full_rounds:
  assumes "barrier_reachable n s" "(t, g, k) \<in> set (asleep s)"
  shows "(k = rounds s \<longrightarrow> still_waiting (bar s) g) \<and>
    (\<not> still_waiting (bar s) g \<longrightarrow> (k + 1) * unat n \<le> arrived s) \<and>
    (rounds s = k + 1 \<longrightarrow> \<not> still_waiting (bar s) g)"
proof -
  have inv: "barrier_ok (bar s)" "m_threshold (bar s) = n" "m_generation (bar s) = of_nat (rounds s)"
    "arrived s + unat (m_count (bar s)) = (rounds s + 1) * unat n" "g = of_nat k" "k \<le> rounds s"
    using barrier_inv_reachable [OF assms(1)] assms(2) by (auto simp: barrier_inv_def)
  have "(k + 1) * unat n \<le> arrived s" if "k \<noteq> rounds s"
  proof -
    have "(k + 1) * unat n \<le> rounds s * unat n" using that inv(6) by (intro mult_right_mono) simp_all
    also have "\<dots> \<le> arrived s" using inv(1,2,4) by (simp add: barrier_ok_def word_le_nat_alt)
    finally show ?thesis .
  qed
  moreover have "(1 :: u32) \<noteq> 0" by simp
  ultimately show ?thesis using inv(3,5) by (auto simp: still_waiting_def)
qed

theorem barrier_releases_full_rounds_witness:
  "\<exists>s. barrier_reachable 2 s \<and> (7, 0, 0) \<in> set (asleep s) \<and> still_waiting (bar s) 0"
proof -
  let ?b = "\<lparr>m_threshold = 2, m_count = 2, m_generation = 0\<rparr>"
  let ?s = "(newSystem ?b)\<lparr>bar := ?b\<lparr>m_count := 1\<rparr>, asleep := [(7, 0, 0)], arrived := 1\<rparr>"
  have "barrier_reachable 2 (newSystem ?b)" by (rule barrier_reachable.start) (simp add: newFlexiBarrier_def)
  moreover have "barrier_step (newSystem ?b) ?s"
    using barrier_step.sleep [of 7 "newSystem ?b" 1 0 "?b\<lparr>m_count := 1\<rparr>"]
    by (simp add: newSystem_def wait_def)
  ultimately have r: "barrier_reachable 2 ?s" by (rule barrier_reachable.next_state)
  have "(7, 0, 0) \<in> set (asleep ?s)" by simp
  with barrier_releases_full_rounds [OF r this] r show ?thesis
    by (intro exI [of _ ?s]) (simp add: newSystem_def)
qed

end
