(* ===== verification/Workers.thy ===== *)
theory Workers
  imports Buffered_Data Message_Bus "HOL-Library.Sublist"
begin

text \<open>
  A worker and its entities: \<open>shared/workers/Worker.cpp\<close> and \<open>shared/entities/Entity.cpp\<close>. A worker
  is the manager of the buffered data of its entities; entities are handlers of the message bus.
  What a concrete entity does (its \<open>update\<close>, its subscriptions, the callbacks on entering and
  leaving) is the parameter \<open>entity_class\<close>: an update may change the state of the clients, write
  buffered data, post messages and hand over new entities.
\<close>

section \<open>Entities\<close>

type_synonym entity = address

datatype ret_status = RS_CONTINUE | RS_CONTINUE_INCOMPLETE | RS_DONE

record update_status =
  status :: ret_status
  toRemove :: "datum_addr list"
  toAdd :: "datum_addr list"

text \<open>The constructor of \<open>UpdateStatus\<close>: what is only in the old list is to be removed, what is only
  in the new one to be added.\<close>

definition newUpdateStatus :: "ret_status \<Rightarrow> datum_addr list \<Rightarrow> datum_addr list \<Rightarrow> update_status" where
  "newUpdateStatus st currTickVals nextTickVals =
     (let r0 = foldl (\<lambda>s d. std_insert d s) [] currTickVals;
          (r, a) = foldl (\<lambda>(r, a) d. if d \<in> set r then (std_erase d r, a) else (r, std_insert d a))
                     (r0, []) nextTickVals
      in \<lparr>status = st, toRemove = r, toAdd = a\<rparr>)"

record ('v, 'm, 's) update_result =
  r_status :: update_status
  r_clients :: 's
  r_writes :: "(datum_addr \<times> 'v) list"
  r_posts :: "'m post list"
  r_bred :: "entity list"

record ('v, 'm, 's) entity_class =
  update_fn :: "'s \<Rightarrow> entity \<Rightarrow> timeslice \<Rightarrow> ('v, 'm, 's) update_result"
  subscriptions :: "entity \<Rightarrow> datum_addr list"
  startTime :: "entity \<Rightarrow> u32"
  multiUpdate :: "entity \<Rightarrow> bool"
  isAgent :: "entity \<Rightarrow> bool"
  nonspatial :: "entity \<Rightarrow> bool"
  parentEntity :: "entity \<Rightarrow> entity"
  onWorkerEnter :: "entity \<Rightarrow> 's \<Rightarrow> 's"
  onWorkerExit :: "entity \<Rightarrow> 's \<Rightarrow> 's"
  registerChild :: "entity \<Rightarrow> entity \<Rightarrow> 's \<Rightarrow> 's"
  unregisterChild :: "entity \<Rightarrow> entity \<Rightarrow> 's \<Rightarrow> 's"

text \<open>\<open>cmp_agent_start\<close>: a lower start time is a higher priority.\<close>

definition cmp_agent_start :: "('v, 'm, 's) entity_class \<Rightarrow> entity \<Rightarrow> entity \<Rightarrow> bool" where
  "cmp_agent_start ec x y \<longleftrightarrow> (if x = 0 \<or> y = 0 then False else startTime ec x > startTime ec y)"

section \<open>The state\<close>

datatype worker_error =
    BusError bus_error
  | SwitchedWorkers | AlreadyManaged
  | NotStarted | AlreadyStarted | WrongState | NoLoader | OutOfRange | NullLoader | NullWorker | NullEntity
  | ZeroBarrier

record ('v, 'm, 's) world =
  store :: "'v store"
  the_bus :: "('m, 's) bus"
  currWorkerProvider :: "entity \<Rightarrow> address option"

record worker =
  w_addr :: address
  managedEntities :: "entity list"
  managedMultiUpdateEntities :: "entity list"
  managedData :: "datum_addr list"
  toBeAdded :: "entity list"
  toBeRemoved :: "entity list"
  toBeBred :: "entity list"
  entityRemovalList :: "entity list"
  entityBredList :: "entity list"
  currTick :: u32
  active :: bool
  endTick :: u32
  tickStep :: u32

type_synonym ('v, 'm, 's) at_work = "('v, 'm, 's) world \<times> worker"

definition newWorker :: "address \<Rightarrow> u32 \<Rightarrow> u32 \<Rightarrow> worker" where
  "newWorker a endT step =
     \<lparr>w_addr = a, managedEntities = [], managedMultiUpdateEntities = [], managedData = [],
      toBeAdded = [], toBeRemoved = [], toBeBred = [], entityRemovalList = [], entityBredList = [],
      currTick = 0, active = True, endTick = endT, tickStep = step\<rparr>"

text \<open>\<open>start\<close> resets the loop parameters; \<open>simulationStartDay\<close> is an argument.\<close>

definition worker_start :: "u32 \<Rightarrow> worker \<Rightarrow> worker" where
  "worker_start simulationStartDay w = w\<lparr>active := True, currTick := simulationStartDay\<rparr>"

definition extraActive :: "worker \<Rightarrow> u32 \<Rightarrow> bool" where
  "extraActive w endT \<longleftrightarrow> endT = 0 \<or> currTick w - 1 < endT"

section \<open>Operations of a worker\<close>

definition addEntity :: "('v, 'm, 's) entity_class \<Rightarrow> worker \<Rightarrow> entity \<Rightarrow> worker" where
  "addEntity ec w e =
     (let w1 = w\<lparr>managedEntities := std_insert e (managedEntities w)\<rparr> in
      if multiUpdate ec e
      then w1\<lparr>managedMultiUpdateEntities := std_insert e (managedMultiUpdateEntities w1)\<rparr> else w1)"

definition remEntity :: "('v, 'm, 's) entity_class \<Rightarrow> worker \<Rightarrow> entity \<Rightarrow> worker" where
  "remEntity ec w e =
     (let w1 = (if e \<in> set (managedEntities w)
                then w\<lparr>managedEntities := std_erase e (managedEntities w)\<rparr> else w) in
      if multiUpdate ec e \<and> e \<in> set (managedMultiUpdateEntities w1)
      then w1\<lparr>managedMultiUpdateEntities := std_erase e (managedMultiUpdateEntities w1)\<rparr> else w1)"

definition scheduleForAddition :: "worker \<Rightarrow> entity \<Rightarrow> worker" where
  "scheduleForAddition w e = w\<lparr>toBeAdded := toBeAdded w @ [e]\<rparr>"

definition scheduleForRemoval :: "worker \<Rightarrow> entity \<Rightarrow> worker" where
  "scheduleForRemoval w e = w\<lparr>toBeRemoved := toBeRemoved w @ [e]\<rparr>"

definition scheduleForBred :: "worker \<Rightarrow> entity \<Rightarrow> worker" where
  "scheduleForBred w e = w\<lparr>toBeBred := toBeBred w @ [e]\<rparr>"

definition getAgentSize :: "bool \<Rightarrow> worker \<Rightarrow> nat" where
  "getAgentSize includeToBeAdded w =
     length (managedEntities w) + (if includeToBeAdded then length (toBeAdded w) else 0)"

definition manage :: "('v managed \<Rightarrow> 'v managed) \<Rightarrow> ('v, 'm, 's) at_work \<Rightarrow> ('v, 'm, 's) at_work" where
  "manage f s =
     (case s of (x, w) \<Rightarrow>
        (let m = f (store x, managedData w) in (x\<lparr>store := fst m\<rparr>, w\<lparr>managedData := snd m\<rparr>)))"

definition migrateIn :: "('v, 'm, 's) entity_class \<Rightarrow> ('v, 'm, 's) at_work \<Rightarrow> entity \<Rightarrow>
   (worker_error, ('v, 'm, 's) at_work) result" where
  "migrateIn ec s e =
     (case s of (x, w) \<Rightarrow>
        if currWorkerProvider x e \<noteq> None then Inl AlreadyManaged
        else
          (let w1 = addEntity ec w e;
               x1 = x\<lparr>currWorkerProvider := (currWorkerProvider x)(e := Some (w_addr w1))\<rparr>
           in Inr (manage (\<lambda>m. beginManagingAll m (subscriptions ec e)) (x1, w1))))"

definition migrateOut :: "('v, 'm, 's) entity_class \<Rightarrow> ('v, 'm, 's) at_work \<Rightarrow> entity \<Rightarrow>
   (worker_error, ('v, 'm, 's) at_work) result" where
  "migrateOut ec s e =
     (case s of (x, w) \<Rightarrow>
        if currWorkerProvider x e \<noteq> None \<and> currWorkerProvider x e \<noteq> Some (w_addr w)
        then Inl SwitchedWorkers
        else
          (let w1 = remEntity ec w e;
               x1 = x\<lparr>currWorkerProvider := (currWorkerProvider x)(e := None)\<rparr>
           in Inr (manage (\<lambda>m. stopManagingAll m (subscriptions ec e)) (x1, w1))))"

definition on_bus :: "(('m, 's) bus \<Rightarrow> (bus_error, ('m, 's) bus) result) \<Rightarrow> ('v, 'm, 's) world \<Rightarrow>
   (worker_error, ('v, 'm, 's) world) result" where
  "on_bus f x =
     (case f (the_bus x) of Inl e \<Rightarrow> Inl (BusError e) | Inr b \<Rightarrow> Inr (x\<lparr>the_bus := b\<rparr>))"

definition on_clients :: "('s \<Rightarrow> 's) \<Rightarrow> ('v, 'm, 's) world \<Rightarrow> ('v, 'm, 's) world" where
  "on_clients f x = x\<lparr>the_bus := (the_bus x)\<lparr>clients := f (clients (the_bus x))\<rparr>\<rparr>"

text \<open>The list that takes the removed entities is always there: \<open>initWorkers\<close> allocates one for every worker it makes, so the
  throw of \<open>removePendingEntities\<close> for a worker without one is out of reach and has no branch here.\<close>

definition addPending :: "('v, 'm, 's) entity_class \<Rightarrow> thread_id \<Rightarrow> ('v, 'm, 's) at_work \<Rightarrow> entity \<Rightarrow>
   (worker_error, ('v, 'm, 's) at_work) result" where
  "addPending ec th s e =
     rbind (migrateIn ec s e) (\<lambda>(x, w).
     rbind (on_bus (\<lambda>b. RegisterHandler b th e) x) (\<lambda>x1.
       Inr (on_clients (onWorkerEnter ec e) x1, w)))"

definition addPendingEntities :: "('v, 'm, 's) entity_class \<Rightarrow> thread_id \<Rightarrow> ('v, 'm, 's) at_work \<Rightarrow>
   (worker_error, ('v, 'm, 's) at_work) result" where
  "addPendingEntities ec th s =
     rbind (run_list (addPending ec th) s (toBeAdded (snd s))) (\<lambda>(x, w). Inr (x, w\<lparr>toBeAdded := []\<rparr>))"

definition removePending :: "('v, 'm, 's) entity_class \<Rightarrow> thread_id \<Rightarrow> ('v, 'm, 's) at_work \<Rightarrow> entity \<Rightarrow>
   (worker_error, ('v, 'm, 's) at_work) result" where
  "removePending ec th s e =
     rbind (migrateOut ec s e) (\<lambda>(x, w).
     rbind (on_bus (\<lambda>b. UnRegisterHandler b th e) x) (\<lambda>x1.
       Inr (on_clients (onWorkerExit ec e) x1, w\<lparr>entityRemovalList := entityRemovalList w @ [e]\<rparr>)))"

definition removePendingEntities :: "('v, 'm, 's) entity_class \<Rightarrow> thread_id \<Rightarrow> ('v, 'm, 's) at_work \<Rightarrow>
   (worker_error, ('v, 'm, 's) at_work) result" where
  "removePendingEntities ec th s =
     rbind (run_list (removePending ec th) s (toBeRemoved (snd s))) (\<lambda>(x, w). Inr (x, w\<lparr>toBeRemoved := []\<rparr>))"

definition breedPendingEntities :: "worker \<Rightarrow> worker" where
  "breedPendingEntities w = w\<lparr>entityBredList := entityBredList w @ toBeBred w, toBeBred := []\<rparr>"

text \<open>\<open>EntityUpdater\<close>: the update itself (its writes, posts and calls of \<open>scheduleForBred\<close>), then what its
  status asks for. The optional event for every updated agent is not modelled.\<close>

definition write_store :: "'v store \<Rightarrow> datum_addr \<times> 'v \<Rightarrow> 'v store" where
  "write_store h dv = (case dv of (d, v) \<Rightarrow> h(d := set_value v (h d)))"

definition entity_update :: "('v, 'm, 's) entity_class \<Rightarrow> thread_id \<Rightarrow> timeslice \<Rightarrow> ('v, 'm, 's) world \<Rightarrow> entity \<Rightarrow>
   (worker_error, ('v, 'm, 's) world \<times> update_status \<times> entity list) result" where
  "entity_update ec th now x e =
     (let r = update_fn ec (clients (the_bus x)) e now;
          x1 = x\<lparr>store := foldl write_store (store x) (r_writes r)\<rparr>
      in rbind (on_bus (run_posts th (r_clients r, r_posts r)) x1) (\<lambda>x2. Inr (x2, r_status r, r_bred r)))"

definition update_entity :: "('v, 'm, 's) entity_class \<Rightarrow> thread_id \<Rightarrow> timeslice \<Rightarrow> ('v, 'm, 's) at_work \<Rightarrow> entity \<Rightarrow>
   (worker_error, ('v, 'm, 's) at_work) result" where
  "update_entity ec th now s e =
     (case s of (x, w) \<Rightarrow>
        rbind (entity_update ec th now x e) (\<lambda>(x1, res, bred).
          let w1 = foldl scheduleForBred w bred in
          case status res of
            RS_DONE \<Rightarrow> Inr (x1, scheduleForRemoval w1 e)
          | RS_CONTINUE \<Rightarrow>
              Inr (manage (\<lambda>m. foldl beginManaging (foldl stopManaging m (toRemove res)) (toAdd res)) (x1, w1))
          | RS_CONTINUE_INCOMPLETE \<Rightarrow> Inr (x1, w1)))"

definition update_entities :: "('v, 'm, 's) entity_class \<Rightarrow> thread_id \<Rightarrow> timeslice \<Rightarrow> ('v, 'm, 's) at_work \<Rightarrow>
   (worker_error, ('v, 'm, 's) at_work) result" where
  "update_entities ec th now s = run_list (update_entity ec th now) s (managedEntities (snd s))"

definition tick_time :: "u32 \<Rightarrow> u32 \<Rightarrow> timeslice" where
  "tick_time tick msPerFrame = \<lparr>frame = tick, ms = tick * msPerFrame\<rparr>"

definition processMultiUpdateEntities :: "('v, 'm, 's) entity_class \<Rightarrow> u32 \<Rightarrow> thread_id \<Rightarrow> u32 \<Rightarrow> ('v, 'm, 's) at_work \<Rightarrow>
   (worker_error, ('v, 'm, 's) at_work) result" where
  "processMultiUpdateEntities ec msPerFrame th tick s =
     run_list (update_entity ec th (tick_time tick msPerFrame)) s (managedMultiUpdateEntities (snd s))"

definition advance_tick :: "worker \<Rightarrow> worker" where
  "advance_tick w =
     (let w1 = w\<lparr>currTick := currTick w + tickStep w\<rparr>
      in w1\<lparr>active := (endTick w1 = 0 \<or> currTick w1 < endTick w1)\<rparr>)"

definition perform_frame_tick :: "('v, 'm, 's) entity_class \<Rightarrow> u32 \<Rightarrow> thread_id \<Rightarrow> ('v, 'm, 's) at_work \<Rightarrow>
   (worker_error, ('v, 'm, 's) at_work) result" where
  "perform_frame_tick ec msPerFrame th s =
     rbind (addPendingEntities ec th s) (\<lambda>s1.
     rbind (update_entities ec th (tick_time (currTick (snd s1)) msPerFrame) s1) (\<lambda>s2.
     rbind (removePendingEntities ec th s2) (\<lambda>(x, w).
       Inr (x, advance_tick (breedPendingEntities w)))))"

definition perform_buff_flip :: "('v, 'm, 's) at_work \<Rightarrow> ('v, 'm, 's) at_work" where
  "perform_buff_flip s = manage flip_all s"

function migrateAllOut :: "('v, 'm, 's) entity_class \<Rightarrow> ('v, 'm, 's) at_work \<Rightarrow>
   (worker_error, ('v, 'm, 's) at_work) result" where
  "migrateAllOut ec s =
     (case managedEntities (snd s) of
        [] \<Rightarrow> Inr s
      | e # es \<Rightarrow> (case migrateOut ec s e of Inl err \<Rightarrow> Inl err | Inr s' \<Rightarrow> migrateAllOut ec s'))"
  by pat_completeness auto
termination
  by (relation "measure (\<lambda>(ec, s). length (managedEntities (snd s)))")
    (auto simp: migrateOut_def manage_def remEntity_def Let_def std_erase_def split: prod.splits if_splits)

declare migrateAllOut.simps [simp del]

section \<open>The thread of a worker\<close>

text \<open>
  One round of \<open>threaded_function_loop\<close> as the sequence of its steps; the tick itself only changes
  the tick counter that the tests read.
\<close>

datatype worker_action =
    AddPending | MultiUpdate | ThreadDispatch | FrameTick | BuffFlip
  | FrameTickWait | BuffFlipWait | AuraWait | MacroWait

definition loop_round :: "bool \<Rightarrow> bool \<Rightarrow> bool \<Rightarrow> worker \<Rightarrow> worker_action list" where
  "loop_round midT barriers macro w =
     (if midT \<and> currTick w = 0
      then [AddPending, MultiUpdate] @ (if barriers then [FrameTickWait] else []) else []) @
     [ThreadDispatch, FrameTick] @
     (if barriers then [FrameTickWait] else []) @ [BuffFlip] @
     (if barriers then [BuffFlipWait, AuraWait] else []) @
     (if macro \<and> extraActive (advance_tick w) (endTick w) then [MacroWait] else [])"

text \<open>The first \<open>n\<close> rounds: the loop ends when the worker is no longer active.\<close>

fun loop_rounds :: "nat \<Rightarrow> bool \<Rightarrow> bool \<Rightarrow> bool \<Rightarrow> worker \<Rightarrow> worker_action list list" where
  "loop_rounds 0 mt barriers macro w = []"
| "loop_rounds (Suc n) mt barriers macro w =
     (if active w then loop_round mt barriers macro w # loop_rounds n mt barriers macro (advance_tick w)
      else [])"

section \<open>What holds of a worker\<close>

definition entity_at :: "('v, 'm, 's) world \<Rightarrow> address \<Rightarrow> address \<Rightarrow> entity \<Rightarrow> bool" where
  "entity_at x w a e \<longleftrightarrow> e \<noteq> 0 \<and> currWorkerProvider x e = Some w \<and> handler_context (the_bus x) e = Some a"

definition pending_at :: "('v, 'm, 's) world \<Rightarrow> address \<Rightarrow> entity \<Rightarrow> bool" where
  "pending_at x a e \<longleftrightarrow> e \<noteq> 0 \<and> currWorkerProvider x e = None \<and>
     (handler_context (the_bus x) e = None \<or> handler_context (the_bus x) e = Some a)"

definition core_ok :: "('v, 'm, 's) entity_class \<Rightarrow> thread_id \<Rightarrow> address \<Rightarrow> ('v, 'm, 's) at_work \<Rightarrow> bool" where
  "core_ok ec th a s \<longleftrightarrow>
     (case s of (x, w) \<Rightarrow>
        attached (the_bus x) th a \<and> std_set (managedEntities w) \<and> std_set (managedMultiUpdateEntities w) \<and>
        set (managedMultiUpdateEntities w) = {e \<in> set (managedEntities w). multiUpdate ec e} \<and>
        std_set (managedData w) \<and> (\<forall>e \<in> set (managedEntities w). entity_at x (w_addr w) a e))"

definition worker_ok :: "('v, 'm, 's) entity_class \<Rightarrow> thread_id \<Rightarrow> address \<Rightarrow> ('v, 'm, 's) at_work \<Rightarrow> bool" where
  "worker_ok ec th a s \<longleftrightarrow> core_ok ec th a s \<and> distinct (toBeAdded (snd s)) \<and>
     (\<forall>e \<in> set (toBeAdded (snd s)). pending_at (fst s) a e) \<and> toBeRemoved (snd s) = []"

definition polite_entities :: "('v, 'm, 's) entity_class \<Rightarrow> bool" where
  "polite_entities ec \<longleftrightarrow> (\<forall>s e t. \<forall>p \<in> set (r_posts (update_fn ec s e t)). p_message p \<noteq> None)"

text \<open>The fields that only the scheduling operations change.\<close>

definition rest_of :: "worker \<Rightarrow> address \<times> entity list \<times> entity list \<times> entity list \<times> u32 \<times> bool \<times> u32 \<times> u32" where
  "rest_of w = (w_addr w, toBeAdded w, entityRemovalList w, entityBredList w, currTick w, active w,
     endTick w, tickStep w)"

lemma std_set_managed:
  "std_set (snd m) \<Longrightarrow> std_set (snd (beginManagingAll m ds)) \<and> std_set (snd (stopManagingAll m ds))"
  using std_beginManagingAll [of m ds] std_stopManagingAll [of m ds] by simp

lemma addPending_step:
  assumes ok: "core_ok ec th a (x, w)" and e: "pending_at x a e"
  shows "\<exists>x' w'. addPending ec th (x, w) e = Inr (x', w') \<and> core_ok ec th a (x', w') \<and>
    managedEntities w' = std_insert e (managedEntities w) \<and> toBeRemoved w' = toBeRemoved w \<and> rest_of w' = rest_of w \<and>
    currWorkerProvider x' = (currWorkerProvider x)(e := Some (w_addr w)) \<and>
    handler_context (the_bus x') = (handler_context (the_bus x))(e := Some a)"
proof -
  obtain c where c: "threadContext (the_bus x) th = Some a" "contexts (the_bus x) a = Some c" "threadId c = th"
    using ok by (auto simp: core_ok_def attached_def)
  let ?m = "beginManagingAll (store x, managedData w) (subscriptions ec e)"
  let ?w = "(addEntity ec w e)\<lparr>managedData := snd ?m\<rparr>"
  let ?x1 = "x\<lparr>currWorkerProvider := (currWorkerProvider x)(e := Some (w_addr w)), store := fst ?m\<rparr>"
  have w_addr: "w_addr (addEntity ec w e) = w_addr w" "managedData (addEntity ec w e) = managedData w"
    by (simp_all add: addEntity_def Let_def)
  have mig: "migrateIn ec (x, w) e = Inr (?x1, ?w)"
    using e by (simp add: migrateIn_def pending_at_def manage_def Let_def w_addr)
  obtain b where b: "RegisterHandler (the_bus x) th e = Inr b"
    "b = (the_bus x)\<lparr>handler_context := (handler_context (the_bus x))(e := Some a)\<rparr>"
  proof (cases "handler_context (the_bus x) e")
    case None
    with e c that show ?thesis
      by (simp add: RegisterHandler_def CheckThreadContext_def context_at_def pending_at_def)
  next
    case (Some a')
    then have "(handler_context (the_bus x))(e := Some a) = handler_context (the_bus x)" "a' = a"
      using e by (auto simp: pending_at_def)
    with Some e c that show ?thesis
      by (simp add: RegisterHandler_def CheckThreadContext_def context_at_def pending_at_def)
  qed
  let ?x2 = "on_clients (onWorkerEnter ec e) (?x1\<lparr>the_bus := b\<rparr>)"
  have "addPending ec th (x, w) e = Inr (?x2, ?w)"
    using mig b(1) by (simp add: addPending_def on_bus_def)
  moreover have "core_ok ec th a (?x2, ?w)"
    using ok e std_set_managed [of "(store x, managedData w)" "subscriptions ec e"] c
    by (auto simp: core_ok_def on_clients_def attached_def b(2) addEntity_def Let_def entity_at_def pending_at_def
        dest: std_set_insert)
  moreover have "managedEntities ?w = std_insert e (managedEntities w)" "toBeRemoved ?w = toBeRemoved w"
    "rest_of ?w = rest_of w"
    by (simp_all add: addEntity_def Let_def rest_of_def)
  moreover have "currWorkerProvider ?x2 = (currWorkerProvider x)(e := Some (w_addr w))"
    "handler_context (the_bus ?x2) = (handler_context (the_bus x))(e := Some a)"
    by (simp_all add: on_clients_def b(2))
  ultimately show ?thesis by blast
qed

lemma addPending_list:
  assumes "core_ok ec th a (x, w)" "distinct es" "\<forall>e \<in> set es. pending_at x a e"
  shows "\<exists>x' w'. run_list (addPending ec th) (x, w) es = Inr (x', w') \<and> core_ok ec th a (x', w') \<and>
    set (managedEntities w') = set (managedEntities w) \<union> set es \<and> toBeRemoved w' = toBeRemoved w \<and>
    rest_of w' = rest_of w \<and>
    currWorkerProvider x' = (\<lambda>e. if e \<in> set es then Some (w_addr w) else currWorkerProvider x e)"
  using assms
proof (induction es arbitrary: x w)
  case (Cons e es)
  obtain x1 w1 where s1: "addPending ec th (x, w) e = Inr (x1, w1)" "core_ok ec th a (x1, w1)"
    "managedEntities w1 = std_insert e (managedEntities w)" "toBeRemoved w1 = toBeRemoved w" "rest_of w1 = rest_of w"
    "currWorkerProvider x1 = (currWorkerProvider x)(e := Some (w_addr w))"
    "handler_context (the_bus x1) = (handler_context (the_bus x))(e := Some a)"
    using addPending_step [OF Cons.prems(1), of e] Cons.prems(3) by auto
  have "\<forall>f \<in> set es. pending_at x1 a f"
    using Cons.prems(2,3) s1(6,7) by (auto simp: pending_at_def)
  from Cons.IH [OF s1(2) _ this] Cons.prems(2) obtain x2 w2 where
    s2: "run_list (addPending ec th) (x1, w1) es = Inr (x2, w2)" "core_ok ec th a (x2, w2)"
    "set (managedEntities w2) = set (managedEntities w1) \<union> set es" "toBeRemoved w2 = toBeRemoved w1"
    "rest_of w2 = rest_of w1"
    "currWorkerProvider x2 = (\<lambda>e. if e \<in> set es then Some (w_addr w1) else currWorkerProvider x1 e)" by auto
  have "w_addr w1 = w_addr w" using s1(5) by (simp add: rest_of_def)
  with s1 s2 show ?case by (intro exI [of _ x2] exI [of _ w2]) (auto simp: fun_eq_iff)
qed (auto simp: fun_eq_iff)

text \<open>What the entities answer when they are updated one after the other, as the log that a tick is compared with: each with
  the status its own update returns in the state of the clients it finds. The entities that are done are those that have
  answered so.\<close>

fun update_trace :: "('v, 'm, 's) entity_class \<Rightarrow> thread_id \<Rightarrow> timeslice \<Rightarrow> ('v, 'm, 's) at_work \<Rightarrow> entity list \<Rightarrow> (entity \<times> ret_status) list" where
  "update_trace ec th now s [] = []"
| "update_trace ec th now s (e # es) =
     (e, status (r_status (update_fn ec (clients (the_bus (fst s))) e now))) #
       (case update_entity ec th now s e of Inl _ \<Rightarrow> [] | Inr s1 \<Rightarrow> update_trace ec th now s1 es)"

definition done_entities :: "(entity \<times> ret_status) list \<Rightarrow> entity list" where
  "done_entities tr = map fst (filter (\<lambda>(e, st). st = RS_DONE) tr)"

lemma done_entities_Cons [simp]: "done_entities ((e, st) # tr) = (if st = RS_DONE then [e] else []) @ done_entities tr"
  "done_entities [] = []"
  by (simp_all add: done_entities_def)

lemma done_entities_subseq: "subseq (done_entities tr) (map fst tr)"
  by (induction tr) auto

text \<open>Updating an entity leaves the managed entities and their registrations alone.\<close>

lemma update_entity_step:
  assumes pol: "polite_entities ec" and ok: "core_ok ec th a (x, w)" and e: "e \<in> set (managedEntities w)"
  shows "\<exists>x' w'. update_entity ec th now (x, w) e = Inr (x', w') \<and> core_ok ec th a (x', w') \<and>
    managedEntities w' = managedEntities w \<and>
    toBeRemoved w' = toBeRemoved w @ (if status (r_status (update_fn ec (clients (the_bus x)) e now)) = RS_DONE then [e] else []) \<and>
    rest_of w' = rest_of w \<and> toBeBred w' = toBeBred w @ r_bred (update_fn ec (clients (the_bus x)) e now) \<and>
    currWorkerProvider x' = currWorkerProvider x"
proof -
  let ?r = "update_fn ec (clients (the_bus x)) e now"
  let ?x1 = "x\<lparr>store := foldl write_store (store x) (r_writes ?r)\<rparr>"
  have at: "attached ((the_bus x)\<lparr>clients := r_clients ?r\<rparr>) th a"
    using ok by (auto simp: core_ok_def attached_def)
  then obtain b where b: "run_posts th (r_clients ?r, r_posts ?r) (the_bus x) = Inr b"
    using run_posts_succeeds [OF at, of "r_posts ?r"] pol by (auto simp: run_posts_def polite_entities_def)
  have f: "input_frame (the_bus x) b" using run_posts_frame [OF b] by simp
  let ?x2 = "?x1\<lparr>the_bus := b\<rparr>"
  have eu: "entity_update ec th now x e = Inr (?x2, r_status ?r, r_bred ?r)"
    using b by (simp add: entity_update_def on_bus_def Let_def)
  let ?w = "w\<lparr>toBeBred := toBeBred w @ r_bred ?r\<rparr>"
  have bred: "foldl scheduleForBred w xs = w\<lparr>toBeBred := toBeBred w @ xs\<rparr>" for xs
    by (induction xs arbitrary: w) (simp_all add: scheduleForBred_def)
  have ok2: "core_ok ec th a (?x2, ?w)"
    using ok f by (auto simp: core_ok_def entity_at_def input_frame_def intro: attached_frame [OF f])
  show ?thesis
  proof (cases "status (r_status ?r)")
    case RS_DONE
    with eu ok2 show ?thesis
      by (intro exI [of _ ?x2] exI [of _ "scheduleForRemoval ?w e"])
        (simp add: bred update_entity_def scheduleForRemoval_def core_ok_def rest_of_def)
  next
    case RS_CONTINUE
    let ?m = "foldl beginManaging (foldl stopManaging (store ?x2, managedData w) (toRemove (r_status ?r))) (toAdd (r_status ?r))"
    have "std_set (snd ?m)"
      using ok2 std_set_managed [of "stopManagingAll (store ?x2, managedData w) (toRemove (r_status ?r))"]
        std_set_managed [of "(store ?x2, managedData w)"]
      by (simp add: core_ok_def beginManagingAll_def stopManagingAll_def)
    with RS_CONTINUE eu ok2 show ?thesis
      by (intro exI [of _ "?x2\<lparr>store := fst ?m\<rparr>"] exI [of _ "?w\<lparr>managedData := snd ?m\<rparr>"])
        (simp add: bred update_entity_def manage_def Let_def core_ok_def entity_at_def rest_of_def)
  next
    case RS_CONTINUE_INCOMPLETE
    with eu ok2 show ?thesis
      by (intro exI [of _ ?x2] exI [of _ ?w]) (simp add: bred update_entity_def rest_of_def)
  qed
qed

lemma update_entity_list:
  assumes pol: "polite_entities ec" and "core_ok ec th a (x, w)" "set es \<subseteq> set (managedEntities w)"
  shows "\<exists>x' w'. run_list (update_entity ec th now) (x, w) es = Inr (x', w') \<and> core_ok ec th a (x', w') \<and>
    managedEntities w' = managedEntities w \<and> map fst (update_trace ec th now (x, w) es) = es \<and>
    toBeRemoved w' = toBeRemoved w @ done_entities (update_trace ec th now (x, w) es) \<and>
    rest_of w' = rest_of w \<and> prefix (toBeBred w) (toBeBred w') \<and> currWorkerProvider x' = currWorkerProvider x"
  using assms(2,3)
proof (induction es arbitrary: x w)
  case (Cons e es)
  obtain x1 w1 where s1: "update_entity ec th now (x, w) e = Inr (x1, w1)" "core_ok ec th a (x1, w1)"
    "managedEntities w1 = managedEntities w"
    "toBeRemoved w1 = toBeRemoved w @ (if status (r_status (update_fn ec (clients (the_bus x)) e now)) = RS_DONE then [e] else [])"
    "rest_of w1 = rest_of w" "prefix (toBeBred w) (toBeBred w1)" "currWorkerProvider x1 = currWorkerProvider x"
    using update_entity_step [OF pol Cons.prems(1), of e now] Cons.prems(2) by auto
  obtain x2 w2 where s2: "run_list (update_entity ec th now) (x1, w1) es = Inr (x2, w2)" "core_ok ec th a (x2, w2)"
    "managedEntities w2 = managedEntities w1" "map fst (update_trace ec th now (x1, w1) es) = es"
    "toBeRemoved w2 = toBeRemoved w1 @ done_entities (update_trace ec th now (x1, w1) es)"
    "rest_of w2 = rest_of w1" "prefix (toBeBred w1) (toBeBred w2)" "currWorkerProvider x2 = currWorkerProvider x1"
    using Cons.IH [OF s1(2)] Cons.prems(2) s1(3) by auto
  with s1 s2 prefix_order.trans [OF s1(6) s2(7)] show ?case
    by (intro exI [of _ x2] exI [of _ w2]) simp
qed (intro exI, auto)


lemma removePending_step:
  assumes ok: "core_ok ec th a (x, w)" and e: "e \<in> set (managedEntities w)"
  shows "\<exists>x' w'. removePending ec th (x, w) e = Inr (x', w') \<and> core_ok ec th a (x', w') \<and>
    managedEntities w' = std_erase e (managedEntities w) \<and>
    rest_of w' = rest_of (w\<lparr>entityRemovalList := entityRemovalList w @ [e]\<rparr>) \<and> toBeBred w' = toBeBred w \<and>
    toBeRemoved w' = toBeRemoved w \<and> currWorkerProvider x' = (currWorkerProvider x)(e := None)"
proof -
  obtain c where c: "threadContext (the_bus x) th = Some a" "contexts (the_bus x) a = Some c" "threadId c = th"
    using ok by (auto simp: core_ok_def attached_def)
  have at: "entity_at x (w_addr w) a e" using ok e by (simp add: core_ok_def)
  let ?m = "stopManagingAll (store x, managedData w) (subscriptions ec e)"
  let ?w = "(remEntity ec w e)\<lparr>managedData := snd ?m, entityRemovalList := entityRemovalList w @ [e]\<rparr>"
  let ?b = "(the_bus x)\<lparr>handler_context := (handler_context (the_bus x))(e := None)\<rparr>"
  let ?x = "on_clients (onWorkerExit ec e)
    (x\<lparr>currWorkerProvider := (currWorkerProvider x)(e := None), store := fst ?m, the_bus := ?b\<rparr>)"
  have w: "managedData (remEntity ec w e) = managedData w" "entityRemovalList (remEntity ec w e) = entityRemovalList w"
    by (simp_all add: remEntity_def Let_def)
  have "UnRegisterHandler (the_bus x) th e = Inr ?b"
    using c at by (simp add: UnRegisterHandler_def CheckThreadContext_def context_at_def entity_at_def)
  then have "removePending ec th (x, w) e = Inr (?x, ?w)"
    using at by (simp add: removePending_def migrateOut_def manage_def Let_def on_bus_def entity_at_def w)
  moreover have "core_ok ec th a (?x, ?w)"
    using ok e std_set_managed [of "(store x, managedData w)" "subscriptions ec e"] c
    by (auto simp: core_ok_def on_clients_def attached_def remEntity_def Let_def entity_at_def dest: std_set_erase)
  moreover have "managedEntities ?w = std_erase e (managedEntities w)" "toBeRemoved ?w = toBeRemoved w"
    "toBeBred ?w = toBeBred w" "rest_of ?w = rest_of (w\<lparr>entityRemovalList := entityRemovalList w @ [e]\<rparr>)"
    using e by (simp_all add: remEntity_def Let_def rest_of_def)
  moreover have "currWorkerProvider ?x = (currWorkerProvider x)(e := None)" by (simp add: on_clients_def)
  ultimately show ?thesis by blast
qed

lemma removePending_list:
  assumes "core_ok ec th a (x, w)" "distinct es" "set es \<subseteq> set (managedEntities w)"
  shows "\<exists>x' w'. run_list (removePending ec th) (x, w) es = Inr (x', w') \<and> core_ok ec th a (x', w') \<and>
    set (managedEntities w') = set (managedEntities w) - set es \<and>
    rest_of w' = rest_of (w\<lparr>entityRemovalList := entityRemovalList w @ es\<rparr>) \<and> toBeBred w' = toBeBred w \<and>
    currWorkerProvider x' = (\<lambda>e. if e \<in> set es then None else currWorkerProvider x e)"
  using assms
proof (induction es arbitrary: x w)
  case (Cons e es)
  obtain x1 w1 where s1: "removePending ec th (x, w) e = Inr (x1, w1)" "core_ok ec th a (x1, w1)"
    "managedEntities w1 = std_erase e (managedEntities w)"
    "rest_of w1 = rest_of (w\<lparr>entityRemovalList := entityRemovalList w @ [e]\<rparr>)" "toBeBred w1 = toBeBred w"
    "currWorkerProvider x1 = (currWorkerProvider x)(e := None)"
    using removePending_step [OF Cons.prems(1), of e] Cons.prems(3) by auto
  have d: "distinct (managedEntities w)" using Cons.prems(1) by (simp add: core_ok_def)
  then have m: "set (managedEntities w1) = set (managedEntities w) - {e}" using s1(3) by simp
  then have "set es \<subseteq> set (managedEntities w1)" using Cons.prems(2,3) by auto
  from Cons.IH [OF s1(2) _ this] Cons.prems(2) obtain x2 w2 where
    s2: "run_list (removePending ec th) (x1, w1) es = Inr (x2, w2)" "core_ok ec th a (x2, w2)"
    "set (managedEntities w2) = set (managedEntities w1) - set es"
    "rest_of w2 = rest_of (w1\<lparr>entityRemovalList := entityRemovalList w1 @ es\<rparr>)" "toBeBred w2 = toBeBred w1"
    "currWorkerProvider x2 = (\<lambda>e. if e \<in> set es then None else currWorkerProvider x1 e)" by auto
  have "rest_of w2 = rest_of (w\<lparr>entityRemovalList := entityRemovalList w @ e # es\<rparr>)"
    using s1(4) s2(4) by (simp add: rest_of_def)
  moreover have "set (managedEntities w2) = set (managedEntities w) - set (e # es)" using s2(3) m by auto
  ultimately show ?case
    using s1 s2 by (intro exI [of _ x2] exI [of _ w2]) (auto simp: fun_eq_iff)
qed (auto simp: rest_of_def)


lemma advance_tick_simps [simp]:
  "w_addr (advance_tick w) = w_addr w" "managedEntities (advance_tick w) = managedEntities w"
  "managedMultiUpdateEntities (advance_tick w) = managedMultiUpdateEntities w" "managedData (advance_tick w) = managedData w"
  "toBeAdded (advance_tick w) = toBeAdded w" "toBeRemoved (advance_tick w) = toBeRemoved w"
  "entityRemovalList (advance_tick w) = entityRemovalList w" "currTick (advance_tick w) = currTick w + tickStep w"
  "tickStep (advance_tick w) = tickStep w" "endTick (advance_tick w) = endTick w" "toBeBred (advance_tick w) = toBeBred w"
  "entityBredList (advance_tick w) = entityBredList w"
  "active (advance_tick w) \<longleftrightarrow> endTick w = 0 \<or> currTick w + tickStep w < endTick w"
  by (simp_all add: advance_tick_def Let_def)

lemma std_set_fold_insert:
  "std_set s \<Longrightarrow> std_set (foldl (\<lambda>s d. std_insert d s) s ds) \<and> set (foldl (\<lambda>s d. std_insert d s) s ds) = set s \<union> set ds"
  by (induction ds arbitrary: s) (auto dest: std_set_insert)

lemma update_status_fold:
  assumes "std_set r"
  shows "set (fst (foldl (\<lambda>(r, a) d. if d \<in> set r then (std_erase d r, a) else (r, std_insert d a)) (r, a) ds)) =
      set r - set ds \<and>
    set (snd (foldl (\<lambda>(r, a) d. if d \<in> set r then (std_erase d r, a) else (r, std_insert d a)) (r, a) ds)) =
      set a \<union> {d \<in> set ds. d \<notin> set r \<or> 1 < count_list ds d}"
  using assms
proof (induction ds arbitrary: r a)
  case (Cons d ds)
  have c: "count_list ds x = 0 \<longleftrightarrow> x \<notin> set ds" for x by (simp add: count_list_0_iff)
  show ?case
  proof (cases "d \<in> set r")
    case True
    have "std_set (std_erase d r)" by (rule std_set_erase [OF Cons.prems])
    from Cons.IH [OF this, of a] Cons.prems True c show ?thesis
      by (auto simp: neq0_conv [symmetric] simp del: neq0_conv)
  next
    case False
    from Cons.IH [OF Cons.prems, of "std_insert d a"] False c show ?thesis by auto
  qed
qed simp

lemma subseq_distinct_set: "subseq xs ys \<Longrightarrow> distinct ys \<Longrightarrow> distinct xs \<and> set xs \<subseteq> set ys"
  by (induction rule: list_emb.induct) auto

lemma addPending_bred:
  assumes "run_list (addPending ec th) (x, w) es = Inr (x1, w1)"
  shows "toBeBred w1 = toBeBred w"
  using assms by (rule run_list_invariant [where P = "\<lambda>s. toBeBred (snd s) = toBeBred w", rotated 2, of _ "(x, w)" _ "(x1, w1)", simplified])
    (auto simp: addPending_def migrateIn_def manage_def Let_def addEntity_def rbind_Inr split: prod.splits if_splits)

lemma trace_split:
  assumes "distinct (map fst tr)"
  shows "distinct (done_entities tr)" "set (done_entities tr) \<subseteq> set (map fst tr)" "e \<in> set (done_entities tr) \<longleftrightarrow> (e, RS_DONE) \<in> set tr"
    "set (map fst tr) - set (done_entities tr) = {e. \<exists>st. (e, st) \<in> set tr \<and> st \<noteq> RS_DONE}"
proof -
  show "distinct (done_entities tr)" "set (done_entities tr) \<subseteq> set (map fst tr)"
    using subseq_distinct_set [OF done_entities_subseq assms] by simp_all
  have m: "e \<in> set (done_entities tr) \<longleftrightarrow> (e, RS_DONE) \<in> set tr" for e by (force simp: done_entities_def)
  then show "e \<in> set (done_entities tr) \<longleftrightarrow> (e, RS_DONE) \<in> set tr" .
  show "set (map fst tr) - set (done_entities tr) = {e. \<exists>st. (e, st) \<in> set tr \<and> st \<noteq> RS_DONE}"
  proof (intro set_eqI iffI)
    fix x assume "x \<in> {e. \<exists>st. (e, st) \<in> set tr \<and> st \<noteq> RS_DONE}"
    then obtain st where st: "(x, st) \<in> set tr" "st \<noteq> RS_DONE" by blast
    then have "(x, RS_DONE) \<notin> set tr" using eq_key_imp_eq_value [OF assms] by blast
    with st(1) show "x \<in> set (map fst tr) - set (done_entities tr)" by (force simp: m)
  qed (auto simp: m)
qed

section \<open>A concrete worker\<close>

text \<open>Entities that are done when their number is even, and do nothing else.\<close>

definition example_class :: "(nat, nat, unit) entity_class" where
  "example_class =
     \<lparr>update_fn = (\<lambda>s e t. \<lparr>r_status = newUpdateStatus (if even e then RS_DONE else RS_CONTINUE) [] [],
                             r_clients = s, r_writes = [], r_posts = [], r_bred = []\<rparr>),
      subscriptions = (\<lambda>e. [e]), startTime = (\<lambda>e. of_nat e), multiUpdate = (\<lambda>e. False), isAgent = (\<lambda>e. True),
      nonspatial = (\<lambda>e. False), parentEntity = (\<lambda>e. 0), onWorkerEnter = (\<lambda>e s. s), onWorkerExit = (\<lambda>e s. s),
      registerChild = (\<lambda>p e s. s), unregisterChild = (\<lambda>p e s. s)\<rparr>"

definition example_world :: "(nat, nat, unit) world" where
  "example_world =
     \<lparr>store = (\<lambda>d. newBuffered 0),
      the_bus = (newBus ())\<lparr>contexts := [10 \<mapsto> newContext 1 11 True], threadContext := [1 \<mapsto> 10],
                           threadContexts := [10]\<rparr>,
      currWorkerProvider = (\<lambda>e. None)\<rparr>"

definition example_worker :: worker where
  "example_worker = (newWorker 50 100 1)\<lparr>toBeAdded := [4, 3]\<rparr>"

lemma polite_example: "polite_entities example_class"
  by (simp add: polite_entities_def example_class_def)

lemma example_trace:
  assumes "map fst (update_trace example_class th now s es) = es"
  shows "update_trace example_class th now s es = map (\<lambda>e. (e, if even e then RS_DONE else RS_CONTINUE)) es"
    "done_entities (update_trace example_class th now s es) = filter even es"
proof -
  have u: "status (r_status (update_fn example_class c e now)) = (if even e then RS_DONE else RS_CONTINUE)" for c e
    by (simp add: example_class_def newUpdateStatus_def Let_def)
  have "\<forall>(e, st) \<in> set (update_trace example_class th now s es). st = (if even e then RS_DONE else RS_CONTINUE)"
  proof (induction es arbitrary: s)
    case (Cons e es)
    show ?case
    proof (cases "update_entity example_class th now s e")
      case (Inr r) then show ?thesis using Cons.IH [of r] by (auto simp: u)
    qed (auto simp: u)
  qed simp
  then have "update_trace example_class th now s es =
      map (\<lambda>e. (e, if even e then RS_DONE else RS_CONTINUE)) (map fst (update_trace example_class th now s es))"
    by (auto simp: case_prod_beta comp_def intro!: map_idI [symmetric] prod_eqI)
  then show t: "update_trace example_class th now s es = map (\<lambda>e. (e, if even e then RS_DONE else RS_CONTINUE)) es"
    using assms by simp
  show "done_entities (update_trace example_class th now s es) = filter even es"
    unfolding t by (induction es) simp_all
qed

lemma example_worker_ok: "worker_ok example_class 1 10 (example_world, example_worker)"
  by (simp add: worker_ok_def core_ok_def attached_def pending_at_def example_world_def example_worker_def
      newWorker_def newBus_def newContext_def example_class_def)

section \<open>Properties\<close>



text \<open>
  the lists of an update status: to be removed is what was in the old values and is not in the new,
  to be added what is in the new and was not in the old (or is named twice in the new).
\<close>

theorem update_status_difference:
  "set (toRemove (newUpdateStatus st old new)) = set old - set new \<and>
   set (toAdd (newUpdateStatus st old new)) = (set new - set old) \<union> {d \<in> set new. 1 < count_list new d}"
proof -
  have r0: "std_set (foldl (\<lambda>s d. std_insert d s) [] old)" "set (foldl (\<lambda>s d. std_insert d s) [] old) = set old"
    using std_set_fold_insert [of "[]" old] by simp_all
  from update_status_fold [OF r0(1), of "[]" new] r0(2) show ?thesis
    by (auto simp: newUpdateStatus_def Let_def case_prod_beta)
qed

end
