(* ===== verification/Work_Groups.thy ===== *)
theory Work_Groups
  imports Workers Flexi_Barrier
begin

text \<open>
  Groups of workers and their manager: \<open>shared/workers/WorkGroup.cpp\<close> and \<open>WorkGroupManager.cpp\<close>.
  A phase of a tick returns, beside the new state, what the main thread contributes to the barrier
  of the phase; the workers' own arrivals come from their threads (\<open>Workers\<close>). The periodic loader,
  the partition manager and the aura manager are not part of the model; registering an agent
  with the aura manager is recorded.
\<close>

section \<open>State\<close>

datatype run_mode = ShortTerm | MidTerm | LongTerm

datatype assignment_strategy = ASSIGN_ROUNDROBIN | ASSIGN_SMALLEST

record sim_config =
  run_mode :: run_mode
  assignment :: assignment_strategy
  baseGranMS :: u32

text \<open>What the groups share: the world of the workers, the agents waiting for their start time, the
  set of all agents, and what has been handed to other parts of the program.\<close>

record ('v, 'm, 's) pool =
  the_world :: "('v, 'm, 's) world"
  pending_source :: "entity list"
  entity_dest :: "entity list"
  activeAgents :: "entity list"
  auraRegistered :: "entity list"
  deleted :: "entity list"

record work_group =
  wgNum :: nat
  numWorkers :: u32
  numSimTicks :: u32
  groupStep :: u32
  tickOffset :: u32
  started :: bool
  currTimeTick :: u32
  nextTimeTick :: u32
  hasLoader :: bool
  workers :: "worker list"
  nextWorkerID :: nat
  loaderEntities :: "entity list"
  nextLoaderIdx :: nat
  shared_barriers :: bool
  macro_barrier :: bool
  simulationStart :: u32

type_synonym ('v, 'm, 's) grouped = "('v, 'm, 's) pool \<times> work_group"

definition newGroup :: "nat \<Rightarrow> u32 \<Rightarrow> u32 \<Rightarrow> u32 \<Rightarrow> u32 \<Rightarrow> work_group" where
  "newGroup num nWorkers simTicks step simStart =
     \<lparr>wgNum = num, numWorkers = nWorkers, numSimTicks = simTicks, groupStep = step, tickOffset = 0,
      started = False, currTimeTick = 0, nextTimeTick = 0, hasLoader = False, workers = [],
      nextWorkerID = 0, loaderEntities = [], nextLoaderIdx = 0, shared_barriers = False,
      macro_barrier = False, simulationStart = simStart\<rparr>"

section \<open>Operations of a group\<close>

definition initializeBarriers :: "work_group \<Rightarrow> work_group" where
  "initializeBarriers g =
     (let g1 = g\<lparr>shared_barriers := True\<rparr> in if groupStep g > 1 then g1\<lparr>macro_barrier := True\<rparr> else g1)"

text \<open>The addresses of the new workers are the allocator's.\<close>

definition initWorkers :: "(nat \<Rightarrow> address) \<Rightarrow> bool \<Rightarrow> work_group \<Rightarrow> work_group" where
  "initWorkers alloc ld g =
     g\<lparr>hasLoader := ld,
       workers := workers g @ map (\<lambda>i. newWorker (alloc i) (numSimTicks g) (groupStep g)) [0..<unat (numWorkers g)]\<rparr>"

definition startAll :: "work_group \<Rightarrow> (worker_error, work_group) result" where
  "startAll g =
     guard AlreadyStarted (\<not> started g)
       (Inr (g\<lparr>started := True, nextTimeTick := 0, currTimeTick := 0, tickOffset := 0,
               workers := map (worker_start (simulationStart g)) (workers g)\<rparr>))"

fun least_loaded_from :: "nat option \<Rightarrow> nat \<Rightarrow> worker list \<Rightarrow> worker list \<Rightarrow> nat option" where
  "least_loaded_from res i ws [] = res"
| "least_loaded_from res i ws (w # rest) =
     least_loaded_from
       (case res of
          None \<Rightarrow> Some i
        | Some r \<Rightarrow> if getAgentSize True w < getAgentSize True (ws ! r) then Some i else Some r)
       (i + 1) ws rest"

definition getLeastLoadedWorker :: "worker list \<Rightarrow> nat option" where
  "getLeastLoadedWorker ws = least_loaded_from None 0 ws ws"

definition assign_to :: "work_group \<Rightarrow> nat \<Rightarrow> entity \<Rightarrow> work_group" where
  "assign_to g i e = g\<lparr>workers := (workers g)[i := scheduleForAddition (workers g ! i) e]\<rparr>"

definition assignAWorker :: "sim_config \<Rightarrow> ('v, 'm, 's) entity_class \<Rightarrow> ('v, 'm, 's) grouped \<Rightarrow> entity \<Rightarrow>
   (worker_error, ('v, 'm, 's) grouped) result" where
  "assignAWorker cfg ec s e =
     (case s of (p, g) \<Rightarrow>
        let p1 = (if run_mode cfg = ShortTerm \<and> isAgent ec e \<and> \<not> nonspatial ec e
                  then p\<lparr>auraRegistered := auraRegistered p @ [e]\<rparr> else p)
        in rbind (case assignment cfg of
                    ASSIGN_ROUNDROBIN \<Rightarrow>
                      guard OutOfRange (nextWorkerID g < length (workers g)) (Inr (assign_to g (nextWorkerID g) e))
                  | ASSIGN_SMALLEST \<Rightarrow>
                      rbind (deref NullWorker (getLeastLoadedWorker (workers g))) (\<lambda>i. Inr (assign_to g i e)))
             (\<lambda>g1. Inr (p1, g1\<lparr>nextWorkerID := (nextWorkerID g1 + 1) mod length (workers g1)\<rparr>)))"

definition assignWorker :: "work_group \<Rightarrow> entity \<Rightarrow> u32 \<Rightarrow> bool \<times> work_group" where
  "assignWorker g e workerId =
     (if unat workerId \<ge> length (workers g) then (False, g)
      else (True, assign_to g (unat workerId) e))"

definition scheduleEntity :: "('v, 'm, 's) entity_class \<Rightarrow> ('v, 'm, 's) grouped \<Rightarrow> entity \<Rightarrow>
   (worker_error, ('v, 'm, 's) grouped) result" where
  "scheduleEntity ec s e =
     (case s of (p, g) \<Rightarrow>
        guard NoLoader (hasLoader g)
          (Inr (p\<lparr>pending_source := pq_push (cmp_agent_start ec) e (pending_source p)\<rparr>, g)))"

definition registerLoaderEntity :: "work_group \<Rightarrow> entity \<Rightarrow> (worker_error, work_group) result" where
  "registerLoaderEntity g e =
     guard NullLoader (e \<noteq> 0) (Inr (g\<lparr>loaderEntities := loaderEntities g @ [e]\<rparr>))"

definition loadPerson :: "('v, 'm, 's) entity_class \<Rightarrow> ('v, 'm, 's) grouped \<Rightarrow> entity \<Rightarrow>
   (worker_error, ('v, 'm, 's) grouped) result" where
  "loadPerson ec s e =
     (case s of (p, g) \<Rightarrow>
        if e \<noteq> 0 then
          guard OutOfRange (nextLoaderIdx g < length (loaderEntities g))
            (Inr (p\<lparr>the_world := on_clients (registerChild ec (loaderEntities g ! nextLoaderIdx g) e) (the_world p)\<rparr>,
                  g\<lparr>nextLoaderIdx := (nextLoaderIdx g + 1) mod length (loaderEntities g)\<rparr>))
        else Inr (p, g))"

text \<open>One entity that is due, taken out of the queue.\<close>

definition stage_entity :: "sim_config \<Rightarrow> ('v, 'm, 's) entity_class \<Rightarrow> ('v, 'm, 's) grouped \<Rightarrow> entity \<Rightarrow>
   (worker_error, ('v, 'm, 's) grouped) result" where
  "stage_entity cfg ec s e =
     (if run_mode cfg = MidTerm then
        rbind (loadPerson ec s e) (\<lambda>(p, g). Inr (p\<lparr>activeAgents := activeAgents p @ [e]\<rparr>, g))
      else if e \<in> set (entity_dest (fst s)) then Inr s
      else assignAWorker cfg ec ((fst s)\<lparr>entity_dest := std_insert e (entity_dest (fst s))\<rparr>, snd s) e)"

text \<open>The loop over the queue; the queue is an argument of its own, so that what it does to an
  entity cannot touch it.\<close>

fun stage_loop :: "sim_config \<Rightarrow> ('v, 'm, 's) entity_class \<Rightarrow> u32 \<Rightarrow> entity list \<Rightarrow> ('v, 'm, 's) grouped \<Rightarrow>
   (worker_error, ('v, 'm, 's) grouped) result" where
  "stage_loop cfg ec nextTickMS [] s = Inr ((fst s)\<lparr>pending_source := []\<rparr>, snd s)"
| "stage_loop cfg ec nextTickMS (e # q) s =
     (if e = 0 then Inl NullEntity
      else if startTime ec e \<le> nextTickMS
      then rbind (stage_entity cfg ec s e) (stage_loop cfg ec nextTickMS q)
      else Inr ((fst s)\<lparr>pending_source := e # q\<rparr>, snd s))"

definition schedule_bred :: "('v, 'm, 's) entity_class \<Rightarrow> ('v, 'm, 's) grouped \<Rightarrow> nat \<Rightarrow>
   (worker_error, ('v, 'm, 's) grouped) result" where
  "schedule_bred ec s i =
     rbind (run_list (scheduleEntity ec) s (entityBredList (workers (snd s) ! i))) (\<lambda>(p, g).
       Inr (p, g\<lparr>workers := (workers g)[i := (workers g ! i)\<lparr>entityBredList := []\<rparr>]\<rparr>))"

definition stageEntities :: "sim_config \<Rightarrow> ('v, 'm, 's) entity_class \<Rightarrow> ('v, 'm, 's) grouped \<Rightarrow>
   (worker_error, ('v, 'm, 's) grouped) result" where
  "stageEntities cfg ec s =
     (if \<not> hasLoader (snd s) then Inr s
      else rbind (run_list (schedule_bred ec) s [0..<length (workers (snd s))]) (\<lambda>s1.
             stage_loop cfg ec (nextTimeTick (snd s1) * baseGranMS cfg) (pending_source (fst s1)) s1))"

text \<open>Collected entities are agents to be deleted later (\<open>removed\<close>), all others are deleted at once.\<close>

definition collect_entity :: "('v, 'm, 's) entity_class \<Rightarrow> bool \<Rightarrow> ('v, 'm, 's) pool \<times> entity list \<Rightarrow> entity \<Rightarrow>
   ('v, 'm, 's) pool \<times> entity list" where
  "collect_entity ec keep s e =
     (case s of (p, removed) \<Rightarrow>
        let p1 = p\<lparr>entity_dest := std_erase e (entity_dest p)\<rparr>;
            p2 = (if parentEntity ec e \<noteq> 0
                  then p1\<lparr>the_world := on_clients (unregisterChild ec (parentEntity ec e) e) (the_world p1)\<rparr> else p1)
        in if keep \<and> isAgent ec e then (p2, std_insert e removed)
           else (p2\<lparr>deleted := deleted p2 @ [e]\<rparr>, removed))"

definition collectRemovedEntities :: "('v, 'm, 's) entity_class \<Rightarrow> bool \<Rightarrow> ('v, 'm, 's) grouped \<times> entity list \<Rightarrow>
   ('v, 'm, 's) grouped \<times> entity list" where
  "collectRemovedEntities ec keep s =
     (case s of ((p, g), removed) \<Rightarrow>
        if \<not> hasLoader g then s
        else
          (let (p1, removed1) = foldl (collect_entity ec keep) (p, removed) (concat (map entityRemovalList (workers g)))
           in ((p1, g\<lparr>workers := map (\<lambda>w. w\<lparr>entityRemovalList := []\<rparr>) (workers g)\<rparr>), removed1)))"

definition on_worker :: "(('v, 'm, 's) at_work \<Rightarrow> (worker_error, ('v, 'm, 's) at_work) result) \<Rightarrow>
   ('v, 'm, 's) grouped \<Rightarrow> nat \<Rightarrow> (worker_error, ('v, 'm, 's) grouped) result" where
  "on_worker f s i =
     (case s of (p, g) \<Rightarrow>
        rbind (f (the_world p, workers g ! i)) (\<lambda>(x, w).
          Inr (p\<lparr>the_world := x\<rparr>, g\<lparr>workers := (workers g)[i := w]\<rparr>)))"

definition each_worker :: "(('v, 'm, 's) at_work \<Rightarrow> (worker_error, ('v, 'm, 's) at_work) result) \<Rightarrow>
   ('v, 'm, 's) grouped \<Rightarrow> (worker_error, ('v, 'm, 's) grouped) result" where
  "each_worker f s = run_list (on_worker f) s [0..<length (workers (snd s))]"

definition on_behalf :: "work_group \<Rightarrow> arrival list" where
  "on_behalf g = (if shared_barriers g then [Contribute (of_nat (length (workers g)))] else [])"

definition waitFrameTick :: "sim_config \<Rightarrow> ('v, 'm, 's) entity_class \<Rightarrow> thread_id \<Rightarrow> bool \<Rightarrow> ('v, 'm, 's) grouped \<Rightarrow>
   (worker_error, ('v, 'm, 's) grouped \<times> arrival list) result" where
  "waitFrameTick cfg ec th singleThreaded s =
     guard NotStarted (started (snd s))
       (if tickOffset (snd s) = 0 then
          rbind (if singleThreaded then each_worker (perform_frame_tick ec (baseGranMS cfg) th) s else Inr s)
            (\<lambda>(p, g). Inr ((p, g\<lparr>currTimeTick := nextTimeTick g, nextTimeTick := nextTimeTick g + groupStep g\<rparr>), []))
        else Inr (s, on_behalf (snd s)))"

definition waitFlipBuffers :: "sim_config \<Rightarrow> ('v, 'm, 's) entity_class \<Rightarrow> bool \<Rightarrow> ('v, 'm, 's) grouped \<times> entity list \<Rightarrow>
   (worker_error, (('v, 'm, 's) grouped \<times> entity list) \<times> arrival list) result" where
  "waitFlipBuffers cfg ec singleThreaded s =
     (case s of (pg, removed) \<Rightarrow>
        if tickOffset (snd pg) = 0 then
          rbind (if singleThreaded then each_worker (\<lambda>s. Inr (perform_buff_flip s)) pg else Inr pg) (\<lambda>pg1.
          rbind (stageEntities cfg ec pg1) (\<lambda>pg2.
            Inr (collectRemovedEntities ec True (pg2, removed), [])))
        else Inr (s, on_behalf (snd pg)))"

definition waitAuraManager :: "work_group \<Rightarrow> arrival list" where
  "waitAuraManager g = (if tickOffset g = 0 then [] else on_behalf g)"

text \<open>The result tells whether the group waits at its macro barrier.\<close>

definition waitMacroTimeTick :: "work_group \<Rightarrow> work_group \<times> bool" where
  "waitMacroTimeTick g =
     (let waits = (tickOffset g = 1 \<and> macro_barrier g);
          g1 = (if tickOffset g = 1 then g
                else if tickOffset g = 0 then g\<lparr>tickOffset := groupStep g\<rparr> else g)
      in (g1\<lparr>tickOffset := tickOffset g1 - 1\<rparr>, waits))"

definition group_multi_update :: "sim_config \<Rightarrow> ('v, 'm, 's) entity_class \<Rightarrow> thread_id \<Rightarrow>
   ('v, 'm, 's) grouped \<times> entity list \<Rightarrow> nat \<Rightarrow> (worker_error, ('v, 'm, 's) grouped \<times> entity list) result" where
  "group_multi_update cfg ec th s i =
     rbind (on_worker (\<lambda>xw. rbind (processMultiUpdateEntities ec (baseGranMS cfg) th (currTimeTick (snd (fst s))) xw)
                               (removePendingEntities ec th)) (fst s) i) (\<lambda>pg.
       Inr (collectRemovedEntities ec True (pg, snd s)))"

definition processMultiUpdateGroup :: "sim_config \<Rightarrow> ('v, 'm, 's) entity_class \<Rightarrow> thread_id \<Rightarrow>
   ('v, 'm, 's) grouped \<times> entity list \<Rightarrow> (worker_error, ('v, 'm, 's) grouped \<times> entity list) result" where
  "processMultiUpdateGroup cfg ec th s =
     run_list (group_multi_update cfg ec th) s [0..<length (workers (snd (fst s)))]"


section \<open>The manager\<close>

datatype mgr_state = INIT | CREATE | BARRIERS | STARTED

record wg_manager =
  currState :: mgr_state
  registeredWorkGroups :: "work_group list"
  currBarrierCount :: u32
  singleThreaded :: bool
  frameTickBarr :: "barrier option"
  buffFlipBarr :: "barrier option"
  msgBusBarr :: "barrier option"

text \<open>The removed entities are the local variable of \<open>waitAllGroups\<close>.\<close>

type_synonym ('v, 'm, 's) managed_groups = "(('v, 'm, 's) pool \<times> entity list) \<times> wg_manager"

definition newManager :: wg_manager where
  "newManager = \<lparr>currState = INIT, registeredWorkGroups = [], currBarrierCount = 1, singleThreaded = False,
     frameTickBarr = None, buffFlipBarr = None, msgBusBarr = None\<rparr>"

definition newWorkGroup :: "wg_manager \<Rightarrow> u32 \<Rightarrow> u32 \<Rightarrow> u32 \<Rightarrow> u32 \<Rightarrow> (worker_error, wg_manager) result" where
  "newWorkGroup m nWorkers simTicks step simStart =
     guard WrongState (currState m = INIT \<or> currState m = CREATE)
       (let g = newGroup (length (registeredWorkGroups m)) nWorkers simTicks step simStart
        in Inr (m\<lparr>currState := CREATE, currBarrierCount := currBarrierCount m + nWorkers,
                  registeredWorkGroups := registeredWorkGroups m @ [g]\<rparr>))"

definition setSingleThreadMode :: "wg_manager \<Rightarrow> bool \<Rightarrow> (worker_error, wg_manager) result" where
  "setSingleThreadMode m enable = guard WrongState (currState m = INIT) (Inr (m\<lparr>singleThreaded := enable\<rparr>))"

definition on_groups :: "(work_group \<Rightarrow> work_group) \<Rightarrow> wg_manager \<Rightarrow> wg_manager" where
  "on_groups f m = m\<lparr>registeredWorkGroups := map f (registeredWorkGroups m)\<rparr>"

text \<open>The three barriers have the same count; a count that wrapped to zero makes the constructor throw.\<close>

definition initAllGroups :: "address \<Rightarrow> address \<Rightarrow> ('m, 's) bus \<Rightarrow> thread_id \<Rightarrow> wg_manager \<Rightarrow>
   (worker_error, ('m, 's) bus \<times> wg_manager) result" where
  "initAllGroups a pub b th m =
     (case RegisterMainThread a pub b th of
        Inl e \<Rightarrow> Inl (BusError e)
      | Inr b1 \<Rightarrow>
          guard WrongState (currState m = CREATE)
            (let m1 = m\<lparr>currState := BARRIERS\<rparr> in
             if \<not> singleThreaded m1 then
               (case newFlexiBarrier (currBarrierCount m1) of
                  Inl _ \<Rightarrow> Inl ZeroBarrier
                | Inr fb \<Rightarrow>
                    Inr (b1, on_groups initializeBarriers
                      (m1\<lparr>frameTickBarr := Some fb, buffFlipBarr := Some fb, msgBusBarr := Some fb\<rparr>)))
             else Inr (b1, m1)))"

definition initAllWorkers :: "(nat \<Rightarrow> nat \<Rightarrow> address) \<Rightarrow> (nat \<Rightarrow> bool) \<Rightarrow> wg_manager \<Rightarrow> wg_manager" where
  "initAllWorkers alloc ld m = on_groups (\<lambda>g. initWorkers (alloc (wgNum g)) (ld (wgNum g)) g) m"

definition start_group :: "work_group list \<Rightarrow> work_group \<Rightarrow> (worker_error, work_group list) result" where
  "start_group gs g = rbind (startAll g) (\<lambda>g1. Inr (gs @ [g1]))"

definition startAllWorkGroups :: "wg_manager \<Rightarrow> (worker_error, wg_manager) result" where
  "startAllWorkGroups m =
     guard WrongState (currState m = BARRIERS)
       (rbind (run_list start_group [] (registeredWorkGroups m)) (\<lambda>gs.
          Inr (m\<lparr>currState := STARTED, registeredWorkGroups := gs\<rparr>)))"

text \<open>One phase over all groups; the arrivals of the main thread are collected in order.\<close>

definition group_phase ::
  "(('v, 'm, 's) grouped \<times> entity list \<Rightarrow> (worker_error, (('v, 'm, 's) grouped \<times> entity list) \<times> arrival list) result) \<Rightarrow>
   ('v, 'm, 's) managed_groups \<times> arrival list \<Rightarrow> nat \<Rightarrow>
   (worker_error, ('v, 'm, 's) managed_groups \<times> arrival list) result" where
  "group_phase f s i =
     (case s of (((p, removed), m), as) \<Rightarrow>
        rbind (f ((p, registeredWorkGroups m ! i), removed)) (\<lambda>(((p1, g), removed1), as1).
          Inr (((p1, removed1), m\<lparr>registeredWorkGroups := (registeredWorkGroups m)[i := g]\<rparr>), as @ as1)))"

definition all_groups ::
  "(('v, 'm, 's) grouped \<times> entity list \<Rightarrow> (worker_error, (('v, 'm, 's) grouped \<times> entity list) \<times> arrival list) result) \<Rightarrow>
   ('v, 'm, 's) managed_groups \<Rightarrow> (worker_error, ('v, 'm, 's) managed_groups \<times> arrival list) result" where
  "all_groups f s = run_list (group_phase f) (s, []) [0..<length (registeredWorkGroups (snd s))]"

definition waitAllGroups_FrameTick :: "sim_config \<Rightarrow> ('v, 'm, 's) entity_class \<Rightarrow> thread_id \<Rightarrow>
   ('v, 'm, 's) managed_groups \<Rightarrow> (worker_error, ('v, 'm, 's) managed_groups \<times> arrival list) result" where
  "waitAllGroups_FrameTick cfg ec th s =
     guard WrongState (currState (snd s) = STARTED)
       (rbind (all_groups (\<lambda>(pg, removed).
                 rbind (waitFrameTick cfg ec th (singleThreaded (snd s)) pg) (\<lambda>(pg1, as). Inr ((pg1, removed), as))) s)
         (\<lambda>(s1, as). Inr (s1, as @ (if frameTickBarr (snd s1) \<noteq> None then [Wait 1] else []))))"

definition waitAllGroups_FlipBuffers :: "sim_config \<Rightarrow> ('v, 'm, 's) entity_class \<Rightarrow>
   ('v, 'm, 's) managed_groups \<Rightarrow> (worker_error, ('v, 'm, 's) managed_groups \<times> arrival list) result" where
  "waitAllGroups_FlipBuffers cfg ec s =
     guard WrongState (currState (snd s) = STARTED)
       (rbind (all_groups (waitFlipBuffers cfg ec (singleThreaded (snd s))) s)
         (\<lambda>(s1, as). Inr (s1, as @ (if buffFlipBarr (snd s1) \<noteq> None then [Wait 1] else []))))"

definition message_phase :: "sim_config \<Rightarrow> ('v, 'm, 's) entity_class \<Rightarrow> thread_id \<Rightarrow>
   ('v, 'm, 's) grouped \<times> entity list \<Rightarrow> (worker_error, (('v, 'm, 's) grouped \<times> entity list) \<times> arrival list) result" where
  "message_phase cfg ec th s =
     (case run_mode cfg of
        MidTerm \<Rightarrow>
          rbind (processMultiUpdateGroup cfg ec th s) (\<lambda>s1.
          rbind (processMultiUpdateGroup cfg ec th s1) (\<lambda>s2. Inr (s2, [])))
      | ShortTerm \<Rightarrow> Inr (s, waitAuraManager (snd (fst s)))
      | LongTerm \<Rightarrow> Inr (s, []))"

definition waitAllGroups_DistributeMessages ::
  "sim_config \<Rightarrow> ('v, 'm, 's) entity_class \<Rightarrow> ('m, 's) bus_env \<Rightarrow> thread_id \<Rightarrow>
   ('v, 'm, 's) managed_groups \<Rightarrow> (worker_error, ('v, 'm, 's) managed_groups \<times> arrival list) result" where
  "waitAllGroups_DistributeMessages cfg ec env th s =
     guard WrongState (currState (snd s) = STARTED)
       (if msgBusBarr (snd s) = None then Inr (s, [])
        else
          rbind (if run_mode cfg \<noteq> LongTerm then all_groups (message_phase cfg ec th) s else Inr (s, []))
            (\<lambda>(((p, removed), m), as).
               rbind (on_bus (\<lambda>b. DistributeMessages env b th) (the_world p)) (\<lambda>x.
                 Inr (((p\<lparr>the_world := x\<rparr>, removed), m), as @ [Wait 1]))))"

definition waitAllGroups_MacroTimeTick :: "wg_manager \<Rightarrow> (worker_error, wg_manager \<times> bool list) result" where
  "waitAllGroups_MacroTimeTick m =
     guard WrongState (currState m = STARTED)
       (Inr (on_groups (\<lambda>g. fst (waitMacroTimeTick g)) m, map (\<lambda>g. snd (waitMacroTimeTick g)) (registeredWorkGroups m)))"

text \<open>A whole tick. The result holds the arrivals of the main thread at the three barriers.\<close>

definition waitAllGroups ::
  "sim_config \<Rightarrow> ('v, 'm, 's) entity_class \<Rightarrow> ('m, 's) bus_env \<Rightarrow> thread_id \<Rightarrow> ('v, 'm, 's) pool \<times> wg_manager \<Rightarrow>
   (worker_error, (('v, 'm, 's) pool \<times> wg_manager) \<times> arrival list \<times> arrival list \<times> arrival list) result" where
  "waitAllGroups cfg ec env th s =
     (case s of (p, m) \<Rightarrow>
        rbind (waitAllGroups_FrameTick cfg ec th ((p, []), m)) (\<lambda>(s1, as1).
        rbind (waitAllGroups_FlipBuffers cfg ec s1) (\<lambda>(s2, as2).
        rbind (waitAllGroups_DistributeMessages cfg ec env th s2) (\<lambda>(((p3, removed), m3), as3).
        rbind (waitAllGroups_MacroTimeTick m3) (\<lambda>(m4, _).
          Inr ((p3\<lparr>deleted := deleted p3 @ removed\<rparr>, m4), as1, as2, as3))))))"

section \<open>The tick counters\<close>

lemma waitMacroTimeTick_simps [simp]:
  "tickOffset (fst (waitMacroTimeTick g)) = (if tickOffset g = 0 then groupStep g else tickOffset g) - 1"
  "groupStep (fst (waitMacroTimeTick g)) = groupStep g" "macro_barrier (fst (waitMacroTimeTick g)) = macro_barrier g"
  "shared_barriers (fst (waitMacroTimeTick g)) = shared_barriers g" "workers (fst (waitMacroTimeTick g)) = workers g"
  "started (fst (waitMacroTimeTick g)) = started g"
  "snd (waitMacroTimeTick g) \<longleftrightarrow> tickOffset g = 1 \<and> macro_barrier g"
  by (simp_all add: waitMacroTimeTick_def Let_def)

text \<open>The macro step of a group after \<open>n\<close> ticks: it counts down from the step to the next update.\<close>

lemma tickOffset_run:
  assumes "tickOffset g = 0" "groupStep g = of_nat k" "0 < k" "k < 2 ^ 32"
  shows "tickOffset (((\<lambda>g. fst (waitMacroTimeTick g)) ^^ n) g) = of_nat ((k - n mod k) mod k) \<and>
    groupStep (((\<lambda>g. fst (waitMacroTimeTick g)) ^^ n) g) = groupStep g \<and>
    macro_barrier (((\<lambda>g. fst (waitMacroTimeTick g)) ^^ n) g) = macro_barrier g"
  using assms
proof (induction n)
  case (Suc n)
  let ?g = "((\<lambda>g. fst (waitMacroTimeTick g)) ^^ n) g"
  have IH: "tickOffset ?g = of_nat ((k - n mod k) mod k)" "groupStep ?g = groupStep g" "macro_barrier ?g = macro_barrier g"
    using Suc.IH Suc.prems by simp_all
  have lt: "n mod k < k" using Suc.prems(3) by simp
  have small: "of_nat i = (0 :: u32) \<longleftrightarrow> i = 0" "of_nat i = (1 :: u32) \<longleftrightarrow> i = 1" if "i < k" for i
    using that Suc.prems(4) by (simp_all add: word_of_nat_eq_0_iff word_unat_eq_iff unat_of_nat take_bit_nat_eq_self)
  have "tickOffset (fst (waitMacroTimeTick ?g)) = of_nat ((k - Suc n mod k) mod k)"
  proof (cases "n mod k = 0")
    case True
    then have "tickOffset ?g = 0" using IH(1) by simp
    moreover have "of_nat k - 1 = (of_nat (k - 1) :: u32)" using Suc.prems(3) by (simp add: of_nat_diff)
    moreover have "Suc n mod k = 1 mod k" using True by (metis mod_Suc_eq One_nat_def)
    moreover have "(k - 1 mod k) mod k = k - 1" using Suc.prems(3) by (cases "k = 1") auto
    ultimately show ?thesis
      using Suc.prems(2) IH(2) by simp
  next
    case False
    let ?i = "k - n mod k"
    have i: "?i < k" "0 < ?i" using False lt by simp_all
    have t: "tickOffset ?g = of_nat ?i" using IH(1) i(1) by (simp only: mod_less)
    have "tickOffset ?g \<noteq> 0" unfolding t small(1) [OF i(1)] using i(2) by linarith
    note t = t this
    have pred: "(of_nat j - 1 :: u32) = of_nat (j - 1)" if "0 < j" for j
      using that by (cases j) simp_all
    have "(of_nat ?i - 1 :: u32) = of_nat (?i - 1)" by (rule pred [OF i(2)])
    moreover have "(k - Suc n mod k) mod k = ?i - 1"
    proof (cases "Suc (n mod k) = k")
      case True
      then have "Suc n mod k = 0" by (simp add: mod_Suc)
      with True show ?thesis by simp
    next
      case False
      then have "Suc n mod k = Suc (n mod k)" using lt by (simp add: mod_Suc)
      with False lt show ?thesis by simp
    qed
    ultimately show ?thesis using t by (simp only: waitMacroTimeTick_simps if_False)
  qed
  with IH show ?case by simp
qed simp

section \<open>Workers and their group in step\<close>

lemma advance_tick_at:
  assumes "currTick w = of_nat i" "tickStep w = of_nat k" "endTick w = of_nat n" "0 < k" "0 < n"
    "i < n" "n + k < 2 ^ 32"
  shows "currTick (advance_tick w) = of_nat (i + k)" "active (advance_tick w) \<longleftrightarrow> i + k < n"
    "extraActive (advance_tick w) (endTick w) \<longleftrightarrow> i + k \<le> n"
proof -
  have val: "unat (of_nat j :: u32) = j" if "j < n + k" for j
    using that assms(7) by (simp add: unat_of_nat take_bit_nat_eq_self)
  show t: "currTick (advance_tick w) = of_nat (i + k)" using assms(1,2) by simp
  have "(of_nat (i + k) - 1 :: u32) = of_nat (i + k - 1)" using assms(4) by (cases "i + k") simp_all
  moreover have "endTick w \<noteq> 0" using val [of n] assms(3,4,5) by auto
  moreover have "unat (endTick w) = n" "unat (of_nat (i + k) :: u32) = i + k" "unat (of_nat (i + k - 1) :: u32) = i + k - 1"
    using assms(3,4,6) val [of n] val [of "i + k"] val [of "i + k - 1"] by (simp_all del: of_nat_add of_nat_diff)
  moreover have "currTick w + tickStep w = of_nat (i + k)" using assms(1,2) by simp
  ultimately show "active (advance_tick w) \<longleftrightarrow> i + k < n" "extraActive (advance_tick w) (endTick w) \<longleftrightarrow> i + k \<le> n"
    using assms(4) by (auto simp: extraActive_def word_less_nat_alt t simp del: of_nat_add)
qed

lemma macro_wait_in_round: "MacroWait \<in> set (loop_round mt bs True w) \<longleftrightarrow> extraActive (advance_tick w) (endTick w)"
  by (simp add: loop_round_def)

lemma rounds_of_worker:
  assumes "currTick w = of_nat (j * k)" "tickStep w = of_nat k" "endTick w = of_nat n" "0 < k" "0 < n"
    "n + k < 2 ^ 32" "active w \<longleftrightarrow> j * k < n" "n \<le> fuel + j * k"
  shows "length (filter (\<lambda>r. MacroWait \<in> set r) (loop_rounds fuel mt bs True w)) = n div k - j \<and>
    length (loop_rounds fuel mt bs True w) = (n + k - 1) div k - j"
  using assms
proof (induction fuel arbitrary: w j)
  case 0
  then have "n div k \<le> j" "(n + k - 1) div k \<le> j"
    by (simp_all add: less_Suc_eq_le [symmetric] div_less_iff_less_mult)
  then show ?case by simp
next
  case (Suc fuel)
  show ?case
  proof (cases "active w")
    case True
    then have lt: "j * k < n" using Suc.prems(7) by simp
    note at = advance_tick_at [OF Suc.prems(1-5) lt Suc.prems(6)]
    have ih: "length (filter (\<lambda>r. MacroWait \<in> set r) (loop_rounds fuel mt bs True (advance_tick w))) = n div k - Suc j \<and>
      length (loop_rounds fuel mt bs True (advance_tick w)) = (n + k - 1) div k - Suc j"
    proof (rule Suc.IH)
      show "n \<le> fuel + Suc j * k" using Suc.prems(4,8) by (cases k) auto
    qed (use Suc.prems at in \<open>simp_all add: algebra_simps\<close>)
    have m: "MacroWait \<in> set (loop_round mt bs True w) \<longleftrightarrow> Suc j \<le> n div k"
      unfolding macro_wait_in_round at(3) using Suc.prems(4) by (simp add: less_eq_div_iff_mult_less_eq add.commute)
    have "Suc j \<le> (n + k - 1) div k"
      using lt Suc.prems(4) by (simp add: less_eq_div_iff_mult_less_eq)
    with ih m True show ?thesis by auto
  next
    case False
    then have "n div k \<le> j" "(n + k - 1) div k \<le> j"
      using Suc.prems(4,7) by (simp_all add: less_Suc_eq_le [symmetric] div_less_iff_less_mult)
    with False show ?thesis by simp
  qed
qed

lemma count_last_of_step: "0 < (k :: nat) \<Longrightarrow> length (filter (\<lambda>i. i mod k = k - 1) [0..<n]) = n div k"
proof (induction n)
  case (Suc n)
  have "n mod k = k - 1 \<longleftrightarrow> Suc n mod k = 0"
    using Suc.prems mod_less_divisor [of k n] by (auto simp: mod_Suc)
  with Suc show ?case by (auto simp: div_Suc)
qed simp

lemma count_first_of_step: "0 < (k :: nat) \<Longrightarrow> length (filter (\<lambda>i. i mod k = 0) [0..<n]) = (n + k - 1) div k"
proof (induction n)
  case (Suc n)
  have "(Suc n + k - 1) div k = n div k + 1" using Suc.prems by (simp add: div_add_self2)
  moreover have "(n + k - 1) div k = n div k + (if n mod k = 0 then 0 else 1)"
  proof (cases "n mod k = 0")
    case True
    then obtain q where q: "n = k * q" by auto
    then have e: "n + k - 1 = (k - 1) + q * k" using Suc.prems by (simp add: mult.commute)
    have "(n + k - 1) div k = q + (k - 1) div k" unfolding e using Suc.prems by (intro div_mult_self1) simp
    with Suc.prems q True show ?thesis by simp
  next
    case False
    obtain q r where n: "n = q * k + r" "0 < r" "r < k" "q = n div k"
      using False Suc.prems that [of "n div k" "n mod k"] by simp
    then have e: "n + k - 1 = (r - 1) + (q + 1) * k" by (simp add: algebra_simps)
    have "(n + k - 1) div k = (q + 1) + (r - 1) div k" unfolding e using Suc.prems by (intro div_mult_self1) simp
    then show ?thesis using False n(2-4) by (simp add: less_imp_diff_less)
  qed
  ultimately show ?case using Suc by simp
qed simp

section \<open>What a tick leaves alone\<close>

text \<open>The part of a group that decides about its barriers; only the last phase of a tick and the start change it.\<close>

definition tick_view :: "work_group \<Rightarrow> u32 \<times> u32 \<times> bool \<times> bool \<times> bool \<times> nat" where
  "tick_view g = (groupStep g, tickOffset g, started g, shared_barriers g, macro_barrier g, length (workers g))"

definition tick_clock :: "work_group \<Rightarrow> u32 \<times> u32" where
  "tick_clock g = (currTimeTick g, nextTimeTick g)"

definition same_view :: "work_group \<Rightarrow> work_group \<Rightarrow> bool" where
  "same_view g g' \<longleftrightarrow> tick_view g' = tick_view g \<and> tick_clock g' = tick_clock g"

lemma same_view_refl [simp]: "same_view g g"
  by (simp add: same_view_def)

lemma same_view_trans: "same_view g h \<Longrightarrow> same_view h k \<Longrightarrow> same_view g k"
  by (simp add: same_view_def)

lemma same_view_run_list:
  assumes "\<And>s x s'. f s x = Inr s' \<Longrightarrow> same_view (view s) (view s')" "run_list f s xs = Inr s'"
  shows "same_view (view s) (view s')"
  using run_list_invariant [where P = "\<lambda>t. same_view (view s) (view t)", of xs f s s'] assms same_view_trans
  by (metis same_view_refl)

lemma each_worker_view:
  assumes "each_worker f s = Inr s'"
  shows "same_view (snd s) (snd s')"
proof -
  have step: "same_view (snd s) (snd s')" if "on_worker f s i = Inr s'" for s s' i
    using that by (auto simp: on_worker_def rbind_Inr same_view_def tick_view_def tick_clock_def split: prod.splits)
  show ?thesis
    by (rule same_view_run_list [where view = snd, OF _ assms [unfolded each_worker_def]]) (erule step)
qed

lemma assignAWorker_view: "assignAWorker cfg ec s e = Inr s' \<Longrightarrow> same_view (snd s) (snd s')"
  by (auto simp: assignAWorker_def result_Inr Let_def assign_to_def same_view_def tick_view_def tick_clock_def
      split: prod.splits assignment_strategy.splits)

lemma stage_entity_view: "stage_entity cfg ec s e = Inr s' \<Longrightarrow> same_view (snd s) (snd s')"
  by (auto simp: stage_entity_def loadPerson_def result_Inr same_view_def tick_view_def tick_clock_def
      dest!: assignAWorker_view split: prod.splits if_splits)

lemma stage_loop_view: "stage_loop cfg ec t q s = Inr s' \<Longrightarrow> same_view (snd s) (snd s')"
proof (induction q arbitrary: s)
  case (Cons e q)
  then show ?case
    by (auto simp: rbind_Inr split: if_splits dest: stage_entity_view intro: same_view_trans)
qed auto

lemma stageEntities_view:
  assumes "stageEntities cfg ec s = Inr s'"
  shows "same_view (snd s) (snd s')"
proof -
  have schedule: "same_view (snd s) (snd s')" if "scheduleEntity ec s e = Inr s'" for s s' e
    using that by (auto simp: scheduleEntity_def result_Inr split: prod.splits)
  have bred: "same_view (snd s) (snd s')" if "schedule_bred ec s i = Inr s'" for s s' i
  proof -
    from that obtain p g where r: "run_list (scheduleEntity ec) s (entityBredList (workers (snd s) ! i)) = Inr (p, g)"
      "s' = (p, g\<lparr>workers := (workers g)[i := (workers g ! i)\<lparr>entityBredList := []\<rparr>]\<rparr>)"
      by (auto simp: schedule_bred_def rbind_Inr)
    have "same_view (snd s) (snd (p, g))" by (rule same_view_run_list [where view = snd, OF _ r(1)]) (erule schedule)
    then show ?thesis by (simp add: r(2) same_view_def tick_view_def tick_clock_def)
  qed
  show ?thesis
  proof (cases "hasLoader (snd s)")
    case True
    then obtain s1 where s1: "run_list (schedule_bred ec) s [0..<length (workers (snd s))] = Inr s1"
      "stage_loop cfg ec (nextTimeTick (snd s1) * baseGranMS cfg) (pending_source (fst s1)) s1 = Inr s'"
      using assms by (auto simp: stageEntities_def rbind_Inr)
    have "same_view (snd s) (snd s1)"
      by (rule same_view_run_list [where view = snd, OF _ s1(1)]) (erule bred)
    then show ?thesis by (rule same_view_trans [OF _ stage_loop_view [OF s1(2)]])
  next
    case False
    then show ?thesis using assms by (simp add: stageEntities_def)
  qed
qed

lemma collectRemovedEntities_view: "same_view (snd (fst s)) (snd (fst (collectRemovedEntities ec keep s)))"
  by (auto simp: collectRemovedEntities_def same_view_def tick_view_def tick_clock_def split: prod.splits)

definition on_behalf_of :: "work_group \<Rightarrow> arrival list" where
  "on_behalf_of g = (if tickOffset g = 0 then [] else on_behalf g)"

lemma waitFrameTick_view:
  assumes "waitFrameTick cfg ec th st s = Inr (s', as)"
  shows "tick_view (snd s') = tick_view (snd s) \<and> as = on_behalf_of (snd s) \<and>
    tick_clock (snd s') =
      (if tickOffset (snd s) = 0 then (nextTimeTick (snd s), nextTimeTick (snd s) + groupStep (snd s))
       else tick_clock (snd s))"
proof (cases "tickOffset (snd s) = 0")
  case True
  then obtain p g where r: "(if st then each_worker (perform_frame_tick ec (baseGranMS cfg) th) s else Inr s) = Inr (p, g)"
    "s' = (p, g\<lparr>currTimeTick := nextTimeTick g, nextTimeTick := nextTimeTick g + groupStep g\<rparr>)" "as = []"
    using assms by (auto simp: waitFrameTick_def result_Inr)
  have "same_view (snd s) (snd (p, g))" using r(1) by (cases st) (auto dest: each_worker_view)
  with True r(2,3) show ?thesis by (simp add: same_view_def tick_view_def tick_clock_def on_behalf_of_def)
next
  case False
  with assms show ?thesis by (auto simp: waitFrameTick_def result_Inr on_behalf_of_def)
qed

lemma waitFlipBuffers_view:
  assumes "waitFlipBuffers cfg ec st s = Inr (s', as)"
  shows "same_view (snd (fst s)) (snd (fst s')) \<and> as = on_behalf_of (snd (fst s))"
proof (cases "tickOffset (snd (fst s)) = 0")
  case True
  obtain pg removed where s: "s = (pg, removed)" by (cases s)
  with True assms obtain pg1 pg2 where
    r: "(if st then each_worker (\<lambda>s. Inr (perform_buff_flip s)) pg else Inr pg) = Inr pg1"
    "stageEntities cfg ec pg1 = Inr pg2" "s' = collectRemovedEntities ec True (pg2, removed)" "as = []"
    by (auto simp: waitFlipBuffers_def rbind_Inr)
  have "same_view (snd pg) (snd pg1)" using r(1) by (cases st) (auto dest: each_worker_view)
  from same_view_trans [OF this stageEntities_view [OF r(2)]] collectRemovedEntities_view [of "(pg2, removed)" ec True]
  show ?thesis using True r(3,4) by (auto simp: s on_behalf_of_def intro: same_view_trans)
next
  case False
  with assms show ?thesis by (cases s) (auto simp: waitFlipBuffers_def on_behalf_of_def)
qed

lemma processMultiUpdateGroup_view:
  assumes "processMultiUpdateGroup cfg ec th s = Inr s'"
  shows "same_view (snd (fst s)) (snd (fst s'))"
proof -
  have step: "same_view (snd (fst s)) (snd (fst s'))" if "group_multi_update cfg ec th s i = Inr s'" for s s' i
  proof -
    from that obtain f pg where r: "on_worker f (fst s) i = Inr pg" "s' = collectRemovedEntities ec True (pg, snd s)"
      by (auto simp: group_multi_update_def rbind_Inr)
    have "same_view (snd (fst s)) (snd pg)"
      using r(1) by (auto simp: on_worker_def rbind_Inr same_view_def tick_view_def tick_clock_def split: prod.splits)
    with collectRemovedEntities_view [of "(pg, snd s)" ec True] show ?thesis
      unfolding r(2) by (auto intro: same_view_trans)
  qed
  show ?thesis
    by (rule same_view_run_list [where view = "\<lambda>s. snd (fst s)", OF _ assms [unfolded processMultiUpdateGroup_def]])
      (erule step)
qed

lemma message_phase_view:
  assumes "message_phase cfg ec th s = Inr (s', as)"
  shows "same_view (snd (fst s)) (snd (fst s')) \<and> as = (if run_mode cfg = ShortTerm then on_behalf_of (snd (fst s)) else [])"
  using assms
  by (auto simp: message_phase_def rbind_Inr waitAuraManager_def on_behalf_of_def split: run_mode.splits
      dest!: processMultiUpdateGroup_view intro: same_view_trans)

section \<open>A tick over all groups\<close>

definition same_barriers :: "wg_manager \<Rightarrow> wg_manager \<Rightarrow> bool" where
  "same_barriers m m' \<longleftrightarrow> currState m' = currState m \<and> singleThreaded m' = singleThreaded m \<and>
     frameTickBarr m' = frameTickBarr m \<and> buffFlipBarr m' = buffFlipBarr m \<and> msgBusBarr m' = msgBusBarr m"

definition each_group :: "(work_group \<Rightarrow> work_group \<Rightarrow> bool) \<Rightarrow> wg_manager \<Rightarrow> wg_manager \<Rightarrow> bool" where
  "each_group R m m' \<longleftrightarrow> list_all2 R (registeredWorkGroups m) (registeredWorkGroups m') \<and> same_barriers m m'"

lemma group_phases:
  assumes f: "\<And>x y bs. f x = Inr (y, bs) \<Longrightarrow> R (snd (fst x)) (snd (fst y)) \<and> bs = arr (snd (fst x))"
    and "n \<le> length (registeredWorkGroups m)"
    and "run_list (group_phase f) ((pr, m), as0) [0..<n] = Inr ((pr', m'), as)"
  shows "length (registeredWorkGroups m') = length (registeredWorkGroups m) \<and> same_barriers m m' \<and>
    (\<forall>i < n. R (registeredWorkGroups m ! i) (registeredWorkGroups m' ! i)) \<and>
    (\<forall>i. n \<le> i \<longrightarrow> registeredWorkGroups m' ! i = registeredWorkGroups m ! i) \<and>
    as = as0 @ concat (map arr (take n (registeredWorkGroups m)))"
  using assms(2,3)
proof (induction n arbitrary: pr' m' as)
  case 0
  then show ?case by (simp add: same_barriers_def)
next
  case (Suc n)
  then obtain pr1 m1 as1 where
    r1: "run_list (group_phase f) ((pr, m), as0) [0..<n] = Inr ((pr1, m1), as1)" and
    r2: "group_phase f ((pr1, m1), as1) n = Inr ((pr', m'), as)"
    by (auto simp: run_list_append split: sum.splits)
  note ih = Suc.IH [OF _ r1]
  from r2 obtain p1 g1 bs where y: "f ((fst pr1, registeredWorkGroups m1 ! n), snd pr1) = Inr (((p1, g1), snd pr'), bs)"
    "m' = m1\<lparr>registeredWorkGroups := (registeredWorkGroups m1)[n := g1]\<rparr>" "as = as1 @ bs"
    by (auto simp: group_phase_def rbind_Inr split: prod.splits)
  from f [OF y(1)] have g: "R (registeredWorkGroups m1 ! n) g1" "bs = arr (registeredWorkGroups m1 ! n)" by simp_all
  with ih y Suc.prems(1) show ?case
    by (auto simp: same_barriers_def take_Suc_conv_app_nth less_Suc_eq)
qed

lemma all_groups_each:
  assumes f: "\<And>x y bs. f x = Inr (y, bs) \<Longrightarrow> R (snd (fst x)) (snd (fst y)) \<and> bs = arr (snd (fst x))"
    and "all_groups f (pr, m) = Inr ((pr', m'), as)"
  shows "each_group R m m' \<and> as = concat (map arr (registeredWorkGroups m))"
proof -
  let ?n = "length (registeredWorkGroups m)"
  have r: "run_list (group_phase f) ((pr, m), []) [0..<?n] = Inr ((pr', m'), as)"
    using assms(2) by (simp add: all_groups_def)
  have "length (registeredWorkGroups m') = ?n \<and> same_barriers m m' \<and>
      (\<forall>i < ?n. R (registeredWorkGroups m ! i) (registeredWorkGroups m' ! i)) \<and>
      (\<forall>i. ?n \<le> i \<longrightarrow> registeredWorkGroups m' ! i = registeredWorkGroups m ! i) \<and>
      as = [] @ concat (map arr (take ?n (registeredWorkGroups m)))"
    by (rule group_phases [where R = R and arr = arr, OF _ _ r]) (erule f, simp)
  then show ?thesis by (simp add: each_group_def list_all2_conv_all_nth)
qed

definition frame_ticked :: "work_group \<Rightarrow> work_group \<Rightarrow> bool" where
  "frame_ticked g g' \<longleftrightarrow> tick_view g' = tick_view g \<and>
     tick_clock g' = (if tickOffset g = 0 then (nextTimeTick g, nextTimeTick g + groupStep g) else tick_clock g)"

text \<open>The arrivals of the main thread in a phase: on behalf of the groups that skip the tick, then its own.\<close>

definition main_arrivals :: "wg_manager \<Rightarrow> barrier option \<Rightarrow> arrival list" where
  "main_arrivals m b = concat (map on_behalf_of (registeredWorkGroups m)) @ (if b \<noteq> None then [Wait 1] else [])"

lemma frame_phase_each:
  assumes "waitAllGroups_FrameTick cfg ec th (pr, m) = Inr ((pr', m'), as)"
  shows "each_group frame_ticked m m' \<and> as = main_arrivals m (frameTickBarr m) \<and> currState m = STARTED"
proof -
  let ?f = "\<lambda>(pg, removed). rbind (waitFrameTick cfg ec th (singleThreaded m) pg) (\<lambda>(pg1, as). Inr ((pg1, removed), as))"
  from assms obtain as1 where a: "all_groups ?f (pr, m) = Inr ((pr', m'), as1)" "currState m = STARTED"
    "as = as1 @ (if frameTickBarr m' \<noteq> None then [Wait 1] else [])"
    by (auto simp: waitAllGroups_FrameTick_def result_Inr)
  have "frame_ticked (snd (fst x)) (snd (fst y)) \<and> bs = on_behalf_of (snd (fst x))" if "?f x = Inr (y, bs)" for x y bs
    using that by (cases x) (auto simp: rbind_Inr frame_ticked_def dest: waitFrameTick_view)
  from all_groups_each [where R = frame_ticked and arr = on_behalf_of, OF this a(1)] a(2,3) show ?thesis
    by (simp add: main_arrivals_def each_group_def same_barriers_def)
qed

lemma flip_phase_each:
  assumes "waitAllGroups_FlipBuffers cfg ec (pr, m) = Inr ((pr', m'), as)"
  shows "each_group same_view m m' \<and> as = main_arrivals m (buffFlipBarr m)"
proof -
  let ?f = "waitFlipBuffers cfg ec (singleThreaded m)"
  from assms obtain as1 where a: "all_groups ?f (pr, m) = Inr ((pr', m'), as1)"
    "as = as1 @ (if buffFlipBarr m' \<noteq> None then [Wait 1] else [])"
    by (auto simp: waitAllGroups_FlipBuffers_def result_Inr)
  from all_groups_each [where R = same_view and arr = on_behalf_of, OF waitFlipBuffers_view a(1)] a(2) show ?thesis
    by (simp add: main_arrivals_def each_group_def same_barriers_def)
qed

lemma each_group_refl: "(\<And>g. R g g) \<Longrightarrow> each_group R m m"
  by (simp add: each_group_def same_barriers_def list_all2_conv_all_nth)

lemma each_group_trans:
  assumes "\<And>g h k. R g h \<Longrightarrow> S h k \<Longrightarrow> T g k" "each_group R m m1" "each_group S m1 m2"
  shows "each_group T m m2"
  using assms(2,3) list_all2_trans [of R S T, OF assms(1)]
  by (auto simp: each_group_def same_barriers_def)

lemma message_phase_each:
  assumes "waitAllGroups_DistributeMessages cfg ec env th (pr, m) = Inr ((pr', m'), as)"
  shows "each_group same_view m m' \<and>
    as = (if msgBusBarr m = None then []
          else if run_mode cfg = ShortTerm then main_arrivals m (msgBusBarr m) else [Wait 1])"
proof (cases "msgBusBarr m")
  case None
  with assms show ?thesis
    by (auto simp: waitAllGroups_DistributeMessages_def result_Inr intro: each_group_refl)
next
  case (Some b)
  let ?f = "message_phase cfg ec th"
  let ?arr = "\<lambda>g. if run_mode cfg = ShortTerm then on_behalf_of g else []"
  show ?thesis
  proof (cases "run_mode cfg = LongTerm")
    case True
    with Some assms show ?thesis
      by (auto simp: waitAllGroups_DistributeMessages_def result_Inr intro: each_group_refl split: prod.splits)
  next
    case False
    with Some assms obtain pr1 as1 where a: "all_groups ?f (pr, m) = Inr ((pr1, m'), as1)" "as = as1 @ [Wait 1]"
      by (auto simp: waitAllGroups_DistributeMessages_def result_Inr)
    from all_groups_each [where R = same_view and arr = ?arr, OF message_phase_view a(1)] a(2) Some show ?thesis
      by (cases "run_mode cfg") (auto simp: main_arrivals_def)
  qed
qed

text \<open>A group over a whole tick.\<close>

definition ticked :: "work_group \<Rightarrow> work_group \<Rightarrow> bool" where
  "ticked g g' \<longleftrightarrow> groupStep g' = groupStep g \<and> started g' = started g \<and> shared_barriers g' = shared_barriers g \<and>
     macro_barrier g' = macro_barrier g \<and> length (workers g') = length (workers g) \<and>
     tickOffset g' = (if tickOffset g = 0 then groupStep g else tickOffset g) - 1 \<and>
     tick_clock g' = (if tickOffset g = 0 then (nextTimeTick g, nextTimeTick g + groupStep g) else tick_clock g)"

lemma tick_each:
  assumes "waitAllGroups cfg ec env th (p, m) = Inr ((p', m'), as1, as2, as3)"
  shows "each_group ticked m m' \<and> currState m = STARTED \<and>
    as1 = main_arrivals m (frameTickBarr m) \<and> as2 = main_arrivals m (buffFlipBarr m) \<and>
    as3 = (if msgBusBarr m = None then []
           else if run_mode cfg = ShortTerm then main_arrivals m (msgBusBarr m) else [Wait 1])"
proof -
  from assms obtain pr1 m1 pr2 m2 pr3 m3 where
    r: "waitAllGroups_FrameTick cfg ec th ((p, []), m) = Inr ((pr1, m1), as1)"
       "waitAllGroups_FlipBuffers cfg ec (pr1, m1) = Inr ((pr2, m2), as2)"
       "waitAllGroups_DistributeMessages cfg ec env th (pr2, m2) = Inr ((pr3, m3), as3)"
       "m' = on_groups (\<lambda>g. fst (waitMacroTimeTick g)) m3"
    by (auto simp: waitAllGroups_def rbind_Inr waitAllGroups_MacroTimeTick_def guard_Inr split: prod.splits)
  note e = frame_phase_each [OF r(1)] flip_phase_each [OF r(2)] message_phase_each [OF r(3)]
  have "each_group frame_ticked m m2"
    by (rule each_group_trans [of frame_ticked same_view _ m m1 m2]) (use e in \<open>auto simp: frame_ticked_def same_view_def\<close>)
  then have m3: "each_group frame_ticked m m3"
    by (rule each_group_trans [of frame_ticked same_view, rotated]) (use e in \<open>auto simp: frame_ticked_def same_view_def\<close>)
  have "ticked g (fst (waitMacroTimeTick h))" if "frame_ticked g h" for g h
    using that
    by (auto simp: ticked_def frame_ticked_def tick_view_def tick_clock_def waitMacroTimeTick_def Let_def)
  with m3 have t: "each_group ticked m m'"
    by (auto simp: r(4) each_group_def on_groups_def same_barriers_def list_all2_map2 intro: list_all2_mono)
  have arrivals: "main_arrivals m' b = main_arrivals m b" if "each_group R m m'"
    "\<And>g g'. R g g' \<Longrightarrow> tick_view g' = tick_view g" for R b and m m' :: wg_manager
  proof -
    have "on_behalf_of g' = on_behalf_of g" if "R g g'" for g g'
      using \<open>\<And>g g'. R g g' \<Longrightarrow> tick_view g' = tick_view g\<close> [OF that]
      by (simp add: tick_view_def on_behalf_of_def on_behalf_def)
    then have "map on_behalf_of (registeredWorkGroups m') = map on_behalf_of (registeredWorkGroups m)"
      using that(1) by (auto simp: each_group_def list_all2_conv_all_nth intro!: nth_equalityI)
    then show ?thesis by (simp add: main_arrivals_def)
  qed
  have "main_arrivals m1 b = main_arrivals m b" "main_arrivals m2 b = main_arrivals m1 b" for b
    using arrivals [of frame_ticked m m1] arrivals [of same_view m1 m2] e by (auto simp: frame_ticked_def same_view_def)
  moreover have "buffFlipBarr m1 = buffFlipBarr m" "msgBusBarr m2 = msgBusBarr m"
    using e by (auto simp: each_group_def same_barriers_def)
  ultimately show ?thesis using e t by simp
qed

section \<open>Setting up and running\<close>

text \<open>What the main program does with the manager: \<open>specs\<close> lists the groups (workers, ticks, step, start).\<close>

definition add_group :: "wg_manager \<Rightarrow> u32 \<times> u32 \<times> u32 \<times> u32 \<Rightarrow> (worker_error, wg_manager) result" where
  "add_group m spec = (case spec of (nWorkers, simTicks, step, simStart) \<Rightarrow> newWorkGroup m nWorkers simTicks step simStart)"

definition set_up :: "bool \<Rightarrow> (u32 \<times> u32 \<times> u32 \<times> u32) list \<Rightarrow> (nat \<Rightarrow> nat \<Rightarrow> address) \<Rightarrow> (nat \<Rightarrow> bool) \<Rightarrow>
   address \<Rightarrow> address \<Rightarrow> ('m, 's) bus \<Rightarrow> thread_id \<Rightarrow> (worker_error, ('m, 's) bus \<times> wg_manager) result" where
  "set_up single specs alloc ld a pub b th =
     rbind (setSingleThreadMode newManager single) (\<lambda>m.
     rbind (run_list add_group m specs) (\<lambda>m1.
     rbind (initAllGroups a pub b th m1) (\<lambda>(b1, m2).
     rbind (startAllWorkGroups (initAllWorkers alloc ld m2)) (\<lambda>m3. Inr (b1, m3)))))"

primrec whole_ticks ::
  "sim_config \<Rightarrow> ('v, 'm, 's) entity_class \<Rightarrow> ('m, 's) bus_env \<Rightarrow> thread_id \<Rightarrow> nat \<Rightarrow> ('v, 'm, 's) pool \<times> wg_manager \<Rightarrow>
   (worker_error, ('v, 'm, 's) pool \<times> wg_manager) result" where
  "whole_ticks cfg ec env th 0 s = Inr s"
| "whole_ticks cfg ec env th (Suc n) s =
     rbind (whole_ticks cfg ec env th n s) (\<lambda>s1. rbind (waitAllGroups cfg ec env th s1) (\<lambda>(s2, _). Inr s2))"

definition started_group :: "u32 \<times> u32 \<times> u32 \<times> u32 \<Rightarrow> work_group \<Rightarrow> bool" where
  "started_group spec g \<longleftrightarrow>
     (case spec of (nWorkers, simTicks, step, simStart) \<Rightarrow>
        length (workers g) = unat nWorkers \<and> groupStep g = step \<and> tickOffset g = 0 \<and> tick_clock g = (0, 0) \<and>
        started g \<and> shared_barriers g \<and> (macro_barrier g \<longleftrightarrow> step > 1) \<and>
        (\<forall>w \<in> set (workers g). \<exists>a. w = worker_start simStart (newWorker a simTicks step)))"

lemma add_group_Inr:
  "add_group m (w, t, k, d) = Inr m1 \<longleftrightarrow> (currState m = INIT \<or> currState m = CREATE) \<and>
     m1 = m\<lparr>currState := CREATE, currBarrierCount := currBarrierCount m + w,
       registeredWorkGroups := registeredWorkGroups m @ [newGroup (length (registeredWorkGroups m)) w t k d]\<rparr>"
  by (auto simp: add_group_def newWorkGroup_def Let_def guard_Inr)

lemma add_groups:
  assumes "run_list add_group m specs = Inr m'"
  shows "currBarrierCount m' = currBarrierCount m + (\<Sum>(w, _)\<leftarrow>specs. w) \<and>
    singleThreaded m' = singleThreaded m \<and> frameTickBarr m' = frameTickBarr m \<and> buffFlipBarr m' = buffFlipBarr m \<and>
    msgBusBarr m' = msgBusBarr m \<and>
    (\<exists>gs. registeredWorkGroups m' = registeredWorkGroups m @ gs \<and>
      list_all2 (\<lambda>(w, t, k, d) g. numWorkers g = w \<and> numSimTicks g = t \<and> groupStep g = k \<and> workers g = [] \<and> \<not> started g \<and>
        \<not> macro_barrier g \<and> simulationStart g = d) specs gs)"
  using assms
proof (induction specs arbitrary: m)
  case (Cons s specs)
  obtain w t k d where s: "s = (w, t, k, d)" by (cases s)
  let ?g = "newGroup (length (registeredWorkGroups m)) w t k d"
  let ?m = "m\<lparr>currState := CREATE, currBarrierCount := currBarrierCount m + w,
    registeredWorkGroups := registeredWorkGroups m @ [?g]\<rparr>"
  have "run_list add_group ?m specs = Inr m'"
    using Cons.prems unfolding run_list_Cons_Inr s add_group_Inr by blast
  from Cons.IH [OF this] obtain gs where ih: "currBarrierCount m' = currBarrierCount ?m + (\<Sum>(w, _)\<leftarrow>specs. w)"
    "singleThreaded m' = singleThreaded m" "frameTickBarr m' = frameTickBarr m" "buffFlipBarr m' = buffFlipBarr m"
    "msgBusBarr m' = msgBusBarr m" "registeredWorkGroups m' = registeredWorkGroups ?m @ gs"
    "list_all2 (\<lambda>(w, t, k, d) g. numWorkers g = w \<and> numSimTicks g = t \<and> groupStep g = k \<and> workers g = [] \<and> \<not> started g \<and>
        \<not> macro_barrier g \<and> simulationStart g = d) specs gs" by auto
  then show ?case by (auto simp: s newGroup_def algebra_simps intro!: exI [of _ "?g # gs"])
qed simp

lemma startAll_Inr:
  "startAll g = Inr g' \<longleftrightarrow> \<not> started g \<and>
     g' = g\<lparr>started := True, nextTimeTick := 0, currTimeTick := 0, tickOffset := 0,
               workers := map (worker_start (simulationStart g)) (workers g)\<rparr>"
  by (auto simp: startAll_def guard_Inr)

lemma start_groups:
  "run_list start_group gs0 gs = Inr gs' \<Longrightarrow>
   \<exists>hs. gs' = gs0 @ hs \<and> list_all2 (\<lambda>g h. startAll g = Inr h) gs hs"
proof (induction gs arbitrary: gs0)
  case (Cons g gs)
  then obtain h where h: "startAll g = Inr h" "run_list start_group (gs0 @ [h]) gs = Inr gs'"
    unfolding run_list_Cons_Inr by (auto simp: start_group_def rbind_Inr)
  from Cons.IH [OF h(2)] h(1) show ?case by auto
qed simp

lemma set_up_multi:
  assumes "set_up False specs alloc ld a pub b th = Inr (b1, m)"
  shows "currState m = STARTED \<and> \<not> singleThreaded m \<and> list_all2 started_group specs (registeredWorkGroups m) \<and>
    (\<exists>fb. newFlexiBarrier (1 + (\<Sum>(w, _)\<leftarrow>specs. w)) = Inr fb \<and>
      frameTickBarr m = Some fb \<and> buffFlipBarr m = Some fb \<and> msgBusBarr m = Some fb)"
proof -
  obtain m1 m2 where r: "run_list add_group newManager specs = Inr m1"
    "initAllGroups a pub b th m1 = Inr (b1, m2)" "startAllWorkGroups (initAllWorkers alloc ld m2) = Inr m"
    using assms by (auto simp: set_up_def result_Inr setSingleThreadMode_def newManager_def)
  note g1 = add_groups [OF r(1)]
  obtain fb where m2: "newFlexiBarrier (currBarrierCount m1) = Inr fb" "\<not> singleThreaded m2"
    "frameTickBarr m2 = Some fb" "buffFlipBarr m2 = Some fb" "msgBusBarr m2 = Some fb"
    "registeredWorkGroups m2 = map initializeBarriers (registeredWorkGroups m1)"
    using r(2) g1 by (auto simp: initAllGroups_def guard_Inr Let_def on_groups_def newManager_def split: sum.splits if_splits)
  from r(3) obtain gs where gs: "run_list start_group [] (registeredWorkGroups (initAllWorkers alloc ld m2)) = Inr gs"
    "m = (initAllWorkers alloc ld m2)\<lparr>currState := STARTED, registeredWorkGroups := gs\<rparr>"
    by (auto simp: startAllWorkGroups_def result_Inr)
  from start_groups [OF gs(1)] have "list_all2 (\<lambda>g h. startAll g = Inr h) (registeredWorkGroups (initAllWorkers alloc ld m2)) gs"
    by auto
  then have "list_all2 started_group specs gs"
    using g1 by (auto simp: m2(6) initAllWorkers_def on_groups_def newManager_def list_all2_conv_all_nth startAll_Inr
        started_group_def initWorkers_def initializeBarriers_def Let_def tick_clock_def split: prod.splits) 
  then show ?thesis using m2 g1 by (auto simp: gs(2) initAllWorkers_def on_groups_def newManager_def)
qed

text \<open>What a group looks like after \<open>n\<close> ticks.\<close>

definition offset_at :: "u32 \<Rightarrow> nat \<Rightarrow> u32" where
  "offset_at step n = of_nat ((unat step - n mod unat step) mod unat step)"

definition group_at :: "nat \<Rightarrow> u32 \<times> u32 \<times> u32 \<times> u32 \<Rightarrow> work_group \<Rightarrow> bool" where
  "group_at n spec g \<longleftrightarrow>
     (case spec of (nWorkers, simTicks, step, simStart) \<Rightarrow>
        length (workers g) = unat nWorkers \<and> groupStep g = step \<and> shared_barriers g \<and>
        (step \<noteq> 0 \<longrightarrow> tickOffset g = offset_at step n \<and> nextTimeTick g = of_nat n + tickOffset g))"

lemma offset_at_0 [simp]: "step \<noteq> 0 \<Longrightarrow> offset_at step 0 = 0"
  by (simp add: offset_at_def unat_eq_0)

lemma offset_at_run:
  assumes "step \<noteq> 0"
  shows "tickOffset (((\<lambda>g. fst (waitMacroTimeTick g)) ^^ n) (newGroup 0 0 0 step 0)) = offset_at step n"
proof -
  have "0 < unat step" "unat step < 2 ^ 32" using assms unsigned_less [of step] by (simp_all add: unat_gt_0)
  from tickOffset_run [of "newGroup 0 0 0 step 0" "unat step" n, OF _ _ this] show ?thesis
    by (simp add: offset_at_def newGroup_def)
qed

lemma offset_at_Suc:
  assumes "step \<noteq> 0"
  shows "(if offset_at step n = 0 then step else offset_at step n) - 1 = offset_at step (Suc n)"
proof -
  have "0 < unat step" "unat step < 2 ^ 32" using assms unsigned_less [of step] by (simp_all add: unat_gt_0)
  then have "groupStep (((\<lambda>g. fst (waitMacroTimeTick g)) ^^ n) (newGroup 0 0 0 step 0)) = step"
    using tickOffset_run [of "newGroup 0 0 0 step 0" "unat step" n] by (simp add: newGroup_def)
  with offset_at_run [OF assms, of n] offset_at_run [OF assms, of "Suc n"] show ?thesis by (simp split: if_splits)
qed

lemma offset_at_eq_0:
  assumes "step \<noteq> 0"
  shows "offset_at step n = 0 \<longleftrightarrow> unat step dvd n"
proof -
  let ?k = "unat step"
  have k: "0 < ?k" "?k < 2 ^ 32" using assms unsigned_less [of step] by (simp_all add: unat_gt_0)
  have lt: "n mod ?k < ?k" using k by simp
  have "(?k - n mod ?k) mod ?k < ?k" using k by simp
  then have "unat (offset_at step n) = (?k - n mod ?k) mod ?k"
    using k(2) by (simp add: offset_at_def unat_of_nat take_bit_nat_eq_self)
  then have "offset_at step n = 0 \<longleftrightarrow> (?k - n mod ?k) mod ?k = 0" by (metis unat_eq_0)
  also have "\<dots> \<longleftrightarrow> n mod ?k = 0" using lt by (cases "n mod ?k = 0") simp_all
  finally show ?thesis by (simp add: dvd_eq_mod_eq_0)
qed

lemma group_at_tick:
  assumes "group_at n spec g" "ticked g g'"
  shows "group_at (Suc n) spec g'"
proof -
  obtain w t k d where spec: "spec = (w, t, k, d)" by (cases spec)
  show ?thesis
  proof (cases "k = 0")
    case True
    with assms show ?thesis by (simp add: spec group_at_def ticked_def)
  next
    case False
    with assms(1) have g: "tickOffset g = offset_at k n" "nextTimeTick g = of_nat n + offset_at k n" "groupStep g = k"
      by (simp_all add: spec group_at_def)
    let ?d = "if offset_at k n = 0 then k else offset_at k n"
    have t: "tickOffset g' = ?d - 1" "tick_clock g' =
        (if offset_at k n = 0 then (nextTimeTick g, nextTimeTick g + groupStep g) else tick_clock g)"
      "length (workers g') = length (workers g)" "groupStep g' = k" "shared_barriers g' = shared_barriers g"
      using assms(2) by (simp_all add: ticked_def g)
    have s: "?d - 1 = offset_at k (Suc n)" by (rule offset_at_Suc [OF False])
    have "nextTimeTick g' = of_nat n + ?d"
      using t(2) by (cases "offset_at k n = 0") (simp_all add: tick_clock_def g)
    also have "of_nat n + ?d = of_nat (Suc n) + (?d - 1)" by simp
    finally have "nextTimeTick g' = of_nat (Suc n) + offset_at k (Suc n)" by (simp only: s)
    with t s assms(1) False show ?thesis by (simp only: spec group_at_def) simp
  qed
qed

lemma whole_ticks_groups:
  assumes "set_up False specs alloc ld a pub b th = Inr (b1, m0)"
    and "whole_ticks cfg ec env th n (p0, m0) = Inr (p, m)"
  shows "list_all2 (group_at n) specs (registeredWorkGroups m) \<and>
    (\<exists>fb. newFlexiBarrier (1 + (\<Sum>(w, _)\<leftarrow>specs. w)) = Inr fb \<and>
      frameTickBarr m = Some fb \<and> buffFlipBarr m = Some fb \<and> msgBusBarr m = Some fb)"
  using assms(2)
proof (induction n arbitrary: p m)
  case 0
  with set_up_multi [OF assms(1)] show ?case
    by (auto simp: started_group_def group_at_def tick_clock_def split: prod.splits elim!: list_all2_mono)
next
  case (Suc n)
  then obtain p1 m1 as1 as2 as3 where r: "whole_ticks cfg ec env th n (p0, m0) = Inr (p1, m1)"
    "waitAllGroups cfg ec env th (p1, m1) = Inr ((p, m), as1, as2, as3)"
    by (auto simp: rbind_Inr)
  have t: "each_group ticked m1 m" using tick_each [OF r(2)] by simp
  then have "list_all2 (group_at (Suc n)) specs (registeredWorkGroups m)"
    using Suc.IH [OF r(1)] list_all2_trans [of "group_at n" ticked "group_at (Suc n)", OF group_at_tick]
    by (auto simp: each_group_def)
  moreover have "frameTickBarr m = frameTickBarr m1" "buffFlipBarr m = buffFlipBarr m1" "msgBusBarr m = msgBusBarr m1"
    using t by (simp_all add: each_group_def same_barriers_def)
  ultimately show ?case using Suc.IH [OF r(1)] by auto
qed

section \<open>Arrivals in a tick\<close>

text \<open>One wait for each worker of the groups that update in this tick; that the rounds of the workers come to just
  these waits is shown below.\<close>

definition waits_once :: "wg_manager \<Rightarrow> arrival list" where
  "waits_once m = concat (map (\<lambda>g. if tickOffset g = 0 then replicate (length (workers g)) (Wait 1) else [])
     (registeredWorkGroups m))"

definition total_amount :: "arrival list \<Rightarrow> nat" where
  "total_amount as = (\<Sum>a\<leftarrow>as. unat (amount_of a))"

lemma total_amount_append [simp]: "total_amount (as @ bs) = total_amount as + total_amount bs"
  by (simp add: total_amount_def)

lemma total_amount_replicate [simp]: "total_amount (replicate n (Wait 1)) = n"
  by (simp add: total_amount_def sum_list_replicate)

lemma total_amount_simps [simp]: "total_amount [] = 0" "total_amount (a # as) = unat (amount_of a) + total_amount as"
  by (simp_all add: total_amount_def)

lemma total_amount_mset: "mset as = mset bs \<Longrightarrow> total_amount as = total_amount bs"
  unfolding total_amount_def by (metis mset_map sum_mset_sum_list)

lemma total_amounts:
  assumes "list_all2 (group_at n) specs gs"
  shows "total_amount (concat (map on_behalf_of gs)) +
      total_amount (concat (map (\<lambda>g. if tickOffset g = 0 then replicate (length (workers g)) (Wait 1) else []) gs)) =
    (\<Sum>(w, _)\<leftarrow>specs. unat w)"
  using assms
proof (induction rule: list_all2_induct)
  case (Cons spec specs g gs)
  obtain w t k d where spec: "spec = (w, t, k, d)" by (cases spec)
  have "total_amount (on_behalf_of g) + total_amount (if tickOffset g = 0 then replicate (length (workers g)) (Wait 1) else []) = unat w"
    using Cons.hyps(1) by (simp add: spec group_at_def on_behalf_of_def on_behalf_def)
  with Cons.IH show ?case by (simp add: spec)
qed simp

lemma sum_no_wrap:
  assumes "1 + (\<Sum>(w, _)\<leftarrow>specs. unat w) < (2 :: nat) ^ 32"
  shows "unat (1 + (\<Sum>(w, _)\<leftarrow>specs. w) :: u32) = 1 + (\<Sum>(w, _)\<leftarrow>specs. unat w)"
proof -
  have "(\<Sum>(w, _)\<leftarrow>specs. w) = (of_nat (\<Sum>(w, _)\<leftarrow>specs. unat w) :: u32)"
    by (induction specs) auto
  then have "1 + (\<Sum>(w, _)\<leftarrow>specs. w) = (of_nat (1 + (\<Sum>(w, _)\<leftarrow>specs. unat w)) :: u32)" by simp
  then show ?thesis using assms by (simp only: unat_of_nat take_bit_nat_eq_self) (simp add: take_bit_nat_eq_self)
qed

lemma main_and_workers:
  assumes "list_all2 (group_at n) specs (registeredWorkGroups m)" "b \<noteq> None"
  shows "total_amount (main_arrivals m b) + total_amount (waits_once m) = 1 + (\<Sum>(w, _)\<leftarrow>specs. unat w)"
  using total_amounts [OF assms(1)] assms(2) by (simp add: main_arrivals_def waits_once_def)

lemma arrivals_positive:
  assumes "list_all2 (group_at n) specs (registeredWorkGroups m)" "\<forall>(w, _) \<in> set specs. w \<noteq> 0"
  shows "\<forall>x \<in> set (main_arrivals m b @ waits_once m). amount_of x \<noteq> 0"
proof -
  have "of_nat (length (workers g)) \<noteq> (0 :: u32)" if "g \<in> set (registeredWorkGroups m)" for g
  proof -
    from that obtain i where i: "i < length (registeredWorkGroups m)" "g = registeredWorkGroups m ! i"
      by (auto simp: in_set_conv_nth)
    have len: "length specs = length (registeredWorkGroups m)" using assms(1) by (rule list_all2_lengthD)
    obtain w t k d where w: "specs ! i = (w, t, k, d)" by (cases "specs ! i")
    then have "(w, t, k, d) \<in> set specs" using i(1) len by (metis nth_mem)
    then have "w \<noteq> 0" using assms(2) by auto
    moreover have "length (workers g) = unat w"
      using list_all2_nthD2 [OF assms(1) i(1)] i(2) w by (simp add: group_at_def)
    ultimately show ?thesis by simp
  qed
  then show ?thesis
    by (auto simp: main_arrivals_def waits_once_def on_behalf_of_def on_behalf_def)
qed

text \<open>
  The waits of the workers, read off the loop of their threads. A worker takes part in the ticks that the step of its group
  divides: between two of them the macro barrier holds it, so its round number \<open>j\<close>, counted from the
  start, is the one of tick \<open>j * groupStep\<close>. The groups are those of the start, when their threads are launched.
\<close>

definition round_of :: "bool \<Rightarrow> work_group \<Rightarrow> nat \<Rightarrow> worker \<Rightarrow> worker_action list" where
  "round_of midT g j w =
     (let rs = loop_rounds (Suc j) midT (shared_barriers g) (macro_barrier g) w in if j < length rs then rs ! j else [])"

definition waits_of :: "worker_action \<Rightarrow> worker_action list \<Rightarrow> arrival list" where
  "waits_of act round = map (\<lambda>_. Wait 1) (filter (\<lambda>a. a = act) round)"

definition group_waits :: "worker_action \<Rightarrow> bool \<Rightarrow> nat \<Rightarrow> work_group \<Rightarrow> arrival list" where
  "group_waits act midT n g =
     (if unat (groupStep g) dvd n
      then concat (map (\<lambda>w. waits_of act (round_of midT g (n div unat (groupStep g)) w)) (workers g)) else [])"

definition worker_arrivals :: "worker_action \<Rightarrow> bool \<Rightarrow> nat \<Rightarrow> wg_manager \<Rightarrow> arrival list" where
  "worker_arrivals act midT n m0 = concat (map (group_waits act midT n) (registeredWorkGroups m0))"

lemma active_rounds:
  assumes "\<And>i. i \<le> j \<Longrightarrow> active ((advance_tick ^^ i) w)"
  shows "length (loop_rounds (Suc j) mt bs macro w) = Suc j \<and>
    loop_rounds (Suc j) mt bs macro w ! j = loop_round mt bs macro ((advance_tick ^^ j) w)"
  using assms
proof (induction j arbitrary: w)
  case 0
  then show ?case using 0 [of 0] by simp
next
  case (Suc j)
  have "active ((advance_tick ^^ i) (advance_tick w))" if "i \<le> j" for i
    using Suc.prems [of "Suc i"] that by (simp add: funpow_swap1)
  from Suc.IH [OF this] Suc.prems [of 0] show ?case by (simp add: funpow_swap1)
qed

lemma advanced_worker:
  "tickStep ((advance_tick ^^ i) w) = tickStep w \<and> endTick ((advance_tick ^^ i) w) = endTick w \<and>
   currTick ((advance_tick ^^ i) w) = currTick w + of_nat i * tickStep w \<and>
   (active ((advance_tick ^^ i) w) \<longleftrightarrow>
     (if i = 0 then active w else endTick w = 0 \<or> currTick w + of_nat i * tickStep w < endTick w))"
  by (induction i) (simp_all add: algebra_simps)

lemma round_waits_once:
  fixes k d t :: u32
  assumes "w = worker_start d (newWorker a t k)" "k \<noteq> 0" "unat k dvd n" "unat d + n < (if t = 0 then 2 ^ 32 else unat t)"
    and "act = FrameTickWait \<and> (\<not> midT \<or> 0 < n) \<or> act = BuffFlipWait \<or> act = AuraWait" "shared_barriers g"
  shows "waits_of act (round_of midT g (n div unat k) w) = [Wait 1]"
proof -
  let ?j = "n div unat k"
  have j: "?j * unat k = n" using assms(3) by simp
  have le: "unat d + i * unat k \<le> unat d + n" if "i \<le> ?j" for i
    using that j by (metis add_left_mono mult_le_mono1)
  have lim: "unat d + n < 2 ^ 32"
  proof (cases "t = 0")
    case False
    with assms(4) have "unat d + n < unat t" by simp
    also have "unat t < 2 ^ 32" using unsigned_less [of t] by simp
    finally show ?thesis .
  qed (use assms(4) in simp)
  have at: "currTick ((advance_tick ^^ i) w) = of_nat (unat d + i * unat k)" for i
    using advanced_worker [of i w] by (simp add: assms(1) worker_start_def newWorker_def)
  have val: "unat (of_nat (unat d + i * unat k) :: u32) = unat d + i * unat k" if "i \<le> ?j" for i
  proof -
    have "unat d + i * unat k < 2 ^ LENGTH(32)" using le [OF that] lim by simp
    then show ?thesis by (simp only: unat_of_nat mod_less)
  qed
  have "active ((advance_tick ^^ i) w)" if i: "i \<le> ?j" for i
  proof (cases "t = 0 \<or> i = 0")
    case True
    then show ?thesis using advanced_worker [of i w] by (auto simp: assms(1) worker_start_def newWorker_def)
  next
    case False
    have "unat (currTick ((advance_tick ^^ i) w)) < unat t" using val [OF i] le [OF i] False assms(4) by (simp add: at del: of_nat_add)
    then have "currTick ((advance_tick ^^ i) w) < t" by (simp add: word_less_nat_alt)
    then show ?thesis using advanced_worker [of i w] False by (auto simp: assms(1) worker_start_def newWorker_def)
  qed
  from active_rounds [OF this, of ?j midT "shared_barriers g" "macro_barrier g"]
  have r: "round_of midT g ?j w = loop_round midT True (macro_barrier g) ((advance_tick ^^ ?j) w)"
    by (simp add: round_of_def Let_def assms(6) del: loop_rounds.simps)
  have "currTick ((advance_tick ^^ ?j) w) \<noteq> 0" if "0 < n"
  proof
    assume "currTick ((advance_tick ^^ ?j) w) = 0"
    then have "unat d + ?j * unat k = 0" using val [of ?j] by (simp add: at del: of_nat_add of_nat_mult)
    with j that show False by simp
  qed
  with assms(5) show ?thesis unfolding r by (auto simp: loop_round_def waits_of_def)
qed

lemma worker_arrivals_once:
  assumes "set_up False specs alloc ld a pub b th = Inr (b1, m0)" "list_all2 (group_at n) specs (registeredWorkGroups m)"
    and "\<forall>(w, t, k, d) \<in> set specs. k \<noteq> 0 \<and> unat d + n < (if t = 0 then 2 ^ 32 else unat t)"
    and "act = FrameTickWait \<and> (\<not> midT \<or> 0 < n) \<or> act = BuffFlipWait \<or> act = AuraWait"
  shows "worker_arrivals act midT n m0 = waits_once m"
proof -
  have s: "list_all2 started_group specs (registeredWorkGroups m0)" using set_up_multi [OF assms(1)] by simp
  have len: "length specs = length (registeredWorkGroups m)" "length specs = length (registeredWorkGroups m0)"
    using list_all2_lengthD [OF assms(2)] list_all2_lengthD [OF s] by simp_all
  have "group_waits act midT n (registeredWorkGroups m0 ! i) =
      (if tickOffset (registeredWorkGroups m ! i) = 0 then replicate (length (workers (registeredWorkGroups m ! i))) (Wait 1) else [])"
    if i: "i < length specs" for i
  proof -
    obtain w t k d where spec: "specs ! i = (w, t, k, d)" by (cases "specs ! i")
    let ?h = "registeredWorkGroups m0 ! i" and ?g = "registeredWorkGroups m ! i"
    have k: "k \<noteq> 0" "unat d + n < (if t = 0 then 2 ^ 32 else unat t)"
      using assms(3) nth_mem [OF i] by (auto simp: spec)
    have g0: "length (workers ?h) = unat w" "groupStep ?h = k" "shared_barriers ?h"
        "\<forall>w \<in> set (workers ?h). \<exists>a. w = worker_start d (newWorker a t k)"
      using list_all2_nthD [OF s i] by (simp_all add: started_group_def spec)
    have g: "length (workers ?g) = unat w" "tickOffset ?g = offset_at k n"
      using list_all2_nthD [OF assms(2) i] k(1) by (simp_all add: group_at_def spec)
    have "map (\<lambda>w. waits_of act (round_of midT ?h (n div unat k) w)) (workers ?h) = replicate (unat w) [Wait 1]" if "unat k dvd n"
    proof (rule replicate_eqI)
      fix y assume "y \<in> set (map (\<lambda>w. waits_of act (round_of midT ?h (n div unat k) w)) (workers ?h))"
      then obtain v where v: "v \<in> set (workers ?h)" "y = waits_of act (round_of midT ?h (n div unat k) v)" by auto
      from v(1) g0(4) obtain c where "v = worker_start d (newWorker c t k)" by blast
      then show "y = [Wait 1]" unfolding v(2) using round_waits_once that assms(4) k g0(3) by blast
    qed (simp add: g0(1))
    moreover have "concat (replicate (unat w) [Wait 1]) = replicate (unat w) (Wait 1)" by (induction "unat w") auto
    ultimately show ?thesis
      using offset_at_eq_0 [OF k(1), of n] by (auto simp: group_waits_def g g0(2))
  qed
  then have "map (group_waits act midT n) (registeredWorkGroups m0) =
      map (\<lambda>g. if tickOffset g = 0 then replicate (length (workers g)) (Wait 1) else []) (registeredWorkGroups m)"
    using len by (simp add: list_eq_iff_nth_eq)
  then show ?thesis by (simp add: worker_arrivals_def waits_once_def)
qed

text \<open>Whatever the order in which the parties come, one round is completed and the barrier is ready for the next.\<close>

definition completes_round :: "barrier \<Rightarrow> arrival list \<Rightarrow> bool" where
  "completes_round fb as \<longleftrightarrow>
     (\<forall>cs. mset cs = mset as \<longrightarrow> run_list arrive fb cs = Inr (fb\<lparr>m_generation := m_generation fb + 1\<rparr>))"

lemma arrivals_complete_round:
  assumes "list_all2 (group_at n) specs (registeredWorkGroups m)"
    and "1 + (\<Sum>(w, _)\<leftarrow>specs. unat w) < 2 ^ 32" "\<forall>(w, _) \<in> set specs. w \<noteq> 0"
    and "m_threshold fb = of_nat (1 + (\<Sum>(w, _)\<leftarrow>specs. unat w))" "m_count fb = m_threshold fb" "mb \<noteq> None"
  shows "completes_round fb (main_arrivals m mb @ waits_once m)"
  unfolding completes_round_def
proof (intro allI impI)
  fix cs assume cs: "mset cs = mset (main_arrivals m mb @ waits_once m)"
  have threshold: "unat (m_threshold fb) = 1 + (\<Sum>(w, _)\<leftarrow>specs. unat w)"
    unfolding assms(4) using assms(2) by (simp only: unat_of_nat) (simp add: take_bit_nat_eq_self)
  have tot: "total_amount cs = unat (m_count fb)"
    using total_amount_mset [OF cs] main_and_workers [OF assms(1,6)] threshold assms(5) by simp
  have "set cs = set (main_arrivals m mb @ waits_once m)" using cs by (rule mset_eq_setD)
  then have pos: "\<forall>x \<in> set cs. amount_of x \<noteq> 0" using arrivals_positive [OF assms(1,3)] by simp
  have ok: "barrier_ok fb" using threshold assms(5) by (simp add: barrier_ok_def word_less_nat_alt)
  have "run_list arrive fb cs = Inr (fb\<lparr>m_count := m_threshold fb, m_generation := m_generation fb + 1\<rparr>)"
    using arrivals_complete [OF ok _ pos] tot by (simp add: total_amount_def)
  moreover have "fb\<lparr>m_count := m_threshold fb, m_generation := m_generation fb + 1\<rparr> = fb\<lparr>m_generation := m_generation fb + 1\<rparr>"
    using assms(5) by (cases fb) simp
  ultimately show "run_list arrive fb cs = Inr (fb\<lparr>m_generation := m_generation fb + 1\<rparr>)" by simp
qed

section \<open>Staging\<close>

text \<open>On entities that exist the queue of pending entities is a priority queue by start time.\<close>

definition start_later :: "('v, 'm, 's) entity_class \<Rightarrow> entity \<Rightarrow> entity \<Rightarrow> bool" where
  "start_later ec x y \<longleftrightarrow> startTime ec x > startTime ec y"

interpretation startq: prio_queue "start_later ec" "pq_push (start_later ec)" pq_top pq_pop mset
    "sorted_wrt (\<lambda>x y. \<not> start_later ec x y)" for ec :: "('v, 'm, 's) entity_class"
proof
  fix x :: entity and q
  show "sorted_wrt (\<lambda>x y. \<not> start_later ec x y) (pq_push (start_later ec) x q)"
    if "sorted_wrt (\<lambda>x y. \<not> start_later ec x y) q"
    using that by (rule pq_push_sorted [rotated 2]) (auto simp: start_later_def)
  show "sorted_wrt (\<lambda>x y. \<not> start_later ec x y) (pq_pop q)"
    if "sorted_wrt (\<lambda>x y. \<not> start_later ec x y) q"
    using that by (cases q) (simp_all add: pq_pop_def)
qed (auto simp: pq_push_mset pq_top_def pq_pop_def start_later_def neq_Nil_conv split: list.splits)

lemma pq_push_start: "x \<noteq> 0 \<Longrightarrow> 0 \<notin> set q \<Longrightarrow> pq_push (cmp_agent_start ec) x q = pq_push (start_later ec) x q"
  by (induction q) (auto simp: cmp_agent_start_def start_later_def)

definition push_all :: "('v, 'm, 's) entity_class \<Rightarrow> entity list \<Rightarrow> entity list \<Rightarrow> entity list" where
  "push_all ec q es = foldl (\<lambda>q e. pq_push (cmp_agent_start ec) e q) q es"

lemma push_all_mset: "mset (push_all ec q es) = mset (q @ es)"
  unfolding push_all_def by (induction es arbitrary: q) (simp_all add: pq_push_mset)

lemma push_all_sorted:
  "0 \<notin> set (q @ es) \<Longrightarrow> sorted_wrt (\<lambda>x y. \<not> start_later ec x y) q \<Longrightarrow>
   sorted_wrt (\<lambda>x y. \<not> start_later ec x y) (push_all ec q es)"
proof (induction es arbitrary: q)
  case (Cons e es)
  have "set (pq_push (cmp_agent_start ec) e q) = insert e (set q)"
    using pq_push_mset [of "cmp_agent_start ec" e q] by (metis set_mset_add_mset_insert set_mset_mset)
  with Cons startq.ok_push [of ec q e] pq_push_start [of e q ec] show ?case by (simp add: push_all_def)
qed (simp add: push_all_def)

lemma schedule_all:
  "hasLoader g \<Longrightarrow> run_list (scheduleEntity ec) (p, g) es = Inr (p\<lparr>pending_source := push_all ec (pending_source p) es\<rparr>, g)"
  by (induction es arbitrary: p) (simp_all add: scheduleEntity_def push_all_def)

definition no_bred :: "worker \<Rightarrow> worker" where
  "no_bred w = w\<lparr>entityBredList := []\<rparr>"

lemma no_bred_simps [simp]:
  "toBeAdded (no_bred w) = toBeAdded w" "entityBredList (no_bred w) = []"
  by (simp_all add: no_bred_def)

lemma push_all_append: "push_all ec (push_all ec q xs) ys = push_all ec q (xs @ ys)"
  by (simp add: push_all_def)

lemma schedule_bred_step:
  "hasLoader g \<Longrightarrow> schedule_bred ec (p, g) i =
     Inr (p\<lparr>pending_source := push_all ec (pending_source p) (entityBredList (workers g ! i))\<rparr>,
          g\<lparr>workers := (workers g)[i := no_bred (workers g ! i)]\<rparr>)"
  by (simp add: schedule_bred_def schedule_all no_bred_def)

lemma schedule_bred_all:
  assumes "hasLoader g" "n \<le> length (workers g)"
  shows "run_list (schedule_bred ec) (p, g) [0..<n] =
    Inr (p\<lparr>pending_source := push_all ec (pending_source p) (concat (map entityBredList (take n (workers g))))\<rparr>,
         g\<lparr>workers := map no_bred (take n (workers g)) @ drop n (workers g)\<rparr>)"
  using assms(2)
proof (induction n)
  case (Suc n)
  then have at: "(map no_bred (take n (workers g)) @ drop n (workers g)) ! n = workers g ! n"
    "(map no_bred (take n (workers g)) @ drop n (workers g))[n := no_bred (workers g ! n)] =
       map no_bred (take (Suc n) (workers g)) @ drop (Suc n) (workers g)"
    by (simp_all add: nth_append list_update_append take_Suc_conv_app_nth Cons_nth_drop_Suc [symmetric])
  have "n \<le> length (workers g)" using Suc.prems by simp
  from Suc.IH [OF this] Suc.prems assms(1) at show ?case
    by (simp add: run_list_append schedule_bred_step push_all_append take_Suc_conv_app_nth)
qed (simp add: push_all_def)

lemma dropWhile_later:
  "sorted_wrt (\<lambda>x y. f x \<le> f y) q \<Longrightarrow> x \<in> set (dropWhile (\<lambda>e. f e \<le> t) q) \<Longrightarrow> t < (f x :: u32)"
  by (induction q) (auto simp: not_le split: if_splits)

text \<open>What the entities that are due and new get: the workers in turn.\<close>

definition turns :: "nat \<Rightarrow> nat \<Rightarrow> nat \<Rightarrow> nat set" where
  "turns start n i = {j. (start + j) mod n = i}"

lemma turns_step: "{j. Suc j \<in> turns start n i} = turns ((start + 1) mod n) n i"
  by (simp add: turns_def mod_add_left_eq)

definition staged :: "('v, 'm, 's) entity_class \<Rightarrow> u32 \<Rightarrow> entity list \<Rightarrow> ('v, 'm, 's) grouped \<Rightarrow> ('v, 'm, 's) grouped \<Rightarrow> bool" where
  "staged ec t q s s' \<longleftrightarrow>
     (case (s, s') of ((p, g), (p', g')) \<Rightarrow>
        let due = takeWhile (\<lambda>e. startTime ec e \<le> t) q;
            fresh = filter (\<lambda>e. e \<notin> set (entity_dest p)) due
        in pending_source p' = dropWhile (\<lambda>e. startTime ec e \<le> t) q \<and>
           set (entity_dest p') = set (entity_dest p) \<union> set due \<and> length (workers g') = length (workers g) \<and>
           nextWorkerID g' = (nextWorkerID g + length fresh) mod length (workers g) \<and>
           (\<forall>i < length (workers g). toBeAdded (workers g' ! i) =
              toBeAdded (workers g ! i) @ nths fresh (turns (nextWorkerID g) (length (workers g)) i)))"

lemma assignAWorker_turn:
  assumes "run_mode cfg \<noteq> MidTerm" "assignment cfg = ASSIGN_ROUNDROBIN" "nextWorkerID g < length (workers g)"
  shows "\<exists>p'. assignAWorker cfg ec (p, g) e =
    Inr (p', g\<lparr>workers := (workers g)[nextWorkerID g := scheduleForAddition (workers g ! nextWorkerID g) e],
               nextWorkerID := (nextWorkerID g + 1) mod length (workers g)\<rparr>) \<and>
    entity_dest p' = entity_dest p \<and> pending_source p' = pending_source p"
  using assms by (auto simp: assignAWorker_def assign_to_def Let_def)

lemma stage_loop_staged:
  assumes "run_mode cfg \<noteq> MidTerm" "assignment cfg = ASSIGN_ROUNDROBIN" "0 \<notin> set q" "distinct q"
    "nextWorkerID g < length (workers g)"
  shows "\<exists>s'. stage_loop cfg ec t q (p, g) = Inr s' \<and> staged ec t q (p, g) s'"
  using assms(3-5)
proof (induction q arbitrary: p g)
  case Nil
  then show ?case by (simp add: staged_def)
next
  case (Cons e q)
  show ?case
  proof (cases "startTime ec e \<le> t")
    case False
    with Cons.prems show ?thesis by (simp add: staged_def)
  next
    case due: True
    show ?thesis
    proof (cases "e \<in> set (entity_dest p)")
      case True
      with due Cons.prems assms(1) have "stage_loop cfg ec t (e # q) (p, g) = stage_loop cfg ec t q (p, g)"
        by (simp add: stage_entity_def)
      with Cons.IH [of g p] Cons.prems True due show ?thesis by (auto simp: staged_def Let_def)
    next
      case False
      let ?p = "p\<lparr>entity_dest := std_insert e (entity_dest p)\<rparr>"
      let ?g = "g\<lparr>workers := (workers g)[nextWorkerID g := scheduleForAddition (workers g ! nextWorkerID g) e],
        nextWorkerID := (nextWorkerID g + 1) mod length (workers g)\<rparr>"
      obtain p1 where p1: "assignAWorker cfg ec (?p, g) e = Inr (p1, ?g)" "entity_dest p1 = entity_dest ?p"
        using assignAWorker_turn [OF assms(1,2) Cons.prems(3), of ec ?p e] by auto
      have step: "stage_loop cfg ec t (e # q) (p, g) = stage_loop cfg ec t q (p1, ?g)"
        using due Cons.prems assms(1) False p1(1) by (simp add: stage_entity_def)
      have n: "0 < length (workers g)" using Cons.prems(3) by auto
      then have "nextWorkerID ?g < length (workers ?g)" by simp
      from Cons.IH [OF _ _ this, of p1] Cons.prems obtain p2 g2 where
        r: "stage_loop cfg ec t q (p1, ?g) = Inr (p2, g2)" "staged ec t q (p1, ?g) (p2, g2)" by auto
      let ?due = "takeWhile (\<lambda>e. startTime ec e \<le> t) q"
      let ?fresh = "filter (\<lambda>e. e \<notin> set (entity_dest p)) ?due"
      have "e \<notin> set ?due" using Cons.prems(2) by (auto dest: set_takeWhileD)
      then have fresh: "filter (\<lambda>e. e \<notin> set (entity_dest p1)) ?due = ?fresh"
        by (intro filter_cong) (auto simp: p1(2))
      have all: "filter (\<lambda>e. e \<notin> set (entity_dest p)) (takeWhile (\<lambda>e. startTime ec e \<le> t) (e # q)) = e # ?fresh"
        using due False by simp
      have at: "toBeAdded (workers ?g ! i) = toBeAdded (workers g ! i) @ (if i = nextWorkerID g then [e] else [])"
        if "i < length (workers g)" for i
        using that by (auto simp: nth_list_update scheduleForAddition_def)
      have turn: "0 \<in> turns (nextWorkerID g) (length (workers g)) i \<longleftrightarrow> i = nextWorkerID g" for i
        using Cons.prems(3) by (auto simp: turns_def)
      have "staged ec t (e # q) (p, g) (p2, g2)"
        unfolding staged_def Let_def prod.case all
      proof (intro conjI allI impI)
        show "pending_source p2 = dropWhile (\<lambda>e. startTime ec e \<le> t) (e # q)"
          using r(2) due by (simp add: staged_def Let_def)
        show "set (entity_dest p2) = set (entity_dest p) \<union> set (takeWhile (\<lambda>e. startTime ec e \<le> t) (e # q))"
          using r(2) due p1(2) by (auto simp: staged_def Let_def)
        show "length (workers g2) = length (workers g)" using r(2) by (simp add: staged_def Let_def)
        show "nextWorkerID g2 = (nextWorkerID g + length (e # ?fresh)) mod length (workers g)"
          using r(2) fresh by (simp add: staged_def Let_def mod_simps)
        fix i assume i: "i < length (workers g)"
        have "toBeAdded (workers g2 ! i) = toBeAdded (workers ?g ! i) @
            nths ?fresh (turns ((nextWorkerID g + 1) mod length (workers g)) (length (workers g)) i)"
          using r(2) fresh i by (simp add: staged_def Let_def)
        then show "toBeAdded (workers g2 ! i) = toBeAdded (workers g ! i) @
            nths (e # ?fresh) (turns (nextWorkerID g) (length (workers g)) i)"
          unfolding at [OF i] by (auto simp: nths_Cons turn turns_step)
      qed
      with step r(1) show ?thesis by auto
    qed
  qed
qed

lemma set_up_single:
  assumes "set_up True specs alloc ld a pub b th = Inr (b1, m)"
  shows "msgBusBarr m = None \<and> currState m = STARTED"
proof -
  obtain m1 m2 where r: "run_list add_group (newManager\<lparr>singleThreaded := True\<rparr>) specs = Inr m1"
    "initAllGroups a pub b th m1 = Inr (b1, m2)" "startAllWorkGroups (initAllWorkers alloc ld m2) = Inr m"
    using assms by (auto simp: set_up_def result_Inr setSingleThreadMode_def)
  note g1 = add_groups [OF r(1)]
  have "msgBusBarr m2 = None"
    using r(2) g1 by (auto simp: initAllGroups_def guard_Inr Let_def on_groups_def newManager_def split: sum.splits if_splits)
  then show ?thesis
    using r(3) by (auto simp: startAllWorkGroups_def result_Inr initAllWorkers_def on_groups_def)
qed

section \<open>A concrete simulation\<close>

text \<open>A group of two workers that updates in every tick and one with a single worker in every other tick.\<close>

definition example_specs :: "(u32 \<times> u32 \<times> u32 \<times> u32) list" where
  "example_specs = [(2, 10, 1, 0), (1, 10, 2, 0)]"

definition example_config :: "run_mode \<Rightarrow> sim_config" where
  "example_config r = \<lparr>run_mode = r, assignment = ASSIGN_ROUNDROBIN, baseGranMS = 100\<rparr>"

definition example_env :: "(nat, unit) bus_env" where
  "example_env = \<lparr>runningMidTerm = False, react = (\<lambda>s x. (s, []))\<rparr>"

definition example_pool :: "(nat, unit) bus \<Rightarrow> (nat, nat, unit) pool" where
  "example_pool b =
     \<lparr>the_world = example_world\<lparr>the_bus := b\<rparr>, pending_source = [], entity_dest = [], activeAgents = [],
      auraRegistered = [], deleted = []\<rparr>"

definition example_set_up :: "bool \<Rightarrow> (worker_error, (nat, unit) bus \<times> wg_manager) result" where
  "example_set_up single = set_up single example_specs (\<lambda>g i. 100 + 10 * g + i) (\<lambda>g. False) 20 21 (newBus ()) 1"

definition example_ticks :: "run_mode \<Rightarrow> (nat, unit) bus \<times> wg_manager \<Rightarrow> nat \<Rightarrow>
   (worker_error, (nat, nat, unit) pool \<times> wg_manager) result" where
  "example_ticks r s n =
     (case s of (b, m) \<Rightarrow> whole_ticks (example_config r) example_class example_env 1 n (example_pool b, m))"

definition example_ok :: "run_mode \<Rightarrow> bool" where
  "example_ok r =
     (case example_set_up False of
        Inl _ \<Rightarrow> False
      | Inr s \<Rightarrow>
          (case example_ticks r s 1 of
             Inl _ \<Rightarrow> False
           | Inr (p, m) \<Rightarrow>
               (case waitAllGroups (example_config r) example_class example_env 1 (p, m) of
                  Inl _ \<Rightarrow> False
                | Inr (s', as1, as2, as3) \<Rightarrow>
                    as1 = [Contribute 1, Wait 1] \<and> worker_arrivals FrameTickWait False 1 (snd s) = [Wait 1, Wait 1])))"

lemma example_ok_both: "example_ok ShortTerm" "example_ok MidTerm"
  by code_simp+

lemma simulation_run:
  assumes "example_ok r"
  obtains b m0 p m s' as1 as2 as3 where
    "set_up False example_specs (\<lambda>g i. 100 + 10 * g + i) (\<lambda>g. False) 20 21 (newBus ()) 1 = Inr (b, m0)"
    "whole_ticks (example_config r) example_class example_env 1 1 (example_pool b, m0) = Inr (p, m)"
    "waitAllGroups (example_config r) example_class example_env 1 (p, m) = Inr (s', as1, as2, as3)"
    "as1 = [Contribute 1, Wait 1]" "worker_arrivals FrameTickWait False 1 m0 = [Wait 1, Wait 1]"
proof -
  from assms obtain b m0 where s: "example_set_up False = Inr (b, m0)"
    by (cases "example_set_up False") (auto simp: example_ok_def)
  with assms obtain p m where t: "example_ticks r (b, m0) 1 = Inr (p, m)"
    by (cases "example_ticks r (b, m0) 1") (auto simp: example_ok_def)
  with assms s obtain s' as1 as2 as3 where
    w: "waitAllGroups (example_config r) example_class example_env 1 (p, m) = Inr (s', as1, as2, as3)"
    by (cases "waitAllGroups (example_config r) example_class example_env 1 (p, m)") (auto simp: example_ok_def)
  show thesis
    by (rule that [of b m0 p m s' as1 as2 as3]) (use assms s t w in \<open>simp_all add: example_ok_def example_set_up_def example_ticks_def\<close>)
qed

section \<open>Properties\<close>

text \<open>
  C4: in every tick of a multi-threaded run the arrivals of the main thread and those that the workers' loops make in that
  tick complete exactly one round of the barrier, in whatever order they come, none of them overflows it, and it is ready
  for the next tick. This holds at the frame-tick barrier (in the mid-term simulator from the second tick on; in the first
  one everybody waits there once more), at the buffer-flip barrier, and at the message barrier if the simulator is the
  short-term one or no group skips the tick; a group that skips a tick is counted by the main thread. The groups have
  workers and steps above zero, the number of workers fits the barrier's counter, and the tick is one of the simulation's.
\<close>

theorem tick_barriers_complete:
  assumes "set_up False specs alloc ld a pub b th = Inr (b1, m0)"
    and "whole_ticks cfg ec env th n (p0, m0) = Inr (p, m)"
    and "waitAllGroups cfg ec env th (p, m) = Inr (s', as1, as2, as3)"
    and "1 + (\<Sum>(w, _)\<leftarrow>specs. unat w) < 2 ^ 32"
    and "\<forall>(w, t, k, d) \<in> set specs. w \<noteq> 0 \<and> k \<noteq> 0 \<and> unat d + n < (if t = 0 then 2 ^ 32 else unat t)"
    and "m_threshold fb = of_nat (1 + (\<Sum>(w, _)\<leftarrow>specs. unat w))" "m_count fb = m_threshold fb"
    and "midT \<longleftrightarrow> run_mode cfg = MidTerm"
  shows "(\<not> midT \<or> 0 < n \<longrightarrow> completes_round fb (as1 @ worker_arrivals FrameTickWait midT n m0)) \<and>
    completes_round fb (as2 @ worker_arrivals BuffFlipWait midT n m0) \<and>
    (run_mode cfg = ShortTerm \<or> (\<forall>(w, t, k, d) \<in> set specs. unat k dvd n) \<longrightarrow>
      completes_round fb (as3 @ worker_arrivals AuraWait midT n m0))"
proof -
  obtain p' m' where s': "s' = (p', m')" by (cases s')
  obtain fb' where g: "list_all2 (group_at n) specs (registeredWorkGroups m)" "frameTickBarr m = Some fb'"
    "buffFlipBarr m = Some fb'" "msgBusBarr m = Some fb'"
    using whole_ticks_groups [OF assms(1,2)] by auto
  have as: "as1 = main_arrivals m (Some fb')" "as2 = as1" "as3 = (if run_mode cfg = ShortTerm then as1 else [Wait 1])"
    using tick_each [of cfg ec env th p m p' m' as1 as2 as3] assms(3) g(2-4) by (simp_all add: s')
  have all: "as1 = [Wait 1]" if every: "\<forall>(w, t, k, d) \<in> set specs. unat k dvd n"
  proof -
    have "on_behalf_of x = []" if x: "x \<in> set (registeredWorkGroups m)" for x
    proof -
      obtain i where i: "i < length (registeredWorkGroups m)" "x = registeredWorkGroups m ! i"
        using x by (auto simp: in_set_conv_nth)
      obtain w t k d where spec: "specs ! i = (w, t, k, d)" by (cases "specs ! i")
      have "(w, t, k, d) \<in> set specs" using i(1) list_all2_lengthD [OF g(1)] spec by (metis nth_mem)
      with every assms(5) have "unat k dvd n" "k \<noteq> 0" by auto
      then show ?thesis using list_all2_nthD2 [OF g(1) i(1)] offset_at_eq_0 [of k n]
        by (simp add: group_at_def spec i(2) on_behalf_of_def)
    qed
    then have "concat (map on_behalf_of (registeredWorkGroups m)) = []" by simp
    then show ?thesis by (simp only: as(1) main_arrivals_def) simp
  qed
  have ws: "\<forall>(w, _) \<in> set specs. w \<noteq> 0"
      "\<forall>(w, t, k, d) \<in> set specs. k \<noteq> 0 \<and> unat d + n < (if t = 0 then 2 ^ 32 else unat t)"
    using assms(5) by auto
  note w = worker_arrivals_once [OF assms(1) g(1) ws(2)]
  have c: "completes_round fb (as1 @ waits_once m)"
    unfolding as(1) using arrivals_complete_round [OF g(1) assms(4) ws(1) assms(6,7)] by simp
  then show ?thesis using w [of FrameTickWait midT] w [of BuffFlipWait midT] w [of AuraWait midT] as(2,3) all by auto
qed

theorem tick_barriers_complete_witness:
  "\<exists>b m0 p m s' as1 as2 as3. example_set_up False = Inr (b, m0) \<and> example_ticks ShortTerm (b, m0) 1 = Inr (p, m) \<and>
     waitAllGroups (example_config ShortTerm) example_class example_env 1 (p, m) = Inr (s', as1, as2, as3) \<and>
     worker_arrivals FrameTickWait False 1 m0 = [Wait 1, Wait 1] \<and> as1 = [Contribute 1, Wait 1] \<and>
     completes_round \<lparr>m_threshold = 4, m_count = 4, m_generation = 7\<rparr> [Contribute 1, Wait 1, Wait 1, Wait 1]"
proof -
  obtain b m0 p m s' as1 as2 as3 where
    r: "set_up False example_specs (\<lambda>g i. 100 + 10 * g + i) (\<lambda>g. False) 20 21 (newBus ()) 1 = Inr (b, m0)"
    "whole_ticks (example_config ShortTerm) example_class example_env 1 1 (example_pool b, m0) = Inr (p, m)"
    "waitAllGroups (example_config ShortTerm) example_class example_env 1 (p, m) = Inr (s', as1, as2, as3)"
    "as1 = [Contribute 1, Wait 1]" "worker_arrivals FrameTickWait False 1 m0 = [Wait 1, Wait 1]"
    by (rule simulation_run [OF example_ok_both(1)])
  from tick_barriers_complete [OF r(1-3), of "\<lparr>m_threshold = 4, m_count = 4, m_generation = 7\<rparr>" False]
  have "completes_round \<lparr>m_threshold = 4, m_count = 4, m_generation = 7\<rparr> (as1 @ worker_arrivals FrameTickWait False 1 m0)"
    by (simp add: example_specs_def example_config_def)
  with r show ?thesis by (auto simp: example_set_up_def example_ticks_def)
qed

text \<open>
  C37: outside the short-term simulator the main thread does not count the workers of the groups that
  skip a tick at the message barrier: in such a tick of a multi-threaded run no arrangement of its arrival and those that
  the workers' loops make completes a round there, and everyone who waits at the barrier keeps waiting.
\<close>

theorem message_barrier_stuck:
  assumes "set_up False specs alloc ld a pub b th = Inr (b1, m0)"
    and "whole_ticks cfg ec env th n (p0, m0) = Inr (p, m)"
    and "waitAllGroups cfg ec env th (p, m) = Inr (s', as1, as2, as3)"
    and "1 + (\<Sum>(w, _)\<leftarrow>specs. unat w) < 2 ^ 32"
    and "\<forall>(w, t, k, d) \<in> set specs. w \<noteq> 0 \<and> k \<noteq> 0 \<and> unat d + n < (if t = 0 then 2 ^ 32 else unat t)"
    and "m_threshold fb = of_nat (1 + (\<Sum>(w, _)\<leftarrow>specs. unat w))" "m_count fb = m_threshold fb"
    and "run_mode cfg \<noteq> ShortTerm" "(w0, t0, k0, d0) \<in> set specs" "\<not> unat k0 dvd n"
    and "mset as = mset (as3 @ worker_arrivals AuraWait midT n m0)"
  shows "\<exists>fb'. run_list arrive fb as = Inr fb' \<and> m_generation fb' = m_generation fb"
proof -
  obtain p' m' where s': "s' = (p', m')" by (cases s')
  obtain b' where g: "list_all2 (group_at n) specs (registeredWorkGroups m)" "msgBusBarr m = Some b'"
    using whole_ticks_groups [OF assms(1,2)] by auto
  have as3: "as3 = [Wait 1]"
    using tick_each [of cfg ec env th p m p' m' as1 as2 as3] assms(3,8) g(2) by (simp add: s')
  have threshold: "unat (m_threshold fb) = 1 + (\<Sum>(w, _)\<leftarrow>specs. unat w)"
    unfolding assms(6) using assms(4) by (simp only: unat_of_nat) (simp add: take_bit_nat_eq_self)
  have ws: "\<forall>(w, _) \<in> set specs. w \<noteq> 0"
      "\<forall>(w, t, k, d) \<in> set specs. k \<noteq> 0 \<and> unat d + n < (if t = 0 then 2 ^ 32 else unat t)"
    using assms(5) by auto
  have arr: "worker_arrivals AuraWait midT n m0 = waits_once m"
    using worker_arrivals_once [OF assms(1) g(1) ws(2), of AuraWait midT] by simp
  obtain i where i: "i < length specs" "specs ! i = (w0, t0, k0, d0)" using assms(9) by (auto simp: in_set_conv_nth)
  let ?g = "registeredWorkGroups m ! i"
  have grp: "?g \<in> set (registeredWorkGroups m)" "shared_barriers ?g" "tickOffset ?g \<noteq> 0"
    using i list_all2_lengthD [OF g(1)] list_all2_nthD [OF g(1) i(1)] assms(5,9,10) offset_at_eq_0 [of k0 n]
    by (auto simp: group_at_def)
  then have "on_behalf_of ?g = [Contribute (of_nat (length (workers ?g)))]"
    by (simp add: on_behalf_of_def on_behalf_def)
  then have "Contribute (of_nat (length (workers ?g))) \<in> set (on_behalf_of ?g)" by simp
  then have "Contribute (of_nat (length (workers ?g))) \<in> set (concat (map on_behalf_of (registeredWorkGroups m)))"
    using grp(1) by auto
  then have c: "unat (of_nat (length (workers ?g)) :: u32) \<le> total_amount (concat (map on_behalf_of (registeredWorkGroups m)))"
    "of_nat (length (workers ?g)) \<noteq> (0 :: u32)"
    using member_le_sum_list [of "unat (of_nat (length (workers ?g)) :: u32)" "map (\<lambda>a. unat (amount_of a)) (concat (map on_behalf_of (registeredWorkGroups m)))"]
      arrivals_positive [OF g(1) ws(1), of None]
    by (force simp: total_amount_def main_arrivals_def)+
  then have "0 < total_amount (concat (map on_behalf_of (registeredWorkGroups m)))" by (metis gr0I le_zero_eq unat_eq_0)
  then have "total_amount as < unat (m_count fb)"
    using total_amount_mset [OF assms(11)] total_amounts [OF g(1)] threshold assms(7) by (simp add: as3 arr waits_once_def)
  moreover have "barrier_ok fb" using threshold assms(7) by (simp add: barrier_ok_def word_less_nat_alt)
  ultimately show ?thesis using arrivals_partial [of fb as] by (auto simp: total_amount_def)
qed

theorem message_barrier_stuck_witness:
  "\<exists>b m0 p m s' as1 as2 as3 fb'. example_set_up False = Inr (b, m0) \<and> example_ticks MidTerm (b, m0) 1 = Inr (p, m) \<and>
     waitAllGroups (example_config MidTerm) example_class example_env 1 (p, m) = Inr (s', as1, as2, as3) \<and>
     run_list arrive \<lparr>m_threshold = 4, m_count = 4, m_generation = 7\<rparr> (as3 @ worker_arrivals AuraWait True 1 m0) = Inr fb' \<and>
     m_generation fb' = 7"
proof -
  obtain b m0 p m s' as1 as2 as3 where
    r: "set_up False example_specs (\<lambda>g i. 100 + 10 * g + i) (\<lambda>g. False) 20 21 (newBus ()) 1 = Inr (b, m0)"
    "whole_ticks (example_config MidTerm) example_class example_env 1 1 (example_pool b, m0) = Inr (p, m)"
    "waitAllGroups (example_config MidTerm) example_class example_env 1 (p, m) = Inr (s', as1, as2, as3)"
    by (rule simulation_run [OF example_ok_both(2)])
  from message_barrier_stuck [OF r, of "\<lparr>m_threshold = 4, m_count = 4, m_generation = 7\<rparr>" 1 10 2 0
      "as3 @ worker_arrivals AuraWait True 1 m0" True]
  have "\<exists>fb'. run_list arrive \<lparr>m_threshold = 4, m_count = 4, m_generation = 7\<rparr> (as3 @ worker_arrivals AuraWait True 1 m0) = Inr fb' \<and>
      m_generation fb' = 7"
    by (simp add: example_specs_def example_config_def)
  with r show ?thesis by (auto simp: example_set_up_def example_ticks_def)
qed

text \<open>
  C25: in a run of the manager, a group with step \<open>k\<close> updates exactly in the ticks that \<open>k\<close> divides; in
  such a tick its clock is set to the tick and its next update is planned \<open>k\<close> ticks later, in
  all others its clock stays.
\<close>

theorem group_updates_every_step:
  assumes "set_up False specs alloc ld a pub b th = Inr (b1, m0)"
    and "whole_ticks cfg ec env th n (p0, m0) = Inr (p, m)"
    and "waitAllGroups cfg ec env th (p, m) = Inr ((p', m'), as)"
    and "i < length specs" "specs ! i = (w, t, k, d)" "k \<noteq> 0"
  shows "(tickOffset (registeredWorkGroups m ! i) = 0 \<longleftrightarrow> unat k dvd n) \<and>
    tick_clock (registeredWorkGroups m' ! i) =
      (if unat k dvd n then (of_nat n, of_nat n + k) else tick_clock (registeredWorkGroups m ! i))"
proof -
  have g: "list_all2 (group_at n) specs (registeredWorkGroups m)"
    using whole_ticks_groups [OF assms(1,2)] by simp
  from list_all2_nthD [OF this assms(4)] assms(5,6)
  have at: "tickOffset (registeredWorkGroups m ! i) = offset_at k n" "groupStep (registeredWorkGroups m ! i) = k"
    "nextTimeTick (registeredWorkGroups m ! i) = of_nat n + tickOffset (registeredWorkGroups m ! i)"
    by (simp_all add: group_at_def)
  obtain as1 as2 as3 where "as = (as1, as2, as3)" by (cases as)
  with tick_each [of cfg ec env th p m p' m' as1 as2 as3] assms(3)
  have "list_all2 ticked (registeredWorkGroups m) (registeredWorkGroups m')" by (simp add: each_group_def)
  moreover have "i < length (registeredWorkGroups m)" using g assms(4) by (simp add: list_all2_lengthD)
  ultimately have "ticked (registeredWorkGroups m ! i) (registeredWorkGroups m' ! i)" by (rule list_all2_nthD)
  with at offset_at_eq_0 [OF assms(6), of n] show ?thesis by (simp add: ticked_def)
qed

theorem group_updates_every_step_witness:
  "\<exists>b m0 p m p' m' as. example_set_up False = Inr (b, m0) \<and> example_ticks ShortTerm (b, m0) 1 = Inr (p, m) \<and>
     waitAllGroups (example_config ShortTerm) example_class example_env 1 (p, m) = Inr ((p', m'), as) \<and>
     tickOffset (registeredWorkGroups m ! 0) = 0 \<and> tick_clock (registeredWorkGroups m' ! 0) = (1, 2) \<and>
     tickOffset (registeredWorkGroups m ! 1) \<noteq> 0"
proof -
  obtain b m0 p m s' as1 as2 as3 where
    r: "set_up False example_specs (\<lambda>g i. 100 + 10 * g + i) (\<lambda>g. False) 20 21 (newBus ()) 1 = Inr (b, m0)"
    "whole_ticks (example_config ShortTerm) example_class example_env 1 1 (example_pool b, m0) = Inr (p, m)"
    "waitAllGroups (example_config ShortTerm) example_class example_env 1 (p, m) = Inr (s', as1, as2, as3)"
    by (rule simulation_run [OF example_ok_both(1)])
  obtain p' m' where s': "s' = (p', m')" by (cases s')
  from group_updates_every_step [OF r(1,2) r(3) [unfolded s'], of 0 2 10 1 0]
    group_updates_every_step [OF r(1,2) r(3) [unfolded s'], of 1 1 10 2 0]
  have "tickOffset (registeredWorkGroups m ! 0) = 0 \<and> tick_clock (registeredWorkGroups m' ! 0) = (1, 2) \<and>
     tickOffset (registeredWorkGroups m ! 1) \<noteq> 0"
    by (simp add: example_specs_def)
  with r(1-3) s' show ?thesis by (auto simp: example_set_up_def example_ticks_def)
qed

text \<open>
  C33: a worker and its group agree on the macro barrier: if the simulation runs for \<open>n\<close> ticks, a worker
  with step \<open>k\<close> does one round for each tick in which its group updates, waits at the macro
  barrier as often as the main thread does, \<open>n div k\<close> times, and then stops.
\<close>

theorem macro_waits_agree:
  assumes "0 < n" "0 < k" "n + k < 2 ^ 32" "n \<le> fuel"
    and "tickOffset g = 0" "groupStep g = of_nat k" "macro_barrier g" "1 < k"
  shows "length (filter (\<lambda>r. MacroWait \<in> set r)
        (loop_rounds fuel mt bs True (worker_start 0 (newWorker a (of_nat n) (of_nat k))))) = n div k \<and>
    length (filter (\<lambda>i. snd (waitMacroTimeTick (((\<lambda>g. fst (waitMacroTimeTick g)) ^^ i) g))) [0..<n]) = n div k \<and>
    length (loop_rounds fuel mt bs True (worker_start 0 (newWorker a (of_nat n) (of_nat k)))) =
      length (filter (\<lambda>i. tickOffset (((\<lambda>g. fst (waitMacroTimeTick g)) ^^ i) g) = 0) [0..<n])"
proof -
  have k: "k < 2 ^ 32" using assms(3) by simp
  have step: "unat (of_nat k :: u32) = k" using k by (simp add: unat_of_nat take_bit_nat_eq_self)
  let ?at = "\<lambda>i. ((\<lambda>g. fst (waitMacroTimeTick g)) ^^ i) g"
  have at: "tickOffset (?at i) = of_nat ((k - i mod k) mod k)" "macro_barrier (?at i)" for i
    using tickOffset_run [OF assms(5,6,2) k, of i] assms(7) by simp_all
  have val: "unat (tickOffset (?at i)) = (k - i mod k) mod k" for i
  proof -
    have "(k - i mod k) mod k < 2 ^ 32" using k assms(2) by (meson less_trans mod_less_divisor)
    then show ?thesis unfolding at(1) by (simp add: unat_of_nat take_bit_nat_eq_self)
  qed
  have zero: "tickOffset (?at i) = 0 \<longleftrightarrow> i mod k = 0" for i
  proof -
    have "i mod k < k" using assms(2) by simp
    then have "(k - i mod k) mod k = 0 \<longleftrightarrow> i mod k = 0" by (cases "i mod k = 0") simp_all
    with val [of i] show ?thesis by (metis unat_eq_0)
  qed
  have one: "snd (waitMacroTimeTick (?at i)) \<longleftrightarrow> i mod k = k - 1" for i
  proof -
    have "i mod k < k" using assms(2) by simp
    then have "(k - i mod k) mod k = 1 \<longleftrightarrow> i mod k = k - 1" using assms(8) by (cases "i mod k = 0") auto
    with val [of i] at(2) [of i] show ?thesis by (simp add: word_unat_eq_iff)
  qed
  let ?w = "worker_start 0 (newWorker a (of_nat n) (of_nat k))"
  have "length (filter (\<lambda>r. MacroWait \<in> set r) (loop_rounds fuel mt bs True ?w)) = n div k - 0 \<and>
    length (loop_rounds fuel mt bs True ?w) = (n + k - 1) div k - 0"
    by (rule rounds_of_worker) (use assms in \<open>simp_all add: worker_start_def newWorker_def\<close>)
  then show ?thesis
    using count_last_of_step [OF assms(2), of n] count_first_of_step [OF assms(2), of n] unfolding one zero by simp
qed

theorem macro_waits_agree_witness:
  "length (filter (\<lambda>r. MacroWait \<in> set r)
     (loop_rounds 20 False True True (worker_start 0 (newWorker 7 (of_nat 10) (of_nat 3))))) = 3"
  using macro_waits_agree [of 10 3 20 "(newGroup 0 1 10 3 0)\<lparr>macro_barrier := True\<rparr>" False True 7]
  by (simp add: newGroup_def)

text \<open>
  C26: staging in the short-term and long-term simulators (the mid-term one loads the entities itself and gives none to a
  worker), for a group with a loader, with the round-robin strategy: the bred entities join the queue, which is ordered and
  holds no null and no repeated entity; the entities that start by the group's next update leave it and are recorded, each
  that was not recorded before goes to one worker, in the order of their start times and the workers in turn; the others
  stay in the queue, ordered, and start later.
\<close>

theorem stageEntities_in_turns:
  assumes "run_mode cfg \<noteq> MidTerm" "assignment cfg = ASSIGN_ROUNDROBIN" "hasLoader g"
    and "nextWorkerID g < length (workers g)"
    and "sorted_wrt (\<lambda>x y. \<not> start_later ec x y) (pending_source p)"
    and "0 \<notin> set (pending_source p @ concat (map entityBredList (workers g)))"
    and "distinct (pending_source p @ concat (map entityBredList (workers g)))"
  shows "\<exists>p' g' q. stageEntities cfg ec (p, g) = Inr (p', g') \<and>
    mset q = mset (pending_source p @ concat (map entityBredList (workers g))) \<and>
    sorted_wrt (\<lambda>x y. startTime ec x \<le> startTime ec y) q \<and>
    (\<forall>e \<in> set (pending_source p'). startTime ec e > nextTimeTick g * baseGranMS cfg) \<and>
    staged ec (nextTimeTick g * baseGranMS cfg) q (p, g) (p', g')"
proof -
  let ?q = "push_all ec (pending_source p) (concat (map entityBredList (workers g)))"
  let ?t = "nextTimeTick g * baseGranMS cfg"
  let ?p = "p\<lparr>pending_source := ?q\<rparr>" and ?g = "g\<lparr>workers := map no_bred (workers g)\<rparr>"
  have m: "mset ?q = mset (pending_source p @ concat (map entityBredList (workers g)))" by (rule push_all_mset)
  have "0 \<notin> set ?q" using assms(6) m by (metis mset_eq_setD)
  moreover have "distinct ?q" using assms(7) m by (metis mset_eq_imp_distinct_iff)
  moreover have "nextWorkerID ?g < length (workers ?g)" using assms(4) by simp
  ultimately obtain p' g' where r: "stage_loop cfg ec ?t ?q (?p, ?g) = Inr (p', g')" "staged ec ?t ?q (?p, ?g) (p', g')"
    using stage_loop_staged [OF assms(1,2), of ?q ?g ec ?t ?p] by auto
  have "stageEntities cfg ec (p, g) = Inr (p', g')"
    using schedule_bred_all [OF assms(3), of "length (workers g)" ec p] r(1) assms(3) by (simp add: stageEntities_def)
  moreover have s: "sorted_wrt (\<lambda>x y. startTime ec x \<le> startTime ec y) ?q"
    using push_all_sorted [OF assms(6,5)] by (simp add: start_later_def linorder_not_less)
  moreover have "staged ec ?t ?q (p, g) (p', g')"
    using r(2) by (auto simp: staged_def Let_def)
  moreover have "startTime ec e > ?t" if "e \<in> set (pending_source p')" for e
  proof -
    have "pending_source p' = dropWhile (\<lambda>e. startTime ec e \<le> ?t) ?q" using r(2) by (simp add: staged_def Let_def)
    with that show ?thesis using dropWhile_later [OF s] by simp
  qed
  ultimately show ?thesis using m by (intro exI [of _ p'] exI [of _ g'] exI [of _ ?q]) simp
qed

theorem stageEntities_in_turns_witness:
  "\<exists>p' g'. stageEntities (example_config ShortTerm) example_class
      ((example_pool (newBus ()))\<lparr>pending_source := [40, 90, 150], entity_dest := [90]\<rparr>,
       (newGroup 0 2 10 1 0)\<lparr>hasLoader := True, nextTimeTick := 1,
          workers := [newWorker 50 10 1, (newWorker 51 10 1)\<lparr>entityBredList := [60]\<rparr>]\<rparr>) = Inr (p', g') \<and>
     (\<forall>e \<in> set (pending_source p'). startTime example_class e > 100)"
  using stageEntities_in_turns [of "example_config ShortTerm"
      "(newGroup 0 2 10 1 0)\<lparr>hasLoader := True, nextTimeTick := 1,
          workers := [newWorker 50 10 1, (newWorker 51 10 1)\<lparr>entityBredList := [60]\<rparr>]\<rparr>" example_class
      "(example_pool (newBus ()))\<lparr>pending_source := [40, 90, 150], entity_dest := [90]\<rparr>"]
  by (auto simp: example_config_def newGroup_def newWorker_def example_pool_def start_later_def example_class_def)

text \<open>
  in single-threaded mode there is no message barrier and the manager never distributes messages:
  in every tick the message phase leaves the whole state as it is.
\<close>

theorem single_threaded_no_messages:
  assumes "set_up True specs alloc ld a pub b th = Inr (b1, m0)"
    and "whole_ticks cfg ec env th n (p0, m0) = Inr (p, m)"
  shows "waitAllGroups_DistributeMessages cfg ec env th ((q, removed), m) = Inr (((q, removed), m), [])"
proof -
  have "msgBusBarr m = None \<and> currState m = STARTED"
    using assms(2)
  proof (induction n arbitrary: p m)
    case 0
    with set_up_single [OF assms(1)] show ?case by simp
  next
    case (Suc n)
    then obtain p1 m1 as1 as2 as3 where r: "whole_ticks cfg ec env th n (p0, m0) = Inr (p1, m1)"
      "waitAllGroups cfg ec env th (p1, m1) = Inr ((p, m), as1, as2, as3)"
      by (auto simp: rbind_Inr)
    from tick_each [OF r(2)] Suc.IH [OF r(1)] show ?case by (simp add: each_group_def same_barriers_def)
  qed
  then show ?thesis by (simp add: waitAllGroups_DistributeMessages_def)
qed

theorem single_threaded_no_messages_witness:
  "\<exists>b m. example_set_up True = Inr (b, m) \<and>
     waitAllGroups_DistributeMessages (example_config ShortTerm) example_class example_env 1 ((example_pool b, []), m) =
       Inr (((example_pool b, []), m), [])"
proof -
  have "case example_set_up True of Inl _ \<Rightarrow> False | Inr _ \<Rightarrow> True" by code_simp
  then obtain b m where s: "example_set_up True = Inr (b, m)" by (cases "example_set_up True") auto
  from single_threaded_no_messages [OF s [unfolded example_set_up_def], of "example_config ShortTerm" example_class example_env 0]
    s show ?thesis by simp
qed

end
