(* ===== verification/Std_Permutations.thy ===== *)
theory Std_Permutations
  imports SM_Prelude
begin

text \<open>
  \<open>std::sort\<close> and \<open>std::next_permutation\<close> on lists with the comparison as a parameter, and the fact
  that the loop over \<open>next_permutation\<close> from a sorted list visits every permutation.
\<close>

section \<open>The algorithms\<close>

fun sort_insert :: "('a \<Rightarrow> 'a \<Rightarrow> bool) \<Rightarrow> 'a \<Rightarrow> 'a list \<Rightarrow> 'a list" where
  "sort_insert lt x [] = [x]"
| "sort_insert lt x (y # ys) = (if lt x y then x # y # ys else y # sort_insert lt x ys)"

definition std_sort :: "('a \<Rightarrow> 'a \<Rightarrow> bool) \<Rightarrow> 'a list \<Rightarrow> 'a list" where
  "std_sort lt xs = foldr (sort_insert lt) xs []"

text \<open>The last element above \<open>x\<close> is exchanged for \<open>x\<close>.\<close>

fun swap_last :: "('a \<Rightarrow> 'a \<Rightarrow> bool) \<Rightarrow> 'a \<Rightarrow> 'a list \<Rightarrow> ('a \<times> 'a list) option" where
  "swap_last lt x [] = None"
| "swap_last lt x (y # ys) =
     (case swap_last lt x ys of
        Some (z, zs) \<Rightarrow> Some (z, y # zs)
      | None \<Rightarrow> if lt x y then Some (y, x # ys) else None)"

text \<open>\<open>next_permutation\<close> works on the shortest suffix that has a successor; \<open>None\<close> is the result false.\<close>

fun next_permutation :: "('a \<Rightarrow> 'a \<Rightarrow> bool) \<Rightarrow> 'a list \<Rightarrow> 'a list option" where
  "next_permutation lt [] = None"
| "next_permutation lt (x # xs) =
     (case next_permutation lt xs of
        Some ys \<Rightarrow> Some (x # ys)
      | None \<Rightarrow>
          (case swap_last lt x xs of
             Some (y, ys) \<Rightarrow> Some (y # rev ys)
           | None \<Rightarrow> None))"

section \<open>Strict total orders\<close>

definition strict_total_on :: "('a \<Rightarrow> 'a \<Rightarrow> bool) \<Rightarrow> 'a set \<Rightarrow> bool" where
  "strict_total_on lt A \<longleftrightarrow> (\<forall>x \<in> A. \<not> lt x x) \<and> (\<forall>x \<in> A. \<forall>y \<in> A. \<forall>z \<in> A. lt x y \<longrightarrow> lt y z \<longrightarrow> lt x z) \<and>
     (\<forall>x \<in> A. \<forall>y \<in> A. x = y \<or> lt x y \<or> lt y x)"

lemma strict_total_subset: "strict_total_on lt A \<Longrightarrow> B \<subseteq> A \<Longrightarrow> strict_total_on lt B"
  unfolding strict_total_on_def by blast

lemma strict_total_irrefl: "strict_total_on lt A \<Longrightarrow> x \<in> A \<Longrightarrow> \<not> lt x x"
  by (simp add: strict_total_on_def)

lemma strict_total_trans:
  "strict_total_on lt A \<Longrightarrow> x \<in> A \<Longrightarrow> y \<in> A \<Longrightarrow> z \<in> A \<Longrightarrow> lt x y \<Longrightarrow> lt y z \<Longrightarrow> lt x z"
  unfolding strict_total_on_def by blast

lemma strict_total_total: "strict_total_on lt A \<Longrightarrow> x \<in> A \<Longrightarrow> y \<in> A \<Longrightarrow> x = y \<or> lt x y \<or> lt y x"
  unfolding strict_total_on_def by blast

lemma strict_total_asym: "strict_total_on lt A \<Longrightarrow> x \<in> A \<Longrightarrow> y \<in> A \<Longrightarrow> lt x y \<Longrightarrow> \<not> lt y x"
  using strict_total_trans [of lt A x y x] strict_total_irrefl [of lt A x] by blast

lemma strict_total_not_trans:
  assumes "strict_total_on lt A" "x \<in> A" "y \<in> A" "z \<in> A" "\<not> lt y x" "\<not> lt z y"
  shows "\<not> lt z x"
proof
  assume zx: "lt z x"
  have "z = y \<or> lt y z" using strict_total_total [OF assms(1), of z y] assms by blast
  then show False using strict_total_trans [OF assms(1), of y z x] zx assms by blast
qed

lemmas strict_totalD = strict_total_irrefl strict_total_asym strict_total_total strict_total_trans strict_total_not_trans

abbreviation ascending :: "('a \<Rightarrow> 'a \<Rightarrow> bool) \<Rightarrow> 'a list \<Rightarrow> bool" where
  "ascending lt \<equiv> sorted_wrt (\<lambda>x y. \<not> lt y x)"

abbreviation descending :: "('a \<Rightarrow> 'a \<Rightarrow> bool) \<Rightarrow> 'a list \<Rightarrow> bool" where
  "descending lt \<equiv> sorted_wrt (\<lambda>x y. \<not> lt x y)"

lemma mset_sort_insert [simp]: "mset (sort_insert lt x xs) = add_mset x (mset xs)"
  by (induction xs) auto

lemma set_sort_insert [simp]: "set (sort_insert lt x xs) = insert x (set xs)"
  by (induction xs) auto

lemma mset_std_sort [simp]: "mset (std_sort lt xs) = mset xs"
  unfolding std_sort_def by (induction xs) auto

lemma ascending_sort_insert:
  "strict_total_on lt (insert x (set xs)) \<Longrightarrow> ascending lt xs \<Longrightarrow> ascending lt (sort_insert lt x xs)"
proof (induction xs)
  case (Cons y ys)
  have t: "strict_total_on lt (insert x (set ys))" by (rule strict_total_subset [OF Cons.prems(1)]) auto
  show ?case
  proof (cases "lt x y")
    case True
    have "\<not> lt z x" if "z \<in> set ys" for z
      using True that Cons.prems strict_totalD(2) [OF Cons.prems(1), of x y] strict_totalD(5) [OF Cons.prems(1), of x y z]
      by auto
    with True Cons.prems strict_totalD(2) [OF Cons.prems(1), of x y] show ?thesis by auto
  next
    case False
    with Cons.IH [OF t] Cons.prems(2) show ?thesis by auto
  qed
qed simp

lemma ascending_std_sort: "strict_total_on lt (set xs) \<Longrightarrow> ascending lt (std_sort lt xs)"
proof (induction xs)
  case (Cons x xs)
  have "set (std_sort lt xs) = set xs" by (metis mset_std_sort mset_eq_setD)
  moreover have "strict_total_on lt (set xs)" by (rule strict_total_subset [OF Cons.prems]) auto
  ultimately show ?case
    using ascending_sort_insert [of lt x "std_sort lt xs"] Cons by (simp add: std_sort_def)
qed (simp add: std_sort_def)

section \<open>Lexicographic order\<close>

fun lex_less :: "('a \<Rightarrow> 'a \<Rightarrow> bool) \<Rightarrow> 'a list \<Rightarrow> 'a list \<Rightarrow> bool" where
  "lex_less lt (x # xs) (y # ys) \<longleftrightarrow> lt x y \<or> x = y \<and> lex_less lt xs ys"
| "lex_less lt _ _ \<longleftrightarrow> False"

lemma lex_less_trans:
  assumes "strict_total_on lt A" "set xs \<subseteq> A" "set ys \<subseteq> A" "set zs \<subseteq> A" "lex_less lt xs ys" "lex_less lt ys zs"
  shows "lex_less lt xs zs"
  using assms(2-)
proof (induction xs arbitrary: ys zs)
  case (Cons x xs)
  obtain y ys' z zs' where "ys = y # ys'" "zs = z # zs'" using Cons.prems by (cases ys; cases zs) auto
  with Cons.IH [of ys' zs'] Cons.prems strict_totalD(4) [OF assms(1), of x y z] show ?case by auto
qed simp

lemma lex_less_irrefl: "strict_total_on lt A \<Longrightarrow> set xs \<subseteq> A \<Longrightarrow> \<not> lex_less lt xs xs"
  by (induction xs) (auto dest: strict_totalD(1))

lemma perm_hd:
  "mset (z # zs) = mset (x # xs) \<Longrightarrow> z = x \<and> mset zs = mset xs \<or> z \<noteq> x \<and> z \<in> set xs"
  by (cases "z = x") (simp, metis list.set_intros(1) mset_eq_setD set_ConsD)

lemma ascending_least:
  assumes "strict_total_on lt (set xs)" "ascending lt xs" "mset zs = mset xs"
  shows "zs = xs \<or> lex_less lt xs zs"
  using assms
proof (induction xs arbitrary: zs)
  case (Cons x xs)
  obtain z zs' where z: "zs = z # zs'" using Cons.prems(3) by (cases zs) auto
  from perm_hd [of z zs' x xs] Cons.prems(3) consider "z = x" "mset zs' = mset xs" | "z \<noteq> x" "z \<in> set xs"
    by (auto simp: z)
  then show ?case
  proof cases
    case 1
    have "strict_total_on lt (set xs)" by (rule strict_total_subset [OF Cons.prems(1)]) auto
    with Cons.IH [of zs'] Cons.prems(2) 1 show ?thesis by (auto simp: z)
  next
    case 2
    with Cons.prems(2) strict_totalD(3) [OF Cons.prems(1), of x z] show ?thesis by (auto simp: z)
  qed
qed simp

lemma swap_last_None: "swap_last lt x xs = None \<Longrightarrow> y \<in> set xs \<Longrightarrow> \<not> lt x y"
  by (induction xs) (auto split: option.splits if_splits)

lemma swap_last_Some:
  assumes "strict_total_on lt (insert x (set xs))" "descending lt xs" "swap_last lt x xs = Some (y, ys)"
  shows "lt x y \<and> y \<in> set xs \<and> add_mset y (mset ys) = add_mset x (mset xs) \<and> descending lt ys \<and>
    (\<forall>z \<in> set xs. lt x z \<longrightarrow> \<not> lt z y)"
  using assms
proof (induction xs arbitrary: y ys)
  case (Cons a xs)
  note t = Cons.prems(1)
  have t': "strict_total_on lt (insert x (set xs))" by (rule strict_total_subset [OF t]) auto
  show ?case
  proof (cases "swap_last lt x xs")
    case None
    then have a: "lt x a" "y = a" "ys = x # xs" using Cons.prems(3) by (auto split: if_splits)
    have "\<not> lt x z" if "z \<in> set xs" for z using swap_last_None [OF None that] .
    with a Cons.prems(2) strict_totalD(1) [OF t, of a] show ?thesis by auto
  next
    case (Some p)
    then obtain zs where zs: "swap_last lt x xs = Some (y, zs)" "ys = a # zs" using Cons.prems(3) by (cases p) auto
    have ih: "lt x y" "y \<in> set xs" "add_mset y (mset zs) = add_mset x (mset xs)" "descending lt zs"
      "\<forall>z \<in> set xs. lt x z \<longrightarrow> \<not> lt z y"
      using Cons.IH [OF t' _ zs(1)] Cons.prems(2) by auto
    have ya: "\<not> lt a y" using ih(2) Cons.prems(2) by auto
    have "\<not> lt a z" if "z \<in> set zs" for z
    proof -
      have "z \<in># add_mset y (mset zs)" using that by simp
      then have "z = x \<or> z \<in> set xs" unfolding ih(3) by auto
      moreover have "\<not> lt a x"
        using strict_totalD(4) [OF t, of a x y] ih(1,2) ya by auto
      ultimately show ?thesis using Cons.prems(2) by auto
    qed
    with ih zs(2) ya show ?thesis by (auto simp: add_mset_commute [of y a])
  qed
qed simp

lemma next_permutation_None:
  assumes "strict_total_on lt (set xs)" "next_permutation lt xs = None"
  shows "descending lt xs"
  using assms
proof (induction xs)
  case (Cons x xs)
  have "strict_total_on lt (set xs)" by (rule strict_total_subset [OF Cons.prems(1)]) auto
  moreover have "next_permutation lt xs = None" "swap_last lt x xs = None"
    using Cons.prems(2) by (auto split: option.splits)
  ultimately show ?case using Cons.IH swap_last_None [of lt x xs] by auto
qed simp

lemma descending_greatest:
  assumes "strict_total_on lt (set xs)" "descending lt xs" "mset zs = mset xs"
  shows "zs = xs \<or> lex_less lt zs xs"
  using assms
proof (induction xs arbitrary: zs)
  case (Cons x xs)
  obtain z zs' where z: "zs = z # zs'" using Cons.prems(3) by (cases zs) auto
  from perm_hd [of z zs' x xs] Cons.prems(3) consider "z = x" "mset zs' = mset xs" | "z \<noteq> x" "z \<in> set xs"
    by (auto simp: z)
  then show ?case
  proof cases
    case 1
    have "strict_total_on lt (set xs)" by (rule strict_total_subset [OF Cons.prems(1)]) auto
    with Cons.IH [of zs'] Cons.prems(2) 1 show ?thesis by (auto simp: z)
  next
    case 2
    with Cons.prems(2) strict_totalD(3) [OF Cons.prems(1), of x z] show ?thesis by (auto simp: z)
  qed
qed simp

lemma next_permutation_mset:
  "strict_total_on lt (set xs) \<Longrightarrow> next_permutation lt xs = Some ys \<Longrightarrow> mset ys = mset xs"
proof (induction xs arbitrary: ys)
  case (Cons x xs)
  have t: "strict_total_on lt (set xs)" by (rule strict_total_subset [OF Cons.prems(1)]) auto
  show ?case
  proof (cases "next_permutation lt xs")
    case None
    then obtain y zs where s: "swap_last lt x xs = Some (y, zs)" "ys = y # rev zs"
      using Cons.prems(2) by (auto split: option.splits)
    from swap_last_Some [OF _ next_permutation_None [OF t None] s(1)] Cons.prems(1) s(2) show ?thesis by simp
  next
    case (Some zs)
    with Cons.IH [OF t Some] Cons.prems(2) show ?thesis by auto
  qed
qed simp

text \<open>\<open>next_permutation\<close> gives the next permutation in lexicographic order.\<close>

lemma next_permutation_next:
  assumes "strict_total_on lt (set xs)" "next_permutation lt xs = Some ys"
  shows "lex_less lt xs ys \<and> (\<forall>zs. mset zs = mset xs \<longrightarrow> lex_less lt xs zs \<longrightarrow> zs = ys \<or> lex_less lt ys zs)"
  using assms
proof (induction xs arbitrary: ys)
  case (Cons x xs)
  have t: "strict_total_on lt (set xs)" by (rule strict_total_subset [OF Cons.prems(1)]) auto
  show ?case
  proof (cases "next_permutation lt xs")
    case (Some zs)
    then have ys: "ys = x # zs" using Cons.prems(2) by simp
    note ih = Cons.IH [OF t Some]
    have "us = ys \<or> lex_less lt ys us" if u: "mset us = mset (x # xs)" "lex_less lt (x # xs) us" for us
    proof -
      obtain z us' where z: "us = z # us'" using u by (cases us) auto
      from perm_hd [of z us' x xs] u ih show ?thesis
        by (auto simp: z ys dest: strict_totalD(1) [OF Cons.prems(1)])
    qed
    with ih show ?thesis by (simp add: ys)
  next
    case None
    then obtain y zs where s: "swap_last lt x xs = Some (y, zs)" "ys = y # rev zs"
      using Cons.prems(2) by (auto split: option.splits)
    have desc: "descending lt xs" by (rule next_permutation_None [OF t None])
    have sw: "lt x y" "y \<in> set xs" "add_mset y (mset zs) = add_mset x (mset xs)" "descending lt zs"
      "\<forall>z \<in> set xs. lt x z \<longrightarrow> \<not> lt z y"
      using swap_last_Some [OF _ desc s(1)] Cons.prems(1) by simp_all
    have "set zs \<subseteq> set (x # xs)"
    proof
      fix u assume "u \<in> set zs"
      then have "u \<in># add_mset y (mset zs)" by simp
      then show "u \<in> set (x # xs)" unfolding sw(3) by simp
    qed
    then have tz: "strict_total_on lt (set (rev zs))" using strict_total_subset [OF Cons.prems(1)] by simp
    have asc: "ascending lt (rev zs)" using sw(4) by (simp add: sorted_wrt_rev)
    have "us = ys \<or> lex_less lt ys us" if u: "mset us = mset (x # xs)" "lex_less lt (x # xs) us" for us
    proof -
      obtain z us' where z: "us = z # us'" using u by (cases us) auto
      from perm_hd [of z us' x xs] u(1) consider "z = x" "mset us' = mset xs" | "z \<noteq> x" "z \<in> set xs" by (auto simp: z)
      then show ?thesis
      proof cases
        case 1
        then have "lex_less lt xs us'" using u(2) strict_totalD(1) [OF Cons.prems(1), of x] by (auto simp: z)
        with descending_greatest [OF t desc 1(2)] lex_less_irrefl [OF t, of xs] lex_less_trans [OF t, of xs us' xs]
          mset_eq_setD [OF 1(2)] show ?thesis by auto
      next
        case 2
        then have xz: "lt x z" using u(2) by (auto simp: z)
        show ?thesis
        proof (cases "z = y")
          case True
          then have "add_mset y (mset us') = add_mset y (mset zs)" using u(1) sw(3) by (simp add: z)
          then have "mset us' = mset (rev zs)" by (simp only: add_mset_add_mset_same_iff mset_rev)
          with ascending_least [OF tz asc] True show ?thesis by (auto simp: z s(2))
        next
          case False
          then have "lt y z" using strict_totalD(3) [OF Cons.prems(1), of y z] sw(2,5) 2(2) xz by auto
          then show ?thesis by (simp add: z s(2))
        qed
      qed
    qed
    with sw(1) show ?thesis by (simp add: s(2))
  qed
qed simp

section \<open>The loop over the permutations\<close>

text \<open>What the loop visits from a list on, as a relation.\<close>

inductive visits :: "('a \<Rightarrow> 'a \<Rightarrow> bool) \<Rightarrow> 'a list \<Rightarrow> 'a list list \<Rightarrow> bool" for lt where
  last_one: "next_permutation lt xs = None \<Longrightarrow> visits lt xs [xs]"
| another: "next_permutation lt xs = Some ys \<Longrightarrow> visits lt ys zss \<Longrightarrow> visits lt xs (xs # zss)"

lemma finite_permutations: "finite {zs. mset zs = M}"
proof (cases "\<exists>xs. mset xs = M")
  case True
  then obtain xs where "mset xs = M" ..
  then have "{zs. mset zs = M} \<subseteq> {zs. set zs \<subseteq> set xs \<and> length zs = length xs}"
    by (auto dest: mset_eq_setD mset_eq_length)
  then show ?thesis by (rule finite_subset) (rule finite_lists_length_eq, simp)
qed simp

lemma visits_all_later:
  assumes "strict_total_on lt (set xs)"
  shows "\<exists>zss. visits lt xs zss \<and> set zss = {zs. mset zs = mset xs \<and> (zs = xs \<or> lex_less lt xs zs)}"
  using assms
proof (induction "card {zs. mset zs = mset xs \<and> lex_less lt xs zs}" arbitrary: xs rule: less_induct)
  case less
  show ?case
  proof (cases "next_permutation lt xs")
    case None
    have "\<not> lex_less lt xs zs" if "mset zs = mset xs" for zs
    proof
      assume "lex_less lt xs zs"
      with descending_greatest [OF less.prems next_permutation_None [OF less.prems None] that]
        lex_less_irrefl [OF less.prems, of xs] lex_less_trans [OF less.prems, of xs zs xs] mset_eq_setD [OF that]
      show False by auto
    qed
    with last_one [OF None] show ?thesis by (intro exI [of _ "[xs]"]) auto
  next
    case (Some ys)
    have m: "mset ys = mset xs" by (rule next_permutation_mset [OF less.prems Some])
    then have s: "set ys = set xs" by (rule mset_eq_setD)
    note n = next_permutation_next [OF less.prems Some]
    have later: "lex_less lt xs zs \<longleftrightarrow> zs = ys \<or> lex_less lt ys zs" if "mset zs = mset xs" for zs
      using n that lex_less_trans [OF less.prems, of xs ys zs] s mset_eq_setD [OF that] by auto
    let ?A = "{zs. mset zs = mset ys \<and> lex_less lt ys zs}"
    have "{zs. mset zs = mset xs \<and> lex_less lt xs zs} = insert ys ?A" using later m by auto
    moreover have "ys \<notin> ?A" using lex_less_irrefl [OF less.prems, of ys] s by simp
    moreover have "finite ?A" by (rule finite_subset [OF _ finite_permutations [of "mset ys"]]) auto
    ultimately have "card ?A < card {zs. mset zs = mset xs \<and> lex_less lt xs zs}" by simp
    from less.hyps [OF this] less.prems s obtain zss where
      z: "visits lt ys zss" "set zss = {zs. mset zs = mset ys \<and> (zs = ys \<or> lex_less lt ys zs)}" by auto
    have "set (xs # zss) = {zs. mset zs = mset xs \<and> (zs = xs \<or> lex_less lt xs zs)}"
      using z(2) later m by auto
    with another [OF Some z(1)] show ?thesis by blast
  qed
qed

lemma visits_all:
  assumes "strict_total_on lt (set xs)"
  shows "\<exists>zss. visits lt (std_sort lt xs) zss \<and> set zss = {zs. mset zs = mset xs}"
proof -
  have s: "set (std_sort lt xs) = set xs" by (metis mset_std_sort mset_eq_setD)
  then have t: "strict_total_on lt (set (std_sort lt xs))" using assms by simp
  from visits_all_later [OF t] ascending_least [OF t ascending_std_sort [OF assms]] show ?thesis
    by (auto simp: set_eq_iff)
qed

end
