(* ===== verification/Trip_Schedules.thy ===== *)
theory Trip_Schedules
  imports SM_Types Std_Permutations Complex_Main "HOL-Library.Char_ord" "HOL-Library.List_Lexorder"
begin

text \<open>
  Trip requests and schedules of the on-demand services:
  \<open>shared/message/MobilityServiceControllerMessage.cpp\<close> and \<open>.hpp\<close>. Persons, nodes and parkings are
  addresses. A \<open>double\<close> is a real number that every operation rounds with \<open>rnd\<close>; infinities and
  NaN are not modelled. The code is the release build (\<open>NDEBUG\<close>).
\<close>

section \<open>Requests and schedule items\<close>

datatype request_type = TRIP_REQUEST_SINGLE | TRIP_REQUEST_SHARED | TRIP_REQUEST_DEFAULT

record trip_request =
  timeOfRequest :: timeslice
  userId :: string
  startNode :: address
  destinationNode :: address
  requestType :: request_type
  person :: address
  extraTripTimeThreshold :: u32

definition newTripRequest :: trip_request where
  "newTripRequest =
     \<lparr>timeOfRequest = \<lparr>frame = 0, ms = 0\<rparr>, userId = ''no-id'', startNode = 0, destinationNode = 0,
      requestType = TRIP_REQUEST_DEFAULT, person = 0, extraTripTimeThreshold = 0\<rparr>"

definition trip_eq :: "trip_request \<Rightarrow> trip_request \<Rightarrow> bool" where
  "trip_eq r q \<longleftrightarrow> ts_eq (timeOfRequest r) (timeOfRequest q) \<and> person r = person q \<and> userId r = userId q \<and>
     startNode r = startNode q \<and> destinationNode r = destinationNode q \<and>
     extraTripTimeThreshold r = extraTripTimeThreshold q \<and> requestType r = requestType q"

definition trip_less :: "trip_request \<Rightarrow> trip_request \<Rightarrow> bool" where
  "trip_less r q \<longleftrightarrow>
     (if ts_less (timeOfRequest r) (timeOfRequest q) then True
      else if ts_eq (timeOfRequest r) (timeOfRequest q) \<and> userId r < userId q then True
      else False)"

definition trip_greater :: "trip_request \<Rightarrow> trip_request \<Rightarrow> bool" where
  "trip_greater r q \<longleftrightarrow> \<not> (trip_eq r q \<or> trip_less r q)"

datatype item_type = INVALID | PICKUP | DROPOFF | CRUISE | PARK

record schedule_item =
  scheduleItemType :: item_type
  tripRequest :: trip_request
  nodeToCruiseTo :: address
  parking :: address

definition newTripItem :: "item_type \<Rightarrow> trip_request \<Rightarrow> schedule_item" where
  "newTripItem ty r = \<lparr>scheduleItemType = ty, tripRequest = r, nodeToCruiseTo = 0, parking = 0\<rparr>"

definition newCruiseItem :: "item_type \<Rightarrow> address \<Rightarrow> schedule_item" where
  "newCruiseItem ty n = \<lparr>scheduleItemType = ty, tripRequest = newTripRequest, nodeToCruiseTo = n, parking = 0\<rparr>"

definition newParkItem :: "item_type \<Rightarrow> address \<Rightarrow> schedule_item" where
  "newParkItem ty p = \<lparr>scheduleItemType = ty, tripRequest = newTripRequest, nodeToCruiseTo = 0, parking = p\<rparr>"

definition item_less :: "schedule_item \<Rightarrow> schedule_item \<Rightarrow> bool" where
  "item_less x y \<longleftrightarrow>
     (if trip_less (tripRequest x) (tripRequest y) then True
      else if trip_eq (tripRequest x) (tripRequest y) \<and> scheduleItemType x = PICKUP \<and> scheduleItemType y = DROPOFF
      then True
      else False)"

definition item_eq :: "schedule_item \<Rightarrow> schedule_item \<Rightarrow> bool" where
  "item_eq x y \<longleftrightarrow>
     (case scheduleItemType x of
        PICKUP \<Rightarrow> scheduleItemType y = PICKUP \<and> trip_eq (tripRequest x) (tripRequest y)
      | DROPOFF \<Rightarrow> scheduleItemType y = DROPOFF \<and> trip_eq (tripRequest x) (tripRequest y)
      | CRUISE \<Rightarrow> scheduleItemType y = CRUISE \<and> nodeToCruiseTo x = nodeToCruiseTo y
      | PARK \<Rightarrow> scheduleItemType y = PARK \<and> parking x = parking y
      | INVALID \<Rightarrow> False)"

definition getNode :: "schedule_item \<Rightarrow> address" where
  "getNode x =
     (case scheduleItemType x of
        PICKUP \<Rightarrow> startNode (tripRequest x)
      | DROPOFF \<Rightarrow> destinationNode (tripRequest x)
      | _ \<Rightarrow> 0)"

section \<open>Schedules\<close>

text \<open>The positions of the nodes, and the rounding of the floating-point operations.\<close>

record geometry =
  posX :: "address \<Rightarrow> real"
  posY :: "address \<Rightarrow> real"
  rnd :: "real \<Rightarrow> real"

record schedule =
  items :: "schedule_item list"
  dropOffX :: real
  dropOffY :: real
  passengerCount :: i16

datatype schedule_error = EmptySchedule | BadPosition

definition newSchedule :: schedule where
  "newSchedule = \<lparr>items = [], dropOffX = 0, dropOffY = 0, passengerCount = 0\<rparr>"

definition add_to_barycenter :: "geometry \<Rightarrow> int \<Rightarrow> real \<Rightarrow> real \<Rightarrow> real" where
  "add_to_barycenter g n b x = rnd g (rnd g (rnd g (b * of_int n) + x) / of_int (n + 1))"

definition remove_from_barycenter :: "geometry \<Rightarrow> int \<Rightarrow> real \<Rightarrow> real \<Rightarrow> real" where
  "remove_from_barycenter g n b x = rnd g (rnd g (rnd g (b * of_int n) - x) / of_int (n + 1))"

definition onAddingScheduleItem :: "geometry \<Rightarrow> schedule_item \<Rightarrow> schedule \<Rightarrow> schedule" where
  "onAddingScheduleItem g x s =
     (case scheduleItemType x of
        DROPOFF \<Rightarrow>
          (let n = sint (passengerCount s); d = destinationNode (tripRequest x)
           in s\<lparr>dropOffX := add_to_barycenter g n (dropOffX s) (posX g d),
                dropOffY := add_to_barycenter g n (dropOffY s) (posY g d),
                passengerCount := passengerCount s + 1\<rparr>)
      | _ \<Rightarrow> s)"

definition onRemovingScheduleItem :: "geometry \<Rightarrow> schedule_item \<Rightarrow> schedule \<Rightarrow> schedule" where
  "onRemovingScheduleItem g x s =
     (case scheduleItemType x of
        DROPOFF \<Rightarrow>
          (let n = sint (passengerCount s); d = destinationNode (tripRequest x)
           in s\<lparr>dropOffX := remove_from_barycenter g n (dropOffX s) (posX g d),
                dropOffY := remove_from_barycenter g n (dropOffY s) (posY g d),
                passengerCount := passengerCount s - 1\<rparr>)
      | _ \<Rightarrow> s)"

definition push_back :: "geometry \<Rightarrow> schedule \<Rightarrow> schedule_item \<Rightarrow> schedule" where
  "push_back g s x = (let s1 = onAddingScheduleItem g x s in s1\<lparr>items := items s1 @ [x]\<rparr>)"

definition insert_item :: "geometry \<Rightarrow> schedule \<Rightarrow> nat \<Rightarrow> schedule_item \<Rightarrow> (schedule_error, schedule) result" where
  "insert_item g s n x =
     guard BadPosition (n \<le> length (items s))
       (Inr (onAddingScheduleItem g x (s\<lparr>items := take n (items s) @ x # drop n (items s)\<rparr>)))"

definition insert_items :: "geometry \<Rightarrow> schedule \<Rightarrow> nat \<Rightarrow> schedule_item list \<Rightarrow> (schedule_error, schedule) result" where
  "insert_items g s n xs =
     guard BadPosition (n \<le> length (items s))
       (Inr (foldl (\<lambda>s x. onAddingScheduleItem g x s) (s\<lparr>items := take n (items s) @ xs @ drop n (items s)\<rparr>) xs))"

definition sched_front :: "schedule \<Rightarrow> (schedule_error, schedule_item) result" where
  "sched_front s = (case items s of [] \<Rightarrow> Inl EmptySchedule | x # xs \<Rightarrow> Inr x)"

definition sched_back :: "schedule \<Rightarrow> (schedule_error, schedule_item) result" where
  "sched_back s = (if items s = [] then Inl EmptySchedule else Inr (last (items s)))"

definition pop_back :: "geometry \<Rightarrow> schedule \<Rightarrow> (schedule_error, schedule) result" where
  "pop_back g s =
     rbind (sched_back s) (\<lambda>x.
       let s1 = onRemovingScheduleItem g x s in Inr (s1\<lparr>items := butlast (items s1)\<rparr>))"

definition sched_erase :: "geometry \<Rightarrow> schedule \<Rightarrow> nat \<Rightarrow> (schedule_error, schedule) result" where
  "sched_erase g s n =
     guard BadPosition (n < length (items s))
       (let s1 = onRemovingScheduleItem g (items s ! n) s
        in Inr (s1\<lparr>items := take n (items s1) @ drop (Suc n) (items s1)\<rparr>))"

definition at_item :: "schedule \<Rightarrow> nat \<Rightarrow> (schedule_error, schedule_item) result" where
  "at_item s n = guard BadPosition (n < length (items s)) (Inr (items s ! n))"

definition findTrip :: "schedule \<Rightarrow> schedule_item \<Rightarrow> trip_request option" where
  "findTrip s x = map_option tripRequest (List.find (\<lambda>y. item_eq y x) (items s))"

section \<open>Facts about the operations\<close>

lemma sint_small16: "j < 2 ^ 15 \<Longrightarrow> sint (of_nat j :: i16) = int j"
  by (simp add: sint_uint unsigned_of_nat take_bit_nat_eq_self signed_take_bit_int_eq_self)

lemma adding_items [simp]: "items (onAddingScheduleItem g x s) = items s"
  by (simp add: onAddingScheduleItem_def Let_def split: item_type.split)

lemma removing_items [simp]: "items (onRemovingScheduleItem g x s) = items s"
  by (simp add: onRemovingScheduleItem_def Let_def split: item_type.split)

lemma items_push_back [simp]: "items (push_back g s x) = items s @ [x]"
  by (simp add: push_back_def Let_def)

lemma items_new [simp]: "items newSchedule = []" "passengerCount newSchedule = 0"
  by (simp_all add: newSchedule_def)

lemma items_foldl_adding [simp]: "items (foldl (\<lambda>s x. onAddingScheduleItem g x s) s xs) = items s"
  by (induction xs arbitrary: s) simp_all

lemma insert_item_Inr:
  "insert_item g s n x = Inr s' \<Longrightarrow> n \<le> length (items s) \<and> items s' = take n (items s) @ x # drop n (items s)"
  by (auto simp: insert_item_def guard_Inr)

lemma sched_erase_Inr:
  "sched_erase g s n = Inr s' \<Longrightarrow> n < length (items s) \<and> items s' = take n (items s) @ drop (Suc n) (items s)"
  by (auto simp: sched_erase_def guard_Inr Let_def)

lemma item_less_simp:
  "item_less x y \<longleftrightarrow> trip_less (tripRequest x) (tripRequest y) \<or>
     trip_eq (tripRequest x) (tripRequest y) \<and> scheduleItemType x = PICKUP \<and> scheduleItemType y = DROPOFF"
  by (auto simp: item_less_def)

text \<open>Items of a set of requests that are told apart by their time and user.\<close>

definition trip_key :: "trip_request \<Rightarrow> u32 \<times> string" where
  "trip_key r = (ms (timeOfRequest r), userId r)"

definition trip_items :: "schedule_item set \<Rightarrow> bool" where
  "trip_items A \<longleftrightarrow>
     (\<forall>x \<in> A. \<exists>ty r. x = newTripItem ty r \<and> ty \<in> {PICKUP, DROPOFF}) \<and>
     (\<forall>x \<in> A. \<forall>y \<in> A. trip_key (tripRequest x) = trip_key (tripRequest y) \<longrightarrow> tripRequest x = tripRequest y)"

lemma trip_less_key:
  "trip_less r q \<longleftrightarrow> ms (timeOfRequest r) < ms (timeOfRequest q) \<or>
     ms (timeOfRequest r) = ms (timeOfRequest q) \<and> userId r < userId q"
  by (auto simp: trip_less_def ts_less_def ts_eq_def)

lemma lex_pair_linear:
  fixes a c :: "'a :: linorder" and b d :: "'b :: linorder"
  shows "(a, b) \<noteq> (c, d) \<Longrightarrow> (a < c \<or> a = c \<and> b < d) \<or> (c < a \<or> c = a \<and> d < b)"
  by (cases a c rule: linorder_cases; cases b d rule: linorder_cases) auto

lemma lex_pair_trans:
  fixes a c e :: "'a :: linorder" and b d f :: "'b :: linorder"
  shows "a < c \<or> a = c \<and> b < d \<Longrightarrow> c < e \<or> c = e \<and> d < f \<Longrightarrow> a < e \<or> a = e \<and> b < f"
  by (auto dest: less_trans)

lemma trip_less_linear: "trip_key r \<noteq> trip_key q \<Longrightarrow> trip_less r q \<or> trip_less q r"
  unfolding trip_less_key trip_key_def by (rule lex_pair_linear)

lemma trip_less_trans: "trip_less r q \<Longrightarrow> trip_less q s \<Longrightarrow> trip_less r s"
  unfolding trip_less_key by (rule lex_pair_trans)

lemma trip_eq_key: "trip_eq r q \<Longrightarrow> trip_key r = trip_key q"
  by (simp add: trip_eq_def trip_key_def ts_eq_def)

lemma item_less_on:
  assumes "trip_items A" "x \<in> A" "y \<in> A"
  shows "item_less x y \<longleftrightarrow> trip_less (tripRequest x) (tripRequest y) \<or>
     tripRequest x = tripRequest y \<and> scheduleItemType x = PICKUP \<and> scheduleItemType y = DROPOFF"
proof -
  have "trip_eq (tripRequest x) (tripRequest y) \<longleftrightarrow> tripRequest x = tripRequest y"
    using assms trip_eq_key [of "tripRequest x" "tripRequest y"]
    by (auto simp: trip_items_def trip_eq_def ts_eq_def)
  then show ?thesis by (simp add: item_less_simp)
qed

lemma strict_total_items:
  assumes "trip_items A"
  shows "strict_total_on item_less A"
  unfolding strict_total_on_def
proof (intro conjI ballI impI)
  fix x assume x: "x \<in> A"
  show "\<not> item_less x x" using item_less_on [OF assms x x] by (simp add: trip_less_key)
  fix y assume y: "y \<in> A"
  show "x = y \<or> item_less x y \<or> item_less y x"
  proof (cases "trip_key (tripRequest x) = trip_key (tripRequest y)")
    case True
    then have r: "tripRequest x = tripRequest y" using assms x y by (auto simp: trip_items_def)
    obtain tx rx ty ry where "x = newTripItem tx rx" "tx \<in> {PICKUP, DROPOFF}" "y = newTripItem ty ry" "ty \<in> {PICKUP, DROPOFF}"
      using assms x y unfolding trip_items_def by blast
    with r item_less_on [OF assms x y] item_less_on [OF assms y x] show ?thesis by (auto simp: newTripItem_def)
  next
    case False
    then have "trip_less (tripRequest x) (tripRequest y) \<or> trip_less (tripRequest y) (tripRequest x)"
      by (rule trip_less_linear)
    with item_less_on [OF assms x y] item_less_on [OF assms y x] show ?thesis by blast
  qed
  fix z assume z: "z \<in> A" and "item_less x y" "item_less y z"
  then show "item_less x z"
    unfolding item_less_on [OF assms x y] item_less_on [OF assms y z] item_less_on [OF assms x z]
    by (elim disjE conjE) (auto dest: trip_less_trans)
qed

section \<open>Sequences of operations\<close>

datatype schedule_op = PushBack schedule_item | Insert nat schedule_item | PopBack | Erase nat

fun schedule_step :: "geometry \<Rightarrow> schedule \<Rightarrow> schedule_op \<Rightarrow> (schedule_error, schedule) result" where
  "schedule_step g s (PushBack x) = Inr (push_back g s x)"
| "schedule_step g s (Insert n x) = insert_item g s n x"
| "schedule_step g s PopBack = pop_back g s"
| "schedule_step g s (Erase n) = sched_erase g s n"

definition drop_offs :: "schedule_item list \<Rightarrow> schedule_item list" where
  "drop_offs xs = filter (\<lambda>x. scheduleItemType x = DROPOFF) xs"

lemma drop_offs_simps [simp]:
  "drop_offs [] = []" "drop_offs (xs @ ys) = drop_offs xs @ drop_offs ys"
  "drop_offs (x # xs) = (if scheduleItemType x = DROPOFF then x # drop_offs xs else drop_offs xs)"
  by (simp_all add: drop_offs_def)

lemma count_adding:
  "passengerCount (onAddingScheduleItem g x s) = passengerCount s + (if scheduleItemType x = DROPOFF then 1 else 0)"
  by (simp add: onAddingScheduleItem_def Let_def split: item_type.split)

lemma count_removing:
  "passengerCount (onRemovingScheduleItem g x s) = passengerCount s - (if scheduleItemType x = DROPOFF then 1 else 0)"
  by (simp add: onRemovingScheduleItem_def Let_def split: item_type.split)

definition count_ok :: "schedule \<Rightarrow> bool" where
  "count_ok s \<longleftrightarrow> passengerCount s = of_nat (length (drop_offs (items s)))"

lemma count_ok_step [sm_inv]:
  assumes "count_ok s" "schedule_step g s p = Inr s'"
  shows "count_ok s'"
proof (cases p)
  case (PushBack x)
  with assms show ?thesis by (auto simp: count_ok_def push_back_def Let_def count_adding)
next
  case (Insert n x)
  have "length (drop_offs (items s)) = length (drop_offs (take n (items s))) + length (drop_offs (drop n (items s)))"
    by (metis append_take_drop_id drop_offs_simps(2) length_append)
  with assms Insert show ?thesis by (auto simp: count_ok_def insert_item_def guard_Inr count_adding)
next
  case PopBack
  with assms obtain xs x where x: "items s = xs @ [x]"
    by (auto simp: pop_back_def sched_back_def rbind_Inr split: if_splits) (metis append_butlast_last_id)
  with assms PopBack show ?thesis
    by (auto simp: count_ok_def pop_back_def sched_back_def Let_def count_removing)
next
  case (Erase n)
  then have n: "n < length (items s)" using assms(2) by (auto simp: sched_erase_def guard_Inr)
  have "drop_offs (items s) = drop_offs (take n (items s)) @ drop_offs (items s ! n # drop (Suc n) (items s))"
    using n by (simp only: drop_offs_simps(2) [symmetric] id_take_nth_drop [symmetric])
  with assms Erase n show ?thesis by (auto simp: count_ok_def sched_erase_def Let_def count_removing)
qed

section \<open>Properties\<close>

text \<open>
  the passenger count of a schedule is the number of its drop-offs after any sequence of
  insertions and removals (in 16 bits).
\<close>

theorem passengerCount_counts_dropoffs:
  assumes "run_list (schedule_step g) newSchedule ps = Inr s"
  shows "passengerCount s = of_nat (length (drop_offs (items s)))"
  using run_list_invariant [of ps count_ok "schedule_step g" newSchedule s, OF count_ok_step _ assms]
  by (simp add: count_ok_def)

theorem passengerCount_counts_dropoffs_witness:
  "\<exists>s. run_list (schedule_step \<lparr>posX = \<lambda>n. 1, posY = \<lambda>n. 1, rnd = \<lambda>x. x\<rparr>) newSchedule
     [PushBack (newTripItem PICKUP newTripRequest), PushBack (newTripItem DROPOFF newTripRequest), Erase 0] = Inr s \<and>
     passengerCount s = 1"
proof -
  obtain s where s: "run_list (schedule_step \<lparr>posX = \<lambda>n. 1, posY = \<lambda>n. 1, rnd = \<lambda>x. x\<rparr>) newSchedule
     [PushBack (newTripItem PICKUP newTripRequest), PushBack (newTripItem DROPOFF newTripRequest), Erase 0] = Inr s"
    "items s = [newTripItem DROPOFF newTripRequest]"
    by (simp add: push_back_def onAddingScheduleItem_def onRemovingScheduleItem_def sched_erase_def newTripItem_def newSchedule_def Let_def)
  from passengerCount_counts_dropoffs [OF s(1)] s show ?thesis by (simp add: newTripItem_def)
qed

text \<open>
  taking a drop-off out of a schedule does not take its place out of the barycenter: even with
  exact arithmetic, adding a drop-off to a schedule with \<open>k\<close> of them and taking it out again
  moves the barycenter \<open>b\<close> to \<open>b * k / (k + 2)\<close>.
\<close>

theorem barycenter_after_removal:
  assumes "rnd g = (\<lambda>x. x)" "passengerCount s = of_nat k" "k + 1 < 2 ^ 15" "scheduleItemType x = DROPOFF"
    and "pop_back g (push_back g s x) = Inr s'"
  shows "items s' = items s \<and> passengerCount s' = passengerCount s \<and>
    dropOffX s' = dropOffX s * k / (k + 2) \<and> dropOffY s' = dropOffY s * k / (k + 2)"
proof -
  have n: "sint (of_nat k :: i16) = int k" "sint (of_nat (k + 1) :: i16) = int (k + 1)"
    using assms(3) by (simp_all only: sint_small16)
  have arith: "((b * k + y) / (k + 1) * (k + 1) - y) / (k + 1 + 1) = b * k / (k + 2)" for b y :: real
  proof -
    have cancel: "x / c * c = x" if "c \<noteq> 0" for x c :: real using that by simp
    have "(b * k + y) / (real k + 1) * (real k + 1) = b * k + y" by (rule cancel) linarith
    then show ?thesis by (simp add: add.commute)
  qed
  have n1: "sint (of_nat k + 1 :: i16) = int k + 1" using n(2) by (simp add: add.commute)
  have "s' = (onRemovingScheduleItem g x (push_back g s x))\<lparr>items := items s\<rparr>"
    using assms(5) by (simp add: pop_back_def sched_back_def Let_def)
  then show ?thesis
    using assms(1,2,4) arith
    by (simp add: push_back_def onAddingScheduleItem_def onRemovingScheduleItem_def Let_def
        add_to_barycenter_def remove_from_barycenter_def n(1) n1)
qed

theorem barycenter_after_removal_witness:
  "\<exists>s'. pop_back \<lparr>posX = \<lambda>n. 5, posY = \<lambda>n. 7, rnd = \<lambda>x. x\<rparr>
        (push_back \<lparr>posX = \<lambda>n. 5, posY = \<lambda>n. 7, rnd = \<lambda>x. x\<rparr>
           \<lparr>items = [newTripItem DROPOFF newTripRequest], dropOffX = 6, dropOffY = 9, passengerCount = 1\<rparr>
           (newTripItem DROPOFF newTripRequest)) = Inr s' \<and> dropOffX s' = 2"
proof -
  let ?g = "\<lparr>posX = \<lambda>n. 5, posY = \<lambda>n. 7, rnd = \<lambda>x. x\<rparr>"
  let ?s = "\<lparr>items = [newTripItem DROPOFF newTripRequest], dropOffX = 6, dropOffY = 9, passengerCount = 1\<rparr>"
  obtain s' where s: "pop_back ?g (push_back ?g ?s (newTripItem DROPOFF newTripRequest)) = Inr s'"
    by (simp add: pop_back_def sched_back_def Let_def)
  from barycenter_after_removal [OF _ _ _ _ s, of 1] s show ?thesis by (auto simp: newTripItem_def)
qed

end
