(* ===== verification/OnCall_Controller.thy ===== *)
theory OnCall_Controller
  imports Trip_Schedules
begin

text \<open>
  The controller of an on-demand service: \<open>shared/entities/controllers/MobilityServiceController.cpp\<close>,
  and \<open>OnCallController.cpp\<close>. The messages it posts are collected in \<open>outbox\<close>,
  logging is left out, and the code is the release build: the debug build's
  \<open>consistencyChecks\<close> is a predicate here. What the controller asks of the driver, of the route
  choice and of the parking index are functions of the environment.
\<close>

section \<open>State\<close>

datatype driver_status =
    DRIVE_START | CRUISING | DRIVE_TO_TAXISTAND | DRIVE_WITH_PASSENGER | DRIVE_FOR_DRIVER_CHANGE_SHIFT
  | QUEUING_AT_TAXISTAND | DRIVE_FOR_BREAK | DRIVER_IN_BREAK | DRIVE_ON_CALL | DRIVE_TO_PARKING | PARKED

text \<open>What \<open>MobilityServiceDriver\<close> answers.\<close>

record driver_view =
  driverStatus :: driver_status
  currentNode :: address
  numAssigned :: u32

datatype controller_type =
    SERVICE_CONTROLLER_UNKNOWN | SERVICE_CONTROLLER_ON_HAIL | SERVICE_CONTROLLER_GREEDY | SERVICE_CONTROLLER_SHARED
  | SERVICE_CONTROLLER_FRAZZOLI | SERVICE_CONTROLLER_INCREMENTAL | SERVICE_CONTROLLER_PROXIMITY | SERVICE_CONTROLLER_AMOD

datatype tt_estimate = OD_ESTIMATION | SHORTEST_PATH_ESTIMATION | EUCLIDEAN_ESTIMATION

record oc_config =
  controllerServiceType :: controller_type
  scheduleComputationPeriod :: u32
  ttEstimateType :: tt_estimate
  maxAggregatedRequests :: u32
  studyAreaEnabledController :: bool
  toleratedExtraTime :: u32
  maxWaitingTime :: u32
  parkingEnabled :: bool
  rebalancingInterval :: u32

record oc_env =
  geo :: geometry
  exportServiceDriver :: "address \<Rightarrow> driver_view option"
  sureToBeDeleted :: "address \<Rightarrow> bool"
  passengerCapacity :: "address \<Rightarrow> u32"
  od_time :: "address \<Rightarrow> address \<Rightarrow> u32 \<Rightarrow> real"
  od_time_study_area :: "address \<Rightarrow> address \<Rightarrow> u32 \<Rightarrow> real"
  shortest_time :: "address \<Rightarrow> address \<Rightarrow> u32 \<Rightarrow> real"
  studyAreaEnabled :: bool
  nearest_parking :: "real \<Rightarrow> real \<Rightarrow> address"
  dbl_max :: real
  map_order :: "(address \<times> schedule) list \<Rightarrow> (address \<times> schedule) list"

datatype oc_message =
    MSG_UNSUBSCRIBE_SUCCESSFUL
  | MSG_DELAY_SHIFT_END
  | MSG_SCHEDULE_PROPOSITION timeslice schedule
  | MSG_SCHEDULE_UPDATE timeslice schedule

record oc_state =
  subscribedDrivers :: "address list"
  availableDrivers :: "address list"
  requestQueue :: "trip_request list"
  partiallyAvailableDrivers :: "address list"
  driversServingSharedReq :: "address list"
  currentReq :: "address \<rightharpoonup> schedule_item"
  driverSchedules :: "address \<rightharpoonup> schedule"
  localTick :: u32
  nextRebalancingFrame :: u32
  currTime :: timeslice
  singleRideRequests :: "trip_request list"
  sharedRideRequests :: "trip_request list"
  latestStartNodes :: "address list"
  outbox :: "(address \<times> oc_message) list"

definition newController :: oc_state where
  "newController =
     \<lparr>subscribedDrivers = [], availableDrivers = [], requestQueue = [], partiallyAvailableDrivers = [],
      driversServingSharedReq = [], currentReq = (\<lambda>d. None), driverSchedules = (\<lambda>d. None), localTick = 0,
      nextRebalancingFrame = 0, currTime = \<lparr>frame = 0, ms = 0\<rparr>, singleRideRequests = [],
      sharedRideRequests = [], latestStartNodes = [], outbox = []\<rparr>"

datatype oc_error =
    UnrecognizedMessage | NullDriver | NullDereference | ScheduleError schedule_error | UnexpectedItem
  | MissingSchedule | UnknownEstimate

definition lift_schedule :: "(schedule_error, 'a) result \<Rightarrow> (oc_error, 'a) result" where
  "lift_schedule r = (case r of Inl e \<Rightarrow> Inl (ScheduleError e) | Inr x \<Rightarrow> Inr x)"

lemma lift_schedule_Inr [simp]: "lift_schedule r = Inr x \<longleftrightarrow> r = Inr x"
  by (simp add: lift_schedule_def split: sum.split)

lemma lift_schedule_simps [simp]: "lift_schedule (Inr x) = Inr x" "lift_schedule (Inl e) = Inl (ScheduleError e)"
  by (simp_all add: lift_schedule_def)

definition post_to :: "oc_state \<Rightarrow> address \<Rightarrow> oc_message \<Rightarrow> oc_state" where
  "post_to s d m = s\<lparr>outbox := outbox s @ [(d, m)]\<rparr>"

text \<open>\<open>operator[]\<close> of the map of schedules: an absent schedule is inserted empty.\<close>

definition schedule_of :: "oc_state \<Rightarrow> address \<Rightarrow> schedule" where
  "schedule_of s d = (case driverSchedules s d of None \<Rightarrow> newSchedule | Some x \<Rightarrow> x)"

definition put_schedule :: "oc_state \<Rightarrow> address \<Rightarrow> schedule \<Rightarrow> oc_state" where
  "put_schedule s d x = s\<lparr>driverSchedules := (driverSchedules s)(d \<mapsto> x)\<rparr>"

section \<open>Subscriptions and availability\<close>

definition base_subscribeDriver :: "oc_state \<Rightarrow> address \<Rightarrow> oc_state" where
  "base_subscribeDriver s d = s\<lparr>subscribedDrivers := subscribedDrivers s @ [d]\<rparr>"

definition base_unsubscribeDriver :: "oc_state \<Rightarrow> address \<Rightarrow> oc_state" where
  "base_unsubscribeDriver s d = s\<lparr>subscribedDrivers := filter (\<lambda>x. x \<noteq> d) (subscribedDrivers s)\<rparr>"

definition subscribeDriver :: "oc_state \<Rightarrow> address \<Rightarrow> oc_state" where
  "subscribeDriver s d =
     (let s1 = base_subscribeDriver s d;
          s2 = s1\<lparr>availableDrivers := std_insert d (availableDrivers s1)\<rparr>
      in if driverSchedules s2 d = None then put_schedule s2 d newSchedule else s2)"

definition unsubscribeDriver :: "oc_state \<Rightarrow> address \<Rightarrow> oc_state" where
  "unsubscribeDriver s d =
     (let s1 = base_unsubscribeDriver s d
      in s1\<lparr>driverSchedules := (driverSchedules s1)(d := None),
            availableDrivers := std_erase d (availableDrivers s1),
            partiallyAvailableDrivers := std_erase d (partiallyAvailableDrivers s1),
            driversServingSharedReq := std_erase d (driversServingSharedReq s1),
            currentReq := (currentReq s1)(d := None)\<rparr>)"

definition driverAvailable :: "oc_state \<Rightarrow> address \<Rightarrow> oc_state" where
  "driverAvailable s d =
     (let s1 = s\<lparr>availableDrivers := std_insert d (availableDrivers s)\<rparr>;
          s2 = put_schedule s1 d newSchedule
      in s2\<lparr>partiallyAvailableDrivers := std_erase d (partiallyAvailableDrivers s2),
            driversServingSharedReq := std_erase d (driversServingSharedReq s2),
            currentReq := (currentReq s2)(d := None)\<rparr>)"

definition driverUnavailable :: "oc_state \<Rightarrow> address \<Rightarrow> oc_state" where
  "driverUnavailable s d = s\<lparr>availableDrivers := std_erase d (availableDrivers s)\<rparr>"

definition onDriverShiftEnd :: "oc_state \<Rightarrow> address \<Rightarrow> (oc_error, oc_state) result" where
  "onDriverShiftEnd s d =
     rbind (deref MissingSchedule (driverSchedules s d)) (\<lambda>sched.
       if items sched = []
       then Inr (post_to (unsubscribeDriver s d) d MSG_UNSUBSCRIBE_SUCCESSFUL)
       else Inr (post_to s d MSG_DELAY_SHIFT_END))"

definition onDriverScheduleStatus :: "oc_env \<Rightarrow> oc_state \<Rightarrow> address \<Rightarrow> (oc_error, oc_state) result" where
  "onDriverScheduleStatus env s d =
     (if d \<noteq> 0 \<and> \<not> sureToBeDeleted env d then
        (case driverSchedules s d of
           None \<Rightarrow> Inr s
         | Some sched \<Rightarrow>
             (case items sched of
                [] \<Rightarrow> Inr s
              | completedReq # _ \<Rightarrow>
                  rbind (lift_schedule (sched_erase (geo env) sched 0)) (\<lambda>sched1.
                    let s1 = put_schedule s d sched1 in
                    if requestType (tripRequest completedReq) = TRIP_REQUEST_SHARED
                    then Inr (s1\<lparr>currentReq := (currentReq s1)(d \<mapsto> completedReq)\<rparr>)
                    else Inr s1)))
      else Inr s)"

definition onDriverSyncSchedule :: "oc_env \<Rightarrow> oc_state \<Rightarrow> address \<Rightarrow> schedule \<Rightarrow> (oc_error, oc_state) result" where
  "onDriverSyncSchedule env s d driversCopy =
     rbind (lift_schedule (sched_front driversCopy)) (\<lambda>x.
     rbind (lift_schedule (sched_erase (geo env) driversCopy 0)) (\<lambda>rest.
       Inr (put_schedule (s\<lparr>currentReq := (currentReq s)(d \<mapsto> x)\<rparr>) d rest)))"

section \<open>Messages\<close>

record proposition_reply =
  r_currTick :: timeslice
  r_success :: bool
  r_personId :: string
  r_driver :: address
  r_startNode :: address
  r_destinationNode :: address
  r_threshold :: u32

datatype oc_input =
    MSG_DRIVER_SUBSCRIBE address
  | MSG_DRIVER_UNSUBSCRIBE address
  | MSG_DRIVER_AVAILABLE address
  | MSG_TRIP_REQUEST trip_request
  | MSG_SCHEDULE_PROPOSITION_REPLY proposition_reply
  | MSG_DRIVER_SHIFT_END address
  | MSG_DRIVER_SCHEDULE_STATUS address
  | MSG_SYNC_SCHEDULE address schedule
  | MSG_OTHER

definition base_HandleMessage :: "oc_env \<Rightarrow> oc_state \<Rightarrow> oc_input \<Rightarrow> (oc_error, oc_state) result" where
  "base_HandleMessage env s msg =
     (case msg of
        MSG_DRIVER_SUBSCRIBE d \<Rightarrow>
          guard NullDereference (d \<noteq> 0) (Inr (if \<not> sureToBeDeleted env d then subscribeDriver s d else s))
      | MSG_DRIVER_UNSUBSCRIBE d \<Rightarrow> Inr (unsubscribeDriver s d)
      | _ \<Rightarrow> Inl UnrecognizedMessage)"

definition HandleMessage :: "oc_env \<Rightarrow> oc_state \<Rightarrow> oc_input \<Rightarrow> (oc_error, oc_state) result" where
  "HandleMessage env s msg =
     (case msg of
        MSG_DRIVER_AVAILABLE d \<Rightarrow>
          guard NullDereference (d \<noteq> 0) (Inr (if \<not> sureToBeDeleted env d then driverAvailable s d else s))
      | MSG_TRIP_REQUEST r \<Rightarrow>
          Inr (s\<lparr>requestQueue := requestQueue s @ [r], latestStartNodes := latestStartNodes s @ [startNode r]\<rparr>)
      | MSG_SCHEDULE_PROPOSITION_REPLY a \<Rightarrow>
          (if \<not> r_success a then
             (let r = newTripRequest\<lparr>timeOfRequest := r_currTick a, userId := r_personId a,
                        startNode := r_startNode a, destinationNode := r_destinationNode a,
                        extraTripTimeThreshold := r_threshold a\<rparr>
              in Inr (driverAvailable (s\<lparr>requestQueue := requestQueue s @ [r]\<rparr>) (r_driver a)))
           else Inr (driverUnavailable s (r_driver a)))
      | MSG_DRIVER_SHIFT_END d \<Rightarrow> onDriverShiftEnd s d
      | MSG_DRIVER_SCHEDULE_STATUS d \<Rightarrow>
          guard NullDereference (d \<noteq> 0)
            (if \<not> sureToBeDeleted env d then onDriverScheduleStatus env s d else Inr s)
      | MSG_SYNC_SCHEDULE d sched \<Rightarrow> onDriverSyncSchedule env s d sched
      | _ \<Rightarrow> base_HandleMessage env s msg)"

text \<open>\<open>LazyRebalancer\<close> does nothing when it is asked to rebalance.\<close>

definition rebalance :: "oc_state \<Rightarrow> oc_state" where
  "rebalance s = s"

definition frame_tick :: "(oc_state \<Rightarrow> (oc_error, oc_state) result) \<Rightarrow> oc_config \<Rightarrow> oc_state \<Rightarrow> timeslice \<Rightarrow>
   (oc_error, oc_state) result" where
  "frame_tick computeSchedules cfg s now =
     (let s1 = s\<lparr>currTime := now\<rparr> in
      if localTick s1 = scheduleComputationPeriod cfg then
        (let s2 = s1\<lparr>localTick := 0\<rparr> in
         rbind (if requestQueue s2 \<noteq> [] then computeSchedules s2 else Inr s2) (\<lambda>s3.
           if frame (currTime s3) \<ge> rebalancingInterval cfg \<and> frame (currTime s3) \<ge> nextRebalancingFrame s3
           then Inr (rebalance (s3\<lparr>nextRebalancingFrame := frame (currTime s3) + rebalancingInterval cfg\<rparr>))
           else Inr s3))
      else Inr (s1\<lparr>localTick := localTick s1 + 1\<rparr>))"

section \<open>Assigning schedules\<close>

text \<open>The first loop of \<open>checkItemsAhead\<close>: items at the front with the node of the next item go.\<close>

function skip_ahead :: "oc_env \<Rightarrow> schedule_item \<Rightarrow> schedule \<Rightarrow> (oc_error, schedule) result" where
  "skip_ahead env nextItem s =
     (case items s of
        [] \<Rightarrow> Inr s
      | x # xs \<Rightarrow>
          if trip_eq (tripRequest x) (tripRequest nextItem) then Inr s
          else if getNode x = getNode nextItem then
            (case sched_erase (geo env) s 0 of
               Inl e \<Rightarrow> Inl (ScheduleError e)
             | Inr s1 \<Rightarrow> skip_ahead env nextItem s1)
          else Inr s)"
  by pat_completeness auto
termination
  by (relation "measure (\<lambda>(env, x, s). length (items s))") (auto dest!: sched_erase_Inr)

declare skip_ahead.simps [simp del]

text \<open>The second loop: an item at the node of the item before it goes, unless both are of one request.\<close>

function join_stops :: "oc_env \<Rightarrow> nat \<Rightarrow> schedule \<Rightarrow> (oc_error, schedule) result" where
  "join_stops env i s =
     (if i < length (items s) then
        (if trip_eq (tripRequest (items s ! i)) (tripRequest (items s ! (i - 1))) then join_stops env (i + 1) s
         else if getNode (items s ! i) = getNode (items s ! (i - 1)) then
           (case sched_erase (geo env) s i of
              Inl e \<Rightarrow> Inl (ScheduleError e)
            | Inr s1 \<Rightarrow> join_stops env i s1)
         else join_stops env (i + 1) s)
      else Inr s)"
  by pat_completeness auto
termination
  by (relation "measure (\<lambda>(env, i, s). length (items s) - i)") (auto dest!: sched_erase_Inr)

declare join_stops.simps [simp del]

text \<open>On an empty schedule the second loop would start behind the end.\<close>

definition checkItemsAhead :: "oc_env \<Rightarrow> schedule \<Rightarrow> schedule_item \<Rightarrow> (oc_error, schedule) result" where
  "checkItemsAhead env sched nextItem =
     rbind (skip_ahead env nextItem sched) (\<lambda>s1.
       guard (ScheduleError EmptySchedule) (items s1 \<noteq> []) (join_stops env 1 s1))"

definition default_item :: schedule_item where
  "default_item = newTripItem INVALID newTripRequest"

text \<open>The controller's own copy lacks the item that the driver is executing.\<close>

definition store_new :: "oc_config \<Rightarrow> oc_env \<Rightarrow> oc_state \<Rightarrow> address \<Rightarrow> schedule \<Rightarrow> (oc_error, oc_state) result" where
  "store_new cfg env s d sched =
     rbind (lift_schedule (sched_front sched)) (\<lambda>x.
     rbind (lift_schedule (sched_erase (geo env) sched 0)) (\<lambda>rest.
       if requestType (tripRequest x) = TRIP_REQUEST_SHARED \<and>
          controllerServiceType cfg = SERVICE_CONTROLLER_AMOD
       then
         (let s1 = (if currentReq s d = None then s\<lparr>currentReq := (currentReq s)(d \<mapsto> x)\<rparr> else s)
          in rbind (checkItemsAhead env rest x) (\<lambda>copy.
               Inr ((put_schedule s1 d copy)\<lparr>availableDrivers := std_erase d (availableDrivers s1)\<rparr>)))
       else Inr ((put_schedule s d rest)\<lparr>availableDrivers := std_erase d (availableDrivers s)\<rparr>)))"

definition store_update :: "oc_env \<Rightarrow> oc_state \<Rightarrow> address \<Rightarrow> schedule \<Rightarrow> (oc_error, oc_state) result" where
  "store_update env s d sched =
     (let x = (case currentReq s d of None \<Rightarrow> default_item | Some x \<Rightarrow> x);
          s1 = s\<lparr>currentReq := (currentReq s)(d \<mapsto> x)\<rparr>
      in rbind (checkItemsAhead env sched x) (\<lambda>copy. Inr (put_schedule s1 d copy)))"

definition partial_driver :: "oc_config \<Rightarrow> oc_state \<Rightarrow> address \<Rightarrow> schedule \<Rightarrow> (oc_error, oc_state) result" where
  "partial_driver cfg s d sched =
     rbind (lift_schedule (sched_front (schedule_of s d))) (\<lambda>x.
       if requestType (tripRequest x) = TRIP_REQUEST_SHARED \<and>
          controllerServiceType cfg \<noteq> SERVICE_CONTROLLER_AMOD
       then
         (if length (items sched) \<le> 3 \<and> d \<notin> set (partiallyAvailableDrivers s)
          then Inr (s\<lparr>partiallyAvailableDrivers := std_insert d (partiallyAvailableDrivers s)\<rparr>)
          else Inr (s\<lparr>partiallyAvailableDrivers := std_erase d (partiallyAvailableDrivers s)\<rparr>))
       else Inr s)"

definition assignSchedule :: "oc_config \<Rightarrow> oc_env \<Rightarrow> oc_state \<Rightarrow> address \<Rightarrow> schedule \<Rightarrow> bool \<Rightarrow>
   (oc_error, oc_state) result" where
  "assignSchedule cfg env s d sched isUpdated =
     guard NullDriver (d \<noteq> 0)
       (let s1 = post_to s d (if \<not> isUpdated then MSG_SCHEDULE_PROPOSITION (currTime s) sched
                              else MSG_SCHEDULE_UPDATE (currTime s) sched)
        in rbind (if \<not> isUpdated then store_new cfg env s1 d sched else store_update env s1 d sched)
             (\<lambda>s2. partial_driver cfg s2 d sched))"

text \<open>A parking after the last drop-off; an \<open>unordered_map\<close> is the list of its entries in the order of the iteration.\<close>

definition assign_entry :: "oc_config \<Rightarrow> oc_env \<Rightarrow> bool \<Rightarrow> oc_state \<Rightarrow> address \<times> schedule \<Rightarrow>
   (oc_error, oc_state) result" where
  "assign_entry cfg env isUpdated s p =
     (case p of (d, sched) \<Rightarrow>
        rbind
          (if parkingEnabled cfg then
             rbind (lift_schedule (sched_back sched)) (\<lambda>x.
               let n = destinationNode (tripRequest x);
                   park = nearest_parking env (posX (geo env) n) (posY (geo env) n)
               in if park \<noteq> 0 then Inr (push_back (geo env) sched (newParkItem PARK park)) else Inr sched)
           else Inr sched)
          (\<lambda>sched1. assignSchedule cfg env s d sched1 isUpdated))"

definition assignSchedules :: "oc_config \<Rightarrow> oc_env \<Rightarrow> oc_state \<Rightarrow> (address \<times> schedule) list \<Rightarrow> bool \<Rightarrow>
   (oc_error, oc_state) result" where
  "assignSchedules cfg env s ps isUpdated = run_list (assign_entry cfg env isUpdated) s (map_order env ps)"

definition sendCruiseCommand :: "oc_state \<Rightarrow> address \<Rightarrow> address \<Rightarrow> timeslice \<Rightarrow> geometry \<Rightarrow> oc_state" where
  "sendCruiseCommand s d n now g =
     post_to s d (MSG_SCHEDULE_PROPOSITION now (push_back g newSchedule (newCruiseItem CRUISE n)))"

section \<open>Drivers\<close>

definition has_status :: "oc_env \<Rightarrow> driver_status list \<Rightarrow> address \<Rightarrow> bool" where
  "has_status env sts d = (case exportServiceDriver env d of None \<Rightarrow> False | Some v \<Rightarrow> driverStatus v \<in> set sts)"

definition isCruising :: "oc_env \<Rightarrow> address \<Rightarrow> bool" where
  "isCruising env d = has_status env [CRUISING] d"

definition isParked :: "oc_env \<Rightarrow> address \<Rightarrow> bool" where
  "isParked env d = has_status env [PARKED, DRIVE_TO_PARKING] d"

definition isJustStated :: "oc_env \<Rightarrow> address \<Rightarrow> bool" where
  "isJustStated env d = has_status env [DRIVE_START] d"

definition isDrivingToPark :: "oc_env \<Rightarrow> address \<Rightarrow> bool" where
  "isDrivingToPark env d = has_status env [DRIVE_TO_PARKING] d"

definition getCurrentNode :: "oc_env \<Rightarrow> address \<Rightarrow> address" where
  "getCurrentNode env d = (case exportServiceDriver env d of None \<Rightarrow> 0 | Some v \<Rightarrow> currentNode v)"

definition dist :: "geometry \<Rightarrow> address \<Rightarrow> address \<Rightarrow> real" where
  "dist g a b =
     (let dx = rnd g (posX g b - posX g a); dy = rnd g (posY g b - posY g a)
      in rnd g (sqrt (rnd g (rnd g (dx * dx) + rnd g (dy * dy)))))"

text \<open>The node given and the node of a driver who may be chosen are read through their pointers.\<close>

definition closer_driver :: "oc_env \<Rightarrow> address \<Rightarrow> address \<times> real \<Rightarrow> address \<Rightarrow> (oc_error, address \<times> real) result" where
  "closer_driver env node best d =
     (case best of (bestDriver, bestDistance) \<Rightarrow>
        if isCruising env d \<or> isParked env d \<or> isJustStated env d \<or> isDrivingToPark env d then
          guard NullDereference (node \<noteq> 0 \<and> getCurrentNode env d \<noteq> 0)
            (let currDistance = dist (geo env) node (getCurrentNode env d)
             in if currDistance < bestDistance then Inr (d, currDistance) else Inr (bestDriver, bestDistance))
        else Inr (bestDriver, bestDistance))"

definition findClosestDriver :: "oc_env \<Rightarrow> oc_state \<Rightarrow> address \<Rightarrow> (oc_error, address) result" where
  "findClosestDriver env s node =
     rbind (run_list (closer_driver env node) (0, dbl_max env) (availableDrivers s)) (\<lambda>(bestDriver, _). Inr bestDriver)"

section \<open>Consistency of the state\<close>

text \<open>The debug build checks this at the start and the end of every operation.\<close>

definition consistencyChecks :: "oc_env \<Rightarrow> oc_state \<Rightarrow> bool" where
  "consistencyChecks env s \<longleftrightarrow>
     length (subscribedDrivers s) = card (dom (driverSchedules s)) \<and>
     (\<forall>d \<in> set (availableDrivers s).
        has_status env [CRUISING, PARKED, DRIVE_TO_PARKING, DRIVE_START] d \<and>
        (case driverSchedules s d of None \<Rightarrow> False | Some x \<Rightarrow> items x = [])) \<and>
     distinct (map userId (requestQueue s))"

definition controller_ok :: "oc_state \<Rightarrow> bool" where
  "controller_ok s \<longleftrightarrow>
     distinct (subscribedDrivers s) \<and> dom (driverSchedules s) = set (subscribedDrivers s) \<and>
     std_set (availableDrivers s) \<and> std_set (partiallyAvailableDrivers s) \<and> std_set (driversServingSharedReq s) \<and>
     (\<forall>d \<in> set (availableDrivers s). \<exists>x. driverSchedules s d = Some x \<and> items x = []) \<and>
     set (partiallyAvailableDrivers s) \<union> set (driversServingSharedReq s) \<subseteq>
       set (subscribedDrivers s) - set (availableDrivers s) \<and>
     0 \<notin> set (subscribedDrivers s)"

lemma controller_okD:
  assumes "controller_ok s"
  shows "distinct (subscribedDrivers s)" "dom (driverSchedules s) = set (subscribedDrivers s)"
    "std_set (availableDrivers s)" "std_set (partiallyAvailableDrivers s)" "std_set (driversServingSharedReq s)"
    "d \<in> set (availableDrivers s) \<Longrightarrow> \<exists>x. driverSchedules s d = Some x \<and> items x = []"
    "set (partiallyAvailableDrivers s) \<union> set (driversServingSharedReq s) \<subseteq>
       set (subscribedDrivers s) - set (availableDrivers s)"
    "0 \<notin> set (subscribedDrivers s)"
  using assms unfolding controller_ok_def by blast+

lemma available_subscribed: "controller_ok s \<Longrightarrow> set (availableDrivers s) \<subseteq> set (subscribedDrivers s)"
  using controller_okD(2,6) by fastforce

lemma post_to_fields [simp]:
  "subscribedDrivers (post_to s d m) = subscribedDrivers s" "availableDrivers (post_to s d m) = availableDrivers s"
  "requestQueue (post_to s d m) = requestQueue s" "partiallyAvailableDrivers (post_to s d m) = partiallyAvailableDrivers s"
  "driversServingSharedReq (post_to s d m) = driversServingSharedReq s" "currentReq (post_to s d m) = currentReq s"
  "driverSchedules (post_to s d m) = driverSchedules s" "currTime (post_to s d m) = currTime s"
  "outbox (post_to s d m) = outbox s @ [(d, m)]" "localTick (post_to s d m) = localTick s"
  "nextRebalancingFrame (post_to s d m) = nextRebalancingFrame s"
  "singleRideRequests (post_to s d m) = singleRideRequests s" "sharedRideRequests (post_to s d m) = sharedRideRequests s"
  by (simp_all add: post_to_def)

lemma put_schedule_fields [simp]:
  "subscribedDrivers (put_schedule s d x) = subscribedDrivers s" "availableDrivers (put_schedule s d x) = availableDrivers s"
  "requestQueue (put_schedule s d x) = requestQueue s"
  "partiallyAvailableDrivers (put_schedule s d x) = partiallyAvailableDrivers s"
  "driversServingSharedReq (put_schedule s d x) = driversServingSharedReq s" "currentReq (put_schedule s d x) = currentReq s"
  "driverSchedules (put_schedule s d x) = (driverSchedules s)(d \<mapsto> x)" "currTime (put_schedule s d x) = currTime s"
  "outbox (put_schedule s d x) = outbox s" "localTick (put_schedule s d x) = localTick s"
  "nextRebalancingFrame (put_schedule s d x) = nextRebalancingFrame s"
  "singleRideRequests (put_schedule s d x) = singleRideRequests s"
  "sharedRideRequests (put_schedule s d x) = sharedRideRequests s"
  by (simp_all add: put_schedule_def)

text \<open>The fields that the invariant reads decide it.\<close>

lemma controller_ok_cong:
  assumes "subscribedDrivers t = subscribedDrivers s" "availableDrivers t = availableDrivers s"
    "partiallyAvailableDrivers t = partiallyAvailableDrivers s" "driversServingSharedReq t = driversServingSharedReq s"
    "driverSchedules t = driverSchedules s"
  shows "controller_ok t \<longleftrightarrow> controller_ok s"
  by (simp add: controller_ok_def assms)

lemma ok_post [simp]: "controller_ok (post_to s d m) \<longleftrightarrow> controller_ok s"
  by (rule controller_ok_cong) simp_all

lemma ok_new [simp]: "controller_ok newController"
  by (simp add: controller_ok_def newController_def)

lemma ok_put_schedule:
  assumes "controller_ok s" "d \<in> set (subscribedDrivers s)" "d \<notin> set (availableDrivers s)"
  shows "controller_ok (put_schedule s d x)"
  using assms unfolding controller_ok_def by (auto simp: insert_absorb)

lemma ok_subscribe [sm_inv]:
  assumes "controller_ok s" "d \<notin> set (subscribedDrivers s)" "d \<noteq> 0"
  shows "controller_ok (subscribeDriver s d)"
proof -
  have "driverSchedules s d = None" using controller_okD(2) [OF assms(1)] assms(2) by blast
  with assms show ?thesis
    unfolding subscribeDriver_def Let_def base_subscribeDriver_def controller_ok_def by (auto simp: newSchedule_def)
qed

lemma ok_unsubscribe [sm_inv]: "controller_ok s \<Longrightarrow> controller_ok (unsubscribeDriver s d)"
  unfolding unsubscribeDriver_def Let_def base_unsubscribeDriver_def controller_ok_def
  by (simp add: sorted_remove1 std_erase_def) blast

lemma ok_available [sm_inv]:
  assumes "controller_ok s" "d \<in> set (subscribedDrivers s)"
  shows "controller_ok (driverAvailable s d)"
  using assms unfolding driverAvailable_def Let_def controller_ok_def
  by (auto simp: newSchedule_def insert_absorb)

lemma ok_unavailable [sm_inv]: "controller_ok s \<Longrightarrow> controller_ok (driverUnavailable s d)"
  unfolding driverUnavailable_def controller_ok_def by auto

lemma ok_shift_end [sm_inv]: "controller_ok s \<Longrightarrow> onDriverShiftEnd s d = Inr t \<Longrightarrow> controller_ok t"
  by (auto simp: onDriverShiftEnd_def rbind_Inr deref_Inr ok_unsubscribe split: if_splits)

lemma ok_schedule_status [sm_inv]:
  assumes ok: "controller_ok s" and r: "onDriverScheduleStatus env s d = Inr t"
  shows "controller_ok t"
proof -
  have "controller_ok (put_schedule s d y)" if "driverSchedules s d = Some x" "items x \<noteq> []" for x y
  proof (rule ok_put_schedule [OF ok])
    show "d \<in> set (subscribedDrivers s)" using that(1) controller_okD(2) [OF ok] by blast
    show "d \<notin> set (availableDrivers s)" using that controller_okD(6) [OF ok] by fastforce
  qed
  moreover have "controller_ok (u\<lparr>currentReq := c\<rparr>) \<longleftrightarrow> controller_ok u" for u c
    by (rule controller_ok_cong) simp_all
  ultimately show ?thesis using r ok
    by (auto simp: onDriverScheduleStatus_def rbind_Inr Let_def split: if_splits option.splits list.splits)
qed

lemma ok_sync_schedule [sm_inv]:
  assumes ok: "controller_ok s" and r: "onDriverSyncSchedule env s d x = Inr t"
    and d: "d \<in> set (subscribedDrivers s)" "d \<notin> set (availableDrivers s)"
  shows "controller_ok t"
proof -
  have "controller_ok (s\<lparr>currentReq := c\<rparr>)" for c
    using ok by (subst controller_ok_cong [where s = s]) simp_all
  with r d show ?thesis
    by (auto simp: onDriverSyncSchedule_def rbind_Inr intro!: ok_put_schedule)
qed

text \<open>What the drivers send: the protocol under which the state stays consistent.\<close>

fun expected :: "oc_state \<Rightarrow> oc_input \<Rightarrow> bool" where
  "expected s (MSG_DRIVER_SUBSCRIBE d) \<longleftrightarrow> d \<notin> set (subscribedDrivers s)"
| "expected s (MSG_DRIVER_AVAILABLE d) \<longleftrightarrow> d \<in> set (subscribedDrivers s)"
| "expected s (MSG_SCHEDULE_PROPOSITION_REPLY a) \<longleftrightarrow> r_success a \<or> r_driver a \<in> set (subscribedDrivers s)"
| "expected s (MSG_SYNC_SCHEDULE d x) \<longleftrightarrow> d \<in> set (subscribedDrivers s) \<and> d \<notin> set (availableDrivers s)"
| "expected s _ \<longleftrightarrow> True"

lemma ok_message [sm_inv]:
  assumes ok: "controller_ok s" and e: "expected s m" and r: "HandleMessage env s m = Inr t"
  shows "controller_ok t"
proof (cases m)
  case (MSG_TRIP_REQUEST q)
  with r ok show ?thesis by (auto simp: HandleMessage_def intro: controller_ok_cong [THEN iffD2, rotated -1])
next
  case (MSG_SCHEDULE_PROPOSITION_REPLY a)
  have "controller_ok (s\<lparr>requestQueue := q\<rparr>)" for q
    using ok by (subst controller_ok_cong [where s = s]) simp_all
  with MSG_SCHEDULE_PROPOSITION_REPLY r e ok show ?thesis
    by (auto simp: HandleMessage_def Let_def intro!: ok_available ok_unavailable split: if_splits)
qed (use r e ok in \<open>auto simp: HandleMessage_def base_HandleMessage_def guard_Inr
       intro: ok_subscribe ok_unsubscribe ok_available ok_shift_end ok_schedule_status ok_sync_schedule
       split: if_splits\<close>)

section \<open>The effect of an assignment\<close>

text \<open>What assigning a schedule leaves alone.\<close>

definition assign_frame :: "oc_state \<Rightarrow> oc_state \<Rightarrow> address \<Rightarrow> bool" where
  "assign_frame s t d \<longleftrightarrow>
     subscribedDrivers t = subscribedDrivers s \<and> requestQueue t = requestQueue s \<and>
     driversServingSharedReq t = driversServingSharedReq s \<and>
     singleRideRequests t = singleRideRequests s \<and> sharedRideRequests t = sharedRideRequests s \<and>
     currTime t = currTime s \<and> localTick t = localTick s \<and>
     (\<exists>x. driverSchedules t = (driverSchedules s)(d \<mapsto> x)) \<and>
     partiallyAvailableDrivers t \<in>
       {partiallyAvailableDrivers s, std_insert d (partiallyAvailableDrivers s), std_erase d (partiallyAvailableDrivers s)}"

lemma assign_frame_stored:
  "u \<in> {s, s\<lparr>currentReq := c\<rparr>} \<Longrightarrow>
   assign_frame s ((put_schedule u d x)\<lparr>availableDrivers := std_erase d (availableDrivers u)\<rparr>) d"
  by (auto simp: assign_frame_def)

lemma store_new_cases:
  assumes "store_new cfg env s d sched = Inr t"
  shows "\<exists>u x c. u \<in> {s, s\<lparr>currentReq := c\<rparr>} \<and>
     t = (put_schedule u d x)\<lparr>availableDrivers := std_erase d (availableDrivers u)\<rparr>"
proof -
  from assms obtain x rest where
    t: "(if requestType (tripRequest x) = TRIP_REQUEST_SHARED \<and> controllerServiceType cfg = SERVICE_CONTROLLER_AMOD
        then let s1 = (if currentReq s d = None then s\<lparr>currentReq := (currentReq s)(d \<mapsto> x)\<rparr> else s)
             in rbind (checkItemsAhead env rest x) (\<lambda>copy.
                  Inr ((put_schedule s1 d copy)\<lparr>availableDrivers := std_erase d (availableDrivers s1)\<rparr>))
        else Inr ((put_schedule s d rest)\<lparr>availableDrivers := std_erase d (availableDrivers s)\<rparr>)) = Inr t"
    unfolding store_new_def rbind_Inr by blast
  let ?u = "if currentReq s d = None then s\<lparr>currentReq := (currentReq s)(d \<mapsto> x)\<rparr> else s"
  have u: "?u \<in> {s, s\<lparr>currentReq := (currentReq s)(d \<mapsto> x)\<rparr>}" by simp
  show ?thesis
  proof (cases "requestType (tripRequest x) = TRIP_REQUEST_SHARED \<and> controllerServiceType cfg = SERVICE_CONTROLLER_AMOD")
    case True
    with t obtain copy where "t = (put_schedule ?u d copy)\<lparr>availableDrivers := std_erase d (availableDrivers ?u)\<rparr>"
      unfolding if_P [OF True] Let_def rbind_Inr by blast
    with u show ?thesis by blast
  next
    case False
    then have "t = (put_schedule s d rest)\<lparr>availableDrivers := std_erase d (availableDrivers s)\<rparr>"
      using t unfolding if_not_P [OF False] by simp
    then show ?thesis by blast
  qed
qed

lemma store_new_Inr:
  assumes "store_new cfg env s d sched = Inr t"
  shows "assign_frame s t d \<and> availableDrivers t = std_erase d (availableDrivers s) \<and> outbox t = outbox s"
proof -
  from store_new_cases [OF assms] obtain u x c where u: "u \<in> {s, s\<lparr>currentReq := c\<rparr>}"
    and t: "t = (put_schedule u d x)\<lparr>availableDrivers := std_erase d (availableDrivers u)\<rparr>"
    by blast
  from u have "availableDrivers u = availableDrivers s" "outbox u = outbox s" by auto
  with assign_frame_stored [OF u, of d x] show ?thesis by (simp add: t)
qed

lemma store_update_Inr:
  assumes "store_update env s d sched = Inr t"
  shows "assign_frame s t d \<and> availableDrivers t = availableDrivers s \<and> outbox t = outbox s"
  using assms by (auto simp: store_update_def rbind_Inr Let_def assign_frame_def)

lemma partial_driver_Inr:
  assumes "partial_driver cfg s2 d sched = Inr t" "assign_frame s s2 d" "partiallyAvailableDrivers s2 = partiallyAvailableDrivers s"
  shows "assign_frame s t d \<and> availableDrivers t = availableDrivers s2 \<and> outbox t = outbox s2"
  using assms by (auto simp: partial_driver_def rbind_Inr assign_frame_def split: if_splits)

lemma store_partial: "store_new cfg env s d sched = Inr t \<Longrightarrow> partiallyAvailableDrivers t = partiallyAvailableDrivers s"
  "store_update env s d sched = Inr t \<Longrightarrow> partiallyAvailableDrivers t = partiallyAvailableDrivers s"
  by (auto dest!: store_new_cases) (auto simp: store_update_def rbind_Inr Let_def)

lemma assign_frame_post: "assign_frame (post_to s d m) t e \<longleftrightarrow> assign_frame s t e"
  by (simp add: assign_frame_def)

lemma assign_new:
  assumes "assignSchedule cfg env s d sched False = Inr t"
  shows "d \<noteq> 0 \<and> assign_frame s t d \<and> availableDrivers t = std_erase d (availableDrivers s) \<and>
     outbox t = outbox s @ [(d, MSG_SCHEDULE_PROPOSITION (currTime s) sched)]"
proof -
  let ?s1 = "post_to s d (MSG_SCHEDULE_PROPOSITION (currTime s) sched)"
  from assms obtain s2 where d: "d \<noteq> 0" and s2: "store_new cfg env ?s1 d sched = Inr s2"
    and t: "partial_driver cfg s2 d sched = Inr t"
    by (auto simp: assignSchedule_def guard_Inr rbind_Inr)
  from store_new_Inr [OF s2] partial_driver_Inr [OF t, of ?s1] store_partial(1) [OF s2] d
  show ?thesis by (simp add: assign_frame_post)
qed

lemma assign_update:
  assumes "assignSchedule cfg env s d sched True = Inr t"
  shows "d \<noteq> 0 \<and> assign_frame s t d \<and> availableDrivers t = availableDrivers s \<and>
     outbox t = outbox s @ [(d, MSG_SCHEDULE_UPDATE (currTime s) sched)]"
proof -
  let ?s1 = "post_to s d (MSG_SCHEDULE_UPDATE (currTime s) sched)"
  from assms obtain s2 where d: "d \<noteq> 0" and s2: "store_update env ?s1 d sched = Inr s2"
    and t: "partial_driver cfg s2 d sched = Inr t"
    by (auto simp: assignSchedule_def guard_Inr rbind_Inr)
  from store_update_Inr [OF s2] partial_driver_Inr [OF t, of ?s1] store_partial(2) [OF s2] d
  show ?thesis by (simp add: assign_frame_post)
qed

text \<open>A driver who is told a schedule is not available afterwards.\<close>

lemma ok_assigned:
  assumes ok: "controller_ok s" and f: "assign_frame s t d" and d: "d \<in> set (subscribedDrivers s)"
    and a: "availableDrivers t = std_erase d (availableDrivers s)"
  shows "controller_ok t"
proof -
  note o = controller_okD [OF ok]
  from f obtain x where x: "driverSchedules t = (driverSchedules s)(d \<mapsto> x)" by (auto simp: assign_frame_def)
  have dom: "dom (driverSchedules t) = set (subscribedDrivers s)"
    unfolding x using o(2) d by (simp add: insert_absorb)
  have sub: "set (partiallyAvailableDrivers t) \<subseteq> insert d (set (partiallyAvailableDrivers s))"
    "std_set (partiallyAvailableDrivers t)"
    using f o(4) by (auto simp: assign_frame_def)
  have av: "std_set (availableDrivers t)" "set (availableDrivers t) = set (availableDrivers s) - {d}"
    using o(3) by (simp_all add: a)
  have emp: "\<exists>y. driverSchedules t e = Some y \<and> items y = []" if "e \<in> set (availableDrivers t)" for e
    using that o(6) [of e] by (simp add: av(2) x)
  show ?thesis
    unfolding controller_ok_def using f o(1,5,7,8) dom sub av emp d by (auto simp: assign_frame_def)
qed

lemma ok_assign_new [sm_inv]:
  assumes "controller_ok s" "d \<in> set (subscribedDrivers s)" "assignSchedule cfg env s d sched False = Inr t"
  shows "controller_ok t"
  using ok_assigned [OF assms(1) _ assms(2)] assign_new [OF assms(3)] by blast

lemma ok_assign_update [sm_inv]:
  assumes ok: "controller_ok s" and d: "d \<in> set (subscribedDrivers s)" "d \<notin> set (availableDrivers s)"
    and r: "assignSchedule cfg env s d sched True = Inr t"
  shows "controller_ok t"
proof -
  have "std_erase d (availableDrivers s) = availableDrivers s" using d(2) by (simp add: std_erase_def remove1_idem)
  with assign_update [OF r] have "availableDrivers t = std_erase d (availableDrivers s)" by simp
  with ok_assigned [OF ok _ d(1)] assign_update [OF r] show ?thesis by blast
qed

lemma assign_entry_Inr:
  assumes "assign_entry cfg env u s (d, sched) = Inr t"
  shows "\<exists>sched1. assignSchedule cfg env s d sched1 u = Inr t"
  using assms by (auto simp: assign_entry_def rbind_Inr)

text \<open>All the schedules of a computation, for drivers that all are subscribed.\<close>

definition orders_entries :: "oc_env \<Rightarrow> bool" where
  "orders_entries env \<longleftrightarrow> (\<forall>ps. mset (map_order env ps) = mset ps)"

text \<open>The set of drivers who serve shared requests is filled before the schedules are assigned, so the invariant
  without it is followed.\<close>

definition core_ok :: "oc_state \<Rightarrow> bool" where
  "core_ok s \<longleftrightarrow> controller_ok (s\<lparr>driversServingSharedReq := []\<rparr>)"

lemma controller_ok_core:
  "controller_ok s \<longleftrightarrow> core_ok s \<and> std_set (driversServingSharedReq s) \<and>
     set (driversServingSharedReq s) \<subseteq> set (subscribedDrivers s) - set (availableDrivers s)"
  unfolding core_ok_def controller_ok_def by auto

lemma core_ok_assign_new:
  assumes "core_ok s" "d \<in> set (subscribedDrivers s)" "assignSchedule cfg env s d sched False = Inr t"
  shows "core_ok t"
proof -
  note a = assign_new [OF assms(3)]
  then have "assign_frame (s\<lparr>driversServingSharedReq := []\<rparr>) (t\<lparr>driversServingSharedReq := []\<rparr>) d"
    by (simp add: assign_frame_def)
  from ok_assigned [OF assms(1) [unfolded core_ok_def] this] assms(2) a show ?thesis by (simp add: core_ok_def)
qed

lemma core_ok_assign_list_new:
  assumes "run_list (assign_entry cfg env False) s ps = Inr t" "core_ok s"
    "fst ` set ps \<subseteq> set (subscribedDrivers s)"
  shows "core_ok t \<and> subscribedDrivers t = subscribedDrivers s \<and>
     driversServingSharedReq t = driversServingSharedReq s \<and>
     set (availableDrivers t) = set (availableDrivers s) - fst ` set ps"
  using assms
proof (induction ps arbitrary: s)
  case Nil
  then show ?case by simp
next
  case (Cons p ps)
  obtain d sched where p: "p = (d, sched)" by (cases p)
  from Cons.prems(1) obtain s1 where s1: "assign_entry cfg env False s p = Inr s1"
    and r: "run_list (assign_entry cfg env False) s1 ps = Inr t"
    unfolding run_list_Cons_Inr by blast
  obtain sched1 where a: "assignSchedule cfg env s d sched1 False = Inr s1"
    using assign_entry_Inr s1 unfolding p by blast
  have d: "d \<in> set (subscribedDrivers s)" using Cons.prems(3) by (simp add: p)
  note f = assign_new [OF a]
  then have sub: "subscribedDrivers s1 = subscribedDrivers s" "driversServingSharedReq s1 = driversServingSharedReq s"
    by (simp_all add: assign_frame_def)
  have ok: "core_ok s1" by (rule core_ok_assign_new [OF Cons.prems(2) d a])
  have "distinct (availableDrivers s)"
    using controller_okD(3) [OF Cons.prems(2) [unfolded core_ok_def]] by simp
  with f have "set (availableDrivers s1) = set (availableDrivers s) - {d}" by simp
  with Cons.IH [OF r ok] Cons.prems(3) show ?case by (auto simp: p sub)
qed

lemma ok_assign_list_update:
  assumes "run_list (assign_entry cfg env True) s ps = Inr t" "controller_ok s"
    "fst ` set ps \<subseteq> set (subscribedDrivers s) - set (availableDrivers s)"
  shows "controller_ok t \<and> subscribedDrivers t = subscribedDrivers s \<and> availableDrivers t = availableDrivers s"
  using assms
proof (induction ps arbitrary: s)
  case Nil
  then show ?case by simp
next
  case (Cons p ps)
  obtain d sched where p: "p = (d, sched)" by (cases p)
  from Cons.prems(1) obtain s1 where s1: "assign_entry cfg env True s p = Inr s1"
    and r: "run_list (assign_entry cfg env True) s1 ps = Inr t"
    unfolding run_list_Cons_Inr by blast
  obtain sched1 where a: "assignSchedule cfg env s d sched1 True = Inr s1"
    using assign_entry_Inr s1 unfolding p by blast
  have d: "d \<in> set (subscribedDrivers s)" "d \<notin> set (availableDrivers s)" using Cons.prems(3) by (auto simp: p)
  note f = assign_update [OF a]
  then have sub: "subscribedDrivers s1 = subscribedDrivers s" "availableDrivers s1 = availableDrivers s"
    by (simp_all add: assign_frame_def)
  have ok: "controller_ok s1" by (rule ok_assign_update [OF Cons.prems(2) d a])
  from Cons.IH [OF r ok] Cons.prems(3) show ?case by (auto simp: sub)
qed

lemma core_ok_assignSchedules_new:
  assumes "assignSchedules cfg env s ps False = Inr t" "core_ok s" "orders_entries env"
    "fst ` set ps \<subseteq> set (subscribedDrivers s)"
  shows "core_ok t \<and> subscribedDrivers t = subscribedDrivers s \<and>
     driversServingSharedReq t = driversServingSharedReq s \<and>
     set (availableDrivers t) = set (availableDrivers s) - fst ` set ps"
proof -
  have "set (map_order env ps) = set ps" using assms(3) by (metis orders_entries_def mset_eq_setD)
  with core_ok_assign_list_new [of cfg env s "map_order env ps" t] assms show ?thesis by (simp add: assignSchedules_def)
qed

lemma ok_assignSchedules_new:
  assumes "assignSchedules cfg env s ps False = Inr t" "controller_ok s" "orders_entries env"
    "fst ` set ps \<subseteq> set (subscribedDrivers s)"
  shows "controller_ok t \<and> subscribedDrivers t = subscribedDrivers s \<and>
     set (availableDrivers t) = set (availableDrivers s) - fst ` set ps"
  using core_ok_assignSchedules_new [OF assms(1) _ assms(3,4)] assms(2) unfolding controller_ok_core by auto

lemma ok_assignSchedules_update:
  assumes "assignSchedules cfg env s ps True = Inr t" "controller_ok s" "orders_entries env"
    "fst ` set ps \<subseteq> set (subscribedDrivers s) - set (availableDrivers s)"
  shows "controller_ok t \<and> subscribedDrivers t = subscribedDrivers s \<and> availableDrivers t = availableDrivers s"
proof -
  have "set (map_order env ps) = set ps" using assms(3) by (metis orders_entries_def mset_eq_setD)
  with ok_assign_list_update [of cfg env s "map_order env ps" t] assms show ?thesis by (simp add: assignSchedules_def)
qed

section \<open>Runs of a controller\<close>

text \<open>A step handles a message or is a frame tick; what the environment answers may change between steps.\<close>

datatype oc_event = Receive oc_input | Tick timeslice

definition oc_step :: "(oc_config \<Rightarrow> oc_env \<Rightarrow> oc_state \<Rightarrow> (oc_error, oc_state) result) \<Rightarrow> oc_config \<Rightarrow> oc_env \<Rightarrow>
   oc_state \<Rightarrow> oc_event \<Rightarrow> (oc_error, oc_state) result" where
  "oc_step compute cfg env s e =
     (case e of Receive m \<Rightarrow> HandleMessage env s m | Tick now \<Rightarrow> frame_tick (compute cfg env) cfg s now)"

inductive oc_run :: "(oc_config \<Rightarrow> oc_env \<Rightarrow> oc_state \<Rightarrow> (oc_error, oc_state) result) \<Rightarrow> oc_config \<Rightarrow> oc_state \<Rightarrow> bool"
  for compute cfg where
  oc_start: "oc_run compute cfg newController"
| oc_receive: "oc_run compute cfg s \<Longrightarrow> expected s m \<Longrightarrow> oc_step compute cfg env s (Receive m) = Inr t \<Longrightarrow>
     oc_run compute cfg t"
| oc_tick: "oc_run compute cfg s \<Longrightarrow> orders_entries env \<Longrightarrow> oc_step compute cfg env s (Tick now) = Inr t \<Longrightarrow>
     oc_run compute cfg t"

text \<open>The contract of a way to compute schedules, and what every controller built on it has.\<close>

locale schedule_computation =
  fixes compute :: "oc_config \<Rightarrow> oc_env \<Rightarrow> oc_state \<Rightarrow> (oc_error, oc_state) result"
  assumes compute_ok: "orders_entries env \<Longrightarrow> controller_ok s \<Longrightarrow> compute cfg env s = Inr t \<Longrightarrow> controller_ok t"
begin

lemma tick_ok:
  assumes "orders_entries env" "controller_ok s" "frame_tick (compute cfg env) cfg s now = Inr t"
  shows "controller_ok t"
proof -
  have eq: "controller_ok (s\<lparr>currTime := a, localTick := b\<rparr>) \<longleftrightarrow> controller_ok s"
    "controller_ok (s\<lparr>nextRebalancingFrame := c\<rparr>) \<longleftrightarrow> controller_ok s" for s a b c
    by (rule controller_ok_cong; simp)+
  have "controller_ok u" if "compute cfg env (s\<lparr>currTime := a, localTick := b\<rparr>) = Inr u" for a b u
    by (rule compute_ok [OF assms(1) _ that]) (simp add: eq assms(2))
  with assms(2,3) show ?thesis
    by (auto simp: frame_tick_def Let_def rbind_Inr rebalance_def eq split: if_splits)
qed

lemma run_ok: "oc_run compute cfg s \<Longrightarrow> controller_ok s"
  by (induction rule: oc_run.induct) (auto simp: oc_step_def intro: ok_message tick_ok)

text \<open>In a run only the status of a driver, or two requests of one user, can make the checks fail.\<close>

lemma run_consistent:
  assumes "oc_run compute cfg s"
  shows "consistencyChecks env s \<longleftrightarrow>
     (\<forall>d \<in> set (availableDrivers s). has_status env [CRUISING, PARKED, DRIVE_TO_PARKING, DRIVE_START] d) \<and>
     distinct (map userId (requestQueue s))"
proof -
  note ok = controller_okD [OF run_ok [OF assms]]
  have "length (subscribedDrivers s) = card (dom (driverSchedules s))"
    using ok(1,2) by (simp add: distinct_card)
  then show ?thesis using ok(6) by (fastforce simp: consistencyChecks_def)
qed

end

section \<open>When schedules are computed\<close>

lemma tick_counts:
  assumes keep: "\<And>u v. compute u = Inr v \<Longrightarrow> localTick v = localTick u"
    and r: "frame_tick compute cfg s now = Inr t"
  shows "localTick t = (if localTick s = scheduleComputationPeriod cfg then 0 else localTick s + 1)"
  using r by (auto simp: frame_tick_def Let_def rbind_Inr rebalance_def dest: keep split: if_splits)

lemma mod_Suc_below: "n mod Suc p = p \<longleftrightarrow> Suc n mod Suc p = 0"
  by (metis mod_Suc mod_Suc_eq_mod_add3 mod_less_divisor nat.inject nat_neq_iff not_less_eq zero_less_Suc)

lemma ticks_count:
  assumes keep: "\<And>u v. compute u = Inr v \<Longrightarrow> localTick v = localTick u"
    and "localTick s = 0" "run_list (frame_tick compute cfg) s nows = Inr t"
  shows "unat (localTick t) = length nows mod Suc (unat (scheduleComputationPeriod cfg))"
  using assms(3)
proof (induction nows arbitrary: t rule: rev_induct)
  case Nil
  then show ?case using assms(2) by simp
next
  case (snoc now nows)
  let ?p = "unat (scheduleComputationPeriod cfg)"
  from snoc.prems obtain u where u: "run_list (frame_tick compute cfg) s nows = Inr u"
    and t: "frame_tick compute cfg u now = Inr t"
    by (auto simp: run_list_append split: sum.splits)
  note ih = snoc.IH [OF u]
  have eq: "localTick u = scheduleComputationPeriod cfg \<longleftrightarrow> unat (localTick u) = ?p"
    by (simp add: word_unat_eq_iff)
  show ?case
  proof (cases "unat (localTick u) = ?p")
    case True
    with ih have "Suc (length nows) mod Suc ?p = 0" by (simp add: mod_Suc)
    with True tick_counts [OF keep t] show ?thesis by (simp add: eq)
  next
    case False
    have "unat (localTick u) < Suc ?p" unfolding ih by simp
    with False have less: "unat (localTick u) < ?p" by simp
    then have "Suc (length nows) mod Suc ?p = Suc (unat (localTick u))" using ih by (simp add: mod_Suc)
    moreover have "unat (localTick u + 1) = Suc (unat (localTick u))"
      by (rule unat_Suc_below [where v = "scheduleComputationPeriod cfg"]) (use less in \<open>simp add: word_less_nat_alt\<close>)
    ultimately show ?thesis using False tick_counts [OF keep t] by (simp add: eq)
  qed
qed

text \<open>The controller computes schedules at every tick whose number, counted from 1, is a multiple of
  \<open>scheduleComputationPeriod + 1\<close> (the comment on the member says every
  \<open>scheduleComputationPeriod\<close> ticks), if there is a request then.\<close>

theorem schedules_every_period_plus_one:
  assumes "\<forall>u v. compute u = Inr v \<longrightarrow> localTick v = localTick u"
    and "localTick s = 0" "run_list (frame_tick compute cfg) s nows = Inr t"
  shows "frame_tick (\<lambda>s. Inl e) cfg t now = Inl e \<longleftrightarrow>
     Suc (length nows) mod Suc (unat (scheduleComputationPeriod cfg)) = 0 \<and> requestQueue t \<noteq> []"
proof -
  have "unat (localTick t) = length nows mod Suc (unat (scheduleComputationPeriod cfg))"
    by (rule ticks_count [OF _ assms(2,3)]) (use assms(1) in blast)
  then have "localTick t = scheduleComputationPeriod cfg \<longleftrightarrow>
      Suc (length nows) mod Suc (unat (scheduleComputationPeriod cfg)) = 0"
    by (auto simp: mod_Suc word_unat_eq_iff)
  then show ?thesis by (auto simp: frame_tick_def Let_def)
qed

definition example_config :: oc_config where
  "example_config =
     \<lparr>controllerServiceType = SERVICE_CONTROLLER_GREEDY, scheduleComputationPeriod = 2, ttEstimateType = EUCLIDEAN_ESTIMATION,
      maxAggregatedRequests = 2, studyAreaEnabledController = False, toleratedExtraTime = 600, maxWaitingTime = 600,
      parkingEnabled = False, rebalancingInterval = 720\<rparr>"

lemma schedules_every_period_plus_one_witness:
  "frame_tick (\<lambda>s. Inl NullDriver) example_config
     (newController\<lparr>requestQueue := [newTripRequest], currTime := \<lparr>frame = 2, ms = 200\<rparr>, localTick := 2\<rparr>)
     \<lparr>frame = 3, ms = 300\<rparr> = Inl NullDriver"
proof -
  have r: "run_list (frame_tick Inr example_config) (newController\<lparr>requestQueue := [newTripRequest]\<rparr>)
      [\<lparr>frame = 1, ms = 100\<rparr>, \<lparr>frame = 2, ms = 200\<rparr>] =
      Inr (newController\<lparr>requestQueue := [newTripRequest], currTime := \<lparr>frame = 2, ms = 200\<rparr>, localTick := 2\<rparr>)"
    by (simp add: frame_tick_def Let_def example_config_def newController_def)
  show ?thesis
    by (rule schedules_every_period_plus_one [OF _ _ r, THEN iffD2])
      (simp_all add: example_config_def newController_def)
qed

end
