(* ===== verification/Greedy_Controller.thy ===== *)
theory Greedy_Controller
  imports OnCall_Controller
begin

text \<open>
  The greedy controller, \<open>shared/entities/controllers/GreedyController.cpp\<close>, and the choice of the
  closest driver that it uses: every request goes to the closest driver who is free, in the order
  of the queue.
\<close>

section \<open>The greedy controller\<close>

text \<open>Pick up, drop off, and park at the closest parking if there is one.\<close>

definition greedy_schedule :: "oc_env \<Rightarrow> trip_request \<Rightarrow> schedule" where
  "greedy_schedule env r =
     (let n = destinationNode r;
          park = nearest_parking env (posX (geo env) n) (posY (geo env) n);
          sched = push_back (geo env) (push_back (geo env) newSchedule (newTripItem PICKUP r)) (newTripItem DROPOFF r)
      in if park \<noteq> 0 then push_back (geo env) sched (newParkItem PARK park) else sched)"

text \<open>The loop over the queue: a request that finds no driver stays.\<close>

fun greedy_loop :: "oc_config \<Rightarrow> oc_env \<Rightarrow> trip_request list \<Rightarrow> oc_state \<Rightarrow>
   (oc_error, trip_request list \<times> oc_state) result" where
  "greedy_loop cfg env [] s = Inr ([], s)"
| "greedy_loop cfg env (r # rs) s =
     rbind (findClosestDriver env s (startNode r)) (\<lambda>bestDriver.
      if bestDriver \<noteq> 0
      then guard NullDereference (destinationNode r \<noteq> 0)
        (rbind (assignSchedule cfg env s bestDriver (greedy_schedule env r) False) (greedy_loop cfg env rs))
      else rbind (greedy_loop cfg env rs s) (\<lambda>(left, s1). Inr (r # left, s1)))"

definition greedy_computeSchedules :: "oc_config \<Rightarrow> oc_env \<Rightarrow> oc_state \<Rightarrow> (oc_error, oc_state) result" where
  "greedy_computeSchedules cfg env s =
     (if availableDrivers s \<noteq> []
      then rbind (greedy_loop cfg env (requestQueue s) s) (\<lambda>(left, s1). Inr (s1\<lparr>requestQueue := left\<rparr>))
      else Inr s)"

section \<open>The closest driver\<close>

definition free_driver :: "oc_env \<Rightarrow> address \<Rightarrow> bool" where
  "free_driver env d \<longleftrightarrow> has_status env [CRUISING, PARKED, DRIVE_TO_PARKING, DRIVE_START] d"

definition driver_dist :: "oc_env \<Rightarrow> address \<Rightarrow> address \<Rightarrow> real" where
  "driver_dist env n d = dist (geo env) n (getCurrentNode env d)"

text \<open>The choice without the null checks, and when they do not fail.\<close>

definition nearer :: "oc_env \<Rightarrow> address \<Rightarrow> address \<times> real \<Rightarrow> address \<Rightarrow> address \<times> real" where
  "nearer env n best d =
     (case best of (b, x) \<Rightarrow> if free_driver env d \<and> driver_dist env n d < x then (d, driver_dist env n d) else (b, x))"

definition nearest :: "oc_env \<Rightarrow> oc_state \<Rightarrow> address \<Rightarrow> address" where
  "nearest env s n = fst (foldl (nearer env n) (0, dbl_max env) (availableDrivers s))"

definition nodes_known :: "oc_env \<Rightarrow> oc_state \<Rightarrow> bool" where
  "nodes_known env s \<longleftrightarrow> (\<forall>d \<in> set (availableDrivers s). free_driver env d \<longrightarrow> getCurrentNode env d \<noteq> 0)"

lemma closer_driver_eq:
  "closer_driver env n best d =
     guard NullDereference (free_driver env d \<longrightarrow> n \<noteq> 0 \<and> getCurrentNode env d \<noteq> 0) (Inr (nearer env n best d))"
  by (cases best) (auto simp: closer_driver_def nearer_def free_driver_def isCruising_def isParked_def isJustStated_def
      isDrivingToPark_def has_status_def driver_dist_def guard_def Let_def split: option.splits)

lemma closest_run:
  "run_list (closer_driver env n) best ds = Inr c \<Longrightarrow> c = foldl (nearer env n) best ds"
  "n \<noteq> 0 \<Longrightarrow> (\<forall>d \<in> set ds. free_driver env d \<longrightarrow> getCurrentNode env d \<noteq> 0) \<Longrightarrow>
     run_list (closer_driver env n) best ds = Inr (foldl (nearer env n) best ds)"
  by (induction ds arbitrary: best) (auto simp: closer_driver_eq guard_def split: if_splits)

lemma findClosestDriver_Inr: "findClosestDriver env s n = Inr b \<Longrightarrow> b = nearest env s n"
  by (auto simp: findClosestDriver_def rbind_Inr nearest_def dest!: closest_run(1)) (metis fst_conv)

lemma findClosestDriver_known: "n \<noteq> 0 \<Longrightarrow> nodes_known env s \<Longrightarrow> findClosestDriver env s n = Inr (nearest env s n)"
  by (simp add: findClosestDriver_def closest_run(2) nodes_known_def nearest_def case_prod_beta)

lemma nearer_simp:
  "nearer env n (b, x) d = (if free_driver env d \<and> driver_dist env n d < x then (d, driver_dist env n d) else (b, x))"
  by (simp add: nearer_def)

lemma closest_fold:
  "foldl (nearer env n) (b, x) ds = (c, y) \<Longrightarrow>
   (c = b \<and> y = x \<and> (\<forall>d \<in> set ds. free_driver env d \<longrightarrow> x \<le> driver_dist env n d)) \<or>
   (\<exists>us vs. ds = us @ c # vs \<and> free_driver env c \<and> y = driver_dist env n c \<and> y < x \<and>
      (\<forall>d \<in> set us. free_driver env d \<longrightarrow> y < driver_dist env n d) \<and>
      (\<forall>d \<in> set vs. free_driver env d \<longrightarrow> y \<le> driver_dist env n d))"
proof (induction ds arbitrary: b x)
  case Nil
  then show ?case by simp
next
  case (Cons e ds)
  show ?case
  proof (cases "free_driver env e \<and> driver_dist env n e < x")
    case True
    with Cons.prems have "foldl (nearer env n) (e, driver_dist env n e) ds = (c, y)"
      by (simp add: nearer_simp)
    from Cons.IH [OF this] show ?thesis
    proof (elim disjE exE conjE)
      assume "c = e" "y = driver_dist env n e" "\<forall>d \<in> set ds. free_driver env d \<longrightarrow> driver_dist env n e \<le> driver_dist env n d"
      with True show ?thesis by (intro disjI2 exI [of _ "[]"] exI [of _ ds]) simp
    next
      fix us vs
      assume "ds = us @ c # vs" "free_driver env c" "y = driver_dist env n c" "y < driver_dist env n e"
        "\<forall>d \<in> set us. free_driver env d \<longrightarrow> y < driver_dist env n d"
        "\<forall>d \<in> set vs. free_driver env d \<longrightarrow> y \<le> driver_dist env n d"
      with True show ?thesis by (intro disjI2 exI [of _ "e # us"] exI [of _ vs]) auto
    qed
  next
    case False
    with Cons.prems have "foldl (nearer env n) (b, x) ds = (c, y)"
      by (simp add: nearer_simp)
    from Cons.IH [OF this] show ?thesis
    proof (elim disjE exE conjE)
      assume "c = b" "y = x" "\<forall>d \<in> set ds. free_driver env d \<longrightarrow> x \<le> driver_dist env n d"
      with False show ?thesis by auto
    next
      fix us vs
      assume "ds = us @ c # vs" "free_driver env c" "y = driver_dist env n c" "y < x"
        "\<forall>d \<in> set us. free_driver env d \<longrightarrow> y < driver_dist env n d"
        "\<forall>d \<in> set vs. free_driver env d \<longrightarrow> y \<le> driver_dist env n d"
      with False show ?thesis by (intro disjI2 exI [of _ "e # us"] exI [of _ vs]) auto
    qed
  qed
qed

lemma nearest_cases:
  "(nearest env s n = 0 \<and>
      (\<forall>d \<in> set (availableDrivers s). free_driver env d \<longrightarrow> dbl_max env \<le> driver_dist env n d)) \<or>
   (\<exists>us vs. availableDrivers s = us @ nearest env s n # vs \<and> free_driver env (nearest env s n) \<and>
      driver_dist env n (nearest env s n) < dbl_max env \<and>
      (\<forall>d \<in> set us. free_driver env d \<longrightarrow> driver_dist env n (nearest env s n) < driver_dist env n d) \<and>
      (\<forall>d \<in> set vs. free_driver env d \<longrightarrow> driver_dist env n (nearest env s n) \<le> driver_dist env n d))"
  unfolding nearest_def
  using closest_fold [of env n 0 "dbl_max env" "availableDrivers s"]
  by (cases "foldl (nearer env n) (0, dbl_max env) (availableDrivers s)") auto

lemma nearest_0:
  assumes "0 \<notin> set (availableDrivers s)"
  shows "nearest env s n = 0 \<longleftrightarrow>
     (\<forall>d \<in> set (availableDrivers s). free_driver env d \<longrightarrow> dbl_max env \<le> driver_dist env n d)"
  using nearest_cases [of env s n] assms by fastforce

lemma nearest_some:
  assumes "nearest env s n \<noteq> 0" "std_set (availableDrivers s)"
  shows "nearest env s n \<in> set (availableDrivers s) \<and> free_driver env (nearest env s n) \<and>
     (\<forall>d \<in> set (availableDrivers s). free_driver env d \<longrightarrow>
        driver_dist env n (nearest env s n) < driver_dist env n d \<or>
        driver_dist env n (nearest env s n) = driver_dist env n d \<and> nearest env s n \<le> d)"
proof -
  let ?c = "nearest env s n"
  obtain us vs where ds: "availableDrivers s = us @ ?c # vs" and c: "free_driver env ?c"
    and less: "\<forall>d \<in> set us. free_driver env d \<longrightarrow> driver_dist env n ?c < driver_dist env n d"
    and le: "\<forall>d \<in> set vs. free_driver env d \<longrightarrow> driver_dist env n ?c \<le> driver_dist env n d"
    using nearest_cases [of env s n] assms(1) by blast
  have "sorted (us @ ?c # vs)" using assms(2) unfolding ds by blast
  then have up: "\<forall>d \<in> set vs. ?c \<le> d" by (simp add: sorted_append)
  have "?c \<in> set (availableDrivers s)" "set (availableDrivers s) = insert ?c (set us \<union> set vs)"
    by (subst ds, simp)+
  with c less le up show ?thesis by (auto simp: le_less)
qed

text \<open>C23: In a consistent state in which the node and the nodes of the free drivers are known, \<open>findClosestDriver\<close> returns the
  closest of the available drivers that are cruising, parked, driving to a parking or just started, of equally close ones
  the one with the smallest address, and no driver exactly if none of them is closer than the largest \<open>double\<close>.\<close>

theorem findClosestDriver_is_closest:
  assumes "controller_ok s" "n \<noteq> 0" "\<forall>d \<in> set (availableDrivers s). free_driver env d \<longrightarrow> getCurrentNode env d \<noteq> 0"
  shows "\<exists>b. findClosestDriver env s n = Inr b \<and>
     (b = 0 \<longleftrightarrow>
       (\<forall>d \<in> set (availableDrivers s). free_driver env d \<longrightarrow> dbl_max env \<le> driver_dist env n d)) \<and>
     (b \<noteq> 0 \<longrightarrow>
       b \<in> set (availableDrivers s) \<and> free_driver env b \<and>
       (\<forall>d \<in> set (availableDrivers s). free_driver env d \<longrightarrow>
          driver_dist env n b < driver_dist env n d \<or> driver_dist env n b = driver_dist env n d \<and> b \<le> d))"
proof -
  have "0 \<notin> set (availableDrivers s)" using available_subscribed [OF assms(1)] controller_okD(8) [OF assms(1)] by blast
  moreover have "findClosestDriver env s n = Inr (nearest env s n)"
    using assms(2,3) by (intro findClosestDriver_known) (simp_all add: nodes_known_def)
  ultimately show ?thesis
    by (intro exI [of _ "nearest env s n"] conjI impI nearest_0 nearest_some [THEN conjunct1]
        nearest_some [THEN conjunct2, THEN conjunct1] nearest_some [THEN conjunct2, THEN conjunct2]
        controller_okD(3) [OF assms(1)])
qed

section \<open>One computation of the greedy controller\<close>

lemma greedy_schedule_items:
  "\<exists>rest. items (greedy_schedule env r) = newTripItem PICKUP r # newTripItem DROPOFF r # rest"
  by (simp add: greedy_schedule_def Let_def)

lemma assign_new_succeeds:
  assumes "d \<noteq> 0" "controllerServiceType cfg \<noteq> SERVICE_CONTROLLER_AMOD" "items sched = x # y # rest"
  shows "\<exists>t. assignSchedule cfg env s d sched False = Inr t"
  using assms
  by (simp add: assignSchedule_def store_new_def partial_driver_def sched_front_def sched_erase_def Let_def
      lift_schedule_def schedule_of_def)

lemma assign_frameD:
  assumes "assign_frame s t d"
  shows "subscribedDrivers t = subscribedDrivers s" "requestQueue t = requestQueue s" "currTime t = currTime s"
    "localTick t = localTick s"
  using assms by (simp_all add: assign_frame_def)

text \<open>What a pass over the requests \<open>rs\<close> does: \<open>ps\<close> are the requests it serves, with their drivers.\<close>

definition greedy_served :: "oc_env \<Rightarrow> oc_state \<Rightarrow> oc_state \<Rightarrow> (trip_request \<times> address) list \<Rightarrow> bool" where
  "greedy_served env s t ps \<longleftrightarrow>
     distinct (map snd ps) \<and> set (map snd ps) \<subseteq> set (availableDrivers s) \<and>
     set (availableDrivers t) = set (availableDrivers s) - set (map snd ps) \<and>
     outbox t = outbox s @ map (\<lambda>(r, d). (d, MSG_SCHEDULE_PROPOSITION (currTime s) (greedy_schedule env r))) ps \<and>
     (\<forall>(r, d) \<in> set ps. free_driver env d \<and>
        (\<forall>e \<in> set (availableDrivers t). free_driver env e \<longrightarrow>
           driver_dist env (startNode r) d \<le> driver_dist env (startNode r) e))"

lemma greedy_served_queue: "greedy_served env s (t\<lparr>requestQueue := q\<rparr>) ps \<longleftrightarrow> greedy_served env s t ps"
  by (simp add: greedy_served_def)

lemma ok_available_nonzero: "controller_ok s \<Longrightarrow> 0 \<notin> set (availableDrivers s)"
  using available_subscribed controller_okD(8) by blast

lemma greedy_loop_spec:
  assumes "controller_ok s" "controllerServiceType cfg \<noteq> SERVICE_CONTROLLER_AMOD" "nodes_known env s"
    "\<forall>r \<in> set rs. startNode r \<noteq> 0 \<and> destinationNode r \<noteq> 0"
  shows "\<exists>left t ps. greedy_loop cfg env rs s = Inr (left, t) \<and> controller_ok t \<and> currTime t = currTime s \<and>
     localTick t = localTick s \<and> rs \<in> shuffles left (map fst ps) \<and> greedy_served env s t ps \<and>
     (\<forall>r \<in> set left. nearest env t (startNode r) = 0)"
  using assms(1,3,4)
proof (induction rs arbitrary: s)
  case Nil
  then show ?case by (intro exI [of _ "[]"] exI [of _ s]) (simp add: greedy_served_def)
next
  case (Cons r rs)
  let ?d = "nearest env s (startNode r)"
  have rs: "startNode r \<noteq> 0" "destinationNode r \<noteq> 0" "\<forall>r \<in> set rs. startNode r \<noteq> 0 \<and> destinationNode r \<noteq> 0"
    using Cons.prems(3) by simp_all
  note find = findClosestDriver_known [OF rs(1) Cons.prems(2)]
  show ?case
  proof (cases "?d = 0")
    case True
    from Cons.IH [OF Cons.prems(1,2) rs(3)] obtain left t ps where
      g: "greedy_loop cfg env rs s = Inr (left, t)" "controller_ok t" "currTime t = currTime s" "localTick t = localTick s"
      "rs \<in> shuffles left (map fst ps)" "greedy_served env s t ps" "\<forall>r \<in> set left. nearest env t (startNode r) = 0"
      by blast
    have sub: "set (availableDrivers t) \<subseteq> set (availableDrivers s)" using g(6) by (auto simp: greedy_served_def)
    have "nearest env t (startNode r) = 0"
      using True sub unfolding nearest_0 [OF ok_available_nonzero [OF g(2)]]
        nearest_0 [OF ok_available_nonzero [OF Cons.prems(1)]] by blast
    moreover have "greedy_loop cfg env (r # rs) s = Inr (r # left, t)" using g(1) True find by simp
    moreover have "r # rs \<in> shuffles (r # left) (map fst ps)" using g(5) by (rule Cons_in_shuffles_leftI)
    ultimately show ?thesis using g by (intro exI [of _ "r # left"] exI [of _ t] exI [of _ ps]) simp
  next
    case False
    obtain s1 where a: "assignSchedule cfg env s ?d (greedy_schedule env r) False = Inr s1"
      using assign_new_succeeds [OF False assms(2)] greedy_schedule_items by blast
    note f = assign_new [OF a]
    note sf = nearest_some [OF False controller_okD(3) [OF Cons.prems(1)]]
    have ok1: "controller_ok s1"
      using ok_assign_new [OF Cons.prems(1) _ a] available_subscribed [OF Cons.prems(1)] sf by blast
    have av1: "set (availableDrivers s1) = set (availableDrivers s) - {?d}"
      using f controller_okD(3) [OF Cons.prems(1)] by simp
    have known1: "nodes_known env s1" using Cons.prems(2) av1 by (simp add: nodes_known_def)
    from Cons.IH [OF ok1 known1 rs(3)] obtain left t ps where
      g: "greedy_loop cfg env rs s1 = Inr (left, t)" "controller_ok t" "currTime t = currTime s1" "localTick t = localTick s1"
      "rs \<in> shuffles left (map fst ps)" "greedy_served env s1 t ps" "\<forall>r \<in> set left. nearest env t (startNode r) = 0"
      by blast
    have fr: "currTime s1 = currTime s" "localTick s1 = localTick s" using assign_frameD f by blast+
    have "greedy_served env s t ((r, ?d) # ps)"
      using g(6) f sf av1 unfolding greedy_served_def fr by auto
    moreover have "greedy_loop cfg env (r # rs) s = Inr (left, t)" using g(1) a False find rs(2) by simp
    moreover have "r # rs \<in> shuffles left (map fst ((r, ?d) # ps))"
      using Cons_in_shuffles_rightI [OF g(5), of r] by simp
    ultimately show ?thesis using g fr by (intro exI [of _ left] exI [of _ t] exI [of _ "(r, ?d) # ps"]) simp
  qed
qed

text \<open>C17: In a consistent state in which the queued requests have their nodes and the free drivers among the available ones
  a current node (the code reads these pointers unchecked), the greedy controller completes: the requests it serves go to different
  available drivers, one proposition each and in the order of the queue; the others stay in order; no driver
  left over is free and closer to a served request than its driver, and none could serve a request that stays.\<close>

theorem greedy_serves_what_it_can:
  assumes "controller_ok s" "controllerServiceType cfg = SERVICE_CONTROLLER_GREEDY"
    "\<forall>r \<in> set (requestQueue s). startNode r \<noteq> 0 \<and> destinationNode r \<noteq> 0"
    "\<forall>d \<in> set (availableDrivers s). free_driver env d \<longrightarrow> getCurrentNode env d \<noteq> 0"
  shows "\<exists>t ps. greedy_computeSchedules cfg env s = Inr t \<and> controller_ok t \<and>
     requestQueue s \<in> shuffles (requestQueue t) (map fst ps) \<and> greedy_served env s t ps \<and>
     (\<forall>r \<in> set (requestQueue t). \<forall>d \<in> set (availableDrivers t).
        free_driver env d \<longrightarrow> dbl_max env \<le> driver_dist env (startNode r) d)"
proof (cases "availableDrivers s = []")
  case True
  then show ?thesis
    using assms(1) by (intro exI [of _ s] exI [of _ "[]"]) (simp add: greedy_computeSchedules_def greedy_served_def)
next
  case False
  have "nodes_known env s" using assms(4) by (simp add: nodes_known_def)
  from greedy_loop_spec [OF assms(1) _ this assms(3), of cfg] assms(2) obtain left t ps where
    g: "greedy_loop cfg env (requestQueue s) s = Inr (left, t)" "controller_ok t"
    "requestQueue s \<in> shuffles left (map fst ps)" "greedy_served env s t ps"
    "\<forall>r \<in> set left. nearest env t (startNode r) = 0" by auto
  have "\<forall>r \<in> set left. \<forall>d \<in> set (availableDrivers t). free_driver env d \<longrightarrow> dbl_max env \<le> driver_dist env (startNode r) d"
    using g(5) nearest_0 [OF ok_available_nonzero [OF g(2)]] by blast
  moreover have "controller_ok (t\<lparr>requestQueue := left\<rparr>)"
    using g(2) by (subst controller_ok_cong [where s = t]) simp_all
  moreover have "greedy_served env s (t\<lparr>requestQueue := left\<rparr>) ps" using g(4) by (simp only: greedy_served_queue)
  ultimately show ?thesis
    using g(1,3) False
    by (intro exI [of _ "t\<lparr>requestQueue := left\<rparr>"] exI [of _ ps]) (simp add: greedy_computeSchedules_def)
qed

definition example_env :: oc_env where
  "example_env =
     \<lparr>geo = \<lparr>posX = real, posY = (\<lambda>n. 0), rnd = (\<lambda>x. x)\<rparr>,
      exportServiceDriver = (\<lambda>d. Some \<lparr>driverStatus = CRUISING, currentNode = d + 4, numAssigned = 0\<rparr>),
      sureToBeDeleted = (\<lambda>d. False), passengerCapacity = (\<lambda>d. 4), od_time = (\<lambda>a b t. 60),
      od_time_study_area = (\<lambda>a b t. 60), shortest_time = (\<lambda>a b t. 60), studyAreaEnabled = False,
      nearest_parking = (\<lambda>x y. 0), dbl_max = 1000000, map_order = (\<lambda>ps. ps)\<rparr>"

definition two_drivers :: oc_state where
  "two_drivers = subscribeDriver (subscribeDriver newController 1) 2"

lemma two_drivers_ok: "controller_ok two_drivers" "availableDrivers two_drivers = [1, 2]"
proof -
  show "controller_ok two_drivers"
    unfolding two_drivers_def
    by (intro ok_subscribe ok_new)
      (simp_all add: subscribeDriver_def base_subscribeDriver_def newController_def Let_def)
  show "availableDrivers two_drivers = [1, 2]"
    by (simp add: two_drivers_def subscribeDriver_def base_subscribeDriver_def newController_def std_insert_def Let_def)
qed

lemma findClosestDriver_is_closest_witness:
  "\<exists>b. findClosestDriver example_env two_drivers 5 = Inr b \<and> b = 1"
proof -
  have d: "free_driver example_env d" "getCurrentNode example_env d = d + 4" "driver_dist example_env 5 d = \<bar>real d - 1\<bar>" for d
    by (simp_all add: free_driver_def has_status_def getCurrentNode_def example_env_def driver_dist_def dist_def)
  then have n: "\<forall>d \<in> set (availableDrivers two_drivers). free_driver example_env d \<longrightarrow> getCurrentNode example_env d \<noteq> 0" by simp
  obtain b where b: "findClosestDriver example_env two_drivers 5 = Inr b"
    "b = 0 \<longleftrightarrow> (\<forall>d \<in> set (availableDrivers two_drivers). free_driver example_env d \<longrightarrow> dbl_max example_env \<le> driver_dist example_env 5 d)"
    "b \<noteq> 0 \<longrightarrow> b \<in> set (availableDrivers two_drivers) \<and> (\<forall>d \<in> set (availableDrivers two_drivers). free_driver example_env d \<longrightarrow>
        driver_dist example_env 5 b < driver_dist example_env 5 d \<or> driver_dist example_env 5 b = driver_dist example_env 5 d \<and> b \<le> d)"
    using findClosestDriver_is_closest [OF two_drivers_ok(1) _ n, of 5] by auto
  have "dbl_max example_env = 1000000" by (simp add: example_env_def)
  with b(2) have "b \<noteq> 0" by (simp add: two_drivers_ok d)
  with b(3) have "b = 1" by (auto simp: two_drivers_ok d)
  with b(1) show ?thesis by blast
qed

definition example_request :: trip_request where
  "example_request = newTripRequest\<lparr>startNode := 7, destinationNode := 9\<rparr>"

lemma greedy_serves_what_it_can_witness:
  "\<exists>t ps. greedy_computeSchedules example_config example_env (two_drivers\<lparr>requestQueue := [example_request]\<rparr>) = Inr t \<and>
     [example_request] \<in> shuffles (requestQueue t) (map fst ps) \<and>
     greedy_served example_env (two_drivers\<lparr>requestQueue := [example_request]\<rparr>) t ps \<and> length ps = 1"
proof -
  let ?s = "two_drivers\<lparr>requestQueue := [example_request]\<rparr>"
  have ok: "controller_ok ?s" using two_drivers_ok(1) by (subst controller_ok_cong [where s = two_drivers]) simp_all
  have g: "controllerServiceType example_config = SERVICE_CONTROLLER_GREEDY" by (simp add: example_config_def)
  have r: "\<forall>r \<in> set (requestQueue ?s). startNode r \<noteq> 0 \<and> destinationNode r \<noteq> 0" by (simp add: example_request_def)
  have d: "free_driver example_env d" "getCurrentNode example_env d = d + 4" "driver_dist example_env 7 d = \<bar>real d - 3\<bar>" for d
    by (simp_all add: free_driver_def has_status_def getCurrentNode_def example_env_def driver_dist_def dist_def)
  then have n: "\<forall>d \<in> set (availableDrivers ?s). free_driver example_env d \<longrightarrow> getCurrentNode example_env d \<noteq> 0" by simp
  obtain t ps where t: "greedy_computeSchedules example_config example_env ?s = Inr t"
    "[example_request] \<in> shuffles (requestQueue t) (map fst ps)" "greedy_served example_env ?s t ps"
    "\<forall>r \<in> set (requestQueue t). \<forall>d \<in> set (availableDrivers t). free_driver example_env d \<longrightarrow>
        dbl_max example_env \<le> driver_dist example_env (startNode r) d"
    using greedy_serves_what_it_can [OF ok g r n] by auto
  have "length (requestQueue t) + length ps = 1" using length_shuffles [OF t(2)] by simp
  moreover have "requestQueue t = []"
  proof (rule ccontr)
    assume q: "requestQueue t \<noteq> []"
    with calculation have p: "ps = []" by (cases "requestQueue t") auto
    with t(2) have "requestQueue t = [example_request]" by simp
    moreover have "1 \<in> set (availableDrivers t)" using t(3) p by (simp add: greedy_served_def two_drivers_ok)
    ultimately have "dbl_max example_env \<le> driver_dist example_env 7 1" using t(4) d(1) by (simp add: example_request_def)
    then show False by (simp add: d(3)) (simp add: example_env_def)
  qed
  ultimately show ?thesis using t by auto
qed

section \<open>The greedy controller as a way to compute schedules\<close>

lemma greedy_loop_ok:
  "controller_ok s \<Longrightarrow> greedy_loop cfg env rs s = Inr (left, t) \<Longrightarrow> controller_ok t"
proof (induction rs arbitrary: s left)
  case Nil
  then show ?case by simp
next
  case (Cons r rs)
  let ?d = "nearest env s (startNode r)"
  from Cons.prems(2) have f: "findClosestDriver env s (startNode r) = Inr ?d"
    by (auto simp: rbind_Inr dest: findClosestDriver_Inr)
  show ?case
  proof (cases "?d = 0")
    case True
    with Cons.prems(2) f obtain l where "greedy_loop cfg env rs s = Inr (l, t)" by (auto simp: rbind_Inr)
    with Cons.IH Cons.prems(1) show ?thesis by blast
  next
    case False
    with Cons.prems(2) f obtain s1 where s1: "assignSchedule cfg env s ?d (greedy_schedule env r) False = Inr s1"
      and t: "greedy_loop cfg env rs s1 = Inr (left, t)" by (auto simp: rbind_Inr guard_Inr)
    have "?d \<in> set (subscribedDrivers s)"
      using nearest_some [OF False controller_okD(3) [OF Cons.prems(1)]] available_subscribed [OF Cons.prems(1)] by blast
    from Cons.IH [OF ok_assign_new [OF Cons.prems(1) this s1] t] show ?thesis .
  qed
qed

interpretation greedy: schedule_computation greedy_computeSchedules
proof
  fix env s cfg t
  assume ok: "controller_ok s" and r: "greedy_computeSchedules cfg env s = Inr t"
  show "controller_ok t"
  proof (cases "availableDrivers s = []")
    case False
    with r obtain left u where "greedy_loop cfg env (requestQueue s) s = Inr (left, u)"
      and t: "t = u\<lparr>requestQueue := left\<rparr>"
      by (auto simp: greedy_computeSchedules_def rbind_Inr)
    from greedy_loop_ok [OF ok this(1)] show ?thesis
      unfolding t by (subst controller_ok_cong [where s = u]) simp_all
  qed (use r ok in \<open>simp add: greedy_computeSchedules_def\<close>)
qed

end
