(* ===== verification/Schedule_Search.thy ===== *)
theory Schedule_Search
  imports Greedy_Controller
begin

text \<open>
  How the ride-sharing controllers judge a schedule: the travel-time estimate, \<open>evaluateSchedule\<close>,
  the search over all permutations \<open>computeSchedule\<close>, and \<open>canBeShared\<close>
  (\<open>shared/entities/controllers/OnCallController.cpp\<close>), with the \<open>Group\<close> of requests of the header.
\<close>

section \<open>Travel times\<close>

definition getSeconds :: "geometry \<Rightarrow> timeslice \<Rightarrow> real" where
  "getSeconds g t = rnd g (real (unat (ms t)) / 1000)"

definition getTT_points :: "geometry \<Rightarrow> address \<Rightarrow> address \<Rightarrow> real" where
  "getTT_points g a b =
     (let dx = rnd g (posX g a - posX g b); dy = rnd g (posY g a - posY g b);
          squareDistance = rnd g (rnd g (dx ^ 2) + rnd g (dy ^ 2));
          cathetus = rnd g (rnd g (sqrt squareDistance) / rnd g (sqrt 2));
          distanceToCover = rnd g (2 * cathetus);
          speedAssumed = rnd g (rnd g (30 * 1000) / 3600)
      in rnd g (distanceToCover / speedAssumed))"

definition valid_time :: "oc_env \<Rightarrow> real \<Rightarrow> real" where
  "valid_time env t = (if t \<le> 0 then dbl_max env else t)"

definition getTT :: "oc_config \<Rightarrow> oc_env \<Rightarrow> timeslice \<Rightarrow> address \<Rightarrow> address \<Rightarrow> (oc_error, real) result" where
  "getTT cfg env now node1 node2 =
     (if node1 = node2 then Inr 0
      else case ttEstimateType cfg of
        OD_ESTIMATION \<Rightarrow>
          guard NullDereference (node1 \<noteq> 0 \<and> node2 \<noteq> 0)
            (Inr (valid_time env
              (if studyAreaEnabledController cfg \<and> studyAreaEnabled env
               then od_time_study_area env node1 node2 (ms now) else od_time env node1 node2 (ms now))))
      | SHORTEST_PATH_ESTIMATION \<Rightarrow> Inr (valid_time env (shortest_time env node1 node2 (ms now)))
      | EUCLIDEAN_ESTIMATION \<Rightarrow>
          guard NullDereference (node1 \<noteq> 0 \<and> node2 \<noteq> 0) (Inr (getTT_points (geo env) node1 node2)))"

section \<open>Evaluating a schedule\<close>

text \<open>The loop over the items; \<open>None\<close> is the early return for a schedule that is not feasible.\<close>

fun evaluate_items :: "oc_config \<Rightarrow> oc_env \<Rightarrow> timeslice \<Rightarrow> nat \<Rightarrow> real \<Rightarrow> real \<Rightarrow> real \<Rightarrow> address \<Rightarrow> u32 \<Rightarrow>
   schedule_item list \<Rightarrow> (oc_error, real option) result" where
  "evaluate_items cfg env now nItems extra wait stamp node pax [] = Inr (Some stamp)"
| "evaluate_items cfg env now nItems extra wait stamp node pax (x # xs) =
     (let r = tripRequest x; g = geo env in
      case scheduleItemType x of
        PICKUP \<Rightarrow>
          rbind (getTT cfg env now node (startNode r)) (\<lambda>tt.
            let stamp1 = rnd g (stamp + tt) in
            if rnd g (stamp1 - getSeconds g (timeOfRequest r)) > wait then Inr None
            else if pax + 1 = 0 then Inr None
            else evaluate_items cfg env now nItems extra wait stamp1 (startNode r) (pax + 1) xs)
      | DROPOFF \<Rightarrow>
          rbind (getTT cfg env now node (destinationNode r)) (\<lambda>tt.
          rbind (getTT cfg env now (startNode r) (destinationNode r)) (\<lambda>direct.
            let stamp1 = rnd g (stamp + tt);
                timeIfHeWereAlone = rnd g (900 + direct);
                rideTimeThreshold = (if nItems > 2 then rnd g (timeIfHeWereAlone + extra) else timeIfHeWereAlone)
            in if rnd g (stamp1 - getSeconds g (timeOfRequest r)) > rideTimeThreshold then Inr None
               else if pax = 0 then Inr None
               else evaluate_items cfg env now nItems extra wait stamp1 (destinationNode r) pax xs))
      | _ \<Rightarrow> Inl UnexpectedItem)"

definition evaluateSchedule :: "oc_config \<Rightarrow> oc_env \<Rightarrow> timeslice \<Rightarrow> address \<Rightarrow> schedule_item list \<Rightarrow> real \<Rightarrow> real \<Rightarrow>
   (oc_error, real) result" where
  "evaluateSchedule cfg env now initialPosition xs additionalDelayThreshold waitingTimeThreshold =
     (let initial = getSeconds (geo env) now in
      rbind (evaluate_items cfg env now (length xs) additionalDelayThreshold waitingTimeThreshold
              initial initialPosition 0 xs)
        (\<lambda>res. case res of None \<Rightarrow> Inr (- 1) | Some stamp \<Rightarrow> Inr (rnd (geo env) (stamp - initial))))"

section \<open>Groups of requests\<close>

text \<open>In the release build a group is a list; the debug build refuses a member twice.\<close>

type_synonym request_group = "trip_request list"

definition newGroupOf :: request_group where
  "newGroupOf = []"

definition group_insert :: "request_group \<Rightarrow> trip_request \<Rightarrow> request_group" where
  "group_insert G r = G @ [r]"

definition group_contains :: "request_group \<Rightarrow> trip_request \<Rightarrow> bool" where
  "group_contains G r \<longleftrightarrow> (\<exists>q \<in> set G. trip_eq q r)"

definition group_eq :: "request_group \<Rightarrow> request_group \<Rightarrow> bool" where
  "group_eq G H \<longleftrightarrow> list_all2 trip_eq G H"

fun group_less_loop :: "request_group \<Rightarrow> request_group \<Rightarrow> bool" where
  "group_less_loop (r # G) (q # H) =
     (if trip_less r q then True else if trip_greater r q then False else group_less_loop G H)"
| "group_less_loop _ _ = False"

definition group_less :: "request_group \<Rightarrow> request_group \<Rightarrow> bool" where
  "group_less G H \<longleftrightarrow>
     (if length G < length H then True else if length G > length H then False else group_less_loop G H)"

section \<open>The search over the permutations\<close>

record search =
  travelTime :: real
  isFeasible :: bool
  bestItems :: "schedule_item list"

definition try_permutation :: "(schedule_item list \<Rightarrow> (oc_error, real) result) \<Rightarrow> schedule_item list \<Rightarrow> search \<Rightarrow>
   (oc_error, search) result" where
  "try_permutation eval xs b =
     rbind (eval xs) (\<lambda>t.
       Inr (if t \<ge> 0 \<and> t < travelTime b then \<lparr>travelTime = t, isFeasible = True, bestItems = xs\<rparr> else b))"

partial_function (option) permutation_loop :: "(schedule_item list \<Rightarrow> (oc_error, real) result) \<Rightarrow> bool \<Rightarrow>
   schedule_item list \<Rightarrow> search \<Rightarrow> (oc_error, search) result option" where
  "permutation_loop eval optimal xs b =
     (case try_permutation eval xs b of
        Inl e \<Rightarrow> Some (Inl e)
      | Inr b1 \<Rightarrow>
          (case next_permutation item_less xs of
             None \<Rightarrow> Some (Inr b1)
           | Some ys \<Rightarrow> if \<not> optimal \<and> isFeasible b1 then Some (Inr b1) else permutation_loop eval optimal ys b1))"

definition additional_items :: "request_group \<Rightarrow> schedule_item list" where
  "additional_items G = concat (map (\<lambda>r. [newTripItem PICKUP r, newTripItem DROPOFF r]) G)"

text \<open>The result and the schedule for the caller's reference argument: \<open>newSched\<close> if none is feasible.\<close>

definition computeSchedule :: "oc_config \<Rightarrow> oc_env \<Rightarrow> timeslice \<Rightarrow> address \<Rightarrow> schedule \<Rightarrow> request_group \<Rightarrow> schedule \<Rightarrow> bool \<Rightarrow>
   (oc_error, real \<times> schedule) result option" where
  "computeSchedule cfg env now initialNode currentSchedule G newSched isOptimalityRequired =
     (case insert_items (geo env) currentSchedule (length (items currentSchedule)) (additional_items G) of
        Inl e \<Rightarrow> Some (Inl (ScheduleError e))
      | Inr temp \<Rightarrow>
          map_option (\<lambda>res. rbind res (\<lambda>b.
              if isFeasible b then Inr (travelTime b, temp\<lparr>items := bestItems b\<rparr>) else Inr (- 1, newSched)))
            (permutation_loop
              (\<lambda>xs. evaluateSchedule cfg env now initialNode xs (dbl_max env) (dbl_max env))
              isOptimalityRequired (std_sort item_less (items temp))
              \<lparr>travelTime = dbl_max env, isFeasible = False, bestItems = []\<rparr>))"

text \<open>The two requests are not part of the schedule that is evaluated.\<close>

definition canBeShared :: "oc_config \<Rightarrow> oc_env \<Rightarrow> timeslice \<Rightarrow> trip_request \<Rightarrow> trip_request \<Rightarrow> real \<Rightarrow> real \<Rightarrow>
   (oc_error, bool) result" where
  "canBeShared cfg env now r1 r2 additionalDelayThreshold waitingTimeThreshold =
     rbind (evaluateSchedule cfg env now (startNode r1) [] additionalDelayThreshold waitingTimeThreshold) (\<lambda>t.
       if t \<ge> 0 then Inr True
       else rbind (evaluateSchedule cfg env now (startNode r2) [] additionalDelayThreshold waitingTimeThreshold)
              (\<lambda>t. Inr (t \<ge> 0)))"

section \<open>What the evaluation computes\<close>

definition tt_value :: "oc_config \<Rightarrow> oc_env \<Rightarrow> timeslice \<Rightarrow> address \<Rightarrow> address \<Rightarrow> real" where
  "tt_value cfg env now a b = (case getTT cfg env now a b of Inl e \<Rightarrow> 0 | Inr t \<Rightarrow> t)"

lemma getTT_value: "a \<noteq> 0 \<Longrightarrow> b \<noteq> 0 \<Longrightarrow> getTT cfg env now a b = Inr (tt_value cfg env now a b)"
  by (simp add: tt_value_def getTT_def split: tt_estimate.split)

text \<open>Items of riders, with nodes.\<close>

definition rider_item :: "schedule_item \<Rightarrow> bool" where
  "rider_item x \<longleftrightarrow> scheduleItemType x \<in> {PICKUP, DROPOFF} \<and> startNode (tripRequest x) \<noteq> 0 \<and>
     destinationNode (tripRequest x) \<noteq> 0"

lemma rider_item_node: "rider_item x \<Longrightarrow> getNode x \<noteq> 0"
  by (auto simp: rider_item_def getNode_def)

text \<open>The times of arrival at the stops.\<close>

fun arrivals :: "oc_config \<Rightarrow> oc_env \<Rightarrow> timeslice \<Rightarrow> real \<Rightarrow> address \<Rightarrow> schedule_item list \<Rightarrow> real list" where
  "arrivals cfg env now stamp node [] = []"
| "arrivals cfg env now stamp node (x # xs) =
     (let t = rnd (geo env) (stamp + tt_value cfg env now node (getNode x))
      in t # arrivals cfg env now t (getNode x) xs)"

definition ride_limit :: "oc_config \<Rightarrow> oc_env \<Rightarrow> timeslice \<Rightarrow> nat \<Rightarrow> real \<Rightarrow> trip_request \<Rightarrow> real" where
  "ride_limit cfg env now n extra r =
     (let alone = rnd (geo env) (900 + tt_value cfg env now (startNode r) (destinationNode r))
      in if n > 2 then rnd (geo env) (alone + extra) else alone)"

definition in_time :: "oc_config \<Rightarrow> oc_env \<Rightarrow> timeslice \<Rightarrow> nat \<Rightarrow> real \<Rightarrow> real \<Rightarrow> schedule_item \<Rightarrow> real \<Rightarrow> bool" where
  "in_time cfg env now n extra wait x t \<longleftrightarrow>
     rnd (geo env) (t - getSeconds (geo env) (timeOfRequest (tripRequest x))) \<le>
       (if scheduleItemType x = PICKUP then wait else ride_limit cfg env now n extra (tripRequest x))"

lemma evaluate_items_spec:
  assumes "\<forall>x \<in> set xs. rider_item x" "node \<noteq> 0" "unat pax + length xs < 2 ^ 32"
  shows "evaluate_items cfg env now n extra wait stamp node pax xs =
     Inr (if (pax \<noteq> 0 \<or> xs = [] \<or> scheduleItemType (hd xs) = PICKUP) \<and>
             list_all2 (in_time cfg env now n extra wait) xs (arrivals cfg env now stamp node xs)
          then Some (last (stamp # arrivals cfg env now stamp node xs)) else None)"
  using assms
proof (induction xs arbitrary: stamp node pax)
  case Nil
  then show ?case by simp
next
  case (Cons x xs)
  let ?r = "tripRequest x"
  let ?t = "rnd (geo env) (stamp + tt_value cfg env now node (getNode x))"
  have x: "rider_item x" and xs: "\<forall>x \<in> set xs. rider_item x" using Cons.prems(1) by simp_all
  have tt: "getTT cfg env now node (getNode x) = Inr (tt_value cfg env now node (getNode x))"
    by (rule getTT_value [OF Cons.prems(2) rider_item_node [OF x]])
  have direct: "getTT cfg env now (startNode ?r) (destinationNode ?r) =
      Inr (tt_value cfg env now (startNode ?r) (destinationNode ?r))"
    by (rule getTT_value) (use x in \<open>simp_all add: rider_item_def\<close>)
  have pax: "unat (pax + 1) = Suc (unat pax)" by (rule unat_Suc_word) (use Cons.prems(3) in simp)
  then have nz: "pax + 1 \<noteq> 0" by (metis nat.discI unat_eq_zero)
  show ?case
  proof (cases "scheduleItemType x")
    case PICKUP
    have node: "getNode x = startNode ?r" by (simp add: getNode_def PICKUP)
    have limit: "in_time cfg env now n extra wait x ?t \<longleftrightarrow>
        \<not> rnd (geo env) (?t - getSeconds (geo env) (timeOfRequest ?r)) > wait"
      by (simp add: in_time_def PICKUP not_less)
    have "evaluate_items cfg env now n extra wait ?t (getNode x) (pax + 1) xs =
        Inr (if list_all2 (in_time cfg env now n extra wait) xs (arrivals cfg env now ?t (getNode x) xs)
             then Some (last (?t # arrivals cfg env now ?t (getNode x) xs)) else None)"
      using Cons.IH [OF xs rider_item_node [OF x], of "pax + 1" ?t] Cons.prems(3) pax nz by simp
    then show ?thesis using tt limit nz by (simp add: PICKUP Let_def node)
  next
    case DROPOFF
    have node: "getNode x = destinationNode ?r" by (simp add: getNode_def DROPOFF)
    have limit: "in_time cfg env now n extra wait x ?t \<longleftrightarrow>
        \<not> rnd (geo env) (?t - getSeconds (geo env) (timeOfRequest ?r)) > ride_limit cfg env now n extra ?r"
      by (simp add: in_time_def DROPOFF not_less)
    have "evaluate_items cfg env now n extra wait ?t (getNode x) pax xs =
        Inr (if list_all2 (in_time cfg env now n extra wait) xs (arrivals cfg env now ?t (getNode x) xs)
             then Some (last (?t # arrivals cfg env now ?t (getNode x) xs)) else None)" if "pax \<noteq> 0"
      using Cons.IH [OF xs rider_item_node [OF x], of pax ?t] Cons.prems(3) that by simp
    then show ?thesis using tt direct limit by (auto simp: DROPOFF Let_def node ride_limit_def)
  qed (use x in \<open>simp_all add: rider_item_def\<close>)
qed

lemma evaluateSchedule_value:
  assumes "\<forall>x \<in> set xs. rider_item x" "node \<noteq> 0" "length xs < 2 ^ 32"
  shows "evaluateSchedule cfg env now node xs extra wait =
     (let start = getSeconds (geo env) now; ts = arrivals cfg env now start node xs
      in Inr (if (xs = [] \<or> scheduleItemType (hd xs) = PICKUP) \<and>
                 list_all2 (in_time cfg env now (length xs) extra wait) xs ts
              then rnd (geo env) (last (start # ts) - start) else - 1))"
  using evaluate_items_spec [OF assms(1,2), of 0] assms(3) by (simp add: evaluateSchedule_def Let_def)

text \<open>On items of riders \<open>evaluateSchedule\<close> succeeds with the travel time of the schedule if the first
  item is a pick-up and every stop is reached in time, and with -1 otherwise; that a rider is picked up
  before the drop-off is not looked at.\<close>

theorem evaluateSchedule_spec:
  assumes "\<forall>x \<in> set xs. rider_item x" "node \<noteq> 0" "length xs < 2 ^ 32"
  shows "evaluateSchedule cfg env now node xs extra wait =
     (let start = getSeconds (geo env) now; ts = arrivals cfg env now start node xs
      in Inr (if (xs = [] \<or> scheduleItemType (hd xs) = PICKUP) \<and>
                 list_all2 (in_time cfg env now (length xs) extra wait) xs ts
              then rnd (geo env) (last (start # ts) - start) else - 1))"
  by (rule evaluateSchedule_value [OF assms])

text \<open>Rider 2 is dropped off before the pick-up, and the schedule is accepted.\<close>

definition line_env :: oc_env where
  "line_env = example_env\<lparr>shortest_time := \<lambda>a b t. \<bar>real a - real b\<bar>\<rparr>"

definition line_config :: oc_config where
  "line_config = example_config\<lparr>ttEstimateType := SHORTEST_PATH_ESTIMATION\<rparr>"

definition rider :: "string \<Rightarrow> address \<Rightarrow> address \<Rightarrow> trip_request" where
  "rider u a b = newTripRequest\<lparr>userId := u, startNode := a, destinationNode := b, requestType := TRIP_REQUEST_SHARED\<rparr>"

definition crossed_schedule :: "schedule_item list" where
  "crossed_schedule =
     [newTripItem PICKUP (rider ''1'' 1 4), newTripItem DROPOFF (rider ''2'' 3 2),
      newTripItem PICKUP (rider ''2'' 3 2), newTripItem DROPOFF (rider ''1'' 1 4)]"

lemma crossed_riders: "\<forall>x \<in> set crossed_schedule. rider_item x" "length crossed_schedule < 2 ^ 32"
  by (simp_all add: crossed_schedule_def rider_item_def newTripItem_def rider_def newTripRequest_def)

lemma line_tt: "tt_value line_config line_env now a b = \<bar>real a - real b\<bar>"
proof (cases "a = b")
  case True
  then show ?thesis by (simp add: tt_value_def getTT_def)
next
  case False
  then show ?thesis
    by (simp add: tt_value_def getTT_def valid_time_def line_env_def line_config_def example_env_def example_config_def)
qed

lemma line_geo [simp]: "geo line_env = \<lparr>posX = real, posY = (\<lambda>n. 0), rnd = (\<lambda>x. x)\<rparr>" "dbl_max line_env = 1000000"
  by (simp_all add: line_env_def example_env_def)

lemmas crossed_eval = crossed_schedule_def newTripItem_def rider_def newTripRequest_def getNode_def in_time_def
  ride_limit_def getSeconds_def line_tt

lemma evaluateSchedule_spec_witness:
  "evaluateSchedule line_config line_env \<lparr>frame = 0, ms = 0\<rparr> 1 crossed_schedule 600 600 = Inr 3"
  by (subst evaluateSchedule_spec [OF crossed_riders(1) _ crossed_riders(2)]) (simp_all add: crossed_eval)

section \<open>The search finds the best permutation\<close>

definition pure_try :: "(schedule_item list \<Rightarrow> real) \<Rightarrow> search \<Rightarrow> schedule_item list \<Rightarrow> search" where
  "pure_try v b xs =
     (if 0 \<le> v xs \<and> v xs < travelTime b then \<lparr>travelTime = v xs, isFeasible = True, bestItems = xs\<rparr> else b)"

text \<open>What a search that starts with \<open>b\<close> found in a list of schedules.\<close>

definition found :: "(schedule_item list \<Rightarrow> real) \<Rightarrow> search \<Rightarrow> schedule_item list set \<Rightarrow> search \<Rightarrow> bool" where
  "found v b A b' \<longleftrightarrow>
     isFeasible b' \<and> bestItems b' \<in> A \<and> v (bestItems b') = travelTime b' \<and> 0 \<le> travelTime b' \<and>
     travelTime b' < travelTime b"

lemma found_mono: "found v c A b' \<Longrightarrow> travelTime c \<le> travelTime b \<Longrightarrow> A \<subseteq> B \<Longrightarrow> found v b B b'"
  by (auto simp: found_def)

lemma fold_try:
  "(foldl (pure_try v) b zss = b \<or> found v b (set zss) (foldl (pure_try v) b zss)) \<and>
   travelTime (foldl (pure_try v) b zss) \<le> travelTime b \<and>
   (\<forall>zs \<in> set zss. 0 \<le> v zs \<longrightarrow> travelTime (foldl (pure_try v) b zss) \<le> v zs)"
proof (induction zss arbitrary: b)
  case Nil
  then show ?case by simp
next
  case (Cons zs zss)
  let ?c = "pure_try v b zs"
  have c: "travelTime ?c \<le> travelTime b" "0 \<le> v zs \<Longrightarrow> travelTime ?c \<le> v zs" "?c = b \<or> found v b {zs} ?c"
    by (auto simp: pure_try_def found_def)
  from Cons.IH [of ?c] show ?case
  proof (elim conjE disjE, goal_cases)
    case 1
    then show ?case using c by (auto simp: found_def)
  next
    case 2
    then show ?case
      using c found_mono [OF 2(3), of b "set (zs # zss)"] by auto
  qed
qed

lemma loop_optimal:
  assumes "visits item_less xs zss" "\<forall>zs \<in> set zss. eval zs = Inr (v zs)"
  shows "permutation_loop eval True xs b = Some (Inr (foldl (pure_try v) b zss))"
  using assms
proof (induction arbitrary: b rule: visits.induct)
  case (last_one xs)
  then show ?case by (simp add: permutation_loop.simps try_permutation_def pure_try_def)
next
  case (another xs ys zss)
  then show ?case by (simp add: permutation_loop.simps [of eval True xs] try_permutation_def pure_try_def)
qed

lemma loop_first:
  assumes "visits item_less xs zss" "\<forall>zs \<in> set zss. eval zs = Inr (v zs)" "\<not> isFeasible b"
  shows "\<exists>b'. permutation_loop eval False xs b = Some (Inr b') \<and>
     (b' = b \<and> (\<forall>zs \<in> set zss. \<not> (0 \<le> v zs \<and> v zs < travelTime b)) \<or> found v b (set zss) b')"
  using assms
proof (induction arbitrary: b rule: visits.induct)
  case (last_one xs)
  then show ?case by (auto simp: permutation_loop.simps try_permutation_def found_def)
next
  case (another xs ys zss)
  show ?case
  proof (cases "0 \<le> v xs \<and> v xs < travelTime b")
    case True
    with another show ?thesis
      by (simp add: permutation_loop.simps [of eval False xs] try_permutation_def found_def)
  next
    case False
    from another.IH [OF _ another.prems(2)] another.prems(1) obtain b' where
      "permutation_loop eval False ys b = Some (Inr b')"
      "b' = b \<and> (\<forall>zs \<in> set zss. \<not> (0 \<le> v zs \<and> v zs < travelTime b)) \<or> found v b (set zss) b'" by auto
    with another False show ?thesis
      by (auto simp: permutation_loop.simps [of eval False xs] try_permutation_def found_def)
  qed
qed

text \<open>The two searches, on all permutations.\<close>

lemma search_result:
  assumes t: "strict_total_on item_less (set xs)" and v: "\<And>zs. mset zs = mset xs \<Longrightarrow> eval zs = Inr (v zs)"
    and b: "\<not> isFeasible b"
  shows "\<exists>b'. permutation_loop eval opt (std_sort item_less xs) b = Some (Inr b') \<and>
     (b' = b \<and> (\<forall>zs. mset zs = mset xs \<longrightarrow> \<not> (0 \<le> v zs \<and> v zs < travelTime b)) \<or>
      found v b {zs. mset zs = mset xs} b' \<and> (opt \<longrightarrow> (\<forall>zs. mset zs = mset xs \<longrightarrow> 0 \<le> v zs \<longrightarrow> travelTime b' \<le> v zs)))"
proof -
  obtain zss where z: "visits item_less (std_sort item_less xs) zss" "set zss = {zs. mset zs = mset xs}"
    using visits_all [OF t] by blast
  then have e: "\<forall>zs \<in> set zss. eval zs = Inr (v zs)" using v by simp
  show ?thesis
  proof (cases opt)
    case False
    from loop_first [OF z(1) e b] show ?thesis using False by (simp add: z(2))
  next
    case True
    let ?b = "foldl (pure_try v) b zss"
    have "?b = b \<and> (\<forall>zs \<in> set zss. \<not> (0 \<le> v zs \<and> v zs < travelTime b)) \<or>
        found v b (set zss) ?b \<and> (\<forall>zs \<in> set zss. 0 \<le> v zs \<longrightarrow> travelTime ?b \<le> v zs)"
      using fold_try [of v b zss] by fastforce
    with loop_optimal [OF z(1) e] True show ?thesis by (simp add: z(2))
  qed
qed

definition schedule_value :: "oc_config \<Rightarrow> oc_env \<Rightarrow> timeslice \<Rightarrow> address \<Rightarrow> schedule_item list \<Rightarrow> real" where
  "schedule_value cfg env now node xs =
     (case evaluateSchedule cfg env now node xs (dbl_max env) (dbl_max env) of Inl e \<Rightarrow> - 1 | Inr t \<Rightarrow> t)"

lemma schedule_value:
  assumes "\<forall>x \<in> set xs. rider_item x" "node \<noteq> 0" "length xs < 2 ^ 32"
  shows "evaluateSchedule cfg env now node xs (dbl_max env) (dbl_max env) = Inr (schedule_value cfg env now node xs)"
  unfolding schedule_value_def by (simp add: evaluateSchedule_value [OF assms] Let_def)

text \<open>C22: On items of riders told apart by time and user \<open>computeSchedule\<close> terminates without an error: it
  returns -1 and leaves the caller's schedule if no permutation of the old and the new items is feasible in
  less than the largest \<open>double\<close>, and else the travel time of a permutation it hands back, the smallest one of
  all permutations if optimality is required.\<close>

theorem computeSchedule_searches_all:
  assumes "items cur @ additional_items G = xs" "trip_items (set xs)" "\<forall>x \<in> set xs. rider_item x" "length xs < 2 ^ 32"
    "node \<noteq> 0"
  shows "\<exists>t s'. computeSchedule cfg env now node cur G newSched opt = Some (Inr (t, s')) \<and>
     (t = - 1 \<and> s' = newSched \<and>
        (\<forall>zs. mset zs = mset xs \<longrightarrow>
           \<not> (0 \<le> schedule_value cfg env now node zs \<and> schedule_value cfg env now node zs < dbl_max env)) \<or>
      0 \<le> t \<and> t < dbl_max env \<and> mset (items s') = mset xs \<and> schedule_value cfg env now node (items s') = t \<and>
        (opt \<longrightarrow> (\<forall>zs. mset zs = mset xs \<longrightarrow> 0 \<le> schedule_value cfg env now node zs \<longrightarrow>
           t \<le> schedule_value cfg env now node zs)))"
proof -
  let ?eval = "\<lambda>xs. evaluateSchedule cfg env now node xs (dbl_max env) (dbl_max env)"
  let ?v = "schedule_value cfg env now node"
  let ?b = "\<lparr>travelTime = dbl_max env, isFeasible = False, bestItems = []\<rparr>"
  obtain temp where temp: "insert_items (geo env) cur (length (items cur)) (additional_items G) = Inr temp"
    and ts: "items temp = xs"
    using assms(1) by (simp add: insert_items_def)
  have v: "?eval zs = Inr (?v zs)" if "mset zs = mset xs" for zs
    by (rule schedule_value) (use assms(3-5) mset_eq_setD [OF that] mset_eq_length [OF that] in simp_all)
  from search_result [where eval = ?eval and v = ?v and b = ?b and opt = opt and xs = xs, OF strict_total_items [OF assms(2)] v] obtain b' where
    b': "permutation_loop ?eval opt (std_sort item_less xs) ?b = Some (Inr b')"
    "b' = ?b \<and> (\<forall>zs. mset zs = mset xs \<longrightarrow> \<not> (0 \<le> ?v zs \<and> ?v zs < dbl_max env)) \<or>
      found ?v ?b {zs. mset zs = mset xs} b' \<and> (opt \<longrightarrow> (\<forall>zs. mset zs = mset xs \<longrightarrow> 0 \<le> ?v zs \<longrightarrow> travelTime b' \<le> ?v zs))"
    by auto
  from b'(2) show ?thesis
  proof (elim disjE conjE)
    assume "b' = ?b" "\<forall>zs. mset zs = mset xs \<longrightarrow> \<not> (0 \<le> ?v zs \<and> ?v zs < dbl_max env)"
    moreover from this have "computeSchedule cfg env now node cur G newSched opt = Some (Inr (- 1, newSched))"
      by (simp add: computeSchedule_def temp ts b'(1))
    ultimately show ?thesis by blast
  next
    assume f: "found ?v ?b {zs. mset zs = mset xs} b'"
      and o: "opt \<longrightarrow> (\<forall>zs. mset zs = mset xs \<longrightarrow> 0 \<le> ?v zs \<longrightarrow> travelTime b' \<le> ?v zs)"
    then have "computeSchedule cfg env now node cur G newSched opt = Some (Inr (travelTime b', temp\<lparr>items := bestItems b'\<rparr>))"
      by (simp add: computeSchedule_def temp ts b'(1) found_def)
    with f o show ?thesis
      by (intro exI [of _ "travelTime b'"] exI [of _ "temp\<lparr>items := bestItems b'\<rparr>"]) (simp add: found_def)
  qed
qed

lemma computeSchedule_searches_all_witness:
  "\<exists>t s'. computeSchedule line_config line_env \<lparr>frame = 0, ms = 0\<rparr> 1 newSchedule
       [rider ''1'' 1 4, rider ''2'' 3 2] newSchedule True = Some (Inr (t, s')) \<and> t \<noteq> - 1"
proof -
  let ?xs = "additional_items [rider ''1'' 1 4, rider ''2'' 3 2]"
  let ?now = "\<lparr>frame = 0, ms = 0\<rparr>"
  note defs = additional_items_def newTripItem_def rider_def newTripRequest_def
  have 1: "items newSchedule @ ?xs = ?xs" by simp
  have 2: "trip_items (set ?xs)" by (auto simp: trip_items_def defs trip_key_def)
  have 3: "\<forall>x \<in> set ?xs. rider_item x" by (simp add: defs rider_item_def)
  have 4: "length ?xs < 2 ^ 32" by (simp add: additional_items_def)
  have m: "mset crossed_schedule = mset ?xs" by (simp add: crossed_schedule_def additional_items_def)
  have "schedule_value line_config line_env ?now 1 crossed_schedule = 3"
    unfolding schedule_value_def evaluateSchedule_value [OF crossed_riders(1) one_neq_zero crossed_riders(2)]
    by (simp add: crossed_eval)
  with computeSchedule_searches_all [OF 1 2 3 4, of 1 line_config line_env ?now newSchedule True] m show ?thesis
    by auto
qed

text \<open>\<open>canBeShared\<close> holds for all requests, however late or far apart they are (with exact subtraction
  of equal times): it evaluates an empty schedule.\<close>

theorem canBeShared_always:
  assumes "rnd (geo env) 0 = 0"
  shows "canBeShared cfg env now r1 r2 extra wait = Inr True"
  using assms by (simp add: canBeShared_def evaluateSchedule_def Let_def)

lemma canBeShared_always_witness:
  "canBeShared line_config line_env \<lparr>frame = 0, ms = 0\<rparr> (rider ''1'' 1 4) (rider ''2'' 1000000 2000000) 0 0 = Inr True"
  by (rule canBeShared_always) (simp add: line_env_def example_env_def)

end
