(* ===== verification/Sharing_Controllers.thy ===== *)
theory Sharing_Controllers
  imports Schedule_Search "HOL-Library.Sublist"
begin

text \<open>
  The two controllers that insert requests into the schedules of drivers:
  \<open>shared/entities/controllers/IncrementalSharing.cpp\<close> and \<open>AMOD_Controller.cpp\<close>. Both try the
  positions for the pick-up and then for the drop-off in order and take the first pair that
  \<open>evaluateSchedule\<close> accepts; that loop is modelled once, with the evaluation as an argument.
\<close>

section \<open>Inserting a request\<close>

text \<open>The inner loop: positions for the drop-off, \<open>n\<close> the size of the schedule without the request.\<close>

function try_dropoff :: "(schedule_item list \<Rightarrow> (oc_error, real) result) \<Rightarrow> geometry \<Rightarrow> trip_request \<Rightarrow> schedule \<Rightarrow>
   nat \<Rightarrow> nat \<Rightarrow> (oc_error, schedule option) result" where
  "try_dropoff eval g r hyp n dropoffIdx =
     rbind (lift_schedule (insert_item g hyp dropoffIdx (newTripItem DROPOFF r))) (\<lambda>hyp2.
     rbind (eval (items hyp2)) (\<lambda>vehicleTime.
       if vehicleTime > 0 then Inr (Some hyp2)
       else if Suc dropoffIdx \<le> n then try_dropoff eval g r hyp n (Suc dropoffIdx)
       else Inr None))"
  by pat_completeness auto
termination
  by (relation "measure (\<lambda>(eval, g, r, hyp, n, i). n - i)") auto

text \<open>The outer loop: positions for the pick-up.\<close>

function try_pickup :: "(schedule_item list \<Rightarrow> (oc_error, real) result) \<Rightarrow> geometry \<Rightarrow> trip_request \<Rightarrow> schedule \<Rightarrow>
   nat \<Rightarrow> (oc_error, schedule option) result" where
  "try_pickup eval g r sched pickupIdx =
     rbind (lift_schedule (insert_item g sched pickupIdx (newTripItem PICKUP r))) (\<lambda>hyp.
     rbind (eval (items hyp)) (\<lambda>vehicleTime.
     rbind (if vehicleTime > 0 then try_dropoff eval g r hyp (length (items sched)) (Suc pickupIdx) else Inr None) (\<lambda>m.
       case m of
         Some h \<Rightarrow> Inr (Some h)
       | None \<Rightarrow>
           if Suc pickupIdx < length (items sched) then try_pickup eval g r sched (Suc pickupIdx)
           else Inr None)))"
  by pat_completeness auto
termination
  by (relation "measure (\<lambda>(eval, g, r, s, i). length (items s) - i)") auto

declare try_dropoff.simps [simp del] try_pickup.simps [simp del]

text \<open>The loop over the waiting requests: the schedule, the requests that stay, and the number aggregated.\<close>

fun aggregate :: "(schedule_item list \<Rightarrow> (oc_error, real) result) \<Rightarrow> geometry \<Rightarrow> u32 \<Rightarrow> trip_request list \<Rightarrow> schedule \<Rightarrow>
   u32 \<Rightarrow> (oc_error, schedule \<times> trip_request list \<times> u32) result" where
  "aggregate eval g maxAgg [] sched agg = Inr (sched, [], agg)"
| "aggregate eval g maxAgg (r # rs) sched agg =
     (if agg < maxAgg then
        rbind (try_pickup eval g r sched 0) (\<lambda>m.
          case m of
            Some h \<Rightarrow> aggregate eval g maxAgg rs h (agg + 1)
          | None \<Rightarrow> rbind (aggregate eval g maxAgg rs sched agg) (\<lambda>(s1, left, a). Inr (s1, r # left, a)))
      else Inr (sched, r # rs, agg))"

section \<open>The incremental controller\<close>

definition incr_buildSchedule :: "oc_config \<Rightarrow> oc_env \<Rightarrow> oc_state \<Rightarrow> u32 \<Rightarrow> real \<Rightarrow> address \<Rightarrow> schedule \<Rightarrow> u32 \<Rightarrow>
   (oc_error, schedule \<times> trip_request list \<times> u32) result" where
  "incr_buildSchedule cfg env s maxAgg maxWait driverNode sched agg =
     aggregate
       (\<lambda>xs. evaluateSchedule cfg env (currTime s) driverNode xs (real (unat (toleratedExtraTime cfg))) maxWait)
       (geo env) maxAgg (requestQueue s) sched agg"

definition export_driver :: "oc_env \<Rightarrow> address \<Rightarrow> (oc_error, driver_view) result" where
  "export_driver env d = deref NullDereference (exportServiceDriver env d)"

definition wait_limit :: "oc_config \<Rightarrow> real" where
  "wait_limit cfg = real (unat (maxWaitingTime cfg))"

text \<open>The schedule without the parking at its end.\<close>

definition without_parking :: "geometry \<Rightarrow> schedule \<Rightarrow> (oc_error, schedule) result" where
  "without_parking g sched =
     (if items sched \<noteq> [] \<and> scheduleItemType (last (items sched)) = PARK
      then lift_schedule (pop_back g sched) else Inr sched)"

definition match_partial :: "oc_config \<Rightarrow> oc_env \<Rightarrow> oc_state \<times> (address \<times> schedule) list \<Rightarrow> address \<Rightarrow>
   (oc_error, oc_state \<times> (address \<times> schedule) list) result" where
  "match_partial cfg env p d =
     (case p of (s, ps) \<Rightarrow>
        rbind (export_driver env d) (\<lambda>v.
        let s1 = put_schedule s d (schedule_of s d) in
        rbind (without_parking (geo env) (schedule_of s d)) (\<lambda>org.
          if items org = [] then Inr (s1, ps)
          else rbind (incr_buildSchedule cfg env s1 (maxAggregatedRequests cfg - 1) (wait_limit cfg) (currentNode v) org 0)
                 (\<lambda>(sched, left, agg).
                    Inr (s1\<lparr>requestQueue := left\<rparr>,
                         if length (items sched) \<noteq> length (items org) \<and> items sched \<noteq> []
                         then ps @ [(d, sched)] else ps)))))"

definition matchPartiallyAvailableDrivers :: "oc_config \<Rightarrow> oc_env \<Rightarrow> oc_state \<Rightarrow> (oc_error, oc_state) result" where
  "matchPartiallyAvailableDrivers cfg env s =
     rbind (run_list (match_partial cfg env) (s, []) (partiallyAvailableDrivers s))
       (\<lambda>(s1, ps). assignSchedules cfg env s1 ps True)"

definition plan_driver :: "oc_config \<Rightarrow> oc_env \<Rightarrow> oc_state \<times> (address \<times> schedule) list \<Rightarrow> address \<Rightarrow>
   (oc_error, oc_state \<times> (address \<times> schedule) list) result" where
  "plan_driver cfg env p d =
     (case p of (s, ps) \<Rightarrow>
        rbind (export_driver env d) (\<lambda>v.
        rbind (incr_buildSchedule cfg env s (maxAggregatedRequests cfg) (wait_limit cfg) (currentNode v) newSchedule 0)
          (\<lambda>(sched, left, agg).
             Inr (s\<lparr>requestQueue := left\<rparr>, if items sched \<noteq> [] then ps @ [(d, sched)] else ps))))"

definition incremental_computeSchedules :: "oc_config \<Rightarrow> oc_env \<Rightarrow> oc_state \<Rightarrow> (oc_error, oc_state) result" where
  "incremental_computeSchedules cfg env s =
     (if requestQueue s = [] then Inr s
      else rbind (if partiallyAvailableDrivers s \<noteq> [] then matchPartiallyAvailableDrivers cfg env s else Inr s) (\<lambda>s1.
        if availableDrivers s1 = [] then Inr s1
        else rbind (run_list (plan_driver cfg env) (s1, []) (availableDrivers s1)) (\<lambda>(s2, ps).
               assignSchedules cfg env s2 ps False)))"

section \<open>The AMOD controller\<close>

text \<open>Requests of neither type are dropped.\<close>

definition separateSharedAndSingleRequests :: "oc_state \<Rightarrow> oc_state" where
  "separateSharedAndSingleRequests s =
     s\<lparr>singleRideRequests := singleRideRequests s @ filter (\<lambda>r. requestType r = TRIP_REQUEST_SINGLE) (requestQueue s),
       sharedRideRequests := sharedRideRequests s @ filter (\<lambda>r. requestType r = TRIP_REQUEST_SHARED) (requestQueue s),
       requestQueue := []\<rparr>"

definition amod_buildSchedule :: "oc_config \<Rightarrow> oc_env \<Rightarrow> oc_state \<Rightarrow> u32 \<Rightarrow> real \<Rightarrow> address \<Rightarrow> schedule \<Rightarrow> u32 \<Rightarrow>
   (oc_error, schedule \<times> trip_request list \<times> u32) result" where
  "amod_buildSchedule cfg env s maxAgg maxWait d sched agg =
     rbind (export_driver env d) (\<lambda>v.
     rbind (case currentReq s d of
              None \<Rightarrow> Inr (currentNode v, 0)
            | Some x \<Rightarrow> rbind (getTT cfg env (currTime s) (currentNode v) (getNode x)) (\<lambda>t. Inr (getNode x, t)))
       (\<lambda>(driverNode, timeToCompleteCurrentReq).
          aggregate
            (\<lambda>xs. evaluateSchedule cfg env (currTime s) driverNode xs (real (unat (toleratedExtraTime cfg)))
                    (rnd (geo env) (maxWait - timeToCompleteCurrentReq)))
            (geo env) maxAgg (sharedRideRequests s) sched agg))"

fun match_serving :: "oc_config \<Rightarrow> oc_env \<Rightarrow> oc_state \<Rightarrow> (address \<times> schedule) list \<Rightarrow> address list \<Rightarrow>
   (oc_error, oc_state \<times> (address \<times> schedule) list) result" where
  "match_serving cfg env s ps [] = Inr (s, ps)"
| "match_serving cfg env s ps (d # ds) =
     (if sharedRideRequests s = [] then Inr (s, ps)
      else
        let s1 = put_schedule s d (schedule_of s d) in
        rbind (export_driver env d) (\<lambda>v.
        let remainingCapacity = min (maxAggregatedRequests cfg) (passengerCapacity env d) - numAssigned v in
        rbind (without_parking (geo env) (schedule_of s d)) (\<lambda>org.
          if items org = [] then match_serving cfg env s1 ps ds
          else rbind (amod_buildSchedule cfg env s1 remainingCapacity (wait_limit cfg) d org 0) (\<lambda>(sched, left, agg).
                 match_serving cfg env (s1\<lparr>sharedRideRequests := left\<rparr>)
                   (if length (items sched) \<noteq> length (items org) \<and> items sched \<noteq> [] then ps @ [(d, sched)] else ps)
                   ds))))"

definition matchDriversServingSharedReq :: "oc_config \<Rightarrow> oc_env \<Rightarrow> oc_state \<Rightarrow> (oc_error, oc_state) result" where
  "matchDriversServingSharedReq cfg env s =
     rbind (match_serving cfg env s [] (driversServingSharedReq s)) (\<lambda>(s1, ps). assignSchedules cfg env s1 ps True)"

text \<open>The first available driver, by address, who can be there in time and is cruising or parked.\<close>

fun feasible_driver :: "oc_config \<Rightarrow> oc_env \<Rightarrow> oc_state \<Rightarrow> trip_request \<Rightarrow> address list \<Rightarrow> (oc_error, address) result" where
  "feasible_driver cfg env s r [] = Inr 0"
| "feasible_driver cfg env s r (d # ds) =
     rbind (export_driver env d) (\<lambda>v.
     rbind (getTT cfg env (currTime s) (currentNode v) (startNode r)) (\<lambda>tt.
       let g = geo env;
           deadline = rnd g (getSeconds g (timeOfRequest r) + wait_limit cfg);
           arrival = rnd g (getSeconds g (currTime s) + tt)
       in if arrival \<le> deadline \<and> (isCruising env d \<or> isParked env d) then Inr d
          else feasible_driver cfg env s r ds))"

definition single_schedule :: "oc_config \<Rightarrow> oc_env \<Rightarrow> trip_request \<Rightarrow> schedule" where
  "single_schedule cfg env r =
     (let n = destinationNode r;
          park = nearest_parking env (posX (geo env) n) (posY (geo env) n);
          sched = push_back (geo env) (push_back (geo env) newSchedule (newTripItem PICKUP r)) (newTripItem DROPOFF r)
      in if parkingEnabled cfg \<and> park \<noteq> 0 then push_back (geo env) sched (newParkItem PARK park) else sched)"

fun single_loop :: "oc_config \<Rightarrow> oc_env \<Rightarrow> trip_request list \<Rightarrow> oc_state \<Rightarrow>
   (oc_error, trip_request list \<times> oc_state) result" where
  "single_loop cfg env [] s = Inr ([], s)"
| "single_loop cfg env (r # rs) s =
     rbind (feasible_driver cfg env s r (availableDrivers s)) (\<lambda>d.
       if d \<noteq> 0
       then rbind (assignSchedule cfg env s d (single_schedule cfg env r) False) (single_loop cfg env rs)
       else if getSeconds (geo env) (currTime s) >
               rnd (geo env) (getSeconds (geo env) (timeOfRequest r) + wait_limit cfg)
       then single_loop cfg env rs s
       else rbind (single_loop cfg env rs s) (\<lambda>(left, s1). Inr (r # left, s1)))"

definition matchSingleRiderReq :: "oc_config \<Rightarrow> oc_env \<Rightarrow> oc_state \<Rightarrow> (oc_error, oc_state) result" where
  "matchSingleRiderReq cfg env s =
     rbind (single_loop cfg env (singleRideRequests s) s) (\<lambda>(left, s1). Inr (s1\<lparr>singleRideRequests := left\<rparr>))"

definition plan_shared :: "oc_config \<Rightarrow> oc_env \<Rightarrow> oc_state \<times> (address \<times> schedule) list \<Rightarrow> address \<Rightarrow>
   (oc_error, oc_state \<times> (address \<times> schedule) list) result" where
  "plan_shared cfg env p d =
     (case p of (s, ps) \<Rightarrow>
        rbind (amod_buildSchedule cfg env s (min (maxAggregatedRequests cfg) (passengerCapacity env d)) (wait_limit cfg)
                 d newSchedule 0) (\<lambda>(sched, left, agg).
          let s1 = s\<lparr>sharedRideRequests := left\<rparr> in
          Inr (if items sched \<noteq> []
               then (s1\<lparr>driversServingSharedReq := std_insert d (driversServingSharedReq s1)\<rparr>, ps @ [(d, sched)])
               else (s1, ps))))"

definition amod_computeSchedules :: "oc_config \<Rightarrow> oc_env \<Rightarrow> oc_state \<Rightarrow> (oc_error, oc_state) result" where
  "amod_computeSchedules cfg env s =
     (let s1 = separateSharedAndSingleRequests s in
      rbind (if driversServingSharedReq s1 \<noteq> [] then matchDriversServingSharedReq cfg env s1 else Inr s1) (\<lambda>s2.
        if availableDrivers s2 = [] then Inr s2
        else rbind (run_list (plan_shared cfg env) (s2, []) (availableDrivers s2)) (\<lambda>(s3, ps).
             rbind (assignSchedules cfg env s3 ps False) (\<lambda>s4.
               if availableDrivers s4 \<noteq> [] then matchSingleRiderReq cfg env s4 else Inr s4))))"

section \<open>What an insertion does\<close>

lemma insert_item_ok:
  "n \<le> length (items s) \<Longrightarrow> \<exists>s'. insert_item g s n x = Inr s' \<and> items s' = take n (items s) @ x # drop n (items s)"
  by (simp add: insert_item_def)

lemma try_dropoff_Some:
  "try_dropoff eval g r hyp n i = Inr (Some h) \<Longrightarrow>
   \<exists>j. i \<le> j \<and> j \<le> max i n \<and> j \<le> length (items hyp) \<and>
     items h = take j (items hyp) @ newTripItem DROPOFF r # drop j (items hyp) \<and> (\<exists>v > 0. eval (items h) = Inr v)"
proof (induction eval g r hyp n i rule: try_dropoff.induct)
  case (1 eval g r hyp n i)
  from "1.prems" obtain h2 v where h2: "insert_item g hyp i (newTripItem DROPOFF r) = Inr h2"
    and v: "eval (items h2) = Inr v"
    and rest: "(if v > 0 then Inr (Some h2) else if Suc i \<le> n then try_dropoff eval g r hyp n (Suc i) else Inr None) =
      Inr (Some h)"
    unfolding try_dropoff.simps [of eval g r hyp n i] by (auto simp: rbind_Inr)
  show ?case
  proof (cases "v > 0")
    case True
    with rest have "h = h2" by simp
    with insert_item_Inr [OF h2] v True show ?thesis by (intro exI [of _ i]) auto
  next
    case False
    with rest have i: "Suc i \<le> n" and t: "try_dropoff eval g r hyp n (Suc i) = Inr (Some h)" by (auto split: if_splits)
    from "1.IH" [OF False i t] obtain j where "Suc i \<le> j" "j \<le> max (Suc i) n" "j \<le> length (items hyp)"
      "items h = take j (items hyp) @ newTripItem DROPOFF r # drop j (items hyp)" "\<exists>v > 0. eval (items h) = Inr v" by auto
    with i show ?thesis by (intro exI [of _ j]) auto
  qed
qed

text \<open>The request is inserted, and not at the end of a schedule that has items.\<close>

definition placed :: "trip_request \<Rightarrow> schedule_item list \<Rightarrow> schedule_item list \<Rightarrow> bool" where
  "placed r xs ys \<longleftrightarrow>
     (\<exists>us vs ws. xs = us @ vs @ ws \<and> ys = us @ newTripItem PICKUP r # vs @ newTripItem DROPOFF r # ws \<and>
        (xs \<noteq> [] \<longrightarrow> ws \<noteq> []))"

lemma placed_at:
  assumes "i < length xs \<or> xs = []" "i \<le> length xs" "Suc i \<le> j" "j \<le> max (Suc i) (length xs)"
  shows "placed r xs (take j (take i xs @ newTripItem PICKUP r # drop i xs) @ newTripItem DROPOFF r #
     drop j (take i xs @ newTripItem PICKUP r # drop i xs))"
proof -
  obtain k where j: "j = Suc (i + k)" using assms(3) by (metis add_Suc le_Suc_ex)
  have i: "min (length xs) i = i" using assms(2) by simp
  have "xs = take i xs @ take k (drop i xs) @ drop k (drop i xs)" by (simp only: append_take_drop_id)
  moreover have "xs \<noteq> [] \<longrightarrow> drop k (drop i xs) \<noteq> []" using assms(1,4) by (auto simp: j)
  moreover have "take j (take i xs @ newTripItem PICKUP r # drop i xs) @ newTripItem DROPOFF r #
      drop j (take i xs @ newTripItem PICKUP r # drop i xs) =
      take i xs @ newTripItem PICKUP r # take k (drop i xs) @ newTripItem DROPOFF r # drop k (drop i xs)"
    by (simp add: j i)
  ultimately show ?thesis unfolding placed_def by blast
qed

lemma try_pickup_Some:
  assumes "try_pickup eval g r sched i = Inr (Some h)" "i < length (items sched) \<or> items sched = []"
  shows "placed r (items sched) (items h) \<and> (\<exists>v > 0. eval (items h) = Inr v)"
  using assms
proof (induction eval g r sched i rule: try_pickup.induct)
  case (1 eval g r sched i)
  from "1.prems"(1) obtain hyp v m where hyp: "insert_item g sched i (newTripItem PICKUP r) = Inr hyp"
    and v: "eval (items hyp) = Inr v"
    and m: "(if v > 0 then try_dropoff eval g r hyp (length (items sched)) (Suc i) else Inr None) = Inr m"
    and rest: "(case m of Some h \<Rightarrow> Inr (Some h)
       | None \<Rightarrow> if Suc i < length (items sched) then try_pickup eval g r sched (Suc i) else Inr None) = Inr (Some h)"
    unfolding try_pickup.simps [of eval g r sched i] by (auto simp: rbind_Inr)
  show ?case
  proof (cases m)
    case (Some h')
    with rest m have "try_dropoff eval g r hyp (length (items sched)) (Suc i) = Inr (Some h)" by (auto split: if_splits)
    from try_dropoff_Some [OF this] obtain j where j: "Suc i \<le> j" "j \<le> max (Suc i) (length (items sched))"
      "items h = take j (items hyp) @ newTripItem DROPOFF r # drop j (items hyp)" and e: "\<exists>v > 0. eval (items h) = Inr v"
      by blast
    from insert_item_Inr [OF hyp] have i: "i \<le> length (items sched)"
      and xs: "items hyp = take i (items sched) @ newTripItem PICKUP r # drop i (items sched)" by simp_all
    show ?thesis using placed_at [OF "1.prems"(2) i j(1,2), of r] e by (simp only: j(3) xs simp_thms)
  next
    case None
    with rest have i: "Suc i < length (items sched)" and t: "try_pickup eval g r sched (Suc i) = Inr (Some h)"
      by (auto split: if_splits)
    from "1.IH" [OF i t] i show ?thesis by simp
  qed
qed

lemma try_pickup_0: "try_pickup eval g r sched 0 = Inr (Some h) \<Longrightarrow>
   placed r (items sched) (items h) \<and> (\<exists>v > 0. eval (items h) = Inr v)"
  by (rule try_pickup_Some) auto

lemma placed_facts:
  assumes "placed r xs ys"
  shows "mset ys = mset xs + {#newTripItem PICKUP r, newTripItem DROPOFF r#}" "subseq xs ys"
    "subseq [newTripItem PICKUP r, newTripItem DROPOFF r] ys" "xs \<noteq> [] \<longrightarrow> ys \<noteq> [] \<and> last ys = last xs"
proof -
  from assms obtain us vs ws where p: "xs = us @ vs @ ws"
    "ys = us @ newTripItem PICKUP r # vs @ newTripItem DROPOFF r # ws" "xs \<noteq> [] \<longrightarrow> ws \<noteq> []"
    unfolding placed_def by blast
  show "mset ys = mset xs + {#newTripItem PICKUP r, newTripItem DROPOFF r#}" by (simp add: p(1,2))
  show "subseq xs ys" unfolding p(1,2)
    by (intro list_emb_append_mono subseq_order.refl subseq_Cons2 list_emb_Cons)
  have "subseq ([] @ [newTripItem PICKUP r] @ [] @ [newTripItem DROPOFF r] @ [])
      (us @ [newTripItem PICKUP r] @ vs @ [newTripItem DROPOFF r] @ ws)"
    by (intro list_emb_append_mono) simp_all
  then show "subseq [newTripItem PICKUP r, newTripItem DROPOFF r] ys" by (simp add: p(2))
  show "xs \<noteq> [] \<longrightarrow> ys \<noteq> [] \<and> last ys = last xs" using p by auto
qed

text \<open>The requests \<open>acc\<close> have been inserted into \<open>xs\<close>.\<close>

definition riders_added :: "trip_request list \<Rightarrow> schedule_item list \<Rightarrow> schedule_item list \<Rightarrow> bool" where
  "riders_added acc xs ys \<longleftrightarrow>
     mset ys = mset xs + mset (additional_items acc) \<and> subseq xs ys \<and>
     (\<forall>r \<in> set acc. subseq [newTripItem PICKUP r, newTripItem DROPOFF r] ys) \<and>
     (xs \<noteq> [] \<longrightarrow> ys \<noteq> [] \<and> last ys = last xs)"

lemma riders_added_refl: "riders_added [] xs xs"
  by (simp add: riders_added_def additional_items_def)

lemma riders_added_step: "placed r xs ys \<Longrightarrow> riders_added acc ys zs \<Longrightarrow> riders_added (r # acc) xs zs"
  using placed_facts [of r xs ys]
  by (auto simp: riders_added_def additional_items_def intro: subseq_order.order_trans)

lemma aggregate_Inr:
  assumes "aggregate eval g maxAgg rs sched agg = Inr (sched', left, agg')" "agg \<le> maxAgg"
  shows "\<exists>acc. rs \<in> shuffles left acc \<and> riders_added acc (items sched) (items sched') \<and>
     unat agg' = unat agg + length acc \<and> agg' \<le> maxAgg \<and> (acc \<noteq> [] \<longrightarrow> (\<exists>v > 0. eval (items sched') = Inr v)) \<and>
     (acc = [] \<longrightarrow> sched' = sched)"
  using assms
proof (induction eval g maxAgg rs sched agg arbitrary: sched' left agg' rule: aggregate.induct)
  case (1 eval g maxAgg sched agg)
  then show ?case by (intro exI [of _ "[]"]) (simp add: riders_added_refl)
next
  case (2 eval g maxAgg r rs sched agg)
  show ?case
  proof (cases "agg < maxAgg")
    case False
    with "2.prems" show ?thesis by (intro exI [of _ "[]"]) (simp add: riders_added_refl)
  next
    case True
    with "2.prems" obtain m where m: "try_pickup eval g r sched 0 = Inr m"
      and rest: "(case m of Some h \<Rightarrow> aggregate eval g maxAgg rs h (agg + 1)
        | None \<Rightarrow> rbind (aggregate eval g maxAgg rs sched agg) (\<lambda>(s1, left, a). Inr (s1, r # left, a))) =
        Inr (sched', left, agg')"
      by (auto simp: rbind_Inr)
    show ?thesis
    proof (cases m)
      case None
      with rest obtain l where l: "aggregate eval g maxAgg rs sched agg = Inr (sched', l, agg')" "left = r # l"
        by (auto simp: rbind_Inr)
      from "2.IH"(1) [OF True l(1) "2.prems"(2)] obtain acc where
        "rs \<in> shuffles l acc" "riders_added acc (items sched) (items sched')" "unat agg' = unat agg + length acc"
        "agg' \<le> maxAgg" "acc \<noteq> [] \<longrightarrow> (\<exists>v > 0. eval (items sched') = Inr v)" "acc = [] \<longrightarrow> sched' = sched" by blast
      then show ?thesis unfolding l(2) by (intro exI [of _ acc]) (simp add: Cons_in_shuffles_leftI)
    next
      case (Some h)
      with rest have a: "aggregate eval g maxAgg rs h (agg + 1) = Inr (sched', left, agg')" by simp
      have p: "placed r (items sched) (items h)" "\<exists>v > 0. eval (items h) = Inr v"
        using try_pickup_0 m Some by blast+
      have agg1: "unat (agg + 1) = Suc (unat agg)"
        by (rule unat_Suc_below [OF True])
      then have "agg + 1 \<le> maxAgg" using True by (simp add: word_less_nat_alt word_le_nat_alt)
      from "2.IH"(2) [OF True a this] obtain acc where
        acc: "rs \<in> shuffles left acc" "riders_added acc (items h) (items sched')" "unat agg' = unat (agg + 1) + length acc"
        "agg' \<le> maxAgg" "acc \<noteq> [] \<longrightarrow> (\<exists>v > 0. eval (items sched') = Inr v)" "acc = [] \<longrightarrow> sched' = h" by blast
      moreover have "\<exists>v > 0. eval (items sched') = Inr v" using acc(5,6) p(2) by blast
      moreover have "r # rs \<in> shuffles left (r # acc)" by (rule Cons_in_shuffles_rightI [OF acc(1)])
      ultimately show ?thesis
        using riders_added_step [OF p(1) acc(2)] agg1 by (intro exI [of _ "r # acc"]) simp
    qed
  qed
qed

section \<open>The loops always return\<close>

definition placed_request :: "trip_request \<Rightarrow> bool" where
  "placed_request r \<longleftrightarrow> startNode r \<noteq> 0 \<and> destinationNode r \<noteq> 0"

definition judges_riders :: "(schedule_item list \<Rightarrow> (oc_error, real) result) \<Rightarrow> bool" where
  "judges_riders eval \<longleftrightarrow> (\<forall>xs. (\<forall>x \<in> set xs. rider_item x) \<and> length xs < 2 ^ 32 \<longrightarrow> (\<exists>v. eval xs = Inr v))"

lemma judges_evaluate: "node \<noteq> 0 \<Longrightarrow> judges_riders (\<lambda>xs. evaluateSchedule cfg env now node xs extra wait)"
  by (simp add: judges_riders_def evaluateSchedule_value Let_def)

lemma rider_items_new:
  "placed_request r \<Longrightarrow> rider_item (newTripItem PICKUP r)" "placed_request r \<Longrightarrow> rider_item (newTripItem DROPOFF r)"
  by (simp_all add: placed_request_def rider_item_def newTripItem_def)

lemma insert_rider:
  assumes "judges_riders eval" "\<forall>x \<in> set (items s). rider_item x" "rider_item x" "n \<le> length (items s)"
    "Suc (length (items s)) < 2 ^ 32"
  shows "\<exists>s' v. insert_item g s n x = Inr s' \<and> eval (items s') = Inr v \<and> (\<forall>y \<in> set (items s'). rider_item y) \<and>
     length (items s') = Suc (length (items s))"
proof -
  obtain s' where s': "insert_item g s n x = Inr s'" "items s' = take n (items s) @ x # drop n (items s)"
    using insert_item_ok [OF assms(4)] by blast
  have "set (items s') = insert x (set (items s))"
    unfolding s'(2) by (metis append_take_drop_id list.simps(15) set_append Un_insert_right)
  then have r: "\<forall>y \<in> set (items s'). rider_item y" using assms(2,3) by simp
  have l: "length (items s') = Suc (length (items s))" using assms(4) by (simp add: s'(2))
  with r assms(1,5) have "\<exists>v. eval (items s') = Inr v" by (simp add: judges_riders_def)
  with s'(1) r l show ?thesis by blast
qed

lemma try_dropoff_total:
  assumes "judges_riders eval" "\<forall>x \<in> set (items hyp). rider_item x" "placed_request r"
    "Suc (length (items hyp)) < 2 ^ 32"
  shows "i \<le> length (items hyp) \<Longrightarrow> n \<le> length (items hyp) \<Longrightarrow> \<exists>m. try_dropoff eval g r hyp n i = Inr m"
  using assms
proof (induction eval g r hyp n i rule: try_dropoff.induct)
  case (1 eval g r hyp n i)
  obtain h v where h: "insert_item g hyp i (newTripItem DROPOFF r) = Inr h" "eval (items h) = Inr v"
    using insert_rider [OF "1.prems"(3,4) rider_items_new(2) [OF "1.prems"(5)] "1.prems"(1,6)] by blast
  have "\<exists>m. try_dropoff eval g r hyp n (Suc i) = Inr m" if "\<not> v > 0" "Suc i \<le> n"
    using "1.IH" [OF that] "1.prems" that by simp
  then show ?case by (simp add: try_dropoff.simps [of eval g r hyp n i] h)
qed

lemma try_pickup_total:
  assumes "judges_riders eval" "\<forall>x \<in> set (items sched). rider_item x" "placed_request r"
    "Suc (Suc (length (items sched))) < 2 ^ 32"
  shows "i \<le> length (items sched) \<Longrightarrow> \<exists>m. try_pickup eval g r sched i = Inr m"
  using assms
proof (induction eval g r sched i rule: try_pickup.induct)
  case (1 eval g r sched i)
  obtain h v where h: "insert_item g sched i (newTripItem PICKUP r) = Inr h" "eval (items h) = Inr v"
    "\<forall>y \<in> set (items h). rider_item y" "length (items h) = Suc (length (items sched))"
    using insert_rider [OF "1.prems"(2,3) rider_items_new(1) [OF "1.prems"(4)] "1.prems"(1)] "1.prems"(5)
    by (meson Suc_lessD)
  have "\<exists>m. try_dropoff eval g r h (length (items sched)) (Suc i) = Inr m"
    by (rule try_dropoff_total) (use "1.prems" h in simp_all)
  moreover have "\<exists>m. try_pickup eval g r sched (Suc i) = Inr m" if "Suc i < length (items sched)"
    using "1.IH" [OF that] "1.prems" that by simp
  ultimately show ?case
    by (auto simp: try_pickup.simps [of eval g r sched i] h(1,2) rbind_def split: option.split)
qed

lemma aggregate_total:
  assumes "judges_riders eval" "\<forall>x \<in> set (items sched). rider_item x" "\<forall>r \<in> set rs. placed_request r"
    "length (items sched) + 2 * length rs < 2 ^ 32"
  shows "\<exists>res. aggregate eval g maxAgg rs sched agg = Inr res"
  using assms
proof (induction eval g maxAgg rs sched agg rule: aggregate.induct)
  case (1 eval g maxAgg sched agg)
  then show ?case by simp
next
  case (2 eval g maxAgg r rs sched agg)
  have "\<exists>m. try_pickup eval g r sched 0 = Inr m" by (rule try_pickup_total) (use "2.prems" in simp_all)
  then obtain m where m: "try_pickup eval g r sched 0 = Inr m" ..
  show ?case
  proof (cases m)
    case None
    have "\<exists>res. aggregate eval g maxAgg rs sched agg = Inr res" if "agg < maxAgg"
      using "2.IH"(1) [OF that] "2.prems" by simp
    with m None show ?thesis by (auto simp: rbind_def)
  next
    case (Some h)
    note p = placed_facts(1) [OF try_pickup_0 [OF m [unfolded Some], THEN conjunct1]]
    have "set (items h) = insert (newTripItem PICKUP r) (insert (newTripItem DROPOFF r) (set (items sched)))"
      using arg_cong [OF p, of set_mset] by auto
    then have "\<forall>x \<in> set (items h). rider_item x" using "2.prems"(2,3) rider_items_new by simp
    moreover have "length (items h) = Suc (Suc (length (items sched)))"
      using arg_cong [OF p, of size] by simp
    ultimately have "\<exists>res. aggregate eval g maxAgg rs h (agg + 1) = Inr res" if "agg < maxAgg"
      using "2.IH"(2) [OF that] "2.prems" by simp
    with m Some show ?thesis by simp
  qed
qed

text \<open>The requests that were built into a schedule.\<close>

definition built :: "(schedule_item list \<Rightarrow> (oc_error, real) result) \<Rightarrow> trip_request list \<Rightarrow> u32 \<Rightarrow> schedule \<Rightarrow>
   schedule \<Rightarrow> trip_request list \<Rightarrow> u32 \<Rightarrow> bool" where
  "built eval rs maxAgg sched sched' left agg \<longleftrightarrow>
     (\<exists>acc. rs \<in> shuffles left acc \<and> riders_added acc (items sched) (items sched') \<and> unat agg = length acc \<and>
        agg \<le> maxAgg \<and> (acc \<noteq> [] \<longrightarrow> (\<exists>v > 0. eval (items sched') = Inr v)))"

lemma aggregate_built:
  assumes "judges_riders eval" "\<forall>x \<in> set (items sched). rider_item x" "\<forall>r \<in> set rs. placed_request r"
    "length (items sched) + 2 * length rs < 2 ^ 32"
  shows "\<exists>sched' left agg. aggregate eval g maxAgg rs sched 0 = Inr (sched', left, agg) \<and>
     built eval rs maxAgg sched sched' left agg"
proof -
  obtain sched' left agg where a: "aggregate eval g maxAgg rs sched 0 = Inr (sched', left, agg)"
    using aggregate_total [OF assms] by (metis prod.exhaust)
  from aggregate_Inr [OF this] have "built eval rs maxAgg sched sched' left agg"
    unfolding built_def by (metis add_0 unat_0 word_coorder.extremum)
  with a show ?thesis by blast
qed

text \<open>C18: \<open>buildSchedule\<close> of the incremental controller always returns: every request stays in the queue, in
  order, or is built in, at most \<open>maxAggregatedRequests\<close> of them; the old items stay in order, each rider is
  picked up before the drop-off, the result was judged feasible, and the last stop of a schedule that has stops
  does not change (a comment says the drop-off may go to the end).\<close>

theorem incr_buildSchedule_built:
  assumes "node \<noteq> 0" "\<forall>x \<in> set (items sched). rider_item x" "\<forall>r \<in> set (requestQueue s). placed_request r"
    "length (items sched) + 2 * length (requestQueue s) < 2 ^ 32"
  shows "\<exists>sched' left agg. incr_buildSchedule cfg env s maxAgg maxWait node sched 0 = Inr (sched', left, agg) \<and>
     built (\<lambda>xs. evaluateSchedule cfg env (currTime s) node xs (real (unat (toleratedExtraTime cfg))) maxWait)
       (requestQueue s) maxAgg sched sched' left agg"
  unfolding incr_buildSchedule_def by (rule aggregate_built [OF judges_evaluate [OF assms(1)] assms(2-4)])

text \<open>C21: The same for the AMOD controller; it starts at the stop the driver is heading for, and the time to get
  there is taken off the waiting time.\<close>

theorem amod_buildSchedule_built:
  assumes "exportServiceDriver env d = Some v" "currentNode v \<noteq> 0"
    "case currentReq s d of None \<Rightarrow> node = currentNode v \<and> t = 0
     | Some x \<Rightarrow> node = getNode x \<and> getTT cfg env (currTime s) (currentNode v) node = Inr t"
    "node \<noteq> 0" "\<forall>x \<in> set (items sched). rider_item x" "\<forall>r \<in> set (sharedRideRequests s). placed_request r"
    "length (items sched) + 2 * length (sharedRideRequests s) < 2 ^ 32"
  shows "\<exists>sched' left agg. amod_buildSchedule cfg env s maxAgg maxWait d sched 0 = Inr (sched', left, agg) \<and>
     built (\<lambda>xs. evaluateSchedule cfg env (currTime s) node xs (real (unat (toleratedExtraTime cfg)))
              (rnd (geo env) (maxWait - t)))
       (sharedRideRequests s) maxAgg sched sched' left agg"
proof -
  have "amod_buildSchedule cfg env s maxAgg maxWait d sched 0 =
      aggregate (\<lambda>xs. evaluateSchedule cfg env (currTime s) node xs (real (unat (toleratedExtraTime cfg)))
         (rnd (geo env) (maxWait - t))) (geo env) maxAgg (sharedRideRequests s) sched 0"
    using assms(1,3) by (cases "currentReq s d") (auto simp: amod_buildSchedule_def export_driver_def)
  with aggregate_built [OF judges_evaluate [OF assms(4)] assms(5-7)] show ?thesis by simp
qed

lemma incr_buildSchedule_built_witness:
  "\<exists>sched' left agg.
     incr_buildSchedule line_config line_env (newController\<lparr>requestQueue := [rider ''1'' 2 4, rider ''2'' 5 7]\<rparr>) 2 600 1
       newSchedule 0 = Inr (sched', left, agg) \<and> unat agg \<le> 2"
proof -
  let ?s = "newController\<lparr>requestQueue := [rider ''1'' 2 4, rider ''2'' 5 7]\<rparr>"
  have "\<forall>r \<in> set (requestQueue ?s). placed_request r" by (simp add: placed_request_def rider_def newTripRequest_def)
  from incr_buildSchedule_built [OF one_neq_zero _ this, of newSchedule line_config line_env 2 600]
  obtain sched' left agg where
    "incr_buildSchedule line_config line_env ?s 2 600 1 newSchedule 0 = Inr (sched', left, agg)"
    "agg \<le> 2" by (auto simp: built_def)
  then show ?thesis by (auto simp: word_le_nat_alt)
qed

lemma amod_buildSchedule_built_witness:
  "\<exists>sched' left agg.
     amod_buildSchedule line_config line_env (newController\<lparr>sharedRideRequests := [rider ''1'' 2 4, rider ''2'' 5 7]\<rparr>) 2 600
       1 newSchedule 0 = Inr (sched', left, agg) \<and> unat agg \<le> 2"
proof -
  let ?s = "newController\<lparr>sharedRideRequests := [rider ''1'' 2 4, rider ''2'' 5 7]\<rparr>"
  let ?v = "\<lparr>driverStatus = CRUISING, currentNode = 5, numAssigned = 0\<rparr>"
  have v: "exportServiceDriver line_env 1 = Some ?v" by (simp add: line_env_def example_env_def)
  have c: "case currentReq ?s 1 of None \<Rightarrow> (5 :: address) = currentNode ?v \<and> (0 :: real) = 0
      | Some x \<Rightarrow> 5 = getNode x \<and> getTT line_config line_env (currTime ?s) (currentNode ?v) 5 = Inr 0"
    by (simp add: newController_def)
  have r: "\<forall>r \<in> set (sharedRideRequests ?s). placed_request r" by (simp add: placed_request_def rider_def newTripRequest_def)
  from amod_buildSchedule_built [OF v _ c _ _ r, of newSchedule 2 600]
  obtain sched' left agg where
    "amod_buildSchedule line_config line_env ?s 2 600 1 newSchedule 0 = Inr (sched', left, agg)"
    "agg \<le> 2" by (auto simp: built_def)
  then show ?thesis by (auto simp: word_le_nat_alt)
qed

text \<open>A driver who waits at the node of a rider: the tentative schedule takes no time, and only positive times
  count as feasible.\<close>

lemma no_time_no_place:
  assumes "startNode r = node" "node \<noteq> 0" "rnd (geo env) 0 = 0" "\<And>x. rnd (geo env) (rnd (geo env) x) = rnd (geo env) x"
  shows "try_pickup (\<lambda>xs. evaluateSchedule cfg env now node xs extra wait) (geo env) r newSchedule 0 = Inr None"
proof -
  let ?eval = "\<lambda>xs. evaluateSchedule cfg env now node xs extra wait"
  obtain h where h: "insert_item (geo env) newSchedule 0 (newTripItem PICKUP r) = Inr h" "items h = [newTripItem PICKUP r]"
    using insert_item_ok [of 0 newSchedule "geo env" "newTripItem PICKUP r"] by auto
  have "?eval [newTripItem PICKUP r] \<in> {Inr 0, Inr (- 1)}"
    using assms by (auto simp: evaluateSchedule_def Let_def newTripItem_def getTT_def getSeconds_def)
  then show ?thesis
    using h by (auto simp: try_pickup.simps [of ?eval "geo env" r newSchedule 0])
qed

text \<open>The incremental controller gives an idle driver no request that starts where the driver is (and a
  comment expects the first request to be taken): a schedule that takes no time is not feasible.\<close>

theorem rider_at_driver_not_served:
  assumes "\<forall>r \<in> set (requestQueue s). startNode r = node" "node \<noteq> 0" "rnd (geo env) 0 = 0"
    "\<forall>x. rnd (geo env) (rnd (geo env) x) = rnd (geo env) x"
  shows "incr_buildSchedule cfg env s maxAgg maxWait node newSchedule 0 = Inr (newSchedule, requestQueue s, 0)"
proof -
  have "aggregate (\<lambda>xs. evaluateSchedule cfg env (currTime s) node xs extra maxWait) (geo env) maxAgg rs newSchedule 0 =
      Inr (newSchedule, rs, 0)" if "\<forall>r \<in> set rs. startNode r = node" for rs extra
    using that by (induction rs) (simp_all add: no_time_no_place [OF _ assms(2,3)] assms(4))
  with assms(1) show ?thesis by (simp add: incr_buildSchedule_def)
qed

lemma rider_at_driver_not_served_witness:
  "incr_buildSchedule line_config line_env (newController\<lparr>requestQueue := [rider ''1'' 5 7]\<rparr>) 4 600 5 newSchedule 0 =
     Inr (newSchedule, [rider ''1'' 5 7], 0)"
  using rider_at_driver_not_served [of "newController\<lparr>requestQueue := [rider ''1'' 5 7]\<rparr>" 5 line_env line_config 4 600]
  by (simp add: rider_def)

section \<open>Both keep the state consistent\<close>

lemma put_own_schedule:
  "driverSchedules s d \<noteq> None \<Longrightarrow> put_schedule s d (schedule_of s d) = s"
  by (auto simp: put_schedule_def schedule_of_def fun_upd_idem)

lemma ok_queue: "controller_ok (s\<lparr>requestQueue := q\<rparr>) \<longleftrightarrow> controller_ok s"
  "controller_ok (s\<lparr>sharedRideRequests := q\<rparr>) \<longleftrightarrow> controller_ok s"
  "controller_ok (s\<lparr>singleRideRequests := q\<rparr>) \<longleftrightarrow> controller_ok s"
  by (rule controller_ok_cong; simp)+

text \<open>Updates are computed for a set of drivers, from a consistent state.\<close>

definition plans_for :: "address set \<Rightarrow> oc_state \<Rightarrow> oc_state \<times> (address \<times> schedule) list \<Rightarrow> bool" where
  "plans_for D s p \<longleftrightarrow> controller_ok (fst p) \<and> subscribedDrivers (fst p) = subscribedDrivers s \<and>
     availableDrivers (fst p) = availableDrivers s \<and> (\<forall>e \<in> set (snd p). fst e \<in> D)"

lemma plans_for_image: "plans_for D s (t, ps) \<Longrightarrow> fst ` set ps \<subseteq> D"
  by (auto simp: plans_for_def)

lemma match_partial_plans:
  assumes "plans_for D s p" "d \<in> D" "D \<subseteq> set (subscribedDrivers s)" "match_partial cfg env p d = Inr q"
  shows "plans_for D s q"
proof -
  obtain t ps where p: "p = (t, ps)" by (cases p)
  have "driverSchedules t d \<noteq> None"
    using assms(1-3) controller_okD(2) [of t] by (auto simp: plans_for_def p)
  with assms show ?thesis
    by (auto simp: match_partial_def p put_own_schedule rbind_Inr Let_def plans_for_def ok_queue split: if_splits)
qed

lemma plan_driver_plans:
  assumes "plans_for D s p" "d \<in> D" "plan_driver cfg env p d = Inr q"
  shows "plans_for D s q"
  using assms by (cases p) (auto simp: plan_driver_def rbind_Inr plans_for_def ok_queue split: if_splits)

lemma matchPartially_ok:
  assumes ok: "controller_ok s" and o: "orders_entries env" and r: "matchPartiallyAvailableDrivers cfg env s = Inr t"
  shows "controller_ok t"
proof -
  let ?D = "set (partiallyAvailableDrivers s)"
  from r obtain s1 ps where l: "run_list (match_partial cfg env) (s, []) (partiallyAvailableDrivers s) = Inr (s1, ps)"
    and a: "assignSchedules cfg env s1 ps True = Inr t"
    by (auto simp: matchPartiallyAvailableDrivers_def rbind_Inr)
  note D = controller_okD(7) [OF ok]
  have "plans_for ?D s (s1, ps)"
    by (rule run_list_invariant [where P = "plans_for ?D s" and f = "match_partial cfg env", OF _ _ l])
      (use D ok in \<open>auto simp: plans_for_def [of _ _ "(s, [])"] intro: match_partial_plans\<close>)
  with ok_assignSchedules_update [OF a _ o] D plans_for_image [of ?D s s1 ps] show ?thesis
    by (auto simp: plans_for_def)
qed

interpretation incremental: schedule_computation incremental_computeSchedules
proof
  fix env s cfg t
  assume o: "orders_entries env" and ok: "controller_ok s" and r: "incremental_computeSchedules cfg env s = Inr t"
  show "controller_ok t"
  proof (cases "requestQueue s = []")
    case True
    with r ok show ?thesis by (simp add: incremental_computeSchedules_def)
  next
    case False
    with r obtain s1 where
      s1: "(if partiallyAvailableDrivers s \<noteq> [] then matchPartiallyAvailableDrivers cfg env s else Inr s) = Inr s1"
      and t: "(if availableDrivers s1 = [] then Inr s1
        else rbind (run_list (plan_driver cfg env) (s1, []) (availableDrivers s1)) (\<lambda>(s2, ps).
               assignSchedules cfg env s2 ps False)) = Inr t"
      by (auto simp: incremental_computeSchedules_def rbind_Inr)
    have ok1: "controller_ok s1" using s1 ok matchPartially_ok [OF ok o] by (auto split: if_splits)
    show ?thesis
    proof (cases "availableDrivers s1 = []")
      case True
      with t ok1 show ?thesis by simp
    next
      case False
      let ?D = "set (availableDrivers s1)"
      from t False obtain s2 ps where l: "run_list (plan_driver cfg env) (s1, []) (availableDrivers s1) = Inr (s2, ps)"
        and a: "assignSchedules cfg env s2 ps False = Inr t"
        by (auto simp: rbind_Inr)
      have "plans_for ?D s1 (s2, ps)"
        by (rule run_list_invariant [where P = "plans_for ?D s1" and f = "plan_driver cfg env", OF _ _ l])
          (use ok1 in \<open>auto simp: plans_for_def [of _ _ "(s1, [])"] intro: plan_driver_plans\<close>)
      with ok_assignSchedules_new [OF a _ o] available_subscribed [OF ok1] plans_for_image [of ?D s1 s2 ps] show ?thesis
        by (auto simp: plans_for_def)
    qed
  qed
qed

lemma match_serving_plans:
  assumes "plans_for D s (t, ps)" "set ds \<subseteq> D" "D \<subseteq> set (subscribedDrivers s)"
    "match_serving cfg env t ps ds = Inr q"
  shows "plans_for D s q"
  using assms
proof (induction ds arbitrary: t ps)
  case Nil
  then show ?case by simp
next
  case (Cons d ds)
  have "driverSchedules t d \<noteq> None"
    using Cons.prems controller_okD(2) [of t] by (auto simp: plans_for_def)
  note own = put_own_schedule [OF this]
  show ?case
  proof (cases "sharedRideRequests t = []")
    case True
    with Cons.prems show ?thesis by simp
  next
    case False
    with Cons.prems(4) obtain v org where v: "export_driver env d = Inr v"
      and org: "without_parking (geo env) (schedule_of t d) = Inr org"
      and rest: "(if items org = [] then match_serving cfg env t ps ds
        else rbind (amod_buildSchedule cfg env t (min (maxAggregatedRequests cfg) (passengerCapacity env d) - numAssigned v)
               (wait_limit cfg) d org 0) (\<lambda>(sched, left, agg).
               match_serving cfg env (t\<lparr>sharedRideRequests := left\<rparr>)
                 (if length (items sched) \<noteq> length (items org) \<and> items sched \<noteq> [] then ps @ [(d, sched)] else ps) ds)) = Inr q"
      by (auto simp: own rbind_Inr Let_def)
    show ?thesis
    proof (cases "items org = []")
      case True
      with rest have "match_serving cfg env t ps ds = Inr q" by simp
      with Cons.IH Cons.prems(1-3) show ?thesis by simp
    next
      case nonempty: False
      with rest obtain sched left agg where
        "match_serving cfg env (t\<lparr>sharedRideRequests := left\<rparr>)
           (if length (items sched) \<noteq> length (items org) \<and> items sched \<noteq> [] then ps @ [(d, sched)] else ps) ds = Inr q"
        by (auto simp: rbind_Inr)
      moreover have "plans_for D s (t\<lparr>sharedRideRequests := left\<rparr>,
          if length (items sched) \<noteq> length (items org) \<and> items sched \<noteq> [] then ps @ [(d, sched)] else ps)"
        using Cons.prems by (auto simp: plans_for_def ok_queue)
      ultimately show ?thesis using Cons.IH Cons.prems(2,3) by simp
    qed
  qed
qed

lemma matchServing_ok:
  assumes ok: "controller_ok s" and o: "orders_entries env" and r: "matchDriversServingSharedReq cfg env s = Inr t"
  shows "controller_ok t"
proof -
  let ?D = "set (driversServingSharedReq s)"
  from r obtain s1 ps where l: "match_serving cfg env s [] (driversServingSharedReq s) = Inr (s1, ps)"
    and a: "assignSchedules cfg env s1 ps True = Inr t"
    by (auto simp: matchDriversServingSharedReq_def rbind_Inr)
  note D = controller_okD(7) [OF ok]
  have "plans_for ?D s (s1, ps)"
    by (rule match_serving_plans [OF _ _ _ l]) (use D ok in \<open>auto simp: plans_for_def\<close>)
  with ok_assignSchedules_update [OF a _ o] D plans_for_image [of ?D s s1 ps] show ?thesis
    by (auto simp: plans_for_def)
qed

lemma feasible_driver_in: "feasible_driver cfg env s r ds = Inr d \<Longrightarrow> d \<noteq> 0 \<Longrightarrow> d \<in> set ds"
  by (induction ds) (auto simp: rbind_Inr Let_def split: if_splits)

lemma single_loop_ok: "controller_ok s \<Longrightarrow> single_loop cfg env rs s = Inr (left, t) \<Longrightarrow> controller_ok t"
proof (induction rs arbitrary: s left)
  case Nil
  then show ?case by simp
next
  case (Cons r rs)
  from Cons.prems(2) obtain d where d: "feasible_driver cfg env s r (availableDrivers s) = Inr d"
    and rest: "(if d \<noteq> 0
       then rbind (assignSchedule cfg env s d (single_schedule cfg env r) False) (single_loop cfg env rs)
       else if getSeconds (geo env) (currTime s) >
               rnd (geo env) (getSeconds (geo env) (timeOfRequest r) + wait_limit cfg)
       then single_loop cfg env rs s
       else rbind (single_loop cfg env rs s) (\<lambda>(left, s1). Inr (r # left, s1))) = Inr (left, t)"
    by (auto simp: rbind_Inr)
  show ?case
  proof (cases "d = 0")
    case True
    with rest obtain l where "single_loop cfg env rs s = Inr (l, t)" by (auto simp: rbind_Inr split: if_splits)
    with Cons.IH Cons.prems(1) show ?thesis by blast
  next
    case False
    with rest obtain s1 where s1: "assignSchedule cfg env s d (single_schedule cfg env r) False = Inr s1"
      and t: "single_loop cfg env rs s1 = Inr (left, t)" by (auto simp: rbind_Inr)
    have "d \<in> set (subscribedDrivers s)"
      using feasible_driver_in [OF d False] available_subscribed [OF Cons.prems(1)] by blast
    from Cons.IH [OF ok_assign_new [OF Cons.prems(1) this s1] t] show ?thesis .
  qed
qed

lemma matchSingle_ok: "controller_ok s \<Longrightarrow> matchSingleRiderReq cfg env s = Inr t \<Longrightarrow> controller_ok t"
  by (auto simp: matchSingleRiderReq_def rbind_Inr ok_queue dest: single_loop_ok)

text \<open>While schedules are planned, the drivers who get one join those who serve shared requests.\<close>

definition sharing_plan :: "oc_state \<Rightarrow> oc_state \<times> (address \<times> schedule) list \<Rightarrow> bool" where
  "sharing_plan s p \<longleftrightarrow> core_ok (fst p) \<and> subscribedDrivers (fst p) = subscribedDrivers s \<and>
     availableDrivers (fst p) = availableDrivers s \<and> (\<forall>e \<in> set (snd p). fst e \<in> set (availableDrivers s)) \<and>
     std_set (driversServingSharedReq (fst p)) \<and>
     (\<forall>d \<in> set (driversServingSharedReq (fst p)). d \<in> set (driversServingSharedReq s) \<or> d \<in> fst ` set (snd p))"

lemma core_ok_cong: "core_ok (s\<lparr>sharedRideRequests := q\<rparr>) \<longleftrightarrow> core_ok s"
  "core_ok (s\<lparr>driversServingSharedReq := D\<rparr>) \<longleftrightarrow> core_ok s"
  unfolding core_ok_def by (rule controller_ok_cong; simp)+

lemma plan_shared_step:
  assumes "sharing_plan s p" "d \<in> set (availableDrivers s)" "plan_shared cfg env p d = Inr q"
  shows "sharing_plan s q"
proof -
  obtain t ps where p: "p = (t, ps)" by (cases p)
  from assms(3) obtain sched left agg where
    q: "q = (let t1 = t\<lparr>sharedRideRequests := left\<rparr> in
       if items sched \<noteq> [] then (t1\<lparr>driversServingSharedReq := std_insert d (driversServingSharedReq t1)\<rparr>, ps @ [(d, sched)])
       else (t1, ps))"
    by (auto simp: plan_shared_def p rbind_Inr Let_def)
  show ?thesis
    using assms(1,2) by (auto simp: q p sharing_plan_def core_ok_cong Let_def)
qed

interpretation amod: schedule_computation amod_computeSchedules
proof
  fix env s cfg t
  assume o: "orders_entries env" and ok: "controller_ok s" and r: "amod_computeSchedules cfg env s = Inr t"
  have ok1: "controller_ok (separateSharedAndSingleRequests s)"
    unfolding separateSharedAndSingleRequests_def using ok by (subst controller_ok_cong [where s = s]) simp_all
  from r obtain s2 where
    s2: "(if driversServingSharedReq (separateSharedAndSingleRequests s) \<noteq> []
       then matchDriversServingSharedReq cfg env (separateSharedAndSingleRequests s)
       else Inr (separateSharedAndSingleRequests s)) = Inr s2"
    and t: "(if availableDrivers s2 = [] then Inr s2
       else rbind (run_list (plan_shared cfg env) (s2, []) (availableDrivers s2)) (\<lambda>(s3, ps).
             rbind (assignSchedules cfg env s3 ps False) (\<lambda>s4.
               if availableDrivers s4 \<noteq> [] then matchSingleRiderReq cfg env s4 else Inr s4))) = Inr t"
    unfolding amod_computeSchedules_def Let_def rbind_Inr by blast
  have ok2: "controller_ok s2" using s2 ok1 matchServing_ok [OF ok1 o] by (auto split: if_splits)
  show "controller_ok t"
  proof (cases "availableDrivers s2 = []")
    case True
    with t ok2 show ?thesis by simp
  next
    case False
    with t obtain s3 ps s4 where l: "run_list (plan_shared cfg env) (s2, []) (availableDrivers s2) = Inr (s3, ps)"
      and a: "assignSchedules cfg env s3 ps False = Inr s4"
      and t4: "(if availableDrivers s4 \<noteq> [] then matchSingleRiderReq cfg env s4 else Inr s4) = Inr t"
      by (auto simp: rbind_Inr)
    have plan: "sharing_plan s2 (s3, ps)"
      by (rule run_list_invariant [where P = "sharing_plan s2" and f = "plan_shared cfg env", OF _ _ l])
        (use ok2 in \<open>auto simp: sharing_plan_def [of _ "(s2, [])"] controller_ok_core intro: plan_shared_step\<close>)
    have sub: "fst ` set ps \<subseteq> set (availableDrivers s2)" using plan by (auto simp: sharing_plan_def)
    note f = core_ok_assignSchedules_new [OF a _ o]
    have "core_ok s4 \<and> subscribedDrivers s4 = subscribedDrivers s2 \<and> driversServingSharedReq s4 = driversServingSharedReq s3 \<and>
        set (availableDrivers s4) = set (availableDrivers s2) - fst ` set ps"
      using f plan sub available_subscribed [OF ok2] by (auto simp: sharing_plan_def)
    moreover have "std_set (driversServingSharedReq s3)" using plan by (simp add: sharing_plan_def)
    moreover have "set (driversServingSharedReq s3) \<subseteq> set (subscribedDrivers s2) - (set (availableDrivers s2) - fst ` set ps)"
    proof
      fix x assume "x \<in> set (driversServingSharedReq s3)"
      then have "x \<in> set (driversServingSharedReq s2) \<or> x \<in> fst ` set ps" using plan by (simp add: sharing_plan_def)
      then show "x \<in> set (subscribedDrivers s2) - (set (availableDrivers s2) - fst ` set ps)"
        using controller_okD(7) [OF ok2] sub available_subscribed [OF ok2] by blast
    qed
    ultimately have "controller_ok s4" unfolding controller_ok_core by simp
    with t4 show ?thesis by (auto split: if_splits dest: matchSingle_ok)
  qed
qed

text \<open>C2: In every run of a greedy, incremental or AMOD controller in which drivers subscribe once, become available
  only while subscribed and synchronise only while busy, the checks of the debug build hold except for what the
  drivers' status and repeated requests of one user can break.\<close>

theorem runs_stay_consistent:
  assumes "compute \<in> {greedy_computeSchedules, incremental_computeSchedules, amod_computeSchedules}"
    "oc_run compute cfg s"
  shows "consistencyChecks env s \<longleftrightarrow>
     (\<forall>d \<in> set (availableDrivers s). has_status env [CRUISING, PARKED, DRIVE_TO_PARKING, DRIVE_START] d) \<and>
     distinct (map userId (requestQueue s))"
  using assms greedy.run_consistent incremental.run_consistent amod.run_consistent by blast

lemma runs_stay_consistent_witness:
  "consistencyChecks example_env (subscribeDriver newController 1)"
proof -
  have "oc_step amod_computeSchedules example_config example_env newController (Receive (MSG_DRIVER_SUBSCRIBE 1)) =
      Inr (subscribeDriver newController 1)"
    by (simp add: oc_step_def HandleMessage_def base_HandleMessage_def example_env_def)
  moreover have "expected newController (MSG_DRIVER_SUBSCRIBE 1)" by (simp add: newController_def)
  ultimately have "oc_run amod_computeSchedules example_config (subscribeDriver newController 1)"
    using oc_receive [OF oc_start] by blast
  from runs_stay_consistent [OF _ this, of example_env] show ?thesis
    by (simp add: subscribeDriver_def base_subscribeDriver_def newController_def Let_def has_status_def example_env_def)
qed

text \<open>When a driver declines a proposition, the request goes back to the queue without its type and its person;
  the next computation of the AMOD controller discards it.\<close>

theorem declined_request_is_lost:
  assumes "HandleMessage env s (MSG_SCHEDULE_PROPOSITION_REPLY a) = Inr t" "\<not> r_success a"
  shows "\<exists>r. requestQueue t = requestQueue s @ [r] \<and> userId r = r_personId a \<and> person r = 0 \<and>
     requestType r = TRIP_REQUEST_DEFAULT \<and>
     separateSharedAndSingleRequests t = separateSharedAndSingleRequests (t\<lparr>requestQueue := requestQueue s\<rparr>)"
  using assms
  by (auto simp: HandleMessage_def Let_def driverAvailable_def put_schedule_def newTripRequest_def
      separateSharedAndSingleRequests_def)

lemma declined_request_is_lost_witness:
  "\<exists>t. HandleMessage example_env newController
       (MSG_SCHEDULE_PROPOSITION_REPLY
         \<lparr>r_currTick = \<lparr>frame = 0, ms = 0\<rparr>, r_success = False, r_personId = ''9'', r_driver = 1, r_startNode = 1,
          r_destinationNode = 4, r_threshold = 0\<rparr>) = Inr t \<and>
     sharedRideRequests (separateSharedAndSingleRequests t) = [] \<and> requestQueue (separateSharedAndSingleRequests t) = []"
proof -
  let ?a = "\<lparr>r_currTick = \<lparr>frame = 0, ms = 0\<rparr>, r_success = False, r_personId = ''9'', r_driver = 1, r_startNode = 1,
     r_destinationNode = 4, r_threshold = 0\<rparr>"
  obtain t where t: "HandleMessage example_env newController (MSG_SCHEDULE_PROPOSITION_REPLY ?a) = Inr t"
    and s: "sharedRideRequests t = []"
    by (simp add: HandleMessage_def Let_def driverAvailable_def newController_def)
  have "\<not> r_success ?a" "requestQueue newController = []" by (simp_all add: newController_def)
  with declined_request_is_lost [OF t] have "separateSharedAndSingleRequests t =
      separateSharedAndSingleRequests (t\<lparr>requestQueue := []\<rparr>)" by metis
  then have "sharedRideRequests (separateSharedAndSingleRequests t) =
      sharedRideRequests (separateSharedAndSingleRequests (t\<lparr>requestQueue := []\<rparr>))" by (rule arg_cong)
  also have "\<dots> = []" using s by (simp add: separateSharedAndSingleRequests_def)
  finally show ?thesis using t by (simp add: separateSharedAndSingleRequests_def)
qed

text \<open>With no new request the AMOD controller leaves those that wait alone, whoever is available.\<close>

lemma waiting_requests_not_retried:
  assumes "requestQueue s = []" "frame_tick (amod_computeSchedules cfg env) cfg s now = Inr t"
  shows "singleRideRequests t = singleRideRequests s \<and> sharedRideRequests t = sharedRideRequests s \<and> outbox t = outbox s"
  using assms by (auto simp: frame_tick_def Let_def rebalance_def split: if_splits)

end
