(* ===== verification/Signal_Plans.thy ===== *)
theory Signal_Plans
  imports SM_Prelude Complex_Main
begin

text \<open>
  The parts of an adaptive traffic signal: \<open>short/entities/signal/Color.cpp\<close>, \<open>Phase.cpp\<close>,
  \<open>Offset.cpp\<close>, \<open>Cycle.cpp\<close> and \<open>SplitPlan.cpp\<close> with their headers. A \<open>double\<close> is a real number and
  every operation rounds with the function \<open>r\<close>; infinities and NaN are not modelled. An \<open>int\<close> is an
  integer: durations are seconds within a cycle. Warnings are not modelled.
\<close>

section \<open>Colours and their sequence\<close>

datatype traffic_color = TRAFFIC_COLOUR_INVALID | TRAFFIC_COLOUR_RED | TRAFFIC_COLOUR_AMBER | TRAFFIC_COLOUR_GREEN

datatype light_type = TRAFFIC_LIGHT_TYPE_INVALID | TRAFFIC_LIGHT_TYPE_DRIVER | TRAFFIC_LIGHT_TYPE_PEDESTRIAN

fun color_value :: "traffic_color \<Rightarrow> int" where
  "color_value TRAFFIC_COLOUR_INVALID = - 1"
| "color_value TRAFFIC_COLOUR_RED = 1"
| "color_value TRAFFIC_COLOUR_AMBER = 2"
| "color_value TRAFFIC_COLOUR_GREEN = 3"

record color_sequence =
  colourDurations :: "(traffic_color \<times> int) list"
  light_type :: light_type

definition newColorSequence :: color_sequence where
  "newColorSequence = \<lparr>colourDurations = [], light_type = TRAFFIC_LIGHT_TYPE_DRIVER\<rparr>"

definition addColorDuration :: "color_sequence \<Rightarrow> traffic_color \<Rightarrow> int \<Rightarrow> color_sequence" where
  "addColorDuration s c n = s\<lparr>colourDurations := colourDurations s @ [(c, n)]\<rparr>"

definition clearColorDurations :: "color_sequence \<Rightarrow> color_sequence" where
  "clearColorDurations s = s\<lparr>colourDurations := []\<rparr>"

fun change_first :: "traffic_color \<Rightarrow> int \<Rightarrow> (traffic_color \<times> int) list \<Rightarrow> (traffic_color \<times> int) list" where
  "change_first c n [] = []"
| "change_first c n ((d, m) # xs) = (if d = c then (d, n) # xs else (d, m) # change_first c n xs)"

definition changeColorDuration :: "color_sequence \<Rightarrow> traffic_color \<Rightarrow> int \<Rightarrow> color_sequence" where
  "changeColorDuration s c n = s\<lparr>colourDurations := change_first c n (colourDurations s)\<rparr>"

text \<open>Conversion of a \<open>double\<close> to an integer truncates towards zero.\<close>

definition to_int :: "real \<Rightarrow> int" where
  "to_int x = (if x \<ge> 0 then \<lfloor>x\<rfloor> else \<lceil>x\<rceil>)"

fun color_loop :: "int \<Rightarrow> int \<Rightarrow> (traffic_color \<times> int) list \<Rightarrow> traffic_color" where
  "color_loop d acc [] = TRAFFIC_COLOUR_RED"
| "color_loop d acc ((c, n) # xs) = (if d \<le> acc + n then c else color_loop d (acc + n) xs)"

definition computeColor :: "color_sequence \<Rightarrow> real \<Rightarrow> traffic_color" where
  "computeColor s duration = color_loop (to_int duration) 0 (colourDurations s)"

section \<open>Phases\<close>

record link_light =
  toLink :: u32
  colorSequence :: color_sequence
  currColor :: traffic_color

definition newToLink :: "u32 \<Rightarrow> link_light" where
  "newToLink l =
     \<lparr>toLink = l,
      colorSequence =
        addColorDuration (addColorDuration (addColorDuration newColorSequence TRAFFIC_COLOUR_GREEN 0)
          TRAFFIC_COLOUR_AMBER 3) TRAFFIC_COLOUR_RED 1,
      currColor = TRAFFIC_COLOUR_RED\<rparr>"

text \<open>The multimap from the incoming link, in the order of its keys, equal keys in the order of insertion.\<close>

record phase =
  phaseName :: string
  phaseOffset :: real
  percentage :: real
  phaseLength :: real
  linksMap :: "(u32 \<times> link_light) list"

definition newPhase :: "string \<Rightarrow> phase" where
  "newPhase name = \<lparr>phaseName = name, phaseOffset = 0, percentage = 0, phaseLength = 0, linksMap = []\<rparr>"

definition addLinkMapping :: "phase \<Rightarrow> u32 \<Rightarrow> link_light \<Rightarrow> phase" where
  "addLinkMapping p from l =
     p\<lparr>linksMap := takeWhile (\<lambda>(k, _). k \<le> from) (linksMap p) @ (from, l) # dropWhile (\<lambda>(k, _). k \<le> from) (linksMap p)\<rparr>"

definition getLinkTos :: "phase \<Rightarrow> u32 \<Rightarrow> link_light list" where
  "getLinkTos p from = map snd (filter (\<lambda>(k, _). k = from) (linksMap p))"

datatype signal_error =
    EmptyChoiceSet | PhaseMismatch | PhaseOutOfRange | ColourOutOfRange | UnknownLane | NoPhase | UnknownLink

text \<open>The loop stops with the error at the first link whose colour is out of range.\<close>

definition light_at :: "real \<Rightarrow> link_light \<Rightarrow> (signal_error, link_light) result" where
  "light_at lapse l =
     (let c = computeColor (colorSequence l) lapse
      in if color_value c > color_value TRAFFIC_COLOUR_GREEN \<or> color_value c < color_value TRAFFIC_COLOUR_RED
         then Inl ColourOutOfRange else Inr (l\<lparr>currColor := c\<rparr>))"

fun lights_at :: "real \<Rightarrow> (u32 \<times> link_light) list \<Rightarrow> (signal_error, (u32 \<times> link_light) list) result" where
  "lights_at lapse [] = Inr []"
| "lights_at lapse ((k, l) # xs) =
     rbind (light_at lapse l) (\<lambda>l1. rbind (lights_at lapse xs) (\<lambda>ys. Inr ((k, l1) # ys)))"

definition update_phase :: "(real \<Rightarrow> real) \<Rightarrow> real \<Rightarrow> phase \<Rightarrow> (signal_error, phase) result" where
  "update_phase r currentCycleTimer p =
     (let lapse = r (currentCycleTimer - phaseOffset p)
      in if lapse < 0 then Inr p
         else rbind (lights_at lapse (linksMap p)) (\<lambda>ls. Inr (p\<lparr>linksMap := ls\<rparr>)))"

definition green_of :: "link_light \<Rightarrow> real" where
  "green_of l = foldl (\<lambda>g (c, n). if c \<noteq> TRAFFIC_COLOUR_RED then g + of_int n else g) 0
     (colourDurations (colorSequence l))"

definition computeTotalGreenTime :: "phase \<Rightarrow> real" where
  "computeTotalGreenTime p =
     foldl (\<lambda>m (k, l). if m < green_of l then green_of l else m) 0 (linksMap p) * 1000"

definition other_than_green :: "(traffic_color \<times> int) list \<Rightarrow> int" where
  "other_than_green ds = foldl (\<lambda>s (c, n). if c \<noteq> TRAFFIC_COLOUR_GREEN then s + n else s) 0 ds"

definition green_light :: "(real \<Rightarrow> real) \<Rightarrow> real \<Rightarrow> link_light \<Rightarrow> link_light" where
  "green_light r len l =
     (let s = colorSequence l; ds = colourDurations s
      in if \<exists>d \<in> set ds. fst d = TRAFFIC_COLOUR_GREEN
         then l\<lparr>colorSequence := changeColorDuration s TRAFFIC_COLOUR_GREEN
                  (to_int (r (len - of_int (other_than_green ds))))\<rparr>
         else l)"

definition calculateGreen :: "(real \<Rightarrow> real) \<Rightarrow> phase \<Rightarrow> phase" where
  "calculateGreen r p = p\<lparr>linksMap := map (\<lambda>(k, l). (k, green_light r (phaseLength p) l)) (linksMap p)\<rparr>"

definition initialize_phase :: "(real \<Rightarrow> real) \<Rightarrow> real \<Rightarrow> phase \<Rightarrow> phase" where
  "initialize_phase r cycleLen p =
     calculateGreen r (p\<lparr>phaseLength := r (r (cycleLen * percentage p) / 100)\<rparr>)"

section \<open>Offsets and cycles\<close>

abbreviation (input) "DSmax \<equiv> (9 / 10 :: real)"
abbreviation (input) "DSmed \<equiv> (1 / 2 :: real)"
abbreviation (input) "DSmin \<equiv> (3 / 10 :: real)"
abbreviation (input) "CLmax \<equiv> (300 :: real)"
abbreviation (input) "CLmed \<equiv> (180 :: real)"
abbreviation (input) "CLmin \<equiv> (90 :: real)"
abbreviation (input) "CL_low \<equiv> (70 :: real)"
abbreviation (input) "CL_up \<equiv> (120 :: real)"
abbreviation (input) "Off_low \<equiv> (5 :: real)"
abbreviation (input) "Off_up \<equiv> (26 :: real)"

record offset =
  currOffset :: real
  nextOffset :: real

definition newOffset :: offset where
  "newOffset = \<lparr>currOffset = 0, nextOffset = 0\<rparr>"

definition calcNextOffset :: "(real \<Rightarrow> real) \<Rightarrow> real \<Rightarrow> offset \<Rightarrow> offset" where
  "calcNextOffset r nextCL s =
     (if nextCL \<le> CL_low then s\<lparr>nextOffset := Off_low\<rparr>
      else if nextCL > CL_low \<and> nextCL \<le> CL_up
      then s\<lparr>nextOffset := r (Off_low + r (r (r (nextCL - CL_low) * r (Off_up - Off_low)) / r (CL_up - CL_low)))\<rparr>
      else s\<lparr>nextOffset := Off_up\<rparr>)"

definition updateCurrOffset :: "offset \<Rightarrow> offset" where
  "updateCurrOffset s = s\<lparr>currOffset := nextOffset s\<rparr>"

definition update_offset :: "(real \<Rightarrow> real) \<Rightarrow> real \<Rightarrow> offset \<Rightarrow> offset" where
  "update_offset r nextCL s = updateCurrOffset (calcNextOffset r nextCL s)"

record cycle =
  previousCycleLength :: real
  currentCycleLength :: real
  nextCycleLength :: real
  previousRealLength1 :: real
  previousRealLength2 :: real

definition newCycle :: cycle where
  "newCycle = \<lparr>previousCycleLength = 0, currentCycleLength = 0, nextCycleLength = 0, previousRealLength1 = 0,
     previousRealLength2 = 0\<rparr>"

definition setCurrentCycleLen :: "real \<Rightarrow> cycle \<Rightarrow> cycle" where
  "setCurrentCycleLen len c = c\<lparr>currentCycleLength := len\<rparr>"

definition target_length :: "(real \<Rightarrow> real) \<Rightarrow> real \<Rightarrow> real" where
  "target_length r maxDS =
     (if maxDS \<le> r DSmed
      then r (CLmin + r (r (r (maxDS - r DSmin) * r (CLmed - CLmin)) / r (r DSmed - r DSmin)))
      else r (CLmed + r (r (r (maxDS - r DSmed) * r (CLmax - CLmed)) / r (r DSmax - r DSmed))))"

definition damped :: "(real \<Rightarrow> real) \<Rightarrow> real \<Rightarrow> real" where
  "damped r diff =
     (if diff \<le> 4 then diff
      else if diff > 4 \<and> diff \<le> 8 then r (r (r (1 / 2) * diff) + 2)
      else r (r (r (1 / 4) * diff) + 4))"

text \<open>\<open>cur\<close> is the current length, \<open>RL\<close> the smoothed target; the sign is 1 or -1.\<close>

definition limited_change :: "(real \<Rightarrow> real) \<Rightarrow> real \<Rightarrow> real \<Rightarrow> real \<Rightarrow> real" where
  "limited_change r cur RL bound =
     (if \<bar>r (RL - cur)\<bar> \<le> bound then RL else r (cur + (if RL \<ge> cur then 1 else - 1) * bound))"

text \<open>The damped target \<open>RL1\<close> and the smoothed one \<open>RL\<close>.\<close>

definition smoothed_target :: "(real \<Rightarrow> real) \<Rightarrow> real \<Rightarrow> cycle \<Rightarrow> real \<times> real" where
  "smoothed_target r maxDS c =
     (let cur = currentCycleLength c;
          RL0 = target_length r maxDS;
          up = (r (RL0 - cur) \<ge> 0);
          diff_CL0 = damped r (if up then r (RL0 - cur) else r (cur - RL0));
          RL1 = r (cur + (if up then 1 else - 1) * diff_CL0)
      in (RL1, r (r (r (r (45 / 100) * RL1) + r (r (33 / 100) * previousRealLength1 c))
                 + r (r (22 / 100) * previousRealLength2 c))))"

definition next_length :: "(real \<Rightarrow> real) \<Rightarrow> real \<Rightarrow> real \<Rightarrow> real \<Rightarrow> real" where
  "next_length r cur prev RL =
     (let next1 = limited_change r cur RL 6;
          next2 = (if r (next1 - cur) \<ge> 6 \<and> r (cur - prev) \<ge> 6 \<or> r (next1 - cur) \<le> - 6 \<and> r (cur - prev) \<le> - 6
                   then limited_change r cur RL 9 else next1)
      in if next2 > CLmax then CLmax else if next2 < CLmin then CLmin else next2)"

definition calcNextCycleLen :: "(real \<Rightarrow> real) \<Rightarrow> real \<Rightarrow> cycle \<Rightarrow> cycle" where
  "calcNextCycleLen r maxDS c =
     (case smoothed_target r maxDS c of (RL1, RL) \<Rightarrow>
        c\<lparr>nextCycleLength := next_length r (currentCycleLength c) (previousCycleLength c) RL,
          previousRealLength2 := previousRealLength1 c, previousRealLength1 := RL1\<rparr>)"

definition update_cycle :: "(real \<Rightarrow> real) \<Rightarrow> real \<Rightarrow> cycle \<Rightarrow> cycle" where
  "update_cycle r maxDS c =
     (let c1 = calcNextCycleLen r maxDS c; c2 = c1\<lparr>previousCycleLength := currentCycleLength c1\<rparr>
      in c2\<lparr>currentCycleLength := nextCycleLength c2\<rparr>)"

section \<open>Split plans\<close>

record split_plan =
  cycleLength :: real
  planOffset :: real
  numOfPlans :: nat
  currSplitPlanIdx :: nat
  nextSplitPlanIdx :: nat
  cycle :: cycle
  choiceSet :: "real list list"
  votes :: "int list list"

definition newSplitPlan :: split_plan where
  "newSplitPlan =
     \<lparr>cycleLength = CLmed, planOffset = 0, numOfPlans = 0, currSplitPlanIdx = 0, nextSplitPlanIdx = 0,
      cycle = setCurrentCycleLen CLmed newCycle, choiceSet = [], votes = []\<rparr>"

definition getCurrSplitPlan :: "split_plan \<Rightarrow> (signal_error, real list) result" where
  "getCurrSplitPlan s = (if choiceSet s = [] then Inl EmptyChoiceSet else Inr (choiceSet s ! currSplitPlanIdx s))"

fun min_index :: "real list \<Rightarrow> nat \<Rightarrow> nat list \<Rightarrow> nat" where
  "min_index xs m [] = m"
| "min_index xs m (i # is) = min_index xs (if xs ! i < xs ! m then i else m) is"

definition findIndexOfMinDS :: "real list \<Rightarrow> nat" where
  "findIndexOfMinDS xs = min_index xs 0 [1..<length xs]"

definition vote_sum :: "int list list \<Rightarrow> nat \<Rightarrow> int" where
  "vote_sum vs p = foldl (\<lambda>s row. s + row ! p) 0 vs"

text \<open>Index and votes of the best plan so far.\<close>

definition getMaxVotedSplitPlan :: "nat \<Rightarrow> int list list \<Rightarrow> int" where
  "getMaxVotedSplitPlan n vs =
     fst (foldl (\<lambda>(best, most) p. if most < vote_sum vs p then (int p, vote_sum vs p) else (best, most)) (- 1, - 1) [0..<n])"

definition NUMBER_OF_VOTING_CYCLES :: nat where
  "NUMBER_OF_VOTING_CYCLES = 5"

definition vote :: "split_plan \<Rightarrow> real list \<Rightarrow> split_plan \<times> nat" where
  "vote s maxprojectedDS =
     (let row = (replicate (numOfPlans s) 0)[findIndexOfMinDS maxprojectedDS := 1];
          vs = votes s @ [row];
          vs1 = (if length vs > NUMBER_OF_VOTING_CYCLES then tl vs else vs);
          s1 = s\<lparr>votes := vs1\<rparr>
      in (s1, nat (getMaxVotedSplitPlan (numOfPlans s1) vs1)))"

definition projectedDS :: "(real \<Rightarrow> real) \<Rightarrow> split_plan \<Rightarrow> real list \<Rightarrow> nat \<Rightarrow> nat \<Rightarrow> real" where
  "projectedDS r s DS i j = r (r (DS ! j * (choiceSet s ! currSplitPlanIdx s) ! j) / (choiceSet s ! i) ! j)"

definition calcMaxProjectedDS :: "(real \<Rightarrow> real) \<Rightarrow> split_plan \<Rightarrow> nat \<Rightarrow> real list \<Rightarrow> real list" where
  "calcMaxProjectedDS r s numOfPhases DS =
     map (\<lambda>i. foldl (\<lambda>m j. if m < projectedDS r s DS i j then projectedDS r s DS i j else m) 0 [0..<numOfPhases])
       [0..<numOfPlans s]"

definition findNextPlanIndex :: "(real \<Rightarrow> real) \<Rightarrow> split_plan \<Rightarrow> nat \<Rightarrow> real list \<Rightarrow> split_plan" where
  "findNextPlanIndex r s numOfPhases DS =
     (case vote s (calcMaxProjectedDS r s numOfPhases DS) of (s1, p) \<Rightarrow> s1\<lparr>nextSplitPlanIdx := p\<rparr>)"

definition getMaxDS :: "real list \<Rightarrow> real" where
  "getMaxDS ds = foldl (\<lambda>m d. if d > m then d else m) (hd ds) ds"

definition update_plan :: "(real \<Rightarrow> real) \<Rightarrow> nat \<Rightarrow> real list \<Rightarrow> split_plan \<Rightarrow> split_plan" where
  "update_plan r numOfPhases phaseDensity s =
     (let c = update_cycle r (getMaxDS phaseDensity) (cycle s);
          s1 = s\<lparr>cycle := c, cycleLength := currentCycleLength c\<rparr>;
          s2 = findNextPlanIndex r s1 numOfPhases phaseDensity
      in s2\<lparr>currSplitPlanIdx := nextSplitPlanIdx s2\<rparr>)"

fun default_choices :: "nat \<Rightarrow> real list list" where
  "default_choices n =
     (if n = 1 then [[100], [100], [100], [100], [100]]
      else if n = 2 then [[50, 50], [30, 70], [75, 25], [60, 40], [40, 60]]
      else if n = 3 then [[33, 33, 34], [40, 20, 40], [25, 50, 25], [25, 25, 50], [50, 25, 25]]
      else if n = 4 then [[25, 25, 25, 25], [20, 35, 20, 25], [35, 35, 20, 10], [35, 30, 10, 25], [20, 35, 25, 20]]
      else if n = 5 then [[20, 20, 20, 20, 20], [15, 15, 25, 25, 20], [30, 30, 20, 10, 10], [25, 25, 20, 15, 15],
        [10, 15, 20, 25, 30]]
      else if n = 6 then [[16, 16, 17, 17, 17, 17], [10, 15, 30, 20, 15, 10], [30, 20, 15, 15, 10, 10],
        [20, 30, 20, 10, 10, 10], [15, 15, 20, 20, 15, 15]]
      else [[14, 14, 14, 14, 14, 15, 15], [30, 15, 15, 10, 10, 10, 10], [15, 30, 10, 15, 10, 10, 10],
        [15, 20, 20, 15, 10, 10, 10], [10, 10, 10, 20, 20, 15, 15]])"

text \<open>The rows have the number of approaches; what the table does not fill stays 0.\<close>

definition fill :: "real list list \<Rightarrow> nat \<Rightarrow> nat \<Rightarrow> real list list \<Rightarrow> real list list" where
  "fill table approaches plans set0 =
     map (\<lambda>i. map (\<lambda>j. if j < approaches then (table ! i) ! j else (set0 ! i) ! j) [0..<length (set0 ! i)]) [0..<plans]"

definition setDefaultSplitPlan :: "nat \<Rightarrow> split_plan \<Rightarrow> split_plan" where
  "setDefaultSplitPlan approaches s =
     s\<lparr>numOfPlans := 5,
       choiceSet := fill (default_choices approaches) (if approaches \<in> {1..7} then approaches else 7) 5
         (take 5 (choiceSet s) @ replicate (5 - length (choiceSet s)) (replicate approaches 0)),
       currSplitPlanIdx := 0\<rparr>"

section \<open>The length of the cycle\<close>

lemma update_cycle_length:
  "currentCycleLength (update_cycle r m c) =
     next_length r (currentCycleLength c) (previousCycleLength c) (snd (smoothed_target r m c))"
  by (simp add: update_cycle_def calcNextCycleLen_def Let_def split: prod.split)

lemma next_length_range: "CLmin \<le> next_length r cur prev RL" "next_length r cur prev RL \<le> CLmax"
  by (simp_all add: next_length_def Let_def)

lemma limited_change_exact:
  assumes "0 \<le> b"
  shows "\<bar>limited_change (\<lambda>x. x) cur RL b - cur\<bar> \<le> b"
  using assms by (auto simp: limited_change_def)

lemma next_length_exact:
  assumes "CLmin \<le> cur" "cur \<le> CLmax"
  shows "\<bar>next_length (\<lambda>x. x) cur prev RL - cur\<bar> \<le> 9"
    "next_length (\<lambda>x. x) cur prev RL - cur > 6 \<Longrightarrow> cur - prev \<ge> 6"
    "cur - next_length (\<lambda>x. x) cur prev RL > 6 \<Longrightarrow> prev - cur \<ge> 6"
proof -
  let ?n1 = "limited_change (\<lambda>x. x) cur RL 6" and ?n9 = "limited_change (\<lambda>x. x) cur RL 9"
  define n2 where "n2 = (if ?n1 - cur \<ge> 6 \<and> cur - prev \<ge> 6 \<or> ?n1 - cur \<le> - 6 \<and> cur - prev \<le> - 6 then ?n9 else ?n1)"
  have n1: "\<bar>?n1 - cur\<bar> \<le> 6" "\<bar>?n9 - cur\<bar> \<le> 9" by (rule limited_change_exact; simp)+
  have sgn: "?n9 \<ge> cur" if "?n1 - cur \<ge> 6" using that by (auto simp: limited_change_def split: if_splits)
  have sgn': "?n9 \<le> cur" if "?n1 - cur \<le> - 6" using that by (auto simp: limited_change_def split: if_splits)
  have n2: "\<bar>n2 - cur\<bar> \<le> 9" "n2 - cur > 6 \<Longrightarrow> cur - prev \<ge> 6" "cur - n2 > 6 \<Longrightarrow> prev - cur \<ge> 6"
    using n1 sgn sgn' unfolding n2_def by (auto split: if_splits)
  have nl: "next_length (\<lambda>x. x) cur prev RL = (if n2 > CLmax then CLmax else if n2 < CLmin then CLmin else n2)"
    by (simp add: next_length_def Let_def n2_def)
  show "\<bar>next_length (\<lambda>x. x) cur prev RL - cur\<bar> \<le> 9"
    "next_length (\<lambda>x. x) cur prev RL - cur > 6 \<Longrightarrow> cur - prev \<ge> 6"
    "cur - next_length (\<lambda>x. x) cur prev RL > 6 \<Longrightarrow> prev - cur \<ge> 6"
    using n2 assms unfolding nl by (auto split: if_splits)
qed

text \<open>C29: Whatever the saturation and the rounding, the cycle stays between 90 and 300 seconds; in exact arithmetic it
  changes by at most 9 seconds, and by more than 6 only after a change of at least 6 in the same direction.\<close>

theorem cycle_length_bounds:
  assumes "CLmin \<le> currentCycleLength c" "currentCycleLength c \<le> CLmax"
  shows "CLmin \<le> currentCycleLength (update_cycle r m c) \<and> currentCycleLength (update_cycle r m c) \<le> CLmax \<and>
     \<bar>currentCycleLength (update_cycle (\<lambda>x. x) m c) - currentCycleLength c\<bar> \<le> 9 \<and>
     (currentCycleLength (update_cycle (\<lambda>x. x) m c) - currentCycleLength c > 6 \<longrightarrow>
        currentCycleLength c - previousCycleLength c \<ge> 6) \<and>
     (currentCycleLength c - currentCycleLength (update_cycle (\<lambda>x. x) m c) > 6 \<longrightarrow>
        previousCycleLength c - currentCycleLength c \<ge> 6)"
  using next_length_range next_length_exact [OF assms] by (simp add: update_cycle_length)

lemma cycle_length_bounds_witness:
  "currentCycleLength (update_cycle (\<lambda>x. x) 0 (cycle newSplitPlan)) \<ge> 171"
  using cycle_length_bounds [of "cycle newSplitPlan" "\<lambda>x. x" 0]
  by (simp add: newSplitPlan_def setCurrentCycleLen_def newCycle_def)

section \<open>The colours within a phase\<close>

lemma green_light_new:
  assumes "len \<ge> 4"
  shows "colourDurations (colorSequence (green_light (\<lambda>x. x) len (newToLink l))) =
     [(TRAFFIC_COLOUR_GREEN, \<lfloor>len\<rfloor> - 4), (TRAFFIC_COLOUR_AMBER, 3), (TRAFFIC_COLOUR_RED, 1)]"
  using assms
  by (simp add: green_light_def newToLink_def addColorDuration_def newColorSequence_def Let_def other_than_green_def
      changeColorDuration_def to_int_def)

text \<open>The colours over the time of a phase.\<close>

lemma color_loop_phase:
  assumes "4 \<le> len" "0 \<le> t"
  shows "color_loop (to_int t) 0 [(TRAFFIC_COLOUR_GREEN, to_int (len - 4)), (TRAFFIC_COLOUR_AMBER, 3), (TRAFFIC_COLOUR_RED, 1)] =
     (if t < of_int \<lfloor>len\<rfloor> - 3 then TRAFFIC_COLOUR_GREEN
      else if t < of_int \<lfloor>len\<rfloor> then TRAFFIC_COLOUR_AMBER else TRAFFIC_COLOUR_RED)"
proof -
  have "\<lfloor>t\<rfloor> \<le> \<lfloor>len\<rfloor> - 4 \<longleftrightarrow> t < of_int \<lfloor>len\<rfloor> - 3" "\<lfloor>t\<rfloor> \<le> \<lfloor>len\<rfloor> - 1 \<longleftrightarrow> t < of_int \<lfloor>len\<rfloor>"
    by linarith+
  then show ?thesis using assms by (simp add: to_int_def)
qed

text \<open>In a phase of \<open>len\<close> seconds (exact arithmetic) a light is green until the whole seconds of the phase but
  three, amber for three seconds, and red only for the fraction of a second that is left: the second of red for
  all that the durations list is not shown.\<close>

theorem phase_colours:
  assumes "4 \<le> len" "0 \<le> t"
  shows "computeColor (colorSequence (green_light (\<lambda>x. x) len (newToLink l))) t =
     (if t < of_int \<lfloor>len\<rfloor> - 3 then TRAFFIC_COLOUR_GREEN
      else if t < of_int \<lfloor>len\<rfloor> then TRAFFIC_COLOUR_AMBER else TRAFFIC_COLOUR_RED)"
proof -
  have "to_int (len - 4) = \<lfloor>len\<rfloor> - 4" using assms(1) by (simp add: to_int_def)
  then show ?thesis
    unfolding computeColor_def green_light_new [OF assms(1)] color_loop_phase [OF assms, symmetric] by simp
qed

lemma phase_colours_witness:
  "computeColor (colorSequence (green_light (\<lambda>x. x) 45 (newToLink 7))) (44 + 9 / 10) = TRAFFIC_COLOUR_AMBER"
  by (subst phase_colours) simp_all

section \<open>The vote\<close>

lemma min_index_upt:
  "k > 0 \<Longrightarrow> min_index xs 0 [1..<k] < k \<and> (\<forall>q < k. xs ! min_index xs 0 [1..<k] \<le> xs ! q) \<and>
     (\<forall>q < min_index xs 0 [1..<k]. xs ! min_index xs 0 [1..<k] < xs ! q)"
proof (induction k)
  case 0
  then show ?case by simp
next
  case (Suc k)
  have app: "min_index xs m (is @ [i]) = (if xs ! i < xs ! min_index xs m is then i else min_index xs m is)" for m "is" i
    by (induction "is" arbitrary: m) simp_all
  show ?case
  proof (cases "k = 0")
    case True
    then show ?thesis by simp
  next
    case False
    then have "[1..<Suc k] = [1..<k] @ [k]" by simp
    with app have m: "min_index xs 0 [1..<Suc k] = (if xs ! k < xs ! min_index xs 0 [1..<k] then k else min_index xs 0 [1..<k])"
      by metis
    show ?thesis unfolding m using Suc.IH False by (auto simp: less_Suc_eq)
  qed
qed

lemma findIndexOfMinDS_first:
  assumes "xs \<noteq> []"
  shows "findIndexOfMinDS xs < length xs" "q < length xs \<Longrightarrow> xs ! findIndexOfMinDS xs \<le> xs ! q"
    "q < findIndexOfMinDS xs \<Longrightarrow> xs ! findIndexOfMinDS xs < xs ! q"
  using min_index_upt [of "length xs" xs] assms by (simp_all add: findIndexOfMinDS_def)

definition ballot :: "nat \<Rightarrow> nat \<Rightarrow> int list" where
  "ballot n p = (replicate n 0)[p := 1]"

lemma vote_sum_ballots:
  assumes "\<forall>w \<in> set ws. w < n" "p < n"
  shows "vote_sum (map (ballot n) ws) p = int (count_list ws p)"
proof -
  have "foldl (\<lambda>s row. s + row ! p) a (map (ballot n) ws) = a + int (count_list ws p)" for a
    using assms by (induction ws arbitrary: a) (auto simp: ballot_def nth_list_update)
  then show ?thesis by (simp add: vote_sum_def)
qed

text \<open>The first plan with the most votes.\<close>

lemma max_voted_first:
  assumes "\<forall>p < n. 0 \<le> vote_sum vs p" "n > 0"
  shows "\<exists>p < n. getMaxVotedSplitPlan n vs = int p \<and> (\<forall>q < n. vote_sum vs q \<le> vote_sum vs p) \<and>
     (\<forall>q < p. vote_sum vs q < vote_sum vs p)"
proof -
  let ?step = "\<lambda>(best, most) p. if most < vote_sum vs p then (int p, vote_sum vs p) else (best, most)"
  have "\<exists>p < k. foldl ?step (- 1, - 1) [0..<k] = (int p, vote_sum vs p) \<and> (\<forall>q < k. vote_sum vs q \<le> vote_sum vs p) \<and>
      (\<forall>q < p. vote_sum vs q < vote_sum vs p)" if "0 < k" "k \<le> n" for k
    using that
  proof (induction k)
    case (Suc k)
    show ?case
    proof (cases "k = 0")
      case True
      then show ?thesis using assms(1) Suc.prems by (intro exI [of _ 0]) auto
    next
      case False
      then obtain p where "p < k" "foldl ?step (- 1, - 1) [0..<k] = (int p, vote_sum vs p)"
        "\<forall>q < k. vote_sum vs q \<le> vote_sum vs p" "\<forall>q < p. vote_sum vs q < vote_sum vs p"
        using Suc.IH Suc.prems by auto
      then show ?thesis
        by (cases "vote_sum vs p < vote_sum vs k")
          (auto simp: less_Suc_eq intro!: exI [of _ k] exI [of _ p] intro: order.trans order.strict_trans1)
    qed
  qed simp
  from this [of n] assms(2) show ?thesis by (auto simp: getMaxVotedSplitPlan_def)
qed

definition cast_votes :: "split_plan \<Rightarrow> real list list \<Rightarrow> split_plan" where
  "cast_votes s rows = foldl (\<lambda>s ds. fst (vote s ds)) s rows"

lemma vote_numOfPlans [simp]: "numOfPlans (fst (vote s ds)) = numOfPlans s"
  by (simp add: vote_def Let_def)

lemma cast_numOfPlans [simp]: "numOfPlans (cast_votes s rows) = numOfPlans s"
  by (induction rows rule: rev_induct) (simp_all add: cast_votes_def)

lemma last_five_step:
  "(if length (drop (length ws - 5) ws @ [w]) > 5 then tl (drop (length ws - 5) ws @ [w])
    else drop (length ws - 5) ws @ [w]) = drop (length (ws @ [w]) - 5) (ws @ [w])"
proof (cases "length ws < 5")
  case False
  then have "Suc (length ws - 5) = length ws - 4" "drop (length ws - 5) ws \<noteq> []" by auto
  then have "tl (drop (length ws - 5) ws @ [w]) = drop (length ws - 4) ws @ [w]"
    by (metis drop_Suc tl_append2 tl_drop)
  with False show ?thesis by simp
qed simp

lemma cast_votes_snoc: "cast_votes s (rows @ [ds]) = fst (vote (cast_votes s rows) ds)"
  by (simp add: cast_votes_def)

lemma votes_vote:
  "votes (fst (vote s ds)) =
     (let vs = votes s @ [ballot (numOfPlans s) (findIndexOfMinDS ds)] in if length vs > 5 then tl vs else vs)"
  by (simp add: vote_def Let_def NUMBER_OF_VOTING_CYCLES_def ballot_def)

lemma votes_last_five:
  assumes "votes s = []" "\<forall>ds \<in> set rows. length ds = numOfPlans s"
  shows "votes (cast_votes s rows) =
     map (ballot (numOfPlans s)) (drop (length rows - 5) (map findIndexOfMinDS rows))"
  using assms(2)
proof (induction rows rule: rev_induct)
  case Nil
  then show ?case by (simp add: cast_votes_def assms(1))
next
  case (snoc ds rows)
  let ?ws = "map findIndexOfMinDS rows" and ?w = "findIndexOfMinDS ds"
  have ih: "votes (cast_votes s rows) = map (ballot (numOfPlans s)) (drop (length ?ws - 5) ?ws)"
    using snoc by simp
  have "votes (cast_votes s (rows @ [ds])) =
      (let vs = map (ballot (numOfPlans s)) (drop (length ?ws - 5) ?ws @ [?w]) in if length vs > 5 then tl vs else vs)"
    by (simp only: cast_votes_snoc votes_vote ih cast_numOfPlans map_append list.map)
  also have "\<dots> = map (ballot (numOfPlans s))
      (if length (drop (length ?ws - 5) ?ws @ [?w]) > 5 then tl (drop (length ?ws - 5) ?ws @ [?w])
       else drop (length ?ws - 5) ?ws @ [?w])"
    by (simp only: Let_def length_map map_tl [symmetric] if_distrib [where f = "map (ballot (numOfPlans s))"])
  also have "\<dots> = map (ballot (numOfPlans s)) (drop (length (?ws @ [?w]) - 5) (?ws @ [?w]))"
    by (simp only: last_five_step)
  finally show ?case by simp
qed

text \<open>Every cycle votes for the plan whose largest projected saturation is the least, and the plan that wins has
  the most votes of the last five cycles, the first such plan among equals.\<close>

theorem vote_is_majority_of_five:
  assumes "votes s = []" "0 < numOfPlans s" "\<forall>ds \<in> set (rows @ [ds]). length ds = numOfPlans s"
  shows "let ballots = drop (length rows - 4) (map findIndexOfMinDS (rows @ [ds]));
         p = snd (vote (cast_votes s rows) ds)
     in p < numOfPlans s \<and> (\<forall>q < numOfPlans s. count_list ballots q \<le> count_list ballots p) \<and>
        (\<forall>q < p. count_list ballots q < count_list ballots p)"
proof -
  let ?n = "numOfPlans s"
  define b where "b = drop (length (rows @ [ds]) - 5) (map findIndexOfMinDS (rows @ [ds]))"
  have "findIndexOfMinDS x < ?n" if "x \<in> set (rows @ [ds])" for x
  proof -
    have "length x = ?n" using assms(3) that by blast
    with assms(2) findIndexOfMinDS_first(1) [of x] show ?thesis by force
  qed
  then have "\<forall>w \<in> set (map findIndexOfMinDS (rows @ [ds])). w < ?n" by simp
  then have "\<forall>w \<in> set b. w < ?n" unfolding b_def by (meson in_set_dropD)
  note sum = vote_sum_ballots [OF this]
  have vs: "votes (fst (vote (cast_votes s rows) ds)) = map (ballot ?n) b"
    using votes_last_five [OF assms(1,3)] by (simp only: cast_votes_snoc b_def)
  have p: "snd (vote (cast_votes s rows) ds) = nat (getMaxVotedSplitPlan ?n (votes (fst (vote (cast_votes s rows) ds))))"
    by (simp add: vote_def Let_def)
  have "\<forall>p < ?n. 0 \<le> vote_sum (map (ballot ?n) b) p" using sum by simp
  from max_voted_first [OF this assms(2)] obtain q where q: "q < ?n"
    "getMaxVotedSplitPlan ?n (map (ballot ?n) b) = int q"
    "\<forall>q' < ?n. vote_sum (map (ballot ?n) b) q' \<le> vote_sum (map (ballot ?n) b) q"
    "\<forall>q' < q. vote_sum (map (ballot ?n) b) q' < vote_sum (map (ballot ?n) b) q" by blast
  have "snd (vote (cast_votes s rows) ds) = q" unfolding p vs q(2) by simp
  moreover have "\<forall>q' < ?n. count_list b q' \<le> count_list b q" "\<forall>q' < q. count_list b q' < count_list b q"
    using q(1,3,4) sum by simp_all
  moreover have "drop (length rows - 4) (map findIndexOfMinDS (rows @ [ds])) = b" by (simp add: b_def)
  ultimately show ?thesis using q(1) by (simp only: Let_def simp_thms)
qed

lemma vote_is_majority_of_five_witness:
  "snd (vote (cast_votes (newSplitPlan\<lparr>numOfPlans := 2\<rparr>) [[3, 1], [1, 2]]) [4, 2]) < 2"
  using vote_is_majority_of_five [of "newSplitPlan\<lparr>numOfPlans := 2\<rparr>" "[[3, 1], [1, 2]]" "[4, 2]"]
  by (simp add: newSplitPlan_def Let_def)

end
