(* ===== verification/Loop_Detectors.thy ===== *)
theory Loop_Detectors
  imports Buffered_Data Signal_Plans
begin

text \<open>
  The loop detectors in front of a signal: \<open>short/entities/LoopDetectorEntity.cpp\<close>, on the base class
  \<open>shared/entities/Sensor.cpp\<close> and the vectors of \<open>shared/buffering/Vector2D.hpp\<close>. A detector watches the
  last metres of a lane, counts the vehicles that come over it and the time nobody is there. The counts
  are data of \<open>Buffered_Data\<close>: what is written in a tick is read in the next one. Heights of points and
  the log of the assignment matrix are not modelled.
\<close>

section \<open>Points and vectors\<close>

type_synonym point = "real \<times> real"
type_synonym rounding = "real \<Rightarrow> real"
type_synonym u64 = "64 word"

definition vec_scale :: "rounding \<Rightarrow> point \<Rightarrow> real \<Rightarrow> point" where
  "vec_scale r v s = (r (fst v * s), r (snd v * s))"

definition vec_div :: "rounding \<Rightarrow> point \<Rightarrow> real \<Rightarrow> point" where
  "vec_div r v s = (r (fst v / s), r (snd v / s))"

definition dot :: "rounding \<Rightarrow> point \<Rightarrow> point \<Rightarrow> real" where
  "dot r v w = r (r (fst v * fst w) + r (snd v * snd w))"

definition vec_length :: "rounding \<Rightarrow> point \<Rightarrow> real" where
  "vec_length r v = r (sqrt (dot r v v))"

definition normalize :: "rounding \<Rightarrow> point \<Rightarrow> point" where
  "normalize r v = vec_div r v (vec_length r v)"

definition vec_plus :: "rounding \<Rightarrow> point \<Rightarrow> point \<Rightarrow> point" where
  "vec_plus r v w = (r (fst v + fst w), r (snd v + snd w))"

definition vec_minus :: "rounding \<Rightarrow> point \<Rightarrow> point \<Rightarrow> point" where
  "vec_minus r v w = (r (fst v - fst w), r (snd v - snd w))"

section \<open>Boxes\<close>

record box =
  upperLeft :: point
  upperRight :: point
  lowerLeft :: point
  lowerRight :: point

definition getBox :: "rounding \<Rightarrow> point \<Rightarrow> point \<Rightarrow> real \<Rightarrow> real \<Rightarrow> real \<Rightarrow> box" where
  "getBox r p1 p2 halfWidth len off =
     (let lastLine = normalize r (vec_minus r p2 p1);
          ldHorizontal = (- snd lastLine, fst lastLine);
          moveRight = vec_scale r ldHorizontal halfWidth;
          moveLeft = vec_scale r ldHorizontal (- halfWidth);
          bottomCenter = vec_scale r lastLine (- r (len + off));
          topCenter = vec_scale r lastLine (- off);
          bottom = vec_plus r p2 bottomCenter;
          top_edge = vec_plus r p2 topCenter
      in \<lparr>upperLeft = vec_plus r top_edge moveLeft, upperRight = vec_plus r top_edge moveRight,
          lowerLeft = vec_plus r bottom moveLeft, lowerRight = vec_plus r bottom moveRight\<rparr>)"

text \<open>An axis-parallel box: its lower left and its upper right corner.\<close>

record aabb =
  aabb_lower :: point
  aabb_upper :: point

definition isNotInitialized :: "aabb \<Rightarrow> bool" where
  "isNotInitialized a \<longleftrightarrow> aabb_lower a = (0, 0) \<and> aabb_upper a = (0, 0)"

text \<open>The bounds are \<open>int\<close> variables: the coordinates are truncated.\<close>

definition united :: "aabb \<Rightarrow> aabb \<Rightarrow> aabb" where
  "united a b =
     (let left = to_int (if fst (aabb_lower a) < fst (aabb_lower b) then fst (aabb_lower a) else fst (aabb_lower b));
          bottom = to_int (if snd (aabb_lower a) < snd (aabb_lower b) then snd (aabb_lower a) else snd (aabb_lower b));
          right = to_int (if fst (aabb_upper a) > fst (aabb_upper b) then fst (aabb_upper a) else fst (aabb_upper b));
          upper = to_int (if snd (aabb_upper a) > snd (aabb_upper b) then snd (aabb_upper a) else snd (aabb_upper b))
      in \<lparr>aabb_lower = (of_int left, of_int bottom), aabb_upper = (of_int right, of_int upper)\<rparr>)"

section \<open>Counts\<close>

record count_and_time =
  vehicleCount :: u64
  spaceTimeInMilliSeconds :: u32

definition newCountAndTimePair :: count_and_time where
  "newCountAndTimePair = \<lparr>vehicleCount = 0, spaceTimeInMilliSeconds = 0\<rparr>"

type_synonym count_datum = "count_and_time datum"

definition incrementSpaceTime :: "u32 \<Rightarrow> count_datum \<Rightarrow> count_datum" where
  "incrementSpaceTime timeStep d =
     (let pair = get d
      in set_value (pair\<lparr>spaceTimeInMilliSeconds := spaceTimeInMilliSeconds pair + timeStep\<rparr>) d)"

definition incrementVehicleCount :: "count_datum \<Rightarrow> count_datum" where
  "incrementVehicleCount d =
     (let pair = get d in set_value (pair\<lparr>vehicleCount := vehicleCount pair + 1\<rparr>) d)"

section \<open>A detector\<close>

datatype detector_error = ShortPolyLine | LinkNotFound | LinkWithoutSegments | NoLane | NoDetector | InvalidLane

record lane =
  laneWidth :: real
  polyLine :: "point list"
  pedestrianLane :: bool

text \<open>The counts are not in the detector but in the sensor it belongs to.\<close>

record loop_detector =
  ld_area :: box
  leftEdge :: point
  bottomEdge :: point
  sqLenOfLeftEdge :: real
  sqLenOfBottomEdge :: real
  timeStepInMilliSeconds :: u32
  request_to_reset :: bool
  counted :: "address list"

definition newLoopDetector :: "rounding \<Rightarrow> u32 \<Rightarrow> lane \<Rightarrow> real \<Rightarrow> (detector_error, loop_detector) result" where
  "newLoopDetector r timeStep lane len =
     (let n = length (polyLine lane)
      in guard ShortPolyLine (n \<ge> 2)
        (let area = getBox r (polyLine lane ! (n - 2)) (polyLine lane ! (n - 1)) (r (laneWidth lane / r (5 / 2))) len (1 / 2);
             left_edge = vec_minus r (upperLeft area) (lowerLeft area);
             bottom_edge = vec_minus r (lowerRight area) (lowerLeft area)
         in Inr \<lparr>ld_area = area, leftEdge = left_edge, bottomEdge = bottom_edge,
              sqLenOfLeftEdge = dot r left_edge left_edge, sqLenOfBottomEdge = dot r bottom_edge bottom_edge,
              timeStepInMilliSeconds = timeStep, request_to_reset = False, counted = []\<rparr>))"

definition reset_detector :: "loop_detector \<Rightarrow> loop_detector" where
  "reset_detector d = d\<lparr>request_to_reset := True\<rparr>"

definition check_vehicle :: "rounding \<Rightarrow> loop_detector \<Rightarrow> point \<Rightarrow> bool" where
  "check_vehicle r d vehPos =
     (let line = vec_minus r vehPos (lowerLeft (ld_area d));
          projOnLeftEdge = dot r line (leftEdge d)
      in if 0 \<le> projOnLeftEdge \<and> projOnLeftEdge \<le> sqLenOfLeftEdge d
         then (let projOnBottomEdge = dot r line (bottomEdge d)
               in 0 \<le> projOnBottomEdge \<and> projOnBottomEdge \<le> sqLenOfBottomEdge d)
         else False)"

text \<open>The loop over the vehicles: the first that is over the detector, and the vehicles that stay in
  the list of those already counted.\<close>

fun scan :: "(address \<Rightarrow> bool) \<Rightarrow> address list \<Rightarrow> address list \<Rightarrow> address option \<times> address list" where
  "scan over cs [] = (None, cs)"
| "scan over cs (v # vs) = (if over v then (Some v, cs) else scan over (remove1 v cs) vs)"

text \<open>The detector with its counts, the vehicles that are left for the other detectors, the vehicles
  newly counted and the value returned.\<close>

definition check_detector ::
  "(address \<Rightarrow> bool) \<Rightarrow> loop_detector \<times> count_datum \<Rightarrow> address list \<Rightarrow>
     (loop_detector \<times> count_datum) \<times> address list \<times> address list \<times> bool" where
  "check_detector over s vs =
     (case s of (d, pair) \<Rightarrow>
        if request_to_reset d
        then ((d\<lparr>request_to_reset := False\<rparr>, force newCountAndTimePair pair), vs, [], False)
        else (case scan over (counted d) vs of
            (None, cs) \<Rightarrow> ((d\<lparr>counted := cs\<rparr>, incrementSpaceTime (timeStepInMilliSeconds d) pair), vs, [], False)
          | (Some v, cs) \<Rightarrow>
              if v \<in> set cs then ((d\<lparr>counted := cs\<rparr>, pair), remove1 v vs, [], True)
              else ((d\<lparr>counted := cs @ [v]\<rparr>, incrementVehicleCount pair), remove1 v vs, [v], True)))"

section \<open>The entity\<close>

text \<open>\<open>std::map\<close> with keys that are pointers: an association list in the order of the keys.\<close>

definition ptr_map_insert :: "address \<Rightarrow> 'a \<Rightarrow> (address \<times> 'a) list \<Rightarrow> (address \<times> 'a) list" where
  "ptr_map_insert k v xs = (if k \<in> fst ` set xs then xs else insort_key fst (k, v) xs)"

definition ptr_map_update :: "address \<Rightarrow> 'a \<Rightarrow> (address \<times> 'a) list \<Rightarrow> (address \<times> 'a) list" where
  "ptr_map_update k v xs = map (\<lambda>(k', v'). (k', if k' = k then v else v')) xs"

text \<open>What the detectors read of the road network: the segments of a link, each with its lanes.\<close>

record network =
  link_segments :: "u32 \<rightharpoonup> address list list"
  lane_at :: "address \<Rightarrow> lane"

record detector_config =
  rounding :: rounding
  personTimeStep :: u32
  mutexStrategy :: mutex_strategy

text \<open>The entity has no detectors and no area before \<open>init\<close>.\<close>

record detector_impl =
  loopDetectors :: "(address \<times> loop_detector) list"
  monitorArea :: aabb

record loop_detector_entity =
  sensor_data :: "(address \<times> count_datum) list"
  pimpl :: "detector_impl option"

definition newLoopDetectorEntity :: loop_detector_entity where
  "newLoopDetectorEntity = \<lparr>sensor_data = [], pimpl = None\<rparr>"

definition detector_length :: real where
  "detector_length = 4"

text \<open>The body of the loop over the lanes of a segment.\<close>

definition createLoopDetector ::
  "detector_config \<Rightarrow> network \<Rightarrow> (address \<times> count_datum) list \<times> (address \<times> loop_detector) list \<Rightarrow> address \<Rightarrow>
     (detector_error, (address \<times> count_datum) list \<times> (address \<times> loop_detector) list) result" where
  "createLoopDetector cfg net s a =
     (case s of (counts, dets) \<Rightarrow>
        if pedestrianLane (lane_at net a) then Inr (counts, dets)
        else (let counts1 = ptr_map_insert a (newShared (mutexStrategy cfg) newCountAndTimePair) counts
              in rbind (newLoopDetector (rounding cfg) (personTimeStep cfg) (lane_at net a) detector_length)
                   (\<lambda>d. Inr (counts1, ptr_map_insert a d dets))))"

definition createSegmentDetectors ::
  "detector_config \<Rightarrow> network \<Rightarrow> (address \<times> count_datum) list \<times> (address \<times> loop_detector) list \<Rightarrow> address list list \<Rightarrow>
     (detector_error, (address \<times> count_datum) list \<times> (address \<times> loop_detector) list) result" where
  "createSegmentDetectors cfg net s roads =
     guard LinkWithoutSegments (roads \<noteq> [])
       (let lanes = last roads
        in guard NoLane (lanes \<noteq> [])
          (rbind (run_list (createLoopDetector cfg net) s lanes)
            (\<lambda>s1. guard NoDetector (\<exists>a \<in> set lanes. \<not> pedestrianLane (lane_at net a)) (Inr s1))))"

definition createLinkDetectors ::
  "detector_config \<Rightarrow> network \<Rightarrow> (address \<times> count_datum) list \<times> (address \<times> loop_detector) list \<Rightarrow> u32 \<Rightarrow>
     (detector_error, (address \<times> count_datum) list \<times> (address \<times> loop_detector) list) result" where
  "createLinkDetectors cfg net s l =
     rbind (deref LinkNotFound (link_segments net l)) (\<lambda>roads. createSegmentDetectors cfg net s roads)"

definition corners :: "(address \<times> loop_detector) list \<Rightarrow> point list" where
  "corners dets =
     concat (map (\<lambda>(_, d). [lowerLeft (ld_area d), upperLeft (ld_area d), upperRight (ld_area d), lowerRight (ld_area d)]) dets)"

definition extremes :: "real list \<Rightarrow> real \<times> real" where
  "extremes xs = (foldl min (hd xs) xs, foldl max (hd xs) xs)"

text \<open>A new area is at the origin and empty.\<close>

definition computeMonitorArea :: "(address \<times> loop_detector) list \<Rightarrow> aabb" where
  "computeMonitorArea dets =
     (if dets = [] then \<lparr>aabb_lower = (0, 0), aabb_upper = (0, 0)\<rparr>
      else (let xs = extremes (map fst (corners dets)); ys = extremes (map snd (corners dets))
            in \<lparr>aabb_lower = (fst xs, fst ys), aabb_upper = (snd xs, snd ys)\<rparr>))"

text \<open>The links that come into the nodes of a signal, in the order of the nodes and of the link ids.\<close>

definition createLoopDetectors ::
  "detector_config \<Rightarrow> network \<Rightarrow> loop_detector_entity \<Rightarrow> u32 list list \<Rightarrow> (detector_error, loop_detector_entity) result" where
  "createLoopDetectors cfg net e incoming =
     rbind (run_list (createLinkDetectors cfg net) (sensor_data e, []) (concat incoming))
       (\<lambda>(counts, dets). Inr \<lparr>sensor_data = counts,
          pimpl = Some \<lparr>loopDetectors = dets, monitorArea = computeMonitorArea dets\<rparr>\<rparr>)"

text \<open>What the check sees of an agent in the area.\<close>

record agent_view =
  is_person :: bool
  driver_lane :: "address option"
  agent_vehicle :: "address option"

definition vehicles_of :: "(address \<times> loop_detector) list \<Rightarrow> agent_view list \<Rightarrow> address list" where
  "vehicles_of dets agents =
     foldl (\<lambda>vs a.
       if is_person a
       then (case driver_lane a of None \<Rightarrow> vs
         | Some l \<Rightarrow> if l \<notin> fst ` set dets then vs
             else (case agent_vehicle a of None \<Rightarrow> vs | Some v \<Rightarrow> if v \<in> set vs then vs else vs @ [v]))
       else vs) [] agents"

text \<open>One detector after the other, each with the vehicles that the earlier ones left.\<close>

fun check_all ::
  "rounding \<Rightarrow> (address \<Rightarrow> point) \<Rightarrow> (address \<times> loop_detector) list \<Rightarrow> (address \<times> count_datum) list \<Rightarrow> address list \<Rightarrow>
     (address \<times> loop_detector) list \<times> (address \<times> count_datum) list \<times> (address \<times> address list) list" where
  "check_all r pos [] counts vs = ([], counts, [])"
| "check_all r pos ((a, d) # ds) counts vs =
     (case check_detector (\<lambda>v. check_vehicle r d (pos v)) (d, the (map_of counts a)) vs of
        ((d1, pair), vs1, new, _) \<Rightarrow>
          (case check_all r pos ds (ptr_map_update a pair counts) vs1 of
             (ds1, counts1, found) \<Rightarrow> ((a, d1) # ds1, counts1, (a, new) # found)))"

text \<open>The tick of the entity; \<open>order\<close> is the order in which the \<open>unordered_set\<close> of vehicles is traversed. The
  vehicles counted are the lines of the assignment matrix.\<close>

definition detectors_tick ::
  "detector_config \<Rightarrow> (address \<Rightarrow> point) \<Rightarrow> (address list \<Rightarrow> address list) \<Rightarrow> agent_view list \<Rightarrow> loop_detector_entity \<Rightarrow>
     loop_detector_entity \<times> (address \<times> address list) list \<times> bool" where
  "detectors_tick cfg pos order agents e =
     (case pimpl e of None \<Rightarrow> (e, [], False)
      | Some p \<Rightarrow>
          (case check_all (rounding cfg) pos (loopDetectors p) (sensor_data e) (order (vehicles_of (loopDetectors p) agents)) of
             (dets, counts, found) \<Rightarrow>
               (e\<lparr>sensor_data := counts, pimpl := Some (p\<lparr>loopDetectors := dets\<rparr>)\<rparr>, found, True)))"

definition reset_all :: "loop_detector_entity \<Rightarrow> loop_detector_entity" where
  "reset_all e =
     e\<lparr>pimpl := map_option (\<lambda>p. p\<lparr>loopDetectors := map (\<lambda>(a, d). (a, reset_detector d)) (loopDetectors p)\<rparr>) (pimpl e)\<rparr>"

definition reset_lane :: "address \<Rightarrow> loop_detector_entity \<Rightarrow> (detector_error, loop_detector_entity) result" where
  "reset_lane a e =
     (case pimpl e of None \<Rightarrow> Inr e
      | Some p \<Rightarrow>
          (case map_of (loopDetectors p) a of
             None \<Rightarrow> Inl InvalidLane
           | Some d \<Rightarrow> Inr (e\<lparr>pimpl := Some (p\<lparr>loopDetectors := ptr_map_update a (reset_detector d) (loopDetectors p)\<rparr>)\<rparr>)))"

definition getCountAndTimePair :: "loop_detector_entity \<Rightarrow> address \<Rightarrow> (detector_error, count_and_time) result" where
  "getCountAndTimePair e a = rbind (deref InvalidLane (map_of (sensor_data e) a)) (\<lambda>d. Inr (get d))"

text \<open>The data a worker manages for the entity, each named by its lane, and their flip at the end of a tick.\<close>

definition buildSubscriptionList :: "loop_detector_entity \<Rightarrow> address list" where
  "buildSubscriptionList e = map fst (sensor_data e)"

definition flip_sensor :: "loop_detector_entity \<Rightarrow> loop_detector_entity" where
  "flip_sensor e =
     e\<lparr>sensor_data := map (\<lambda>(a, d). (a, if a \<in> set (buildSubscriptionList e) then flip d else d)) (sensor_data e)\<rparr>"

section \<open>Where a detector is\<close>

text \<open>The position of a point along the unit vector \<open>u\<close> and across it.\<close>

definition along :: "point \<Rightarrow> point \<Rightarrow> real" where
  "along u v = fst u * fst v + snd u * snd v"

definition across :: "point \<Rightarrow> point \<Rightarrow> real" where
  "across u v = fst u * snd v - snd u * fst v"

lemma normalize_exact:
  assumes "v \<noteq> (0, 0)"
  shows "(fst (normalize (\<lambda>x. x) v))\<^sup>2 + (snd (normalize (\<lambda>x. x) v))\<^sup>2 = 1"
proof -
  have "(fst v)\<^sup>2 + (snd v)\<^sup>2 \<noteq> 0" using assms by (cases v) (simp add: sum_power2_eq_zero_iff)
  moreover have "(fst v)\<^sup>2 + (snd v)\<^sup>2 \<ge> 0" by simp
  ultimately have "(sqrt ((fst v)\<^sup>2 + (snd v)\<^sup>2))\<^sup>2 = (fst v)\<^sup>2 + (snd v)\<^sup>2" "(fst v)\<^sup>2 + (snd v)\<^sup>2 \<noteq> 0" by simp_all
  then show ?thesis
    by (simp add: normalize_def vec_div_def vec_length_def dot_def power_divide add_divide_distrib [symmetric]
        power2_eq_square)
qed

lemma getBox_exact:
  "lowerLeft (getBox (\<lambda>x. x) p1 p2 hw len off) =
     (let u = normalize (\<lambda>x. x) (vec_minus (\<lambda>x. x) p2 p1)
      in (fst p2 - fst u * (len + off) + snd u * hw, snd p2 - snd u * (len + off) - fst u * hw))"
  "vec_minus (\<lambda>x. x) (upperLeft (getBox (\<lambda>x. x) p1 p2 hw len off)) (lowerLeft (getBox (\<lambda>x. x) p1 p2 hw len off)) =
     (let u = normalize (\<lambda>x. x) (vec_minus (\<lambda>x. x) p2 p1) in (len * fst u, len * snd u))"
  "vec_minus (\<lambda>x. x) (lowerRight (getBox (\<lambda>x. x) p1 p2 hw len off)) (lowerLeft (getBox (\<lambda>x. x) p1 p2 hw len off)) =
     (let u = normalize (\<lambda>x. x) (vec_minus (\<lambda>x. x) p2 p1) in (- 2 * hw * snd u, 2 * hw * fst u))"
  by (simp_all add: getBox_def Let_def vec_plus_def vec_minus_def vec_scale_def algebra_simps)

lemma projections:
  fixes a b c d l h :: real
  assumes "c\<^sup>2 + d\<^sup>2 = 1"
  shows "(a + c * l - d * h) * (m * c) + (b + d * l + c * h) * (m * d) = m * (c * a + d * b + l)"
    "(a + c * l - d * h) * (- 2 * h * d) + (b + d * l + c * h) * (2 * h * c) = 2 * h * (c * b - d * a + h)"
    "(m * c) * (m * c) + (m * d) * (m * d) = m\<^sup>2" "(- 2 * h * d) * (- 2 * h * d) + (2 * h * c) * (2 * h * c) = (2 * h)\<^sup>2"
proof -
  have "(a + c * l - d * h) * (m * c) + (b + d * l + c * h) * (m * d) = m * (c * a + d * b + l * (c\<^sup>2 + d\<^sup>2))"
    by (simp add: algebra_simps power2_eq_square)
  then show "(a + c * l - d * h) * (m * c) + (b + d * l + c * h) * (m * d) = m * (c * a + d * b + l)" by (simp add: assms)
  have "(a + c * l - d * h) * (- 2 * h * d) + (b + d * l + c * h) * (2 * h * c) = 2 * h * (c * b - d * a + h * (c\<^sup>2 + d\<^sup>2))"
    by (simp add: algebra_simps power2_eq_square)
  then show "(a + c * l - d * h) * (- 2 * h * d) + (b + d * l + c * h) * (2 * h * c) = 2 * h * (c * b - d * a + h)"
    by (simp add: assms)
  have "(m * c) * (m * c) + (m * d) * (m * d) = m\<^sup>2 * (c\<^sup>2 + d\<^sup>2)" by (simp add: algebra_simps power2_eq_square)
  then show "(m * c) * (m * c) + (m * d) * (m * d) = m\<^sup>2" by (simp add: assms)
  have "(- 2 * h * d) * (- 2 * h * d) + (2 * h * c) * (2 * h * c) = (2 * h)\<^sup>2 * (c\<^sup>2 + d\<^sup>2)"
    by (simp add: algebra_simps power2_eq_square)
  then show "(- 2 * h * d) * (- 2 * h * d) + (2 * h * c) * (2 * h * c) = (2 * h)\<^sup>2" by (simp add: assms)
qed

lemma between_scaled:
  fixes m x :: real
  assumes "0 < m"
  shows "0 \<le> m * x \<and> m * x \<le> m\<^sup>2 \<longleftrightarrow> 0 \<le> x \<and> x \<le> m"
  using assms by (simp add: power2_eq_square zero_le_mult_iff)

text \<open>In exact arithmetic a vehicle is over the detector of a lane exactly if it is between half a metre and four
  and a half metres before the end of the lane, and within two fifths of its width from the centre line.\<close>

theorem detector_covers_stop_line:
  assumes "newLoopDetector (\<lambda>x. x) timeStep l detector_length = Inr d" "0 < laneWidth l"
    "polyLine l = ps @ [p1, p2]" "p1 \<noteq> p2"
  shows "\<exists>u. (fst u)\<^sup>2 + (snd u)\<^sup>2 = 1 \<and> (\<exists>k > 0. vec_minus (\<lambda>x. x) p2 p1 = (k * fst u, k * snd u)) \<and>
     (\<forall>p. check_vehicle (\<lambda>x. x) d p \<longleftrightarrow>
       (let v = vec_minus (\<lambda>x. x) p p2 in - 9 / 2 \<le> along u v \<and> along u v \<le> - 1 / 2 \<and> \<bar>across u v\<bar> \<le> 2 / 5 * laneWidth l))"
proof -
  let ?w = "vec_minus (\<lambda>x. x) p2 p1"
  let ?hw = "laneWidth l / (5 / 2)"
  let ?box = "getBox (\<lambda>x. x) p1 p2 ?hw 4 (1 / 2)"
  define u where "u = normalize (\<lambda>x. x) ?w"
  have nz: "?w \<noteq> (0, 0)" using assms(4) by (cases p1; cases p2) (auto simp: vec_minus_def)
  have unit: "(fst u)\<^sup>2 + (snd u)\<^sup>2 = 1" unfolding u_def by (rule normalize_exact [OF nz])
  have k: "0 < vec_length (\<lambda>x. x) ?w"
  proof -
    have "0 < (fst ?w)\<^sup>2 + (snd ?w)\<^sup>2" using nz by (cases "vec_minus (\<lambda>x. x) p2 p1") (simp add: sum_power2_gt_zero_iff)
    then show ?thesis by (simp add: vec_length_def dot_def power2_eq_square)
  qed
  then have dir: "?w = (vec_length (\<lambda>x. x) ?w * fst u, vec_length (\<lambda>x. x) ?w * snd u)"
    by (simp add: u_def normalize_def vec_div_def)
  have d: "ld_area d = ?box" "leftEdge d = vec_minus (\<lambda>x. x) (upperLeft ?box) (lowerLeft ?box)"
    "bottomEdge d = vec_minus (\<lambda>x. x) (lowerRight ?box) (lowerLeft ?box)"
    "sqLenOfLeftEdge d = dot (\<lambda>x. x) (leftEdge d) (leftEdge d)" "sqLenOfBottomEdge d = dot (\<lambda>x. x) (bottomEdge d) (bottomEdge d)"
    using assms(1,3) by (auto simp: newLoopDetector_def detector_length_def Let_def guard_Inr nth_append)
  have edges: "leftEdge d = (4 * fst u, 4 * snd u)" "bottomEdge d = (- 2 * ?hw * snd u, 2 * ?hw * fst u)"
    "lowerLeft (ld_area d) = (fst p2 - fst u * (9 / 2) + snd u * ?hw, snd p2 - snd u * (9 / 2) - fst u * ?hw)"
    using getBox_exact(1) [of p1 p2 ?hw 4 "1 / 2"] unfolding d(1) d(2) d(3) getBox_exact(2) getBox_exact(3)
    by (simp_all add: Let_def u_def)
  have hw: "0 < 2 * ?hw" using assms(2) by simp
  have "check_vehicle (\<lambda>x. x) d p \<longleftrightarrow>
      (let v = vec_minus (\<lambda>x. x) p p2 in - 9 / 2 \<le> along u v \<and> along u v \<le> - 1 / 2 \<and> \<bar>across u v\<bar> \<le> 2 / 5 * laneWidth l)" for p
  proof -
    define v where "v = vec_minus (\<lambda>x. x) p p2"
    have line: "vec_minus (\<lambda>x. x) p (lowerLeft (ld_area d)) =
        (fst v + fst u * (9 / 2) - snd u * ?hw, snd v + snd u * (9 / 2) + fst u * ?hw)"
      unfolding edges(3) by (simp add: v_def vec_minus_def)
    have left: "dot (\<lambda>x. x) (vec_minus (\<lambda>x. x) p (lowerLeft (ld_area d))) (leftEdge d) = 4 * (along u v + 9 / 2)"
      using projections(1) [OF unit, of "fst v" "9 / 2" ?hw 4 "snd v"] unfolding line edges(1) dot_def along_def by simp
    have bottom: "dot (\<lambda>x. x) (vec_minus (\<lambda>x. x) p (lowerLeft (ld_area d))) (bottomEdge d) = 2 * ?hw * (across u v + ?hw)"
      using projections(2) [OF unit, of "fst v" "9 / 2" ?hw "snd v"] unfolding line edges(2) dot_def across_def by simp
    have sq: "sqLenOfLeftEdge d = 4\<^sup>2" "sqLenOfBottomEdge d = (2 * ?hw)\<^sup>2"
      unfolding d(4,5) edges(1,2) dot_def fst_conv snd_conv using projections(3,4) [OF unit] by blast+
    have "check_vehicle (\<lambda>x. x) d p \<longleftrightarrow> (0 \<le> along u v + 9 / 2 \<and> along u v + 9 / 2 \<le> 4) \<and>
        (0 \<le> across u v + ?hw \<and> across u v + ?hw \<le> 2 * ?hw)"
      unfolding check_vehicle_def Let_def left bottom sq
      by (simp only: between_scaled [OF hw] between_scaled [OF zero_less_numeral] if_bool_eq_conj simp_thms) blast
    also have "\<dots> \<longleftrightarrow> - 9 / 2 \<le> along u v \<and> along u v \<le> - 1 / 2 \<and> \<bar>across u v\<bar> \<le> 2 / 5 * laneWidth l"
      by (auto simp: abs_le_iff)
    finally show ?thesis by (simp add: v_def Let_def)
  qed
  with unit k dir show ?thesis by blast
qed

definition lane1 :: lane where
  "lane1 = \<lparr>laneWidth = 3, polyLine = [(0, 0), (50, 0)], pedestrianLane = False\<rparr>"

lemma detector_covers_stop_line_witness:
  "\<exists>d. newLoopDetector (\<lambda>x. x) 100 lane1 detector_length = Inr d \<and> check_vehicle (\<lambda>x. x) d (48, 1) \<and>
     \<not> check_vehicle (\<lambda>x. x) d (50, 0)"
proof -
  obtain d where d: "newLoopDetector (\<lambda>x. x) 100 lane1 detector_length = Inr d"
    by (simp add: newLoopDetector_def lane1_def Let_def)
  from detector_covers_stop_line [OF d, of "[]" "(0, 0)" "(50, 0)"] obtain u k where
    u: "(fst u)\<^sup>2 + (snd u)\<^sup>2 = 1" "k > 0" "vec_minus (\<lambda>x. x) (50, 0) (0, 0) = (k * fst u, k * snd u)"
    "\<forall>p. check_vehicle (\<lambda>x. x) d p \<longleftrightarrow> (let v = vec_minus (\<lambda>x. x) p (50, 0)
       in - 9 / 2 \<le> along u v \<and> along u v \<le> - 1 / 2 \<and> \<bar>across u v\<bar> \<le> 2 / 5 * 3)"
    by (auto simp: lane1_def)
  have e: "snd u = 0" "k * fst u = 50" using u(2,3) by (simp_all add: vec_minus_def)
  have "0 < fst u" by (rule zero_less_mult_pos [OF _ u(2)]) (simp add: e(2))
  with u(1) e(1) have "fst u = 1" by (simp add: power2_eq_1_iff)
  with e(1) show ?thesis
    using u(4) d by (auto simp: vec_minus_def along_def across_def Let_def)
qed

section \<open>What a detector counts\<close>

text \<open>The ticks of a detector whose counts are flipped after every tick: the vehicles seen in each.\<close>

definition detector_tick ::
  "loop_detector \<times> count_datum \<Rightarrow> (address \<Rightarrow> bool) \<times> address list \<Rightarrow> loop_detector \<times> count_datum" where
  "detector_tick s t = (case fst (check_detector (fst t) s (snd t)) of (d, pair) \<Rightarrow> (d, flip pair))"

definition over_at :: "((address \<Rightarrow> bool) \<times> address list) list \<Rightarrow> nat \<Rightarrow> address \<Rightarrow> bool" where
  "over_at ts i v \<longleftrightarrow> v \<in> set (snd (ts ! i)) \<and> fst (ts ! i) v"

lemma scan_spec:
  assumes "scan over cs vs = (f, cs')" "distinct cs"
  shows "f = find over vs" "distinct cs'" "set cs' \<subseteq> set cs" "v \<in> set cs \<Longrightarrow> v \<notin> set cs' \<Longrightarrow> v \<in> set vs \<and> \<not> over v"
proof -
  have "f = find over vs \<and> distinct cs' \<and> set cs' \<subseteq> set cs \<and> (\<forall>v \<in> set cs. v \<notin> set cs' \<longrightarrow> v \<in> set vs \<and> \<not> over v)"
    using assms
  proof (induction over cs vs rule: scan.induct)
    case (2 over cs x xs)
    show ?case
    proof (cases "over x")
      case False
      with 2 have "f = find over xs \<and> distinct cs' \<and> set cs' \<subseteq> set (remove1 x cs) \<and>
          (\<forall>v \<in> set (remove1 x cs). v \<notin> set cs' \<longrightarrow> v \<in> set xs \<and> \<not> over v)" by simp
      then show ?thesis using False 2(3) by auto
    qed (use 2 in auto)
  qed simp
  then show "f = find over vs" "distinct cs'" "set cs' \<subseteq> set cs" "v \<in> set cs \<Longrightarrow> v \<notin> set cs' \<Longrightarrow> v \<in> set vs \<and> \<not> over v"
    by blast+
qed

text \<open>The value of the counts is settled: a reader sees what was last written.\<close>

definition settled :: "count_datum \<Rightarrow> bool" where
  "settled d \<longleftrightarrow> datum_class d = Shared MtxStrat_Buffered \<and> nextV d = currentV d"

lemma settled_increment:
  assumes "settled d"
  shows "settled (flip (incrementSpaceTime k d))" "settled (flip (incrementVehicleCount d))" "flip d = d"
    "get (flip (incrementSpaceTime k d)) = (get d)\<lparr>spaceTimeInMilliSeconds := spaceTimeInMilliSeconds (get d) + k\<rparr>"
    "get (flip (incrementVehicleCount d)) = (get d)\<lparr>vehicleCount := vehicleCount (get d) + 1\<rparr>"
  using assms by (simp_all add: settled_def flip_def incrementSpaceTime_def incrementVehicleCount_def set_value_def
      get_def Let_def)

lemma settled_force: "settled d \<Longrightarrow> settled (flip (force v d)) \<and> get (flip (force v d)) = v"
  by (simp add: settled_def flip_def force_def get_def Let_def)

text \<open>One tick without a request to reset.\<close>

lemma detector_tick_cases:
  assumes "detector_tick (d, pair) (over, vs) = (d', pair')" "\<not> request_to_reset d" "settled pair" "distinct (counted d)"
  shows "settled pair'" "distinct (counted d')" "\<not> request_to_reset d'" "timeStepInMilliSeconds d' = timeStepInMilliSeconds d"
    "find over vs = None \<Longrightarrow> set (counted d') \<subseteq> set (counted d) \<and>
       get pair' = (get pair)\<lparr>spaceTimeInMilliSeconds := spaceTimeInMilliSeconds (get pair) + timeStepInMilliSeconds d\<rparr>"
    "find over vs = Some v \<Longrightarrow> v \<in> set (counted d') \<and> set (counted d') \<subseteq> insert v (set (counted d)) \<and>
       get pair' = (if v \<in> set (counted d) then get pair else (get pair)\<lparr>vehicleCount := vehicleCount (get pair) + 1\<rparr>)"
    "w \<in> set (counted d) \<Longrightarrow> w \<notin> set (counted d') \<Longrightarrow> w \<in> set vs \<and> \<not> over w"
proof -
  obtain f cs where s: "scan over (counted d) vs = (f, cs)" by fastforce
  note sp = scan_spec [OF s assms(4)]
  have keep: "v \<in> set cs \<longleftrightarrow> v \<in> set (counted d)" if "find over vs = Some v" for v
    using that sp(3,4) by (auto simp: find_Some_iff)
  note st = settled_increment [OF assms(3)]
  have r: "(d', pair') = (case f of None \<Rightarrow> (d\<lparr>counted := cs\<rparr>, flip (incrementSpaceTime (timeStepInMilliSeconds d) pair))
      | Some v \<Rightarrow> if v \<in> set cs then (d\<lparr>counted := cs\<rparr>, flip pair)
          else (d\<lparr>counted := cs @ [v]\<rparr>, flip (incrementVehicleCount pair)))"
    using assms(1,2) s by (auto simp: detector_tick_def check_detector_def split: option.splits if_splits)
  show "settled pair'" "distinct (counted d')" "\<not> request_to_reset d'" "timeStepInMilliSeconds d' = timeStepInMilliSeconds d"
    using r assms(2,3) st sp(2) by (auto split: option.splits if_splits)
  show "find over vs = None \<Longrightarrow> set (counted d') \<subseteq> set (counted d) \<and>
       get pair' = (get pair)\<lparr>spaceTimeInMilliSeconds := spaceTimeInMilliSeconds (get pair) + timeStepInMilliSeconds d\<rparr>"
    using r sp(1,3) st(4) by (auto split: option.splits)
  show "find over vs = Some v \<Longrightarrow> v \<in> set (counted d') \<and> set (counted d') \<subseteq> insert v (set (counted d)) \<and>
       get pair' = (if v \<in> set (counted d) then get pair else (get pair)\<lparr>vehicleCount := vehicleCount (get pair) + 1\<rparr>)"
    using r sp(1,3) st(3,5) keep [of v] by (auto split: option.splits if_splits)
  show "w \<in> set (counted d) \<Longrightarrow> w \<notin> set (counted d') \<Longrightarrow> w \<in> set vs \<and> \<not> over w"
    using r sp(1,4) by (auto split: option.splits if_splits)
qed

text \<open>The vehicles over the detector in the first \<open>m\<close> ticks, and the ticks among them in which nobody was.\<close>

definition passed :: "((address \<Rightarrow> bool) \<times> address list) list \<Rightarrow> nat \<Rightarrow> address set" where
  "passed ts m = {v. \<exists>i < m. over_at ts i v}"

definition empty_ticks :: "((address \<Rightarrow> bool) \<times> address list) list \<Rightarrow> nat \<Rightarrow> nat set" where
  "empty_ticks ts m = {i. i < m \<and> (\<forall>v. \<not> over_at ts i v)}"

lemma finite_passed [simp]: "m \<le> length ts \<Longrightarrow> finite (passed ts m)"
proof (rule finite_subset)
  show "passed ts m \<subseteq> (\<Union>i < m. set (snd (ts ! i)))" by (auto simp: passed_def over_at_def)
qed simp

lemma passed_Suc: "passed ts (Suc m) = passed ts m \<union> {v. over_at ts m v}"
  by (auto simp: passed_def less_Suc_eq)

lemma empty_ticks_Suc:
  "empty_ticks ts (Suc m) = (if \<exists>v. over_at ts m v then empty_ticks ts m else insert m (empty_ticks ts m))"
  by (auto simp: empty_ticks_def less_Suc_eq)

lemma finite_empty_ticks [simp]: "finite (empty_ticks ts m)"
  by (simp add: empty_ticks_def)

lemma m_notin_empty_ticks [simp]: "m \<notin> empty_ticks ts m"
  by (simp add: empty_ticks_def)

text \<open>At most one vehicle is over the detector in a tick, and each is there in ticks that follow each other without a gap: a
  vehicle that has gone does not come back.\<close>

definition single_file :: "((address \<Rightarrow> bool) \<times> address list) list \<Rightarrow> bool" where
  "single_file ts \<longleftrightarrow>
     (\<forall>i < length ts. \<forall>v w. over_at ts i v \<longrightarrow> over_at ts i w \<longrightarrow> v = w) \<and>
     (\<forall>k < length ts. \<forall>j < k. \<forall>i < j. \<forall>v. over_at ts i v \<longrightarrow> over_at ts k v \<longrightarrow> over_at ts j v)"

lemma find_over:
  assumes "single_file ts" "m < length ts"
  shows "find (fst (ts ! m)) (snd (ts ! m)) = Some v \<longleftrightarrow> over_at ts m v"
proof -
  have "\<exists>w. find (fst (ts ! m)) (snd (ts ! m)) = Some w \<and> over_at ts m w" if o: "over_at ts m v"
  proof (cases "find (fst (ts ! m)) (snd (ts ! m))")
    case None
    with o show ?thesis by (auto simp: find_None_iff over_at_def)
  next
    case (Some w)
    then show ?thesis by (auto simp: find_Some_iff over_at_def)
  qed
  moreover have "over_at ts m w" if "find (fst (ts ! m)) (snd (ts ! m)) = Some w" for w
    using that by (auto simp: find_Some_iff over_at_def)
  moreover have "v = w" if "over_at ts m v" "over_at ts m w" for w
    using assms that by (auto simp: single_file_def)
  ultimately show ?thesis by blast
qed

text \<open>What the counts of the first \<open>m\<close> ticks are, and the vehicles in the list of those counted.\<close>

definition counts_so_far ::
  "((address \<Rightarrow> bool) \<times> address list) list \<Rightarrow> nat \<Rightarrow> u32 \<Rightarrow> loop_detector \<times> count_datum \<Rightarrow> bool" where
  "counts_so_far ts m k s \<longleftrightarrow>
     \<not> request_to_reset (fst s) \<and> timeStepInMilliSeconds (fst s) = k \<and> distinct (counted (fst s)) \<and> settled (snd s) \<and>
     set (counted (fst s)) \<subseteq> passed ts m \<and>
     (\<forall>v i. i < m \<longrightarrow> over_at ts i v \<longrightarrow> v \<notin> set (counted (fst s)) \<longrightarrow>
        (\<exists>j < m. i < j \<and> v \<in> set (snd (ts ! j)) \<and> \<not> fst (ts ! j) v)) \<and>
     get (snd s) = \<lparr>vehicleCount = of_nat (card (passed ts m)),
       spaceTimeInMilliSeconds = of_nat (card (empty_ticks ts m)) * k\<rparr>"

lemma counts_so_far_tick:
  assumes "counts_so_far ts m k s" "single_file ts" "m < length ts"
  shows "counts_so_far ts (Suc m) k (detector_tick s (ts ! m))"
proof -
  obtain d pair over vs d' pair' where s: "s = (d, pair)" "ts ! m = (over, vs)" "detector_tick s (ts ! m) = (d', pair')"
    by (metis prod.exhaust)
  note inv = assms(1) [unfolded counts_so_far_def s(1) fst_conv snd_conv]
  have t: "detector_tick (d, pair) (over, vs) = (d', pair')" using s by simp
  note tick = detector_tick_cases [OF t]
  have left: "\<exists>j < Suc m. i < j \<and> v \<in> set (snd (ts ! j)) \<and> \<not> fst (ts ! j) v"
    if v: "i < Suc m" "over_at ts i v" "v \<notin> set (counted d')" "i < m" for i v
  proof (cases "v \<in> set (counted d)")
    case True
    then have "v \<in> set vs \<and> \<not> over v" using tick(7) v(3) inv by blast
    with v(4) s(2) show ?thesis by auto
  next
    case False
    with inv v(2,4) show ?thesis by (meson less_SucI)
  qed
  show ?thesis
  proof (cases "find over vs")
    case None
    then have none: "\<forall>v. \<not> over_at ts m v" using find_over [OF assms(2,3)] s(2) by auto
    have p: "passed ts (Suc m) = passed ts m" "empty_ticks ts (Suc m) = insert m (empty_ticks ts m)"
      using none by (simp_all add: passed_Suc empty_ticks_Suc)
    have "\<exists>j < Suc m. i < j \<and> v \<in> set (snd (ts ! j)) \<and> \<not> fst (ts ! j) v"
      if "i < Suc m" "over_at ts i v" "v \<notin> set (counted d')" for i v
      using left [OF that] that none by (metis less_SucE)
    then show ?thesis
      using tick(1-5) inv None unfolding counts_so_far_def s(3) p
      by (auto simp: algebra_simps)
  next
    case (Some v)
    then have one: "over_at ts m w \<longleftrightarrow> w = v" for w
      using find_over [OF assms(2,3), of w] s(2) by auto
    have p: "passed ts (Suc m) = insert v (passed ts m)" "empty_ticks ts (Suc m) = empty_ticks ts m"
      using one by (auto simp: passed_Suc empty_ticks_Suc)
    have new: "v \<in> passed ts m \<longleftrightarrow> v \<in> set (counted d)"
    proof
      assume "v \<in> passed ts m"
      then obtain i where i: "i < m" "over_at ts i v" by (auto simp: passed_def)
      show "v \<in> set (counted d)"
      proof (rule ccontr)
        assume "v \<notin> set (counted d)"
        with inv i obtain j where "j < m" "i < j" "v \<in> set (snd (ts ! j))" "\<not> fst (ts ! j) v" by meson
        moreover have "over_at ts m v" using one by simp
        moreover have "\<forall>k < length ts. \<forall>j < k. \<forall>i < j. \<forall>v. over_at ts i v \<longrightarrow> over_at ts k v \<longrightarrow> over_at ts j v"
          using assms(2) unfolding single_file_def by (rule conjunct2)
        ultimately show False using assms(3) i unfolding over_at_def by meson
      qed
    qed (use inv in blast)
    have "\<exists>j < Suc m. i < j \<and> w \<in> set (snd (ts ! j)) \<and> \<not> fst (ts ! j) w"
      if "i < Suc m" "over_at ts i w" "w \<notin> set (counted d')" for i w
      using left [OF that] that one tick(6) [OF _ _ _ Some] inv by (metis less_SucE)
    moreover have "get pair' = \<lparr>vehicleCount = of_nat (card (passed ts (Suc m))),
        spaceTimeInMilliSeconds = of_nat (card (empty_ticks ts (Suc m))) * k\<rparr>"
      using tick(6) [OF _ _ _ Some] inv new assms(3) unfolding p by (auto simp: insert_absorb)
    ultimately show ?thesis
      using tick(1-4) tick(6) [OF _ _ _ Some] inv unfolding counts_so_far_def s(3) p by auto
  qed
qed

text \<open>C16: A new detector with the buffered strategy, of which no reset is asked, counts each of the vehicles that pass it
  one at a time once, however many ticks it stays over the detector, and adds one time step for every tick in
  which nobody is over it; both modulo the width of the counters. No vehicle comes back after it has gone (the comment on
  \<open>check\<close> and the list of counted vehicles differ about such a vehicle).\<close>

theorem detector_counts_passages:
  assumes "single_file ts" "\<not> request_to_reset d" "counted d = []"
  shows "get (snd (foldl detector_tick (d, newShared MtxStrat_Buffered newCountAndTimePair) ts)) =
     \<lparr>vehicleCount = of_nat (card {v. \<exists>i < length ts. over_at ts i v}),
      spaceTimeInMilliSeconds = of_nat (card {i. i < length ts \<and> (\<forall>v. \<not> over_at ts i v)}) * timeStepInMilliSeconds d\<rparr>"
proof -
  let ?s = "(d, newShared MtxStrat_Buffered newCountAndTimePair)"
  have "counts_so_far ts m (timeStepInMilliSeconds d) (foldl detector_tick ?s (take m ts))" if "m \<le> length ts" for m
    using that
  proof (induction m)
    case 0
    show ?case
      using assms(2,3) by (simp add: counts_so_far_def settled_def newShared_def newCountAndTimePair_def get_def passed_def
          empty_ticks_def)
  next
    case (Suc m)
    then show ?case using counts_so_far_tick [OF _ assms(1), of m] by (simp add: take_Suc_conv_app_nth)
  qed
  from this [of "length ts"] show ?thesis by (simp add: counts_so_far_def passed_def empty_ticks_def)
qed

definition detector1 :: loop_detector where
  "detector1 = \<lparr>ld_area = \<lparr>upperLeft = (0, 0), upperRight = (0, 0), lowerLeft = (0, 0), lowerRight = (0, 0)\<rparr>,
     leftEdge = (0, 0), bottomEdge = (0, 0), sqLenOfLeftEdge = 0, sqLenOfBottomEdge = 0, timeStepInMilliSeconds = 100,
     request_to_reset = False, counted = []\<rparr>"

definition ticks1 :: "((address \<Rightarrow> bool) \<times> address list) list" where
  "ticks1 = [(\<lambda>v. v = 1, [1, 2]), (\<lambda>v. v = 1, [2, 1]), (\<lambda>v. False, [1, 2]), (\<lambda>v. v = 2, [2])]"

lemma over_ticks1:
  "over_at ticks1 i v \<longleftrightarrow> (i = 0 \<or> i = 1) \<and> v = 1 \<or> i = 3 \<and> v = 2" if "i < 4"
  using that by (auto simp: less_Suc_eq numeral_eq_Suc over_at_def ticks1_def)

lemma detector_counts_passages_witness:
  "get (snd (foldl detector_tick (detector1, newShared MtxStrat_Buffered newCountAndTimePair) ticks1)) =
     \<lparr>vehicleCount = 2, spaceTimeInMilliSeconds = 100\<rparr>"
proof -
  have sf: "single_file ticks1"
    unfolding single_file_def
    using over_ticks1 by (auto simp: ticks1_def less_Suc_eq numeral_eq_Suc)
  have "{v. \<exists>i < length ticks1. over_at ticks1 i v} = {1, 2}" "{i. i < length ticks1 \<and> (\<forall>v. \<not> over_at ticks1 i v)} = {2}"
    using over_ticks1 by (auto simp: ticks1_def less_Suc_eq numeral_eq_Suc)
  with detector_counts_passages [OF sf, of detector1] show ?thesis by (simp add: detector1_def)
qed

section \<open>Resets and the locked strategy\<close>

text \<open>A reset takes effect in the next check, which then does nothing else: the vehicles of that tick are
  not looked at and its time is not added. The list of counted vehicles is kept, so a vehicle that stands
  on the detector is not counted again.\<close>

lemma check_after_reset:
  "check_detector over (reset_detector d, pair) vs =
     ((d\<lparr>request_to_reset := False\<rparr>, force newCountAndTimePair pair), vs, [], False)"
  by (simp add: check_detector_def reset_detector_def)

lemma tick_after_reset:
  assumes "settled pair"
  shows "detector_tick (reset_detector d, pair) t = (d\<lparr>request_to_reset := False\<rparr>, flip (force newCountAndTimePair pair))"
    "get (snd (detector_tick (reset_detector d, pair) t)) = newCountAndTimePair"
  using settled_force [OF assms] by (simp_all add: detector_tick_def check_after_reset)

text \<open>With the locked strategy a detector never counts a vehicle and never measures time.\<close>

theorem locked_detector_never_counts:
  "get (snd (foldl detector_tick (d, newShared MtxStrat_Locked newCountAndTimePair) ts)) = newCountAndTimePair"
proof -
  have "datum_class (snd (foldl detector_tick s ts)) = Shared MtxStrat_Locked \<and>
      get (snd (foldl detector_tick s ts)) = newCountAndTimePair"
    if "datum_class (snd s) = Shared MtxStrat_Locked \<and> get (snd s) = newCountAndTimePair" for s
    by (rule foldl_invariant [where P = "\<lambda>s. datum_class (snd s) = Shared MtxStrat_Locked \<and> get (snd s) = newCountAndTimePair"])
      (use that in \<open>auto simp: detector_tick_def check_detector_def incrementSpaceTime_def incrementVehicleCount_def Let_def
        flip_def set_value_def force_def get_def split: prod.splits option.splits if_splits\<close>)
  then show ?thesis by (simp add: newShared_def get_def)
qed

section \<open>The detectors of a signal\<close>

lemma keys_ptr_map_insert [simp]: "fst ` set (ptr_map_insert k v xs) = insert k (fst ` set xs)"
  by (auto simp: ptr_map_insert_def set_insort_key)

lemma ptr_map_insert_std:
  assumes "std_set (map fst xs)"
  shows "std_set (map fst (ptr_map_insert k v xs))"
proof (cases "k \<in> fst ` set xs")
  case False
  then have "distinct (map fst (insort_key fst (k, v) xs))" using assms
    by (induction xs) (auto simp: set_insort_key)
  with False assms show ?thesis by (simp add: ptr_map_insert_def sorted_insort_key)
qed (use assms in \<open>simp add: ptr_map_insert_def\<close>)

lemma keys_ptr_map_update [simp]: "map fst (ptr_map_update k v xs) = map fst xs"
  by (simp add: ptr_map_update_def case_prod_beta comp_def)

text \<open>The lanes of the last segment of a link that are for vehicles.\<close>

definition vehicle_lanes :: "network \<Rightarrow> u32 \<Rightarrow> address set" where
  "vehicle_lanes net l =
     (case link_segments net l of None \<Rightarrow> {}
      | Some roads \<Rightarrow> {a \<in> set (last roads). \<not> pedestrianLane (lane_at net a)})"

definition same_keys :: "(address \<times> count_datum) list \<times> (address \<times> loop_detector) list \<Rightarrow> address set \<Rightarrow> bool" where
  "same_keys s ls \<longleftrightarrow> map fst (fst s) = map fst (snd s) \<and> std_set (map fst (snd s)) \<and> fst ` set (snd s) = ls"

lemma createLoopDetector_keys:
  assumes "createLoopDetector cfg net s a = Inr s1" "same_keys s ls"
  shows "same_keys s1 (ls \<union> {x. x = a \<and> \<not> pedestrianLane (lane_at net x)})"
proof (cases "pedestrianLane (lane_at net a)")
  case True
  then have e: "ls \<union> {x. x = a \<and> \<not> pedestrianLane (lane_at net x)} = ls" by auto
  show ?thesis unfolding e using assms True by (simp add: createLoopDetector_def split: prod.splits)
next
  case False
  then obtain d where d: "s1 = (ptr_map_insert a (newShared (mutexStrategy cfg) newCountAndTimePair) (fst s), ptr_map_insert a d (snd s))"
    using assms(1) by (auto simp: createLoopDetector_def result_Inr Let_def split: prod.splits)
  have eq: "map fst (ptr_map_insert a v xs) = map fst (ptr_map_insert a w ys)" if "map fst xs = map fst ys"
    for v w and xs :: "(address \<times> count_datum) list" and ys :: "(address \<times> loop_detector) list"
  proof -
    have "map fst (insort_key fst (a, v) xs) = map fst (insort_key fst (a, w) ys)"
      using that by (induction xs arbitrary: ys) (auto simp: Cons_eq_map_conv)
    moreover have "fst ` set xs = fst ` set ys" using arg_cong [OF that, of set] by simp
    ultimately show ?thesis using that by (simp add: ptr_map_insert_def)
  qed
  show ?thesis
    using assms(2) False ptr_map_insert_std [of "snd s" a d] eq unfolding same_keys_def d by auto
qed

lemma createLoopDetector_lanes:
  "run_list (createLoopDetector cfg net) s lanes = Inr s1 \<Longrightarrow> same_keys s ls \<Longrightarrow>
     same_keys s1 (ls \<union> {a \<in> set lanes. \<not> pedestrianLane (lane_at net a)})"
proof (induction lanes arbitrary: s ls)
  case (Cons a lanes)
  from Cons.prems(1) obtain s2 where s2: "createLoopDetector cfg net s a = Inr s2"
    "run_list (createLoopDetector cfg net) s2 lanes = Inr s1" by (auto split: sum.splits)
  have "same_keys s1 ((ls \<union> {x. x = a \<and> \<not> pedestrianLane (lane_at net x)}) \<union>
      {b \<in> set lanes. \<not> pedestrianLane (lane_at net b)})"
    by (rule Cons.IH [OF s2(2) createLoopDetector_keys [OF s2(1) Cons.prems(2)]])
  also have "(ls \<union> {x. x = a \<and> \<not> pedestrianLane (lane_at net x)}) \<union> {b \<in> set lanes. \<not> pedestrianLane (lane_at net b)} =
      ls \<union> {b \<in> set (a # lanes). \<not> pedestrianLane (lane_at net b)}" by auto
  finally show ?case .
qed simp

lemma createLinkDetectors_lanes:
  assumes "createLinkDetectors cfg net s l = Inr s1" "same_keys s ls"
  shows "same_keys s1 (ls \<union> vehicle_lanes net l) \<and> vehicle_lanes net l \<noteq> {}"
  using assms createLoopDetector_lanes
  by (fastforce simp: createLinkDetectors_def createSegmentDetectors_def result_Inr vehicle_lanes_def Let_def)

lemma createLinks_lanes:
  "run_list (createLinkDetectors cfg net) s links = Inr s1 \<Longrightarrow> same_keys s ls \<Longrightarrow>
     same_keys s1 (ls \<union> (\<Union>l \<in> set links. vehicle_lanes net l))"
proof (induction links arbitrary: s ls)
  case (Cons l links)
  from Cons.prems(1) obtain s2 where s2: "createLinkDetectors cfg net s l = Inr s2"
    "run_list (createLinkDetectors cfg net) s2 links = Inr s1" by (auto split: sum.splits)
  show ?case
    using Cons.IH [OF s2(2), of "ls \<union> vehicle_lanes net l"] createLinkDetectors_lanes [OF s2(1) Cons.prems(2)]
    by (simp add: Un_assoc)
qed simp

text \<open>An entity with as many counts as detectors, for the same lanes.\<close>

definition detectors_ok :: "loop_detector_entity \<Rightarrow> address set \<Rightarrow> bool" where
  "detectors_ok e ls \<longleftrightarrow> (\<exists>p. pimpl e = Some p \<and> same_keys (sensor_data e, loopDetectors p) ls)"

lemma lookup: "(\<exists>x. map_of xs a = Some x) \<longleftrightarrow> a \<in> fst ` set xs"
  by (metis map_of_eq_None_iff not_None_eq)

lemma createLoopDetectors_ok:
  assumes "createLoopDetectors cfg net newLoopDetectorEntity incoming = Inr e"
  shows "detectors_ok e (\<Union>l \<in> set (concat incoming). vehicle_lanes net l)"
proof -
  obtain counts dets where r: "run_list (createLinkDetectors cfg net) ([], []) (concat incoming) = Inr (counts, dets)"
    and e: "e = \<lparr>sensor_data = counts, pimpl = Some \<lparr>loopDetectors = dets, monitorArea = computeMonitorArea dets\<rparr>\<rparr>"
    using assms by (auto simp: createLoopDetectors_def newLoopDetectorEntity_def result_Inr)
  have "same_keys (counts, dets) ({} \<union> (\<Union>l \<in> set (concat incoming). vehicle_lanes net l))"
    by (rule createLinks_lanes [OF r]) (simp add: same_keys_def)
  then show ?thesis by (simp add: detectors_ok_def e)
qed

lemma getCountAndTimePair_known:
  assumes "detectors_ok e ls"
  shows "(\<exists>c. getCountAndTimePair e a = Inr c) \<longleftrightarrow> a \<in> ls"
proof -
  obtain p where "pimpl e = Some p" "same_keys (sensor_data e, loopDetectors p) ls"
    using assms unfolding detectors_ok_def by blast
  then have "fst ` set (sensor_data e) = ls" unfolding same_keys_def by (metis fst_conv snd_conv set_map)
  then show ?thesis using lookup [of "sensor_data e" a] by (simp add: getCountAndTimePair_def result_Inr)
qed

text \<open>When the detectors of a signal have been created, exactly the vehicle lanes of the last segments of the incoming
  links have one, each with its counts.\<close>

theorem createLoopDetectors_covers:
  assumes "createLoopDetectors cfg net newLoopDetectorEntity incoming = Inr e"
  shows "detectors_ok e (\<Union>l \<in> set (concat incoming). vehicle_lanes net l) \<and>
     (\<forall>a. (\<exists>c. getCountAndTimePair e a = Inr c) \<longleftrightarrow> (\<exists>l \<in> set (concat incoming). a \<in> vehicle_lanes net l))"
  using createLoopDetectors_ok [OF assms] getCountAndTimePair_known by auto

definition net1 :: network where
  "net1 = \<lparr>link_segments = [7 \<mapsto> [[5], [1, 2]]],
     lane_at = (\<lambda>a. if a = 2 then lane1\<lparr>pedestrianLane := True\<rparr> else lane1)\<rparr>"

definition cfg1 :: detector_config where
  "cfg1 = \<lparr>rounding = (\<lambda>x. x), personTimeStep = 100, mutexStrategy = MtxStrat_Buffered\<rparr>"

lemma create1: "\<exists>e. createLoopDetectors cfg1 net1 newLoopDetectorEntity [[7]] = Inr e"
  by (simp add: createLoopDetectors_def createLinkDetectors_def createSegmentDetectors_def createLoopDetector_def
      newLoopDetectorEntity_def newLoopDetector_def net1_def cfg1_def lane1_def Let_def)

lemma vehicle_lanes1: "vehicle_lanes net1 7 = {1}"
  by (auto simp: vehicle_lanes_def net1_def lane1_def split: if_splits)

lemma createLoopDetectors_covers_witness:
  "\<exists>e. createLoopDetectors cfg1 net1 newLoopDetectorEntity [[7]] = Inr e \<and>
     (\<exists>c. getCountAndTimePair e 1 = Inr c) \<and> (\<nexists>c. getCountAndTimePair e 5 = Inr c)"
proof -
  obtain e where e: "createLoopDetectors cfg1 net1 newLoopDetectorEntity [[7]] = Inr e" using create1 by blast
  have "(\<exists>c. getCountAndTimePair e a = Inr c) \<longleftrightarrow> a = 1" for a
    using createLoopDetectors_covers [OF e] by (simp add: vehicle_lanes1)
  from this [of 1] this [of 5] e show ?thesis by auto
qed

lemma check_detector_vehicles:
  assumes "check_detector over s vs = (s1, vs1, new, hit)" "distinct vs"
  shows "distinct vs1" "set vs1 \<subseteq> set vs" "set new \<subseteq> set vs - set vs1" "distinct new"
proof -
  have f: "v \<in> set vs" if "scan over cs vs = (Some v, cs1)" for cs v cs1
    using that by (induction over cs vs rule: scan.induct) (auto split: if_splits)
  show "distinct vs1" "set vs1 \<subseteq> set vs" "set new \<subseteq> set vs - set vs1" "distinct new"
    using assms f by (auto simp: check_detector_def split: prod.splits option.splits if_splits)
qed

lemma check_all_keys:
  "check_all r pos dets counts vs = (dets1, counts1, found) \<Longrightarrow>
     map fst dets1 = map fst dets \<and> map fst counts1 = map fst counts \<and> map fst found = map fst dets"
proof (induction dets arbitrary: counts vs dets1 counts1 found)
  case (Cons x dets)
  then show ?case by (cases x) (fastforce split: prod.splits)
qed simp

lemma check_all_vehicles:
  "check_all r pos dets counts vs = (dets1, counts1, found) \<Longrightarrow> distinct vs \<Longrightarrow>
     distinct (concat (map snd found)) \<and> set (concat (map snd found)) \<subseteq> set vs"
proof (induction dets arbitrary: counts vs dets1 counts1 found)
  case (Cons x dets)
  obtain a d where x: "x = (a, d)" by (cases x)
  obtain d1 pair vs1 new hit where c: "check_detector (\<lambda>v. check_vehicle r d (pos v)) (d, the (map_of counts a)) vs = ((d1, pair), vs1, new, hit)"
    by (metis prod.exhaust)
  obtain ds1 c1 f1 where rest: "check_all r pos dets (ptr_map_update a pair counts) vs1 = (ds1, c1, f1)"
    by (metis prod.exhaust)
  note cd = check_detector_vehicles [OF c Cons.prems(2)]
  have found: "found = (a, new) # f1" using Cons.prems(1) by (simp add: x c rest)
  from Cons.IH [OF rest cd(1)] show ?case using cd unfolding found by auto
qed simp

lemma vehicles_of_distinct: "distinct (vehicles_of dets agents)"
  unfolding vehicles_of_def
  by (rule foldl_invariant [where P = distinct]) (auto split: option.splits)

text \<open>A tick keeps the detectors and their counts together, and a vehicle is counted by one detector at most.\<close>

theorem detectors_tick_sound:
  assumes "detectors_ok e ls" "\<And>vs. distinct vs \<Longrightarrow> distinct (order vs) \<and> set (order vs) = set vs"
    "detectors_tick cfg pos order agents e = (e1, found, continue)"
  shows "detectors_ok e1 ls \<and> detectors_ok (flip_sensor e1) ls \<and> detectors_ok (reset_all e1) ls \<and> continue \<and>
     distinct (concat (map snd found)) \<and>
     (\<forall>v \<in> set (concat (map snd found)). \<exists>a \<in> set agents. is_person a \<and> agent_vehicle a = Some v \<and> (\<exists>l \<in> ls. driver_lane a = Some l))"
proof -
  obtain p where p: "pimpl e = Some p" "same_keys (sensor_data e, loopDetectors p) ls"
    using assms(1) by (auto simp: detectors_ok_def)
  let ?vs = "order (vehicles_of (loopDetectors p) agents)"
  obtain dets counts f where c: "check_all (rounding cfg) pos (loopDetectors p) (sensor_data e) ?vs = (dets, counts, f)"
    by (metis prod.exhaust)
  have e1: "e1 = e\<lparr>sensor_data := counts, pimpl := Some (p\<lparr>loopDetectors := dets\<rparr>)\<rparr>" "found = f" "continue"
    using assms(3) by (auto simp: detectors_tick_def p(1) c)
  have v: "distinct ?vs" "set ?vs = set (vehicles_of (loopDetectors p) agents)"
    using assms(2) vehicles_of_distinct by blast+
  have sk: "same_keys (counts, dets) ls"
    using check_all_keys [OF c] p(2) unfolding same_keys_def fst_conv snd_conv by (metis set_map)
  have from_agents: "\<exists>a \<in> set agents. is_person a \<and> agent_vehicle a = Some v \<and> (\<exists>l \<in> ls. driver_lane a = Some l)"
    if "v \<in> set (vehicles_of (loopDetectors p) agents)" for v
  proof -
    have "\<forall>v \<in> set (vehicles_of (loopDetectors p) agents).
        \<exists>a \<in> set agents. is_person a \<and> agent_vehicle a = Some v \<and> (\<exists>l \<in> ls. driver_lane a = Some l)"
      unfolding vehicles_of_def
      by (rule foldl_invariant [where P = "\<lambda>vs. \<forall>v \<in> set vs. \<exists>a \<in> set agents. is_person a \<and> agent_vehicle a = Some v \<and>
            (\<exists>l \<in> ls. driver_lane a = Some l)"])
        (use p(2) in \<open>auto simp: same_keys_def split: option.splits\<close>)
    with that show ?thesis by blast
  qed
  have "detectors_ok e1 ls" using sk by (simp add: detectors_ok_def e1(1))
  moreover have "detectors_ok (flip_sensor e1) ls"
    using sk by (simp add: detectors_ok_def e1(1) flip_sensor_def same_keys_def case_prod_beta comp_def)
  moreover have "detectors_ok (reset_all e1) ls"
    using sk by (simp add: detectors_ok_def e1(1) reset_all_def same_keys_def case_prod_beta comp_def image_image)
  ultimately show ?thesis
    using check_all_vehicles [OF c v(1)] v(2) e1(2,3) from_agents by auto
qed

lemma detectors_tick_sound_witness:
  "\<exists>e. createLoopDetectors cfg1 net1 newLoopDetectorEntity [[7]] = Inr e \<and>
     distinct (concat (map snd (fst (snd (detectors_tick cfg1 (\<lambda>_. (48, 0)) (\<lambda>vs. vs)
       [\<lparr>is_person = True, driver_lane = Some 1, agent_vehicle = Some 3\<rparr>] e)))))"
proof -
  obtain e where e: "createLoopDetectors cfg1 net1 newLoopDetectorEntity [[7]] = Inr e" using create1 by blast
  obtain e1 found cont where t: "detectors_tick cfg1 (\<lambda>_. (48, 0)) (\<lambda>vs. vs)
      [\<lparr>is_person = True, driver_lane = Some 1, agent_vehicle = Some 3\<rparr>] e = (e1, found, cont)" by (metis prod.exhaust)
  have "distinct (concat (map snd found))" using detectors_tick_sound [OF createLoopDetectors_ok [OF e] _ t] by simp
  then show ?thesis by (intro exI [of _ e] conjI e) (simp only: t fst_conv snd_conv)
qed

end
