(* ===== verification/Scats_Signals.thy ===== *)
theory Scats_Signals
  imports Loop_Detectors
begin

text \<open>
  The adaptive traffic signal: \<open>short/entities/signal/Signal.cpp\<close>, on the parts in \<open>Signal_Plans\<close> and the
  detectors in \<open>Loop_Detectors\<close>. The sensor of a signal is a separate agent; the operations that read or
  reset it take it as an argument and return it. Printing is modelled by the data printed, the counts of
  vehicles by the lines of their log.
\<close>

section \<open>The state\<close>

text \<open>A node: the signal it belongs to (0 for none) and its turning groups, by incoming and outgoing link,
  with the string of their phases.\<close>

record node =
  node_light :: u32
  turning_groups :: "(u32 \<times> (u32 \<times> string) list) list"

record count_line =
  line_time :: u32
  line_signal :: u32
  line_lane :: address
  line_count :: u32

record vehicle_counter =
  frequency :: u32
  counter :: "(address \<times> u32) list"
  curTimeSlice :: timeslice
  count_log :: "count_line list"

record scats =
  trafficLightId :: u32
  nodes :: "node list"
  phases :: "phase list"
  updateInterval :: real
  splitPlan :: split_plan
  currPhaseAtGreen :: nat
  currCycleTimer :: real
  phaseDensity :: "real list"
  isNewCycle :: bool
  curVehicleCounter :: vehicle_counter

record scats_config =
  sc_round :: rounding
  granSignalsTicks :: u32
  baseGranMS :: u32
  countsEnabled :: bool
  countsFrequency :: u32

definition newCounter :: "scats_config \<Rightarrow> vehicle_counter" where
  "newCounter cfg = \<lparr>frequency = countsFrequency cfg, counter = [], curTimeSlice = \<lparr>frame = 0, ms = 0\<rparr>, count_log = []\<rparr>"

text \<open>The interval is computed with \<open>unsigned int\<close>s and then converted.\<close>

definition newSignal :: "scats_config \<Rightarrow> node \<Rightarrow> scats" where
  "newSignal cfg n =
     \<lparr>trafficLightId = node_light n, nodes = [n], phases = [],
      updateInterval = of_nat (unat (granSignalsTicks cfg * baseGranMS cfg div 1000)),
      splitPlan = newSplitPlan, currPhaseAtGreen = 0, currCycleTimer = 0, phaseDensity = [], isNewCycle = False,
      curVehicleCounter = newCounter cfg\<rparr>"

definition setTrafficLightId :: "scats \<Rightarrow> u32 \<Rightarrow> scats" where
  "setTrafficLightId s i = s\<lparr>trafficLightId := 0\<rparr>"

definition addNode :: "scats \<Rightarrow> node \<Rightarrow> scats" where
  "addNode s n = s\<lparr>nodes := nodes s @ [n]\<rparr>"

section \<open>Vehicle counts\<close>

definition initialise_counter :: "loop_detector_entity \<Rightarrow> vehicle_counter \<Rightarrow> vehicle_counter" where
  "initialise_counter e v =
     v\<lparr>counter := foldl (\<lambda>m (a, _). ptr_map_update a 0 (ptr_map_insert a 0 m)) (counter v) (sensor_data e)\<rparr>"

definition resetCounter :: "vehicle_counter \<Rightarrow> vehicle_counter" where
  "resetCounter v = v\<lparr>counter := map (\<lambda>(a, _). (a, 0)) (counter v)\<rparr>"

definition serialize :: "scats_config \<Rightarrow> u32 \<Rightarrow> u32 \<Rightarrow> vehicle_counter \<Rightarrow> vehicle_counter" where
  "serialize cfg light time v =
     (if countsEnabled cfg \<and> light \<noteq> 0
      then v\<lparr>count_log := count_log v @
             map (\<lambda>(a, n). \<lparr>line_time = time, line_signal = light, line_lane = a, line_count = n\<rparr>) (counter v)\<rparr>
      else v)"

text \<open>The count of a pair is a \<open>size_t\<close>, the sum is stored in an \<open>int\<close>.\<close>

fun update_counts :: "loop_detector_entity \<Rightarrow> (address \<times> u32) list \<Rightarrow> (signal_error, (address \<times> u32) list) result" where
  "update_counts e [] = Inr []"
| "update_counts e ((a, n) # xs) =
     (case getCountAndTimePair e a of Inl _ \<Rightarrow> Inl UnknownLane
      | Inr ct \<Rightarrow> rbind (update_counts e xs) (\<lambda>ys. Inr ((a, n + ucast (vehicleCount ct)) # ys)))"

definition update_counter :: "loop_detector_entity \<Rightarrow> vehicle_counter \<Rightarrow> (signal_error, vehicle_counter) result" where
  "update_counter e v = rbind (update_counts e (counter v)) (\<lambda>c. Inr (v\<lparr>counter := c\<rparr>))"

text \<open>A frequency of 0 is refused by the parser of the configuration.\<close>

definition aggregateCounts ::
  "scats_config \<Rightarrow> u32 \<Rightarrow> timeslice \<Rightarrow> loop_detector_entity \<Rightarrow> vehicle_counter \<Rightarrow> (signal_error, vehicle_counter) result" where
  "aggregateCounts cfg light currTime e v =
     (let v1 = v\<lparr>curTimeSlice := currTime\<rparr>; time = ms currTime
      in if time \<noteq> 0 \<and> time mod frequency v1 = 0
         then rbind (update_counter e v1) (\<lambda>v2. Inr (resetCounter (serialize cfg light time v2)))
         else Inr v1)"

text \<open>The destructor writes what is left.\<close>

definition destroy_counter :: "scats_config \<Rightarrow> u32 \<Rightarrow> vehicle_counter \<Rightarrow> vehicle_counter" where
  "destroy_counter cfg light v = serialize cfg light (ms (curTimeSlice v)) v"

section \<open>Creating the phases\<close>

definition is_digit :: "char \<Rightarrow> bool" where
  "is_digit c \<longleftrightarrow> 48 \<le> (of_char c :: nat) \<and> (of_char c :: nat) \<le> 57"

text \<open>The names in the string of a turning group: a character, with the digit that follows it if one does.\<close>

fun phase_names :: "string \<Rightarrow> string list" where
  "phase_names [] = []"
| "phase_names [c] = [[c]]"
| "phase_names (c # d # cs) = (if is_digit d then [c, d] # phase_names cs else [c] # phase_names (d # cs))"

fun add_to_phase :: "string \<Rightarrow> u32 \<Rightarrow> link_light \<Rightarrow> phase list \<Rightarrow> phase list" where
  "add_to_phase name from l [] = [addLinkMapping (newPhase name) from l]"
| "add_to_phase name from l (p # ps) =
     (if phaseName p = name then addLinkMapping p from l # ps else p # add_to_phase name from l ps)"

definition group_phases :: "u32 \<Rightarrow> phase list \<Rightarrow> u32 \<times> string \<Rightarrow> phase list" where
  "group_phases from ps g =
     foldl (\<lambda>ps name. add_to_phase name from (newToLink (fst g)) ps) ps (phase_names (snd g))"

definition createPhases :: "scats \<Rightarrow> scats" where
  "createPhases s =
     s\<lparr>phases := foldl (\<lambda>ps n. foldl (\<lambda>ps (from, gs). foldl (group_phases from) ps gs) ps (turning_groups n)) (phases s) (nodes s)\<rparr>"

definition createPlans :: "scats \<Rightarrow> scats" where
  "createPlans s =
     (let s1 = createPhases s
      in if phases s1 \<noteq> [] then s1\<lparr>splitPlan := setDefaultSplitPlan (length (phases s1)) (splitPlan s1)\<rparr> else s1)"

text \<open>The first loop gives every phase its percentage and its offset in the cycle.\<close>

fun place_phases :: "rounding \<Rightarrow> real \<Rightarrow> real \<Rightarrow> phase list \<Rightarrow> real list \<Rightarrow> phase list" where
  "place_phases r len percentageSum (p # ps) (c # cs) =
     p\<lparr>percentage := c, phaseOffset := r (r (percentageSum * len) / 100)\<rparr> # place_phases r len (r (percentageSum + c)) ps cs"
| "place_phases r len percentageSum ps cs = []"

definition initialisePhases :: "rounding \<Rightarrow> scats \<Rightarrow> (signal_error, scats) result" where
  "initialisePhases r s =
     rbind (getCurrSplitPlan (splitPlan s)) (\<lambda>choice.
       guard PhaseMismatch (length choice = length (phases s))
         (let len = cycleLength (splitPlan s)
          in Inr (s\<lparr>phases := map (initialize_phase r len) (place_phases r len 0 (phases s) choice)\<rparr>)))"

definition initialise :: "rounding \<Rightarrow> loop_detector_entity \<Rightarrow> scats \<Rightarrow> (signal_error, scats) result" where
  "initialise r e s =
     (let s1 = s\<lparr>curVehicleCounter := initialise_counter e (curVehicleCounter s)\<rparr>; s2 = createPlans s1
      in rbind (initialisePhases r s2) (\<lambda>s3.
           Inr (s3\<lparr>phaseDensity := take (length (phases s3)) (phaseDensity s3) @
             replicate (length (phases s3) - length (phaseDensity s3)) 0\<rparr>)))"

text \<open>The first frame, with the phases it prints. A signal without phases has no split plan: it marks
  itself with the id 0 and throws.\<close>

definition frame_init ::
  "rounding \<Rightarrow> loop_detector_entity \<Rightarrow> scats \<Rightarrow> (signal_error \<times> scats, scats \<times> (string \<times> (u32 \<times> u32) list) list) result" where
  "frame_init r e s =
     (case initialise r e s of
        Inl err \<Rightarrow>
          (let s1 = createPlans (s\<lparr>curVehicleCounter := initialise_counter e (curVehicleCounter s)\<rparr>)
           in Inl (err, if err = EmptyChoiceSet then setTrafficLightId s1 (trafficLightId s1) else s1))
      | Inr s1 \<Rightarrow> Inr (s1, map (\<lambda>p. (phaseName p, map (\<lambda>(from, l). (from, toLink l)) (linksMap p)))
                           (filter (\<lambda>p. linksMap p \<noteq> []) (phases s1))))"

section \<open>A tick\<close>

definition fmod :: "real \<Rightarrow> real \<Rightarrow> real" where
  "fmod x y = x - y * of_int (to_int (x / y))"

definition updateCurrCycleTimer :: "rounding \<Rightarrow> scats \<Rightarrow> scats \<times> bool" where
  "updateCurrCycleTimer r s =
     (let t = r (currCycleTimer s + updateInterval s); len = cycleLength (splitPlan s)
      in (s\<lparr>currCycleTimer := fmod t len\<rparr>, t \<ge> len))"

text \<open>The loop over the phases: \<open>n\<close> phases are left. Reading past the end of the plan is an error.\<close>

fun find_phase :: "rounding \<Rightarrow> real \<Rightarrow> real \<Rightarrow> real \<Rightarrow> nat \<Rightarrow> nat \<Rightarrow> real list \<Rightarrow> (signal_error, nat) result" where
  "find_phase r len t acc k 0 plan = Inl PhaseOutOfRange"
| "find_phase r len t acc k (Suc n) [] = Inl PhaseMismatch"
| "find_phase r len t acc k (Suc n) (p # ps) =
     (let acc1 = r (acc + r (r (len * p) / 100)) in if acc1 > t then Inr k else find_phase r len t acc1 (Suc k) n ps)"

definition computeCurrPhase :: "rounding \<Rightarrow> scats \<Rightarrow> real \<Rightarrow> (signal_error, nat) result" where
  "computeCurrPhase r s t =
     rbind (getCurrSplitPlan (splitPlan s)) (\<lambda>plan.
       find_phase r (cycleLength (splitPlan s)) t 0 0 (length (phases s)) plan)"

definition computeLaneDS :: "rounding \<Rightarrow> count_and_time \<Rightarrow> real \<Rightarrow> real" where
  "computeLaneDS r ct totalGreen =
     (let n = of_nat (unat (vehicleCount ct)); spaceTime = of_nat (unat (spaceTimeInMilliSeconds ct));
          stdSpaceTime = r (r (104 / 100) * 1000);
          usedGreen = (if vehicleCount ct = 0 then 0 else r (totalGreen - r (spaceTime - r (stdSpaceTime * r n))))
      in r (usedGreen / totalGreen))"

text \<open>The two nested loops of \<open>computePhaseDS\<close>: the lanes of the last segment, and the links of the phase.\<close>

fun lanes_DS :: "rounding \<Rightarrow> network \<Rightarrow> loop_detector_entity \<Rightarrow> real \<Rightarrow> address list \<Rightarrow> real \<Rightarrow> (signal_error, real) result" where
  "lanes_DS r net e totalGreen [] m = Inr m"
| "lanes_DS r net e totalGreen (a # as) m =
     (if pedestrianLane (lane_at net a) then lanes_DS r net e totalGreen as m
      else (case getCountAndTimePair e a of Inl _ \<Rightarrow> Inl UnknownLane
        | Inr ct \<Rightarrow>
            (let lane_DS = computeLaneDS r ct totalGreen
             in lanes_DS r net e totalGreen as (if lane_DS > m then lane_DS else m))))"

definition last_segment :: "network \<Rightarrow> u32 \<Rightarrow> (signal_error, address list) result" where
  "last_segment net l =
     rbind (deref UnknownLink (link_segments net l)) (\<lambda>roads. guard UnknownLink (roads \<noteq> []) (Inr (last roads)))"

fun links_DS ::
  "rounding \<Rightarrow> network \<Rightarrow> loop_detector_entity \<Rightarrow> real \<Rightarrow> (u32 \<times> link_light) list \<Rightarrow> real \<Rightarrow> (signal_error, real) result" where
  "links_DS r net e totalGreen [] m = Inr m"
| "links_DS r net e totalGreen ((l, _) # ls) m =
     rbind (last_segment net l) (\<lambda>lanes.
       rbind (lanes_DS r net e totalGreen lanes m) (\<lambda>m1. links_DS r net e totalGreen ls m1))"

definition computePhaseDS ::
  "rounding \<Rightarrow> network \<Rightarrow> nat \<Rightarrow> scats \<times> loop_detector_entity \<Rightarrow> (signal_error, scats \<times> loop_detector_entity) result" where
  "computePhaseDS r net phaseId se =
     (case se of (s, e) \<Rightarrow>
        guard NoPhase (phaseId < length (phases s) \<and> phaseId < length (phaseDensity s))
          (let p = phases s ! phaseId
           in rbind (links_DS r net e (computeTotalGreenTime p) (linksMap p) 0) (\<lambda>maxPhaseDS.
                rbind (update_counter e (curVehicleCounter s)) (\<lambda>v.
                  Inr (s\<lparr>phaseDensity := (phaseDensity s)[phaseId := maxPhaseDS], curVehicleCounter := v\<rparr>, reset_all e)))))"

definition resetCycle :: "scats \<Rightarrow> scats" where
  "resetCycle s = s\<lparr>phaseDensity := map (\<lambda>_. 0) (phaseDensity s)\<rparr>"

definition updateNewCycle :: "rounding \<Rightarrow> scats \<times> loop_detector_entity \<Rightarrow> scats \<times> loop_detector_entity" where
  "updateNewCycle r se =
     (case se of (s, e) \<Rightarrow>
        ((resetCycle (s\<lparr>splitPlan := update_plan r (length (phases s)) (phaseDensity s) (splitPlan s)\<rparr>))\<lparr>isNewCycle := False\<rparr>,
         reset_all e))"

text \<open>The tick in two halves: up to the colours of the current phase, with the index of the phase, and what
  follows when the phase or the cycle has changed.\<close>

definition tick_start :: "scats_config \<Rightarrow> timeslice \<Rightarrow> scats \<times> loop_detector_entity \<Rightarrow> (signal_error, scats \<times> nat) result" where
  "tick_start cfg now se =
     (case se of (s, e) \<Rightarrow>
        rbind (if countsEnabled cfg then aggregateCounts cfg (trafficLightId s) now e (curVehicleCounter s)
               else Inr (curVehicleCounter s)) (\<lambda>v.
        let (s1, new) = updateCurrCycleTimer (sc_round cfg) (s\<lparr>curVehicleCounter := v\<rparr>); s2 = s1\<lparr>isNewCycle := new\<rparr>
        in rbind (computeCurrPhase (sc_round cfg) s2 (currCycleTimer s2)) (\<lambda>phaseId.
           guard PhaseOutOfRange (phaseId < length (phases s2))
           (rbind (update_phase (sc_round cfg) (currCycleTimer s2) (phases s2 ! phaseId)) (\<lambda>p.
            Inr (s2\<lparr>phases := (phases s2)[phaseId := p]\<rparr>, phaseId))))))"

definition tick_end ::
  "scats_config \<Rightarrow> network \<Rightarrow> loop_detector_entity \<Rightarrow> scats \<times> nat \<Rightarrow> (signal_error, scats \<times> loop_detector_entity) result" where
  "tick_end cfg net e sp =
     (case sp of (s3, phaseId) \<Rightarrow>
        rbind (if currPhaseAtGreen s3 \<noteq> phaseId
               then rbind (computePhaseDS (sc_round cfg) net (currPhaseAtGreen s3) (s3, e))
                      (\<lambda>(s4, e1). Inr (s4\<lparr>currPhaseAtGreen := phaseId\<rparr>, e1))
               else Inr (s3, e)) (\<lambda>(s4, e1).
          if isNewCycle s4
          then (case updateNewCycle (sc_round cfg) (s4, e1) of (s5, e2) \<Rightarrow>
                  rbind (initialisePhases (sc_round cfg) s5) (\<lambda>s6. Inr (s6, e2)))
          else Inr (s4, e1)))"

definition frame_tick ::
  "scats_config \<Rightarrow> network \<Rightarrow> timeslice \<Rightarrow> scats \<times> loop_detector_entity \<Rightarrow>
     (signal_error, scats \<times> loop_detector_entity) result" where
  "frame_tick cfg net now se = rbind (tick_start cfg now se) (tick_end cfg net (snd se))"

definition getDriverLight :: "scats \<Rightarrow> u32 \<Rightarrow> u32 \<Rightarrow> traffic_color" where
  "getDriverLight s from to =
     (if phases s = [] then TRAFFIC_COLOUR_GREEN
      else (case find (\<lambda>l. toLink l = to) (getLinkTos (phases s ! currPhaseAtGreen s) from) of
              None \<Rightarrow> TRAFFIC_COLOUR_RED | Some l \<Rightarrow> currColor l))"

text \<open>What a frame prints: the signal, the frame and the name of the current phase.\<close>

definition frame_output :: "timeslice \<Rightarrow> scats \<Rightarrow> u32 \<times> u32 \<times> string option" where
  "frame_output now s =
     (trafficLightId s, frame now, if phases s \<noteq> [] then Some (phaseName (phases s ! currPhaseAtGreen s)) else None)"

section \<open>The signals of the network\<close>

text \<open>\<open>mapOfIdVsSignals\<close> in the order of the ids; the nodes in the order of theirs.\<close>

fun insert_signal :: "u32 \<Rightarrow> scats \<Rightarrow> (u32 \<times> scats) list \<Rightarrow> (u32 \<times> scats) list" where
  "insert_signal k s [] = [(k, s)]"
| "insert_signal k s ((k1, s1) # xs) = (if k < k1 then (k, s) # (k1, s1) # xs else (k1, s1) # insert_signal k s xs)"

definition node_signal :: "scats_config \<Rightarrow> (u32 \<times> scats) list \<Rightarrow> node \<Rightarrow> (u32 \<times> scats) list" where
  "node_signal cfg m n =
     (let k = node_light n
      in if k = 0 then m
         else (case map_of m k of
                 None \<Rightarrow> insert_signal k (newSignal cfg n) m
               | Some _ \<Rightarrow> map (\<lambda>(k1, s). (k1, if k1 = k then addNode s n else s)) m))"

definition createTrafficSignals :: "scats_config \<Rightarrow> node list \<Rightarrow> (u32 \<times> scats) list" where
  "createTrafficSignals cfg ns = foldl (node_signal cfg) [] ns"

definition getSignal :: "(u32 \<times> scats) list \<Rightarrow> u32 \<Rightarrow> scats option" where
  "getSignal m k = map_of m k"

section \<open>The names of the phases\<close>

definition phase_name :: "string \<Rightarrow> bool" where
  "phase_name n \<longleftrightarrow> (\<exists>c. \<not> is_digit c \<and> (n = [c] \<or> (\<exists>d. is_digit d \<and> n = [c, d])))"

lemma phase_names_first:
  "\<not> is_digit c \<Longrightarrow> (\<forall>n \<in> set ns. phase_name n) \<Longrightarrow> phase_names (c # concat ns) = [c] # phase_names (concat ns)"
  by (cases ns) (auto simp: phase_name_def)

text \<open>The string of a turning group is cut into the names it was made of, a letter each with at most one digit; no
  character of any string is lost.\<close>

theorem phase_names_roundtrip:
  assumes "\<forall>n \<in> set ns. phase_name n"
  shows "phase_names (concat ns) = ns \<and> concat (phase_names s) = s"
proof
  show "phase_names (concat ns) = ns" using assms
  proof (induction ns)
    case (Cons n ns)
    then show ?case using phase_names_first by (auto simp: phase_name_def)
  qed simp
  show "concat (phase_names s) = s" by (induction s rule: phase_names.induct) auto
qed

lemma phase_names_roundtrip_witness: "phase_names ''AB1C'' = [''A'', ''B1'', ''C'']"
  using phase_names_roundtrip [of "[''A'', ''B1'', ''C'']"] by (simp add: phase_name_def is_digit_def)

section \<open>The phases of the turning groups\<close>

text \<open>The movements of the phases: the name of the phase, the incoming link and its light.\<close>

definition movements :: "phase list \<Rightarrow> (string \<times> u32 \<times> link_light) set" where
  "movements ps = {(name, from, l). \<exists>p \<in> set ps. phaseName p = name \<and> (from, l) \<in> set (linksMap p)}"

definition group_movements :: "node \<Rightarrow> (string \<times> u32 \<times> link_light) set" where
  "group_movements n =
     {(name, from, newToLink to) | name from to gs str.
        (from, gs) \<in> set (turning_groups n) \<and> (to, str) \<in> set gs \<and> name \<in> set (phase_names str)}"

lemma newToLink_link [simp]: "toLink (newToLink l) = l" "newToLink a = newToLink b \<longleftrightarrow> a = b"
  by (simp_all add: newToLink_def)

lemma in_group_movements:
  "(name, from, l) \<in> group_movements n \<longleftrightarrow>
     (\<exists>to gs str. l = newToLink to \<and> (from, gs) \<in> set (turning_groups n) \<and> (to, str) \<in> set gs \<and> name \<in> set (phase_names str))"
  by (auto simp: group_movements_def)

lemma set_takeWhile_dropWhile: "set (takeWhile P xs) \<union> set (dropWhile P xs) = set xs"
  by (metis set_append takeWhile_dropWhile_id)

lemma addLinkMapping_links [simp]:
  "set (linksMap (addLinkMapping p from l)) = insert (from, l) (set (linksMap p))" "phaseName (addLinkMapping p from l) = phaseName p"
  using set_takeWhile_dropWhile [of "\<lambda>(k, _). k \<le> from" "linksMap p"] by (auto simp: addLinkMapping_def)

lemma add_to_phase_names:
  "map phaseName (add_to_phase name from l ps) =
     (if name \<in> phaseName ` set ps then map phaseName ps else map phaseName ps @ [name])"
  by (induction ps) (auto simp: newPhase_def)

lemma movements_Nil [simp]: "movements [] = {}"
  by (simp add: movements_def)

lemma movements_Cons: "movements (p # ps) = {(phaseName p, from, l) | from l. (from, l) \<in> set (linksMap p)} \<union> movements ps"
  by (auto simp: movements_def)

lemma add_to_phase_movements:
  "distinct (map phaseName ps) \<Longrightarrow> movements (add_to_phase name from l ps) = insert (name, from, l) (movements ps)"
  by (induction ps) (auto simp: movements_Cons newPhase_def)

lemma fold_movements:
  assumes "\<And>ps x. x \<in> set xs \<Longrightarrow> distinct (map phaseName ps) \<Longrightarrow> distinct (map phaseName (f ps x)) \<and> movements (f ps x) = movements ps \<union> g x"
    "distinct (map phaseName ps)"
  shows "distinct (map phaseName (foldl f ps xs)) \<and> movements (foldl f ps xs) = movements ps \<union> (\<Union>x \<in> set xs. g x)"
  using assms
proof (induction xs arbitrary: ps)
  case (Cons x xs)
  have x: "distinct (map phaseName (f ps x)) \<and> movements (f ps x) = movements ps \<union> g x" using Cons.prems by simp
  have "distinct (map phaseName (foldl f (f ps x) xs)) \<and> movements (foldl f (f ps x) xs) = movements (f ps x) \<union> (\<Union>x \<in> set xs. g x)"
    using Cons.prems(1) x by (intro Cons.IH) auto
  with x show ?case by auto
qed simp

lemma group_phases_movements:
  assumes "distinct (map phaseName ps)"
  shows "distinct (map phaseName (group_phases from ps g)) \<and>
     movements (group_phases from ps g) = movements ps \<union> (\<Union>name \<in> set (phase_names (snd g)). {(name, from, newToLink (fst g))})"
  unfolding group_phases_def
  by (rule fold_movements [OF _ assms]) (auto simp: add_to_phase_names add_to_phase_movements)

lemma createPhases_movements:
  assumes "distinct (map phaseName (phases s))"
  shows "distinct (map phaseName (phases (createPhases s))) \<and>
     movements (phases (createPhases s)) = movements (phases s) \<union> (\<Union>n \<in> set (nodes s). group_movements n)"
proof -
  let ?in = "\<lambda>(from, gs). \<Union>g \<in> set gs. \<Union>name \<in> set (phase_names (snd g)). {(name, from, newToLink (fst g))}"
  have inner: "distinct (map phaseName (foldl (group_phases from) ps gs)) \<and>
      movements (foldl (group_phases from) ps gs) = movements ps \<union> ?in (from, gs)"
    if "distinct (map phaseName ps)" for ps and "from" :: u32 and gs
    unfolding prod.case by (rule fold_movements [OF group_phases_movements that])
  have node: "distinct (map phaseName (foldl (\<lambda>ps (from, gs). foldl (group_phases from) ps gs) ps xs)) \<and>
      movements (foldl (\<lambda>ps (from, gs). foldl (group_phases from) ps gs) ps xs) = movements ps \<union> (\<Union>x \<in> set xs. ?in x)"
    if "distinct (map phaseName ps)" for ps and xs :: "(u32 \<times> (u32 \<times> string) list) list"
    by (rule fold_movements [OF _ that]) (use inner in \<open>auto simp: case_prod_beta\<close>)
  have "(\<Union>x \<in> set (turning_groups n). ?in x) = group_movements n" for n
    by (fastforce simp: group_movements_def)
  moreover have "distinct (map phaseName (phases (createPhases s))) \<and>
     movements (phases (createPhases s)) = movements (phases s) \<union> (\<Union>n \<in> set (nodes s). \<Union>x \<in> set (turning_groups n). ?in x)"
    unfolding createPhases_def by (simp, rule fold_movements [OF node assms])
  ultimately show ?thesis by simp
qed

text \<open>The phases of a new signal have different names, and a movement from one link to another is in a phase exactly if
  a turning group of one of the nodes, from the one to the other, names the phase.\<close>

theorem createPhases_by_name:
  assumes "phases s = []"
  shows "distinct (map phaseName (phases (createPhases s))) \<and>
     (\<forall>name from to. (\<exists>p \<in> set (phases (createPhases s)). phaseName p = name \<and> (\<exists>l. (from, l) \<in> set (linksMap p) \<and> toLink l = to)) \<longleftrightarrow>
       (\<exists>n \<in> set (nodes s). \<exists>gs str. (from, gs) \<in> set (turning_groups n) \<and> (to, str) \<in> set gs \<and> name \<in> set (phase_names str)))"
proof (intro conjI allI)
  have m: "distinct (map phaseName (phases (createPhases s)))"
    "movements (phases (createPhases s)) = (\<Union>n \<in> set (nodes s). group_movements n)"
    using createPhases_movements [of s] assms by simp_all
  then show "distinct (map phaseName (phases (createPhases s)))" by simp
  fix name "from" "to"
  have "(\<exists>p \<in> set (phases (createPhases s)). phaseName p = name \<and> (\<exists>l. (from, l) \<in> set (linksMap p) \<and> toLink l = to)) \<longleftrightarrow>
      (\<exists>l. (name, from, l) \<in> movements (phases (createPhases s)) \<and> toLink l = to)" by (auto simp: movements_def)
  also have "\<dots> \<longleftrightarrow> (\<exists>n \<in> set (nodes s). \<exists>gs str. (from, gs) \<in> set (turning_groups n) \<and> (to, str) \<in> set gs \<and> name \<in> set (phase_names str))"
    unfolding m(2) UN_iff in_group_movements by (metis newToLink_link(1))
  finally show "(\<exists>p \<in> set (phases (createPhases s)). phaseName p = name \<and> (\<exists>l. (from, l) \<in> set (linksMap p) \<and> toLink l = to)) \<longleftrightarrow>
      (\<exists>n \<in> set (nodes s). \<exists>gs str. (from, gs) \<in> set (turning_groups n) \<and> (to, str) \<in> set gs \<and> name \<in> set (phase_names str))" .
qed

definition node1 :: node where
  "node1 = \<lparr>node_light = 4, turning_groups = [(7, [(8, ''A''), (9, ''AB1'')]), (8, [(7, ''B1'')])]\<rparr>"

definition scfg1 :: scats_config where
  "scfg1 = \<lparr>sc_round = (\<lambda>x. x), granSignalsTicks = 50, baseGranMS = 100, countsEnabled = True, countsFrequency = 600000\<rparr>"

lemma createPhases_by_name_witness:
  "\<exists>p \<in> set (phases (createPhases (newSignal scfg1 node1))).
     phaseName p = ''B1'' \<and> (\<exists>l. (7, l) \<in> set (linksMap p) \<and> toLink l = 9)"
  using createPhases_by_name [of "newSignal scfg1 node1"] by (simp add: newSignal_def node1_def is_digit_def)

section \<open>The default plans\<close>

lemma default_choices_rows:
  assumes "0 < n" "row \<in> set (default_choices n)"
  shows "length row = min n 7" "sum_list row = 100" "\<forall>x \<in> set row. 10 \<le> x"
proof -
  have n: "n = 1 \<or> n = 2 \<or> n = 3 \<or> n = 4 \<or> n = 5 \<or> n = 6 \<or> 7 \<le> n" using assms(1) by linarith
  show "length row = min n 7" "sum_list row = 100" "\<forall>x \<in> set row. 10 \<le> x"
    using n assms(2) by (elim disjE; force)+
qed

lemma default_choices_length: "length (default_choices n) = 5"
  by simp

declare default_choices.simps [simp del]

lemma fill_rows:
  assumes "a \<le> n" "\<forall>row \<in> set table. length row = a" "length table = 5"
  shows "fill table a 5 (replicate 5 (replicate n 0)) = map (\<lambda>row. row @ replicate (n - a) 0) table"
proof (rule nth_equalityI)
  show "length (fill table a 5 (replicate 5 (replicate n 0))) = length (map (\<lambda>row. row @ replicate (n - a) 0) table)"
    using assms(3) by (simp add: fill_def)
next
  fix i assume "i < length (fill table a 5 (replicate 5 (replicate n 0)))"
  then have i: "i < 5" by (simp add: fill_def)
  then have l: "length (table ! i) = a" using assms(2,3) by simp
  show "fill table a 5 (replicate 5 (replicate n 0)) ! i = map (\<lambda>row. row @ replicate (n - a) 0) table ! i"
  proof (rule nth_equalityI)
    fix j assume "j < length (fill table a 5 (replicate 5 (replicate n 0)) ! i)"
    then show "fill table a 5 (replicate 5 (replicate n 0)) ! i ! j = map (\<lambda>row. row @ replicate (n - a) 0) table ! i ! j"
      using i l assms(3) by (simp add: fill_def nth_append)
  qed (use i l assms in \<open>simp add: fill_def\<close>)
qed

lemma setDefaultSplitPlan_rows:
  assumes "0 < n" "choiceSet s = []"
  shows "choiceSet (setDefaultSplitPlan n s) = map (\<lambda>row. row @ replicate (n - 7) 0) (default_choices n)"
proof -
  have a: "(if n \<in> {1..7} then n else 7) = min n 7" using assms(1) by auto
  have m: "n - min n 7 = n - 7" by simp
  have "choiceSet (setDefaultSplitPlan n s) = fill (default_choices n) (min n 7) 5 (replicate 5 (replicate n 0))"
    unfolding setDefaultSplitPlan_def a by (simp add: assms(2))
  also have "\<dots> = map (\<lambda>row. row @ replicate (n - 7) 0) (default_choices n)"
    using fill_rows [of "min n 7" n "default_choices n"] default_choices_rows(1) [OF assms(1)] default_choices_length [of n]
    unfolding m by simp
  finally show ?thesis .
qed

text \<open>A signal with \<open>n\<close> phases gets five plans of \<open>n\<close> percentages that add up to 100. Up to seven phases each phase has at
  least 10 percent; the eighth phase and those after it have none in any plan.\<close>

theorem default_split_plans:
  assumes "0 < n" "row \<in> set (choiceSet (setDefaultSplitPlan n newSplitPlan))"
  shows "length row = n \<and> sum_list row = 100 \<and> (\<forall>i < n. (i < 7 \<longrightarrow> 10 \<le> row ! i) \<and> (7 \<le> i \<longrightarrow> row ! i = 0))"
proof -
  have "choiceSet newSplitPlan = []" by (simp add: newSplitPlan_def)
  then obtain r where r: "r \<in> set (default_choices n)" "row = r @ replicate (n - 7) 0"
    using assms setDefaultSplitPlan_rows [OF assms(1)] by auto
  from default_choices_rows [OF assms(1) r(1)] show ?thesis
    unfolding r(2) by (auto simp: nth_append sum_list_replicate)
qed

lemma default_split_plans_witness:
  "sum_list (choiceSet (setDefaultSplitPlan 3 newSplitPlan) ! 0) = 100"
proof -
  have "choiceSet (setDefaultSplitPlan 3 newSplitPlan) ! 0 \<in> set (choiceSet (setDefaultSplitPlan 3 newSplitPlan))"
    by (rule nth_mem) (simp add: setDefaultSplitPlan_def fill_def)
  from default_split_plans [OF _ this] show ?thesis by simp
qed

section \<open>Plans stay well formed\<close>

definition plan_ok :: "split_plan \<Rightarrow> nat \<Rightarrow> bool" where
  "plan_ok p n \<longleftrightarrow>
     numOfPlans p = 5 \<and> length (choiceSet p) = 5 \<and> currSplitPlanIdx p < 5 \<and>
     (\<forall>row \<in> set (choiceSet p). length row = n \<and> sum_list row = 100) \<and>
     (\<exists>ws. votes p = map (ballot 5) ws \<and> (\<forall>w \<in> set ws. w < 5)) \<and>
     cycleLength p = currentCycleLength (cycle p) \<and> CLmin \<le> cycleLength p \<and> cycleLength p \<le> CLmax"

lemma plan_ok_default:
  assumes "0 < n"
  shows "plan_ok (setDefaultSplitPlan n newSplitPlan) n"
proof -
  have c: "choiceSet newSplitPlan = []" by (simp add: newSplitPlan_def)
  have "\<forall>row \<in> set (choiceSet (setDefaultSplitPlan n newSplitPlan)). length row = n \<and> sum_list row = 100"
    using default_choices_rows [OF assms] unfolding setDefaultSplitPlan_rows [OF assms c] by (auto simp: sum_list_replicate)
  moreover have "length (choiceSet (setDefaultSplitPlan n newSplitPlan)) = 5"
    by (simp add: setDefaultSplitPlan_rows [OF assms c] default_choices_length)
  ultimately show ?thesis
    by (simp add: plan_ok_def) (simp add: setDefaultSplitPlan_def newSplitPlan_def setCurrentCycleLen_def)
qed

lemma getCurrSplitPlan_ok:
  assumes "plan_ok p n"
  obtains row where "getCurrSplitPlan p = Inr row" "row = choiceSet p ! currSplitPlanIdx p" "length row = n" "sum_list row = 100"
proof -
  have "choiceSet p ! currSplitPlanIdx p \<in> set (choiceSet p)" using assms by (simp add: plan_ok_def)
  moreover have "choiceSet p \<noteq> []" using assms by (auto simp: plan_ok_def)
  ultimately show ?thesis using assms by (intro that [of "choiceSet p ! currSplitPlanIdx p"]) (auto simp: plan_ok_def getCurrSplitPlan_def)
qed

lemma vote_ok:
  assumes "votes s = map (ballot 5) ws" "\<forall>w \<in> set ws. w < 5" "numOfPlans s = 5" "length ds = 5"
  shows "snd (vote s ds) < 5" "\<exists>ws. votes (fst (vote s ds)) = map (ballot 5) ws \<and> (\<forall>w \<in> set ws. w < 5)"
    "fst (vote s ds) = s\<lparr>votes := votes (fst (vote s ds))\<rparr>"
proof -
  have w: "findIndexOfMinDS ds < 5" using findIndexOfMinDS_first(1) [of ds] assms(4) by force
  define vs where "vs = (let vs = ws @ [findIndexOfMinDS ds] in if length vs > 5 then tl vs else vs)"
  have v: "votes (fst (vote s ds)) = map (ballot 5) vs"
    by (simp add: votes_vote assms(1,3) vs_def Let_def map_tl)
  have vs: "\<forall>w \<in> set vs. w < 5" using assms(2) w by (cases ws) (auto simp: vs_def Let_def)
  show "\<exists>ws. votes (fst (vote s ds)) = map (ballot 5) ws \<and> (\<forall>w \<in> set ws. w < 5)" using v vs by blast
  have "\<forall>p < 5. 0 \<le> vote_sum (map (ballot 5) vs) p" using vote_sum_ballots [OF vs] by simp
  from max_voted_first [OF this] obtain p where "p < 5" "getMaxVotedSplitPlan 5 (map (ballot 5) vs) = int p" by auto
  moreover have "snd (vote s ds) = nat (getMaxVotedSplitPlan 5 (votes (fst (vote s ds))))"
    by (simp add: vote_def Let_def assms(3))
  ultimately show "snd (vote s ds) < 5" unfolding v by simp
  show "fst (vote s ds) = s\<lparr>votes := votes (fst (vote s ds))\<rparr>" by (simp add: vote_def Let_def)
qed

lemma plan_ok_update:
  assumes "plan_ok p n"
  shows "plan_ok (update_plan r k ds p) n" "choiceSet (update_plan r k ds p) = choiceSet p"
proof -
  let ?s = "p\<lparr>cycle := update_cycle r (getMaxDS ds) (cycle p), cycleLength := currentCycleLength (update_cycle r (getMaxDS ds) (cycle p))\<rparr>"
  let ?d = "calcMaxProjectedDS r ?s k ds"
  obtain ws where ws: "votes ?s = map (ballot 5) ws" "\<forall>w \<in> set ws. w < 5" "numOfPlans ?s = 5"
    using assms by (auto simp: plan_ok_def)
  have "length ?d = 5" using ws(3) by (simp add: calcMaxProjectedDS_def)
  note v = vote_ok [OF ws this]
  have eq: "update_plan r k ds p = (?s\<lparr>votes := votes (fst (vote ?s ?d)), nextSplitPlanIdx := snd (vote ?s ?d),
      currSplitPlanIdx := snd (vote ?s ?d)\<rparr>)"
    unfolding update_plan_def findNextPlanIndex_def Let_def using v(3) by (simp add: case_prod_beta)
  show "plan_ok (update_plan r k ds p) n"
    unfolding eq using assms v(1,2) next_length_range by (simp add: plan_ok_def update_cycle_length)
  show "choiceSet (update_plan r k ds p) = choiceSet p" unfolding eq by simp
qed

section \<open>The phases of a cycle\<close>

abbreviation (input) "exact \<equiv> (\<lambda>x :: real. x)"

definition light_ok :: "link_light \<Rightarrow> bool" where
  "light_ok l \<longleftrightarrow>
     (\<exists>g. colourDurations (colorSequence l) = [(TRAFFIC_COLOUR_GREEN, g), (TRAFFIC_COLOUR_AMBER, 3), (TRAFFIC_COLOUR_RED, 1)])"

text \<open>A phase as \<open>initialisePhases\<close> leaves it: its offset in the cycle, its length for \<open>c\<close> percent of \<open>len\<close> and its lights.\<close>

definition phase_ok :: "real \<Rightarrow> real \<Rightarrow> real \<Rightarrow> phase \<Rightarrow> bool" where
  "phase_ok len c off p \<longleftrightarrow>
     phaseOffset p = off \<and> phaseLength p = len * c / 100 \<and>
     (\<forall>(f, l) \<in> set (linksMap p). colourDurations (colorSequence l) =
        [(TRAFFIC_COLOUR_GREEN, to_int (phaseLength p - 4)), (TRAFFIC_COLOUR_AMBER, 3), (TRAFFIC_COLOUR_RED, 1)])"

definition phases_ok :: "real \<Rightarrow> real list \<Rightarrow> phase list \<Rightarrow> bool" where
  "phases_ok len row ps \<longleftrightarrow> length ps = length row \<and>
     (\<forall>i < length ps. phase_ok len (row ! i) (len * sum_list (take i row) / 100) (ps ! i))"

text \<open>What never changes of a phase: its name and its movements.\<close>

definition shape :: "phase \<Rightarrow> string \<times> (u32 \<times> u32) list" where
  "shape p = (phaseName p, map (\<lambda>(f, l). (f, toLink l)) (linksMap p))"

lemma light_ok_new [simp]: "light_ok (newToLink l)"
  by (simp add: light_ok_def newToLink_def addColorDuration_def newColorSequence_def)

lemma phase_ok_colours:
  assumes "phase_ok len c off p" "(f, l) \<in> set (linksMap p)"
  shows "colourDurations (colorSequence l) =
     [(TRAFFIC_COLOUR_GREEN, to_int (phaseLength p - 4)), (TRAFFIC_COLOUR_AMBER, 3), (TRAFFIC_COLOUR_RED, 1)]"
  using assms unfolding phase_ok_def by (elim conjE) (drule (1) bspec, simp only: prod.case)

lemma phase_ok_light: "phase_ok len c off p \<Longrightarrow> (f, l) \<in> set (linksMap p) \<Longrightarrow> light_ok l"
  unfolding light_ok_def using phase_ok_colours by blast

lemma green_light_ok:
  assumes "light_ok l"
  shows "colourDurations (colorSequence (green_light exact len l)) =
     [(TRAFFIC_COLOUR_GREEN, to_int (len - 4)), (TRAFFIC_COLOUR_AMBER, 3), (TRAFFIC_COLOUR_RED, 1)]"
    "toLink (green_light exact len l) = toLink l"
proof -
  obtain g where "colourDurations (colorSequence l) = [(TRAFFIC_COLOUR_GREEN, g), (TRAFFIC_COLOUR_AMBER, 3), (TRAFFIC_COLOUR_RED, 1)]"
    using assms by (auto simp: light_ok_def)
  then show "colourDurations (colorSequence (green_light exact len l)) =
     [(TRAFFIC_COLOUR_GREEN, to_int (len - 4)), (TRAFFIC_COLOUR_AMBER, 3), (TRAFFIC_COLOUR_RED, 1)]"
    "toLink (green_light exact len l) = toLink l"
    by (simp_all add: green_light_def Let_def other_than_green_def changeColorDuration_def)
qed

lemma place_phases_nth:
  "length cs = length ps \<Longrightarrow> i < length ps \<Longrightarrow>
     place_phases exact len acc ps cs ! i =
       (ps ! i)\<lparr>percentage := cs ! i, phaseOffset := (acc + sum_list (take i cs)) * len / 100\<rparr>"
proof (induction ps arbitrary: acc cs i)
  case (Cons p ps)
  then show ?case by (cases cs; cases i) (auto simp: add.assoc)
qed simp

lemma length_place_phases: "length cs = length ps \<Longrightarrow> length (place_phases r len acc ps cs) = length ps"
  by (induction r len acc ps cs rule: place_phases.induct) auto

lemma place_initialize:
  assumes "length row = length ps" "\<forall>p \<in> set ps. \<forall>(f, l) \<in> set (linksMap p). light_ok l"
  shows "phases_ok len row (map (initialize_phase exact len) (place_phases exact len 0 ps row))"
    "map shape (map (initialize_phase exact len) (place_phases exact len 0 ps row)) = map shape ps"
proof -
  have shape: "shape (initialize_phase exact len (p\<lparr>percentage := c, phaseOffset := off\<rparr>)) = shape p"
    if "\<forall>(f, l) \<in> set (linksMap p). light_ok l" for p c off
    using that green_light_ok(2) by (auto simp: shape_def initialize_phase_def calculateGreen_def)
  have ok: "phase_ok len c off (initialize_phase exact len (p\<lparr>percentage := c, phaseOffset := off\<rparr>))"
    if "\<forall>(f, l) \<in> set (linksMap p). light_ok l" for p c off
    using that green_light_ok(1) by (auto simp: phase_ok_def initialize_phase_def calculateGreen_def)
  have len: "length (place_phases exact len 0 ps row) = length ps" by (rule length_place_phases [OF assms(1)])
  show "phases_ok len row (map (initialize_phase exact len) (place_phases exact len 0 ps row))"
    unfolding phases_ok_def
  proof (intro conjI allI impI)
    fix i assume "i < length (map (initialize_phase exact len) (place_phases exact len 0 ps row))"
    then have i: "i < length ps" using len by simp
    then have "\<forall>(f, l) \<in> set (linksMap (ps ! i)). light_ok l" using assms(2) i nth_mem by blast
    from ok [OF this] show "phase_ok len (row ! i) (len * sum_list (take i row) / 100)
        (map (initialize_phase exact len) (place_phases exact len 0 ps row) ! i)"
      using i len by (simp add: place_phases_nth [OF assms(1)] mult.commute)
  qed (use assms(1) len in simp)
  show "map shape (map (initialize_phase exact len) (place_phases exact len 0 ps row)) = map shape ps"
  proof (rule nth_equalityI)
    fix i assume "i < length (map shape (map (initialize_phase exact len) (place_phases exact len 0 ps row)))"
    then have i: "i < length ps" using len by simp
    then have "\<forall>(f, l) \<in> set (linksMap (ps ! i)). light_ok l" using assms(2) i nth_mem by blast
    from shape [OF this] show "map shape (map (initialize_phase exact len) (place_phases exact len 0 ps row)) ! i = map shape ps ! i"
      using i len by (simp add: place_phases_nth [OF assms(1)])
  qed (use len in simp)
qed

section \<open>Colours of a phase\<close>

text \<open>A colour sequence with valid colours shows red, amber or green.\<close>

lemma computeColor_valid:
  assumes "\<forall>(c, n) \<in> set (colourDurations s). c \<noteq> TRAFFIC_COLOUR_INVALID"
  shows "computeColor s t \<noteq> TRAFFIC_COLOUR_INVALID"
proof -
  have "color_loop d acc xs \<noteq> TRAFFIC_COLOUR_INVALID" if "\<forall>(c, n) \<in> set xs. c \<noteq> TRAFFIC_COLOUR_INVALID" for d acc xs
    using that by (induction d acc xs rule: color_loop.induct) auto
  with assms show ?thesis by (simp add: computeColor_def)
qed

lemma light_at_valid:
  assumes "computeColor (colorSequence l) t \<noteq> TRAFFIC_COLOUR_INVALID"
  shows "light_at t l = Inr (l\<lparr>currColor := computeColor (colorSequence l) t\<rparr>)"
  using assms by (cases "computeColor (colorSequence l) t") (simp_all add: light_at_def)

section \<open>The invariant of a running signal\<close>

text \<open>The vehicle lanes at the end of a link have detectors (\<open>ls\<close> are the lanes that have one).\<close>

definition link_ok :: "network \<Rightarrow> address set \<Rightarrow> u32 \<Rightarrow> bool" where
  "link_ok net ls l \<longleftrightarrow> (\<exists>roads. link_segments net l = Some roads \<and> roads \<noteq> []) \<and> vehicle_lanes net l \<subseteq> ls"

definition curr_row :: "scats \<Rightarrow> real list" where
  "curr_row s = choiceSet (splitPlan s) ! currSplitPlanIdx (splitPlan s)"

definition links_ok :: "network \<Rightarrow> address set \<Rightarrow> phase list \<Rightarrow> bool" where
  "links_ok net ls ps \<longleftrightarrow> (\<forall>p \<in> set ps. \<forall>f \<in> fst ` set (linksMap p). link_ok net ls f)"

definition scats_ok :: "network \<Rightarrow> address set \<Rightarrow> scats \<Rightarrow> bool" where
  "scats_ok net ls s \<longleftrightarrow>
     phases s \<noteq> [] \<and> plan_ok (splitPlan s) (length (phases s)) \<and> currPhaseAtGreen s < length (phases s) \<and>
     length (phaseDensity s) = length (phases s) \<and> 0 \<le> currCycleTimer s \<and> currCycleTimer s < cycleLength (splitPlan s) \<and>
     0 \<le> updateInterval s \<and> updateInterval s \<le> CLmin \<and> fst ` set (counter (curVehicleCounter s)) \<subseteq> ls \<and>
     links_ok net ls (phases s) \<and> phases_ok (cycleLength (splitPlan s)) (curr_row s) (phases s)"

lemma shape_links: "map shape ps = map shape qs \<Longrightarrow> links_ok net ls ps \<longleftrightarrow> links_ok net ls qs"
proof -
  have l: "fst ` set (linksMap p) = fst ` set (snd (shape p))" for p
    by (auto simp: shape_def image_image case_prod_beta)
  assume "map shape ps = map shape qs"
  then have "set (map shape ps) = set (map shape qs)" by simp
  moreover have "links_ok net ls xs \<longleftrightarrow> (\<forall>x \<in> set (map shape xs). \<forall>f \<in> fst ` set (snd x). link_ok net ls f)" for xs
    by (simp add: links_ok_def l)
  ultimately show ?thesis by metis
qed

lemma length_shape: "map shape ps = map shape qs \<Longrightarrow> length ps = length qs"
  by (rule map_eq_imp_length_eq)

text \<open>Counting vehicles.\<close>

lemma update_counts_ok:
  assumes "detectors_ok e ls"
  shows "fst ` set xs \<subseteq> ls \<Longrightarrow> \<exists>ys. update_counts e xs = Inr ys \<and> map fst ys = map fst xs"
proof (induction xs)
  case (Cons x xs)
  obtain a n where x: "x = (a, n)" by (cases x)
  with Cons.prems obtain ct where "getCountAndTimePair e a = Inr ct" using getCountAndTimePair_known [OF assms, of a] by auto
  then show ?case using Cons by (auto simp: x)
qed simp

lemma update_counter_ok:
  assumes "detectors_ok e ls" "fst ` set (counter v) \<subseteq> ls"
  shows "\<exists>w. update_counter e v = Inr w \<and> fst ` set (counter w) \<subseteq> ls"
proof -
  obtain ys where "update_counts e (counter v) = Inr ys" "map fst ys = map fst (counter v)"
    using update_counts_ok [OF assms] by auto
  moreover from this(2) have "fst ` set ys = fst ` set (counter v)" by (metis set_map)
  ultimately show ?thesis using assms(2) by (simp add: update_counter_def)
qed

lemma aggregateCounts_ok:
  assumes "detectors_ok e ls" "fst ` set (counter v) \<subseteq> ls"
  shows "\<exists>w. aggregateCounts cfg k now e v = Inr w \<and> fst ` set (counter w) \<subseteq> ls"
proof -
  have "fst ` set (counter (v\<lparr>curTimeSlice := now\<rparr>)) \<subseteq> ls" using assms(2) by simp
  from update_counter_ok [OF assms(1) this] obtain w where "update_counter e (v\<lparr>curTimeSlice := now\<rparr>) = Inr w"
    "fst ` set (counter w) \<subseteq> ls" by blast
  moreover have "fst ` set (counter (resetCounter u)) = fst ` set (counter u)" for u
    by (force simp: resetCounter_def)
  moreover have "counter (serialize cfg k t u) = counter u" for t u by (simp add: serialize_def)
  ultimately show ?thesis using assms(2) by (simp add: aggregateCounts_def Let_def)
qed

text \<open>The time in the cycle.\<close>

lemma fmod_below: "0 \<le> x \<Longrightarrow> x < 2 * y \<Longrightarrow> fmod x y = (if x < y then x else x - y)"
proof -
  assume a: "0 \<le> x" "x < 2 * y"
  then have y: "0 < y" by linarith
  have "\<lfloor>x / y\<rfloor> = (if x < y then 0 else 1)"
    using a y by (auto simp: floor_eq_iff field_simps)
  then show ?thesis using a y by (simp add: fmod_def to_int_def)
qed

lemma cycle_timer:
  assumes "scats_ok net ls s"
  shows "\<exists>t. updateCurrCycleTimer exact s = (s\<lparr>currCycleTimer := t\<rparr>, currCycleTimer s + updateInterval s \<ge> cycleLength (splitPlan s)) \<and>
     0 \<le> t \<and> t < cycleLength (splitPlan s) \<and> (currCycleTimer s + updateInterval s \<ge> cycleLength (splitPlan s) \<longrightarrow> t < CLmin) \<and>
     t = (if currCycleTimer s + updateInterval s \<ge> cycleLength (splitPlan s)
          then currCycleTimer s + updateInterval s - cycleLength (splitPlan s) else currCycleTimer s + updateInterval s)"
proof -
  have b: "0 \<le> currCycleTimer s" "currCycleTimer s < cycleLength (splitPlan s)" "0 \<le> updateInterval s" "updateInterval s \<le> CLmin"
    "CLmin \<le> cycleLength (splitPlan s)"
    using assms by (simp_all add: scats_ok_def plan_ok_def)
  then have "fmod (currCycleTimer s + updateInterval s) (cycleLength (splitPlan s)) =
      (if currCycleTimer s + updateInterval s < cycleLength (splitPlan s) then currCycleTimer s + updateInterval s
       else currCycleTimer s + updateInterval s - cycleLength (splitPlan s))"
    by (intro fmod_below) linarith+
  with b show ?thesis by (auto simp: updateCurrCycleTimer_def Let_def)
qed

text \<open>The phase at a time: the plan's percentages cut the cycle into slots.\<close>

definition slot :: "real \<Rightarrow> real list \<Rightarrow> nat \<Rightarrow> real \<Rightarrow> bool" where
  "slot len row k t \<longleftrightarrow> len * sum_list (take k row) / 100 \<le> t \<and> t < len * sum_list (take k row) / 100 + len * row ! k / 100"

lemma find_phase_slot:
  "acc \<le> t \<Longrightarrow> t < acc + len * sum_list row / 100 \<Longrightarrow>
     \<exists>j < length row. find_phase exact len t acc k (length row) row = Inr (k + j) \<and>
       acc + len * sum_list (take j row) / 100 \<le> t \<and> t < acc + len * sum_list (take j row) / 100 + len * row ! j / 100"
proof (induction row arbitrary: acc k)
  case (Cons p row)
  show ?case
  proof (cases "acc + len * p / 100 > t")
    case True
    then show ?thesis using Cons.prems(1) by (intro exI [of _ 0]) simp
  next
    case False
    have "t < acc + len * p / 100 + len * sum_list row / 100" using Cons.prems(2) by (simp add: add_divide_distrib distrib_left)
    from Cons.IH [OF _ this, of "Suc k"] False obtain j where j: "j < length row"
      "find_phase exact len t (acc + len * p / 100) (Suc k) (length row) row = Inr (Suc k + j)"
      "acc + len * p / 100 + len * sum_list (take j row) / 100 \<le> t"
      "t < acc + len * p / 100 + len * sum_list (take j row) / 100 + len * row ! j / 100" by auto
    then show ?thesis using False by (intro exI [of _ "Suc j"]) (simp add: add_divide_distrib distrib_left)
  qed
qed simp

lemma curr_row_ok:
  assumes "plan_ok (splitPlan s) n"
  shows "getCurrSplitPlan (splitPlan s) = Inr (curr_row s)" "length (curr_row s) = n" "sum_list (curr_row s) = 100"
  using getCurrSplitPlan_ok [OF assms] by (auto simp: curr_row_def)

lemma computeCurrPhase_slot:
  assumes "plan_ok (splitPlan s) (length (phases s))" "0 \<le> t" "t < cycleLength (splitPlan s)"
  shows "\<exists>k < length (phases s). computeCurrPhase exact s t = Inr k \<and> slot (cycleLength (splitPlan s)) (curr_row s) k t"
proof -
  note row = curr_row_ok [OF assms(1)]
  have "t < 0 + cycleLength (splitPlan s) * sum_list (curr_row s) / 100" using assms(3) row(3) by simp
  from find_phase_slot [OF assms(2) this, of 0] show ?thesis
    using row by (auto simp: computeCurrPhase_def slot_def)
qed

text \<open>The density of a phase.\<close>

lemma lanes_DS_ok:
  "detectors_ok e ls \<Longrightarrow> {a \<in> set as. \<not> pedestrianLane (lane_at net a)} \<subseteq> ls \<Longrightarrow> \<exists>m1. lanes_DS r net e g as m = Inr m1"
proof (induction "as" arbitrary: m)
  case (Cons a "as")
  then have rest: "\<exists>m1. lanes_DS r net e g as m = Inr m1" for m by fastforce
  show ?case
  proof (cases "pedestrianLane (lane_at net a)")
    case False
    then obtain ct where "getCountAndTimePair e a = Inr ct"
      using Cons.prems getCountAndTimePair_known [OF Cons.prems(1), of a] by auto
    with False rest show ?thesis by (simp add: Let_def)
  qed (use rest in simp)
qed simp

lemma links_DS_ok:
  assumes "detectors_ok e ls"
  shows "\<forall>f \<in> fst ` set xs. link_ok net ls f \<Longrightarrow> \<exists>m1. links_DS r net e g xs m = Inr m1"
proof (induction xs arbitrary: m)
  case (Cons x xs)
  obtain l y where x: "x = (l, y)" by (cases x)
  from Cons.prems have "link_ok net ls l" by (simp add: x)
  then obtain roads where roads: "link_segments net l = Some roads" "roads \<noteq> []" "vehicle_lanes net l \<subseteq> ls"
    by (auto simp: link_ok_def)
  then have "{a \<in> set (last roads). \<not> pedestrianLane (lane_at net a)} \<subseteq> ls" by (simp add: vehicle_lanes_def)
  from lanes_DS_ok [OF assms this] obtain m1 where "lanes_DS r net e g (last roads) m = Inr m1" by blast
  moreover have "\<exists>m2. links_DS r net e g xs m1 = Inr m2" using Cons by simp
  ultimately show ?case using roads by (simp add: x last_segment_def)
qed simp

lemma detectors_ok_reset: "detectors_ok e ls \<Longrightarrow> detectors_ok (reset_all e) ls"
  by (auto simp: detectors_ok_def reset_all_def same_keys_def case_prod_beta comp_def image_image)

text \<open>What a tick may change: everything but the shape of the phases, the plan and the timer.\<close>

lemma computePhaseDS_ok:
  assumes "scats_ok net ls s" "detectors_ok e ls"
  shows "\<exists>d v. computePhaseDS r net (currPhaseAtGreen s) (s, e) = Inr (s\<lparr>phaseDensity := d, curVehicleCounter := v\<rparr>, reset_all e) \<and>
     length d = length (phases s) \<and> fst ` set (counter v) \<subseteq> ls"
proof -
  let ?p = "phases s ! currPhaseAtGreen s"
  have s: "currPhaseAtGreen s < length (phases s)" "length (phaseDensity s) = length (phases s)"
    "fst ` set (counter (curVehicleCounter s)) \<subseteq> ls" "links_ok net ls (phases s)"
    using assms(1) by (simp_all add: scats_ok_def)
  then have "\<forall>f \<in> fst ` set (linksMap ?p). link_ok net ls f" using nth_mem unfolding links_ok_def by blast
  from links_DS_ok [OF assms(2) this] obtain m where m: "links_DS r net e (computeTotalGreenTime ?p) (linksMap ?p) 0 = Inr m"
    by blast
  from update_counter_ok [OF assms(2) s(3)] obtain v where v: "update_counter e (curVehicleCounter s) = Inr v"
    "fst ` set (counter v) \<subseteq> ls" by blast
  show ?thesis
    using s m v by (intro exI [of _ "(phaseDensity s)[currPhaseAtGreen s := m]"] exI [of _ v])
      (simp add: computePhaseDS_def Let_def)
qed

text \<open>The colours of the current phase.\<close>

lemma update_phase_ok:
  assumes "phase_ok len c off p" "off \<le> t"
  shows "\<exists>p1. update_phase exact t p = Inr p1 \<and> phase_ok len c off p1 \<and> shape p1 = shape p \<and>
     (\<forall>(f, l) \<in> set (linksMap p1). currColor l = color_loop (to_int (t - off)) 0
        [(TRAFFIC_COLOUR_GREEN, to_int (phaseLength p1 - 4)), (TRAFFIC_COLOUR_AMBER, 3), (TRAFFIC_COLOUR_RED, 1)])"
proof -
  let ?ds = "[(TRAFFIC_COLOUR_GREEN, to_int (phaseLength p - 4)), (TRAFFIC_COLOUR_AMBER, 3), (TRAFFIC_COLOUR_RED, 1)]"
  let ?c = "color_loop (to_int (t - off)) 0 ?ds"
  have ds: "colourDurations (colorSequence l) = ?ds" if "(f, l) \<in> set (linksMap p)" for f l
    using phase_ok_colours [OF assms(1) that] .
  have lights: "lights_at x ls = Inr (map (\<lambda>(f, l). (f, l\<lparr>currColor := color_loop (to_int x) 0 ds\<rparr>)) ls)"
    if "\<forall>(f, l) \<in> set ls. colourDurations (colorSequence l) = ds" "\<forall>(c, n) \<in> set ds. c \<noteq> TRAFFIC_COLOUR_INVALID" for x ls ds
    using that
  proof (induction x ls rule: lights_at.induct)
    case (2 x f l ls)
    then have "computeColor (colorSequence l) x = color_loop (to_int x) 0 ds" by (simp add: computeColor_def)
    moreover have "computeColor (colorSequence l) x \<noteq> TRAFFIC_COLOUR_INVALID" using 2 by (intro computeColor_valid) simp
    ultimately show ?case using 2 by (simp add: light_at_valid)
  qed simp
  have "\<forall>(f, l) \<in> set (linksMap p). colourDurations (colorSequence l) = ?ds" using ds by blast
  from lights [OF this, of "t - off"]
  have l: "lights_at (t - off) (linksMap p) = Inr (map (\<lambda>(f, l). (f, l\<lparr>currColor := ?c\<rparr>)) (linksMap p))" by simp
  have off: "phaseOffset p = off" "phaseLength p = len * c / 100" using assms(1) by (simp_all add: phase_ok_def)
  let ?p1 = "p\<lparr>linksMap := map (\<lambda>(f, l). (f, l\<lparr>currColor := ?c\<rparr>)) (linksMap p)\<rparr>"
  have "update_phase exact t p = Inr ?p1" using assms(2) off(1) l by (simp add: update_phase_def Let_def)
  moreover have "shape ?p1 = shape p" by (simp add: shape_def case_prod_beta comp_def)
  moreover have "phase_ok len c off ?p1"
    unfolding phase_ok_def using off ds by (auto simp del: color_loop.simps)
  moreover have "\<forall>(f, l) \<in> set (linksMap ?p1). currColor l = ?c" by auto
  ultimately show ?thesis by (intro exI [of _ ?p1]) simp
qed

lemma slot_after_offset: "slot len row k t \<Longrightarrow> len * sum_list (take k row) / 100 \<le> t"
  by (simp add: slot_def)

lemma phases_ok_update:
  assumes "phases_ok len row ps" "k < length ps" "phase_ok len (row ! k) (len * sum_list (take k row) / 100) p" "shape p = shape (ps ! k)"
  shows "phases_ok len row (ps[k := p])" "map shape (ps[k := p]) = map shape ps"
  using assms list_update_id [of "map shape ps" k] by (auto simp: phases_ok_def nth_list_update map_update)

lemma phases_lights_ok:
  assumes "phases_ok len row ps"
  shows "\<forall>p \<in> set ps. \<forall>(f, l) \<in> set (linksMap p). light_ok l"
proof
  fix p assume "p \<in> set ps"
  then obtain i where "i < length ps" "p = ps ! i" by (auto simp: in_set_conv_nth)
  with assms have "phase_ok len (row ! i) (len * sum_list (take i row) / 100) p" by (simp add: phases_ok_def)
  then show "\<forall>(f, l) \<in> set (linksMap p). light_ok l" using phase_ok_light by blast
qed

text \<open>The end of a cycle.\<close>

lemma initialisePhases_ok:
  assumes "plan_ok (splitPlan s) (length (phases s))" "\<forall>p \<in> set (phases s). \<forall>(f, l) \<in> set (linksMap p). light_ok l"
  shows "\<exists>ps. initialisePhases exact s = Inr (s\<lparr>phases := ps\<rparr>) \<and> map shape ps = map shape (phases s) \<and>
     phases_ok (cycleLength (splitPlan s)) (curr_row s) ps"
  using place_initialize [OF curr_row_ok(2) [OF assms(1)] assms(2)] curr_row_ok(1,2) [OF assms(1)]
  by (intro exI [of _ "map (initialize_phase exact (cycleLength (splitPlan s)))
      (place_phases exact (cycleLength (splitPlan s)) 0 (phases s) (curr_row s))"]) (simp add: initialisePhases_def Let_def)

lemma new_cycle_ok:
  assumes "scats_ok net ls s" "currCycleTimer s < CLmin"
  shows "\<exists>s1. initialisePhases exact (fst (updateNewCycle exact (s, e))) = Inr s1 \<and> scats_ok net ls s1 \<and>
     map shape (phases s1) = map shape (phases s) \<and> currPhaseAtGreen s1 = currPhaseAtGreen s \<and> currCycleTimer s1 = currCycleTimer s \<and>
     updateInterval s1 = updateInterval s"
proof -
  let ?n = "length (phases s)"
  let ?s = "fst (updateNewCycle exact (s, e))"
  have p: "plan_ok (splitPlan s) ?n" "phases_ok (cycleLength (splitPlan s)) (curr_row s) (phases s)"
    using assms(1) by (simp_all add: scats_ok_def)
  have s: "phases ?s = phases s" "splitPlan ?s = update_plan exact ?n (phaseDensity s) (splitPlan s)"
    by (simp_all add: updateNewCycle_def resetCycle_def)
  have ok: "plan_ok (splitPlan ?s) (length (phases ?s))" unfolding s by (rule plan_ok_update [OF p(1)])
  have "\<forall>p \<in> set (phases ?s). \<forall>(f, l) \<in> set (linksMap p). light_ok l"
    unfolding s(1) by (rule phases_lights_ok [OF p(2)])
  from initialisePhases_ok [OF ok this] obtain ps where ps: "initialisePhases exact ?s = Inr (?s\<lparr>phases := ps\<rparr>)"
    "map shape ps = map shape (phases s)" "phases_ok (cycleLength (splitPlan ?s)) (curr_row ?s) ps" using s(1) by auto
  have len: "length ps = ?n" using length_shape [OF ps(2)] .
  have "CLmin \<le> cycleLength (splitPlan ?s)" using ok by (simp add: plan_ok_def)
  moreover have "curr_row (?s\<lparr>phases := ps\<rparr>) = curr_row ?s" by (simp add: curr_row_def)
  ultimately have "scats_ok net ls (?s\<lparr>phases := ps\<rparr>)"
    using assms ok ps(3) len shape_links [OF ps(2), of net ls] unfolding scats_ok_def s(1)
    by (auto simp: updateNewCycle_def resetCycle_def)
  with ps(1,2) show ?thesis
    by (intro exI [of _ "?s\<lparr>phases := ps\<rparr>"]) (simp add: updateNewCycle_def resetCycle_def)
qed

section \<open>A tick of a running signal\<close>

lemma scats_ok_changes:
  assumes "scats_ok net ls s"
  shows "0 \<le> t \<Longrightarrow> t < cycleLength (splitPlan s) \<Longrightarrow> scats_ok net ls (s\<lparr>currCycleTimer := t\<rparr>)"
    "scats_ok net ls (s\<lparr>isNewCycle := b\<rparr>)"
    "fst ` set (counter v) \<subseteq> ls \<Longrightarrow> scats_ok net ls (s\<lparr>curVehicleCounter := v\<rparr>)"
    "length d = length (phases s) \<Longrightarrow> scats_ok net ls (s\<lparr>phaseDensity := d\<rparr>)"
    "k < length (phases s) \<Longrightarrow> scats_ok net ls (s\<lparr>currPhaseAtGreen := k\<rparr>)"
    "map shape ps = map shape (phases s) \<Longrightarrow> phases_ok (cycleLength (splitPlan s)) (curr_row s) ps \<Longrightarrow>
       scats_ok net ls (s\<lparr>phases := ps\<rparr>)"
  using assms length_shape [of ps "phases s"] shape_links [of ps "phases s" net ls]
  by (auto simp: scats_ok_def curr_row_def)

lemma tick_start_ok:
  assumes "sc_round cfg = exact" "scats_ok net ls s" "detectors_ok e ls"
  shows "\<exists>s3 k. tick_start cfg now (s, e) = Inr (s3, k) \<and> scats_ok net ls s3 \<and> k < length (phases s3) \<and>
     map shape (phases s3) = map shape (phases s) \<and> splitPlan s3 = splitPlan s \<and> updateInterval s3 = updateInterval s \<and>
     currPhaseAtGreen s3 = currPhaseAtGreen s \<and>
     slot (cycleLength (splitPlan s)) (curr_row s) k (currCycleTimer s3) \<and>
     isNewCycle s3 = (currCycleTimer s + updateInterval s \<ge> cycleLength (splitPlan s)) \<and>
     (isNewCycle s3 \<longrightarrow> currCycleTimer s3 < CLmin) \<and>
     currCycleTimer s3 = currCycleTimer s + updateInterval s - (if isNewCycle s3 then cycleLength (splitPlan s) else 0) \<and>
     (\<forall>(f, l) \<in> set (linksMap (phases s3 ! k)). currColor l =
        color_loop (to_int (currCycleTimer s3 - phaseOffset (phases s3 ! k))) 0
          [(TRAFFIC_COLOUR_GREEN, to_int (phaseLength (phases s3 ! k) - 4)), (TRAFFIC_COLOUR_AMBER, 3), (TRAFFIC_COLOUR_RED, 1)])"
proof -
  have cnt: "fst ` set (counter (curVehicleCounter s)) \<subseteq> ls" using assms(2) by (simp add: scats_ok_def)
  obtain v where v: "(if countsEnabled cfg then aggregateCounts cfg (trafficLightId s) now e (curVehicleCounter s)
      else Inr (curVehicleCounter s)) = Inr v" "fst ` set (counter v) \<subseteq> ls"
    using aggregateCounts_ok [OF assms(3) cnt, of cfg "trafficLightId s" now] cnt by (cases "countsEnabled cfg") auto
  let ?s0 = "s\<lparr>curVehicleCounter := v\<rparr>"
  have ok0: "scats_ok net ls ?s0" by (rule scats_ok_changes(3) [OF assms(2) v(2)])
  have same: "currCycleTimer ?s0 = currCycleTimer s" "updateInterval ?s0 = updateInterval s" "splitPlan ?s0 = splitPlan s"
    by simp_all
  obtain t where t: "updateCurrCycleTimer exact ?s0 = (?s0\<lparr>currCycleTimer := t\<rparr>, currCycleTimer s + updateInterval s \<ge> cycleLength (splitPlan s))"
    "0 \<le> t" "t < cycleLength (splitPlan s)" "currCycleTimer s + updateInterval s \<ge> cycleLength (splitPlan s) \<longrightarrow> t < CLmin"
    "t = (if currCycleTimer s + updateInterval s \<ge> cycleLength (splitPlan s)
          then currCycleTimer s + updateInterval s - cycleLength (splitPlan s) else currCycleTimer s + updateInterval s)"
    using cycle_timer [OF ok0] unfolding same by blast
  let ?new = "currCycleTimer s + updateInterval s \<ge> cycleLength (splitPlan s)"
  let ?s2 = "?s0\<lparr>currCycleTimer := t, isNewCycle := ?new\<rparr>"
  have ok2: "scats_ok net ls ?s2" by (intro scats_ok_changes(1,2) ok0) (use t in simp_all)
  have row: "curr_row ?s2 = curr_row s" by (simp add: curr_row_def)
  have pl: "plan_ok (splitPlan ?s2) (length (phases ?s2))" "phases_ok (cycleLength (splitPlan s)) (curr_row s) (phases s)"
    using ok2 row by (simp_all add: scats_ok_def)
  obtain k where k: "k < length (phases s)" "computeCurrPhase exact ?s2 t = Inr k" "slot (cycleLength (splitPlan s)) (curr_row s) k t"
    using computeCurrPhase_slot [OF pl(1), of t] t(2,3) row by auto
  let ?off = "cycleLength (splitPlan s) * sum_list (take k (curr_row s)) / 100"
  have "phase_ok (cycleLength (splitPlan s)) (curr_row s ! k) ?off (phases s ! k)"
    using pl(2) k(1) by (simp add: phases_ok_def)
  from update_phase_ok [OF this slot_after_offset [OF k(3)]] obtain p where p: "update_phase exact t (phases s ! k) = Inr p"
    "phase_ok (cycleLength (splitPlan s)) (curr_row s ! k) ?off p" "shape p = shape (phases s ! k)"
    "\<forall>(f, l) \<in> set (linksMap p). currColor l = color_loop (to_int (t - ?off)) 0
        [(TRAFFIC_COLOUR_GREEN, to_int (phaseLength p - 4)), (TRAFFIC_COLOUR_AMBER, 3), (TRAFFIC_COLOUR_RED, 1)]" by blast
  note up = phases_ok_update [OF pl(2) k(1) p(2,3)]
  let ?s3 = "?s2\<lparr>phases := (phases s)[k := p]\<rparr>"
  have ok3: "scats_ok net ls ?s3" by (rule scats_ok_changes(6) [OF ok2]) (use up row in simp_all)
  have r: "tick_start cfg now (s, e) = Inr (?s3, k)"
    using v(1) t(1) k(1,2) p(1) by (simp add: tick_start_def assms(1) Let_def)
  have off: "phaseOffset p = ?off" using p(2) by (simp add: phase_ok_def)
  have pk: "phases ?s3 ! k = p" using k(1) by simp
  have sel: "currCycleTimer ?s3 = t" "isNewCycle ?s3 = ?new" by simp_all
  have timer: "t = currCycleTimer s + updateInterval s - (if ?new then cycleLength (splitPlan s) else 0)"
    using t(5) by (simp split: if_splits)
  show ?thesis
  proof (intro exI [of _ ?s3] exI [of _ k] conjI)
    show "\<forall>(f, l) \<in> set (linksMap (phases ?s3 ! k)). currColor l =
        color_loop (to_int (currCycleTimer ?s3 - phaseOffset (phases ?s3 ! k))) 0
          [(TRAFFIC_COLOUR_GREEN, to_int (phaseLength (phases ?s3 ! k) - 4)), (TRAFFIC_COLOUR_AMBER, 3), (TRAFFIC_COLOUR_RED, 1)]"
      unfolding pk sel(1) off by (rule p(4))
    show "currCycleTimer ?s3 = currCycleTimer s + updateInterval s - (if isNewCycle ?s3 then cycleLength (splitPlan s) else 0)"
      unfolding sel by (rule timer)
    show "isNewCycle ?s3 \<longrightarrow> currCycleTimer ?s3 < CLmin" unfolding sel by (rule t(4))
    show "slot (cycleLength (splitPlan s)) (curr_row s) k (currCycleTimer ?s3)" unfolding sel by (rule k(3))
    show "map shape (phases ?s3) = map shape (phases s)" using up(2) by simp
    show "k < length (phases ?s3)" using k(1) by simp
  qed (rule r ok3 sel | simp)+
qed

lemma tick_end_ok:
  assumes "sc_round cfg = exact" "scats_ok net ls s" "detectors_ok e ls" "k < length (phases s)"
    "isNewCycle s \<longrightarrow> currCycleTimer s < CLmin"
  shows "\<exists>s1 e1. tick_end cfg net e (s, k) = Inr (s1, e1) \<and> scats_ok net ls s1 \<and> detectors_ok e1 ls \<and>
     map shape (phases s1) = map shape (phases s) \<and> currPhaseAtGreen s1 = k \<and> currCycleTimer s1 = currCycleTimer s \<and>
     updateInterval s1 = updateInterval s \<and> (\<not> isNewCycle s \<longrightarrow> splitPlan s1 = splitPlan s \<and> phases s1 = phases s)"
proof -
  let ?m = "if currPhaseAtGreen s \<noteq> k
     then rbind (computePhaseDS exact net (currPhaseAtGreen s) (s, e)) (\<lambda>(s4, e1). Inr (s4\<lparr>currPhaseAtGreen := k\<rparr>, e1))
     else Inr (s, e)"
  have "\<exists>s4 e1. ?m = Inr (s4, e1) \<and> scats_ok net ls s4 \<and> detectors_ok e1 ls \<and> phases s4 = phases s \<and> currPhaseAtGreen s4 = k \<and>
      currCycleTimer s4 = currCycleTimer s \<and> updateInterval s4 = updateInterval s \<and> splitPlan s4 = splitPlan s \<and> isNewCycle s4 = isNewCycle s"
  proof (cases "currPhaseAtGreen s = k")
    case False
    obtain d v where d: "computePhaseDS exact net (currPhaseAtGreen s) (s, e) = Inr (s\<lparr>phaseDensity := d, curVehicleCounter := v\<rparr>, reset_all e)"
      "length d = length (phases s)" "fst ` set (counter v) \<subseteq> ls" using computePhaseDS_ok [OF assms(2,3)] by blast
    have "scats_ok net ls (s\<lparr>phaseDensity := d, curVehicleCounter := v, currPhaseAtGreen := k\<rparr>)"
      by (intro scats_ok_changes(3,4,5) assms(2)) (use d assms(4) in simp_all)
    with False d(1) detectors_ok_reset [OF assms(3)] show ?thesis by simp
  qed (use assms in simp)
  then obtain s4 e1 where s4: "?m = Inr (s4, e1)" "scats_ok net ls s4" "detectors_ok e1 ls" "phases s4 = phases s" "currPhaseAtGreen s4 = k"
    "currCycleTimer s4 = currCycleTimer s" "updateInterval s4 = updateInterval s" "splitPlan s4 = splitPlan s" "isNewCycle s4 = isNewCycle s"
    by blast
  have te: "tick_end cfg net e (s, k) = rbind ?m (\<lambda>(s4, e1).
      if isNewCycle s4
      then (case updateNewCycle exact (s4, e1) of (s5, e2) \<Rightarrow> rbind (initialisePhases exact s5) (\<lambda>s6. Inr (s6, e2)))
      else Inr (s4, e1))" by (simp only: tick_end_def assms(1) prod.case)
  show ?thesis
  proof (cases "isNewCycle s")
    case False
    then show ?thesis unfolding te s4(1) using s4 by simp
  next
    case True
    then have "currCycleTimer s4 < CLmin" using assms(5) s4(6) by simp
    from new_cycle_ok [OF s4(2) this, of e1] obtain s6 where s6: "initialisePhases exact (fst (updateNewCycle exact (s4, e1))) = Inr s6"
      "scats_ok net ls s6" "map shape (phases s6) = map shape (phases s4)" "currPhaseAtGreen s6 = currPhaseAtGreen s4"
      "currCycleTimer s6 = currCycleTimer s4" "updateInterval s6 = updateInterval s4" by blast
    have "snd (updateNewCycle exact (s4, e1)) = reset_all e1" by (simp add: updateNewCycle_def)
    then have "tick_end cfg net e (s, k) = Inr (s6, reset_all e1)"
      unfolding te s4(1) using True s4(9) s6(1) by (simp add: case_prod_beta)
    then show ?thesis using s6 s4 True detectors_ok_reset [OF s4(3)] by simp
  qed
qed

text \<open>A tick succeeds and keeps the invariant; the phase it ends in is the one of the plan at the time in the
  cycle; within a cycle the lights of that phase have the colours for the time in the phase.\<close>

lemma frame_tick_ok:
  assumes "sc_round cfg = exact" "scats_ok net ls s" "detectors_ok e ls"
  shows "\<exists>s1 e1. frame_tick cfg net now (s, e) = Inr (s1, e1) \<and> scats_ok net ls s1 \<and> detectors_ok e1 ls \<and>
     map shape (phases s1) = map shape (phases s) \<and> updateInterval s1 = updateInterval s \<and>
     slot (cycleLength (splitPlan s)) (curr_row s) (currPhaseAtGreen s1) (currCycleTimer s1) \<and>
     currCycleTimer s1 = currCycleTimer s + updateInterval s -
       (if currCycleTimer s + updateInterval s \<ge> cycleLength (splitPlan s) then cycleLength (splitPlan s) else 0) \<and>
     (currCycleTimer s + updateInterval s < cycleLength (splitPlan s) \<longrightarrow> splitPlan s1 = splitPlan s \<and>
       (\<forall>(f, l) \<in> set (linksMap (phases s1 ! currPhaseAtGreen s1)). currColor l =
          color_loop (to_int (currCycleTimer s1 - phaseOffset (phases s1 ! currPhaseAtGreen s1))) 0
            [(TRAFFIC_COLOUR_GREEN, to_int (phaseLength (phases s1 ! currPhaseAtGreen s1) - 4)), (TRAFFIC_COLOUR_AMBER, 3),
             (TRAFFIC_COLOUR_RED, 1)]))"
proof -
  from tick_start_ok [OF assms, of now] obtain s3 k where s3: "tick_start cfg now (s, e) = Inr (s3, k)" "scats_ok net ls s3"
    "k < length (phases s3)" "map shape (phases s3) = map shape (phases s)" "splitPlan s3 = splitPlan s"
    "updateInterval s3 = updateInterval s" "slot (cycleLength (splitPlan s)) (curr_row s) k (currCycleTimer s3)"
    "isNewCycle s3 = (currCycleTimer s + updateInterval s \<ge> cycleLength (splitPlan s))" "isNewCycle s3 \<longrightarrow> currCycleTimer s3 < CLmin"
    "currCycleTimer s3 = currCycleTimer s + updateInterval s - (if isNewCycle s3 then cycleLength (splitPlan s) else 0)"
    "\<forall>(f, l) \<in> set (linksMap (phases s3 ! k)). currColor l =
        color_loop (to_int (currCycleTimer s3 - phaseOffset (phases s3 ! k))) 0
          [(TRAFFIC_COLOUR_GREEN, to_int (phaseLength (phases s3 ! k) - 4)), (TRAFFIC_COLOUR_AMBER, 3), (TRAFFIC_COLOUR_RED, 1)]"
    by blast
  from tick_end_ok [OF assms(1) s3(2) assms(3) s3(3,9)] obtain s1 e1 where s1: "tick_end cfg net e (s3, k) = Inr (s1, e1)"
    "scats_ok net ls s1" "detectors_ok e1 ls" "map shape (phases s1) = map shape (phases s3)" "currPhaseAtGreen s1 = k"
    "currCycleTimer s1 = currCycleTimer s3" "updateInterval s1 = updateInterval s3"
    "\<not> isNewCycle s3 \<longrightarrow> splitPlan s1 = splitPlan s3 \<and> phases s1 = phases s3" by blast
  have new: "isNewCycle s3 \<longleftrightarrow> \<not> currCycleTimer s + updateInterval s < cycleLength (splitPlan s)" using s3(8) by auto
  show ?thesis
  proof (intro exI [of _ s1] exI [of _ e1] conjI)
    show "frame_tick cfg net now (s, e) = Inr (s1, e1)" using s3(1) s1(1) by (simp add: frame_tick_def)
    show "map shape (phases s1) = map shape (phases s)" using s1(4) s3(4) by simp
    show "updateInterval s1 = updateInterval s" using s1(7) s3(6) by simp
    show "slot (cycleLength (splitPlan s)) (curr_row s) (currPhaseAtGreen s1) (currCycleTimer s1)" using s3(7) s1(5,6) by simp
    show "currCycleTimer s1 = currCycleTimer s + updateInterval s -
       (if currCycleTimer s + updateInterval s \<ge> cycleLength (splitPlan s) then cycleLength (splitPlan s) else 0)"
      using s3(8,10) s1(6) by simp
    show "currCycleTimer s + updateInterval s < cycleLength (splitPlan s) \<longrightarrow> splitPlan s1 = splitPlan s \<and>
       (\<forall>(f, l) \<in> set (linksMap (phases s1 ! currPhaseAtGreen s1)). currColor l =
          color_loop (to_int (currCycleTimer s1 - phaseOffset (phases s1 ! currPhaseAtGreen s1))) 0
            [(TRAFFIC_COLOUR_GREEN, to_int (phaseLength (phases s1 ! currPhaseAtGreen s1) - 4)), (TRAFFIC_COLOUR_AMBER, 3),
             (TRAFFIC_COLOUR_RED, 1)])"
    proof
      assume "currCycleTimer s + updateInterval s < cycleLength (splitPlan s)"
      then have "splitPlan s1 = splitPlan s3" "phases s1 = phases s3" using s1(8) new by auto
      with s3(5,11) s1(5,6) show "splitPlan s1 = splitPlan s \<and>
       (\<forall>(f, l) \<in> set (linksMap (phases s1 ! currPhaseAtGreen s1)). currColor l =
          color_loop (to_int (currCycleTimer s1 - phaseOffset (phases s1 ! currPhaseAtGreen s1))) 0
            [(TRAFFIC_COLOUR_GREEN, to_int (phaseLength (phases s1 ! currPhaseAtGreen s1) - 4)), (TRAFFIC_COLOUR_AMBER, 3),
             (TRAFFIC_COLOUR_RED, 1)])" by (simp only: simp_thms)
    qed
  qed (rule s1)+
qed

section \<open>Where a signal starts\<close>

definition incoming_links :: "node \<Rightarrow> u32 list" where
  "incoming_links n = map fst (turning_groups n)"

lemma initialise_counter_lanes:
  assumes "detectors_ok e ls" "fst ` set (counter v) \<subseteq> ls"
  shows "fst ` set (counter (initialise_counter e v)) \<subseteq> ls"
proof -
  have "fst ` set (sensor_data e) = ls"
    using assms(1) unfolding detectors_ok_def same_keys_def by (metis fst_conv snd_conv set_map)
  then have k: "\<forall>x \<in> set (sensor_data e). fst x \<in> ls" by auto
  have upd: "fst ` set (ptr_map_update a n m) = fst ` set m" for a and n :: u32 and m
    using keys_ptr_map_update [of a n m] by (metis set_map)
  have step: "fst ` set ((\<lambda>m (a, _). ptr_map_update a 0 (ptr_map_insert a 0 m)) m x) = insert (fst x) (fst ` set m)"
    for m :: "(address \<times> u32) list" and x :: "address \<times> count_datum"
    by (cases x) (simp add: upd)
  have "fst ` set (foldl (\<lambda>m (a, _). ptr_map_update a 0 (ptr_map_insert a 0 m)) (counter v) (sensor_data e)) \<subseteq> ls"
    by (rule foldl_invariant [where P = "\<lambda>m. fst ` set m \<subseteq> ls", OF _ assms(2)]) (use k in \<open>simp only: step insert_subset; blast\<close>)
  then show ?thesis by (simp add: initialise_counter_def)
qed

text \<open>A signal whose turning groups name a phase, with the detectors of the same nodes, starts in the
  invariant.\<close>

lemma initialise_ok:
  assumes "s = newSignal cfg n\<lparr>nodes := ns\<rparr>" "updateInterval s \<le> CLmin"
    "createLoopDetectors dcfg net newLoopDetectorEntity (map incoming_links ns) = Inr e"
    "\<exists>n \<in> set ns. group_movements n \<noteq> {}"
    "ls = (\<Union>n \<in> set ns. \<Union>l \<in> set (incoming_links n). vehicle_lanes net l)"
  shows "\<exists>s1. initialise exact e s = Inr s1 \<and> scats_ok net ls s1 \<and> map shape (phases s1) = map shape (phases (createPhases s)) \<and>
     detectors_ok e ls \<and> splitPlan s1 = setDefaultSplitPlan (length (phases (createPhases s))) newSplitPlan \<and>
     currCycleTimer s1 = 0 \<and> currPhaseAtGreen s1 = 0 \<and> updateInterval s1 = updateInterval s \<and>
     phaseDensity s1 = replicate (length (phases s1)) 0"
proof -
  let ?s0 = "s\<lparr>curVehicleCounter := initialise_counter e (curVehicleCounter s)\<rparr>"
  let ?ps = "phases (createPhases s)"
  have dk: "detectors_ok e ls" using createLoopDetectors_ok [OF assms(3)] by (simp add: assms(5))
  have ph0: "phases s = []" "nodes s = ns" "splitPlan s = newSplitPlan" "counter (curVehicleCounter s) = []"
    by (simp_all add: assms(1) newSignal_def newCounter_def)
  have mv: "movements ?ps = (\<Union>n \<in> set ns. group_movements n)"
    using createPhases_movements [of s] ph0 by simp
  then have ne: "?ps \<noteq> []" using assms(4) by auto
  have cp: "phases (createPhases ?s0) = ?ps" "splitPlan (createPhases ?s0) = newSplitPlan"
    using ph0 by (simp_all add: createPhases_def)
  let ?s2 = "createPlans ?s0"
  have s2: "phases ?s2 = ?ps" "splitPlan ?s2 = setDefaultSplitPlan (length ?ps) newSplitPlan" "updateInterval ?s2 = updateInterval s"
    "currPhaseAtGreen ?s2 = 0" "currCycleTimer ?s2 = 0" "phaseDensity ?s2 = []"
    "curVehicleCounter ?s2 = initialise_counter e (curVehicleCounter s)"
    using ne cp by (simp_all add: createPlans_def Let_def) (simp_all add: createPhases_def assms(1) newSignal_def)
  have pok: "plan_ok (splitPlan ?s2) (length (phases ?s2))" unfolding s2(1,2) using ne by (intro plan_ok_default) simp
  have lights: "\<forall>p \<in> set ?ps. \<forall>(f, l) \<in> set (linksMap p). light_ok l"
  proof (intro ballI, clarify)
    fix p f l assume "p \<in> set ?ps" "(f, l) \<in> set (linksMap p)"
    then have "(phaseName p, f, l) \<in> movements ?ps" by (auto simp: movements_def)
    then show "light_ok l" unfolding mv by (auto simp: in_group_movements)
  qed
  have links: "links_ok net ls ?ps"
    unfolding links_ok_def
  proof (intro ballI)
    fix p f assume "p \<in> set ?ps" "f \<in> fst ` set (linksMap p)"
    then obtain l where "(f, l) \<in> set (linksMap p)" "p \<in> set ?ps" by force
    then have "(phaseName p, f, l) \<in> movements ?ps" by (auto simp: movements_def)
    then obtain n where n: "n \<in> set ns" "f \<in> set (incoming_links n)"
      unfolding mv by (force simp: in_group_movements incoming_links_def)
    obtain c d where "run_list (createLinkDetectors dcfg net) ([], []) (concat (map incoming_links ns)) = Inr (c, d)"
      using assms(3) by (auto simp: createLoopDetectors_def newLoopDetectorEntity_def result_Inr)
    moreover have "f \<in> set (concat (map incoming_links ns))" using n by auto
    ultimately obtain a b where "createLinkDetectors dcfg net a f = Inr b" using run_list_each by meson
    then have "\<exists>roads. link_segments net f = Some roads \<and> roads \<noteq> []"
      by (auto simp: createLinkDetectors_def createSegmentDetectors_def result_Inr)
    then show "link_ok net ls f" using n by (auto simp: link_ok_def assms(5))
  qed
  from initialisePhases_ok [OF pok] lights obtain ps where ps: "initialisePhases exact ?s2 = Inr (?s2\<lparr>phases := ps\<rparr>)"
    "map shape ps = map shape ?ps" "phases_ok (cycleLength (splitPlan ?s2)) (curr_row ?s2) ps" unfolding s2(1) by blast
  have len: "length ps = length ?ps" using length_shape [OF ps(2)] .
  let ?s3 = "?s2\<lparr>phases := ps, phaseDensity := replicate (length ps) 0\<rparr>"
  have "initialise exact e s = Inr ?s3" using ps(1) s2(6) by (simp add: initialise_def)
  moreover have "scats_ok net ls ?s3"
  proof -
    have "fst ` set (counter (curVehicleCounter ?s2)) \<subseteq> ls"
      unfolding s2(7) by (rule initialise_counter_lanes [OF dk]) (simp add: ph0(4))
    moreover have "0 < cycleLength (splitPlan ?s2)" using pok by (simp add: plan_ok_def)
    moreover have "curr_row ?s3 = curr_row ?s2" by (simp add: curr_row_def)
    moreover have "0 \<le> updateInterval s"
    proof -
      have "updateInterval s = real (unat (granSignalsTicks cfg * baseGranMS cfg div 1000))"
        by (simp add: assms(1) newSignal_def)
      then show ?thesis by (simp only: of_nat_0_le_iff)
    qed
    ultimately show ?thesis
      using ne len pok s2 ps(3) assms(2) links shape_links [OF ps(2), of net ls] by (auto simp: scats_ok_def)
  qed
  ultimately show ?thesis using ps(2) dk s2 by (intro exI [of _ ?s3]) simp
qed

section \<open>Runs\<close>

text \<open>The signal and its detectors are different agents: their ticks come in any order, and the data of the detectors
  are flipped between them.\<close>

datatype signal_event =
    SignalTick timeslice
  | DetectorTick "address \<Rightarrow> point" "address list \<Rightarrow> address list" "agent_view list"
  | FlipCounts

fun signal_event_step ::
  "scats_config \<Rightarrow> detector_config \<Rightarrow> network \<Rightarrow> scats \<times> loop_detector_entity \<Rightarrow> signal_event \<Rightarrow>
     (signal_error, scats \<times> loop_detector_entity) result" where
  "signal_event_step cfg dcfg net (s, e) (SignalTick now) = frame_tick cfg net now (s, e)"
| "signal_event_step cfg dcfg net (s, e) (DetectorTick pos order agents) = Inr (s, fst (detectors_tick dcfg pos order agents e))"
| "signal_event_step cfg dcfg net (s, e) FlipCounts = Inr (s, flip_sensor e)"

lemma detectors_ok_tick:
  assumes "detectors_ok e ls"
  shows "detectors_ok (fst (detectors_tick cfg pos order agents e)) ls" "detectors_ok (flip_sensor e) ls"
proof -
  obtain p where p: "pimpl e = Some p" "same_keys (sensor_data e, loopDetectors p) ls"
    using assms by (auto simp: detectors_ok_def)
  obtain dets counts f where c: "check_all (rounding cfg) pos (loopDetectors p) (sensor_data e)
      (order (vehicles_of (loopDetectors p) agents)) = (dets, counts, f)" by (metis prod.exhaust)
  have "same_keys (counts, dets) ls"
    using check_all_keys [OF c] p(2) unfolding same_keys_def fst_conv snd_conv by (metis set_map)
  then show "detectors_ok (fst (detectors_tick cfg pos order agents e)) ls"
    by (simp add: detectors_tick_def p(1) c detectors_ok_def)
  show "detectors_ok (flip_sensor e) ls"
    using p by (simp add: detectors_ok_def flip_sensor_def same_keys_def case_prod_beta comp_def)
qed

lemma signal_event_ok:
  assumes "sc_round cfg = exact" "scats_ok net ls s" "detectors_ok e ls"
  shows "\<exists>s1 e1. signal_event_step cfg dcfg net (s, e) ev = Inr (s1, e1) \<and> scats_ok net ls s1 \<and> detectors_ok e1 ls \<and>
     map shape (phases s1) = map shape (phases s)"
proof (cases ev)
  case (SignalTick now)
  then show ?thesis using frame_tick_ok [OF assms, of now] by auto
qed (use assms detectors_ok_tick in auto)

lemma signal_run_ok:
  assumes "sc_round cfg = exact" "scats_ok net ls s" "detectors_ok e ls"
  shows "\<exists>s1 e1. run_list (signal_event_step cfg dcfg net) (s, e) evs = Inr (s1, e1) \<and> scats_ok net ls s1 \<and> detectors_ok e1 ls \<and>
     map shape (phases s1) = map shape (phases s)"
  using assms(2,3)
proof (induction evs arbitrary: s e)
  case (Cons ev evs)
  from signal_event_ok [OF assms(1) Cons.prems, of dcfg ev] obtain s1 e1 where s1: "signal_event_step cfg dcfg net (s, e) ev = Inr (s1, e1)"
    "scats_ok net ls s1" "detectors_ok e1 ls" "map shape (phases s1) = map shape (phases s)" by blast
  from Cons.IH [OF s1(2,3)] s1 show ?case by (simp del: signal_event_step.simps)
qed simp

text \<open>C3: A signal with at least one phase, whose detectors were created for its nodes, never throws (exact arithmetic, an
  interval of at most 90 seconds): whatever the ticks of the signal and of its detectors and whatever the
  vehicles do, it keeps its phases with their movements, and its current phase, timer and plan stay in range.\<close>

theorem signal_never_throws:
  assumes "sc_round cfg = (\<lambda>x. x)" "s = newSignal cfg n\<lparr>nodes := ns\<rparr>" "updateInterval s \<le> CLmin"
    "createLoopDetectors dcfg net newLoopDetectorEntity (map incoming_links ns) = Inr e"
    "\<exists>n \<in> set ns. \<exists>from gs to str. (from, gs) \<in> set (turning_groups n) \<and> (to, str) \<in> set gs \<and> str \<noteq> []"
  shows "\<exists>s1 s2 e2. initialise (\<lambda>x. x) e s = Inr s1 \<and> run_list (signal_event_step cfg dcfg net) (s1, e) evs = Inr (s2, e2) \<and>
     map shape (phases s2) = map shape (phases (createPhases s)) \<and>
     currPhaseAtGreen s2 < length (phases s2) \<and> 0 \<le> currCycleTimer s2 \<and> currCycleTimer s2 < cycleLength (splitPlan s2) \<and>
     plan_ok (splitPlan s2) (length (phases s2))"
proof -
  let ?ls = "\<Union>n \<in> set ns. \<Union>l \<in> set (incoming_links n). vehicle_lanes net l"
  obtain n1 "from" gs to str where g: "n1 \<in> set ns" "(from, gs) \<in> set (turning_groups n1)" "(to, str) \<in> set gs" "str \<noteq> []"
    using assms(5) by blast
  then have "phase_names str \<noteq> []" by (cases str rule: phase_names.cases) auto
  then obtain name where "name \<in> set (phase_names str)" by (cases "phase_names str") auto
  with g have "(name, from, newToLink to) \<in> group_movements n1" by (auto simp: in_group_movements)
  with g(1) have "\<exists>n \<in> set ns. group_movements n \<noteq> {}" by blast
  from initialise_ok [OF assms(2,3,4) this refl] obtain s1 where s1: "initialise exact e s = Inr s1" "scats_ok net ?ls s1"
    "map shape (phases s1) = map shape (phases (createPhases s))" "detectors_ok e ?ls" by blast
  from signal_run_ok [OF assms(1) s1(2,4), of dcfg evs] s1(1,3) show ?thesis by (auto simp: scats_ok_def)
qed

definition net2 :: network where
  "net2 = \<lparr>link_segments = [7 \<mapsto> [[1]], 8 \<mapsto> [[3]]], lane_at = (\<lambda>a. lane1)\<rparr>"

lemma signal_never_throws_witness:
  "\<exists>e s1 s2 e2. createLoopDetectors cfg1 net2 newLoopDetectorEntity [[7, 8]] = Inr e \<and>
     initialise (\<lambda>x. x) e (newSignal scfg1 node1) = Inr s1 \<and>
     run_list (signal_event_step scfg1 cfg1 net2) (s1, e) [SignalTick \<lparr>frame = 50, ms = 5000\<rparr>, FlipCounts] = Inr (s2, e2)"
proof -
  have "\<exists>e. createLoopDetectors cfg1 net2 newLoopDetectorEntity [[7, 8]] = Inr e"
    by (simp add: createLoopDetectors_def createLinkDetectors_def createSegmentDetectors_def createLoopDetector_def
        newLoopDetectorEntity_def newLoopDetector_def net2_def cfg1_def lane1_def Let_def)
  then obtain e where e: "createLoopDetectors cfg1 net2 newLoopDetectorEntity [[7, 8]] = Inr e" by blast
  have n: "newSignal scfg1 node1 = newSignal scfg1 node1\<lparr>nodes := [node1]\<rparr>" by (simp add: newSignal_def)
  have l: "map incoming_links [node1] = [[7, 8]]" by (simp add: incoming_links_def node1_def)
  have i: "updateInterval (newSignal scfg1 node1) \<le> CLmin" by (simp add: newSignal_def scfg1_def)
  have g: "\<exists>n \<in> set [node1]. \<exists>from gs to str. (from, gs) \<in> set (turning_groups n) \<and> (to, str) \<in> set gs \<and> str \<noteq> []"
  proof (intro bexI exI conjI)
    show "(7, [(8, ''A''), (9, ''AB1'')]) \<in> set (turning_groups node1)" "(8, ''A'') \<in> set [(8, ''A''), (9, ''AB1'')]"
      by (simp_all add: node1_def)
  qed simp_all
  from signal_never_throws [of scfg1 "newSignal scfg1 node1" "[node1]" node1 cfg1 net2 e
      "[SignalTick \<lparr>frame = 50, ms = 5000\<rparr>, FlipCounts]", OF _ n i _ g] e
  show ?thesis unfolding l by (auto simp: scfg1_def)
qed

section \<open>What a driver sees\<close>

lemma getDriverLight_current:
  assumes "phases s \<noteq> []" "\<forall>(f, l) \<in> set (linksMap (phases s ! currPhaseAtGreen s)). currColor l = c"
  shows "getDriverLight s from to =
     (if \<exists>l. (from, l) \<in> set (linksMap (phases s ! currPhaseAtGreen s)) \<and> toLink l = to then c else TRAFFIC_COLOUR_RED)"
proof (cases "find (\<lambda>l. toLink l = to) (getLinkTos (phases s ! currPhaseAtGreen s) from)")
  case None
  then have "\<nexists>l. (from, l) \<in> set (linksMap (phases s ! currPhaseAtGreen s)) \<and> toLink l = to"
    by (force simp: find_None_iff getLinkTos_def)
  then show ?thesis using None assms(1) by (auto simp: getDriverLight_def)
next
  case (Some l)
  then have "l \<in> set (getLinkTos (phases s ! currPhaseAtGreen s) from)" "toLink l = to" by (auto simp: find_Some_iff)
  then have l: "(from, l) \<in> set (linksMap (phases s ! currPhaseAtGreen s))" "toLink l = to"
    by (auto simp: getLinkTos_def)
  then have "currColor l = c" using assms(2) by blast
  then show ?thesis using Some l assms(1) by (auto simp: getDriverLight_def)
qed

text \<open>C7: After a tick within a cycle, in exact arithmetic and for a signal and detectors that satisfy the invariant of a running
  signal, the current phase is the one whose share of the plan contains the time in the cycle. If the
  phase lasts at least four seconds, its lights follow their durations (green for all but four seconds, amber for three,
  red for one): a movement that is not in the phase is red; one that is in it is green until the whole seconds of the phase
  but four have passed, is no longer green from a second later on, and is amber from then on until the last second begins.
  In the second after green should end, and in the last second, nothing is claimed: the code changes the lights up to
  a second late there (\<open>phase_colours\<close>).\<close>

theorem driver_light_follows_plan:
  assumes "sc_round cfg = (\<lambda>x. x)" "scats_ok net ls s" "detectors_ok e ls"
    "currCycleTimer s + updateInterval s < cycleLength (splitPlan s)"
    "frame_tick cfg net now (s, e) = Inr (s1, e1)" "p = phases s1 ! currPhaseAtGreen s1" "4 \<le> phaseLength p"
    "lapse = currCycleTimer s1 - phaseOffset p"
  shows "currCycleTimer s1 = currCycleTimer s + updateInterval s \<and> 0 \<le> lapse \<and> lapse < phaseLength p \<and>
     ((\<nexists>l. (from, l) \<in> set (linksMap p) \<and> toLink l = to) \<longrightarrow> getDriverLight s1 from to = TRAFFIC_COLOUR_RED) \<and>
     ((\<exists>l. (from, l) \<in> set (linksMap p) \<and> toLink l = to) \<longrightarrow>
       (lapse < of_int \<lfloor>phaseLength p\<rfloor> - 4 \<longrightarrow> getDriverLight s1 from to = TRAFFIC_COLOUR_GREEN) \<and>
       (of_int \<lfloor>phaseLength p\<rfloor> - 3 \<le> lapse \<longrightarrow> getDriverLight s1 from to \<noteq> TRAFFIC_COLOUR_GREEN) \<and>
       (of_int \<lfloor>phaseLength p\<rfloor> - 3 \<le> lapse \<and> lapse < phaseLength p - 1 \<longrightarrow>
          getDriverLight s1 from to = TRAFFIC_COLOUR_AMBER))"
proof -
  have old: "\<not> currCycleTimer s + updateInterval s \<ge> cycleLength (splitPlan s)" using assms(4) by simp
  obtain s2 e2 where f: "frame_tick cfg net now (s, e) = Inr (s2, e2)" "scats_ok net ls s2"
     "slot (cycleLength (splitPlan s)) (curr_row s) (currPhaseAtGreen s2) (currCycleTimer s2)"
     "currCycleTimer s2 = currCycleTimer s + updateInterval s" "splitPlan s2 = splitPlan s"
     "\<forall>(f, l) \<in> set (linksMap (phases s2 ! currPhaseAtGreen s2)). currColor l =
          color_loop (to_int (currCycleTimer s2 - phaseOffset (phases s2 ! currPhaseAtGreen s2))) 0
            [(TRAFFIC_COLOUR_GREEN, to_int (phaseLength (phases s2 ! currPhaseAtGreen s2) - 4)), (TRAFFIC_COLOUR_AMBER, 3),
             (TRAFFIC_COLOUR_RED, 1)]"
    using frame_tick_ok [OF assms(1-3), of now] assms(4) unfolding if_not_P [OF old] diff_zero by blast
  then have [simp]: "s2 = s1" using assms(5) by simp
  have k: "currPhaseAtGreen s1 < length (phases s1)" "phases s1 \<noteq> []"
    "phases_ok (cycleLength (splitPlan s1)) (curr_row s1) (phases s1)" using f(2) by (simp_all add: scats_ok_def)
  have row: "curr_row s1 = curr_row s" using f(5) by (simp add: curr_row_def)
  have "phase_ok (cycleLength (splitPlan s)) (curr_row s ! currPhaseAtGreen s1)
      (cycleLength (splitPlan s) * sum_list (take (currPhaseAtGreen s1) (curr_row s)) / 100) p"
    using k(1,3) f(5) row by (simp add: phases_ok_def assms(6))
  then have off: "phaseOffset p \<le> currCycleTimer s1" "currCycleTimer s1 < phaseOffset p + phaseLength p"
    using f(3) by (simp_all add: phase_ok_def slot_def)
  have "0 \<le> currCycleTimer s1 - phaseOffset p" using off(1) by simp
  note c = color_loop_phase [OF assms(7) this]
  have lights: "\<forall>(f, l) \<in> set (linksMap (phases s1 ! currPhaseAtGreen s1)). currColor l =
      (if currCycleTimer s1 - phaseOffset p < of_int \<lfloor>phaseLength p\<rfloor> - 3 then TRAFFIC_COLOUR_GREEN
              else if currCycleTimer s1 - phaseOffset p < of_int \<lfloor>phaseLength p\<rfloor> then TRAFFIC_COLOUR_AMBER
              else TRAFFIC_COLOUR_RED)"
    using f(6) unfolding assms(6) \<open>s2 = s1\<close> c [unfolded assms(6)] .
  have light: "getDriverLight s1 from to =
      (if \<exists>l. (from, l) \<in> set (linksMap p) \<and> toLink l = to
       then (if lapse < of_int \<lfloor>phaseLength p\<rfloor> - 3 then TRAFFIC_COLOUR_GREEN
             else if lapse < of_int \<lfloor>phaseLength p\<rfloor> then TRAFFIC_COLOUR_AMBER else TRAFFIC_COLOUR_RED)
       else TRAFFIC_COLOUR_RED)"
    using getDriverLight_current [OF k(2) lights, of "from" "to"] unfolding assms(6,8) [symmetric] by simp
  have "lapse < phaseLength p - 1 \<Longrightarrow> lapse < of_int \<lfloor>phaseLength p\<rfloor>" by linarith
  moreover have "0 \<le> lapse" "lapse < phaseLength p" using off assms(8) by simp_all
  ultimately show ?thesis unfolding light using f(4) by auto
qed

lemma created_phases1:
  "map shape (phases (createPhases (newSignal scfg1 node1))) = [(''A'', [(7, 8), (7, 9)]), (''B1'', [(7, 9), (8, 7)])]"
  by (simp add: createPhases_def newSignal_def node1_def group_phases_def is_digit_def addLinkMapping_def newPhase_def
      shape_def)

lemma detectors1: "\<exists>e. createLoopDetectors cfg1 net2 newLoopDetectorEntity [[7, 8]] = Inr e"
  by (simp add: createLoopDetectors_def createLinkDetectors_def createSegmentDetectors_def createLoopDetector_def
      newLoopDetectorEntity_def newLoopDetector_def net2_def cfg1_def lane1_def Let_def)

lemma started1:
  assumes "createLoopDetectors cfg1 net2 newLoopDetectorEntity [[7, 8]] = Inr e"
  shows "\<exists>s1 ls. initialise exact e (newSignal scfg1 node1) = Inr s1 \<and> scats_ok net2 ls s1 \<and> detectors_ok e ls \<and>
     map shape (phases s1) = [(''A'', [(7, 8), (7, 9)]), (''B1'', [(7, 9), (8, 7)])] \<and>
     splitPlan s1 = setDefaultSplitPlan 2 newSplitPlan \<and> currCycleTimer s1 = 0 \<and> updateInterval s1 = 5"
proof -
  have n: "newSignal scfg1 node1 = newSignal scfg1 node1\<lparr>nodes := [node1]\<rparr>" by (simp add: newSignal_def)
  have l: "map incoming_links [node1] = [[7, 8]]" by (simp add: incoming_links_def node1_def)
  have i: "updateInterval (newSignal scfg1 node1) = 5" by (simp add: newSignal_def scfg1_def)
  have "(''A'', 7, newToLink 8) \<in> group_movements node1" by (auto simp: in_group_movements node1_def)
  then have g: "\<exists>n \<in> set [node1]. group_movements n \<noteq> {}" by auto
  have c: "createLoopDetectors cfg1 net2 newLoopDetectorEntity (map incoming_links [node1]) = Inr e" unfolding l by (rule assms)
  have len: "length (phases (createPhases (newSignal scfg1 node1))) = 2"
    using arg_cong [OF created_phases1, of length] by simp
  from initialise_ok [OF n _ c g refl] show ?thesis unfolding created_phases1 len i by auto
qed

lemma driver_light_follows_plan_witness:
  "\<exists>e s0 s1 e1. createLoopDetectors cfg1 net2 newLoopDetectorEntity [[7, 8]] = Inr e \<and>
     initialise (\<lambda>x. x) e (newSignal scfg1 node1) = Inr s0 \<and>
     frame_tick scfg1 net2 \<lparr>frame = 50, ms = 5000\<rparr> (s0, e) = Inr (s1, e1) \<and>
     getDriverLight s1 7 8 = TRAFFIC_COLOUR_GREEN \<and> getDriverLight s1 8 7 = TRAFFIC_COLOUR_RED"
proof -
  let ?now = "\<lparr>frame = 50, ms = 5000\<rparr> :: timeslice"
  obtain e where e: "createLoopDetectors cfg1 net2 newLoopDetectorEntity [[7, 8]] = Inr e" using detectors1 by blast
  from started1 [OF e] obtain s0 ls where s0: "initialise exact e (newSignal scfg1 node1) = Inr s0" "scats_ok net2 ls s0"
    "detectors_ok e ls" "map shape (phases s0) = [(''A'', [(7, 8), (7, 9)]), (''B1'', [(7, 9), (8, 7)])]"
    "splitPlan s0 = setDefaultSplitPlan 2 newSplitPlan" "currCycleTimer s0 = 0" "updateInterval s0 = 5"
    by (elim exE conjE) (rule that)
  have r: "sc_round scfg1 = exact" by (simp add: scfg1_def)
  have row: "curr_row s0 = [50, 50]" "cycleLength (splitPlan s0) = 180"
    unfolding curr_row_def s0(5)
    by (simp_all add: setDefaultSplitPlan_def fill_def newSplitPlan_def default_choices.simps upt_rec numeral_eq_Suc)
  have within: "currCycleTimer s0 + updateInterval s0 < cycleLength (splitPlan s0)" unfolding s0(6,7) row(2) by simp
  then have old: "\<not> currCycleTimer s0 + updateInterval s0 \<ge> cycleLength (splitPlan s0)" by simp
  obtain s1 e1 where s1: "frame_tick scfg1 net2 ?now (s0, e) = Inr (s1, e1)" "scats_ok net2 ls s1"
    "map shape (phases s1) = map shape (phases s0)" "slot (cycleLength (splitPlan s0)) (curr_row s0) (currPhaseAtGreen s1) (currCycleTimer s1)"
    "currCycleTimer s1 = currCycleTimer s0 + updateInterval s0" "splitPlan s1 = splitPlan s0"
    using frame_tick_ok [OF r s0(2,3), of ?now] within unfolding if_not_P [OF old] diff_zero by blast
  have ps: "map shape (phases s1) = [(''A'', [(7, 8), (7, 9)]), (''B1'', [(7, 9), (8, 7)])]" using s1(3) s0(4) by simp
  have "length (map shape (phases s1)) = 2" unfolding ps by simp
  then have len: "length (phases s1) = 2" by simp
  have k2: "currPhaseAtGreen s1 < 2" using s1(2) len by (simp add: scats_ok_def)
  have k: "currPhaseAtGreen s1 = 0"
    using k2 s1(4) unfolding row s1(5) s0(6,7) by (auto simp: slot_def less_Suc_eq numeral_2_eq_2)
  have "phases_ok (cycleLength (splitPlan s1)) (curr_row s1) (phases s1)" using s1(2) by (simp add: scats_ok_def)
  then have "\<forall>i < 2. phase_ok 180 ([50, 50] ! i) (180 * sum_list (take i [50, 50]) / 100) (phases s1 ! i)"
    using len row s1(6) by (simp add: phases_ok_def curr_row_def)
  from spec [OF this, of 0] have "phase_ok 180 50 0 (phases s1 ! 0)" by simp
  then have p: "phaseLength (phases s1 ! currPhaseAtGreen s1) = 90" "phaseOffset (phases s1 ! currPhaseAtGreen s1) = 0"
    unfolding k by (simp_all add: phase_ok_def)
  have "map shape (phases s1) ! 0 = (''A'', [(7, 8), (7, 9)])" unfolding ps by simp
  then have "shape (phases s1 ! 0) = (''A'', [(7, 8), (7, 9)])" using len by simp
  then have m: "map (\<lambda>(f, l). (f, toLink l)) (linksMap (phases s1 ! currPhaseAtGreen s1)) = [(7, 8), (7, 9)]"
    unfolding k by (simp add: shape_def)
  have in_phase: "(\<exists>l. (f, l) \<in> set (linksMap (phases s1 ! currPhaseAtGreen s1)) \<and> toLink l = t) \<longleftrightarrow> (f, t) \<in> {(7, 8), (7, 9)}" for f t
  proof -
    have "(f, t) \<in> set (map (\<lambda>(f, l). (f, toLink l)) (linksMap (phases s1 ! currPhaseAtGreen s1))) \<longleftrightarrow>
        (\<exists>l. (f, l) \<in> set (linksMap (phases s1 ! currPhaseAtGreen s1)) \<and> toLink l = t)" by force
    then show ?thesis unfolding m by simp
  qed
  have "4 \<le> phaseLength (phases s1 ! currPhaseAtGreen s1)" using p by simp
  note d = driver_light_follows_plan [OF r s0(2,3) within s1(1) refl this refl]
  have "getDriverLight s1 7 8 = TRAFFIC_COLOUR_GREEN" "getDriverLight s1 8 7 = TRAFFIC_COLOUR_RED"
    using d [of 7 8] d [of 8 7] s0(6,7) unfolding in_phase p by simp_all
  with e s0(1) s1(1) show ?thesis by blast
qed

section \<open>Signals that do not work\<close>

text \<open>The interval in seconds is the quotient of the integers: what is left of a second is lost.\<close>

lemma interval_truncated:
  "updateInterval (newSignal cfg n) = of_nat (unat (granSignalsTicks cfg * baseGranMS cfg) div 1000)"
  by (simp add: newSignal_def unat_div)

lemma frame_tick_stuck:
  assumes "sc_round cfg = exact" "scats_ok net ls s" "detectors_ok e ls" "updateInterval s = 0"
    "frame_tick cfg net now (s, e) = Inr (s1, e1)"
  shows "currCycleTimer s1 = currCycleTimer s" "splitPlan s1 = splitPlan s" "updateInterval s1 = 0"
    "slot (cycleLength (splitPlan s)) (curr_row s) (currPhaseAtGreen s1) (currCycleTimer s)"
proof -
  have "currCycleTimer s + updateInterval s < cycleLength (splitPlan s)" using assms(2,4) by (simp add: scats_ok_def)
  with frame_tick_ok [OF assms(1-3), of now] assms(4,5)
  show "currCycleTimer s1 = currCycleTimer s" "splitPlan s1 = splitPlan s" "updateInterval s1 = 0"
    "slot (cycleLength (splitPlan s)) (curr_row s) (currPhaseAtGreen s1) (currCycleTimer s)" by auto
qed

lemma slot_at_start:
  assumes "slot len row k 0" "0 < len" "k < length row" "0 < row ! 0" "\<forall>x \<in> set row. 0 \<le> x"
  shows "k = 0"
proof (cases k)
  case (Suc j)
  have "row \<noteq> []" using assms(3) by auto
  then obtain x xs where row: "row = x # xs" by (cases row) auto
  have "0 \<le> sum_list (take j xs)" using assms(5) by (intro sum_list_nonneg) (auto simp: row dest: in_set_takeD)
  then have "0 < sum_list (take k row)" using assms(4) by (simp add: row Suc)
  then have "0 < len * sum_list (take k row) / 100" using assms(2) by simp
  with assms(1) show ?thesis by (simp add: slot_def)
qed

text \<open>If the ticks of the signals are shorter than a second, a signal stays in its first phase for ever.\<close>

theorem subsecond_signal_stuck:
  assumes "sc_round cfg = (\<lambda>x. x)" "s = newSignal cfg n\<lparr>nodes := ns\<rparr>" "unat (granSignalsTicks cfg * baseGranMS cfg) < 1000"
    "createLoopDetectors dcfg net newLoopDetectorEntity (map incoming_links ns) = Inr e"
    "\<exists>n \<in> set ns. group_movements n \<noteq> {}"
  shows "\<exists>s1 s2 e2. initialise (\<lambda>x. x) e s = Inr s1 \<and> run_list (signal_event_step cfg dcfg net) (s1, e) evs = Inr (s2, e2) \<and>
     currPhaseAtGreen s2 = 0 \<and> currCycleTimer s2 = 0 \<and> splitPlan s2 = splitPlan s1"
proof -
  let ?ls = "\<Union>n \<in> set ns. \<Union>l \<in> set (incoming_links n). vehicle_lanes net l"
  let ?n = "length (phases (createPhases s))"
  have "updateInterval s = of_nat (unat (granSignalsTicks cfg * baseGranMS cfg) div 1000)"
    using interval_truncated [of cfg n] by (simp add: assms(2))
  then have i0: "updateInterval s = 0" by (simp only: div_less [OF assms(3)] of_nat_0)
  then have i: "updateInterval s \<le> CLmin" by simp
  from initialise_ok [OF assms(2) i assms(4,5) refl] obtain s1 where s1: "initialise exact e s = Inr s1" "scats_ok net ?ls s1"
    "detectors_ok e ?ls" "splitPlan s1 = setDefaultSplitPlan ?n newSplitPlan" "currCycleTimer s1 = 0" "currPhaseAtGreen s1 = 0"
    "updateInterval s1 = updateInterval s" "map shape (phases s1) = map shape (phases (createPhases s))" by blast
  have len: "length (phases s1) = ?n" using length_shape [OF s1(8)] .
  then have n: "0 < ?n" using s1(2) by (auto simp: scats_ok_def)
  have "curr_row s1 \<in> set (choiceSet (splitPlan s1))"
    using s1(2) by (simp add: curr_row_def scats_ok_def plan_ok_def)
  moreover have c: "choiceSet newSplitPlan = []" by (simp add: newSplitPlan_def)
  ultimately obtain r where r: "r \<in> set (default_choices ?n)" "curr_row s1 = r @ replicate (?n - 7) 0"
    unfolding s1(4) setDefaultSplitPlan_rows [OF n c] by auto
  note d = default_choices_rows [OF n r(1)]
  have "0 < length r" unfolding d(1) using n by (simp only: min_less_iff_conj zero_less_numeral simp_thms)
  then have "10 \<le> r ! 0" "curr_row s1 ! 0 = r ! 0" using d(3) by (simp_all add: r(2) nth_append)
  then have row: "0 < curr_row s1 ! 0" by simp
  have "0 \<le> x" if "x \<in> set r" for x using d(3) that by fastforce
  then have row0: "\<forall>x \<in> set (curr_row s1). 0 \<le> x" by (auto simp: r(2))
  have "\<exists>s2 e2. run_list (signal_event_step cfg dcfg net) (t, f) evs = Inr (s2, e2) \<and> currPhaseAtGreen s2 = 0 \<and>
      currCycleTimer s2 = 0 \<and> splitPlan s2 = splitPlan s1"
    if "scats_ok net ?ls t" "detectors_ok f ?ls" "currPhaseAtGreen t = 0" "currCycleTimer t = 0" "splitPlan t = splitPlan s1"
      "updateInterval t = 0" "length (phases t) = length (phases s1)" for t f
    using that
  proof (induction evs arbitrary: t f)
    case (Cons ev evs)
    from signal_event_ok [OF assms(1) Cons.prems(1,2), of dcfg ev] obtain t1 f1 where t1: "signal_event_step cfg dcfg net (t, f) ev = Inr (t1, f1)"
      "scats_ok net ?ls t1" "detectors_ok f1 ?ls" "map shape (phases t1) = map shape (phases t)" by blast
    have same: "currPhaseAtGreen t1 = 0 \<and> currCycleTimer t1 = 0 \<and> splitPlan t1 = splitPlan s1 \<and> updateInterval t1 = 0"
    proof (cases ev)
      case (SignalTick now)
      with t1(1) have "frame_tick cfg net now (t, f) = Inr (t1, f1)" by simp
      note st = frame_tick_stuck [OF assms(1) Cons.prems(1,2,6) this]
      have "curr_row t = curr_row s1" using Cons.prems(5) by (simp add: curr_row_def)
      moreover have "currPhaseAtGreen t1 < length (curr_row s1)"
        using t1(2) length_shape [OF t1(4)] Cons.prems(7) s1(2) by (simp add: scats_ok_def phases_ok_def)
      moreover have "0 < cycleLength (splitPlan t)" using Cons.prems(1) by (simp add: scats_ok_def)
      ultimately have "currPhaseAtGreen t1 = 0"
        using slot_at_start [OF _ _ _ row row0] st(4) Cons.prems(4) by simp
      with st Cons.prems(4,5) show ?thesis by simp
    qed (use t1(1) Cons.prems in auto)
    have "length (phases t1) = length (phases s1)" using length_shape [OF t1(4)] Cons.prems(7) by simp
    with Cons.IH [OF t1(2,3)] same t1(1) show ?case by simp
  qed simp
  from this [OF s1(2,3)] s1(1,5,6,7) i0 show ?thesis by auto
qed

definition scfg2 :: scats_config where
  "scfg2 = scfg1\<lparr>granSignalsTicks := 5\<rparr>"

lemma subsecond_signal_stuck_witness:
  "\<exists>e s1 s2 e2. createLoopDetectors cfg1 net2 newLoopDetectorEntity [[7, 8]] = Inr e \<and>
     initialise (\<lambda>x. x) e (newSignal scfg2 node1) = Inr s1 \<and>
     run_list (signal_event_step scfg2 cfg1 net2) (s1, e) (replicate 1000 (SignalTick \<lparr>frame = 5, ms = 500\<rparr>)) = Inr (s2, e2) \<and>
     currPhaseAtGreen s2 = 0"
proof -
  obtain e where e: "createLoopDetectors cfg1 net2 newLoopDetectorEntity [[7, 8]] = Inr e" using detectors1 by blast
  have n: "newSignal scfg2 node1 = newSignal scfg2 node1\<lparr>nodes := [node1]\<rparr>" by (simp add: newSignal_def)
  have l: "map incoming_links [node1] = [[7, 8]]" by (simp add: incoming_links_def node1_def)
  have "(''A'', 7, newToLink 8) \<in> group_movements node1" by (auto simp: in_group_movements node1_def)
  then have g: "\<exists>n \<in> set [node1]. group_movements n \<noteq> {}" by auto
  have u: "unat (granSignalsTicks scfg2 * baseGranMS scfg2) < 1000" by (simp add: scfg2_def scfg1_def)
  have r: "sc_round scfg2 = (\<lambda>x. x)" by (simp add: scfg2_def scfg1_def)
  have "createLoopDetectors cfg1 net2 newLoopDetectorEntity (map incoming_links [node1]) = Inr e" unfolding l by (rule e)
  from subsecond_signal_stuck [OF r n u this g] e show ?thesis by blast
qed

section \<open>The counts that are logged\<close>

lemma update_counts_values:
  assumes "update_counts e xs = Inr ys"
  shows "ys = map (\<lambda>(a, n). (a, n + ucast (vehicleCount (projr (getCountAndTimePair e a))))) xs"
  using assms
proof (induction xs arbitrary: ys)
  case (Cons x xs)
  then show ?case by (cases x) (auto simp: rbind_Inr split: sum.splits)
qed simp

text \<open>The lines that are written at a time if the counters were 0: what the detectors have counted since their last
  reset.\<close>

definition readings :: "loop_detector_entity \<Rightarrow> u32 \<Rightarrow> u32 \<Rightarrow> address list \<Rightarrow> count_line list" where
  "readings e light time lanes =
     map (\<lambda>a. \<lparr>line_time = time, line_signal = light, line_lane = a,
       line_count = ucast (vehicleCount (projr (getCountAndTimePair e a)))\<rparr>) lanes"

lemma aggregate_once:
  assumes "countsEnabled cfg" "light \<noteq> 0" "detectors_ok e ls" "fst ` set (counter v) \<subseteq> ls" "\<forall>(a, n) \<in> set (counter v). n = 0"
    "ms now \<noteq> 0" "ms now mod frequency v = 0"
  shows "\<exists>w. aggregateCounts cfg light now e v = Inr w \<and> counter w = counter v \<and> frequency w = frequency v \<and>
     count_log w = count_log v @ readings e light (ms now) (map fst (counter v))"
proof -
  obtain ys where ys: "update_counts e (counter v) = Inr ys" "map fst ys = map fst (counter v)"
    using update_counts_ok [OF assms(3,4)] by blast
  note y = update_counts_values [OF ys(1)]
  have z: "map (\<lambda>(a, _). (a, 0)) ys = counter v"
    unfolding y by (rule nth_equalityI) (use assms(5) in \<open>auto simp: case_prod_beta all_set_conv_all_nth prod_eq_iff\<close>)
  have l: "map (\<lambda>(a, n). \<lparr>line_time = ms now, line_signal = light, line_lane = a, line_count = n\<rparr>) ys =
      readings e light (ms now) (map fst (counter v))"
    unfolding y readings_def using assms(5) by auto
  show ?thesis
    using assms(1,2,6,7) ys(1) z l
    by (simp add: aggregateCounts_def update_counter_def Let_def serialize_def resetCounter_def)
qed

text \<open>The counts are written every time the interval of aggregation ends, but a detector is reset only when a phase ends:
  two aggregations within a phase write the vehicles counted before the first one twice.\<close>

theorem counts_written_twice:
  assumes "countsEnabled cfg" "light \<noteq> 0" "detectors_ok e ls" "fst ` set (counter v) \<subseteq> ls" "\<forall>(a, n) \<in> set (counter v). n = 0"
    "ms t1 \<noteq> 0" "ms t1 mod frequency v = 0" "ms t2 \<noteq> 0" "ms t2 mod frequency v = 0"
  shows "\<exists>w. rbind (aggregateCounts cfg light t1 e v) (aggregateCounts cfg light t2 e) = Inr w \<and>
     count_log w = count_log v @ readings e light (ms t1) (map fst (counter v)) @ readings e light (ms t2) (map fst (counter v))"
proof -
  obtain v1 where v1: "aggregateCounts cfg light t1 e v = Inr v1" "counter v1 = counter v" "frequency v1 = frequency v"
    "count_log v1 = count_log v @ readings e light (ms t1) (map fst (counter v))"
    using aggregate_once [OF assms(1-7)] by blast
  from aggregate_once [OF assms(1-3), of v1 t2] v1 assms(4,5,8,9) show ?thesis by auto
qed

lemma counts_written_twice_witness:
  "\<exists>e w. createLoopDetectors cfg1 net2 newLoopDetectorEntity [[7, 8]] = Inr e \<and>
     rbind (aggregateCounts scfg1 4 \<lparr>frame = 6000, ms = 600000\<rparr> e (initialise_counter e (newCounter scfg1)))
       (aggregateCounts scfg1 4 \<lparr>frame = 12000, ms = 1200000\<rparr> e) = Inr w"
proof -
  obtain e where e: "createLoopDetectors cfg1 net2 newLoopDetectorEntity [[7, 8]] = Inr e" using detectors1 by blast
  from started1 [OF e] obtain ls where ls: "detectors_ok e ls" by blast
  let ?v = "initialise_counter e (newCounter scfg1)"
  have k: "fst ` set (counter ?v) \<subseteq> ls" by (rule initialise_counter_lanes [OF ls]) (simp add: newCounter_def)
  have "\<forall>(a, n) \<in> set (counter ?v). n = 0"
    unfolding initialise_counter_def
    by (simp, rule foldl_invariant [where P = "\<lambda>m. \<forall>(a, n) \<in> set m. n = 0"])
      (auto simp: ptr_map_update_def ptr_map_insert_def set_insort_key newCounter_def)
  from counts_written_twice [OF _ _ ls k this, of scfg1 4 "\<lparr>frame = 6000, ms = 600000\<rparr>" "\<lparr>frame = 12000, ms = 1200000\<rparr>"] e
  show ?thesis by (auto simp: scfg1_def initialise_counter_def newCounter_def)
qed

section \<open>The density of a single phase\<close>

lemma tick_density:
  assumes "frame_tick cfg net now (s, e) = Inr (s1, e1)" "currPhaseAtGreen s1 = currPhaseAtGreen s"
  shows "phaseDensity s1 = phaseDensity s \<or> phaseDensity s1 = map (\<lambda>_. 0) (phaseDensity s)"
proof -
  obtain s3 k where s3: "tick_start cfg now (s, e) = Inr (s3, k)" "tick_end cfg net e (s3, k) = Inr (s1, e1)"
    using assms(1) by (auto simp: frame_tick_def rbind_Inr)
  have d: "phaseDensity s3 = phaseDensity s" "currPhaseAtGreen s3 = currPhaseAtGreen s"
    using s3(1) by (auto simp: tick_start_def result_Inr Let_def updateCurrCycleTimer_def split: if_splits)
  have init: "phaseDensity x = phaseDensity y \<and> currPhaseAtGreen x = currPhaseAtGreen y" if "initialisePhases r y = Inr x" for r x y
    using that by (auto simp: initialisePhases_def result_Inr Let_def)
  show ?thesis
  proof (cases "currPhaseAtGreen s3 = k")
    case True
    then show ?thesis
      using s3(2) d by (auto simp: tick_end_def updateNewCycle_def resetCycle_def rbind_Inr dest!: init split: if_splits)
  next
    case False
    have "currPhaseAtGreen s1 = k"
      using s3(2) False by (auto simp: tick_end_def updateNewCycle_def resetCycle_def rbind_Inr dest!: init split: if_splits)
    then show ?thesis using False d(2) assms(2) by simp
  qed
qed

text \<open>A signal with a single phase never measures its saturation: it stays at 0, whatever its detectors count.\<close>

theorem single_phase_density_zero:
  assumes "sc_round cfg = (\<lambda>x. x)" "scats_ok net ls s" "detectors_ok e ls" "length (phases s) = 1" "phaseDensity s = [0]"
  shows "\<exists>s1 e1. run_list (signal_event_step cfg dcfg net) (s, e) evs = Inr (s1, e1) \<and> phaseDensity s1 = [0]"
  using assms(2-5)
proof (induction evs arbitrary: s e)
  case (Cons ev evs)
  from signal_event_ok [OF assms(1) Cons.prems(1,2), of dcfg ev] obtain s1 e1 where s1: "signal_event_step cfg dcfg net (s, e) ev = Inr (s1, e1)"
    "scats_ok net ls s1" "detectors_ok e1 ls" "map shape (phases s1) = map shape (phases s)" by blast
  have len: "length (phases s1) = 1" using length_shape [OF s1(4)] Cons.prems(3) by simp
  have "currPhaseAtGreen s1 = currPhaseAtGreen s"
    using s1(2) Cons.prems(1,3) len by (simp add: scats_ok_def)
  then have "phaseDensity s1 = [0]"
  proof (cases ev)
    case (SignalTick now)
    with s1(1) have "frame_tick cfg net now (s, e) = Inr (s1, e1)" by simp
    from tick_density [OF this \<open>currPhaseAtGreen s1 = currPhaseAtGreen s\<close>] Cons.prems(4) show ?thesis by auto
  qed (use s1(1) Cons.prems(4) in auto)
  with Cons.IH [OF s1(2,3) len] s1(1) show ?case by simp
qed simp

definition node2 :: node where
  "node2 = \<lparr>node_light = 4, turning_groups = [(7, [(8, ''A'')])]\<rparr>"

lemma single_phase_density_zero_witness:
  "\<exists>e s1 s2 e2. createLoopDetectors cfg1 net2 newLoopDetectorEntity [[7]] = Inr e \<and>
     initialise (\<lambda>x. x) e (newSignal scfg1 node2) = Inr s1 \<and>
     run_list (signal_event_step scfg1 cfg1 net2) (s1, e) [FlipCounts, SignalTick \<lparr>frame = 50, ms = 5000\<rparr>] = Inr (s2, e2) \<and>
     phaseDensity s2 = [0]"
proof -
  have "\<exists>e. createLoopDetectors cfg1 net2 newLoopDetectorEntity [[7]] = Inr e"
    by (simp add: createLoopDetectors_def createLinkDetectors_def createSegmentDetectors_def createLoopDetector_def
      newLoopDetectorEntity_def newLoopDetector_def net2_def cfg1_def lane1_def Let_def)
  then obtain e where e: "createLoopDetectors cfg1 net2 newLoopDetectorEntity [[7]] = Inr e" by blast
  have n: "newSignal scfg1 node2 = newSignal scfg1 node2\<lparr>nodes := [node2]\<rparr>" by (simp add: newSignal_def)
  have l: "map incoming_links [node2] = [[7]]" by (simp add: incoming_links_def node2_def)
  have i: "updateInterval (newSignal scfg1 node2) \<le> CLmin" by (simp add: newSignal_def scfg1_def)
  have "(''A'', 7, newToLink 8) \<in> group_movements node2" by (auto simp: in_group_movements node2_def)
  then have g: "\<exists>n \<in> set [node2]. group_movements n \<noteq> {}" by auto
  have c: "createLoopDetectors cfg1 net2 newLoopDetectorEntity (map incoming_links [node2]) = Inr e" unfolding l by (rule e)
  have ph: "length (phases (createPhases (newSignal scfg1 node2))) = 1"
    by (simp add: createPhases_def newSignal_def node2_def group_phases_def)
  let ?ls = "\<Union>n \<in> set [node2]. \<Union>l \<in> set (incoming_links n). vehicle_lanes net2 l"
  from initialise_ok [OF n i c g refl] obtain s1 where s1: "initialise exact e (newSignal scfg1 node2) = Inr s1" "scats_ok net2 ?ls s1"
    "map shape (phases s1) = map shape (phases (createPhases (newSignal scfg1 node2)))" "detectors_ok e ?ls"
    "phaseDensity s1 = replicate (length (phases s1)) 0" by blast
  have len: "length (phases s1) = 1" using length_shape [OF s1(3)] ph by simp
  have r: "sc_round scfg1 = (\<lambda>x. x)" by (simp add: scfg1_def)
  have "phaseDensity s1 = [0]" using s1(5) len by simp
  from single_phase_density_zero [OF r s1(2,4) len this] s1(1) e show ?thesis by blast
qed

section \<open>One signal for every id\<close>

definition signals_std :: "(u32 \<times> scats) list \<Rightarrow> bool" where
  "signals_std m \<longleftrightarrow> sorted (map fst m) \<and> distinct (map fst m)"

lemma insert_signal_keys: "set (insert_signal k s m) = insert (k, s) (set m)"
  by (induction k s m rule: insert_signal.induct) auto

lemma insert_signal_std: "signals_std m \<Longrightarrow> k \<notin> fst ` set m \<Longrightarrow> signals_std (insert_signal k s m)"
proof (induction m)
  case (Cons x m)
  obtain k1 s1 where x: "x = (k1, s1)" by (cases x)
  have tl: "signals_std m" "\<forall>y \<in> fst ` set m. k1 \<le> y" "k1 \<notin> fst ` set m" using Cons.prems(1) by (auto simp: signals_std_def x)
  show ?case
  proof (cases "k < k1")
    case True
    then have "\<forall>y \<in> fst ` set m. k \<le> y" using tl(2) by force
    then show ?thesis using True Cons.prems by (auto simp: signals_std_def x)
  next
    case False
    then have "k1 < k" using Cons.prems(2) by (auto simp: x order_less_le)
    moreover have "signals_std (insert_signal k s m)" using Cons.IH [OF tl(1)] Cons.prems(2) by simp
    ultimately show ?thesis
      using tl(2,3) False by (auto simp: signals_std_def x insert_signal_keys)
  qed
qed (simp add: signals_std_def)

lemma map_of_insert_signal: "k \<notin> fst ` set m \<Longrightarrow> map_of (insert_signal k s m) = (map_of m)(k \<mapsto> s)"
  by (induction m) (auto simp: fun_eq_iff)

lemma map_of_replace: "map_of (map (\<lambda>(k1, s). (k1, if k1 = k then f s else s)) m) = (\<lambda>x. if x = k then map_option f (map_of m x) else map_of m x)"
  by (induction m) (auto simp: fun_eq_iff)

text \<open>Every id of a traffic light that is not 0 has one signal: that of the first node with the id, with all the nodes
  that have it.\<close>

theorem one_signal_per_id:
  "signals_std (createTrafficSignals cfg ns) \<and>
   getSignal (createTrafficSignals cfg ns) k =
     (case filter (\<lambda>n. node_light n = k) ns of
        [] \<Rightarrow> None
      | n # same \<Rightarrow> if k = 0 then None else Some ((newSignal cfg n)\<lparr>nodes := n # same\<rparr>))"
proof (induction ns arbitrary: k rule: rev_induct)
  case Nil
  then show ?case by (simp add: createTrafficSignals_def signals_std_def getSignal_def)
next
  case (snoc x ns)
  let ?m = "createTrafficSignals cfg ns" and ?k = "node_light x"
  have step: "createTrafficSignals cfg (ns @ [x]) = node_signal cfg ?m x" by (simp add: createTrafficSignals_def)
  have m: "map_of ?m j = (case filter (\<lambda>n. node_light n = j) ns of [] \<Rightarrow> None
      | n # same \<Rightarrow> if j = 0 then None else Some ((newSignal cfg n)\<lparr>nodes := n # same\<rparr>))" for j
    using snoc [of j] by (simp add: getSignal_def)
  have std: "signals_std ?m" using snoc by blast
  show ?case
  proof (cases "?k = 0")
    case True
    then show ?thesis unfolding step using std m [of k] by (auto simp: node_signal_def getSignal_def split: list.splits)
  next
    case False
    show ?thesis
    proof (cases "filter (\<lambda>n. node_light n = ?k) ns")
      case Nil
      then have n: "map_of ?m ?k = None" using m [of ?k] by simp
      then have "?k \<notin> fst ` set ?m" by (simp add: map_of_eq_None_iff)
      with std n False Nil m [of k] show ?thesis
        unfolding step by (auto simp: node_signal_def getSignal_def Let_def map_of_insert_signal insert_signal_std newSignal_def split: list.splits)
    next
      case (Cons n same)
      then have n: "map_of ?m ?k = Some ((newSignal cfg n)\<lparr>nodes := n # same\<rparr>)" using m [of ?k] False by simp
      let ?m1 = "map (\<lambda>(k1, s). (k1, if k1 = ?k then addNode s x else s)) ?m"
      have eq: "node_signal cfg ?m x = ?m1" using False n by (simp add: node_signal_def Let_def)
      have "map fst ?m1 = map fst ?m" by (simp add: case_prod_beta comp_def)
      then have "signals_std ?m1" using std unfolding signals_std_def by (simp only:)
      moreover have "map_of ?m1 k = (if k = ?k then map_option (\<lambda>s. addNode s x) (map_of ?m k) else map_of ?m k)"
        by (simp only: map_of_replace)
      ultimately show ?thesis
        unfolding step eq getSignal_def using n False Cons m [of k] by (auto simp: addNode_def split: list.splits)
    qed
  qed
qed

end
