(* ===== verification/Intersection_Manager.thy ===== *)
theory Intersection_Manager
  imports SM_Types Complex_Main
begin

text \<open>
  Intersections without a signal: \<open>short/entities/IntersectionManager.cpp\<close>. Drivers ask the manager of a
  node for the time at which they may enter; it answers every request of a tick in the order of arrival,
  keeping a distance in time to the vehicle ahead on the same turning and to vehicles on conflicting turnings.
  A \<open>double\<close> is a real number, every operation rounds with \<open>im_round\<close>. Incrementing the end of a list is
  an error. The turnings of the network and their conflicts are arguments.
\<close>

section \<open>State\<close>

record access =
  arrivalTime :: real
  turningId :: u32

record int_env =
  im_round :: "real \<Rightarrow> real"
  turnings :: "u32 list"
  conflicting :: "u32 \<Rightarrow> u32 \<Rightarrow> bool"
  tailgate_separation_time :: real
  conflict_separation_time :: real

text \<open>A request comes with the agent that sent it.\<close>

record int_manager =
  intMgrId :: u32
  mapOfPrevAccessTimes :: "u32 \<rightharpoonup> real"
  receivedRequests :: "(access \<times> address) list"
  sentResponses :: "access list"
  tailgateSeparationTime :: real
  conflictSeparationTime :: real

datatype int_error = PastTheEnd | UnknownTurning

datatype int_message = RequestArrivalTime access address | OtherMessage

definition newIntManager :: "u32 \<Rightarrow> int_manager" where
  "newIntManager i =
     \<lparr>intMgrId = i, mapOfPrevAccessTimes = Map.empty, receivedRequests = [], sentResponses = [], tailgateSeparationTime = 0,
      conflictSeparationTime = 0\<rparr>"

text \<open>The managers of the network, by the id of the node; a node is given with the id of its traffic light.\<close>

definition CreateIntersectionManagers :: "(u32 \<times> u32) list \<Rightarrow> (u32 \<times> int_manager) list" where
  "CreateIntersectionManagers ns = map (\<lambda>(i, _). (i, newIntManager i)) (filter (\<lambda>(_, light). light = 0) ns)"

definition getIntManager :: "(u32 \<times> int_manager) list \<Rightarrow> u32 \<Rightarrow> int_manager option" where
  "getIntManager mgrs i = map_of mgrs i"

section \<open>Operations\<close>

definition im_HandleMessage :: "int_message \<Rightarrow> int_manager \<Rightarrow> int_manager" where
  "im_HandleMessage m s =
     (case m of RequestArrivalTime a who \<Rightarrow> s\<lparr>receivedRequests := receivedRequests s @ [(a, who)]\<rparr> | OtherMessage \<Rightarrow> s)"

definition im_frame_init :: "int_env \<Rightarrow> int_manager \<Rightarrow> int_manager" where
  "im_frame_init env s =
     (let s1 = s\<lparr>tailgateSeparationTime := tailgate_separation_time env, conflictSeparationTime := conflict_separation_time env\<rparr>
      in s1\<lparr>mapOfPrevAccessTimes :=
           foldl (\<lambda>m t. if t \<in> dom m then m else m(t \<mapsto> - tailgateSeparationTime s1)) (mapOfPrevAccessTimes s1) (turnings env)\<rparr>)"

text \<open>The turning of the request is looked at only if there is a response to compare it with.\<close>

definition getConflicts :: "int_env \<Rightarrow> u32 \<Rightarrow> access list \<Rightarrow> (int_error, access list) result" where
  "getConflicts env t sent =
     guard UnknownTurning (sent = [] \<or> t \<in> set (turnings env)) (Inr (filter (\<lambda>c. conflicting env t (turningId c)) sent))"

text \<open>The loop that erases elements while it walks over the list: it steps over the element after an erased
  one, and past the end if there is none.\<close>

fun erase_loop :: "('a \<Rightarrow> bool) \<Rightarrow> 'a list \<Rightarrow> (int_error, 'a list) result" where
  "erase_loop P [] = Inr []"
| "erase_loop P [x] = (if P x then Inl PastTheEnd else Inr [x])"
| "erase_loop P (x # y # xs) =
     (if P x then rbind (erase_loop P xs) (\<lambda>ys. Inr (y # ys)) else rbind (erase_loop P (y # xs)) (\<lambda>ys. Inr (x # ys)))"

definition filterConflicts :: "int_env \<Rightarrow> int_manager \<Rightarrow> real \<Rightarrow> access list \<Rightarrow> (int_error, access list) result" where
  "filterConflicts env s accessTime cs =
     rbind (erase_loop (\<lambda>c. im_round env (arrivalTime c + conflictSeparationTime s) < accessTime) cs)
       (\<lambda>cs. Inr (sort_key arrivalTime cs))"

definition cpp_max :: "real \<Rightarrow> real \<Rightarrow> real" where
  "cpp_max a b = (if a < b then b else a)"

text \<open>The search for a gap between two consecutive conflicts; it ends at the first gap that starts after the
  access time.\<close>

fun gap_loop :: "(real \<Rightarrow> real) \<Rightarrow> real \<Rightarrow> real \<Rightarrow> bool \<Rightarrow> real list \<Rightarrow> real \<times> bool" where
  "gap_loop r T2 a found (c # d # cs) =
     (if r (d - c) \<ge> r (2 * T2)
      then (let gap = r (c + T2)
            in if a < gap then (gap, True)
               else gap_loop r T2 a (if r (d - a) \<ge> T2 then True else found) (d # cs))
      else gap_loop r T2 a found (d # cs))"
| "gap_loop r T2 a found cs = (a, found)"

definition avoid_conflicts :: "(real \<Rightarrow> real) \<Rightarrow> real \<Rightarrow> real \<Rightarrow> real list \<Rightarrow> real" where
  "avoid_conflicts r T2 a cs =
     (if cs = [] then a
      else if hd cs < r (a + T2)
      then (case gap_loop r T2 a False cs of (a1, found) \<Rightarrow> if found then a1 else cpp_max a1 (r (last cs + T2)))
      else a)"

text \<open>The body of the loop over the requests; the response that is sent is the last of \<open>sentResponses\<close>. The
  map of access times gets an entry of 0 for a turning it does not know.\<close>

definition grant_access :: "int_env \<Rightarrow> int_manager \<times> (address \<times> access) list \<Rightarrow> access \<times> address \<Rightarrow>
    (int_error, int_manager \<times> (address \<times> access) list) result" where
  "grant_access env so q =
     (case so of (s, out) \<Rightarrow> case q of (a, who) \<Rightarrow>
        let t = turningId a; r = im_round env;
            prev = (case mapOfPrevAccessTimes s t of None \<Rightarrow> 0 | Some p \<Rightarrow> p);
            accessTime = cpp_max (arrivalTime a) (r (prev + tailgateSeparationTime s))
        in rbind (getConflicts env t (sentResponses s)) (\<lambda>cs.
           rbind (filterConflicts env s accessTime cs) (\<lambda>cs.
             let accessTime1 = avoid_conflicts r (conflictSeparationTime s) accessTime (map arrivalTime cs);
                 response = \<lparr>arrivalTime = accessTime1, turningId = t\<rparr>
             in Inr (s\<lparr>mapOfPrevAccessTimes := (mapOfPrevAccessTimes s)(t \<mapsto> accessTime1),
                       sentResponses := sentResponses s @ [response]\<rparr>, out @ [(who, response)]))))"

definition sort_requests :: "(access \<times> address) list \<Rightarrow> (access \<times> address) list" where
  "sort_requests qs = sort_key (\<lambda>q. arrivalTime (fst q)) qs"

definition im_frame_tick :: "int_env \<Rightarrow> int_manager \<Rightarrow> (int_error, int_manager \<times> (address \<times> access) list) result" where
  "im_frame_tick env s =
     (let s1 = s\<lparr>receivedRequests := sort_requests (receivedRequests s)\<rparr>
      in run_list (grant_access env) (s1, []) (receivedRequests s1))"

text \<open>The seconds of the tick are an integer quotient.\<close>

definition im_frame_output :: "timeslice \<Rightarrow> int_manager \<Rightarrow> (int_error, int_manager) result" where
  "im_frame_output now s =
     rbind (erase_loop (\<lambda>c. arrivalTime c \<le> of_nat (unat (ms now div 1000))) (sentResponses s))
       (\<lambda>cs. Inr (s\<lparr>receivedRequests := [], sentResponses := cs\<rparr>))"

section \<open>The loops that erase\<close>

lemma erase_loop_set:
  "erase_loop P xs = Inr ys \<Longrightarrow> set ys \<subseteq> set xs \<and> (\<forall>x \<in> set xs. x \<in> set ys \<or> P x)"
proof (induction P xs arbitrary: ys rule: erase_loop.induct)
  case (3 P x y xs)
  then show ?case by (fastforce simp: rbind_Inr split: if_splits)
qed (auto split: if_splits)

text \<open>The loops that erase elements of a list step past its end exactly if the number of elements to be erased at the
  end of the list is odd; in particular if the last one is to be erased and the one before it is not.\<close>

theorem erase_loop_past_end:
  "erase_loop P xs = Inl PastTheEnd \<longleftrightarrow> odd (length (takeWhile P (rev xs)))"
proof (induction P xs rule: erase_loop.induct)
  case (3 P x y xs)
  have l: "length (takeWhile P (rev (a # zs))) =
      (if \<forall>z \<in> set zs. P z then length zs + (if P a then 1 else 0) else length (takeWhile P (rev zs)))"
    for a and zs :: "'a list"
  proof (cases "\<forall>z \<in> set zs. P z")
    case True
    then have "takeWhile P (rev zs @ [a]) = rev zs @ takeWhile P [a]" by (intro takeWhile_append2) simp
    with True show ?thesis by simp
  next
    case False
    then obtain z where "z \<in> set (rev zs)" "\<not> P z" by auto
    from takeWhile_append1 [of z "rev zs" P "[a]", OF this] show ?thesis unfolding if_not_P [OF False] by simp
  qed
  have a: "length (takeWhile P (rev zs)) = length zs" if "\<forall>z \<in> set zs. P z" for zs :: "'a list"
    using that by (simp add: takeWhile_eq_all_conv [THEN iffD2])
  have err: "rbind m (\<lambda>ys. Inr (f ys)) = Inl e \<longleftrightarrow> m = Inl e" for m :: "(int_error, 'a list) result" and f e
    by (cases m) simp_all
  show ?case
  proof (cases "P x")
    case True
    have "odd (length (takeWhile P (rev (x # y # xs)))) \<longleftrightarrow> odd (length (takeWhile P (rev xs)))"
      using a [of xs] by (auto simp only: l True set_simps ball_simps if_True length_Cons split: if_splits) simp_all
    then show ?thesis using 3(1) [OF True] True by (simp only: erase_loop.simps if_True err)
  next
    case False
    have "odd (length (takeWhile P (rev (x # y # xs)))) \<longleftrightarrow> odd (length (takeWhile P (rev (y # xs))))"
      using a [of "y # xs"] by (auto simp only: l [of x] False if_False split: if_splits) simp_all
    then show ?thesis using 3(2) [OF False] False by (simp only: erase_loop.simps if_False err)
  qed
qed simp_all

section \<open>Access times keep their distance\<close>

abbreviation (input) "exactly \<equiv> (\<lambda>x :: real. x)"

text \<open>An access time is free of conflicts if it is \<open>T2\<close> away from every one of them.\<close>

definition apart :: "real \<Rightarrow> real \<Rightarrow> real list \<Rightarrow> bool" where
  "apart T2 a cs \<longleftrightarrow> (\<forall>c \<in> set cs. T2 \<le> \<bar>a - c\<bar>)"

lemma gap_loop_later: "a \<le> fst (gap_loop exactly T2 a f cs)"
  by (induction "exactly" T2 a f cs rule: gap_loop.induct) (auto simp: Let_def)

lemma gap_loop_not_found: "snd (gap_loop exactly T2 a f cs) = False \<Longrightarrow> fst (gap_loop exactly T2 a f cs) = a"
  by (induction "exactly" T2 a f cs rule: gap_loop.induct) (auto simp: Let_def split: if_splits)

text \<open>What holds when a gap has been found: the time is apart from the conflicts from here on, and it is either
  behind the first of them or the time the loop came with.\<close>

lemma gap_loop_found:
  "gap_loop exactly T2 a f (c # cs) = (b, True) \<Longrightarrow> sorted (c # cs) \<Longrightarrow> 0 \<le> T2 \<Longrightarrow> (f \<Longrightarrow> apart T2 a (c # cs)) \<Longrightarrow>
     apart T2 b (c # cs) \<and> (c + T2 \<le> b \<or> f \<and> b = a)"
proof (induction cs arbitrary: c f)
  case Nil
  then show ?case by simp
next
  case (Cons d cs)
  have srt: "sorted (d # cs)" "c \<le> d" "\<forall>x \<in> set (d # cs). d \<le> x" using Cons.prems(2) by auto
  show ?case
  proof (cases "2 * T2 \<le> d - c")
    case True
    show ?thesis
    proof (cases "a < c + T2")
      case less: True
      then have b: "b = c + T2" using Cons.prems(1) True by (simp add: Let_def)
      have "T2 \<le> \<bar>b - x\<bar>" if "x \<in> set (d # cs)" for x
        using srt(3) that True Cons.prems(3) unfolding b by fastforce
      then show ?thesis using Cons.prems(3) unfolding b by (auto simp: apart_def)
    next
      case False
      let ?f = "if d - a \<ge> T2 then True else f"
      have g: "gap_loop exactly T2 a ?f (d # cs) = (b, True)" using Cons.prems(1) True False by (simp add: Let_def)
      have af: "apart T2 a (d # cs)" if ?f
      proof (cases "d - a \<ge> T2")
        case True
        then show ?thesis using srt(3) unfolding apart_def by fastforce
      next
        case False
        with that have f by simp
        then show ?thesis using Cons.prems(4) by (simp add: apart_def)
      qed
      have ih: "apart T2 b (d # cs) \<and> (d + T2 \<le> b \<or> ?f \<and> b = a)"
        by (rule Cons.IH [OF g srt(1) Cons.prems(3)]) (rule af)
      then have "c + T2 \<le> b" using srt(2) False by auto
      with ih show ?thesis by (auto simp: apart_def)
    qed
  next
    case False
    then have g: "gap_loop exactly T2 a f (d # cs) = (b, True)" using Cons.prems(1) by simp
    have ih: "apart T2 b (d # cs) \<and> (d + T2 \<le> b \<or> f \<and> b = a)"
      by (rule Cons.IH [OF g srt(1) Cons.prems(3)]) (use Cons.prems(4) in \<open>simp add: apart_def\<close>)
    then have "c + T2 \<le> b \<or> f \<and> b = a" using srt(2) by auto
    moreover from this have "T2 \<le> \<bar>b - c\<bar>" using Cons.prems(4) by (auto simp: apart_def)
    ultimately show ?thesis using ih by (simp add: apart_def)
  qed
qed

lemma avoid_conflicts_apart:
  assumes "sorted cs" "0 \<le> T2"
  shows "apart T2 (avoid_conflicts exactly T2 a cs) cs" "a \<le> avoid_conflicts exactly T2 a cs"
proof -
  have first: "apart T2 a cs" if "cs \<noteq> []" "\<not> hd cs < a + T2"
    using that assms(1) by (cases cs) (force simp: apart_def)+
  have last: "apart T2 (cpp_max a (last cs + T2)) cs" if "cs \<noteq> []"
  proof -
    have "\<forall>c \<in> set cs. c \<le> last cs"
      using assms(1) by (induction cs) auto
    then show ?thesis by (force simp: apart_def cpp_max_def)
  qed
  obtain b f where g: "gap_loop exactly T2 a False cs = (b, f)" by fastforce
  have nf: "b = a" if "\<not> f" using gap_loop_not_found [of T2 a False cs] g that by simp
  have fd: "apart T2 b cs" if f
    using that g assms gap_loop_found [of T2 a False "hd cs" "tl cs" b] by (cases cs) auto
  show "apart T2 (avoid_conflicts exactly T2 a cs) cs"
  proof (cases "cs = []")
    case False
    then show ?thesis using first last nf fd g by (auto simp: avoid_conflicts_def)
  qed (simp add: apart_def)
  show "a \<le> avoid_conflicts exactly T2 a cs"
    using gap_loop_later [of a T2 False cs] g by (auto simp: avoid_conflicts_def cpp_max_def)
qed

text \<open>One request: the response is apart from every response already sent on a conflicting turning.\<close>

definition grant_spec :: "int_env \<Rightarrow> int_manager \<Rightarrow> access \<Rightarrow> access \<Rightarrow> bool" where
  "grant_spec env s a g \<longleftrightarrow>
     turningId g = turningId a \<and> arrivalTime a \<le> arrivalTime g \<and>
     (case mapOfPrevAccessTimes s (turningId a) of None \<Rightarrow> 0 | Some p \<Rightarrow> p) + tailgateSeparationTime s \<le> arrivalTime g \<and>
     (\<forall>c \<in> set (sentResponses s). conflicting env (turningId a) (turningId c) \<longrightarrow>
        conflictSeparationTime s \<le> \<bar>arrivalTime g - arrivalTime c\<bar>)"

lemma grant_access_spec:
  assumes "grant_access env (s, out) (a, who) = Inr (s1, out1)" "im_round env = exactly" "0 \<le> conflictSeparationTime s"
  shows "\<exists>g. s1 = s\<lparr>mapOfPrevAccessTimes := (mapOfPrevAccessTimes s)(turningId a \<mapsto> arrivalTime g),
       sentResponses := sentResponses s @ [g]\<rparr> \<and> out1 = out @ [(who, g)] \<and> grant_spec env s a g"
proof -
  let ?t = "turningId a" and ?T1 = "tailgateSeparationTime s" and ?T2 = "conflictSeparationTime s"
  let ?prev = "case mapOfPrevAccessTimes s ?t of None \<Rightarrow> 0 | Some p \<Rightarrow> p"
  let ?acc = "cpp_max (arrivalTime a) (?prev + ?T1)"
  let ?all = "filter (\<lambda>c. conflicting env ?t (turningId c)) (sentResponses s)"
  obtain left where left: "erase_loop (\<lambda>c. arrivalTime c + ?T2 < ?acc) ?all = Inr left"
    and s1: "s1 = s\<lparr>mapOfPrevAccessTimes := (mapOfPrevAccessTimes s)(?t \<mapsto> avoid_conflicts exactly ?T2 ?acc (map arrivalTime (sort_key arrivalTime left))),
       sentResponses := sentResponses s @ [\<lparr>arrivalTime = avoid_conflicts exactly ?T2 ?acc (map arrivalTime (sort_key arrivalTime left)), turningId = ?t\<rparr>]\<rparr>"
    and out1: "out1 = out @ [(who, \<lparr>arrivalTime = avoid_conflicts exactly ?T2 ?acc (map arrivalTime (sort_key arrivalTime left)), turningId = ?t\<rparr>)]"
    using assms(1) by (auto simp: grant_access_def assms(2) Let_def getConflicts_def filterConflicts_def result_Inr)
  let ?cs = "map arrivalTime (sort_key arrivalTime left)"
  let ?g = "avoid_conflicts exactly ?T2 ?acc ?cs"
  have srt: "sorted ?cs" by (rule sorted_sort_key)
  note av = avoid_conflicts_apart [OF srt assms(3), of ?acc]
  have "?T2 \<le> \<bar>?g - arrivalTime c\<bar>" if c: "c \<in> set (sentResponses s)" "conflicting env ?t (turningId c)" for c
  proof (cases "c \<in> set left")
    case True
    then show ?thesis using av(1) by (auto simp: apart_def)
  next
    case False
    then have "arrivalTime c + ?T2 < ?acc" using erase_loop_set [OF left] c by auto
    with av(2) show ?thesis by linarith
  qed
  moreover have "arrivalTime a \<le> ?g" "?prev + ?T1 \<le> ?g" using av(2) by (auto simp: cpp_max_def split: if_splits)
  ultimately show ?thesis
    using s1 out1 by (intro exI [of _ "\<lparr>arrivalTime = ?g, turningId = ?t\<rparr>"]) (simp add: grant_spec_def)
qed

section \<open>Runs of a manager\<close>

text \<open>The reachable states, with all the access times granted so far.\<close>

inductive int_run :: "int_env \<Rightarrow> int_manager \<Rightarrow> access list \<Rightarrow> bool" for env where
  start: "int_run env (im_frame_init env (newIntManager i)) []"
| message: "int_run env s h \<Longrightarrow> int_run env (im_HandleMessage m s) h"
| tick: "int_run env s h \<Longrightarrow> im_frame_tick env s = Inr (s1, out) \<Longrightarrow> int_run env s1 (h @ map snd out)"
| clear_output: "int_run env s h \<Longrightarrow> im_frame_output now s = Inr s1 \<Longrightarrow> int_run env s1 h"

definition conflict_free :: "int_env \<Rightarrow> access list \<Rightarrow> bool" where
  "conflict_free env xs \<longleftrightarrow>
     sorted_wrt (\<lambda>c g. conflicting env (turningId g) (turningId c) \<longrightarrow>
       conflict_separation_time env \<le> \<bar>arrivalTime g - arrivalTime c\<bar>) xs"

definition single_file_per_turning :: "int_env \<Rightarrow> access list \<Rightarrow> bool" where
  "single_file_per_turning env xs \<longleftrightarrow>
     sorted_wrt (\<lambda>c g. turningId c = turningId g \<longrightarrow> arrivalTime c + tailgate_separation_time env \<le> arrivalTime g) xs"

definition int_inv :: "int_env \<Rightarrow> int_manager \<Rightarrow> access list \<Rightarrow> bool" where
  "int_inv env s h \<longleftrightarrow>
     tailgateSeparationTime s = tailgate_separation_time env \<and> conflictSeparationTime s = conflict_separation_time env \<and>
     conflict_free env (sentResponses s) \<and> single_file_per_turning env h \<and>
     (\<forall>g \<in> set h. \<exists>p. mapOfPrevAccessTimes s (turningId g) = Some p \<and> arrivalTime g \<le> p)"

lemma erase_loop_sorted_wrt: "erase_loop P xs = Inr ys \<Longrightarrow> sorted_wrt R xs \<Longrightarrow> sorted_wrt R ys"
proof (induction P xs arbitrary: ys rule: erase_loop.induct)
  case (3 P x y xs)
  show ?case
  proof (cases "P x")
    case True
    then obtain zs where zs: "erase_loop P xs = Inr zs" "ys = y # zs" using 3(3) by (auto simp: rbind_Inr)
    then show ?thesis using 3(1) [OF True zs(1)] 3(4) erase_loop_set [OF zs(1)] by auto
  next
    case False
    then obtain zs where zs: "erase_loop P (y # xs) = Inr zs" "ys = x # zs" using 3(3) by (auto simp: rbind_Inr)
    then show ?thesis using 3(2) [OF False zs(1)] 3(4) erase_loop_set [OF zs(1)] by auto
  qed
qed (auto split: if_splits)

lemma int_inv_grant:
  assumes "int_inv env s h" "im_round env = exactly" "0 \<le> tailgate_separation_time env" "0 \<le> conflict_separation_time env"
    "grant_access env (s, out) q = Inr (s1, out1)"
  shows "\<exists>g. out1 = out @ [(snd q, g)] \<and> int_inv env s1 (h @ [g]) \<and> sentResponses s1 = sentResponses s @ [g] \<and>
     turningId g = turningId (fst q) \<and> arrivalTime (fst q) \<le> arrivalTime g \<and> receivedRequests s1 = receivedRequests s"
proof -
  obtain a who where q: "q = (a, who)" by (cases q)
  have T: "tailgateSeparationTime s = tailgate_separation_time env" "conflictSeparationTime s = conflict_separation_time env"
    using assms(1) by (simp_all add: int_inv_def)
  from grant_access_spec [OF assms(5) [unfolded q] assms(2)] assms(4) T(2) obtain g where
    g: "s1 = s\<lparr>mapOfPrevAccessTimes := (mapOfPrevAccessTimes s)(turningId a \<mapsto> arrivalTime g), sentResponses := sentResponses s @ [g]\<rparr>"
    "out1 = out @ [(who, g)]" "grant_spec env s a g" by auto
  note sp = g(3) [unfolded grant_spec_def T]
  have prev: "arrivalTime c + tailgate_separation_time env \<le> arrivalTime g" if c: "c \<in> set h" "turningId c = turningId g" for c
  proof -
    obtain p where "mapOfPrevAccessTimes s (turningId c) = Some p" "arrivalTime c \<le> p"
      using assms(1) c(1) by (auto simp: int_inv_def)
    with sp c(2) show ?thesis by simp
  qed
  have "conflict_free env (sentResponses s @ [g])"
    using assms(1) sp by (auto simp: int_inv_def conflict_free_def sorted_wrt_append)
  moreover have "single_file_per_turning env (h @ [g])"
    using assms(1) prev by (auto simp: int_inv_def single_file_per_turning_def sorted_wrt_append)
  moreover have "\<exists>p. ((mapOfPrevAccessTimes s)(turningId a \<mapsto> arrivalTime g)) (turningId c) = Some p \<and> arrivalTime c \<le> p"
    if "c \<in> set (h @ [g])" for c
    using that assms(1,3) prev [of c] sp by (auto simp: int_inv_def)
  ultimately have "int_inv env s1 (h @ [g])" using T by (simp add: int_inv_def g(1))
  then show ?thesis using g sp by (simp add: q)
qed

lemma int_inv_grants:
  assumes "im_round env = exactly" "0 \<le> tailgate_separation_time env" "0 \<le> conflict_separation_time env"
  shows "run_list (grant_access env) (s, out) qs = Inr (s1, out1) \<Longrightarrow> int_inv env s h \<Longrightarrow>
     \<exists>gs. out1 = out @ zip (map snd qs) gs \<and> length gs = length qs \<and> int_inv env s1 (h @ gs) \<and> sentResponses s1 = sentResponses s @ gs \<and>
       list_all2 (\<lambda>q g. turningId g = turningId (fst q) \<and> arrivalTime (fst q) \<le> arrivalTime g) qs gs \<and>
       receivedRequests s1 = receivedRequests s"
proof (induction qs arbitrary: s out h)
  case (Cons q qs)
  from Cons.prems(1) obtain s2 out2 where s2: "grant_access env (s, out) q = Inr (s2, out2)"
    "run_list (grant_access env) (s2, out2) qs = Inr (s1, out1)" by (auto split: sum.splits)
  from int_inv_grant [OF Cons.prems(2) assms s2(1)] obtain g where g: "out2 = out @ [(snd q, g)]" "int_inv env s2 (h @ [g])"
    "sentResponses s2 = sentResponses s @ [g]" "turningId g = turningId (fst q)" "arrivalTime (fst q) \<le> arrivalTime g"
    "receivedRequests s2 = receivedRequests s" by blast
  from Cons.IH [OF s2(2) g(2)] obtain gs where gs: "out1 = out2 @ zip (map snd qs) gs" "length gs = length qs"
    "int_inv env s1 ((h @ [g]) @ gs)" "sentResponses s1 = sentResponses s2 @ gs"
    "list_all2 (\<lambda>q g. turningId g = turningId (fst q) \<and> arrivalTime (fst q) \<le> arrivalTime g) qs gs"
    "receivedRequests s1 = receivedRequests s2" by blast
  show ?case
    by (rule exI [of _ "g # gs"]) (use g gs in simp)
qed simp

lemma int_inv_received [simp]: "int_inv env (s\<lparr>receivedRequests := qs\<rparr>) h \<longleftrightarrow> int_inv env s h"
  by (simp add: int_inv_def)

lemma int_run_inv:
  assumes "int_run env s h" "im_round env = exactly" "0 \<le> tailgate_separation_time env" "0 \<le> conflict_separation_time env"
  shows "int_inv env s h"
  using assms(1)
proof induction
  case (start i)
  then show ?case
    by (simp add: im_frame_init_def newIntManager_def int_inv_def Let_def conflict_free_def single_file_per_turning_def)
next
  case (message s h m)
  then show ?case by (cases m) (simp_all add: im_HandleMessage_def)
next
  case (tick s h s1 out)
  from tick(2) have "run_list (grant_access env) (s\<lparr>receivedRequests := sort_requests (receivedRequests s)\<rparr>, [])
      (sort_requests (receivedRequests s)) = Inr (s1, out)" by (simp add: im_frame_tick_def Let_def)
  from int_inv_grants [OF assms(2-4) this, of h] tick(3) obtain gs where gs: "out = zip (map snd (sort_requests (receivedRequests s))) gs"
    "length gs = length (sort_requests (receivedRequests s))" "int_inv env s1 (h @ gs)" by auto
  then show ?case by simp
next
  case (clear_output s h now s1)
  from clear_output(2) obtain cs where cs: "erase_loop (\<lambda>c. arrivalTime c \<le> of_nat (unat (ms now div 1000))) (sentResponses s) = Inr cs"
    "s1 = s\<lparr>receivedRequests := [], sentResponses := cs\<rparr>" by (auto simp: im_frame_output_def result_Inr)
  have "conflict_free env cs"
    using clear_output(3) erase_loop_sorted_wrt [OF cs(1)] by (simp add: int_inv_def conflict_free_def)
  with clear_output(3) show ?case by (simp add: cs(2) int_inv_def)
qed

text \<open>A tick answers every request once, in the order of arrival, each to its sender, for its turning and not before
  its arrival.\<close>

theorem tick_answers_by_arrival:
  assumes "im_round env = (\<lambda>x. x)" "0 \<le> tailgate_separation_time env" "0 \<le> conflict_separation_time env" "int_run env s h"
    "im_frame_tick env s = Inr (s1, out)"
  shows "\<exists>qs. mset qs = mset (receivedRequests s) \<and> sorted (map (\<lambda>q. arrivalTime (fst q)) qs) \<and>
     list_all2 (\<lambda>q r. fst r = snd q \<and> turningId (snd r) = turningId (fst q) \<and> arrivalTime (fst q) \<le> arrivalTime (snd r)) qs out \<and>
     sentResponses s1 = sentResponses s @ map snd out"
proof -
  let ?qs = "sort_requests (receivedRequests s)"
  have "run_list (grant_access env) (s\<lparr>receivedRequests := ?qs\<rparr>, []) ?qs = Inr (s1, out)"
    using assms(5) by (simp add: im_frame_tick_def Let_def)
  from int_inv_grants [OF assms(1-3) this, of h] int_run_inv [OF assms(4,1-3)] obtain gs where gs: "out = zip (map snd ?qs) gs"
    "length gs = length ?qs" "sentResponses s1 = sentResponses s @ gs"
    "list_all2 (\<lambda>q g. turningId g = turningId (fst q) \<and> arrivalTime (fst q) \<le> arrivalTime g) ?qs gs" by auto
  have "list_all2 (\<lambda>q r. fst r = snd q \<and> turningId (snd r) = turningId (fst q) \<and> arrivalTime (fst q) \<le> arrivalTime (snd r)) ?qs out"
    using gs(2,4) unfolding gs(1) by (auto simp: list_all2_conv_all_nth)
  moreover have "mset ?qs = mset (receivedRequests s)" "sorted (map (\<lambda>q. arrivalTime (fst q)) ?qs)"
    by (simp_all add: sort_requests_def)
  moreover have "map snd out = gs" using gs(1,2) by simp
  ultimately show ?thesis using gs(3) by blast
qed

text \<open>C15: In exact arithmetic and with separation times that are not negative, in every reachable state the responses that the manager
  still remembers are at least the conflict separation apart where their turnings conflict, and all access times ever granted on a turning follow each other with at least the
  tailgate separation, in the order in which they were granted.\<close>

theorem access_times_separated:
  assumes "int_run env s h" "im_round env = (\<lambda>x. x)" "0 \<le> tailgate_separation_time env" "0 \<le> conflict_separation_time env"
    "i < j"
  shows "(j < length (sentResponses s) \<longrightarrow> conflicting env (turningId (sentResponses s ! j)) (turningId (sentResponses s ! i)) \<longrightarrow>
       conflict_separation_time env \<le> \<bar>arrivalTime (sentResponses s ! j) - arrivalTime (sentResponses s ! i)\<bar>) \<and>
     (j < length h \<longrightarrow> turningId (h ! i) = turningId (h ! j) \<longrightarrow>
       arrivalTime (h ! i) + tailgate_separation_time env \<le> arrivalTime (h ! j))"
  using int_run_inv [OF assms(1-4)] assms(5)
  by (auto simp: int_inv_def conflict_free_def single_file_per_turning_def sorted_wrt_iff_nth_less)

section \<open>Examples\<close>

text \<open>Turnings 1 and 2 conflict. Vehicles 5 and 6 ask for 10 and 11 seconds.\<close>

definition env1 :: int_env where
  "env1 = \<lparr>im_round = (\<lambda>x. x), turnings = [1, 2, 3], conflicting = (\<lambda>a b. a = 1 \<and> b = 2 \<or> a = 2 \<and> b = 1), tailgate_separation_time = 1,
     conflict_separation_time = 5 / 2\<rparr>"

definition ask :: "real \<Rightarrow> u32 \<Rightarrow> address \<Rightarrow> int_message" where
  "ask t turning who = RequestArrivalTime \<lparr>arrivalTime = t, turningId = turning\<rparr> who"

definition asked1 :: int_manager where
  "asked1 = im_HandleMessage (ask 10 1 5) (im_HandleMessage (ask 11 2 6) (im_frame_init env1 (newIntManager 9)))"

lemma asked1_run: "int_run env1 asked1 []"
  unfolding asked1_def by (intro int_run.intros)

lemmas im_eval = env1_def ask_def im_HandleMessage_def im_frame_init_def newIntManager_def im_frame_tick_def sort_requests_def
  grant_access_def getConflicts_def filterConflicts_def avoid_conflicts_def cpp_max_def Let_def insort_key.simps

lemma asked1_tick:
  "\<exists>s1. im_frame_tick env1 asked1 = Inr (s1, [(5, \<lparr>arrivalTime = 10, turningId = 1\<rparr>), (6, \<lparr>arrivalTime = 25 / 2, turningId = 2\<rparr>)]) \<and>
     sentResponses s1 = [\<lparr>arrivalTime = 10, turningId = 1\<rparr>, \<lparr>arrivalTime = 25 / 2, turningId = 2\<rparr>]"
  by (simp add: asked1_def im_eval)

lemma tick_answers_by_arrival_witness:
  "\<exists>s1 out. im_frame_tick env1 asked1 = Inr (s1, out) \<and> sentResponses s1 = map snd out"
proof -
  obtain s1 out where t: "im_frame_tick env1 asked1 = Inr (s1, out)" using asked1_tick by blast
  have "sentResponses asked1 = []" by (simp add: asked1_def im_eval)
  with tick_answers_by_arrival [OF _ _ _ asked1_run t] t show ?thesis by (simp add: env1_def) blast
qed

lemma access_times_separated_witness:
  "\<exists>s1 h. int_run env1 s1 h \<and> length (sentResponses s1) = 2 \<and>
     5 / 2 \<le> \<bar>arrivalTime (sentResponses s1 ! 1) - arrivalTime (sentResponses s1 ! 0)\<bar>"
proof -
  obtain s1 where t: "im_frame_tick env1 asked1 = Inr (s1, [(5, \<lparr>arrivalTime = 10, turningId = 1\<rparr>), (6, \<lparr>arrivalTime = 25 / 2, turningId = 2\<rparr>)])"
    "sentResponses s1 = [\<lparr>arrivalTime = 10, turningId = 1\<rparr>, \<lparr>arrivalTime = 25 / 2, turningId = 2\<rparr>]" using asked1_tick by blast
  have run: "int_run env1 s1 [\<lparr>arrivalTime = 10, turningId = 1\<rparr>, \<lparr>arrivalTime = 25 / 2, turningId = 2\<rparr>]"
    using int_run.tick [OF asked1_run t(1)] by simp
  have "5 / 2 \<le> \<bar>arrivalTime (sentResponses s1 ! 1) - arrivalTime (sentResponses s1 ! 0)\<bar>"
    using access_times_separated [OF run, of 0 1] t(2) by (simp add: env1_def)
  with run t(2) show ?thesis by (intro exI [of _ s1] exI conjI) simp_all
qed

text \<open>A response is forgotten when its time has come, not when it is the separation away: after it a vehicle on a
  conflicting turning is let in within the separation.\<close>

theorem expired_response_ignored:
  "\<exists>s h g. int_run env1 s h \<and> g \<in> set h \<and> (\<exists>c \<in> set h. conflicting env1 (turningId g) (turningId c) \<and>
     \<bar>arrivalTime g - arrivalTime c\<bar> < conflict_separation_time env1)"
proof -
  let ?s0 = "im_HandleMessage (ask 10 1 5) (im_HandleMessage (ask 20 3 6) (im_frame_init env1 (newIntManager 9)))"
  let ?h1 = "[\<lparr>arrivalTime = 10, turningId = 1\<rparr>, \<lparr>arrivalTime = 20, turningId = 3\<rparr>]"
  let ?s1 = "?s0\<lparr>receivedRequests := [(\<lparr>arrivalTime = 10, turningId = 1\<rparr>, 5), (\<lparr>arrivalTime = 20, turningId = 3\<rparr>, 6)],
     mapOfPrevAccessTimes := [1 \<mapsto> 10, 2 \<mapsto> - 1, 3 \<mapsto> 20], sentResponses := ?h1\<rparr>"
  have r0: "int_run env1 ?s0 []" by (intro int_run.intros)
  have t1: "im_frame_tick env1 ?s0 = Inr (?s1, zip [5, 6] ?h1)"
    by (simp add: im_eval fun_upd_twist)
  have r1: "int_run env1 ?s1 ?h1" using int_run.tick [OF r0 t1] by simp
  let ?s2 = "?s1\<lparr>receivedRequests := [], sentResponses := [\<lparr>arrivalTime = 20, turningId = 3\<rparr>]\<rparr>"
  have "im_frame_output \<lparr>frame = 100, ms = 10000\<rparr> ?s1 = Inr ?s2" by (simp add: im_frame_output_def)
  with r1 have "int_run env1 ?s2 ?h1" by (rule int_run.clear_output)
  then have r3: "int_run env1 (im_HandleMessage (ask 11 2 7) ?s2) ?h1" by (rule int_run.message)
  have "\<exists>s3. im_frame_tick env1 (im_HandleMessage (ask 11 2 7) ?s2) = Inr (s3, [(7, \<lparr>arrivalTime = 11, turningId = 2\<rparr>)])"
    by (simp add: im_eval)
  then obtain s3 where "im_frame_tick env1 (im_HandleMessage (ask 11 2 7) ?s2) = Inr (s3, [(7, \<lparr>arrivalTime = 11, turningId = 2\<rparr>)])"
    by blast
  from int_run.tick [OF r3 this] have "int_run env1 s3 (?h1 @ [\<lparr>arrivalTime = 11, turningId = 2\<rparr>])" by simp
  then show ?thesis
    by (intro exI [of _ s3] exI [of _ "?h1 @ [\<lparr>arrivalTime = 11, turningId = 2\<rparr>]"] exI [of _ "\<lparr>arrivalTime = 11, turningId = 2\<rparr>"])
      (simp add: env1_def)
qed

text \<open>The search does not stop at a gap that the vehicle already fits into: it is sent to a later one.\<close>

theorem free_gap_passed_over:
  "apart (5 / 2) (11 / 2) [3, 10, 20] \<and> avoid_conflicts (\<lambda>x. x) (5 / 2) (11 / 2) [3, 10, 20] = 25 / 2"
  by (simp add: apart_def avoid_conflicts_def Let_def)

end
