(* ===== verification/Lane_Stats.thy ===== *)
theory Lane_Stats
  imports SM_Types Complex_Main
begin

text \<open>
  The mid-term supply, part one: the persons as the network sees them (\<open>medium/entities/Person_MT.hpp\<close>, their
  roles and vehicles) and the statistics of one lane (classes \<open>LaneParams\<close> and \<open>LaneStats\<close> of
  \<open>medium/entities/conflux/SegmentStats.cpp\<close>): the list of persons ordered by their distance to the end of the
  segment, the counters of queuing and moving persons and vehicle lengths, and the output counter. The counters
  refine a list of entries (person, length, queuing); the lane is run as an inductive relation that carries this list.
\<close>

section \<open>Persons\<close>

datatype role_type = RL_UNKNOWN | RL_DRIVER | RL_BIKER | RL_PEDESTRIAN | RL_TRAVELPEDESTRIAN | RL_BUSDRIVER | RL_ACTIVITY
  | RL_PASSENGER | RL_WAITBUSACTIVITY | RL_WAITTAXIACTIVITY | RL_TRAINPASSENGER | RL_CARPASSENGER
  | RL_PRIVATEBUSPASSENGER | RL_TRAINDRIVER | RL_WAITTRAINACTIVITY | RL_TAXIPASSENGER | RL_TRUCKER_LGV
  | RL_TRUCKER_HGV | RL_TAXIDRIVER | RL_ON_CALL_DRIVER | RL_ON_HAIL_DRIVER

datatype vehicle_type = CAR | BUS | TAXI | BIKE | LGV | HGV | OTHER

record vehicle =
  vehicleType :: vehicle_type
  lengthM :: real
  moving :: bool

record role =
  roleType :: role_type
  currResource :: "vehicle option"

text \<open>A person is an object in a store; \<open>currLane\<close> and \<open>currSegStats\<close> are addresses with 0 as null. The last updated frame
  is a \<open>long\<close> that starts with -1. Of the previous role and the current item of the trip chain only the type is kept.\<close>

datatype permission = NO_PERMISSION | GRANTED | DENIED

record person =
  currRole :: "role option"
  currLane :: address
  currSegStats :: address
  isQueuing :: bool
  distanceToEndOfSegment :: real
  drivingTimeToEndOfLink :: real
  remainingTimeThisTick :: real
  lastUpdatedFrame :: int
  latestUpdatedFrameTick :: real
  requestedNextSegStats :: address
  lastReqSegStats :: address
  canMoveToNextSegment :: permission
  numTicksStuck :: i16
  laneUpdated :: bool
  updatedLane :: address
  startTime :: u32
  hasContext :: bool
  initialized :: bool
  toBeRemoved :: bool
  resetParamsRequired :: bool
  prevRole :: role_type
  itemIsActivity :: bool
  sureToBeDeleted :: bool

type_synonym people = "address \<Rightarrow> person option"

datatype supply_error = NullPointer | Dangling | NotFinite | PersonWithoutVehicle | QueueCountBelowZero | FewerPersonsThanQueuing
  | LengthBelowQueueLength | LaneNotFound | OrderingViolated | OutputCapacityExceeded | VirtualQueueNotFound
  | BusDriverChangesRole | ChangesRoleToBusDriver | BetweenVirtualQueues | PersonNotInLane | PersonToKillNotFound | StartsAsPassenger
  | UpdatesMiscounted | FramesMiscounted | StopListError | NonPersonLoaded | InvalidModeOnRoad | LinkFailed | DivisionByZero

definition the_role :: "people \<Rightarrow> address \<Rightarrow> (supply_error, role) result" where
  "the_role ps p = rbind (deref Dangling (ps p)) (\<lambda>pp. deref NullPointer (currRole pp))"

text \<open>Floating-point results are rounded by a function given to the model. A division by zero, whose result is
  not a number or infinite, leaves the model.\<close>

type_synonym round_fn = "real \<Rightarrow> real"

definition fdiv :: "round_fn \<Rightarrow> real \<Rightarrow> real \<Rightarrow> (supply_error, real) result" where
  "fdiv fl x y = guard NotFinite (y \<noteq> 0) (Inr (fl (x / y)))"

text \<open>A conversion to \<open>int\<close> truncates towards zero.\<close>

definition trunc_int :: "real \<Rightarrow> int" where
  "trunc_int x = (if x \<ge> 0 then \<lfloor>x\<rfloor> else \<lceil>x\<rceil>)"

definition PASSENGER_CAR_UNIT :: real where
  "PASSENGER_CAR_UNIT = 4"

definition SHORT_SEGMENT_LENGTH_LIMIT :: real where
  "SHORT_SEGMENT_LENGTH_LIMIT = 5 * PASSENGER_CAR_UNIT"

definition LARGE_OUTPUT_FLOW_RATE :: real where
  "LARGE_OUTPUT_FLOW_RATE = 277 / 100"

section \<open>Parameters of a lane\<close>

record lane_params =
  outputFlowRate :: real
  origOutputFlowRate :: real
  outputCounter :: int
  acceptRate :: real
  fraction :: real
  lastAcceptTime :: real

definition newLaneParams :: lane_params where
  "newLaneParams = \<lparr>outputFlowRate = 0, origOutputFlowRate = 0, outputCounter = 0, acceptRate = 0, fraction = 0,
     lastAcceptTime = 0\<rparr>"

definition decrementOutputCounter :: "lane_params \<Rightarrow> (supply_error, lane_params) result" where
  "decrementOutputCounter lp = guard OutputCapacityExceeded (outputCounter lp > 0)
     (Inr (lp\<lparr>outputCounter := outputCounter lp - 1\<rparr>))"

section \<open>The statistics of a lane\<close>

record lane_stats =
  queueCount :: u32
  initialQueueLength :: real
  positionOfLastUpdatedAgent :: real
  laneInfinity :: bool
  laneLength :: real
  numPersonsInLane :: u32
  queueLength :: real
  totalLength :: real
  connectedDownstreamLinks :: "address list"
  laneVehSpeed :: real
  laneAgents :: "address list"
  laneParams :: lane_params

text \<open>The constructor leaves the speed uninitialised: it is an argument here.\<close>

definition newLaneStats :: "real \<Rightarrow> real \<Rightarrow> bool \<Rightarrow> lane_stats" where
  "newLaneStats junk len isInf = \<lparr>queueCount = 0, initialQueueLength = 0, positionOfLastUpdatedAgent = - 1, laneInfinity = isInf,
     laneLength = len, numPersonsInLane = 0, queueLength = 0, totalLength = 0, connectedDownstreamLinks = [],
     laneVehSpeed = junk, laneAgents = [], laneParams = newLaneParams\<rparr>"

definition addDownstreamLink :: "address \<Rightarrow> lane_stats \<Rightarrow> lane_stats \<times> bool" where
  "addDownstreamLink lnk ls =
     (if lnk \<noteq> 0
      then (ls\<lparr>connectedDownstreamLinks := std_insert lnk (connectedDownstreamLinks ls)\<rparr>, lnk \<notin> set (connectedDownstreamLinks ls))
      else (ls, False))"

definition addDownstreamLinks :: "address list \<Rightarrow> lane_stats \<Rightarrow> lane_stats" where
  "addDownstreamLinks lnks ls = ls\<lparr>connectedDownstreamLinks := foldl (\<lambda>xs l. std_insert l xs) (connectedDownstreamLinks ls) lnks\<rparr>"

subsection \<open>Persons enter and leave\<close>

definition distance_of :: "people \<Rightarrow> address \<Rightarrow> (supply_error, real) result" where
  "distance_of ps p = rbind (deref Dangling (ps p)) (\<lambda>pp. Inr (distanceToEndOfSegment pp))"

text \<open>The iterator that walks back from the last person, as an index.\<close>

fun walk_back :: "people \<Rightarrow> real \<Rightarrow> address list \<Rightarrow> nat \<Rightarrow> (supply_error, nat) result" where
  "walk_back ps d agents 0 = Inr 0"
| "walk_back ps d agents (Suc i) = rbind (distance_of ps (agents ! Suc i)) (\<lambda>di.
     if di > d then walk_back ps d agents i else Inr (Suc i))"

definition insert_by_distance :: "people \<Rightarrow> real \<Rightarrow> address \<Rightarrow> address list \<Rightarrow> (supply_error, address list) result" where
  "insert_by_distance ps d p agents =
     (if length agents > 0
      then rbind (walk_back ps d agents (length agents - 1)) (\<lambda>i. rbind (distance_of ps (agents ! i)) (\<lambda>di.
        if i = 0 \<and> di > d then Inr (p # agents)
        else Inr (take (i + 1) agents @ p # drop (i + 1) agents)))
      else Inr (agents @ [p]))"

definition addPerson :: "round_fn \<Rightarrow> people \<Rightarrow> address \<Rightarrow> lane_stats \<Rightarrow> (supply_error, lane_stats) result" where
  "addPerson fl ps p ls =
     (if laneInfinity ls
      then Inr (ls\<lparr>laneAgents := laneAgents ls @ [p], numPersonsInLane := numPersonsInLane ls + 1\<rparr>)
      else rbind (the_role ps p) (\<lambda>r. rbind (distance_of ps p) (\<lambda>d.
        rbind (insert_by_distance ps d p (laneAgents ls)) (\<lambda>agents. rbind (deref Dangling (ps p)) (\<lambda>pp.
          case currResource r of
            None \<Rightarrow> Inl PersonWithoutVehicle
          | Some v \<Rightarrow>
             let ls1 = ls\<lparr>laneAgents := agents, numPersonsInLane := numPersonsInLane ls + 1,
                          totalLength := fl (totalLength ls + lengthM v)\<rparr>
             in Inr (if isQueuing pp
                     then ls1\<lparr>queueCount := queueCount ls1 + 1, queueLength := fl (queueLength ls1 + lengthM v)\<rparr>
                     else ls1))))))"

definition lane_updateQueueStatus :: "round_fn \<Rightarrow> people \<Rightarrow> address \<Rightarrow> lane_stats \<Rightarrow> (supply_error, lane_stats) result" where
  "lane_updateQueueStatus fl ps p ls = rbind (the_role ps p) (\<lambda>r. rbind (deref Dangling (ps p)) (\<lambda>pp.
     case currResource r of
       None \<Rightarrow> Inr ls
     | Some v \<Rightarrow>
        if laneInfinity ls then Inr ls
        else if isQueuing pp
        then Inr (ls\<lparr>queueCount := queueCount ls + 1, queueLength := fl (queueLength ls + lengthM v)\<rparr>)
        else guard QueueCountBelowZero (queueCount ls > 0)
          (Inr (ls\<lparr>queueCount := queueCount ls - 1, queueLength := fl (queueLength ls - lengthM v)\<rparr>))))"

definition removePerson :: "round_fn \<Rightarrow> address \<Rightarrow> bool \<Rightarrow> real \<Rightarrow> lane_stats \<Rightarrow> (supply_error, lane_stats \<times> bool) result" where
  "removePerson fl p wasQueuing vehicleLength ls =
     (if p \<in> set (laneAgents ls)
      then let ls1 = ls\<lparr>laneAgents := remove1 p (laneAgents ls)\<rparr>
           in if laneInfinity ls then Inr (ls1, True)
              else let ls2 = ls1\<lparr>numPersonsInLane := numPersonsInLane ls1 - 1, totalLength := fl (totalLength ls1 - vehicleLength)\<rparr>
                   in if wasQueuing
                      then guard QueueCountBelowZero (queueCount ls2 > 0)
                        (Inr (ls2\<lparr>queueCount := queueCount ls2 - 1, queueLength := fl (queueLength ls2 - vehicleLength)\<rparr>, True))
                      else Inr (ls2, True)
      else Inr (ls, False))"

text \<open>\<open>dequeue\<close> returns a null pointer (0) if the person is not there, or not in front.\<close>

definition lane_dequeue :: "round_fn \<Rightarrow> address \<Rightarrow> bool \<Rightarrow> real \<Rightarrow> lane_stats \<Rightarrow> (supply_error, lane_stats \<times> address) result" where
  "lane_dequeue fl p isQueuingBfrUpdate vehicleLength ls =
     (if length (laneAgents ls) = 0 then Inr (ls, 0)
      else if laneInfinity ls
      then if p \<in> set (laneAgents ls)
           then Inr (ls\<lparr>laneAgents := remove1 p (laneAgents ls), numPersonsInLane := numPersonsInLane ls - 1\<rparr>, p)
           else Inr (ls, 0)
      else if p = hd (laneAgents ls)
      then let ls1 = ls\<lparr>laneAgents := tl (laneAgents ls), numPersonsInLane := numPersonsInLane ls - 1,
                        totalLength := fl (totalLength ls - vehicleLength)\<rparr>
           in if isQueuingBfrUpdate
              then guard QueueCountBelowZero (queueCount ls1 > 0)
                (Inr (ls1\<lparr>queueCount := queueCount ls1 - 1, queueLength := fl (queueLength ls1 - vehicleLength)\<rparr>, p))
              else Inr (ls1, p)
      else Inr (ls, 0))"

subsection \<open>What the lane reports\<close>

definition getMovingAgentsCount :: "lane_stats \<Rightarrow> (supply_error, u32) result" where
  "getMovingAgentsCount ls = guard FewerPersonsThanQueuing (\<not> numPersonsInLane ls < queueCount ls)
     (Inr (numPersonsInLane ls - queueCount ls))"

definition lane_getMovingLength :: "round_fn \<Rightarrow> lane_stats \<Rightarrow> (supply_error, real) result" where
  "lane_getMovingLength fl ls = guard LengthBelowQueueLength (\<not> totalLength ls < queueLength ls)
     (Inr (fl (totalLength ls - queueLength ls)))"

definition lane_getDensity :: "round_fn \<Rightarrow> lane_stats \<Rightarrow> (supply_error, real) result" where
  "lane_getDensity fl ls = rbind (lane_getMovingLength fl ls) (\<lambda>m.
     let movingPartLength = fl (laneLength ls - queueLength ls); movingPCUs = fl (m / PASSENGER_CAR_UNIT)
     in if movingPartLength > PASSENGER_CAR_UNIT then Inr (fl (movingPCUs / movingPartLength))
        else Inr (fl (1 / PASSENGER_CAR_UNIT)))"

fun verify_from :: "people \<Rightarrow> real \<Rightarrow> address list \<Rightarrow> (supply_error, unit) result" where
  "verify_from ps distance [] = Inr ()"
| "verify_from ps distance (p # agents) = rbind (distance_of ps p) (\<lambda>d.
     if distance > d then Inl OrderingViolated else verify_from ps d agents)"

definition verifyOrdering :: "people \<Rightarrow> lane_stats \<Rightarrow> (supply_error, unit) result" where
  "verifyOrdering ps ls = verify_from ps (- 1) (laneAgents ls)"

subsection \<open>Flow rates\<close>

definition updateOutputFlowRate :: "real \<Rightarrow> lane_stats \<Rightarrow> lane_stats" where
  "updateOutputFlowRate rate ls = ls\<lparr>laneParams := (laneParams ls)\<lparr>outputFlowRate := rate\<rparr>\<rparr>"

text \<open>The output counter gets the whole vehicles of an interval; the fraction is carried over.\<close>

definition params_updateOutputCounter :: "round_fn \<Rightarrow> real \<Rightarrow> lane_params \<Rightarrow> lane_params" where
  "params_updateOutputCounter fl updateInterval lp =
     (let tmp = trunc_int (fl (outputFlowRate lp * updateInterval));
          lp1 = lp\<lparr>fraction := fl (fraction lp + fl (fl (outputFlowRate lp * updateInterval) - of_int tmp))\<rparr>
      in if fraction lp1 \<ge> 1 then lp1\<lparr>fraction := fl (fraction lp1 - 1), outputCounter := tmp + 1\<rparr>
         else lp1\<lparr>outputCounter := tmp\<rparr>)"

definition updateOutputCounter :: "round_fn \<Rightarrow> real \<Rightarrow> lane_stats \<Rightarrow> lane_stats" where
  "updateOutputCounter fl updateInterval ls = ls\<lparr>laneParams := params_updateOutputCounter fl updateInterval (laneParams ls)\<rparr>"

definition updateAcceptRate :: "round_fn \<Rightarrow> real \<Rightarrow> nat \<Rightarrow> lane_stats \<Rightarrow> (supply_error, lane_stats) result" where
  "updateAcceptRate fl speed numLanes ls =
     (let rate = outputFlowRate (laneParams ls); acceptRateA = (if rate > 0 then fl (1 / rate) else 0)
      in rbind (fdiv fl PASSENGER_CAR_UNIT (fl (of_nat numLanes * speed))) (\<lambda>acceptRateB.
         Inr (ls\<lparr>laneParams := (laneParams ls)\<lparr>acceptRate := max acceptRateA acceptRateB\<rparr>\<rparr>)))"

text \<open>\<open>numLanes\<close> is the number of lanes of the road segment of the lane.\<close>

definition initLaneParams :: "round_fn \<Rightarrow> real \<Rightarrow> real \<Rightarrow> real \<Rightarrow> nat \<Rightarrow> lane_stats \<Rightarrow> (supply_error, lane_stats) result" where
  "initLaneParams fl updateInterval vehSpeed capacity numLanes ls =
     (let lp = laneParams ls;
          lp1 = (if numLanes > 0 then lp\<lparr>origOutputFlowRate := fl (capacity / of_nat numLanes)\<rparr> else lp);
          lp2 = lp1\<lparr>outputFlowRate := origOutputFlowRate lp1\<rparr>;
          lp3 = (if laneLength ls < SHORT_SEGMENT_LENGTH_LIMIT
                 then lp2\<lparr>origOutputFlowRate := LARGE_OUTPUT_FLOW_RATE, outputFlowRate := LARGE_OUTPUT_FLOW_RATE\<rparr> else lp2)
      in updateAcceptRate fl vehSpeed numLanes (updateOutputCounter fl updateInterval (ls\<lparr>laneParams := lp3\<rparr>)))"

section \<open>The counters refine a list of entries\<close>

text \<open>An entry is a person with the length of the vehicle and whether the person queues, as they were counted.\<close>

type_synonym entry = "address \<times> real \<times> bool"

abbreviation entry_length :: "entry \<Rightarrow> real" where
  "entry_length e \<equiv> fst (snd e)"

abbreviation entry_queues :: "entry \<Rightarrow> bool" where
  "entry_queues e \<equiv> snd (snd e)"

definition lengths :: "entry list \<Rightarrow> real" where
  "lengths es = sum_list (map entry_length es)"

lemma lengths_simps [simp]: "lengths [] = 0" "lengths (e # es) = entry_length e + lengths es"
  "lengths (es @ fs) = lengths es + lengths fs"
  by (simp_all add: lengths_def)

lemma lengths_split: "lengths es = lengths (filter entry_queues es) + lengths (filter (\<lambda>e. \<not> entry_queues e) es)"
  by (induction es) auto

lemma lengths_nonneg: "\<forall>e \<in> set es. 0 \<le> entry_length e \<Longrightarrow> 0 \<le> lengths es"
  by (induction es) auto

definition lane_refines :: "lane_stats \<Rightarrow> entry list \<Rightarrow> bool" where
  "lane_refines ls es \<longleftrightarrow> laneAgents ls = map fst es \<and> numPersonsInLane ls = of_nat (length es) \<and>
     queueCount ls = of_nat (length (filter entry_queues es)) \<and> queueLength ls = lengths (filter entry_queues es) \<and>
     totalLength ls = lengths es \<and> laneInfinity ls = False"

definition entries_ok :: "entry list \<Rightarrow> bool" where
  "entries_ok es \<longleftrightarrow> distinct (map fst es) \<and> length es < 2 ^ 32 \<and> (\<forall>e \<in> set es. 0 \<le> entry_length e)"

lemma entries_ok_mid: "entries_ok (xs @ (p, l, q) # ys) \<Longrightarrow> entries_ok (xs @ (p, l, q') # ys) \<and> entries_ok (xs @ ys)"
  by (auto simp: entries_ok_def)

abbreviation (input) "fexact \<equiv> (\<lambda>x :: real. x)"

lemma word_pos_of_nat: "0 < n \<Longrightarrow> n < 2 ^ 32 \<Longrightarrow> 0 < (word_of_nat n :: u32)"
  by (simp add: word_less_nat_alt unsigned_of_nat take_bit_nat_eq_self)

lemma word_diff_of_nat: "m \<le> n \<Longrightarrow> (word_of_nat n :: u32) - word_of_nat m = word_of_nat (n - m)"
  by (simp add: of_nat_diff)

lemma word_less_of_nat: "m < 2 ^ 32 \<Longrightarrow> n < 2 ^ 32 \<Longrightarrow> ((word_of_nat m :: u32) < word_of_nat n) = (m < n)"
  by (simp add: word_less_nat_alt unsigned_of_nat take_bit_nat_eq_self)

subsection \<open>The place of a new person\<close>

definition seg_dist :: "people \<Rightarrow> address \<Rightarrow> real" where
  "seg_dist ps p = (case ps p of None \<Rightarrow> 0 | Some pp \<Rightarrow> distanceToEndOfSegment pp)"

definition live :: "people \<Rightarrow> address list \<Rightarrow> bool" where
  "live ps xs \<longleftrightarrow> (\<forall>x \<in> set xs. ps x \<noteq> None)"

lemma distance_of_live: "ps p \<noteq> None \<Longrightarrow> distance_of ps p = Inr (seg_dist ps p)"
  by (auto simp: distance_of_def seg_dist_def)

lemma walk_back_spec:
  "live ps xs \<Longrightarrow> i < length xs \<Longrightarrow> \<exists>j \<le> i. walk_back ps d xs i = Inr j \<and>
     (\<forall>m. j < m \<longrightarrow> m \<le> i \<longrightarrow> d < seg_dist ps (xs ! m)) \<and> (j = 0 \<or> seg_dist ps (xs ! j) \<le> d)"
proof (induction i)
  case 0
  then show ?case by simp
next
  case (Suc i)
  have a: "ps (xs ! Suc i) \<noteq> None" using Suc.prems by (auto simp: live_def)
  show ?case
  proof (cases "seg_dist ps (xs ! Suc i) > d")
    case True
    from Suc obtain j where j: "j \<le> i" "walk_back ps d xs i = Inr j"
      "\<forall>m. j < m \<longrightarrow> m \<le> i \<longrightarrow> d < seg_dist ps (xs ! m)" "j = 0 \<or> seg_dist ps (xs ! j) \<le> d" by auto
    have "\<forall>m. j < m \<longrightarrow> m \<le> Suc i \<longrightarrow> d < seg_dist ps (xs ! m)" using j(3) True by (auto simp: le_Suc_eq)
    with j True a show ?thesis by (intro exI [of _ j]) (simp add: distance_of_live)
  next
    case False
    with a show ?thesis by (intro exI [of _ "Suc i"]) (auto simp: distance_of_live)
  qed
qed

lemma insert_by_distance_spec:
  assumes "live ps xs"
  shows "\<exists>us vs. xs = us @ vs \<and> insert_by_distance ps d p xs = Inr (us @ p # vs) \<and> (\<forall>v \<in> set vs. d < seg_dist ps v) \<and>
     (us \<noteq> [] \<longrightarrow> seg_dist ps (last us) \<le> d)"
proof (cases "xs = []")
  case True
  then show ?thesis by (simp add: insert_by_distance_def)
next
  case False
  let ?n = "length xs - 1"
  have n: "?n < length xs" using False by (cases xs) simp_all
  from walk_back_spec [OF assms n, of d] obtain j where j: "j \<le> ?n" "walk_back ps d xs ?n = Inr j"
    "\<forall>m. j < m \<longrightarrow> m \<le> ?n \<longrightarrow> d < seg_dist ps (xs ! m)" "j = 0 \<or> seg_dist ps (xs ! j) \<le> d" by auto
  have jl: "j < length xs" using j(1) n by linarith
  then have a: "ps (xs ! j) \<noteq> None" using assms by (auto simp: live_def)
  have late: "d < seg_dist ps v" if "v \<in> set (drop (j + 1) xs)" for v
  proof -
    from that obtain k where k: "k < length xs - (j + 1)" "v = drop (j + 1) xs ! k" by (auto simp: in_set_conv_nth)
    then have "v = xs ! (j + 1 + k)" by simp
    with k(1) j(3) show ?thesis by simp
  qed
  show ?thesis
  proof (cases "j = 0 \<and> d < seg_dist ps (xs ! j)")
    case True
    have "insert_by_distance ps d p xs = Inr (p # xs)"
      using False j(2) a True by (auto simp: insert_by_distance_def distance_of_live)
    moreover have "xs = xs ! 0 # drop (j + 1) xs" using True False by (cases xs) simp_all
    then have "\<forall>v \<in> set xs. d < seg_dist ps v" using late True by (metis set_ConsD)
    ultimately show ?thesis by (intro exI [of _ "[]"] exI [of _ xs]) simp
  next
    case f: False
    have "insert_by_distance ps d p xs = Inr (take (j + 1) xs @ p # drop (j + 1) xs)"
      using False j(2) a f by (auto simp: insert_by_distance_def distance_of_live)
    moreover have "last (take (j + 1) xs) = xs ! j" using jl by (simp add: take_Suc_conv_app_nth)
    moreover have "seg_dist ps (xs ! j) \<le> d" using f j(4) by auto
    ultimately show ?thesis using late by (intro exI [of _ "take (j + 1) xs"] exI [of _ "drop (j + 1) xs"]) simp
  qed
qed

subsection \<open>The operations on the entries\<close>

lemma addPerson_refines:
  assumes "lane_refines ls es" "entries_ok es" "length es + 1 < 2 ^ 32" "live ps (map fst es)"
    "ps p = Some pp" "currRole pp = Some r" "currResource r = Some v" "0 \<le> lengthM v" "p \<notin> fst ` set es"
  shows "\<exists>ls' xs ys. es = xs @ ys \<and> addPerson fexact ps p ls = Inr ls' \<and>
     lane_refines ls' (xs @ (p, lengthM v, isQueuing pp) # ys) \<and> entries_ok (xs @ (p, lengthM v, isQueuing pp) # ys) \<and>
     (\<forall>y \<in> fst ` set ys. distanceToEndOfSegment pp < seg_dist ps y) \<and>
     (xs \<noteq> [] \<longrightarrow> seg_dist ps (fst (last xs)) \<le> distanceToEndOfSegment pp)"
proof -
  note ref = assms(1) [unfolded lane_refines_def]
  let ?d = "distanceToEndOfSegment pp" and ?e = "(p, lengthM v, isQueuing pp)"
  from insert_by_distance_spec [OF assms(4), of ?d p] obtain us vs where uv: "map fst es = us @ vs"
    "insert_by_distance ps ?d p (map fst es) = Inr (us @ p # vs)" "\<forall>v \<in> set vs. ?d < seg_dist ps v"
    "us \<noteq> [] \<longrightarrow> seg_dist ps (last us) \<le> ?d" by blast
  from uv(1) obtain xs ys where xy: "es = xs @ ys" "us = map fst xs" "vs = map fst ys" by (auto simp: map_eq_append_conv)
  have ok: "entries_ok (xs @ ?e # ys)"
    using assms(2,3,8,9) unfolding xy(1) entries_ok_def by auto
  have "\<exists>ls'. addPerson fexact ps p ls = Inr ls' \<and> lane_refines ls' (xs @ ?e # ys)"
    using assms(5-7) uv(2) ref unfolding xy
    by (auto simp: addPerson_def the_role_def distance_of_def lane_refines_def Let_def)
  then obtain ls' where ls': "addPerson fexact ps p ls = Inr ls'" "lane_refines ls' (xs @ ?e # ys)" by blast
  have o: "\<forall>y \<in> fst ` set ys. ?d < seg_dist ps y" using uv(3) unfolding xy by simp
  have l: "xs \<noteq> [] \<longrightarrow> seg_dist ps (fst (last xs)) \<le> ?d" using uv(4) unfolding xy by (simp add: last_map)
  show ?thesis using xy(1) ls' ok o l by blast
qed

lemma queue_count_pos:
  assumes "entries_ok es" "(p, l, True) \<in> set es"
  shows "0 < (word_of_nat (length (filter entry_queues es)) :: u32)"
proof (rule word_pos_of_nat)
  have "(p, l, True) \<in> set (filter entry_queues es)" using assms(2) by simp
  then show "0 < length (filter entry_queues es)" by (rule length_pos_if_in_set)
  show "length (filter entry_queues es) < 2 ^ 32"
    using assms(1) length_filter_le [of entry_queues es] unfolding entries_ok_def by linarith
qed

lemma remove1_mid: "p \<notin> set us \<Longrightarrow> remove1 p (us @ p # vs) = us @ vs"
  by (simp add: remove1_append)

lemma removePerson_refines:
  assumes "lane_refines ls es" "entries_ok es" "es = xs @ (p, l, q) # ys"
  shows "\<exists>ls'. removePerson fexact p q l ls = Inr (ls', True) \<and> lane_refines ls' (xs @ ys)"
proof -
  have p: "p \<notin> set (map fst xs)" using assms(2,3) by (auto simp: entries_ok_def)
  note ref = assms(1) [unfolded lane_refines_def assms(3)]
  have pos: "\<not> q \<or> 0 < queueCount ls"
    using queue_count_pos [OF assms(2), of p l] ref assms(3) by auto
  have inf: "\<not> laneInfinity ls" and mem: "p \<in> set (laneAgents ls)" using ref by simp_all
  let ?ls = "ls\<lparr>laneAgents := remove1 p (laneAgents ls), numPersonsInLane := numPersonsInLane ls - 1, totalLength := totalLength ls - l\<rparr>"
  let ?ls2 = "?ls\<lparr>queueCount := queueCount ls - 1, queueLength := queueLength ls - l\<rparr>"
  have "removePerson fexact p q l ls = Inr (if q then ?ls2 else ?ls, True)"
    using pos by (auto simp: removePerson_def Let_def inf mem)
  moreover have "lane_refines (if q then ?ls2 else ?ls) (xs @ ys)"
    using ref p by (simp add: lane_refines_def remove1_mid)
  ultimately show ?thesis by blast
qed

lemma dequeue_refines:
  assumes "lane_refines ls ((p, l, q) # ys)" "entries_ok ((p, l, q) # ys)"
  shows "\<exists>ls'. lane_dequeue fexact p q l ls = Inr (ls', p) \<and> lane_refines ls' ys"
proof -
  note ref = assms(1) [unfolded lane_refines_def]
  have "q \<Longrightarrow> 0 < queueCount ls"
    using queue_count_pos [OF assms(2), of p l] ref by simp
  then show ?thesis
    using ref by (auto simp: lane_dequeue_def lane_refines_def Let_def)
qed

lemma updateQueueStatus_refines:
  assumes "lane_refines ls es" "entries_ok es" "es = xs @ (p, lengthM v, \<not> isQueuing pp) # ys"
    "ps p = Some pp" "currRole pp = Some r" "currResource r = Some v"
  shows "\<exists>ls'. lane_updateQueueStatus fexact ps p ls = Inr ls' \<and> lane_refines ls' (xs @ (p, lengthM v, isQueuing pp) # ys)"
proof -
  note ref = assms(1) [unfolded lane_refines_def assms(3)]
  have pos: "isQueuing pp \<or> 0 < queueCount ls"
    using queue_count_pos [OF assms(2), of p "lengthM v"] ref assms(3) by auto
  have inf: "\<not> laneInfinity ls" using ref by simp
  let ?ls1 = "ls\<lparr>queueCount := queueCount ls + 1, queueLength := queueLength ls + lengthM v\<rparr>"
  let ?ls2 = "ls\<lparr>queueCount := queueCount ls - 1, queueLength := queueLength ls - lengthM v\<rparr>"
  have "lane_updateQueueStatus fexact ps p ls = Inr (if isQueuing pp then ?ls1 else ?ls2)"
    using pos assms(4-6) inf by (auto simp: lane_updateQueueStatus_def the_role_def)
  moreover have "lane_refines (if isQueuing pp then ?ls1 else ?ls2) (xs @ (p, lengthM v, isQueuing pp) # ys)"
    using ref by (simp add: lane_refines_def)
  ultimately show ?thesis by blast
qed

section \<open>Runs of a lane\<close>

text \<open>A lane is used as the conflux uses it: a person is added who is not in it; the queuing status is updated
  after the person's flag has changed; a person is removed with the status and the length that were counted. Persons
  move between the steps, so that every step has its own store. The statistics may be updated at any time.\<close>

inductive lane_run :: "lane_stats \<Rightarrow> entry list \<Rightarrow> bool" where
  fresh: "lane_run (newLaneStats junk len False) []"
| enter: "lane_run ls (xs @ ys) \<Longrightarrow> ps p = Some pp \<Longrightarrow> currRole pp = Some r \<Longrightarrow> currResource r = Some v \<Longrightarrow> 0 \<le> lengthM v \<Longrightarrow>
     p \<notin> fst ` set (xs @ ys) \<Longrightarrow> live ps (map fst (xs @ ys)) \<Longrightarrow> length (xs @ ys) + 1 < 2 ^ 32 \<Longrightarrow>
     addPerson fexact ps p ls = Inr ls' \<Longrightarrow> laneAgents ls' = map fst xs @ p # map fst ys \<Longrightarrow>
     lane_run ls' (xs @ (p, lengthM v, isQueuing pp) # ys)"
| queue: "lane_run ls (xs @ (p, lengthM v, \<not> isQueuing pp) # ys) \<Longrightarrow> ps p = Some pp \<Longrightarrow> currRole pp = Some r \<Longrightarrow>
     currResource r = Some v \<Longrightarrow> lane_updateQueueStatus fexact ps p ls = Inr ls' \<Longrightarrow>
     lane_run ls' (xs @ (p, lengthM v, isQueuing pp) # ys)"
| remove: "lane_run ls (xs @ (p, l, q) # ys) \<Longrightarrow> removePerson fexact p q l ls = Inr (ls', b) \<Longrightarrow> lane_run ls' (xs @ ys)"
| leave: "lane_run ls ((p, l, q) # ys) \<Longrightarrow> lane_dequeue fexact p q l ls = Inr (ls', p') \<Longrightarrow> lane_run ls' ys"
| flow: "lane_run ls es \<Longrightarrow> lane_run (ls\<lparr>laneParams := lp, initialQueueLength := ql, positionOfLastUpdatedAgent := pos,
     laneVehSpeed := speed\<rparr>) es"

lemma append_mid_eq: "us @ p # vs = us' @ p # vs' \<Longrightarrow> p \<notin> set us \<Longrightarrow> p \<notin> set us' \<Longrightarrow> us = us' \<and> vs = vs'"
proof (induction us arbitrary: us')
  case Nil
  then show ?case by (cases us') auto
next
  case (Cons u us)
  then show ?case by (cases us') auto
qed

lemma lane_run_refines: "lane_run ls es \<Longrightarrow> lane_refines ls es \<and> entries_ok es"
proof (induction rule: lane_run.induct)
  case (fresh junk len)
  show ?case by (simp add: lane_refines_def entries_ok_def newLaneStats_def)
next
  case (enter ls xs ys ps p pp r v ls')
  from addPerson_refines [OF _ _ enter.hyps(8,7,2-6)] enter.IH obtain ls2 us vs where
    a: "xs @ ys = us @ vs" "addPerson fexact ps p ls = Inr ls2" "lane_refines ls2 (us @ (p, lengthM v, isQueuing pp) # vs)"
    "entries_ok (us @ (p, lengthM v, isQueuing pp) # vs)" by blast
  have "ls2 = ls'" using a(2) enter.hyps(9) by simp
  then have "map fst us @ p # map fst vs = map fst xs @ p # map fst ys"
    using a(3) enter.hyps(10) by (simp add: lane_refines_def)
  moreover have "p \<notin> set (map fst us)" "p \<notin> set (map fst xs)"
    using enter.hyps(6) enter.hyps(6) [unfolded a(1)] by (auto simp: image_Un)
  ultimately have "map fst us = map fst xs" by (rule append_mid_eq [THEN conjunct1])
  then have "length us = length xs" by (metis length_map)
  with a(1) have "us = xs \<and> vs = ys" by simp
  with a(3,4) \<open>ls2 = ls'\<close> show ?case by simp
next
  case (queue ls xs p v pp ys ps r ls')
  have ok: "entries_ok (xs @ (p, lengthM v, isQueuing pp) # ys)" using queue.IH entries_ok_mid [of xs p "lengthM v" "\<not> isQueuing pp" ys] by simp
  have ref: "lane_refines ls (xs @ (p, lengthM v, \<not> isQueuing pp) # ys)" "entries_ok (xs @ (p, lengthM v, \<not> isQueuing pp) # ys)"
    using queue.IH by auto
  obtain ls2 where r: "lane_updateQueueStatus fexact ps p ls = Inr ls2" "lane_refines ls2 (xs @ (p, lengthM v, isQueuing pp) # ys)"
    using updateQueueStatus_refines [of ls _ xs p v pp ys ps r, OF ref refl queue.hyps(2-4)] by (elim exE conjE) (rule that)
  have "ls2 = ls'" using r(1) queue.hyps(5) by (rule Inr_unique)
  with ok r(2) show ?case by blast
next
  case (remove ls xs p l q ys ls' b)
  have ok: "entries_ok (xs @ ys)" using remove.IH entries_ok_mid [of xs p l q ys] by simp
  have ref: "lane_refines ls (xs @ (p, l, q) # ys)" "entries_ok (xs @ (p, l, q) # ys)" using remove.IH by auto
  obtain ls2 where r: "removePerson fexact p q l ls = Inr (ls2, True)" "lane_refines ls2 (xs @ ys)"
    using removePerson_refines [of ls _ xs p l q ys, OF ref refl] by (elim exE conjE) (rule that)
  have "ls2 = ls'" using r(1) remove.hyps(2) by (rule Inr_pair_unique)
  with ok r(2) show ?case by blast
next
  case (leave ls p l q ys ls' p')
  have ok: "entries_ok ys" using leave.IH entries_ok_mid [of "[]" p l q ys] by simp
  have ref: "lane_refines ls ((p, l, q) # ys)" "entries_ok ((p, l, q) # ys)" using leave.IH by auto
  obtain ls2 where r: "lane_dequeue fexact p q l ls = Inr (ls2, p)" "lane_refines ls2 ys"
    using dequeue_refines [OF ref] by (elim exE conjE) (rule that)
  have "ls2 = ls'" using r(1) leave.hyps(2) by (rule Inr_pair_unique)
  with ok r(2) show ?case by blast
next
  case (flow ls es lp ql pos speed)
  then show ?case by (simp add: lane_refines_def)
qed

text \<open>C11: In every run of a lane that is not lane infinity, with exact arithmetic and used as the conflux uses it
  (\<open>lane_run\<close>: a person is added who is not in it and whose vehicle's length is not negative, and removed with the values
  that were counted), the counters agree with the persons in it, entered with the length of their vehicle and their
  queuing status: the moving and queuing counts and lengths it reports are those of the entries, it never throws when it
  reports them, and removing or dequeuing a person with the counted values never throws. Lane infinity keeps
  a count that drifts (\<open>infinity_count_drifts\<close>), and with rounded lengths the check of the moving length can fail.\<close>

theorem lane_counts_exact:
  assumes "lane_run ls es"
  shows "laneAgents ls = map fst es \<and>
     unat (queueCount ls) = length (filter entry_queues es) \<and>
     getMovingAgentsCount ls = Inr (of_nat (length (filter (\<lambda>e. \<not> entry_queues e) es))) \<and>
     queueLength ls = lengths (filter entry_queues es) \<and>
     lane_getMovingLength fexact ls = Inr (lengths (filter (\<lambda>e. \<not> entry_queues e) es)) \<and>
     (\<forall>(p, l, q) \<in> set es. \<exists>ls'. removePerson fexact p q l ls = Inr (ls', True)) \<and>
     (\<forall>p l q ys. es = (p, l, q) # ys \<longrightarrow> (\<exists>ls'. lane_dequeue fexact p q l ls = Inr (ls', p)))"
proof -
  have ref: "lane_refines ls es" and ok: "entries_ok es" using lane_run_refines [OF assms] by auto
  let ?nq = "length (filter entry_queues es)" and ?nm = "length (filter (\<lambda>e. \<not> entry_queues e) es)"
  have n: "?nq + ?nm = length es" by (rule sum_length_filter_compl)
  have b: "length es < 2 ^ 32" using ok by (simp add: entries_ok_def)
  then have bq: "?nq < 2 ^ 32" using n by linarith
  have "\<not> (word_of_nat (length es) :: u32) < word_of_nat ?nq" using word_less_of_nat [OF b bq] n by simp
  moreover have "(word_of_nat (length es) :: u32) - word_of_nat ?nq = word_of_nat ?nm"
    unfolding n [symmetric] by simp
  ultimately have mov: "getMovingAgentsCount ls = Inr (of_nat ?nm)"
    using ref by (simp add: getMovingAgentsCount_def lane_refines_def)
  have "0 \<le> lengths (filter (\<lambda>e. \<not> entry_queues e) es)" using ok by (intro lengths_nonneg) (simp add: entries_ok_def)
  then have len: "lane_getMovingLength fexact ls = Inr (lengths (filter (\<lambda>e. \<not> entry_queues e) es))"
    using ref lengths_split [of es] by (simp add: lane_getMovingLength_def lane_refines_def)
  have "unat (queueCount ls) = ?nq" using ref bq by (simp add: lane_refines_def unsigned_of_nat take_bit_nat_eq_self)
  moreover have "\<forall>(p, l, q) \<in> set es. \<exists>ls'. removePerson fexact p q l ls = Inr (ls', True)"
    using removePerson_refines [OF ref ok] by (fastforce dest: split_list)
  moreover have "\<forall>p l q ys. es = (p, l, q) # ys \<longrightarrow> (\<exists>ls'. lane_dequeue fexact p q l ls = Inr (ls', p))"
    using dequeue_refines ref ok by blast
  ultimately show ?thesis using mov len ref by (simp add: lane_refines_def)
qed

subsection \<open>The order of the persons\<close>

definition ordered_lane :: "people \<Rightarrow> address list \<Rightarrow> bool" where
  "ordered_lane ps xs \<longleftrightarrow> sorted (map (seg_dist ps) xs)"

lemma ordered_lane_insert:
  assumes "sorted (map f (us @ vs))" "\<forall>v \<in> set vs. f p < f v" "us \<noteq> [] \<longrightarrow> f (last us) \<le> f p"
  shows "sorted (map f (us @ p # vs))"
proof -
  have "\<forall>u \<in> set us. f u \<le> f p"
  proof (cases "us = []")
    case False
    then obtain ws w where "us = ws @ [w]" by (metis append_butlast_last_id)
    with assms(1,3) show ?thesis by (fastforce simp: sorted_append)
  qed simp
  with assms(1,2) show ?thesis by (fastforce simp: sorted_append)
qed

lemma verify_from_iff:
  "live ps xs \<Longrightarrow> verify_from ps d xs = Inr () \<longleftrightarrow> sorted (d # map (seg_dist ps) xs)"
  by (induction xs arbitrary: d) (auto simp: live_def distance_of_live)

text \<open>C28: A person who is added to an ordered lane is put behind everybody who is not farther from the end of the
  segment and before everybody who is, so that the check of the order passes afterwards as before.\<close>

theorem addPerson_keeps_order:
  assumes "laneInfinity ls = False" "live ps (laneAgents ls)" "ps p = Some pp" "currRole pp = Some r" "currResource r = Some v"
    "0 \<le> distanceToEndOfSegment pp" "verifyOrdering ps ls = Inr ()"
  shows "\<exists>ls' us vs. addPerson fl ps p ls = Inr ls' \<and> verifyOrdering ps ls' = Inr () \<and> laneAgents ls = us @ vs \<and>
     laneAgents ls' = us @ p # vs \<and> (\<forall>u \<in> set us. seg_dist ps u \<le> distanceToEndOfSegment pp) \<and>
     (\<forall>v \<in> set vs. distanceToEndOfSegment pp < seg_dist ps v)"
proof -
  let ?d = "distanceToEndOfSegment pp"
  from insert_by_distance_spec [OF assms(2), of ?d p] obtain us vs where uv: "laneAgents ls = us @ vs"
    "insert_by_distance ps ?d p (laneAgents ls) = Inr (us @ p # vs)" "\<forall>v \<in> set vs. ?d < seg_dist ps v"
    "us \<noteq> [] \<longrightarrow> seg_dist ps (last us) \<le> ?d" by blast
  have pd: "seg_dist ps p = ?d" using assms(3) by (simp add: seg_dist_def)
  from assms(2,7) have "sorted (- 1 # map (seg_dist ps) (us @ vs))" by (simp add: verifyOrdering_def verify_from_iff uv(1))
  then have s: "sorted (map (seg_dist ps) (us @ vs))" and m: "\<forall>x \<in> set (us @ vs). - 1 \<le> seg_dist ps x" by auto
  have s1: "sorted (map (seg_dist ps) (us @ p # vs))"
    by (rule ordered_lane_insert [OF s]) (use uv(3,4) pd in simp_all)
  have "\<exists>ls'. addPerson fl ps p ls = Inr ls' \<and> laneAgents ls' = us @ p # vs"
    using assms(1,3-5) uv(2) by (auto simp: addPerson_def the_role_def distance_of_def Let_def)
  then obtain ls' where ls': "addPerson fl ps p ls = Inr ls'" "laneAgents ls' = us @ p # vs" by blast
  have "live ps (us @ p # vs)" using assms(2,3) uv(1) by (auto simp: live_def)
  then have "verifyOrdering ps ls' = Inr ()"
    using s1 m assms(6) pd by (auto simp: verifyOrdering_def verify_from_iff ls'(2))
  moreover have "\<forall>u \<in> set us. seg_dist ps u \<le> ?d" using s1 pd by (simp add: sorted_append)
  ultimately show ?thesis using ls' uv(1,3) by blast
qed

section \<open>The output counter\<close>

fun output_counts :: "nat \<Rightarrow> real \<Rightarrow> lane_params \<Rightarrow> int list \<times> lane_params" where
  "output_counts 0 I lp = ([], lp)"
| "output_counts (Suc n) I lp =
     (let lp1 = params_updateOutputCounter fexact I lp; (cs, lp2) = output_counts n I lp1 in (outputCounter lp1 # cs, lp2))"

lemma trunc_nonneg: "0 \<le> x \<Longrightarrow> trunc_int x = \<lfloor>x\<rfloor>"
  by (simp add: trunc_int_def)

lemma updateOutputCounter_carry:
  assumes "0 \<le> outputFlowRate lp * I" "0 \<le> fraction lp" "fraction lp < 1"
  shows "of_int (outputCounter (params_updateOutputCounter fexact I lp)) + fraction (params_updateOutputCounter fexact I lp) =
     outputFlowRate lp * I + fraction lp \<and> 0 \<le> fraction (params_updateOutputCounter fexact I lp) \<and>
     fraction (params_updateOutputCounter fexact I lp) < 1 \<and>
     outputFlowRate (params_updateOutputCounter fexact I lp) = outputFlowRate lp"
proof -
  let ?x = "outputFlowRate lp * I"
  have b: "of_int \<lfloor>?x\<rfloor> \<le> ?x" "?x < of_int \<lfloor>?x\<rfloor> + 1" by linarith+
  then have "fraction lp + (?x - of_int \<lfloor>?x\<rfloor>) < 2" using assms(3) by linarith
  with b assms show ?thesis by (simp add: params_updateOutputCounter_def Let_def trunc_nonneg)
qed

lemma output_counts_sum:
  "0 \<le> outputFlowRate lp * I \<Longrightarrow> 0 \<le> fraction lp \<Longrightarrow> fraction lp < 1 \<Longrightarrow>
     of_int (sum_list (fst (output_counts n I lp))) + fraction (snd (output_counts n I lp)) = real n * (outputFlowRate lp * I) + fraction lp \<and>
     0 \<le> fraction (snd (output_counts n I lp)) \<and> fraction (snd (output_counts n I lp)) < 1"
proof (induction n arbitrary: lp)
  case 0
  then show ?case by simp
next
  case (Suc n)
  let ?lp1 = "params_updateOutputCounter fexact I lp"
  note c = updateOutputCounter_carry [OF Suc.prems]
  have "0 \<le> outputFlowRate ?lp1 * I" using c Suc.prems(1) by simp
  from Suc.IH [OF this] c show ?case
    by (simp add: Let_def case_prod_beta algebra_simps)
qed

text \<open>C30: In exact arithmetic, with a constant flow that is not negative and a carried fraction below one, the values of the
  output counter over any number of intervals add up to the whole part of the accumulated flow: the fractions that an
  interval cannot use are never lost.\<close>

theorem output_counter_accumulates:
  assumes "0 \<le> outputFlowRate lp * I" "0 \<le> fraction lp" "fraction lp < 1"
  shows "sum_list (fst (output_counts n I lp)) = \<lfloor>real n * (outputFlowRate lp * I) + fraction lp\<rfloor>"
proof -
  note s = output_counts_sum [OF assms, of n]
  then show ?thesis by (intro floor_unique [symmetric]) linarith+
qed

section \<open>Examples\<close>

text \<open>Cars 1 and 2 are 30 m and 10 m away from the end of the segment; car 2 queues.\<close>

definition car_vehicle :: vehicle where
  "car_vehicle = \<lparr>vehicleType = CAR, lengthM = 4, moving = True\<rparr>"

definition car_role :: role where
  "car_role = \<lparr>roleType = RL_DRIVER, currResource = Some car_vehicle\<rparr>"

definition car :: "real \<Rightarrow> bool \<Rightarrow> person" where
  "car d q = \<lparr>currRole = Some car_role,
     currLane = 11, currSegStats = 21, isQueuing = q, distanceToEndOfSegment = d, drivingTimeToEndOfLink = 0,
     remainingTimeThisTick = 1, lastUpdatedFrame = 0, latestUpdatedFrameTick = - 1, requestedNextSegStats = 0,
     lastReqSegStats = 0, canMoveToNextSegment = NO_PERMISSION, numTicksStuck = 0, laneUpdated = False, updatedLane = 0,
     startTime = 0, hasContext = True, initialized = True, toBeRemoved = False, resetParamsRequired = False, prevRole = RL_UNKNOWN,
     itemIsActivity = False, sureToBeDeleted = False\<rparr>"

definition people1 :: people where
  "people1 = [1 \<mapsto> car 30 False, 2 \<mapsto> car 10 True]"

definition lane0 :: lane_stats where
  "lane0 = newLaneStats 0 100 False"

definition lane1 :: lane_stats where
  "lane1 = lane0\<lparr>laneAgents := [1], numPersonsInLane := 1, totalLength := 4\<rparr>"

definition lane2 :: lane_stats where
  "lane2 = lane0\<lparr>laneAgents := [2, 1], numPersonsInLane := 2, totalLength := 8, queueCount := 1, queueLength := 4\<rparr>"

lemma car_fields [simp]: "currRole (car d q) = Some car_role" "isQueuing (car d q) = q" "distanceToEndOfSegment (car d q) = d"
  "currResource car_role = Some car_vehicle" "lengthM car_vehicle = 4" "moving car_vehicle = True" "roleType car_role = RL_DRIVER"
  by (simp_all add: car_def car_role_def car_vehicle_def)

lemma people1_at [simp]: "people1 1 = Some (car 30 False)" "people1 (Suc 0) = Some (car 30 False)" "people1 2 = Some (car 10 True)"
  by (simp_all add: people1_def)

lemmas lane_eval = lane0_def lane1_def lane2_def newLaneStats_def addPerson_def the_role_def
  distance_of_def insert_by_distance_def Let_def

lemma lane_adds: "addPerson fexact people1 1 lane0 = Inr lane1" "addPerson fexact people1 2 lane1 = Inr lane2"
  by (simp_all add: lane_eval)

lemma lane2_run: "lane_run lane2 [(2, 4, True), (1, 4, False)]"
proof -
  have r0: "lane_run lane0 ([] @ [])" using lane_run.fresh by (simp add: lane0_def)
  have "lane_run lane1 ([] @ (1, 4, False) # [])"
    using lane_run.enter [OF r0 people1_at(1) car_fields(1,4) _ _ _ _ lane_adds(1)] by (simp add: live_def lane1_def)
  then have r1: "lane_run lane1 ([] @ [(1, 4, False)])" by simp
  show ?thesis
    using lane_run.enter [OF r1 people1_at(3) car_fields(1,4) _ _ _ _ lane_adds(2)] by (simp add: live_def lane2_def)
qed

lemma lane_counts_exact_witness: "getMovingAgentsCount lane2 = Inr 1 \<and> queueLength lane2 = 4"
  using lane_counts_exact [OF lane2_run] by simp

lemma addPerson_keeps_order_witness:
  "\<exists>ls'. addPerson fexact people1 2 lane1 = Inr ls' \<and> verifyOrdering people1 ls' = Inr ()"
proof -
  have "laneInfinity lane1 = False" "live people1 (laneAgents lane1)" "verifyOrdering people1 lane1 = Inr ()"
    by (simp_all add: lane1_def lane0_def newLaneStats_def live_def verifyOrdering_def distance_of_def)
  from addPerson_keeps_order [OF this(1,2) people1_at(3) car_fields(1,4) _ this(3), of fexact] show ?thesis by auto
qed

lemma output_counter_accumulates_witness:
  "sum_list (fst (output_counts 5 1 (newLaneParams\<lparr>outputFlowRate := 3 / 10\<rparr>))) = 1"
  using output_counter_accumulates [of "newLaneParams\<lparr>outputFlowRate := 3 / 10\<rparr>" 1 5] by (simp add: newLaneParams_def)

text \<open>A person who is removed from lane infinity stays in its count: the count is not that of the persons any more,
  while a person who is dequeued is not counted.\<close>

theorem infinity_count_drifts:
  assumes "addPerson fl ps p (newLaneStats junk len True) = Inr ls"
  shows "(\<exists>ls'. removePerson fl p q l ls = Inr (ls', True) \<and> laneAgents ls' = [] \<and> numPersonsInLane ls' = 1) \<and>
     (\<exists>ls'. lane_dequeue fl p q l ls = Inr (ls', p) \<and> laneAgents ls' = [] \<and> numPersonsInLane ls' = 0)"
  using assms by (auto simp: addPerson_def newLaneStats_def removePerson_def lane_dequeue_def)

lemma infinity_count_drifts_witness:
  "\<exists>ls ls'. addPerson fexact people1 1 (newLaneStats 0 100 True) = Inr ls \<and> removePerson fexact 1 False 4 ls = Inr (ls', True) \<and>
     numPersonsInLane ls' = 1"
proof -
  obtain ls where ls: "addPerson fexact people1 1 (newLaneStats 0 100 True) = Inr ls" by (simp add: addPerson_def newLaneStats_def)
  from infinity_count_drifts [OF ls, of False 4] ls show ?thesis by blast
qed

end
