(* ===== verification/Link_Stats.thy ===== *)
theory Link_Stats
  imports Lane_Stats
begin

text \<open>
  The mid-term supply, part three: the statistics of a link (\<open>medium/entities/conflux/LinkStats.cpp\<close>). The drivers of
  several confluxes report to a link, so that its operations run under a mutex. An operation returns, or throws and
  leaves a state, or blocks on the mutex forever.
\<close>

section \<open>State and operations\<close>

text \<open>A density that is infinite or not a number is \<open>None\<close>.\<close>

record link_stats =
  linkLengthKm :: real
  carCount :: u32
  busCount :: u32
  motorcycleCount :: u32
  taxiCount :: u32
  otherVehiclesCount :: u32
  entryCount :: u32
  exitCount :: u32
  linkDensity :: "real option"
  totalLinkLaneLength :: real
  linkEntities :: "address list"
  locked :: bool

datatype link_error = InvalidPerson | NeverAdded | NoVehicle

datatype 'a outcome = Returned 'a link_stats | Threw link_error link_stats | BlockedOn link_stats

text \<open>The segments of the link with their length and number of lanes.\<close>

definition newLinkStats :: "round_fn \<Rightarrow> real \<Rightarrow> (real \<times> nat) list \<Rightarrow> link_stats" where
  "newLinkStats rnd len segments = \<lparr>linkLengthKm = rnd (len / 1000), carCount = 0, busCount = 0, motorcycleCount = 0,
     taxiCount = 0, otherVehiclesCount = 0, entryCount = 0, exitCount = 0, linkDensity = Some 0,
     totalLinkLaneLength = rnd (foldl (\<lambda>t (l, n). rnd (t + rnd (l * of_nat n))) 0 segments / 1000), linkEntities = [], locked = False\<rparr>"

text \<open>The mutex is taken on a state that does not hold it.\<close>

definition lock :: "link_stats \<Rightarrow> (link_stats \<Rightarrow> 'a outcome) \<Rightarrow> 'a outcome" where
  "lock ls f = (if locked ls then BlockedOn ls else f (ls\<lparr>locked := True\<rparr>))"

definition unlock :: "'a \<Rightarrow> link_stats \<Rightarrow> 'a outcome" where
  "unlock x ls = Returned x (ls\<lparr>locked := False\<rparr>)"

definition resetStats :: "link_stats \<Rightarrow> unit outcome" where
  "resetStats ls = lock ls (\<lambda>ls1. unlock () (ls1\<lparr>carCount := 0, busCount := 0, motorcycleCount := 0, taxiCount := 0,
     otherVehiclesCount := 0, entryCount := 0, exitCount := 0, linkDensity := Some 0\<rparr>))"

text \<open>A null pointer is 0; a person is looked up in the store.\<close>

definition vehicle_of :: "people \<Rightarrow> address \<Rightarrow> vehicle option" where
  "vehicle_of ps p = (case ps p of None \<Rightarrow> None | Some pp \<Rightarrow> (case currRole pp of None \<Rightarrow> None | Some r \<Rightarrow> currResource r))"

definition addEntity :: "people \<Rightarrow> address \<Rightarrow> link_stats \<Rightarrow> unit outcome" where
  "addEntity ps p ls =
     (if p = 0 \<or> vehicle_of ps p = None then Threw InvalidPerson ls
      else lock ls (\<lambda>ls1.
        if p \<notin> set (linkEntities ls1)
        then unlock () (ls1\<lparr>linkEntities := std_insert p (linkEntities ls1), entryCount := entryCount ls1 + 1\<rparr>)
        else unlock () ls1))"

definition count_exit :: "vehicle_type \<Rightarrow> link_stats \<Rightarrow> link_stats" where
  "count_exit t ls = (case t of CAR \<Rightarrow> ls\<lparr>carCount := carCount ls + 1\<rparr> | BUS \<Rightarrow> ls\<lparr>busCount := busCount ls + 1\<rparr>
     | TAXI \<Rightarrow> ls\<lparr>taxiCount := taxiCount ls + 1\<rparr> | BIKE \<Rightarrow> ls\<lparr>motorcycleCount := motorcycleCount ls + 1\<rparr>
     | _ \<Rightarrow> ls\<lparr>otherVehiclesCount := otherVehiclesCount ls + 1\<rparr>)"

text \<open>The role and the vehicle of the person are used without a check, after the person has been erased and counted: it is an
  error with the mutex held if the person has none.\<close>

definition removeEntity :: "people \<Rightarrow> address \<Rightarrow> link_stats \<Rightarrow> unit outcome" where
  "removeEntity ps p ls =
     (if p = 0 then Threw InvalidPerson ls
      else lock ls (\<lambda>ls1.
        if p \<in> set (linkEntities ls1)
        then (let ls2 = ls1\<lparr>linkEntities := std_erase p (linkEntities ls1), exitCount := exitCount ls1 + 1\<rparr>
              in case vehicle_of ps p of None \<Rightarrow> Threw NoVehicle ls2 | Some v \<Rightarrow> unlock () (count_exit (vehicleType v) ls2))
        else Threw NeverAdded ls1))"

definition computeLinkDensity :: "round_fn \<Rightarrow> real \<Rightarrow> link_stats \<Rightarrow> unit outcome" where
  "computeLinkDensity rnd vehicleLength ls = (let totalPCUs = rnd (vehicleLength / PASSENGER_CAR_UNIT)
     in lock ls (\<lambda>ls1. unlock () (ls1\<lparr>linkDensity := if totalLinkLaneLength ls1 = 0 then None else Some (rnd (totalPCUs / totalLinkLaneLength ls1))\<rparr>)))"

text \<open>The line is written from the values without the lock, then they are reset: it is the state that was read.\<close>

definition writeOutLinkStats :: "link_stats \<Rightarrow> link_stats outcome" where
  "writeOutLinkStats ls = (case resetStats ls of Returned _ ls1 \<Rightarrow> Returned ls ls1 | Threw e ls1 \<Rightarrow> Threw e ls1 | BlockedOn ls1 \<Rightarrow> BlockedOn ls1)"

section \<open>The counts\<close>

text \<open>A run with the number of entries and the types of the vehicles that have left since the last report. Removing a
  person uses the type of the vehicle of that person.\<close>

inductive link_run :: "link_stats \<Rightarrow> nat \<Rightarrow> vehicle_type list \<Rightarrow> bool" where
  made: "link_run (newLinkStats rnd len segments) 0 []"
| enters: "link_run ls n exits \<Longrightarrow> p \<notin> set (linkEntities ls) \<Longrightarrow> addEntity ps p ls = Returned u ls1 \<Longrightarrow> link_run ls1 (n + 1) exits"
| enters_again: "link_run ls n exits \<Longrightarrow> p \<in> set (linkEntities ls) \<Longrightarrow> addEntity ps p ls = Returned u ls1 \<Longrightarrow> link_run ls1 n exits"
| exits: "link_run ls n exits \<Longrightarrow> vehicle_of ps p = Some v \<Longrightarrow> removeEntity ps p ls = Returned u ls1 \<Longrightarrow>
    link_run ls1 n (vehicleType v # exits)"
| density: "link_run ls n exits \<Longrightarrow> computeLinkDensity rnd x ls = Returned u ls1 \<Longrightarrow> link_run ls1 n exits"
| written: "link_run ls n exits \<Longrightarrow> writeOutLinkStats ls = Returned line ls1 \<Longrightarrow> link_run ls1 0 []"

definition link_ok :: "link_stats \<Rightarrow> nat \<Rightarrow> vehicle_type list \<Rightarrow> bool" where
  "link_ok ls n exits \<longleftrightarrow> locked ls = False \<and> std_set (linkEntities ls) \<and> entryCount ls = of_nat n \<and> exitCount ls = of_nat (length exits) \<and>
     carCount ls = of_nat (count_list exits CAR) \<and> busCount ls = of_nat (count_list exits BUS) \<and>
     taxiCount ls = of_nat (count_list exits TAXI) \<and> motorcycleCount ls = of_nat (count_list exits BIKE) \<and>
     otherVehiclesCount ls = of_nat (count_list exits LGV + count_list exits HGV + count_list exits OTHER)"

lemmas link_ops = lock_def unlock_def addEntity_def removeEntity_def computeLinkDensity_def writeOutLinkStats_def resetStats_def Let_def

lemma link_run_ok: "link_run ls n exits \<Longrightarrow> link_ok ls n exits"
proof (induction rule: link_run.induct)
  case (made rnd len segments)
  show ?case by (simp add: link_ok_def newLinkStats_def)
next
  case (enters ls n exits p ps u ls1)
  then show ?case by (auto simp: link_ops link_ok_def split: if_splits)
next
  case (enters_again ls n exits p ps u ls1)
  then show ?case by (auto simp: link_ops link_ok_def split: if_splits)
next
  case (exits ls n exits ps p v u ls1)
  then show ?case by (cases "vehicleType v") (auto simp: link_ops link_ok_def count_exit_def split: if_splits)
next
  case (density ls n exits rnd x u ls1)
  then show ?case by (auto simp: link_ops link_ok_def split: if_splits)
next
  case (written ls n exits line ls1)
  then show ?case by (auto simp: link_ops link_ok_def split: if_splits)
qed

text \<open>C31: In every run of a link without an exception, the exits of an interval are the sum of the counts by type of
  vehicle, a person who enters twice is counted once, and the next operation does not block.\<close>

theorem link_counts_add_up:
  assumes "link_run ls n exits"
  shows "entryCount ls = of_nat n \<and> exitCount ls = of_nat (length exits) \<and>
     exitCount ls = carCount ls + busCount ls + taxiCount ls + motorcycleCount ls + otherVehiclesCount ls \<and>
     (\<exists>ls1. computeLinkDensity rnd x ls = Returned () ls1) \<and> (\<exists>ls1. writeOutLinkStats ls = Returned ls ls1)"
proof -
  have ok: "link_ok ls n exits" by (rule link_run_ok [OF assms])
  have "length exits = count_list exits CAR + count_list exits BUS + count_list exits TAXI + count_list exits BIKE +
      (count_list exits LGV + count_list exits HGV + count_list exits OTHER)"
    by (induction exits) (auto, case_tac a, auto)
  then have "exitCount ls = of_nat (count_list exits CAR + count_list exits BUS + count_list exits TAXI + count_list exits BIKE +
      (count_list exits LGV + count_list exits HGV + count_list exits OTHER))" using ok by (simp add: link_ok_def)
  then have "exitCount ls = carCount ls + busCount ls + taxiCount ls + motorcycleCount ls + otherVehiclesCount ls"
    using ok by (simp add: link_ok_def)
  moreover have "\<exists>ls1. computeLinkDensity rnd x ls = Returned () ls1" "\<exists>ls1. writeOutLinkStats ls = Returned ls ls1"
    using ok by (simp_all add: link_ops link_ok_def)
  ultimately show ?thesis using ok unfolding link_ok_def by blast
qed

definition link1 :: link_stats where
  "link1 = newLinkStats (\<lambda>x. x) 1000 [(400, 2), (600, 3)]"

definition driver1 :: person where
  "driver1 = car 30 False"

lemma link1_enters: "addEntity [5 \<mapsto> driver1] 5 link1 = Returned () (link1\<lparr>linkEntities := [5], entryCount := 1\<rparr>)"
  by (simp add: link1_def link_ops newLinkStats_def vehicle_of_def driver1_def std_insert_def)

lemma link_counts_add_up_witness: "\<exists>ls. link_run ls 1 [] \<and> entryCount ls = 1 \<and> exitCount ls = carCount ls + busCount ls + taxiCount ls + motorcycleCount ls + otherVehiclesCount ls"
proof -
  have "link_run link1 0 []" unfolding link1_def by (rule link_run.made)
  from link_run.enters [OF this _ link1_enters] have r: "link_run (link1\<lparr>linkEntities := [5], entryCount := 1\<rparr>) 1 []"
    by (simp add: link1_def newLinkStats_def)
  let ?ls = "link1\<lparr>linkEntities := [5], entryCount := 1\<rparr>"
  have "entryCount ?ls = 1 \<and> exitCount ?ls = carCount ?ls + busCount ?ls + taxiCount ?ls + motorcycleCount ?ls + otherVehiclesCount ?ls"
    using link_counts_add_up [OF r] by (metis of_nat_1)
  with r show ?thesis by blast
qed

text \<open>C38: Removing a person who was never added throws with the mutex held: every operation on the link blocks from
  then on.\<close>

theorem unknown_exit_locks_link:
  assumes "locked ls = False" "p \<noteq> 0" "p \<notin> set (linkEntities ls)"
  shows "\<exists>ls1. removeEntity ps p ls = Threw NeverAdded ls1 \<and> writeOutLinkStats ls1 = BlockedOn ls1 \<and>
     computeLinkDensity rnd x ls1 = BlockedOn ls1 \<and> (\<forall>ps' p'. p' \<noteq> 0 \<longrightarrow> removeEntity ps' p' ls1 = BlockedOn ls1) \<and>
     (\<forall>ps' p' v. p' \<noteq> 0 \<longrightarrow> vehicle_of ps' p' = Some v \<longrightarrow> addEntity ps' p' ls1 = BlockedOn ls1)"
  using assms by (simp add: link_ops)

lemma unknown_exit_locks_link_witness: "\<exists>ls1. removeEntity [5 \<mapsto> driver1] 5 link1 = Threw NeverAdded ls1 \<and> writeOutLinkStats ls1 = BlockedOn ls1"
proof -
  have "locked link1 = False" "(5 :: address) \<noteq> 0" "5 \<notin> set (linkEntities link1)" by (simp_all add: link1_def newLinkStats_def)
  from unknown_exit_locks_link [OF this, of "[5 \<mapsto> driver1]"] show ?thesis by blast
qed

end
