(* ===== verification/Segment_Stats.thy ===== *)
theory Segment_Stats
  imports Lane_Stats "HOL-Library.AList" "HOL-Library.Sublist"
begin

text \<open>
  The mid-term supply, part two: the statistics of a segment (\<open>medium/entities/conflux/SegmentStats.cpp\<close>). A segment
  has a \<open>LaneStats\<close> for every lane and for lane infinity, the bus stops with the drivers that serve them, the
  speed-density function, and the merge that orders its persons for the next tick. A \<open>LaneStats\<close> is identified by the
  address of its lane; the random numbers of \<open>rand()\<close> are an argument with a position.
\<close>

section \<open>State\<close>

record supply_params =
  freeFlowSpeed :: real
  minSpeed :: real
  jamDensity :: real
  minDensity :: real
  capacity :: real
  alpha :: real
  beta :: real

datatype vehicle_ordering = ORDERING_BY_DISTANCE | ORDERING_BY_DRIVING_TIME

record segment_stats =
  roadLanes :: "(address \<times> bool) list"
  laneStatsMap :: "(address \<times> lane_stats) list"
  infinityLane :: address
  outermostLane :: address
  segLength :: real
  segVehicleSpeed :: real
  segDensity :: real
  numVehicleLanes :: nat
  segFlow :: u32
  segPersons :: u32
  supplyParams :: supply_params
  orderBySetting :: vehicle_ordering
  laneGroup :: "(address \<times> address list) list"
  busStops :: "address list"
  busDrivers :: "address \<rightharpoonup> address list"
  taxiStands :: "address list"
  busStopAgents :: "address list"
  taxiStandAgents :: "address list"
  totalEnergy :: real
  totalDistance :: real
  energySamples :: u32

text \<open>What the configuration and the machine give: the rounding, the supply update interval in seconds, the
  tick in seconds, the largest \<open>double\<close>.\<close>

record supply_env =
  fl :: round_fn
  supplyInterval :: real
  tickSeconds :: real
  max_double :: real

definition getLane :: "supply_error \<Rightarrow> address \<Rightarrow> segment_stats \<Rightarrow> (supply_error, lane_stats) result" where
  "getLane e l ss = deref e (map_of (laneStatsMap ss) l)"

definition putLane :: "address \<Rightarrow> lane_stats \<Rightarrow> segment_stats \<Rightarrow> segment_stats" where
  "putLane l ls ss = ss\<lparr>laneStatsMap := AList.update l ls (laneStatsMap ss)\<rparr>"

text \<open>\<open>isPedestrianLane\<close>: lane infinity is made with no vehicle mode, so that it is not one.\<close>

definition isPedestrianLane :: "segment_stats \<Rightarrow> address \<Rightarrow> bool" where
  "isPedestrianLane ss l \<longleftrightarrow> (l, True) \<in> set (roadLanes ss)"

section \<open>Construction\<close>

text \<open>\<open>std::map::insert\<close> keeps the order of the keys and an element that is there.\<close>

definition map_insert :: "address \<Rightarrow> 'v \<Rightarrow> (address \<times> 'v) list \<Rightarrow> (address \<times> 'v) list" where
  "map_insert k v m = (if k \<in> fst ` set m then m else insort_key fst (k, v) m)"

definition addLane :: "supply_env \<Rightarrow> real \<Rightarrow> segment_stats \<Rightarrow> address \<times> bool \<Rightarrow> (supply_error, segment_stats) result" where
  "addLane env junk ss lane = (case lane of (l, pedestrian) \<Rightarrow>
     rbind (initLaneParams (fl env) (supplyInterval env) (segVehicleSpeed ss) (capacity (supplyParams ss)) (length (roadLanes ss))
              (newLaneStats junk (segLength ss) False)) (\<lambda>ls.
       let ss1 = ss\<lparr>laneStatsMap := map_insert l ls (laneStatsMap ss)\<rparr>
       in Inr (if \<not> pedestrian then ss1\<lparr>numVehicleLanes := numVehicleLanes ss1 + 1, outermostLane := l\<rparr> else ss1)))"

text \<open>The constructor: the lanes of the road segment with their direction flags, the address of the new lane infinity,
  the parameters read for the segment. \<open>outermostLane\<close> is uninitialised until the first vehicle lane.\<close>

definition newSegmentStats :: "supply_env \<Rightarrow> real \<Rightarrow> address \<Rightarrow> (address \<times> bool) list \<Rightarrow> address \<Rightarrow> real \<Rightarrow> supply_params \<Rightarrow> real \<Rightarrow>
    (supply_error, segment_stats) result" where
  "newSegmentStats env junk junkLane lanes inf_lane len sp maxSpeed =
     (let ss = \<lparr>roadLanes = lanes, laneStatsMap = [], infinityLane = 0, outermostLane = junkLane, segLength = len,
        segVehicleSpeed = maxSpeed, segDensity = 0, numVehicleLanes = 0, segFlow = 0, segPersons = 0, supplyParams = sp,
        orderBySetting = ORDERING_BY_DISTANCE, laneGroup = [], busStops = [], busDrivers = Map.empty, taxiStands = [],
        busStopAgents = [], taxiStandAgents = [], totalEnergy = 0, totalDistance = 0, energySamples = 0\<rparr>
      in rbind (run_list (addLane env junk) ss lanes) (\<lambda>ss1.
        Inr (ss1\<lparr>infinityLane := inf_lane, laneStatsMap := map_insert inf_lane (newLaneStats junk len True) (laneStatsMap ss1)\<rparr>)))"

definition newSupplyParams :: "supply_env \<Rightarrow> real \<Rightarrow> real \<Rightarrow> real \<Rightarrow> real \<Rightarrow> real \<Rightarrow> real \<Rightarrow> supply_params" where
  "newSupplyParams env maxSpeed cap al be jam mind =
     \<lparr>freeFlowSpeed = maxSpeed, minSpeed = fl env (2 / 10 * maxSpeed), jamDensity = jam, minDensity = mind, capacity = cap,
      alpha = al, beta = be\<rparr>"

section \<open>Persons enter and leave\<close>

definition addAgent :: "supply_env \<Rightarrow> people \<Rightarrow> address \<Rightarrow> address \<Rightarrow> segment_stats \<Rightarrow> (supply_error, segment_stats) result" where
  "addAgent env ps l p ss = rbind (getLane Dangling l ss) (\<lambda>ls. rbind (addPerson (fl env) ps p ls) (\<lambda>ls1.
     let ss1 = putLane l ls1 ss in Inr (ss1\<lparr>segPersons := segPersons ss1 + 1\<rparr>)))"

definition removeAgent :: "supply_env \<Rightarrow> address \<Rightarrow> address \<Rightarrow> bool \<Rightarrow> real \<Rightarrow> segment_stats \<Rightarrow> (supply_error, segment_stats \<times> bool) result" where
  "removeAgent env l p wasQueuing vehicleLength ss = rbind (getLane LaneNotFound l ss) (\<lambda>ls.
     rbind (removePerson (fl env) p wasQueuing vehicleLength ls) (\<lambda>(ls1, removed).
       let ss1 = putLane l ls1 ss in Inr (if removed then ss1\<lparr>segPersons := segPersons ss1 - 1\<rparr> else ss1, removed)))"

definition updateQueueStatus :: "supply_env \<Rightarrow> people \<Rightarrow> address \<Rightarrow> address \<Rightarrow> segment_stats \<Rightarrow> (supply_error, segment_stats) result" where
  "updateQueueStatus env ps l p ss = rbind (getLane LaneNotFound l ss) (\<lambda>ls.
     rbind (lane_updateQueueStatus (fl env) ps p ls) (\<lambda>ls1. Inr (putLane l ls1 ss)))"

text \<open>The debug build throws if the person is not found; the build without assertions returns a null pointer.\<close>

definition dequeue :: "supply_env \<Rightarrow> address \<Rightarrow> address \<Rightarrow> bool \<Rightarrow> real \<Rightarrow> segment_stats \<Rightarrow> (supply_error, segment_stats \<times> address) result" where
  "dequeue env p l isQueuingBfrUpdate vehicleLength ss =
     (if p = 0 then Inr (ss, 0)
      else case map_of (laneStatsMap ss) l of
        None \<Rightarrow> Inr (ss, 0)
      | Some ls \<Rightarrow> rbind (lane_dequeue (fl env) p isQueuingBfrUpdate vehicleLength ls) (\<lambda>(ls1, p1).
          let ss1 = putLane l ls1 ss in Inr (if p1 \<noteq> 0 then ss1\<lparr>segPersons := segPersons ss1 - 1\<rparr> else ss1, p1)))"

definition getPersonsInLane :: "address \<Rightarrow> segment_stats \<Rightarrow> (supply_error, address list) result" where
  "getPersonsInLane l ss = rbind (getLane LaneNotFound l ss) (\<lambda>ls. Inr (laneAgents ls))"

section \<open>Stops\<close>

definition addBusStopAgent :: "address \<Rightarrow> segment_stats \<Rightarrow> segment_stats" where
  "addBusStopAgent a ss = (if a = 0 then ss else ss\<lparr>busStopAgents := busStopAgents ss @ [a]\<rparr>)"

definition addTaxiStandAgent :: "address \<Rightarrow> segment_stats \<Rightarrow> segment_stats" where
  "addTaxiStandAgent a ss = (if a = 0 then ss else ss\<lparr>taxiStandAgents := taxiStandAgents ss @ [a]\<rparr>)"

definition addTaxiStand :: "address \<Rightarrow> segment_stats \<Rightarrow> segment_stats" where
  "addTaxiStand a ss = (if a \<noteq> 0 then ss\<lparr>taxiStands := taxiStands ss @ [a]\<rparr> else ss)"

datatype stop_error = StopIsNull | StopNotFound | DriverNotServing | OutOfRange

definition addBusStop :: "address \<Rightarrow> segment_stats \<Rightarrow> (stop_error, segment_stats) result" where
  "addBusStop stop ss = guard StopIsNull (stop \<noteq> 0)
     (Inr (ss\<lparr>busStops := busStops ss @ [stop], busDrivers := (busDrivers ss)(stop \<mapsto> [])\<rparr>))"

definition hasBusStop :: "address \<Rightarrow> segment_stats \<Rightarrow> bool" where
  "hasBusStop stop ss = (if stop = 0 then False else stop \<in> set (busStops ss))"

definition hasTaxiStand :: "address \<Rightarrow> segment_stats \<Rightarrow> bool" where
  "hasTaxiStand stand ss = (if stand = 0 then False else stand \<in> set (taxiStands ss))"

definition addBusDriverToStop :: "address \<Rightarrow> address \<Rightarrow> segment_stats \<Rightarrow> (stop_error, segment_stats) result" where
  "addBusDriverToStop driver stop ss =
     (if stop \<noteq> 0 \<and> hasBusStop stop ss
      then rbind (deref OutOfRange (busDrivers ss stop)) (\<lambda>ds. Inr (ss\<lparr>busDrivers := (busDrivers ss)(stop \<mapsto> ds @ [driver])\<rparr>))
      else Inr ss)"

definition removeBusDriverFromStop :: "address \<Rightarrow> address \<Rightarrow> segment_stats \<Rightarrow> (stop_error, segment_stats) result" where
  "removeBusDriverFromStop driver stop ss =
     (if stop \<noteq> 0 \<and> hasBusStop stop ss
      then rbind (deref OutOfRange (busDrivers ss stop)) (\<lambda>ds.
        guard DriverNotServing (driver \<in> set ds) (Inr (ss\<lparr>busDrivers := (busDrivers ss)(stop \<mapsto> remove1 driver ds)\<rparr>)))
      else Inl StopNotFound)"

text \<open>The persons of the lanes in the order of the map, then the drivers at the stops, the last stop first; appended to
  the list that the caller gives.\<close>

definition driversAtStops :: "segment_stats \<Rightarrow> (stop_error, address list) result" where
  "driversAtStops ss = run_list (\<lambda>out stop. rbind (deref OutOfRange (busDrivers ss stop)) (\<lambda>ds. Inr (out @ ds))) [] (rev (busStops ss))"

definition getPersons :: "segment_stats \<Rightarrow> address list \<Rightarrow> (stop_error, address list) result" where
  "getPersons ss segAgents = rbind (driversAtStops ss) (\<lambda>ds.
     Inr (segAgents @ concat (map (\<lambda>(l, ls). laneAgents ls) (laneStatsMap ss)) @ ds))"

definition getInfinityPersons :: "segment_stats \<Rightarrow> address list \<Rightarrow> (supply_error, address list) result" where
  "getInfinityPersons ss segAgents = rbind (getLane Dangling (infinityLane ss) ss) (\<lambda>ls. Inr (segAgents @ laneAgents ls))"

section \<open>The order in which the persons move\<close>

text \<open>The persons in front of their lists with the least key, as pairs of the index of the list and the person; \<open>least\<close>
  starts with the largest \<open>double\<close>. An iterator is represented by the part of the list that is left.\<close>

type_synonym key_fn = "address \<Rightarrow> (supply_error, real) result"

fun scan_fronts :: "key_fn \<Rightarrow> real \<Rightarrow> (nat \<times> address) list \<Rightarrow> nat \<Rightarrow> address list list \<Rightarrow> (supply_error, (nat \<times> address) list) result" where
  "scan_fronts key least acc i [] = Inr acc"
| "scan_fronts key least acc i ([] # xss) = scan_fronts key least acc (Suc i) xss"
| "scan_fronts key least acc i ((p # xs) # xss) = rbind (key p) (\<lambda>k.
     if k = least then scan_fronts key least (acc @ [(i, p)]) (Suc i) xss
     else if k < least then scan_fronts key k [(i, p)] (Suc i) xss
     else scan_fronts key least acc (Suc i) xss)"

definition pick_one :: "(nat \<Rightarrow> nat) \<Rightarrow> nat \<Rightarrow> (nat \<times> address) list \<Rightarrow> (nat \<times> address) \<times> nat" where
  "pick_one rnd k eq = (if length eq = 1 then (hd eq, k) else (eq ! (rnd k mod length eq), Suc k))"

fun pick_top :: "key_fn \<Rightarrow> real \<Rightarrow> (nat \<Rightarrow> nat) \<Rightarrow> nat \<Rightarrow> nat \<Rightarrow> address list list \<Rightarrow> address list \<Rightarrow>
    (supply_error, address list \<times> address list list \<times> nat) result" where
  "pick_top key mx rnd 0 k xss out = Inr (out, xss, k)"
| "pick_top key mx rnd (Suc c) k xss out = rbind (scan_fronts key mx [] 0 xss) (\<lambda>eq.
     if eq = [] then pick_top key mx rnd c k xss out
     else let ((i, p), k1) = pick_one rnd k eq in pick_top key mx rnd c k1 (xss[i := tl (xss ! i)]) (out @ [p]))"

definition driving_time_of :: "people \<Rightarrow> address \<Rightarrow> (supply_error, real) result" where
  "driving_time_of ps p = rbind (deref Dangling (ps p)) (\<lambda>pp. Inr (drivingTimeToEndOfLink pp))"

definition order_key :: "people \<Rightarrow> segment_stats \<Rightarrow> key_fn" where
  "order_key ps ss = (case orderBySetting ss of ORDERING_BY_DISTANCE \<Rightarrow> distance_of ps | ORDERING_BY_DRIVING_TIME \<Rightarrow> driving_time_of ps)"

definition ordinary_lanes :: "segment_stats \<Rightarrow> address list list" where
  "ordinary_lanes ss = map (\<lambda>(l, ls). laneAgents ls) (filter (\<lambda>(l, ls). \<not> laneInfinity ls) (laneStatsMap ss))"

definition topCMergeLanesInSegment :: "supply_env \<Rightarrow> people \<Rightarrow> (nat \<Rightarrow> nat) \<Rightarrow> nat \<Rightarrow> segment_stats \<Rightarrow>
    (stop_error + supply_error, address list \<times> nat) result" where
  "topCMergeLanesInSegment env ps rnd k ss =
     (case driversAtStops ss of Inl e \<Rightarrow> Inl (Inl e) | Inr drivers \<Rightarrow>
      case pick_top (order_key ps ss) (max_double env) rnd (nat \<lceil>capacity (supplyParams ss)\<rceil>) k (ordinary_lanes ss) drivers of
        Inl e \<Rightarrow> Inl (Inr e)
      | Inr (out, rest, k1) \<Rightarrow>
         case getInfinityPersons ss (out @ concat rest) of Inl e \<Rightarrow> Inl (Inr e) | Inr merged \<Rightarrow> Inr (merged, k1))"

section \<open>What a segment reports\<close>

definition getLaneAgentCounts :: "address \<Rightarrow> segment_stats \<Rightarrow> (supply_error, u32 \<times> u32) result" where
  "getLaneAgentCounts l ss = rbind (getLane LaneNotFound l ss) (\<lambda>ls. rbind (getMovingAgentsCount ls) (\<lambda>m. Inr (queueCount ls, m)))"

definition getLaneQueueLength :: "address \<Rightarrow> segment_stats \<Rightarrow> (supply_error, real) result" where
  "getLaneQueueLength l ss = rbind (getLane LaneNotFound l ss) (\<lambda>ls. Inr (queueLength ls))"

definition getLaneMovingLength :: "supply_env \<Rightarrow> address \<Rightarrow> segment_stats \<Rightarrow> (supply_error, real) result" where
  "getLaneMovingLength env l ss = rbind (getLane LaneNotFound l ss) (\<lambda>ls. lane_getMovingLength (fl env) ls)"

definition getLaneTotalVehicleLength :: "address \<Rightarrow> segment_stats \<Rightarrow> (supply_error, real) result" where
  "getLaneTotalVehicleLength l ss = rbind (getLane LaneNotFound l ss) (\<lambda>ls. Inr (totalLength ls))"

definition numAgentsInLane :: "address \<Rightarrow> segment_stats \<Rightarrow> (supply_error, u32) result" where
  "numAgentsInLane l ss = rbind (getLane LaneNotFound l ss) (\<lambda>ls. Inr (numPersonsInLane ls))"

definition numMovingInSegment :: "bool \<Rightarrow> segment_stats \<Rightarrow> (supply_error, u32) result" where
  "numMovingInSegment hasVehicle ss = run_list (\<lambda>n (l, pedestrian).
     if hasVehicle \<noteq> pedestrian
     then rbind (getLane LaneNotFound l ss) (\<lambda>ls. rbind (getMovingAgentsCount ls) (\<lambda>m. Inr (n + m)))
     else Inr n) 0 (roadLanes ss)"

definition numQueuingInSegment :: "bool \<Rightarrow> segment_stats \<Rightarrow> (supply_error, u32) result" where
  "numQueuingInSegment hasVehicle ss = run_list (\<lambda>n (l, pedestrian).
     if hasVehicle \<noteq> pedestrian then rbind (getLane LaneNotFound l ss) (\<lambda>ls. Inr (n + queueCount ls)) else Inr n) 0 (roadLanes ss)"

definition vehicle_lanes :: "segment_stats \<Rightarrow> lane_stats list" where
  "vehicle_lanes ss = map snd (filter (\<lambda>(l, ls). \<not> laneInfinity ls \<and> \<not> isPedestrianLane ss l) (laneStatsMap ss))"

definition getMovingLength :: "supply_env \<Rightarrow> segment_stats \<Rightarrow> (supply_error, real) result" where
  "getMovingLength env ss = run_list (\<lambda>x ls. rbind (lane_getMovingLength (fl env) ls) (\<lambda>m. Inr (fl env (x + m)))) 0 (vehicle_lanes ss)"

definition getQueueLength :: "supply_env \<Rightarrow> segment_stats \<Rightarrow> real" where
  "getQueueLength env ss = foldl (\<lambda>x ls. fl env (x + queueLength ls)) 0 (vehicle_lanes ss)"

definition hasQueue :: "segment_stats \<Rightarrow> bool" where
  "hasQueue ss \<longleftrightarrow> list_ex (\<lambda>ls. queueLength ls > 0) (vehicle_lanes ss)"

definition getTotalVehicleLength :: "supply_env \<Rightarrow> segment_stats \<Rightarrow> real" where
  "getTotalVehicleLength env ss = foldl (\<lambda>x ls. fl env (x + totalLength ls)) 0 (vehicle_lanes ss)"

definition getDensity :: "supply_env \<Rightarrow> segment_stats \<Rightarrow> (supply_error, real) result" where
  "getDensity env ss =
     (let movingPartLength = fl env (fl env (segLength ss * of_nat (numVehicleLanes ss)) - getQueueLength env ss)
      in rbind (getMovingLength env ss) (\<lambda>m. let movingPCUs = fl env (m / PASSENGER_CAR_UNIT)
         in if movingPartLength > PASSENGER_CAR_UNIT then Inr (fl env (movingPCUs / movingPartLength))
            else Inr (fl env (1 / PASSENGER_CAR_UNIT))))"

definition getTotalDensity :: "supply_env \<Rightarrow> segment_stats \<Rightarrow> (supply_error, real) result" where
  "getTotalDensity env ss = fdiv (fl env) (fl env (getTotalVehicleLength env ss / PASSENGER_CAR_UNIT))
     (fl env (of_nat (numVehicleLanes ss) * fl env (segLength ss / 1000)))"

definition hasPersons :: "segment_stats \<Rightarrow> bool" where
  "hasPersons ss \<longleftrightarrow> segPersons ss > 0"

definition isShortSegment :: "segment_stats \<Rightarrow> bool" where
  "isShortSegment ss \<longleftrightarrow> segLength ss < SHORT_SEGMENT_LENGTH_LIMIT"

definition getPositionOfLastUpdatedAgentInLane :: "address \<Rightarrow> segment_stats \<Rightarrow> (supply_error, real) result" where
  "getPositionOfLastUpdatedAgentInLane l ss = rbind (getLane LaneNotFound l ss) (\<lambda>ls. Inr (positionOfLastUpdatedAgent ls))"

definition setPositionOfLastUpdatedAgentInLane :: "real \<Rightarrow> address \<Rightarrow> segment_stats \<Rightarrow> (supply_error, segment_stats) result" where
  "setPositionOfLastUpdatedAgentInLane pos l ss = rbind (getLane LaneNotFound l ss) (\<lambda>ls.
     Inr (putLane l (ls\<lparr>positionOfLastUpdatedAgent := pos\<rparr>) ss))"

definition getInitialQueueLength :: "address \<Rightarrow> segment_stats \<Rightarrow> (supply_error, real) result" where
  "getInitialQueueLength l ss = rbind (getLane LaneNotFound l ss) (\<lambda>ls. Inr (initialQueueLength ls))"

definition resetPositionOfLastUpdatedAgentOnLanes :: "segment_stats \<Rightarrow> segment_stats" where
  "resetPositionOfLastUpdatedAgentOnLanes ss =
     ss\<lparr>laneStatsMap := map (\<lambda>(l, ls). (l, ls\<lparr>positionOfLastUpdatedAgent := - 1\<rparr>)) (laneStatsMap ss)\<rparr>"

definition incrementSegFlow :: "segment_stats \<Rightarrow> segment_stats" where
  "incrementSegFlow ss = ss\<lparr>segFlow := segFlow ss + 1\<rparr>"

definition resetSegFlow :: "segment_stats \<Rightarrow> segment_stats" where
  "resetSegFlow ss = ss\<lparr>segFlow := 0\<rparr>"

definition onNewEnergySample :: "supply_env \<Rightarrow> real \<Rightarrow> real \<Rightarrow> segment_stats \<Rightarrow> segment_stats" where
  "onNewEnergySample env sample distance ss = ss\<lparr>totalEnergy := fl env (totalEnergy ss + sample),
     totalDistance := fl env (totalDistance ss + distance), energySamples := energySamples ss + 1\<rparr>"

definition resetEnergyStats :: "segment_stats \<Rightarrow> segment_stats" where
  "resetEnergyStats ss = ss\<lparr>totalEnergy := 0, totalDistance := 0, energySamples := 0\<rparr>"

definition getEnergy :: "segment_stats \<Rightarrow> real" where
  "getEnergy ss = (if energySamples ss > 0 then totalEnergy ss else 0)"

definition getDistanceTraveled :: "segment_stats \<Rightarrow> real" where
  "getDistanceTraveled ss = (if energySamples ss > 0 then totalDistance ss else 0)"

section \<open>Lane groups\<close>

definition isConnectedToDownstreamLink :: "address \<Rightarrow> address \<Rightarrow> segment_stats \<Rightarrow> (supply_error, bool) result" where
  "isConnectedToDownstreamLink lnk l ss =
     (if lnk = 0 then Inr False else rbind (getLane LaneNotFound l ss) (\<lambda>ls. Inr (lnk \<in> set (connectedDownstreamLinks ls))))"

datatype group_error = InvalidDownstreamLink | MoreLanesInGroup

definition getAllowedVehicleLengthForLaneGroup :: "supply_env \<Rightarrow> address \<Rightarrow> segment_stats \<Rightarrow> (group_error, real) result" where
  "getAllowedVehicleLengthForLaneGroup env lnk ss =
     (let numLanes = length (roadLanes ss)
      in if lnk = 0 then Inr (fl env (of_nat numLanes * segLength ss))
         else case map_of (laneGroup ss) lnk of
           None \<Rightarrow> Inl InvalidDownstreamLink
         | Some grp \<Rightarrow>
            let numLanesInLG = length grp
            in if numLanes = numLanesInLG then Inr (fl env (of_nat numLanesInLG * segLength ss))
               else if numLanes < numLanesInLG then Inl MoreLanesInGroup
               else Inr (fl env (fl env (of_nat numLanesInLG * segLength ss) +
                      fl env (fl env (of_nat (numLanes - numLanesInLG) * (1 / 2)) * segLength ss))))"

definition getVehicleLengthForLaneGroup :: "supply_env \<Rightarrow> address \<Rightarrow> segment_stats \<Rightarrow> (group_error + supply_error, real) result" where
  "getVehicleLengthForLaneGroup env lnk ss =
     (if lnk = 0 then Inr (getTotalVehicleLength env ss)
      else case map_of (laneGroup ss) lnk of
        None \<Rightarrow> Inl (Inl InvalidDownstreamLink)
      | Some grp \<Rightarrow> run_list (\<lambda>x l. case getLane Dangling l ss of Inl e \<Rightarrow> Inl (Inr e) | Inr ls \<Rightarrow> Inr (fl env (x + totalLength ls))) 0 grp)"

section \<open>Speed and flow\<close>

text \<open>\<open>std::pow\<close>: a negative base has a power with an integer exponent only; zero has no power with a negative one.\<close>

definition c_pow :: "round_fn \<Rightarrow> real \<Rightarrow> real \<Rightarrow> (supply_error, real) result" where
  "c_pow rnd x y =
     (if y = 0 then Inr 1
      else if x > 0 then Inr (rnd (x powr y))
      else if x = 0 then guard NotFinite (y > 0) (Inr 0)
      else guard NotFinite (y = of_int \<lfloor>y\<rfloor>) (Inr (rnd (x powi \<lfloor>y\<rfloor>))))"

definition speedDensityFunction :: "supply_env \<Rightarrow> segment_stats \<Rightarrow> real \<Rightarrow> (supply_error, real) result" where
  "speedDensityFunction env ss density =
     (let sp = supplyParams ss; f = fl env
      in rbind (if density \<ge> jamDensity sp then Inr (minSpeed sp)
                else if density \<ge> minDensity sp
                then rbind (fdiv f (f (density - minDensity sp)) (jamDensity sp)) (\<lambda>ratio.
                  rbind (c_pow f ratio (beta sp)) (\<lambda>x. rbind (c_pow f (f (1 - x)) (alpha sp)) (\<lambda>y. Inr (f (freeFlowSpeed sp * y)))))
                else Inr (freeFlowSpeed sp)) (\<lambda>speed.
           let speed1 = max speed (minSpeed sp)
           in Inr (if segLength ss < SHORT_SEGMENT_LENGTH_LIMIT then freeFlowSpeed sp else speed1)))"

definition finish_lane_params :: "supply_env \<Rightarrow> address \<Rightarrow> lane_stats \<Rightarrow> segment_stats \<Rightarrow> (supply_error, segment_stats) result" where
  "finish_lane_params env l ls ss =
     (let ss1 = putLane l (updateOutputCounter (fl env) (supplyInterval env) ls) ss
      in rbind (getDensity env ss1) (\<lambda>d. let ss2 = ss1\<lparr>segDensity := d\<rparr> in
         rbind (speedDensityFunction env ss2 d) (\<lambda>upSpeed. rbind (getLane LaneNotFound l ss2) (\<lambda>ls2.
         rbind (updateAcceptRate (fl env) upSpeed (numVehicleLanes ss2) ls2) (\<lambda>ls3. Inr (putLane l ls3 ss2))))))"

definition restoreLaneParams :: "supply_env \<Rightarrow> address \<Rightarrow> segment_stats \<Rightarrow> (supply_error, segment_stats) result" where
  "restoreLaneParams env l ss = rbind (getLane LaneNotFound l ss) (\<lambda>ls.
     finish_lane_params env l (updateOutputFlowRate (origOutputFlowRate (laneParams ls)) ls) ss)"

definition updateLaneParamsOf :: "supply_env \<Rightarrow> address \<Rightarrow> real \<Rightarrow> segment_stats \<Rightarrow> (supply_error, segment_stats) result" where
  "updateLaneParamsOf env l newOutputFlowRate ss = rbind (getLane LaneNotFound l ss) (\<lambda>ls.
     finish_lane_params env l (updateOutputFlowRate newOutputFlowRate ls) ss)"

text \<open>The update of all lanes, at the end of a supply interval.\<close>

definition update_lane :: "supply_env \<Rightarrow> segment_stats \<Rightarrow> address \<times> lane_stats \<Rightarrow> (supply_error, address \<times> lane_stats) result" where
  "update_lane env ss entry = (case entry of (l, ls) \<Rightarrow>
     if isPedestrianLane ss l then Inr (l, ls)
     else rbind (lane_getDensity (fl env) ls) (\<lambda>d. rbind (speedDensityFunction env ss d) (\<lambda>speed.
       rbind (updateAcceptRate (fl env) (segVehicleSpeed ss) (numVehicleLanes ss)
         (updateOutputCounter (fl env) (supplyInterval env) (ls\<lparr>laneVehSpeed := speed\<rparr>))) (\<lambda>ls1.
       Inr (l, ls1\<lparr>initialQueueLength := queueLength ls1\<rparr>)))))"

definition updateLaneParams :: "supply_env \<Rightarrow> segment_stats \<Rightarrow> (supply_error, segment_stats) result" where
  "updateLaneParams env ss = rbind (getDensity env ss) (\<lambda>d.
     let ss1 = ss\<lparr>segDensity := d\<rparr>
     in rbind (speedDensityFunction env ss1 d) (\<lambda>speed. let ss2 = ss1\<lparr>segVehicleSpeed := speed\<rparr>
     in rbind (run_list (\<lambda>m e. rbind (update_lane env ss2 e) (\<lambda>e1. Inr (m @ [e1]))) [] (laneStatsMap ss2)) (\<lambda>m.
        Inr (ss2\<lparr>laneStatsMap := m\<rparr>))))"

text \<open>The sum is a \<open>float\<close>: a second rounding.\<close>

definition computeExpectedOutputPerTick :: "supply_env \<Rightarrow> round_fn \<Rightarrow> segment_stats \<Rightarrow> int" where
  "computeExpectedOutputPerTick env single ss =
     \<lceil>foldl (\<lambda>n (l, ls). single (fl env (n + fl env (outputFlowRate (laneParams ls) * tickSeconds env)))) 0 (laneStatsMap ss)\<rceil>"

text \<open>The driving times of all persons of the road's lanes and of lane infinity.\<close>

definition set_driving_time :: "supply_env \<Rightarrow> real \<Rightarrow> real \<Rightarrow> people \<Rightarrow> address \<Rightarrow> (supply_error, people) result" where
  "set_driving_time env speed toEnd ps p = rbind (deref Dangling (ps p)) (\<lambda>pp.
     Inr (ps(p \<mapsto> pp\<lparr>drivingTimeToEndOfLink := fl env (fl env (distanceToEndOfSegment pp / speed) + toEnd)\<rparr>)))"

definition positive_speed :: "real \<Rightarrow> real" where
  "positive_speed speed = (if speed < 1 / 1000000 then 1 / 1000000 else speed)"

definition updateLinkDrivingTimes :: "supply_env \<Rightarrow> real \<Rightarrow> segment_stats \<Rightarrow> people \<Rightarrow> (supply_error, people) result" where
  "updateLinkDrivingTimes env toEnd ss ps =
     (let speed = positive_speed (segVehicleSpeed ss)
      in run_list (\<lambda>ps1 l. rbind (getLane Dangling l ss) (\<lambda>ls. run_list (set_driving_time env speed toEnd) ps1 (laneAgents ls)))
           ps (map fst (roadLanes ss) @ [infinityLane ss]))"

section \<open>The merge picks the least persons first\<close>

definition fronts :: "nat \<Rightarrow> address list list \<Rightarrow> (nat \<times> address) set" where
  "fronts i xss = {(i + j, hd (xss ! j)) | j. j < length xss \<and> xss ! j \<noteq> []}"

lemma fronts_Nil [simp]: "fronts i [] = {}"
  by (simp add: fronts_def)

lemma fronts_Cons: "fronts i (xs # xss) = (if xs = [] then {} else {(i, hd xs)}) \<union> fronts (Suc i) xss"
  by (force simp: fronts_def less_Suc_eq_0_disj)

lemma fronts_empty: "fronts i xss = {} \<longleftrightarrow> concat xss = []"
  by (induction xss arbitrary: i) (auto simp: fronts_Cons)

lemma scan_fronts_spec:
  assumes "\<forall>p \<in> set (concat xss). key p = Inr (kd p) \<and> (kd p \<le> least \<or> acc \<noteq> [])" "\<forall>e \<in> set acc. kd (snd e) = least"
  shows "\<exists>eq m. scan_fronts key least acc i xss = Inr eq \<and> set eq \<subseteq> set acc \<union> fronts i xss \<and>
     (\<forall>e \<in> set eq. kd (snd e) = m) \<and> m \<le> least \<and> (\<forall>e \<in> fronts i xss. m \<le> kd (snd e)) \<and> (eq = [] \<longleftrightarrow> acc = [] \<and> concat xss = [])"
  using assms
proof (induction key least acc i xss rule: scan_fronts.induct)
  case (1 key least acc i)
  then show ?case by auto
next
  case (2 key least acc i xss)
  then show ?case by (simp add: fronts_Cons)
next
  case (3 key least acc i p xs xss)
  have k: "key p = Inr (kd p)" using 3(4) by simp
  consider (eq) "kd p = least" | (below) "kd p < least" | (above) "kd p > least" "acc \<noteq> []" using 3(4) by fastforce
  then show ?case
  proof cases
    case eq
    have "\<exists>eq m. scan_fronts key least (acc @ [(i, p)]) (Suc i) xss = Inr eq \<and> set eq \<subseteq> set (acc @ [(i, p)]) \<union> fronts (Suc i) xss \<and>
      (\<forall>e \<in> set eq. kd (snd e) = m) \<and> m \<le> least \<and> (\<forall>e \<in> fronts (Suc i) xss. m \<le> kd (snd e)) \<and>
      (eq = [] \<longleftrightarrow> acc @ [(i, p)] = [] \<and> concat xss = [])"
      by (rule 3(1)) (use 3(4,5) k eq in auto)
    then obtain es m where r: "scan_fronts key least (acc @ [(i, p)]) (Suc i) xss = Inr es" "set es \<subseteq> set (acc @ [(i, p)]) \<union> fronts (Suc i) xss"
      "\<forall>e \<in> set es. kd (snd e) = m" "m \<le> least" "\<forall>e \<in> fronts (Suc i) xss. m \<le> kd (snd e)"
      "es = [] \<longleftrightarrow> (acc @ [(i, p)]) = [] \<and> concat xss = []" by (elim exE conjE) (rule that)
    have "scan_fronts key least acc i ((p # xs) # xss) = Inr es" using r(1) k eq by simp
    moreover have "set es \<subseteq> set acc \<union> fronts i ((p # xs) # xss)" using r(2) by (auto simp: fronts_Cons)
    moreover have "\<forall>e \<in> fronts i ((p # xs) # xss). m \<le> kd (snd e)" using r(4,5) eq by (auto simp: fronts_Cons)
    moreover have "m \<le> least" "es = [] \<longleftrightarrow> acc = [] \<and> concat ((p # xs) # xss) = []" using r(4,6) eq by auto
    ultimately show ?thesis using r(3) by blast
  next
    case below
    have "\<exists>eq m. scan_fronts key (kd p) [(i, p)] (Suc i) xss = Inr eq \<and> set eq \<subseteq> set [(i, p)] \<union> fronts (Suc i) xss \<and>
      (\<forall>e \<in> set eq. kd (snd e) = m) \<and> m \<le> kd p \<and> (\<forall>e \<in> fronts (Suc i) xss. m \<le> kd (snd e)) \<and>
      (eq = [] \<longleftrightarrow> [(i, p)] = [] \<and> concat xss = [])"
      by (rule 3(2)) (use 3(4,5) k below in auto)
    then obtain es m where r: "scan_fronts key (kd p) [(i, p)] (Suc i) xss = Inr es" "set es \<subseteq> set [(i, p)] \<union> fronts (Suc i) xss"
      "\<forall>e \<in> set es. kd (snd e) = m" "m \<le> (kd p)" "\<forall>e \<in> fronts (Suc i) xss. m \<le> kd (snd e)"
      "es = [] \<longleftrightarrow> [(i, p)] = [] \<and> concat xss = []" by (elim exE conjE) (rule that)
    have "scan_fronts key least acc i ((p # xs) # xss) = Inr es" using r(1) k below by simp
    moreover have "set es \<subseteq> set acc \<union> fronts i ((p # xs) # xss)" using r(2) by (auto simp: fronts_Cons)
    moreover have "\<forall>e \<in> fronts i ((p # xs) # xss). m \<le> kd (snd e)" using r(4,5) below by (auto simp: fronts_Cons)
    moreover have "m \<le> least" "es = [] \<longleftrightarrow> acc = [] \<and> concat ((p # xs) # xss) = []" using r(4,6) below by auto
    ultimately show ?thesis using r(3) by blast
  next
    case above
    have "\<exists>eq m. scan_fronts key least acc (Suc i) xss = Inr eq \<and> set eq \<subseteq> set acc \<union> fronts (Suc i) xss \<and>
      (\<forall>e \<in> set eq. kd (snd e) = m) \<and> m \<le> least \<and> (\<forall>e \<in> fronts (Suc i) xss. m \<le> kd (snd e)) \<and>
      (eq = [] \<longleftrightarrow> acc = [] \<and> concat xss = [])"
      by (rule 3(3)) (use 3(4,5) k above in auto)
    then obtain es m where r: "scan_fronts key least acc (Suc i) xss = Inr es" "set es \<subseteq> set acc \<union> fronts (Suc i) xss"
      "\<forall>e \<in> set es. kd (snd e) = m" "m \<le> least" "\<forall>e \<in> fronts (Suc i) xss. m \<le> kd (snd e)"
      "es = [] \<longleftrightarrow> acc = [] \<and> concat xss = []" by (elim exE conjE) (rule that)
    have "scan_fronts key least acc i ((p # xs) # xss) = Inr es" using r(1) k above by simp
    moreover have "set es \<subseteq> set acc \<union> fronts i ((p # xs) # xss)" using r(2) by (auto simp: fronts_Cons)
    moreover have "\<forall>e \<in> fronts i ((p # xs) # xss). m \<le> kd (snd e)" using r(4,5) above by (auto simp: fronts_Cons)
    moreover have "m \<le> least" "es = [] \<longleftrightarrow> acc = [] \<and> concat ((p # xs) # xss) = []" using r(4,6) above by auto
    ultimately show ?thesis using r(3) by blast
  qed
qed

lemma pick_one_member: "eq \<noteq> [] \<Longrightarrow> fst (pick_one rnd k eq) \<in> set eq"
  by (simp add: pick_one_def)

lemma mset_concat_tl:
  assumes "i < length xss" "xss ! i = p # t"
  shows "mset (concat xss) = add_mset p (mset (concat (xss[i := t])))"
proof -
  have "xss = take i xss @ (p # t) # drop (Suc i) xss" using assms id_take_nth_drop by metis
  moreover have "xss[i := t] = take i xss @ t # drop (Suc i) xss" using assms(1) by (rule upd_conv_take_nth_drop)
  ultimately have "mset (concat xss) = mset (concat (take i xss @ (p # t) # drop (Suc i) xss))"
    "mset (concat (xss[i := t])) = mset (concat (take i xss @ t # drop (Suc i) xss))" by metis+
  then show ?thesis by simp
qed

definition lists_sorted :: "(address \<Rightarrow> real) \<Rightarrow> address list list \<Rightarrow> bool" where
  "lists_sorted kd xss \<longleftrightarrow> (\<forall>xs \<in> set xss. sorted (map kd xs))"

lemma front_least:
  assumes "lists_sorted kd xss" "\<forall>e \<in> fronts 0 xss. m \<le> kd (snd e)" "q \<in> set (concat xss)"
  shows "m \<le> kd q"
proof -
  from assms(3) obtain xs where "xs \<in> set xss" "q \<in> set xs" by auto
  then obtain j where j: "j < length xss" "q \<in> set (xss ! j)" by (metis in_set_conv_nth)
  then obtain x t where x: "xss ! j = x # t" by (cases "xss ! j") auto
  have "(j, x) \<in> fronts 0 xss" using j x by (auto simp: fronts_def)
  then have "m \<le> kd x" using assms(2) by auto
  moreover have "sorted (map kd (x # t))" using assms(1) j(1) x by (metis lists_sorted_def nth_mem)
  ultimately show ?thesis using j(2) x by auto
qed

text \<open>What the loop has picked: everything is kept, each list keeps its order, and if the lists are sorted the picks are
  sorted and not above anything that is left.\<close>

definition picked :: "(address \<Rightarrow> real) \<Rightarrow> nat \<Rightarrow> address list list \<Rightarrow> address list \<Rightarrow> address list list \<Rightarrow> bool" where
  "picked kd c xss picks rest \<longleftrightarrow> mset (concat xss) = mset picks + mset (concat rest) \<and> length rest = length xss \<and>
     length picks = min c (length (concat xss)) \<and>
     (\<forall>j < length xss. \<exists>t. xss ! j = t @ rest ! j \<and> subseq t picks) \<and>
     (lists_sorted kd xss \<longrightarrow> sorted (map kd picks) \<and> (\<forall>x \<in> set picks. \<forall>y \<in> set (concat rest). kd x \<le> kd y))"

lemma picked_refl: "c = 0 \<or> concat xss = [] \<Longrightarrow> picked kd c xss [] xss"
  by (auto simp: picked_def simp del: concat_eq_Nil_conv)

lemma picked_step:
  assumes "i < length xss" "xss ! i = p # t" "picked kd c (xss[i := t]) picks rest" "\<forall>e \<in> fronts 0 xss. kd p \<le> kd (snd e)"
  shows "picked kd (Suc c) xss (p # picks) rest"
proof -
  note s = assms(3) [unfolded picked_def]
  have m: "mset (concat xss) = mset (p # picks) + mset (concat rest)"
    using mset_concat_tl [OF assms(1,2)] s by simp
  have "size (mset (concat xss)) = Suc (size (mset (concat (xss[i := t]))))" using mset_concat_tl [OF assms(1,2)] by simp
  then have l: "length (concat xss) = Suc (length (concat (xss[i := t])))" by (simp only: size_mset)
  have o: "\<exists>u. xss ! j = u @ rest ! j \<and> subseq u (p # picks)" if "j < length xss" for j
  proof -
    from s that obtain u where u: "xss[i := t] ! j = u @ rest ! j" "subseq u picks" by auto
    show ?thesis
    proof (cases "j = i")
      case True
      with u assms(1,2) show ?thesis by (intro exI [of _ "p # u"]) simp
    next
      case False
      with u show ?thesis by (intro exI [of _ u]) (auto intro: subseq_Cons')
    qed
  qed
  have st: "sorted (map kd (p # picks)) \<and> (\<forall>x \<in> set (p # picks). \<forall>y \<in> set (concat rest). kd x \<le> kd y)" if ls: "lists_sorted kd xss"
  proof -
    have "sorted (map kd t)" using ls assms(1,2) by (fastforce simp: lists_sorted_def dest: nth_mem)
    then have "lists_sorted kd (xss[i := t])" using ls by (auto simp: lists_sorted_def dest!: set_update_subset_insert [THEN subsetD])
    then have a: "sorted (map kd picks)" "\<forall>x \<in> set picks. \<forall>y \<in> set (concat rest). kd x \<le> kd y" using s by auto
    have "set (concat xss) = set (p # picks) \<union> set (concat rest)" using m by (metis set_mset_mset set_mset_union)
    then have "\<forall>q \<in> set picks \<union> set (concat rest). kd p \<le> kd q" using front_least [OF ls assms(4)] by auto
    with a show ?thesis by auto
  qed
  show ?thesis unfolding picked_def using m l o st s by simp
qed

lemma pick_step:
  assumes "(i, p) \<in> set eq" "set eq \<subseteq> fronts 0 xss" "\<forall>e \<in> set eq. kd (snd e) = m" "\<forall>e \<in> fronts 0 xss. m \<le> kd (snd e)"
  shows "\<exists>t. i < length xss \<and> xss ! i = p # t \<and> (\<forall>e \<in> fronts 0 xss. kd p \<le> kd (snd e)) \<and>
     set (concat (xss[i := t])) \<subseteq> set (concat xss)"
proof -
  have "(i, p) \<in> fronts 0 xss" using assms(1,2) by blast
  then have i: "i < length xss" "xss ! i \<noteq> []" "p = hd (xss ! i)" by (auto simp: fronts_def)
  then obtain t where t: "xss ! i = p # t" by (cases "xss ! i") auto
  have "kd p = m" using assms(1,3) by fastforce
  moreover have "set (concat (xss[i := t])) \<subseteq> set (concat xss)"
    using mset_concat_tl [OF i(1) t] by (metis set_mset_add_mset_insert set_mset_mset subset_insertI)
  ultimately show ?thesis using i(1) t assms(4) by blast
qed

lemma pick_top_spec:
  "\<forall>p \<in> set (concat xss). key p = Inr (kd p) \<and> kd p \<le> mx \<Longrightarrow>
     \<exists>picks rest k1. pick_top key mx rnd c k xss out = Inr (out @ picks, rest, k1) \<and> picked kd c xss picks rest"
proof (induction c arbitrary: k xss out)
  case 0
  then show ?case using picked_refl by auto
next
  case (Suc c)
  from scan_fronts_spec [of xss key kd mx "[]" 0] Suc.prems obtain eq m where
    eq: "scan_fronts key mx [] 0 xss = Inr eq" "set eq \<subseteq> fronts 0 xss" "\<forall>e \<in> set eq. kd (snd e) = m"
      "\<forall>e \<in> fronts 0 xss. m \<le> kd (snd e)" "eq = [] \<longleftrightarrow> concat xss = []" by auto
  show ?case
  proof (cases "eq = []")
    case True
    have e: "concat xss = []" using eq(5) True by simp
    have "pick_top key mx rnd (Suc c) k xss out = pick_top key mx rnd c k xss out" using eq(1) True by simp
    moreover from Suc.IH [OF Suc.prems] obtain picks rest k1 where
      "pick_top key mx rnd c k xss out = Inr (out @ picks, rest, k1)" "picked kd c xss picks rest" by blast
    moreover from this(2) e have "picked kd (Suc c) xss picks rest" by (auto simp: picked_def simp del: concat_eq_Nil_conv)
    ultimately show ?thesis by auto
  next
    case False
    obtain i p k1 where ip: "pick_one rnd k eq = ((i, p), k1)" by (metis surj_pair)
    then have mem: "(i, p) \<in> set eq" using pick_one_member [OF False, of rnd k] by simp
    from pick_step [OF mem eq(2,3,4)] obtain t where t: "i < length xss" "xss ! i = p # t" "\<forall>e \<in> fronts 0 xss. kd p \<le> kd (snd e)"
      "set (concat (xss[i := t])) \<subseteq> set (concat xss)" by blast
    then have "\<forall>p \<in> set (concat (xss[i := t])). key p = Inr (kd p) \<and> kd p \<le> mx" using Suc.prems by blast
    from Suc.IH [OF this, of k1 "out @ [p]"] obtain picks rest k2 where
      r: "pick_top key mx rnd c k1 (xss[i := t]) (out @ [p]) = Inr ((out @ [p]) @ picks, rest, k2)"
      "picked kd c (xss[i := t]) picks rest" by blast
    have "pick_top key mx rnd (Suc c) k xss out = Inr (out @ (p # picks), rest, k2)"
      using eq(1) False ip t(1,2) r(1) by simp
    with picked_step [OF t(1,2) r(2) t(3)] show ?thesis by blast
  qed
qed

definition the_order :: "people \<Rightarrow> segment_stats \<Rightarrow> address \<Rightarrow> real" where
  "the_order ps ss p = (case ps p of None \<Rightarrow> 0 | Some pp \<Rightarrow>
     (case orderBySetting ss of ORDERING_BY_DISTANCE \<Rightarrow> distanceToEndOfSegment pp | ORDERING_BY_DRIVING_TIME \<Rightarrow> drivingTimeToEndOfLink pp))"

lemma order_key_live: "ps p \<noteq> None \<Longrightarrow> order_key ps ss p = Inr (the_order ps ss p)"
  by (auto simp: order_key_def the_order_def distance_of_def driving_time_of_def split: vehicle_ordering.split)

lemma driversAtStops_Inr:
  assumes "\<forall>stop \<in> set (busStops ss). busDrivers ss stop \<noteq> None"
  shows "driversAtStops ss = Inr (concat (map (\<lambda>stop. the (busDrivers ss stop)) (rev (busStops ss))))"
proof -
  have "run_list (\<lambda>out stop. rbind (deref OutOfRange (busDrivers ss stop)) (\<lambda>ds. Inr (out @ ds))) acc xs =
      Inr (acc @ concat (map (\<lambda>stop. the (busDrivers ss stop)) xs))" if "\<forall>stop \<in> set xs. busDrivers ss stop \<noteq> None" for acc xs
    using that by (induction xs arbitrary: acc) auto
  from this [of "rev (busStops ss)" "[]"] assms show ?thesis by (simp add: driversAtStops_def)
qed

lemma subseq_concat_nth: "j < length xss \<Longrightarrow> subseq (xss ! j) (concat xss)"
proof (induction xss arbitrary: j)
  case Nil
  then show ?case by simp
next
  case (Cons xs xss)
  then show ?case by (cases j) (auto intro: subseq_rev_drop_many subseq_drop_many)
qed

lemma topCMerge_spec:
  assumes "\<forall>stop \<in> set (busStops ss). busDrivers ss stop \<noteq> None"
    "getInfinityPersons ss [] = Inr late"
    "\<forall>p \<in> set (concat (ordinary_lanes ss)). ps p \<noteq> None \<and> the_order ps ss p \<le> max_double env"
  shows "\<exists>picks rest k1. topCMergeLanesInSegment env ps rnd k ss =
       Inr (concat (map (\<lambda>stop. the (busDrivers ss stop)) (rev (busStops ss))) @ picks @ rest @ late, k1) \<and>
     mset (concat (ordinary_lanes ss)) = mset (picks @ rest) \<and>
     length picks = min (nat \<lceil>capacity (supplyParams ss)\<rceil>) (length (concat (ordinary_lanes ss))) \<and>
     (\<forall>lane \<in> set (ordinary_lanes ss). subseq lane (picks @ rest)) \<and>
     ((\<forall>lane \<in> set (ordinary_lanes ss). sorted (map (the_order ps ss) lane)) \<longrightarrow>
        sorted (map (the_order ps ss) picks) \<and> (\<forall>x \<in> set picks. \<forall>y \<in> set rest. the_order ps ss x \<le> the_order ps ss y))"
proof -
  let ?xss = "ordinary_lanes ss" and ?ds = "concat (map (\<lambda>stop. the (busDrivers ss stop)) (rev (busStops ss)))"
    and ?c = "nat \<lceil>capacity (supplyParams ss)\<rceil>"
  have "\<forall>p \<in> set (concat ?xss). order_key ps ss p = Inr (the_order ps ss p) \<and> the_order ps ss p \<le> max_double env"
    using assms(3) order_key_live by metis
  from pick_top_spec [OF this, of rnd ?c k ?ds] obtain picks rest k1 where
    p: "pick_top (order_key ps ss) (max_double env) rnd ?c k ?xss ?ds = Inr (?ds @ picks, rest, k1)"
      "picked (the_order ps ss) ?c ?xss picks rest" by (elim exE conjE) (rule that)
  have late: "getInfinityPersons ss out = Inr (out @ late)" for out
    using assms(2) by (auto simp: getInfinityPersons_def rbind_Inr)
  have "topCMergeLanesInSegment env ps rnd k ss = Inr (?ds @ picks @ concat rest @ late, k1)"
    using p(1) by (simp add: topCMergeLanesInSegment_def driversAtStops_Inr [OF assms(1)] late)
  moreover have "\<forall>lane \<in> set ?xss. subseq lane (picks @ concat rest)"
  proof
    fix lane assume "lane \<in> set ?xss"
    then obtain j where j: "j < length ?xss" "lane = ?xss ! j" by (metis in_set_conv_nth)
    with p(2) obtain t where t: "lane = t @ rest ! j" "subseq t picks" "length rest = length ?xss" by (auto simp: picked_def)
    have "subseq (rest ! j) (concat rest)" using j(1) t(3) by (intro subseq_concat_nth) simp
    with t(1,2) show "subseq lane (picks @ concat rest)" by (simp add: list_emb_append_mono)
  qed
  ultimately show ?thesis using p(2) unfolding picked_def lists_sorted_def by (intro exI [of _ picks] exI [of _ "concat rest"] exI [of _ k1]) auto
qed

text \<open>C12: The merge of a segment returns the drivers at the stops (the last stop first), then the persons of the ordinary
  lanes, then those of lane infinity; nobody is lost or doubled and every lane keeps its order. If the lanes are ordered,
  the persons up to the capacity come in the order of their distance (or driving time) and none of them is farther than
  anybody who comes after; the random choices do not matter for this.\<close>

theorem topCMerge_orders:
  assumes "\<forall>stop \<in> set (busStops ss). busDrivers ss stop \<noteq> None"
    "getInfinityPersons ss [] = Inr late"
    "\<forall>p \<in> set (concat (ordinary_lanes ss)). ps p \<noteq> None \<and> the_order ps ss p \<le> max_double env"
  shows "\<exists>picks rest k1. topCMergeLanesInSegment env ps rnd k ss =
       Inr (concat (map (\<lambda>stop. the (busDrivers ss stop)) (rev (busStops ss))) @ picks @ rest @ late, k1) \<and>
     mset (concat (ordinary_lanes ss)) = mset (picks @ rest) \<and>
     length picks = min (nat \<lceil>capacity (supplyParams ss)\<rceil>) (length (concat (ordinary_lanes ss))) \<and>
     (\<forall>lane \<in> set (ordinary_lanes ss). subseq lane (picks @ rest)) \<and>
     ((\<forall>lane \<in> set (ordinary_lanes ss). sorted (map (the_order ps ss) lane)) \<longrightarrow>
        sorted (map (the_order ps ss) picks) \<and> (\<forall>x \<in> set picks. \<forall>y \<in> set rest. the_order ps ss x \<le> the_order ps ss y))"
  using assms by (rule topCMerge_spec)

section \<open>The speed falls with the density\<close>

definition exact_env :: "supply_env \<Rightarrow> bool" where
  "exact_env env \<longleftrightarrow> fl env = (\<lambda>x. x)"

definition supply_params_ok :: "supply_params \<Rightarrow> bool" where
  "supply_params_ok sp \<longleftrightarrow> 0 \<le> minDensity sp \<and> 0 < jamDensity sp \<and> 0 < beta sp \<and> 0 \<le> alpha sp \<and>
     0 \<le> minSpeed sp \<and> minSpeed sp \<le> freeFlowSpeed sp"

definition pow01 :: "real \<Rightarrow> real \<Rightarrow> real" where
  "pow01 x y = (if y = 0 then 1 else x powr y)"

lemma c_pow_nonneg: "0 \<le> x \<Longrightarrow> 0 \<le> y \<Longrightarrow> c_pow (\<lambda>x. x) x y = Inr (pow01 x y)"
  by (auto simp: c_pow_def pow01_def)

lemma pow01_mono: "0 \<le> x \<Longrightarrow> x \<le> x' \<Longrightarrow> 0 \<le> y \<Longrightarrow> pow01 x y \<le> pow01 x' y"
  by (simp add: pow01_def powr_mono2)

lemma pow01_bounds: "0 \<le> x \<Longrightarrow> x \<le> 1 \<Longrightarrow> 0 \<le> y \<Longrightarrow> 0 \<le> pow01 x y \<and> pow01 x y \<le> 1"
  by (simp add: pow01_def powr_le1)

definition mid_factor :: "supply_params \<Rightarrow> real \<Rightarrow> real" where
  "mid_factor sp d = pow01 (1 - pow01 ((d - minDensity sp) / jamDensity sp) (beta sp)) (alpha sp)"

definition the_speed :: "segment_stats \<Rightarrow> real \<Rightarrow> real" where
  "the_speed ss d = (let sp = supplyParams ss
     in if segLength ss < SHORT_SEGMENT_LENGTH_LIMIT then freeFlowSpeed sp
        else if d \<ge> jamDensity sp then minSpeed sp
        else if d \<ge> minDensity sp then max (freeFlowSpeed sp * mid_factor sp d) (minSpeed sp)
        else freeFlowSpeed sp)"

lemma mid_ratio:
  assumes "supply_params_ok sp" "minDensity sp \<le> d" "d < jamDensity sp"
  shows "0 \<le> (d - minDensity sp) / jamDensity sp" "(d - minDensity sp) / jamDensity sp \<le> 1"
    "0 \<le> 1 - pow01 ((d - minDensity sp) / jamDensity sp) (beta sp)" "1 - pow01 ((d - minDensity sp) / jamDensity sp) (beta sp) \<le> 1"
proof -
  show a: "0 \<le> (d - minDensity sp) / jamDensity sp" using assms by (simp add: supply_params_ok_def)
  show b: "(d - minDensity sp) / jamDensity sp \<le> 1" using assms by (simp add: supply_params_ok_def field_simps)
  have "0 \<le> beta sp" using assms(1) by (simp add: supply_params_ok_def)
  from pow01_bounds [OF a b this]
  show "0 \<le> 1 - pow01 ((d - minDensity sp) / jamDensity sp) (beta sp)" "1 - pow01 ((d - minDensity sp) / jamDensity sp) (beta sp) \<le> 1" by simp_all
qed

lemma mid_factor_bounds:
  assumes "supply_params_ok sp" "minDensity sp \<le> d" "d < jamDensity sp"
  shows "0 \<le> mid_factor sp d" "mid_factor sp d \<le> 1"
  using pow01_bounds [OF mid_ratio(3,4) [OF assms], of "alpha sp"] assms(1) by (simp_all add: mid_factor_def supply_params_ok_def)

lemma mid_factor_antimono:
  assumes "supply_params_ok sp" "minDensity sp \<le> d" "d \<le> d'" "d' < jamDensity sp"
  shows "mid_factor sp d' \<le> mid_factor sp d"
proof -
  have p: "0 < jamDensity sp" "0 \<le> beta sp" "0 \<le> alpha sp" using assms(1) by (simp_all add: supply_params_ok_def)
  have r: "(d - minDensity sp) / jamDensity sp \<le> (d' - minDensity sp) / jamDensity sp"
    using p(1) assms(3) by (simp add: divide_right_mono)
  have "minDensity sp \<le> d'" "d < jamDensity sp" using assms(2-4) by linarith+
  note m = mid_ratio [OF assms(1) this(1) assms(4)] mid_ratio(1) [OF assms(1,2) this(2)]
  have "pow01 ((d - minDensity sp) / jamDensity sp) (beta sp) \<le> pow01 ((d' - minDensity sp) / jamDensity sp) (beta sp)"
    using m(5) r p(2) by (rule pow01_mono)
  then show ?thesis unfolding mid_factor_def by (intro pow01_mono) (use m p in simp_all)
qed

lemma speedDensity_value:
  assumes "exact_env env" "supply_params_ok (supplyParams ss)"
  shows "speedDensityFunction env ss d = Inr (the_speed ss d)"
proof -
  let ?sp = "supplyParams ss"
  have ok: "0 \<le> alpha ?sp" "0 \<le> beta ?sp" "jamDensity ?sp \<noteq> 0" "minSpeed ?sp \<le> freeFlowSpeed ?sp"
    using assms(2) by (simp_all add: supply_params_ok_def)
  consider "d \<ge> jamDensity ?sp" | (mid) "d < jamDensity ?sp" "d \<ge> minDensity ?sp" | "d < jamDensity ?sp" "d < minDensity ?sp" by linarith
  then show ?thesis
  proof cases
    case mid
    note r = mid_ratio [OF assms(2) mid(2,1)]
    have "c_pow (\<lambda>x. x) ((d - minDensity ?sp) / jamDensity ?sp) (beta ?sp) = Inr (pow01 ((d - minDensity ?sp) / jamDensity ?sp) (beta ?sp))"
      using r(1) ok(2) by (rule c_pow_nonneg)
    moreover have "c_pow (\<lambda>x. x) (1 - pow01 ((d - minDensity ?sp) / jamDensity ?sp) (beta ?sp)) (alpha ?sp) = Inr (mid_factor ?sp d)"
      using c_pow_nonneg [OF r(3) ok(1)] by (simp add: mid_factor_def)
    ultimately show ?thesis using mid assms(1) ok(3)
      by (simp add: speedDensityFunction_def the_speed_def exact_env_def Let_def fdiv_def)
  qed (use assms(1) ok(4) in \<open>simp_all add: speedDensityFunction_def the_speed_def exact_env_def Let_def\<close>)
qed

text \<open>C24: In exact arithmetic and with parameters that make sense (a minimum density and an exponent \<open>alpha\<close> that are not
  negative, a jam density and an exponent \<open>beta\<close> above zero, a minimum speed from zero to the free-flow speed) the
  speed-density function is defined for every density, lies between the minimum speed and the free-flow speed, and never
  rises with the density, over the jumps at both ends of its middle part and in short segments too.\<close>

theorem speed_falls_with_density:
  assumes "exact_env env" "supply_params_ok (supplyParams ss)" "d \<le> d'"
  shows "\<exists>v v'. speedDensityFunction env ss d = Inr v \<and> speedDensityFunction env ss d' = Inr v' \<and> v' \<le> v \<and>
     minSpeed (supplyParams ss) \<le> v' \<and> v \<le> freeFlowSpeed (supplyParams ss)"
proof -
  let ?sp = "supplyParams ss"
  have ok: "minSpeed ?sp \<le> freeFlowSpeed ?sp" "0 \<le> freeFlowSpeed ?sp" using assms(2) by (simp_all add: supply_params_ok_def)
  have mid: "freeFlowSpeed ?sp * mid_factor ?sp x \<le> freeFlowSpeed ?sp" if "minDensity ?sp \<le> x" "x < jamDensity ?sp" for x
    using mult_left_mono [OF mid_factor_bounds(2) [OF assms(2) that] ok(2)] by simp
  have anti: "freeFlowSpeed ?sp * mid_factor ?sp d' \<le> freeFlowSpeed ?sp * mid_factor ?sp d"
    if "minDensity ?sp \<le> d" "d' < jamDensity ?sp"
    using mid_factor_antimono [OF assms(2) that(1) assms(3) that(2)] ok(2) by (rule mult_left_mono)
  have "the_speed ss d' \<le> the_speed ss d"
    using assms(3) ok(1) mid anti by (auto simp: the_speed_def Let_def max_def)
  moreover have "minSpeed ?sp \<le> the_speed ss d'" "the_speed ss d \<le> freeFlowSpeed ?sp"
    using ok(1) mid by (auto simp: the_speed_def Let_def max_def)
  ultimately show ?thesis using speedDensity_value [OF assms(1,2)] by blast
qed

section \<open>The number of persons of a segment\<close>

definition agents_total :: "(address \<times> lane_stats) list \<Rightarrow> nat" where
  "agents_total m = sum_list (map (\<lambda>(l, ls). length (laneAgents ls)) m)"

definition seg_ok :: "segment_stats \<Rightarrow> bool" where
  "seg_ok ss \<longleftrightarrow> distinct (map fst (laneStatsMap ss)) \<and> segPersons ss = of_nat (agents_total (laneStatsMap ss)) \<and>
     (\<forall>(l, ls) \<in> set (laneStatsMap ss). 0 \<notin> set (laneAgents ls) \<and> (laneInfinity ls \<longleftrightarrow> l = infinityLane ss)) \<and>
     infinityLane ss \<in> fst ` set (laneStatsMap ss)"

text \<open>What the invariant looks at.\<close>

definition lanes_view :: "(address \<times> lane_stats) list \<Rightarrow> (address \<times> address list \<times> bool) list" where
  "lanes_view m = map (\<lambda>(l, ls). (l, laneAgents ls, laneInfinity ls)) m"

lemma lanes_view_facts:
  "map fst (lanes_view m) = map fst m"
  "map (\<lambda>(l, xs, i). length xs) (lanes_view m) = map (\<lambda>(l, ls). length (laneAgents ls)) m"
  "fst ` set (lanes_view m) = fst ` set m"
  "(\<forall>(l, xs, i) \<in> set (lanes_view m). P l xs i) \<longleftrightarrow> (\<forall>(l, ls) \<in> set m. P l (laneAgents ls) (laneInfinity ls))"
  by (simp_all add: lanes_view_def image_image case_prod_beta)

lemma seg_ok_view:
  "seg_ok ss \<longleftrightarrow> (let v = lanes_view (laneStatsMap ss) in distinct (map fst v) \<and>
     segPersons ss = of_nat (sum_list (map (\<lambda>(l, xs, i). length xs) v)) \<and>
     (\<forall>(l, xs, i) \<in> set v. 0 \<notin> set xs \<and> (i \<longleftrightarrow> l = infinityLane ss)) \<and> infinityLane ss \<in> fst ` set v)"
  unfolding seg_ok_def agents_total_def Let_def lanes_view_facts ..

lemma seg_ok_same_view:
  "seg_ok ss \<Longrightarrow> lanes_view (laneStatsMap ss') = lanes_view (laneStatsMap ss) \<Longrightarrow> segPersons ss' = segPersons ss \<Longrightarrow>
     infinityLane ss' = infinityLane ss \<Longrightarrow> seg_ok ss'"
  by (simp add: seg_ok_view)

lemma update_agents_total:
  "map_of m l = Some ls \<Longrightarrow> agents_total (AList.update l ls1 m) + length (laneAgents ls) = agents_total m + length (laneAgents ls1)"
  by (induction m) (auto simp: agents_total_def)

lemma set_update_map_of:
  "map_of m l = Some ls \<Longrightarrow> distinct (map fst m) \<Longrightarrow> e \<in> set (AList.update l ls1 m) \<Longrightarrow> e = (l, ls1) \<or> e \<in> set m"
  by (induction m) (auto split: if_splits)

lemma seg_ok_put:
  assumes "seg_ok ss" "map_of (laneStatsMap ss) l = Some ls" "laneInfinity ls1 = laneInfinity ls" "0 \<notin> set (laneAgents ls1)"
    "n + of_nat (length (laneAgents ls)) = segPersons ss + of_nat (length (laneAgents ls1))"
  shows "seg_ok ((putLane l ls1 ss)\<lparr>segPersons := n\<rparr>)"
proof -
  note ok = assms(1) [unfolded seg_ok_def]
  have k: "l \<in> fst ` set (laneStatsMap ss)" using assms(2) by (metis map_of_eq_None_iff option.distinct(1))
  have d: "distinct (map fst (AList.update l ls1 (laneStatsMap ss)))" using ok by (simp add: distinct_update)
  have i: "infinityLane ss \<in> fst ` set (AList.update l ls1 (laneStatsMap ss))" using ok by (simp add: dom_update)
  have "(of_nat (agents_total (AList.update l ls1 (laneStatsMap ss))) :: u32) + of_nat (length (laneAgents ls)) =
      of_nat (agents_total (laneStatsMap ss)) + of_nat (length (laneAgents ls1))"
    unfolding of_nat_add [symmetric] update_agents_total [OF assms(2)] ..
  then have n: "n = of_nat (agents_total (AList.update l ls1 (laneStatsMap ss)))"
    using assms(5) ok by (metis add_right_cancel)
  have "laneInfinity ls \<longleftrightarrow> l = infinityLane ss" using ok map_of_SomeD [OF assms(2)] by auto
  then have "\<forall>(l', ls') \<in> set (AList.update l ls1 (laneStatsMap ss)). 0 \<notin> set (laneAgents ls') \<and> (laneInfinity ls' \<longleftrightarrow> l' = infinityLane ss)"
    using ok assms(3,4) set_update_map_of [OF assms(2)] by fastforce
  with d i n show ?thesis by (simp add: seg_ok_def putLane_def)
qed

lemma getLane_Inr: "getLane e l ss = Inr ls \<longleftrightarrow> map_of (laneStatsMap ss) l = Some ls"
  by (simp add: getLane_def deref_Inr)

lemma lane_persons_nonnull: "seg_ok ss \<Longrightarrow> map_of (laneStatsMap ss) l = Some ls \<Longrightarrow> 0 \<notin> set (laneAgents ls)"
  using map_of_SomeD by (fastforce simp: seg_ok_def)

lemma insert_by_distance_Inr: "insert_by_distance ps d p xs = Inr ys \<Longrightarrow> \<exists>us vs. xs = us @ vs \<and> ys = us @ p # vs"
proof -
  assume a: "insert_by_distance ps d p xs = Inr ys"
  then consider "ys = p # xs" | "ys = xs @ [p]" | i where "ys = take i xs @ p # drop i xs"
    unfolding insert_by_distance_def by (auto simp: rbind_Inr split: if_splits)
  then show ?thesis
  proof cases
    case 1
    then show ?thesis by (intro exI [of _ "[]"] exI [of _ xs]) simp
  next
    case 2
    then show ?thesis by (intro exI [of _ xs] exI [of _ "[]"]) simp
  next
    case (3 i)
    then show ?thesis by (intro exI [of _ "take i xs"] exI [of _ "drop i xs"]) simp
  qed
qed

lemma addPerson_agents:
  assumes "addPerson rnd ps p ls = Inr ls1"
  shows "laneInfinity ls1 = laneInfinity ls \<and> (\<exists>us vs. laneAgents ls = us @ vs \<and> laneAgents ls1 = us @ p # vs)"
proof (cases "laneInfinity ls")
  case True
  with assms show ?thesis by (auto simp: addPerson_def intro: exI [of _ "laneAgents ls"])
next
  case False
  with assms obtain d agents where "insert_by_distance ps d p (laneAgents ls) = Inr agents" "laneAgents ls1 = agents"
    "laneInfinity ls1 = laneInfinity ls"
    by (auto simp: addPerson_def rbind_Inr Let_def split: option.splits if_splits)
  then show ?thesis using insert_by_distance_Inr by blast
qed

lemma removePerson_agents:
  "removePerson rnd p q l ls = Inr (ls1, b) \<Longrightarrow> laneInfinity ls1 = laneInfinity ls \<and>
     (if b then p \<in> set (laneAgents ls) \<and> laneAgents ls1 = remove1 p (laneAgents ls) else ls1 = ls)"
  by (auto simp: removePerson_def Let_def guard_Inr split: if_splits)

lemma dequeue_agents:
  "lane_dequeue rnd p q l ls = Inr (ls1, p1) \<Longrightarrow> p \<noteq> 0 \<Longrightarrow> laneInfinity ls1 = laneInfinity ls \<and>
     (if p1 \<noteq> 0 then p1 = p \<and> p \<in> set (laneAgents ls) \<and> laneAgents ls1 = remove1 p (laneAgents ls) else ls1 = ls)"
  by (cases "laneAgents ls") (auto simp: lane_dequeue_def Let_def guard_Inr split: if_splits)

lemma length_remove1_mem: "p \<in> set xs \<Longrightarrow> length xs = Suc (length (remove1 p xs))"
  using length_pos_if_in_set [of p xs] by (simp add: length_remove1)

lemma addAgent_ok [sm_inv]:
  assumes "seg_ok ss" "p \<noteq> 0" "addAgent env ps l p ss = Inr ss1"
  shows "seg_ok ss1"
proof -
  from assms(3) obtain ls ls1 where a: "map_of (laneStatsMap ss) l = Some ls" "addPerson (fl env) ps p ls = Inr ls1"
    "ss1 = (putLane l ls1 ss)\<lparr>segPersons := segPersons ss + 1\<rparr>"
    by (auto simp: addAgent_def rbind_Inr getLane_Inr putLane_def)
  from addPerson_agents [OF a(2)] obtain us vs where u: "laneInfinity ls1 = laneInfinity ls" "laneAgents ls = us @ vs"
    "laneAgents ls1 = us @ p # vs" by blast
  show ?thesis unfolding a(3)
    by (rule seg_ok_put [OF assms(1) a(1) u(1)]) (use u(2,3) assms(2) lane_persons_nonnull [OF assms(1) a(1)] in auto)
qed

lemma removeAgent_ok [sm_inv]:
  assumes "seg_ok ss" "removeAgent env l p q len ss = Inr (ss1, b)"
  shows "seg_ok ss1"
proof -
  from assms(2) obtain ls ls1 where a: "map_of (laneStatsMap ss) l = Some ls" "removePerson (fl env) p q len ls = Inr (ls1, b)"
    "ss1 = (putLane l ls1 ss)\<lparr>segPersons := (if b then segPersons ss - 1 else segPersons ss)\<rparr>"
    by (auto simp: removeAgent_def rbind_Inr getLane_Inr putLane_def Let_def)
  note r = removePerson_agents [OF a(2)]
  show ?thesis unfolding a(3)
    by (rule seg_ok_put [OF assms(1) a(1)])
      (use r lane_persons_nonnull [OF assms(1) a(1)] length_remove1_mem [of p "laneAgents ls"] in
        \<open>auto split: if_splits dest: set_remove1_subset [THEN subsetD]\<close>)
qed

lemma dequeue_ok [sm_inv]:
  assumes "seg_ok ss" "dequeue env p l q len ss = Inr (ss1, p1)"
  shows "seg_ok ss1"
proof (cases "p = 0 \<or> map_of (laneStatsMap ss) l = None")
  case True
  with assms show ?thesis by (auto simp: dequeue_def split: if_splits)
next
  case False
  with assms(2) obtain ls ls1 where a: "map_of (laneStatsMap ss) l = Some ls" "lane_dequeue (fl env) p q len ls = Inr (ls1, p1)"
    "ss1 = (putLane l ls1 ss)\<lparr>segPersons := (if p1 \<noteq> 0 then segPersons ss - 1 else segPersons ss)\<rparr>"
    by (auto simp: dequeue_def rbind_Inr putLane_def Let_def)
  from False have p: "p \<noteq> 0" by simp
  note r = dequeue_agents [OF a(2) p]
  show ?thesis unfolding a(3)
    by (rule seg_ok_put [OF assms(1) a(1)])
      (use r lane_persons_nonnull [OF assms(1) a(1)] length_remove1_mem [of p "laneAgents ls"] in
        \<open>auto split: if_splits dest: set_remove1_subset [THEN subsetD]\<close>)
qed

lemma seg_ok_put_same:
  assumes "seg_ok ss" "map_of (laneStatsMap ss) l = Some ls" "laneAgents ls1 = laneAgents ls" "laneInfinity ls1 = laneInfinity ls"
  shows "seg_ok (putLane l ls1 ss)"
proof -
  have "seg_ok ((putLane l ls1 ss)\<lparr>segPersons := segPersons ss\<rparr>)"
    by (rule seg_ok_put [OF assms(1,2,4)]) (use assms(3) lane_persons_nonnull [OF assms(1,2)] in simp_all)
  then show ?thesis by (simp add: putLane_def)
qed

lemma updateQueueStatus_agents:
  "lane_updateQueueStatus rnd ps p ls = Inr ls1 \<Longrightarrow> laneAgents ls1 = laneAgents ls \<and> laneInfinity ls1 = laneInfinity ls"
  by (auto simp: lane_updateQueueStatus_def rbind_Inr guard_Inr split: option.splits if_splits)

lemma updateAcceptRate_agents:
  "updateAcceptRate rnd v n ls = Inr ls1 \<Longrightarrow> laneAgents ls1 = laneAgents ls \<and> laneInfinity ls1 = laneInfinity ls"
  by (auto simp: updateAcceptRate_def rbind_Inr Let_def)

lemma updateQueueStatus_ok [sm_inv]: "seg_ok ss \<Longrightarrow> updateQueueStatus env ps l p ss = Inr ss1 \<Longrightarrow> seg_ok ss1"
  by (auto simp: updateQueueStatus_def rbind_Inr getLane_Inr dest!: updateQueueStatus_agents intro: seg_ok_put_same)

lemma setPosition_ok [sm_inv]: "seg_ok ss \<Longrightarrow> setPositionOfLastUpdatedAgentInLane x l ss = Inr ss1 \<Longrightarrow> seg_ok ss1"
  by (auto simp: setPositionOfLastUpdatedAgentInLane_def rbind_Inr getLane_Inr intro: seg_ok_put_same)

lemma resetPositions_ok [sm_inv]: "seg_ok ss \<Longrightarrow> seg_ok (resetPositionOfLastUpdatedAgentOnLanes ss)"
  by (erule seg_ok_same_view) (simp_all add: resetPositionOfLastUpdatedAgentOnLanes_def lanes_view_def case_prod_beta)

lemma finish_lane_params_ok:
  assumes "seg_ok ss" "map_of (laneStatsMap ss) l = Some ls0" "laneAgents ls = laneAgents ls0" "laneInfinity ls = laneInfinity ls0"
    "finish_lane_params env l ls ss = Inr ss1"
  shows "seg_ok ss1"
proof -
  let ?ls = "updateOutputCounter (fl env) (supplyInterval env) ls"
  from assms(5) obtain d v ls2 ls3 where a: "map_of (laneStatsMap (putLane l ?ls ss)) l = Some ls2"
    "updateAcceptRate (fl env) v (numVehicleLanes ss) ls2 = Inr ls3" "ss1 = putLane l ls3 ((putLane l ?ls ss)\<lparr>segDensity := d\<rparr>)"
    by (auto simp: finish_lane_params_def rbind_Inr getLane_Inr Let_def putLane_def)
  have "seg_ok (putLane l ?ls ss)" by (rule seg_ok_put_same [OF assms(1,2)]) (simp_all add: updateOutputCounter_def assms(3,4))
  then have s: "seg_ok ((putLane l ?ls ss)\<lparr>segDensity := d\<rparr>)" by (rule seg_ok_same_view) simp_all
  show ?thesis unfolding a(3)
    by (rule seg_ok_put_same [OF s, where ls = ls2]) (use a(1) updateAcceptRate_agents [OF a(2)] in simp_all)
qed

lemma restoreLaneParams_ok [sm_inv]: "seg_ok ss \<Longrightarrow> restoreLaneParams env l ss = Inr ss1 \<Longrightarrow> seg_ok ss1"
  unfolding restoreLaneParams_def rbind_Inr getLane_Inr
  by (elim exE conjE, erule (1) finish_lane_params_ok) (simp_all add: updateOutputFlowRate_def)

lemma updateLaneParamsOf_ok [sm_inv]: "seg_ok ss \<Longrightarrow> updateLaneParamsOf env l x ss = Inr ss1 \<Longrightarrow> seg_ok ss1"
  unfolding updateLaneParamsOf_def rbind_Inr getLane_Inr
  by (elim exE conjE, erule (1) finish_lane_params_ok) (simp_all add: updateOutputFlowRate_def)

lemma update_lane_view: "update_lane env ss e = Inr e1 \<Longrightarrow> lanes_view [e1] = lanes_view [e]"
  by (cases e) (auto simp: update_lane_def rbind_Inr lanes_view_def updateOutputCounter_def split: if_splits dest!: updateAcceptRate_agents)

lemma update_lanes_view:
  "run_list (\<lambda>m e. rbind (update_lane env ss e) (\<lambda>e1. Inr (m @ [e1]))) acc xs = Inr m \<Longrightarrow> lanes_view m = lanes_view acc @ lanes_view xs"
proof (induction xs arbitrary: acc)
  case Nil
  then show ?case by (simp add: lanes_view_def)
next
  case (Cons e xs)
  from Cons.prems obtain e1 where e: "update_lane env ss e = Inr e1"
    "run_list (\<lambda>m e. rbind (update_lane env ss e) (\<lambda>e1. Inr (m @ [e1]))) (acc @ [e1]) xs = Inr m"
    by (auto simp: rbind_Inr split: sum.splits)
  show ?case using Cons.IH [OF e(2)] update_lane_view [OF e(1)] by (simp add: lanes_view_def)
qed

lemma updateLaneParams_ok [sm_inv]:
  assumes "seg_ok ss" "updateLaneParams env ss = Inr ss1"
  shows "seg_ok ss1"
proof -
  from assms(2) obtain d v m where a: "run_list (\<lambda>m e. rbind (update_lane env (ss\<lparr>segDensity := d, segVehicleSpeed := v\<rparr>) e) (\<lambda>e1. Inr (m @ [e1]))) []
      (laneStatsMap ss) = Inr m" "ss1 = ss\<lparr>segDensity := d, segVehicleSpeed := v, laneStatsMap := m\<rparr>"
    by (auto simp: updateLaneParams_def rbind_Inr Let_def)
  from update_lanes_view [OF a(1)] show ?thesis unfolding a(2)
    by (intro seg_ok_same_view [OF assms(1)]) (simp_all add: lanes_view_def)
qed

definition stops_ok :: "segment_stats \<Rightarrow> bool" where
  "stops_ok ss \<longleftrightarrow> (\<forall>stop \<in> set (busStops ss). busDrivers ss stop \<noteq> None)"

section \<open>Runs of a segment\<close>

text \<open>The operations that the conflux applies to a segment, in any order and with any arguments, persons not being
  null. An operation that throws ends the run.\<close>

inductive seg_run :: "supply_env \<Rightarrow> segment_stats \<Rightarrow> bool" for env where
  made: "newSegmentStats env junk junkLane lanes inf_lane len sp v = Inr ss \<Longrightarrow> inf_lane \<notin> fst ` set lanes \<Longrightarrow> seg_run env ss"
| added: "seg_run env ss \<Longrightarrow> p \<noteq> 0 \<Longrightarrow> addAgent env ps l p ss = Inr ss1 \<Longrightarrow> seg_run env ss1"
| removed: "seg_run env ss \<Longrightarrow> removeAgent env l p q len ss = Inr (ss1, b) \<Longrightarrow> seg_run env ss1"
| dequeued: "seg_run env ss \<Longrightarrow> dequeue env p l q len ss = Inr (ss1, p1) \<Longrightarrow> seg_run env ss1"
| queue_status: "seg_run env ss \<Longrightarrow> updateQueueStatus env ps l p ss = Inr ss1 \<Longrightarrow> seg_run env ss1"
| position: "seg_run env ss \<Longrightarrow> setPositionOfLastUpdatedAgentInLane x l ss = Inr ss1 \<Longrightarrow> seg_run env ss1"
| positions: "seg_run env ss \<Longrightarrow> seg_run env (resetPositionOfLastUpdatedAgentOnLanes ss)"
| params: "seg_run env ss \<Longrightarrow> updateLaneParams env ss = Inr ss1 \<Longrightarrow> seg_run env ss1"
| incident: "seg_run env ss \<Longrightarrow> updateLaneParamsOf env l x ss = Inr ss1 \<Longrightarrow> seg_run env ss1"
| restored: "seg_run env ss \<Longrightarrow> restoreLaneParams env l ss = Inr ss1 \<Longrightarrow> seg_run env ss1"
| stop_added: "seg_run env ss \<Longrightarrow> addBusStop stop ss = Inr ss1 \<Longrightarrow> seg_run env ss1"
| driver_arrives: "seg_run env ss \<Longrightarrow> addBusDriverToStop p stop ss = Inr ss1 \<Longrightarrow> seg_run env ss1"
| driver_leaves: "seg_run env ss \<Longrightarrow> removeBusDriverFromStop p stop ss = Inr ss1 \<Longrightarrow> seg_run env ss1"
| flow_counted: "seg_run env ss \<Longrightarrow> seg_run env (incrementSegFlow ss)"
| flow_reset: "seg_run env ss \<Longrightarrow> seg_run env (resetSegFlow ss)"
| energy: "seg_run env ss \<Longrightarrow> seg_run env (onNewEnergySample env x y ss)"
| energy_reset: "seg_run env ss \<Longrightarrow> seg_run env (resetEnergyStats ss)"

lemma set_map_insert: "set (map_insert k v m) = (if k \<in> fst ` set m then set m else insert (k, v) (set m))"
  by (simp add: map_insert_def set_insort_key)

lemma map_fst_insort: "map fst (insort_key fst e m) = insort (fst e) (map fst m)"
  by (induction m) auto

lemma distinct_map_insert: "distinct (map fst m) \<Longrightarrow> distinct (map fst (map_insert k v m))"
  by (simp add: map_insert_def map_fst_insort distinct_insort)

definition empty_lanes :: "(address \<times> bool) list \<Rightarrow> segment_stats \<Rightarrow> bool" where
  "empty_lanes lanes ss \<longleftrightarrow> distinct (map fst (laneStatsMap ss)) \<and> segPersons ss = 0 \<and> busStops ss = [] \<and>
     (\<forall>(l, ls) \<in> set (laneStatsMap ss). laneAgents ls = [] \<and> \<not> laneInfinity ls \<and> l \<in> fst ` set lanes)"

lemma initLaneParams_agents: "initLaneParams rnd I v c n ls = Inr ls1 \<Longrightarrow> laneAgents ls1 = laneAgents ls \<and> laneInfinity ls1 = laneInfinity ls"
  by (auto simp: initLaneParams_def Let_def updateOutputCounter_def dest: updateAcceptRate_agents)

lemma addLane_empty:
  assumes "empty_lanes lanes ss" "lane \<in> set lanes" "addLane env junk ss lane = Inr ss1"
  shows "empty_lanes lanes ss1"
proof -
  obtain l ped where l: "lane = (l, ped)" by force
  from assms(3) obtain ls where a: "initLaneParams (fl env) (supplyInterval env) (segVehicleSpeed ss) (capacity (supplyParams ss)) (length (roadLanes ss))
      (newLaneStats junk (segLength ss) False) = Inr ls" "laneStatsMap ss1 = map_insert l ls (laneStatsMap ss)" "segPersons ss1 = segPersons ss"
      "busStops ss1 = busStops ss"
    by (auto simp: l addLane_def rbind_Inr Let_def split: if_splits)
  have "laneAgents ls = []" "\<not> laneInfinity ls" using initLaneParams_agents [OF a(1)] by (simp_all add: newLaneStats_def)
  moreover have "l \<in> fst ` set lanes" using assms(2) l by force
  ultimately show ?thesis using assms(1) unfolding empty_lanes_def a(2-4) set_map_insert
    by (auto intro: distinct_map_insert split: if_splits)
qed

lemma newSegmentStats_ok:
  assumes "newSegmentStats env junk junkLane lanes inf_lane len sp v = Inr ss" "inf_lane \<notin> fst ` set lanes"
  shows "seg_ok ss \<and> stops_ok ss"
proof -
  let ?start = "\<lambda>ss0. laneStatsMap ss0 = [] \<and> segPersons ss0 = 0 \<and> busStops ss0 = []"
  from assms(1) obtain ss0 ss1 where a: "?start ss0" "run_list (addLane env junk) ss0 lanes = Inr ss1"
    "ss = ss1\<lparr>infinityLane := inf_lane, laneStatsMap := map_insert inf_lane (newLaneStats junk len True) (laneStatsMap ss1)\<rparr>"
    unfolding newSegmentStats_def Let_def rbind_Inr by (elim exE conjE) (rule that, auto)
  have "empty_lanes lanes ss0" using a(1) by (simp add: empty_lanes_def)
  have e: "empty_lanes lanes ss1"
    by (rule run_list_invariant [where P = "empty_lanes lanes", OF _ _ a(2)]) (rule addLane_empty, assumption+, fact)
  have notin: "inf_lane \<notin> fst ` set (laneStatsMap ss1)" using e assms(2) by (fastforce simp: empty_lanes_def)
  have "agents_total (map_insert inf_lane (newLaneStats junk len True) (laneStatsMap ss1)) = 0"
    unfolding agents_total_def sum_list_eq_0_iff set_map
    using e by (auto simp: set_map_insert empty_lanes_def newLaneStats_def split: if_splits)
  moreover have "\<forall>(l, ls) \<in> set (laneStatsMap ss1). l \<noteq> inf_lane" using notin by force
  ultimately show ?thesis using e notin unfolding a(3)
    by (auto simp: seg_ok_def stops_ok_def empty_lanes_def distinct_map_insert set_map_insert newLaneStats_def)
qed

lemmas segment_defs = addAgent_def removeAgent_def dequeue_def updateQueueStatus_def setPositionOfLastUpdatedAgentInLane_def
  restoreLaneParams_def updateLaneParamsOf_def updateLaneParams_def finish_lane_params_def getLane_Inr rbind_Inr Let_def putLane_def

lemma addAgent_stops: "addAgent env ps l p ss = Inr ss1 \<Longrightarrow> busStops ss1 = busStops ss \<and> busDrivers ss1 = busDrivers ss"
  by (auto simp: segment_defs)

lemma removeAgent_stops: "removeAgent env l p q len ss = Inr (ss1, b) \<Longrightarrow> busStops ss1 = busStops ss \<and> busDrivers ss1 = busDrivers ss"
  by (auto simp: segment_defs)

lemma dequeue_stops: "dequeue env p l q len ss = Inr (ss1, p1) \<Longrightarrow> busStops ss1 = busStops ss \<and> busDrivers ss1 = busDrivers ss"
  by (auto simp: segment_defs split: if_splits option.splits)

lemma params_stops:
  "updateQueueStatus env ps l p ss = Inr ss1 \<Longrightarrow> busStops ss1 = busStops ss \<and> busDrivers ss1 = busDrivers ss"
  "setPositionOfLastUpdatedAgentInLane x l ss = Inr ss1 \<Longrightarrow> busStops ss1 = busStops ss \<and> busDrivers ss1 = busDrivers ss"
  "restoreLaneParams env l ss = Inr ss1 \<Longrightarrow> busStops ss1 = busStops ss \<and> busDrivers ss1 = busDrivers ss"
  "updateLaneParamsOf env l x ss = Inr ss1 \<Longrightarrow> busStops ss1 = busStops ss \<and> busDrivers ss1 = busDrivers ss"
  "updateLaneParams env ss = Inr ss1 \<Longrightarrow> busStops ss1 = busStops ss \<and> busDrivers ss1 = busDrivers ss"
  by (auto simp: segment_defs)

lemma stops_ok_cong: "busStops ss1 = busStops ss \<and> busDrivers ss1 = busDrivers ss \<Longrightarrow> stops_ok ss \<Longrightarrow> stops_ok ss1"
  by (simp add: stops_ok_def)

lemma stop_operations_ok:
  "addBusStop stop ss = Inr ss1 \<Longrightarrow> seg_ok ss \<Longrightarrow> stops_ok ss \<Longrightarrow> seg_ok ss1 \<and> stops_ok ss1"
  "addBusDriverToStop p stop ss = Inr ss1 \<Longrightarrow> seg_ok ss \<Longrightarrow> stops_ok ss \<Longrightarrow> seg_ok ss1 \<and> stops_ok ss1"
  "removeBusDriverFromStop p stop ss = Inr ss1 \<Longrightarrow> seg_ok ss \<Longrightarrow> stops_ok ss \<Longrightarrow> seg_ok ss1 \<and> stops_ok ss1"
  by (auto simp: addBusStop_def addBusDriverToStop_def removeBusDriverFromStop_def rbind_Inr guard_Inr stops_ok_def
      split: if_splits elim!: seg_ok_same_view)

lemma counter_operations_ok:
  "seg_ok ss \<and> stops_ok ss \<Longrightarrow> seg_ok (incrementSegFlow ss) \<and> stops_ok (incrementSegFlow ss)"
  "seg_ok ss \<and> stops_ok ss \<Longrightarrow> seg_ok (resetSegFlow ss) \<and> stops_ok (resetSegFlow ss)"
  "seg_ok ss \<and> stops_ok ss \<Longrightarrow> seg_ok (onNewEnergySample env x y ss) \<and> stops_ok (onNewEnergySample env x y ss)"
  "seg_ok ss \<and> stops_ok ss \<Longrightarrow> seg_ok (resetEnergyStats ss) \<and> stops_ok (resetEnergyStats ss)"
  by (auto simp: incrementSegFlow_def resetSegFlow_def onNewEnergySample_def resetEnergyStats_def stops_ok_def elim!: seg_ok_same_view)

lemma seg_run_ok: "seg_run env ss \<Longrightarrow> seg_ok ss \<and> stops_ok ss"
proof (induction rule: seg_run.induct)
  case (made junk junkLane lanes inf_lane len sp v ss)
  then show ?case by (rule newSegmentStats_ok)
next
  case (positions ss)
  then show ?case using resetPositions_ok by (simp add: stops_ok_def resetPositionOfLastUpdatedAgentOnLanes_def)
next
  case (added ss p l ps ss1)
  then show ?case using addAgent_ok [OF _ added.hyps(2,3)] stops_ok_cong [OF addAgent_stops [OF added.hyps(3)]] by simp
next
  case (removed ss l p q len ss1 b)
  then show ?case using removeAgent_ok [OF _ removed.hyps(2)] stops_ok_cong [OF removeAgent_stops [OF removed.hyps(2)]] by simp
next
  case (dequeued ss p l q len ss1 p1)
  then show ?case using dequeue_ok [OF _ dequeued.hyps(2)] stops_ok_cong [OF dequeue_stops [OF dequeued.hyps(2)]] by simp
next
  case (queue_status ss ps l p ss1)
  then show ?case using updateQueueStatus_ok [OF _ queue_status.hyps(2)] stops_ok_cong [OF params_stops(1) [OF queue_status.hyps(2)]] by simp
next
  case (position ss x l ss1)
  then show ?case using setPosition_ok [OF _ position.hyps(2)] stops_ok_cong [OF params_stops(2) [OF position.hyps(2)]] by simp
next
  case (params ss ss1)
  then show ?case using updateLaneParams_ok [OF _ params.hyps(2)] stops_ok_cong [OF params_stops(5) [OF params.hyps(2)]] by simp
next
  case (incident ss l x ss1)
  then show ?case using updateLaneParamsOf_ok [OF _ incident.hyps(2)] stops_ok_cong [OF params_stops(4) [OF incident.hyps(2)]] by simp
next
  case (restored ss l ss1)
  then show ?case using restoreLaneParams_ok [OF _ restored.hyps(2)] stops_ok_cong [OF params_stops(3) [OF restored.hyps(2)]] by simp
next
  case (stop_added ss stop ss1)
  then show ?case using stop_operations_ok(1) [OF stop_added.hyps(2)] by simp
next
  case (driver_arrives ss p stop ss1)
  then show ?case using stop_operations_ok(2) [OF driver_arrives.hyps(2)] by simp
next
  case (driver_leaves ss p stop ss1)
  then show ?case using stop_operations_ok(3) [OF driver_leaves.hyps(2)] by simp
qed (simp_all add: counter_operations_ok)

lemma segment_persons_spec:
  assumes "seg_run env ss"
  shows "\<exists>drivers. driversAtStops ss = Inr drivers \<and>
     getPersons ss out = Inr (out @ concat (map (\<lambda>(l, ls). laneAgents ls) (laneStatsMap ss)) @ drivers) \<and>
     segPersons ss = of_nat (length (concat (map (\<lambda>(l, ls). laneAgents ls) (laneStatsMap ss)))) \<and>
     (\<exists>late. getInfinityPersons ss out = Inr (out @ late) \<and>
       mset (concat (map (\<lambda>(l, ls). laneAgents ls) (laneStatsMap ss))) = mset (concat (ordinary_lanes ss)) + mset late)"
proof -
  have ok: "seg_ok ss" "stops_ok ss" using seg_run_ok [OF assms] by auto
  let ?m = "laneStatsMap ss"
  have tot: "length (concat (map (\<lambda>(l, ls). laneAgents ls) ?m)) = agents_total ?m"
    by (simp add: agents_total_def length_concat comp_def case_prod_unfold)
  have key: "infinityLane ss \<in> fst ` set ?m" "distinct (map fst ?m)"
    "\<forall>(l, ls) \<in> set ?m. laneInfinity ls \<longleftrightarrow> l = infinityLane ss" using ok(1) by (auto simp: seg_ok_def)
  from key(1) have "map_of ?m (infinityLane ss) \<noteq> None" by (simp add: map_of_eq_None_iff)
  then obtain ls where ls: "map_of ?m (infinityLane ss) = Some ls" by blast
  have split: "\<forall>(l, ls) \<in> set m. laneInfinity ls \<longleftrightarrow> l = i \<Longrightarrow> distinct (map fst m) \<Longrightarrow>
      mset (concat (map (\<lambda>(l, ls). laneAgents ls) m)) =
      mset (concat (map (\<lambda>(l, ls). laneAgents ls) (filter (\<lambda>(l, ls). \<not> laneInfinity ls) m))) +
      (case map_of m i of None \<Rightarrow> {#} | Some ls \<Rightarrow> mset (laneAgents ls))" for m i
  proof (induction m)
    case (Cons e m)
    show ?case
    proof (cases "fst e = i")
      case True
      then have "map_of m i = None" using Cons.prems(2) by (auto simp: map_of_eq_None_iff)
      with True Cons show ?thesis by (cases e) (auto simp: ac_simps)
    next
      case False
      with Cons show ?thesis by (cases e) (auto simp: ac_simps)
    qed
  qed simp
  obtain drivers where d: "driversAtStops ss = Inr drivers" using driversAtStops_Inr ok(2) by (auto simp: stops_ok_def)
  have "getInfinityPersons ss out = Inr (out @ laneAgents ls)" by (simp add: getInfinityPersons_def getLane_def ls)
  moreover have "mset (concat (map (\<lambda>(l, ls). laneAgents ls) ?m)) = mset (concat (ordinary_lanes ss)) + mset (laneAgents ls)"
    using split [OF key(3,2)] ls by (simp add: ordinary_lanes_def)
  ultimately show ?thesis using d ok(1) tot by (auto simp: getPersons_def seg_ok_def)
qed

text \<open>C20: In every run of a segment, whatever persons enter and leave, the number of persons it counts is the number of
  persons in its lanes, and listing its persons never throws and returns each lane's persons and the drivers at its stops.\<close>

theorem segment_counts_its_persons:
  assumes "seg_run env ss"
  shows "\<exists>drivers. driversAtStops ss = Inr drivers \<and>
     getPersons ss out = Inr (out @ concat (map (\<lambda>(l, ls). laneAgents ls) (laneStatsMap ss)) @ drivers) \<and>
     segPersons ss = of_nat (length (concat (map (\<lambda>(l, ls). laneAgents ls) (laneStatsMap ss)))) \<and>
     (\<exists>late. getInfinityPersons ss out = Inr (out @ late) \<and>
       mset (concat (map (\<lambda>(l, ls). laneAgents ls) (laneStatsMap ss))) = mset (concat (ordinary_lanes ss)) + mset late)"
  using assms by (rule segment_persons_spec)

text \<open>The lanes of the road have their statistics.\<close>

definition lanes_known :: "segment_stats \<Rightarrow> bool" where
  "lanes_known ss \<longleftrightarrow> (\<forall>e \<in> set (roadLanes ss). map_of (laneStatsMap ss) (fst e) \<noteq> None)"

lemma lanes_known_keys: "lanes_known ss \<longleftrightarrow> fst ` set (roadLanes ss) \<subseteq> fst ` set (laneStatsMap ss)"
  by (force simp: lanes_known_def map_of_eq_None_iff)

lemma lanes_known_mono: "lanes_known ss \<Longrightarrow> roadLanes ss1 = roadLanes ss \<Longrightarrow>
   \<forall>l. map_of (laneStatsMap ss) l \<noteq> None \<longrightarrow> map_of (laneStatsMap ss1) l \<noteq> None \<Longrightarrow> lanes_known ss1"
  by (auto simp: lanes_known_def)

lemma lanes_known_put: "lanes_known ss \<Longrightarrow> lanes_known (putLane l ls ss)"
  by (erule lanes_known_mono) (simp_all add: putLane_def update_conv')

lemma lanes_known_cong [simp]: "lanes_known (ss\<lparr>segPersons := n\<rparr>) = lanes_known ss" "lanes_known (ss\<lparr>segDensity := x\<rparr>) = lanes_known ss"
  by (simp_all add: lanes_known_def)

lemma lanes_known_stops [simp]: "lanes_known (ss\<lparr>busStops := xs\<rparr>) = lanes_known ss" "lanes_known (ss\<lparr>busDrivers := d\<rparr>) = lanes_known ss"
  by (simp_all add: lanes_known_def)

lemma addLanes_known:
  "run_list (addLane env junk) ss lanes = Inr ss1 \<Longrightarrow> roadLanes ss1 = roadLanes ss \<and>
     fst ` set (laneStatsMap ss) \<union> fst ` set lanes \<subseteq> fst ` set (laneStatsMap ss1)"
proof (induction lanes arbitrary: ss)
  case (Cons lane lanes)
  from Cons.prems obtain ss0 where a: "addLane env junk ss lane = Inr ss0" "run_list (addLane env junk) ss0 lanes = Inr ss1"
    unfolding run_list_Cons_Inr by blast
  obtain l ped where l: "lane = (l, ped)" by force
  from a(1) have "roadLanes ss0 = roadLanes ss \<and> fst ` set (laneStatsMap ss0) = insert l (fst ` set (laneStatsMap ss))"
    unfolding l addLane_def by (auto simp: rbind_Inr Let_def set_map_insert split: if_splits)
  with Cons.IH [OF a(2)] l show ?case by auto
qed simp

lemma update_lanes_keys: "lanes_view m1 = lanes_view m \<Longrightarrow> fst ` set m1 = fst ` set m"
  by (metis lanes_view_facts(3))

lemma finish_lane_known: "finish_lane_params env l ls ss = Inr ss1 \<Longrightarrow> lanes_known ss \<Longrightarrow> lanes_known ss1"
  by (auto simp: finish_lane_params_def rbind_Inr Let_def intro!: lanes_known_put)

lemma seg_run_lanes: "seg_run env ss \<Longrightarrow> lanes_known ss"
proof (induction rule: seg_run.induct)
  case (made junk junkLane lanes inf_lane len sp v ss)
  from made(1) obtain ss0 ss1 where a: "roadLanes ss0 = lanes" "run_list (addLane env junk) ss0 lanes = Inr ss1"
    "ss = ss1\<lparr>infinityLane := inf_lane, laneStatsMap := map_insert inf_lane (newLaneStats junk len True) (laneStatsMap ss1)\<rparr>"
    unfolding newSegmentStats_def Let_def rbind_Inr by (elim exE conjE) (rule that, auto)
  from addLanes_known [OF a(2)] a(1,3) show ?case by (auto simp: lanes_known_keys set_map_insert)
next
  case (params ss ss1)
  then obtain d v m where a: "run_list (\<lambda>m e. rbind (update_lane env (ss\<lparr>segDensity := d, segVehicleSpeed := v\<rparr>) e) (\<lambda>e1. Inr (m @ [e1]))) []
      (laneStatsMap ss) = Inr m" "ss1 = ss\<lparr>segDensity := d, segVehicleSpeed := v, laneStatsMap := m\<rparr>"
    by (auto simp: updateLaneParams_def rbind_Inr Let_def)
  from update_lanes_view [OF a(1)] have "fst ` set m = fst ` set (laneStatsMap ss)" by (intro update_lanes_keys) (simp add: lanes_view_def)
  with params.IH a(2) show ?case by (simp add: lanes_known_keys)
next
  case (incident ss l x ss1)
  then show ?case by (auto simp: updateLaneParamsOf_def rbind_Inr intro: finish_lane_known)
next
  case (restored ss l ss1)
  then show ?case by (auto simp: restoreLaneParams_def rbind_Inr intro: finish_lane_known)
next
  case (positions ss)
  then show ?case by (simp add: resetPositionOfLastUpdatedAgentOnLanes_def lanes_known_keys image_image case_prod_unfold)
next
  case (stop_added ss stop ss1)
  then show ?case by (auto simp: lanes_known_stops addBusStop_def guard_Inr)
next
  case (driver_arrives ss p stop ss1)
  then show ?case by (auto simp: lanes_known_stops addBusDriverToStop_def rbind_Inr split: if_splits)
next
  case (driver_leaves ss p stop ss1)
  then show ?case by (auto simp: lanes_known_stops removeBusDriverFromStop_def rbind_Inr guard_Inr split: if_splits)
next
  case (dequeued ss p l q len ss1 p1)
  then show ?case by (auto simp: dequeue_def rbind_Inr Let_def intro!: lanes_known_put split: if_splits option.splits)
qed (auto simp: addAgent_def removeAgent_def updateQueueStatus_def setPositionOfLastUpdatedAgentInLane_def rbind_Inr Let_def
    intro!: lanes_known_put, simp_all add: lanes_known_def incrementSegFlow_def resetSegFlow_def onNewEnergySample_def resetEnergyStats_def)

section \<open>Examples\<close>

text \<open>A segment of 100 m with the lanes 11 and 12, lane infinity 19, and a capacity of one vehicle per second. Cars 1
  and 2 are on lane 11, car 3 on lane 12.\<close>

definition senv1 :: supply_env where
  "senv1 = \<lparr>fl = (\<lambda>x. x), supplyInterval = 1, tickSeconds = 1, max_double = 10 ^ 300\<rparr>"

definition sp1 :: supply_params where
  "sp1 = newSupplyParams senv1 20 1 1 1 (1 / 5) (1 / 25)"

definition seg0 :: segment_stats where
  "seg0 = (case newSegmentStats senv1 0 0 [(11, False), (12, False)] 19 100 sp1 20 of Inr ss \<Rightarrow> ss)"

definition people2 :: people where
  "people2 = people1(3 \<mapsto> car 20 False)"

lemmas seg_eval = newSegmentStats_def senv1_def sp1_def newSupplyParams_def addLane_def initLaneParams_def updateAcceptRate_def
  fdiv_def updateOutputCounter_def params_updateOutputCounter_def newLaneStats_def newLaneParams_def SHORT_SEGMENT_LENGTH_LIMIT_def
  PASSENGER_CAR_UNIT_def trunc_int_def map_insert_def Let_def

lemma seg0_made: "newSegmentStats senv1 0 0 [(11, False), (12, False)] 19 100 sp1 20 = Inr seg0"
  by (simp add: seg0_def seg_eval)

lemma seg0_run: "seg_run senv1 seg0"
  by (rule seg_run.made [OF seg0_made]) simp

lemma seg0_lanes: "map (\<lambda>(l, ls). (l, laneAgents ls, laneInfinity ls)) (laneStatsMap seg0) = [(11, [], False), (12, [], False), (19, [], True)]"
  "busStops seg0 = []" "infinityLane seg0 = 19" "supplyParams seg0 = sp1" "orderBySetting seg0 = ORDERING_BY_DISTANCE"
  by (simp_all add: seg0_def seg_eval)

definition seg1 :: segment_stats where
  "seg1 = (case run_list (\<lambda>ss (l, p). addAgent senv1 people2 l p ss) seg0 [(11, 1), (11, 2), (12, 3)] of Inr ss \<Rightarrow> ss)"

lemma people2_at [simp]: "people2 1 = Some (car 30 False)" "people2 (Suc 0) = Some (car 30 False)" "people2 2 = Some (car 10 True)"
  "people2 3 = Some (car 20 False)"
  by (simp_all add: people2_def)

lemma seg1_made: "run_list (\<lambda>ss (l, p). addAgent senv1 people2 l p ss) seg0 [(11, 1), (11, 2), (12, 3)] = Inr seg1"
  by (simp add: seg1_def seg0_def seg_eval addAgent_def getLane_def putLane_def addPerson_def the_role_def distance_of_def insert_by_distance_def)

lemma seg1_run: "seg_run senv1 seg1"
proof -
  from seg1_made obtain s1 s2 where a: "addAgent senv1 people2 11 1 seg0 = Inr s1" "addAgent senv1 people2 11 2 s1 = Inr s2"
    "addAgent senv1 people2 12 3 s2 = Inr seg1" unfolding run_list_Cons_Inr by auto
  have "seg_run senv1 s1" by (rule seg_run.added [OF seg0_run _ a(1)]) simp
  then have "seg_run senv1 s2" by (rule seg_run.added [OF _ _ a(2)]) simp
  then show ?thesis by (rule seg_run.added [OF _ _ a(3)]) simp
qed

lemma seg1_lanes: "ordinary_lanes seg1 = [[2, 1], [3]]" "getInfinityPersons seg1 [] = Inr []" "busStops seg1 = []"
  "orderBySetting seg1 = ORDERING_BY_DISTANCE" "supplyParams seg1 = sp1" "segPersons seg1 = 3"
  by (simp_all add: seg1_def seg0_def seg_eval addAgent_def getLane_def putLane_def addPerson_def the_role_def distance_of_def
      insert_by_distance_def ordinary_lanes_def getInfinityPersons_def)

lemma segment_counts_its_persons_witness:
  "\<exists>xs. getPersons seg1 [] = Inr xs \<and> segPersons seg1 = of_nat (length xs)"
proof -
  from segment_counts_its_persons [OF seg1_run, of "[]"] obtain drivers where
    d: "driversAtStops seg1 = Inr drivers" "getPersons seg1 [] = Inr ([] @ concat (map (\<lambda>(l, ls). laneAgents ls) (laneStatsMap seg1)) @ drivers)"
    "segPersons seg1 = of_nat (length (concat (map (\<lambda>(l, ls). laneAgents ls) (laneStatsMap seg1))))" by blast
  have "drivers = []" using d(1) by (simp add: driversAtStops_def seg1_lanes(3))
  with d show ?thesis by simp
qed

lemma topCMerge_orders_witness:
  "\<exists>p rest k1. topCMergeLanesInSegment senv1 people2 (\<lambda>n. n) 0 seg1 = Inr (p # rest, k1) \<and>
     (\<forall>y \<in> set rest. seg_dist people2 p \<le> seg_dist people2 y)"
proof -
  have o: "the_order people2 seg1 p = seg_dist people2 p" for p
    by (simp add: the_order_def seg_dist_def seg1_lanes split: option.split)
  have "\<exists>picks rest k1. topCMergeLanesInSegment senv1 people2 (\<lambda>n. n) 0 seg1 =
       Inr (concat (map (\<lambda>stop. the (busDrivers seg1 stop)) (rev (busStops seg1))) @ picks @ rest @ [], k1) \<and>
     mset (concat (ordinary_lanes seg1)) = mset (picks @ rest) \<and>
     length picks = min (nat \<lceil>capacity (supplyParams seg1)\<rceil>) (length (concat (ordinary_lanes seg1))) \<and>
     (\<forall>lane \<in> set (ordinary_lanes seg1). subseq lane (picks @ rest)) \<and>
     ((\<forall>lane \<in> set (ordinary_lanes seg1). sorted (map (the_order people2 seg1) lane)) \<longrightarrow>
        sorted (map (the_order people2 seg1) picks) \<and> (\<forall>x \<in> set picks. \<forall>y \<in> set rest. the_order people2 seg1 x \<le> the_order people2 seg1 y))"
    by (rule topCMerge_orders) (simp_all add: seg1_lanes o seg_dist_def senv1_def)
  then obtain picks rest k1 where t: "topCMergeLanesInSegment senv1 people2 (\<lambda>n. n) 0 seg1 = Inr (picks @ rest, k1)"
    "length picks = 1" "\<forall>x \<in> set picks. \<forall>y \<in> set rest. seg_dist people2 x \<le> seg_dist people2 y"
    by (simp add: seg1_lanes o seg_dist_def sp1_def newSupplyParams_def) blast
  then obtain p where "picks = [p]" by (cases picks) auto
  with t show ?thesis by auto
qed

lemma speed_falls_with_density_witness:
  "\<exists>v v'. speedDensityFunction senv1 seg0 (1 / 10) = Inr v \<and> speedDensityFunction senv1 seg0 (3 / 20) = Inr v' \<and> v' \<le> v \<and> 4 \<le> v'"
proof -
  have ok: "exact_env senv1" "supply_params_ok (supplyParams seg0)" and d: "(1 / 10 :: real) \<le> 3 / 20"
    by (simp_all add: exact_env_def senv1_def seg0_lanes sp1_def newSupplyParams_def supply_params_ok_def)
  from speed_falls_with_density [OF ok d] have "\<exists>v v'. speedDensityFunction senv1 seg0 (1 / 10) = Inr v \<and>
    speedDensityFunction senv1 seg0 (3 / 20) = Inr v' \<and> v' \<le> v \<and> minSpeed (supplyParams seg0) \<le> v'" by blast
  then show ?thesis by (simp add: seg0_lanes sp1_def newSupplyParams_def senv1_def)
qed

end
