(* ===== verification/Conflux_State.thy ===== *)
theory Conflux_State
  imports Segment_Stats Link_Stats
begin

text \<open>
  The mid-term supply, part four: confluxes (\<open>medium/entities/conflux/Conflux.cpp\<close>). A conflux holds the segments
  upstream of an intersection, a virtual queue for each of its links, and the persons who are not on the road. This
  theory has the state, the properties of a person that are captured before and after the movement
  (\<open>PersonProps\<close>), and the housekeeping that moves the person to the place that the change of these properties calls
  for. That a person is never lost or doubled by it is proved by counting the person over all lanes and queues.
\<close>

section \<open>State\<close>

text \<open>The maps from links are in the order of their iteration.\<close>

record conflux =
  upstreamSegStatsMap :: "(address \<times> address list) list"
  virtualQueuesMap :: "(address \<times> address list) list"
  vqBounds :: "address \<rightharpoonup> u32"
  activityPerformers :: "address list"
  pedestrianList :: "address list"
  mrt :: "address list"
  travelingPersons :: "address list"
  brokenPersons :: "address list"
  stashedPersons :: "address list"
  loadingQueue :: "address list"
  isLoader :: bool
  numUpdatesThisTick :: nat
  evadeVQ_Bounds :: bool
  currFrame :: timeslice
  lastUpdatedFrameOf :: int
  linkStatsMap :: "(address \<times> link_stats) list"
  confluxInitialized :: bool

text \<open>What is sent to other agents, in the order of sending: persons handed over to a segment of another conflux,
  arrivals at bus stops, taxi stands and platforms, wake-up calls after a number of ticks, walks to another conflux, persons
  who leave a bus stop or their controller, loaded persons, and changes of the handler registration.\<close>

datatype sent = PersonTransfer address address address address | ArrivalAtStand address address | ArrivalAtBusStop address address
  | ArrivalAtPlatform address address | WakeUpPedestrian address u32 | WakeUpMRT address u32 | WakeUpStashed address u32
  | PedestrianTransfer address address | LeavesBusStop address | LeavesController address address
  | LoadPerson address address | ShiftEnd address | ReRegister address address | UnRegister address

record world =
  confluxes :: "(address \<times> conflux) list"
  segments :: "(address \<times> segment_stats) list"
  persons :: people
  outbox :: "sent list"
  activeAgents :: "address list"

text \<open>The network and the trips of the persons: the conflux of a segment and the link of a segment; the agents and stops
  where a person waits, all 0 if there is none; the conflux where a walking traveller starts, which may be null, or \<open>None\<close>
  if its movement is not that of a pedestrian; travel times and the length of a tick in milliseconds.\<close>

record supply_net =
  net_env :: supply_env
  parentConflux :: "address \<Rightarrow> address"
  parentLink :: "address \<Rightarrow> address"
  standAgentOf :: "address \<Rightarrow> address"
  startConfluxOf :: "address \<Rightarrow> address option"
  originStop :: "address \<Rightarrow> address"
  subTripStop :: "address \<Rightarrow> address"
  sinkTerminus :: "address \<Rightarrow> bool"
  twinStop :: "address \<Rightarrow> address"
  stopAgentOf :: "address \<Rightarrow> address"
  originPlatform :: "address \<Rightarrow> address"
  stationAgentOf :: "address \<Rightarrow> address"
  parentEntityOf :: "address \<Rightarrow> address"
  travelTime :: "address \<Rightarrow> u32"
  baseGranMS :: u32
  outputEnabled :: bool
  updateInterval :: u32

definition getSeg :: "address \<Rightarrow> world \<Rightarrow> (supply_error, segment_stats) result" where
  "getSeg a w = deref NullPointer (map_of (segments w) a)"

definition seg_op :: "address \<Rightarrow> (segment_stats \<Rightarrow> (supply_error, segment_stats) result) \<Rightarrow> world \<Rightarrow> (supply_error, world) result" where
  "seg_op a f w = rbind (getSeg a w) (\<lambda>ss. rbind (f ss) (\<lambda>ss1. Inr (w\<lparr>segments := AList.update a ss1 (segments w)\<rparr>)))"

definition getConflux :: "address \<Rightarrow> world \<Rightarrow> (supply_error, conflux) result" where
  "getConflux c w = deref NullPointer (map_of (confluxes w) c)"

definition conflux_op :: "address \<Rightarrow> (conflux \<Rightarrow> (supply_error, conflux) result) \<Rightarrow> world \<Rightarrow> (supply_error, world) result" where
  "conflux_op c f w = rbind (getConflux c w) (\<lambda>cf. rbind (f cf) (\<lambda>cf1. Inr (w\<lparr>confluxes := AList.update c cf1 (confluxes w)\<rparr>)))"

definition person_op :: "address \<Rightarrow> (person \<Rightarrow> person) \<Rightarrow> world \<Rightarrow> (supply_error, world) result" where
  "person_op p f w = rbind (deref Dangling (persons w p)) (\<lambda>pp. Inr (w\<lparr>persons := (persons w)(p \<mapsto> f pp)\<rparr>))"

definition send :: "sent \<Rightarrow> world \<Rightarrow> world" where
  "send m w = w\<lparr>outbox := outbox w @ [m]\<rparr>"

section \<open>The properties of a person\<close>

record person_props =
  pr_lane :: address
  pr_isQueuing :: bool
  pr_isMoving :: bool
  pr_roleType :: role_type
  pr_vehicleLength :: real
  pr_segStats :: address
  pr_conflux :: address
  pr_distance :: real

text \<open>Without a role the length is uninitialised: it is an argument.\<close>

definition props_of :: "supply_net \<Rightarrow> real \<Rightarrow> address \<Rightarrow> address \<Rightarrow> world \<Rightarrow> (supply_error, person_props) result" where
  "props_of net junk c p w = rbind (deref Dangling (persons w p)) (\<lambda>pp.
     let r = currRole pp;
         rt = (case r of None \<Rightarrow> RL_UNKNOWN | Some ro \<Rightarrow> roleType ro);
         mv = (case r of None \<Rightarrow> True | Some ro \<Rightarrow> (case currResource ro of None \<Rightarrow> True | Some v \<Rightarrow> moving v));
         len = (case r of None \<Rightarrow> junk | Some ro \<Rightarrow> (case currResource ro of None \<Rightarrow> 0 | Some v \<Rightarrow> lengthM v));
         cf = (if currSegStats pp \<noteq> 0 then parentConflux net (currSegStats pp) else c)
     in Inr \<lparr>pr_lane = currLane pp, pr_isQueuing = isQueuing pp, pr_isMoving = mv, pr_roleType = rt, pr_vehicleLength = len,
          pr_segStats = currSegStats pp,
          pr_conflux = (case (if rt = RL_TRAVELPEDESTRIAN then startConfluxOf net p else None) of None \<Rightarrow> cf | Some start \<Rightarrow> start),
          pr_distance = distanceToEndOfSegment pp\<rparr>)"

section \<open>Placing a person\<close>

definition dequeue_from :: "supply_net \<Rightarrow> person_props \<Rightarrow> address \<Rightarrow> world \<Rightarrow> (supply_error, world) result" where
  "dequeue_from net before p w = seg_op (pr_segStats before) (\<lambda>ss.
     rbind (dequeue (net_env net) p (pr_lane before) (pr_isQueuing before) (pr_vehicleLength before) ss) (\<lambda>(ss1, _). Inr ss1)) w"

definition add_to :: "supply_net \<Rightarrow> person_props \<Rightarrow> address \<Rightarrow> world \<Rightarrow> (supply_error, world) result" where
  "add_to net after p w = seg_op (pr_segStats after) (addAgent (net_env net) (persons w) (pr_lane after) p) w"

definition pushBackOntoVirtualQueue :: "address \<Rightarrow> address \<Rightarrow> address \<Rightarrow> world \<Rightarrow> (supply_error, world) result" where
  "pushBackOntoVirtualQueue c lnk p w = conflux_op c (\<lambda>cf.
     rbind (deref VirtualQueueNotFound (map_of (virtualQueuesMap cf) lnk)) (\<lambda>q.
       Inr (cf\<lparr>virtualQueuesMap := AList.update lnk (q @ [p]) (virtualQueuesMap cf)\<rparr>))) w"

definition to_virtual_queue :: "supply_net \<Rightarrow> person_props \<Rightarrow> address \<Rightarrow> world \<Rightarrow> (supply_error, world) result" where
  "to_virtual_queue net after p w = rbind (getSeg (pr_segStats after) w) (\<lambda>ss.
     rbind (person_op p (\<lambda>pp. pp\<lparr>distanceToEndOfSegment := segLength ss\<rparr>) w) (\<lambda>w1.
       pushBackOntoVirtualQueue (parentConflux net (pr_segStats after)) (parentLink net (pr_segStats after)) p w1))"

definition is_infinity :: "person_props \<Rightarrow> world \<Rightarrow> (supply_error, bool) result" where
  "is_infinity pr w = rbind (getSeg (pr_segStats pr) w) (\<lambda>ss. Inr (pr_lane pr = infinityLane ss))"

text \<open>The position of the last updated person of the lane, where the lane is not lane infinity.\<close>

definition mark_position :: "supply_net \<Rightarrow> person_props \<Rightarrow> address \<Rightarrow> world \<Rightarrow> (supply_error, world) result" where
  "mark_position net after p w = rbind (the_role (persons w) p) (\<lambda>r. rbind (deref NullPointer (currResource r)) (\<lambda>v.
     rbind (distance_of (persons w) p) (\<lambda>d.
       seg_op (pr_segStats after) (setPositionOfLastUpdatedAgentInLane (fl (net_env net) (d + lengthM v)) (pr_lane after)) w)))"

definition mark_unless_infinity :: "supply_net \<Rightarrow> person_props \<Rightarrow> address \<Rightarrow> world \<Rightarrow> (supply_error, world) result" where
  "mark_unless_infinity net after p w = rbind (is_infinity after w) (\<lambda>i. if i then Inr w else mark_position net after p w)"

definition set_laneUpdated :: "bool \<Rightarrow> address \<Rightarrow> world \<Rightarrow> (supply_error, world) result" where
  "set_laneUpdated b p w = person_op p (\<lambda>pp. pp\<lparr>laneUpdated := b\<rparr>) w"

definition set_updatedLane :: "address \<Rightarrow> address \<Rightarrow> world \<Rightarrow> (supply_error, world) result" where
  "set_updatedLane l p w = person_op p (\<lambda>pp. pp\<lparr>laneUpdated := True, updatedLane := l\<rparr>) w"

section \<open>Housekeeping\<close>

definition driving_roles :: "role_type list" where
  "driving_roles = [RL_DRIVER, RL_BIKER, RL_TRUCKER_LGV, RL_TRUCKER_HGV]"

text \<open>\<open>handleRoleChange\<close>, first switch: the person leaves the place of the old role.\<close>

definition leave_role :: "supply_net \<Rightarrow> address \<Rightarrow> person_props \<Rightarrow> address \<Rightarrow> world \<Rightarrow> (supply_error, world) result" where
  "leave_role net c before p w =
     (if pr_roleType before = RL_ACTIVITY
      then conflux_op c (\<lambda>cf. Inr (cf\<lparr>activityPerformers := remove1 p (activityPerformers cf)\<rparr>)) w
      else if pr_roleType before = RL_BUSDRIVER then Inl BusDriverChangesRole
      else if pr_roleType before \<in> set driving_roles
      then (if pr_lane before \<noteq> 0 then dequeue_from net before p w else Inr w)
      else if pr_roleType before = RL_TRAVELPEDESTRIAN
      then conflux_op c (\<lambda>cf. Inr (cf\<lparr>travelingPersons := remove1 p (travelingPersons cf)\<rparr>)) w
      else Inr w)"

text \<open>The second switch: the person enters the place of the new role.\<close>

definition enter_role :: "supply_net \<Rightarrow> address \<Rightarrow> person_props \<Rightarrow> address \<Rightarrow> world \<Rightarrow> (supply_error, world) result" where
  "enter_role net c after p w =
     (if pr_roleType after = RL_BUSDRIVER then Inl ChangesRoleToBusDriver
      else if pr_roleType after = RL_WAITTAXIACTIVITY
      then (if standAgentOf net p \<noteq> 0 then Inr (send (ArrivalAtStand (standAgentOf net p) p) w)
            else conflux_op c (\<lambda>cf. Inr (cf\<lparr>travelingPersons := travelingPersons cf @ [p]\<rparr>)) w)
      else if pr_roleType after \<in> set driving_roles
      then (if pr_lane after \<noteq> 0
            then (if pr_conflux after = c
                  then rbind (add_to net after p w) (\<lambda>w1. mark_unless_infinity net after p w1)
                  else rbind (getSeg (pr_segStats after) w) (\<lambda>_.
                    Inr (send (PersonTransfer (parentConflux net (pr_segStats after)) p (pr_segStats after) (pr_lane after)) w)))
            else to_virtual_queue net after p w)
      else Inr w)"

definition handleRoleChange :: "supply_net \<Rightarrow> address \<Rightarrow> person_props \<Rightarrow> person_props \<Rightarrow> address \<Rightarrow> world \<Rightarrow>
    (supply_error, world \<times> bool) result" where
  "handleRoleChange net c before after p w =
     (if pr_roleType before = pr_roleType after then Inr (w, False)
      else rbind (leave_role net c before p w) (\<lambda>w1. rbind (enter_role net c after p w1) (\<lambda>w2. Inr (w2, True))))"

text \<open>The switch over the roles that stay: \<open>Some\<close> if the function returns there.\<close>

definition stopping_roles :: "role_type list" where
  "stopping_roles = [RL_TAXIDRIVER, RL_ON_HAIL_DRIVER, RL_ON_CALL_DRIVER, RL_BUSDRIVER]"

definition keep_role :: "supply_net \<Rightarrow> address \<Rightarrow> person_props \<Rightarrow> person_props \<Rightarrow> address \<Rightarrow> world \<Rightarrow>
    (supply_error, world option) result" where
  "keep_role net c before after p w =
     (if pr_roleType after \<in> {RL_ACTIVITY, RL_TAXIPASSENGER} then Inr (Some w)
      else if pr_roleType after = RL_TRAVELPEDESTRIAN
      then (if pr_conflux before \<noteq> pr_conflux after
            then rbind (conflux_op c (\<lambda>cf. Inr (cf\<lparr>travelingPersons := remove1 p (travelingPersons cf)\<rparr>)) w) (\<lambda>w1. Inr (Some w1))
            else Inr (Some w))
      else if pr_roleType after = RL_WAITTAXIACTIVITY then Inr (Some w)
      else if pr_roleType after \<in> set stopping_roles
      then (if pr_isMoving before \<and> \<not> pr_isMoving after
            then (if pr_lane before \<noteq> 0 then rbind (dequeue_from net before p w) (\<lambda>w1. Inr (Some w1)) else Inr (Some w))
            else if \<not> pr_isMoving before \<and> pr_isMoving after
            then (if pr_lane after \<noteq> 0
                  then rbind (add_to net after p w) (\<lambda>w1. rbind (mark_unless_infinity net after p w1) (\<lambda>w2. Inr (Some w2)))
                  else rbind (to_virtual_queue net after p w) (\<lambda>w1. Inr (Some w1)))
            else if \<not> pr_isMoving before \<and> \<not> pr_isMoving after then Inr (Some w)
            else Inr None)
      else Inr None)"

text \<open>The part for the roles on the road. A person without a lane before the update was in a virtual queue, from which
  it has been taken already.\<close>

definition place_on_road :: "supply_net \<Rightarrow> person_props \<Rightarrow> person_props \<Rightarrow> address \<Rightarrow> world \<Rightarrow> (supply_error, world) result" where
  "place_on_road net before after p w =
     (if pr_lane before = 0
      then (if pr_lane after \<noteq> 0 then rbind (add_to net after p w) (set_laneUpdated True p)
            else if pr_segStats before \<noteq> pr_segStats after then Inl BetweenVirtualQueues
            else to_virtual_queue net after p w)
      else rbind (if pr_segStats before \<noteq> pr_segStats after then Inr False else is_infinity before w) (\<lambda>inf_before.
        if pr_segStats before \<noteq> pr_segStats after \<or> inf_before \<and> pr_lane before \<noteq> pr_lane after \<or> pr_lane after = 0
        then rbind (if pr_roleType before \<noteq> RL_ACTIVITY then rbind (dequeue_from net before p w) (set_laneUpdated False p) else Inr w) (\<lambda>w1.
          if pr_lane after \<noteq> 0 then rbind (add_to net after p w1) (set_updatedLane (pr_lane after) p)
          else to_virtual_queue net after p w1)
        else rbind (is_infinity after w) (\<lambda>inf_after.
          if inf_after
          then rbind (dequeue_from net before p w) (\<lambda>w1. rbind (set_laneUpdated False p w1) (\<lambda>w2.
               rbind (add_to net after p w2) (set_updatedLane (pr_lane after) p)))
          else if pr_isQueuing before \<noteq> pr_isQueuing after
          then rbind (seg_op (pr_segStats after) (updateQueueStatus (net_env net) (persons w) (pr_lane after) p) w)
                 (set_updatedLane (pr_lane after) p)
          else Inr w)))"

definition housekeep :: "supply_net \<Rightarrow> address \<Rightarrow> person_props \<Rightarrow> person_props \<Rightarrow> address \<Rightarrow> world \<Rightarrow> (supply_error, world) result" where
  "housekeep net c before after p w = rbind (handleRoleChange net c before after p w) (\<lambda>(w1, changed).
     if changed then Inr w1
     else rbind (keep_role net c before after p w1) (\<lambda>done.
       case done of
         Some w2 \<Rightarrow> Inr w2
       | None \<Rightarrow> rbind (place_on_road net before after p w1) (\<lambda>w2.
           if pr_lane after \<noteq> 0
           then rbind (is_infinity after w2) (\<lambda>i. if i then Inr w2
                else rbind (mark_position net after p w2) (set_updatedLane (pr_lane after) p))
           else Inr w2)))"

text \<open>\<open>updateAgentContext\<close>.\<close>

definition updateAgentContext :: "person_props \<Rightarrow> person_props \<Rightarrow> address \<Rightarrow> world \<Rightarrow> world" where
  "updateAgentContext before after p w =
     (if pr_conflux after \<noteq> 0 \<and> pr_conflux before \<noteq> pr_conflux after then send (ReRegister p (pr_conflux after)) w else w)"

section \<open>Where the persons are\<close>

text \<open>The persons in all lanes of all segments and in all virtual queues.\<close>

definition lane_persons :: "segment_stats \<Rightarrow> address multiset" where
  "lane_persons ss = sum_list (map (\<lambda>e. mset (laneAgents (snd e))) (laneStatsMap ss))"

definition queue_persons :: "conflux \<Rightarrow> address multiset" where
  "queue_persons cf = sum_list (map (\<lambda>e. mset (snd e)) (virtualQueuesMap cf))"

definition on_road :: "world \<Rightarrow> address multiset" where
  "on_road w = sum_list (map (\<lambda>e. lane_persons (snd e)) (segments w)) + sum_list (map (\<lambda>e. queue_persons (snd e)) (confluxes w))"

lemma sum_list_update:
  fixes f :: "'v \<Rightarrow> 'b multiset"
  assumes "map_of m k = Some v"
  shows "sum_list (map (\<lambda>e. f (snd e)) (AList.update k v1 m)) + f v = sum_list (map (\<lambda>e. f (snd e)) m) + f v1"
  using assms by (induction m) (auto simp: ac_simps split: if_splits)

lemma seg_op_road:
  assumes "seg_op a f w = Inr w1"
  shows "\<exists>ss ss1. map_of (segments w) a = Some ss \<and> f ss = Inr ss1 \<and> on_road w1 + lane_persons ss = on_road w + lane_persons ss1"
proof -
  from assms obtain ss ss1 where s: "map_of (segments w) a = Some ss" "f ss = Inr ss1" "w1 = w\<lparr>segments := AList.update a ss1 (segments w)\<rparr>"
    by (auto simp: seg_op_def getSeg_def rbind_Inr deref_Inr)
  have "on_road w1 + lane_persons ss = on_road w + lane_persons ss1"
    using sum_list_update [where f = lane_persons, OF s(1)] by (simp add: on_road_def s(3) ac_simps)
  with s show ?thesis by blast
qed

lemma putLane_road:
  "map_of (laneStatsMap ss) l = Some ls \<Longrightarrow> lane_persons (putLane l ls1 ss) + mset (laneAgents ls) = lane_persons ss + mset (laneAgents ls1)"
  unfolding lane_persons_def putLane_def using sum_list_update [where f = "\<lambda>ls. mset (laneAgents ls)"] by simp

lemma addAgent_road:
  assumes "addAgent env ps l p ss = Inr ss1"
  shows "lane_persons ss1 = add_mset p (lane_persons ss)"
proof -
  from assms obtain ls ls1 where a: "map_of (laneStatsMap ss) l = Some ls" "addPerson (fl env) ps p ls = Inr ls1"
    "lane_persons ss1 = lane_persons (putLane l ls1 ss)"
    by (auto simp: addAgent_def rbind_Inr getLane_Inr lane_persons_def Let_def)
  from addPerson_agents [OF a(2)] have "mset (laneAgents ls1) = add_mset p (mset (laneAgents ls))" by auto
  with putLane_road [OF a(1), of ls1] a(3) show ?thesis by simp
qed

lemma same_agents_road:
  assumes "map_of (laneStatsMap ss) l = Some ls" "laneAgents ls1 = laneAgents ls"
  shows "lane_persons (putLane l ls1 ss) = lane_persons ss"
  using putLane_road [OF assms(1), of ls1] assms(2) by simp

lemma updateQueueStatus_road: "updateQueueStatus env ps l p ss = Inr ss1 \<Longrightarrow> lane_persons ss1 = lane_persons ss"
  by (auto simp: updateQueueStatus_def rbind_Inr getLane_Inr dest!: updateQueueStatus_agents intro: same_agents_road)

lemma setPosition_road: "setPositionOfLastUpdatedAgentInLane x l ss = Inr ss1 \<Longrightarrow> lane_persons ss1 = lane_persons ss"
  by (auto simp: setPositionOfLastUpdatedAgentInLane_def rbind_Inr getLane_Inr intro: same_agents_road)

text \<open>A person can leave its lane if it is in front of it, or anywhere in lane infinity.\<close>

definition can_leave :: "person_props \<Rightarrow> address \<Rightarrow> world \<Rightarrow> bool" where
  "can_leave before p w \<longleftrightarrow> (\<exists>ss ls. map_of (segments w) (pr_segStats before) = Some ss \<and>
     map_of (laneStatsMap ss) (pr_lane before) = Some ls \<and>
     (if laneInfinity ls then p \<in> set (laneAgents ls) else laneAgents ls \<noteq> [] \<and> p = hd (laneAgents ls)))"

lemma dequeue_road:
  assumes "dequeue env p l q len ss = Inr (ss1, p1)" "p \<noteq> 0" "map_of (laneStatsMap ss) l = Some ls"
    "if laneInfinity ls then p \<in> set (laneAgents ls) else laneAgents ls \<noteq> [] \<and> p = hd (laneAgents ls)"
  shows "lane_persons ss = add_mset p (lane_persons ss1)"
proof -
  from assms(1-3) obtain ls1 where d: "lane_dequeue (fl env) p q len ls = Inr (ls1, p1)"
    "lane_persons ss1 = lane_persons (putLane l ls1 ss)"
    by (auto simp: dequeue_def rbind_Inr lane_persons_def Let_def split: if_splits)
  have "mset (laneAgents ls) = add_mset p (mset (laneAgents ls1))"
    using d(1) assms(2,4) by (cases "laneAgents ls") (auto simp: lane_dequeue_def guard_Inr Let_def split: if_splits)
  with putLane_road [OF assms(3), of ls1] d(2) show ?thesis by simp
qed

lemma dequeue_from_road:
  assumes "dequeue_from net before p w = Inr w1" "p \<noteq> 0" "can_leave before p w"
  shows "on_road w = add_mset p (on_road w1)"
proof -
  from seg_op_road [OF assms(1) [unfolded dequeue_from_def]] obtain ss ss1 p1 where
    s: "map_of (segments w) (pr_segStats before) = Some ss"
      "dequeue (net_env net) p (pr_lane before) (pr_isQueuing before) (pr_vehicleLength before) ss = Inr (ss1, p1)"
      "on_road w1 + lane_persons ss = on_road w + lane_persons ss1" by (auto simp: rbind_Inr)
  from assms(3) s(1) have "lane_persons ss = add_mset p (lane_persons ss1)"
    using dequeue_road [OF s(2) assms(2)] by (auto simp: can_leave_def)
  with s(3) show ?thesis by simp
qed

lemma add_to_road: "add_to net after p w = Inr w1 \<Longrightarrow> on_road w1 = add_mset p (on_road w)"
  unfolding add_to_def by (drule seg_op_road) (auto dest: addAgent_road)

lemma person_op_road: "person_op p f w = Inr w1 \<Longrightarrow> on_road w1 = on_road w"
  by (auto simp: person_op_def rbind_Inr on_road_def)

lemma push_road:
  assumes "pushBackOntoVirtualQueue c lnk p w = Inr w1"
  shows "on_road w1 = add_mset p (on_road w)"
proof -
  from assms obtain cf q where c: "map_of (confluxes w) c = Some cf" "map_of (virtualQueuesMap cf) lnk = Some q"
    "w1 = w\<lparr>confluxes := AList.update c (cf\<lparr>virtualQueuesMap := AList.update lnk (q @ [p]) (virtualQueuesMap cf)\<rparr>) (confluxes w)\<rparr>"
    by (auto simp: pushBackOntoVirtualQueue_def conflux_op_def getConflux_def rbind_Inr deref_Inr)
  let ?cf = "cf\<lparr>virtualQueuesMap := AList.update lnk (q @ [p]) (virtualQueuesMap cf)\<rparr>"
  have "queue_persons ?cf = add_mset p (queue_persons cf)"
    using sum_list_update [where f = mset, OF c(2), of "q @ [p]"] by (simp add: queue_persons_def)
  then show ?thesis using sum_list_update [where f = queue_persons, OF c(1), of ?cf] by (simp add: on_road_def c(3))
qed

lemma to_virtual_queue_road: "to_virtual_queue net after p w = Inr w1 \<Longrightarrow> on_road w1 = add_mset p (on_road w)"
  by (auto simp: to_virtual_queue_def rbind_Inr dest!: push_road person_op_road)

lemma mark_position_road: "mark_position net after p w = Inr w1 \<Longrightarrow> on_road w1 = on_road w"
  by (auto simp: mark_position_def rbind_Inr dest!: seg_op_road setPosition_road)

lemma mark_unless_infinity_road: "mark_unless_infinity net after p w = Inr w1 \<Longrightarrow> on_road w1 = on_road w"
  by (auto simp: mark_unless_infinity_def rbind_Inr dest!: mark_position_road split: if_splits)

lemma set_updated_road: "set_laneUpdated b p w = Inr w1 \<Longrightarrow> on_road w1 = on_road w" "set_updatedLane l p w = Inr w1 \<Longrightarrow> on_road w1 = on_road w"
  by (auto simp: set_laneUpdated_def set_updatedLane_def dest: person_op_road)

lemma conflux_lists_road:
  assumes "conflux_op c (\<lambda>cf. Inr (f cf)) w = Inr w1" "\<And>cf. virtualQueuesMap (f cf) = virtualQueuesMap cf"
  shows "on_road w1 = on_road w"
proof -
  from assms(1) obtain cf where c: "map_of (confluxes w) c = Some cf" "w1 = w\<lparr>confluxes := AList.update c (f cf) (confluxes w)\<rparr>"
    by (auto simp: conflux_op_def getConflux_def rbind_Inr deref_Inr)
  have "queue_persons (f cf) = queue_persons cf" by (simp add: queue_persons_def assms(2))
  then show ?thesis using sum_list_update [where f = queue_persons, OF c(1), of "f cf"] by (simp add: on_road_def c(2))
qed

lemma send_road [simp]: "on_road (send m w) = on_road w"
  by (simp add: send_def on_road_def)

lemma queue_status_road: "seg_op a (updateQueueStatus env ps l p) w = Inr w1 \<Longrightarrow> on_road w1 = on_road w"
  by (auto dest!: seg_op_road updateQueueStatus_road)

lemmas road_dests = queue_status_road add_to_road to_virtual_queue_road mark_position_road mark_unless_infinity_road set_updated_road

section \<open>Housekeeping loses and doubles nobody\<close>

definition balanced :: "address \<Rightarrow> int \<Rightarrow> world \<Rightarrow> world \<Rightarrow> bool" where
  "balanced p k w w1 \<longleftrightarrow> (\<forall>q. int (count (on_road w1) q) = int (count (on_road w) q) + (if q = p then k else 0))"

lemma balanced_trans: "balanced p j w w1 \<Longrightarrow> balanced p k w1 w2 \<Longrightarrow> j + k = n \<Longrightarrow> balanced p n w w2"
  by (auto simp: balanced_def)

lemma balanced_same: "on_road w1 = on_road w \<Longrightarrow> balanced p 0 w w1"
  by (simp add: balanced_def)

lemma balanced_in: "on_road w1 = add_mset p (on_road w) \<Longrightarrow> balanced p 1 w w1"
  by (simp add: balanced_def)

lemma balanced_out: "on_road w = add_mset p (on_road w1) \<Longrightarrow> balanced p (- 1) w w1"
  by (simp add: balanced_def)

text \<open>How often the person is on the road more than before, as the roles, lanes and movement tell.\<close>

definition road_change :: "address \<Rightarrow> person_props \<Rightarrow> person_props \<Rightarrow> int" where
  "road_change c before after =
     (if pr_roleType before \<noteq> pr_roleType after
      then (if pr_roleType before \<in> set driving_roles \<and> pr_lane before \<noteq> 0 then - 1 else 0) +
           (if pr_roleType after \<in> set driving_roles \<and> \<not> (pr_lane after \<noteq> 0 \<and> pr_conflux after \<noteq> c) then 1 else 0)
      else if pr_roleType after \<in> {RL_ACTIVITY, RL_TAXIPASSENGER, RL_TRAVELPEDESTRIAN, RL_WAITTAXIACTIVITY} then 0
      else if pr_roleType after \<in> set stopping_roles \<and> \<not> (pr_isMoving before \<and> pr_isMoving after)
      then (if pr_isMoving before then (if pr_lane before \<noteq> 0 then - 1 else 0) else if pr_isMoving after then 1 else 0)
      else if pr_lane before = 0 then 1 else 0)"

text \<open>A person who stays where it is need not be in front of its lane.\<close>

definition stays :: "person_props \<Rightarrow> person_props \<Rightarrow> world \<Rightarrow> bool" where
  "stays before after w \<longleftrightarrow> pr_roleType before = pr_roleType after \<and> pr_isMoving before \<and> pr_isMoving after \<and>
     pr_segStats before = pr_segStats after \<and> pr_lane before = pr_lane after \<and> is_infinity before w = Inr False"

lemma leave_role_balanced:
  assumes "leave_role net c before p w = Inr w1" "p \<noteq> 0" "pr_lane before = 0 \<or> can_leave before p w"
  shows "balanced p (if pr_roleType before \<in> set driving_roles \<and> pr_lane before \<noteq> 0 then - 1 else 0) w w1"
proof (cases "pr_roleType before \<in> set driving_roles \<and> pr_lane before \<noteq> 0")
  case True
  then have "dequeue_from net before p w = Inr w1" using assms(1) by (auto simp: leave_role_def driving_roles_def)
  then show ?thesis using True assms(2,3) by (auto intro!: balanced_out dequeue_from_road)
next
  case False
  have "on_road w1 = on_road w"
    using assms(1) False
    by (auto simp: leave_role_def split: if_splits intro: conflux_lists_road
        [where f = "\<lambda>cf. cf\<lparr>activityPerformers := remove1 p (activityPerformers cf)\<rparr>"] conflux_lists_road
        [where f = "\<lambda>cf. cf\<lparr>travelingPersons := remove1 p (travelingPersons cf)\<rparr>"])
  then show ?thesis using False by (simp only: if_False balanced_same)
qed

lemma enter_role_balanced:
  assumes "enter_role net c after p w = Inr w1"
  shows "balanced p (if pr_roleType after \<in> set driving_roles \<and> \<not> (pr_lane after \<noteq> 0 \<and> pr_conflux after \<noteq> c) then 1 else 0) w w1"
proof (cases "pr_roleType after \<in> set driving_roles")
  case True
  then have e: "enter_role net c after p w = (if pr_lane after \<noteq> 0
      then (if pr_conflux after = c then rbind (add_to net after p w) (\<lambda>w1. mark_unless_infinity net after p w1)
            else rbind (getSeg (pr_segStats after) w) (\<lambda>_.
                    Inr (send (PersonTransfer (parentConflux net (pr_segStats after)) p (pr_segStats after) (pr_lane after)) w)))
      else to_virtual_queue net after p w)"
    by (auto simp: enter_role_def driving_roles_def)
  show ?thesis
  proof (cases "pr_lane after \<noteq> 0 \<and> pr_conflux after \<noteq> c")
    case True
    then have "on_road w1 = on_road w" using assms e by (auto simp: rbind_Inr)
    then show ?thesis using True by (simp add: balanced_same)
  next
    case False
    then have "on_road w1 = add_mset p (on_road w)"
      using assms e by (auto simp: rbind_Inr split: if_splits dest!: road_dests)
    then show ?thesis using True False by (simp add: balanced_in)
  qed
next
  case False
  have "on_road w1 = on_road w"
    using assms False
    by (auto simp: enter_role_def split: if_splits intro: conflux_lists_road [where f = "\<lambda>cf. cf\<lparr>travelingPersons := travelingPersons cf @ [p]\<rparr>"])
  then show ?thesis using False by (simp add: balanced_same)
qed

lemma keep_role_balanced:
  assumes "keep_role net c before after p w = Inr (Some w1)" "p \<noteq> 0" "pr_lane before = 0 \<or> can_leave before p w \<or> stays before after w"
    "pr_roleType before = pr_roleType after"
  shows "balanced p (road_change c before after) w w1"
proof -
  let ?quiet = "{RL_ACTIVITY, RL_TAXIPASSENGER, RL_TRAVELPEDESTRIAN, RL_WAITTAXIACTIVITY}"
  consider (quiet) "pr_roleType after \<in> ?quiet"
    | (stops) "pr_roleType after \<in> set stopping_roles" "pr_isMoving before" "\<not> pr_isMoving after" "pr_roleType after \<notin> ?quiet"
    | (starts) "pr_roleType after \<in> set stopping_roles" "\<not> pr_isMoving before" "pr_isMoving after" "pr_roleType after \<notin> ?quiet"
    | (waits) "pr_roleType after \<in> set stopping_roles" "\<not> pr_isMoving before" "\<not> pr_isMoving after" "pr_roleType after \<notin> ?quiet"
    using assms(1) by (auto simp: keep_role_def stopping_roles_def split: if_splits)
  then show ?thesis
  proof cases
    case quiet
    then have "on_road w1 = on_road w" using assms(1)
      by (auto simp: keep_role_def rbind_Inr split: if_splits
          intro: conflux_lists_road [where f = "\<lambda>cf. cf\<lparr>travelingPersons := remove1 p (travelingPersons cf)\<rparr>"])
    moreover have "road_change c before after = 0" using quiet assms(4) by (simp add: road_change_def)
    ultimately show ?thesis by (simp add: balanced_same)
  next
    case stops
    then have k: "keep_role net c before after p w = (if pr_lane before \<noteq> 0 then rbind (dequeue_from net before p w) (\<lambda>w1. Inr (Some w1)) else Inr (Some w))"
      by (auto simp: keep_role_def)
    have r: "road_change c before after = (if pr_lane before \<noteq> 0 then - 1 else 0)" using stops assms(4) by (simp add: road_change_def)
    have "\<not> stays before after w" using stops by (simp add: stays_def)
    then show ?thesis using assms(1-3) k r
      by (cases "pr_lane before = 0") (auto simp: rbind_Inr intro!: balanced_out balanced_same dequeue_from_road)
  next
    case starts
    then have k: "keep_role net c before after p w = (if pr_lane after \<noteq> 0
        then rbind (add_to net after p w) (\<lambda>w1. rbind (mark_unless_infinity net after p w1) (\<lambda>w2. Inr (Some w2)))
        else rbind (to_virtual_queue net after p w) (\<lambda>w1. Inr (Some w1)))" by (auto simp: keep_role_def)
    have "on_road w1 = add_mset p (on_road w)" using assms(1) k by (auto simp: rbind_Inr split: if_splits dest!: road_dests)
    moreover have "road_change c before after = 1" using starts assms(4) by (simp add: road_change_def)
    ultimately show ?thesis by (simp add: balanced_in)
  next
    case waits
    then have "w1 = w" using assms(1) by (auto simp: keep_role_def)
    moreover have "road_change c before after = 0" using waits assms(4) by (simp add: road_change_def)
    ultimately show ?thesis by (simp add: balanced_same)
  qed
qed

lemma keep_role_None:
  assumes "keep_role net c before after p w = Inr None" "pr_roleType before = pr_roleType after"
  shows "road_change c before after = (if pr_lane before = 0 then 1 else 0)"
  using assms by (auto simp: keep_role_def road_change_def rbind_Inr split: if_splits)

lemma place_on_road_balanced:
  assumes "place_on_road net before after p w = Inr w1" "p \<noteq> 0" "pr_lane before = 0 \<or> can_leave before p w \<or> stays before after w"
    "pr_roleType before \<noteq> RL_ACTIVITY"
  shows "balanced p (if pr_lane before = 0 then 1 else 0) w w1"
proof (cases "pr_lane before = 0")
  case True
  then have "on_road w1 = add_mset p (on_road w)"
    using assms(1) by (auto simp: place_on_road_def rbind_Inr split: if_splits dest!: road_dests)
  with True show ?thesis by (simp add: balanced_in)
next
  case lane: False
  let ?reenters = "\<exists>w0 w2. dequeue_from net before p w = Inr w0 \<and> on_road w2 = on_road w0 \<and> on_road w1 = add_mset p (on_road w2)"
  have "on_road w1 = on_road w"
  proof (cases "stays before after w")
    case True
    then have i: "is_infinity before w = Inr False" "is_infinity after w = Inr False" "pr_segStats before = pr_segStats after"
      "pr_lane before = pr_lane after" by (auto simp: stays_def is_infinity_def)
    then have e: "place_on_road net before after p w = (if pr_isQueuing before \<noteq> pr_isQueuing after
          then rbind (seg_op (pr_segStats after) (updateQueueStatus (net_env net) (persons w) (pr_lane after) p) w)
                 (set_updatedLane (pr_lane after) p)
          else Inr w)"
      using lane by (simp add: place_on_road_def)
    show ?thesis using assms(1) unfolding e
      by (auto simp: rbind_Inr split: if_splits dest!: road_dests)
  next
    case False
    then have cl: "can_leave before p w" using assms(3) lane by blast
    have "?reenters \<or> on_road w1 = on_road w"
      using assms(1,4) lane
      by (auto simp: place_on_road_def rbind_Inr split: if_splits dest!: road_dests)
    then show ?thesis using dequeue_from_road [OF _ assms(2) cl] by auto
  qed
  then show ?thesis using lane by (simp add: balanced_same)
qed

lemma housekeep_balanced:
  assumes "housekeep net c before after p w = Inr w1" "p \<noteq> 0" "pr_lane before = 0 \<or> can_leave before p w \<or> stays before after w"
  shows "balanced p (road_change c before after) w w1"
proof (cases "pr_roleType before = pr_roleType after")
  case False
  then have "\<not> stays before after w" by (simp add: stays_def)
  with assms(3) have cl: "pr_lane before = 0 \<or> can_leave before p w" by blast
  from assms(1) False obtain w0 where w: "leave_role net c before p w = Inr w0" "enter_role net c after p w0 = Inr w1"
    by (auto simp: housekeep_def handleRoleChange_def rbind_Inr)
  show ?thesis
    by (rule balanced_trans [OF leave_role_balanced [OF w(1) assms(2) cl] enter_role_balanced [OF w(2)]])
      (use False in \<open>simp add: road_change_def\<close>)
next
  case True
  with assms(1) obtain d where d: "keep_role net c before after p w = Inr d"
    "case d of Some w2 \<Rightarrow> w1 = w2 | None \<Rightarrow> (\<exists>w2. place_on_road net before after p w = Inr w2 \<and> on_road w1 = on_road w2)"
    by (auto simp: housekeep_def handleRoleChange_def rbind_Inr split: option.splits if_splits dest!: road_dests)
  show ?thesis
  proof (cases d)
    case (Some w2)
    with d have "keep_role net c before after p w = Inr (Some w1)" by simp
    then show ?thesis by (rule keep_role_balanced [OF _ assms(2,3) True])
  next
    case None
    with d obtain w2 where w2: "keep_role net c before after p w = Inr None" "place_on_road net before after p w = Inr w2" "on_road w1 = on_road w2"
      by auto
    have "pr_roleType before \<noteq> RL_ACTIVITY" using w2(1) True by (auto simp: keep_role_def)
    from place_on_road_balanced [OF w2(2) assms(2,3) this] show ?thesis
      using keep_role_None [OF w2(1) True] w2(3) by (simp add: balanced_def)
  qed
qed

text \<open>C6: Housekeeping loses and doubles nobody: the persons in the lanes and in the virtual queues are those before, but for
  the person who was updated, and this person is there once more if it comes from a virtual queue (from which it has been
  taken), a stop or another role, once less if it goes to a stop, to another conflux or takes another role, and else as
  often as before. The person must be able to leave its lane, or stay in it.\<close>

theorem housekeeping_conserves_persons:
  assumes "housekeep net c before after p w = Inr w1" "p \<noteq> 0" "pr_lane before = 0 \<or> can_leave before p w \<or> stays before after w"
  shows "\<forall>q. int (count (on_road w1) q) = int (count (on_road w) q) + (if q = p then road_change c before after else 0)"
  using housekeep_balanced [OF assms] by (simp add: balanced_def)

section \<open>An example\<close>

text \<open>Segment 100 is \<open>seg1\<close>, upstream of conflux 50 on link 60.\<close>

definition conflux1 :: conflux where
  "conflux1 = \<lparr>upstreamSegStatsMap = [(60, [100])], virtualQueuesMap = [(60, [])], vqBounds = [60 \<mapsto> 1], activityPerformers = [],
     pedestrianList = [], mrt = [], travelingPersons = [], brokenPersons = [], stashedPersons = [], loadingQueue = [],
     isLoader = False, numUpdatesThisTick = 0, evadeVQ_Bounds = False, currFrame = \<lparr>frame = 0, ms = 0\<rparr>, lastUpdatedFrameOf = 0,
     linkStatsMap = [], confluxInitialized = True\<rparr>"

definition net1 :: supply_net where
  "net1 = \<lparr>net_env = senv1, parentConflux = (\<lambda>_. 50), parentLink = (\<lambda>_. 60), standAgentOf = (\<lambda>_. 0), startConfluxOf = (\<lambda>_. None),
     originStop = (\<lambda>_. 0), subTripStop = (\<lambda>_. 0), sinkTerminus = (\<lambda>_. False), twinStop = (\<lambda>_. 0), stopAgentOf = (\<lambda>_. 0),
     originPlatform = (\<lambda>_. 0), stationAgentOf = (\<lambda>_. 0), parentEntityOf = (\<lambda>_. 0), travelTime = (\<lambda>_. 0), baseGranMS = 1000, outputEnabled = False, updateInterval = 1\<rparr>"

definition world1 :: world where
  "world1 = \<lparr>confluxes = [(50, conflux1)], segments = [(100, seg1)], persons = people2, outbox = [], activeAgents = []\<rparr>"

definition before1 :: person_props where
  "before1 = \<lparr>pr_lane = 11, pr_isQueuing = True, pr_isMoving = True, pr_roleType = RL_DRIVER, pr_vehicleLength = 4,
     pr_segStats = 100, pr_conflux = 50, pr_distance = 10\<rparr>"

definition after1 :: person_props where
  "after1 = before1\<lparr>pr_lane := 0, pr_isQueuing := False\<rparr>"

lemma seg1_lane11: "\<exists>ls. map_of (laneStatsMap seg1) 11 = Some ls \<and> laneAgents ls = [2, 1] \<and> \<not> laneInfinity ls \<and>
   queueCount ls = 1 \<and> numPersonsInLane ls = 2"
  by (simp add: seg1_def seg0_def seg_eval addAgent_def getLane_def putLane_def addPerson_def the_role_def distance_of_def insert_by_distance_def)

lemma dequeue_car2: "\<exists>ss. dequeue senv1 2 11 True 4 seg1 = Inr (ss, 2)"
  using seg1_lane11 by (auto simp: dequeue_def lane_dequeue_def guard_def Let_def)

lemma housekeeping_conserves_persons_witness:
  "\<exists>w1. housekeep net1 50 before1 after1 2 world1 = Inr w1 \<and> (\<forall>q. count (on_road w1) q = count (on_road world1) q)"
proof -
  from dequeue_car2 obtain ss where d: "dequeue senv1 2 11 True 4 seg1 = Inr (ss, 2)" by blast
  then obtain w1 where h: "housekeep net1 50 before1 after1 2 world1 = Inr w1"
    by (simp add: housekeep_def handleRoleChange_def keep_role_def place_on_road_def before1_def after1_def stopping_roles_def
      is_infinity_def getSeg_def world1_def net1_def dequeue_from_def seg_op_def set_laneUpdated_def person_op_def
      to_virtual_queue_def pushBackOntoVirtualQueue_def conflux_op_def getConflux_def conflux1_def)
  have "can_leave before1 2 world1" using seg1_lane11 by (auto simp: can_leave_def before1_def world1_def)
  with housekeeping_conserves_persons [OF h] have
    "\<forall>q. int (count (on_road w1) q) = int (count (on_road world1) q) + (if q = 2 then road_change 50 before1 after1 else 0)" by simp
  moreover have "road_change 50 before1 after1 = 0"
    by (simp add: road_change_def before1_def after1_def stopping_roles_def)
  ultimately have "int (count (on_road w1) q) = int (count (on_road world1) q)" for q by presburger
  then have "\<forall>q. count (on_road w1) q = count (on_road world1) q" using of_nat_eq_iff by blast
  with h show ?thesis by blast
qed

end
