(* ===== verification/Conflux_Merge.thy ===== *)
theory Conflux_Merge
  imports Conflux_State
begin

text \<open>
  The mid-term supply: the persons of a conflux in the order in which they move (\<open>getAllPersonsUsingTopCMerge\<close> and
  \<open>topCMergeDifferentLinksInConflux\<close> of \<open>medium/entities/conflux/Conflux.cpp\<close>), and the lists of all its persons.
\<close>

section \<open>The merge over the links\<close>

text \<open>The loop returns where no list has a person left with a finite driving time; otherwise what is left is appended.\<close>

fun pick_links :: "key_fn \<Rightarrow> real \<Rightarrow> (nat \<Rightarrow> nat) \<Rightarrow> nat \<Rightarrow> nat \<Rightarrow> address list list \<Rightarrow> address list \<Rightarrow>
    (supply_error, address list \<times> nat) result" where
  "pick_links key mx rnd 0 k xss out = Inr (out @ concat xss, k)"
| "pick_links key mx rnd (Suc c) k xss out = rbind (scan_fronts key mx [] 0 xss) (\<lambda>eq.
     if eq = [] then Inr (out, k)
     else let ((i, p), k1) = pick_one rnd k eq in pick_links key mx rnd c k1 (xss[i := tl (xss ! i)]) (out @ [p]))"

text \<open>The capacity is an \<open>int\<close> that is compared with a \<open>size_t\<close>.\<close>

definition topCMergeDifferentLinksInConflux :: "supply_env \<Rightarrow> people \<Rightarrow> (nat \<Rightarrow> nat) \<Rightarrow> nat \<Rightarrow> address list list \<Rightarrow> int \<Rightarrow>
    (supply_error, address list \<times> nat) result" where
  "topCMergeDifferentLinksInConflux env ps rnd k xss cap =
     pick_links (driving_time_of ps) (max_double env) rnd (unat (word_of_int cap :: 64 word)) k xss []"

text \<open>The segments of a link from its end to its start: the driving times to the end of the link, then the merge of the
  lanes.\<close>

definition merge_segment :: "supply_net \<Rightarrow> (nat \<Rightarrow> nat) \<Rightarrow> world \<times> nat \<times> real \<times> address list \<Rightarrow> address \<Rightarrow>
    (supply_error, world \<times> nat \<times> real \<times> address list) result" where
  "merge_segment net rnd = (\<lambda>(w, k, total, one) a. let env = net_env net in rbind (getSeg a w) (\<lambda>ss.
     rbind (updateLinkDrivingTimes env total ss (persons w)) (\<lambda>ps.
       case topCMergeLanesInSegment env ps rnd k ss of
         Inl (Inl _) \<Rightarrow> Inl StopListError
       | Inl (Inr e) \<Rightarrow> Inl e
       | Inr (xs, k1) \<Rightarrow> Inr (w\<lparr>persons := ps\<rparr>, k1,
           fl env (total + fl env (segLength ss / positive_speed (segVehicleSpeed ss))), one @ xs))))"

definition merge_link :: "supply_net \<Rightarrow> (nat \<Rightarrow> nat) \<Rightarrow> world \<times> nat \<times> int \<times> address list list \<Rightarrow> address \<times> address list \<Rightarrow>
    (supply_error, world \<times> nat \<times> int \<times> address list list) result" where
  "merge_link net rnd = (\<lambda>(w, k, cap, xss) (lnk, segs).
     if segs = [] then Inl Dangling
     else rbind (getSeg (last segs) w) (\<lambda>lst. rbind (run_list (merge_segment net rnd) (w, k, 0, []) (rev segs)) (\<lambda>(w1, k1, total, one).
       Inr (w1, k1, cap + \<lceil>capacity (supplyParams lst)\<rceil>, xss @ [one]))))"

definition getAllPersonsUsingTopCMerge :: "supply_net \<Rightarrow> (nat \<Rightarrow> nat) \<Rightarrow> nat \<Rightarrow> address \<Rightarrow> world \<Rightarrow>
    (supply_error, world \<times> address list \<times> nat) result" where
  "getAllPersonsUsingTopCMerge net rnd k c w = rbind (getConflux c w) (\<lambda>cf.
     rbind (run_list (merge_link net rnd) (w, k, 0, []) (upstreamSegStatsMap cf)) (\<lambda>(w1, k1, cap, xss).
       rbind (topCMergeDifferentLinksInConflux (net_env net) (persons w1) rnd k1 xss cap) (\<lambda>(out, k2). Inr (w1, out, k2))))"

section \<open>The lists of all persons\<close>

text \<open>The list of a segment is appended to the list of the segments before, which is not cleared.\<close>

definition append_segment :: "world \<Rightarrow> address list \<times> address list \<Rightarrow> address \<Rightarrow> (supply_error, address list \<times> address list) result" where
  "append_segment w = (\<lambda>(allPersons, tmpAgents) a. rbind (getSeg a w) (\<lambda>ss.
     case getPersons ss tmpAgents of Inl _ \<Rightarrow> Inl StopListError | Inr tmp \<Rightarrow> Inr (allPersons @ tmp, tmp)))"

definition onRoadPersons :: "address \<Rightarrow> world \<Rightarrow> (supply_error, address list) result" where
  "onRoadPersons c w = rbind (getConflux c w) (\<lambda>cf.
     rbind (run_list (append_segment w) ([], []) (concat (map snd (upstreamSegStatsMap cf)))) (\<lambda>(allPersons, tmp).
       Inr (allPersons @ concat (map snd (virtualQueuesMap cf)))))"

definition getAllPersons :: "address \<Rightarrow> world \<Rightarrow> (supply_error, address list) result" where
  "getAllPersons c w = rbind (getConflux c w) (\<lambda>cf. rbind (onRoadPersons c w) (\<lambda>xs. Inr (xs @ activityPerformers cf @ pedestrianList cf)))"

record person_count =
  n_activityPerformers :: nat
  n_pedestrians :: nat
  n_trainPassengers :: nat
  n_carSharers :: nat
  n_busWaiters :: nat
  n_carDrivers :: nat
  n_taxiDrivers :: nat
  n_motorCyclists :: nat
  n_truckerHGV :: nat
  n_truckerLGV :: nat
  n_busDrivers :: nat
  n_busPassengers :: nat

text \<open>The number of passengers of a bus driver and of waiting persons at a segment are arguments.\<close>

definition count_person :: "(address \<Rightarrow> nat) \<Rightarrow> people \<Rightarrow> person_count \<Rightarrow> address \<Rightarrow> (supply_error, person_count) result" where
  "count_person passengers ps n p = rbind (deref Dangling (ps p)) (\<lambda>pp. case currRole pp of None \<Rightarrow> Inr n | Some r \<Rightarrow>
     (case roleType r of RL_DRIVER \<Rightarrow> Inr (n\<lparr>n_carDrivers := n_carDrivers n + 1\<rparr>)
      | RL_TAXIDRIVER \<Rightarrow> Inr (n\<lparr>n_taxiDrivers := n_taxiDrivers n + 1\<rparr>)
      | RL_ON_HAIL_DRIVER \<Rightarrow> Inr (n\<lparr>n_taxiDrivers := n_taxiDrivers n + 1\<rparr>)
      | RL_ON_CALL_DRIVER \<Rightarrow> Inr (n\<lparr>n_taxiDrivers := n_taxiDrivers n + 1\<rparr>)
      | RL_BIKER \<Rightarrow> Inr (n\<lparr>n_motorCyclists := n_motorCyclists n + 1\<rparr>)
      | RL_TRUCKER_HGV \<Rightarrow> Inr (n\<lparr>n_truckerHGV := n_truckerHGV n + 1\<rparr>)
      | RL_TRUCKER_LGV \<Rightarrow> Inr (n\<lparr>n_truckerLGV := n_truckerLGV n + 1\<rparr>)
      | RL_BUSDRIVER \<Rightarrow> Inr (n\<lparr>n_busDrivers := n_busDrivers n + 1, n_busPassengers := n_busPassengers n + passengers p\<rparr>)
      | _ \<Rightarrow> Inl InvalidModeOnRoad))"

definition countPersons :: "(address \<Rightarrow> nat) \<Rightarrow> (address \<Rightarrow> nat) \<Rightarrow> address \<Rightarrow> world \<Rightarrow> (supply_error, person_count) result" where
  "countPersons passengers waiters c w = rbind (getConflux c w) (\<lambda>cf. rbind (onRoadPersons c w) (\<lambda>xs.
     run_list (count_person passengers (persons w))
       \<lparr>n_activityPerformers = length (activityPerformers cf), n_pedestrians = length (pedestrianList cf),
        n_trainPassengers = length (mrt cf), n_carSharers = length (stashedPersons cf),
        n_busWaiters = sum_list (map waiters (concat (map snd (upstreamSegStatsMap cf)))), n_carDrivers = 0, n_taxiDrivers = 0,
        n_motorCyclists = 0, n_truckerHGV = 0, n_truckerLGV = 0, n_busDrivers = 0, n_busPassengers = 0\<rparr> xs))"

section \<open>Nobody is lost or doubled by the merge\<close>

lemma pick_links_spec:
  assumes "\<forall>p \<in> set (concat xss). key p = Inr (kd p) \<and> kd p \<le> mx"
  shows "\<exists>picks rest k1. pick_links key mx rnd c k xss out = Inr (out @ picks @ concat rest, k1) \<and> picked kd c xss picks rest"
  using assms
proof (induction c arbitrary: k xss out)
  case 0
  then show ?case using picked_refl [of 0 xss kd] by (intro exI [of _ "[]"] exI [of _ xss]) simp
next
  case (Suc c)
  from scan_fronts_spec [of xss key kd mx "[]" 0] Suc.prems obtain eq m where
    eq: "scan_fronts key mx [] 0 xss = Inr eq" "set eq \<subseteq> fronts 0 xss" "\<forall>e \<in> set eq. kd (snd e) = m"
      "\<forall>e \<in> fronts 0 xss. m \<le> kd (snd e)" "eq = [] \<longleftrightarrow> concat xss = []" by auto
  show ?case
  proof (cases "eq = []")
    case True
    have e: "concat xss = []" using eq(5) True by simp
    then show ?thesis using eq(1) True picked_refl [of "Suc c" xss kd]
      by (intro exI [of _ "[]"] exI [of _ xss]) (simp del: concat_eq_Nil_conv)
  next
    case False
    obtain i p k1 where ip: "pick_one rnd k eq = ((i, p), k1)" by (metis surj_pair)
    then have mem: "(i, p) \<in> set eq" using pick_one_member [OF False, of rnd k] by simp
    from pick_step [OF mem eq(2,3,4)] obtain t where t: "i < length xss" "xss ! i = p # t" "\<forall>e \<in> fronts 0 xss. kd p \<le> kd (snd e)"
      "set (concat (xss[i := t])) \<subseteq> set (concat xss)" by blast
    then have "\<forall>p \<in> set (concat (xss[i := t])). key p = Inr (kd p) \<and> kd p \<le> mx" using Suc.prems by blast
    from Suc.IH [OF this, of k1 "out @ [p]"] obtain picks rest k2 where
      r: "pick_links key mx rnd c k1 (xss[i := t]) (out @ [p]) = Inr ((out @ [p]) @ picks @ concat rest, k2)"
      "picked kd c (xss[i := t]) picks rest" by blast
    have "pick_links key mx rnd (Suc c) k xss out = Inr (out @ (p # picks) @ concat rest, k2)"
      using eq(1) False ip t(1,2) r(1) by simp
    with picked_step [OF t(1,2) r(2) t(3)] show ?thesis by blast
  qed
qed

text \<open>Every value in the store is a \<open>double\<close>; the merge changes driving times only.\<close>

definition doubles :: "supply_env \<Rightarrow> people \<Rightarrow> bool" where
  "doubles env ps \<longleftrightarrow> (\<forall>p pp. ps p = Some pp \<longrightarrow> distanceToEndOfSegment pp \<le> max_double env \<and> drivingTimeToEndOfLink pp \<le> max_double env)"

definition rounds_to_doubles :: "supply_env \<Rightarrow> bool" where
  "rounds_to_doubles env \<longleftrightarrow> (\<forall>x. fl env x \<le> max_double env)"

definition same_but_times :: "people \<Rightarrow> people \<Rightarrow> bool" where
  "same_but_times ps ps1 \<longleftrightarrow> (\<forall>p. map_option (\<lambda>pp. pp\<lparr>drivingTimeToEndOfLink := 0\<rparr>) (ps1 p) = map_option (\<lambda>pp. pp\<lparr>drivingTimeToEndOfLink := 0\<rparr>) (ps p))"

lemma same_but_times_refl [simp]: "same_but_times ps ps"
  by (simp add: same_but_times_def)

lemma same_but_times_trans: "same_but_times ps ps1 \<Longrightarrow> same_but_times ps1 ps2 \<Longrightarrow> same_but_times ps ps2"
  by (simp add: same_but_times_def)

lemma same_but_times_live: "same_but_times ps ps1 \<Longrightarrow> ps p \<noteq> None \<longleftrightarrow> ps1 p \<noteq> None"
  unfolding same_but_times_def by (metis map_option_is_None)

lemma set_driving_time_ok:
  assumes "rounds_to_doubles env" "doubles env ps" "ps p \<noteq> None"
  shows "\<exists>ps1. set_driving_time env speed t ps p = Inr ps1 \<and> same_but_times ps ps1 \<and> doubles env ps1"
proof -
  from assms(3) obtain pp where pp: "ps p = Some pp" by blast
  let ?ps1 = "ps(p \<mapsto> pp\<lparr>drivingTimeToEndOfLink := fl env (fl env (distanceToEndOfSegment pp / speed) + t)\<rparr>)"
  have "set_driving_time env speed t ps p = Inr ?ps1" by (simp add: set_driving_time_def pp)
  moreover have "same_but_times ps ?ps1" by (simp add: same_but_times_def pp)
  moreover have "doubles env ?ps1" using assms(1,2) pp by (auto simp: doubles_def rounds_to_doubles_def)
  ultimately show ?thesis by blast
qed

definition all_live :: "people \<Rightarrow> segment_stats \<Rightarrow> bool" where
  "all_live ps ss \<longleftrightarrow> (\<forall>(l, ls) \<in> set (laneStatsMap ss). \<forall>p \<in> set (laneAgents ls). ps p \<noteq> None)"

lemma updateLinkDrivingTimes_ok:
  assumes "rounds_to_doubles env" "doubles env ps" "all_live ps ss" "lanes_known ss" "map_of (laneStatsMap ss) (infinityLane ss) \<noteq> None"
  shows "\<exists>ps1. updateLinkDrivingTimes env t ss ps = Inr ps1 \<and> same_but_times ps ps1 \<and> doubles env ps1"
  unfolding updateLinkDrivingTimes_def Let_def
proof (rule run_list_total)
  fix ps1 l assume l: "l \<in> set (map fst (roadLanes ss) @ [infinityLane ss])" and ok: "same_but_times ps ps1 \<and> doubles env ps1"
  from l assms(4,5) obtain ls where ls: "map_of (laneStatsMap ss) l = Some ls" by (auto simp: lanes_known_def)
  have live: "ps p \<noteq> None" if "p \<in> set (laneAgents ls)" for p
    using assms(3) map_of_SomeD [OF ls] that by (auto simp: all_live_def)
  have "\<exists>ps2. run_list (set_driving_time env (positive_speed (segVehicleSpeed ss)) t) ps1 (laneAgents ls) = Inr ps2 \<and>
      same_but_times ps ps2 \<and> doubles env ps2"
  proof (rule run_list_total)
    fix qs p assume p: "p \<in> set (laneAgents ls)" and ok: "same_but_times ps qs \<and> doubles env qs"
    with live same_but_times_live have n: "qs p \<noteq> None" by blast
    from ok have d: "doubles env qs" by simp
    from set_driving_time_ok [of env qs p, OF assms(1) d n] ok
    show "\<exists>s'. set_driving_time env (positive_speed (segVehicleSpeed ss)) t qs p = Inr s' \<and> same_but_times ps s' \<and> doubles env s'"
      using same_but_times_trans by meson
  qed (use ok in simp)
  then show "\<exists>s'. rbind (getLane Dangling l ss) (\<lambda>ls. run_list (set_driving_time env (positive_speed (segVehicleSpeed ss)) t) ps1 (laneAgents ls)) =
      Inr s' \<and> same_but_times ps s' \<and> doubles env s'"
    by (simp add: getLane_def ls)
qed (use assms(2) in simp)

text \<open>The persons of a segment: those in its lanes and the drivers at its stops.\<close>

definition seg_members :: "segment_stats \<Rightarrow> address list" where
  "seg_members ss = (case getPersons ss [] of Inr xs \<Rightarrow> xs | Inl _ \<Rightarrow> [])"

lemma seg_members_run:
  assumes "seg_run env ss"
  shows "getPersons ss out = Inr (out @ seg_members ss)"
  using segment_persons_spec [OF assms, of "[]"] segment_persons_spec [OF assms, of out] by (auto simp: seg_members_def)

lemma topCMerge_members:
  assumes "seg_run env ss" "all_live ps ss" "doubles env ps"
  shows "\<exists>xs k1. topCMergeLanesInSegment env ps rnd k ss = Inr (xs, k1) \<and> mset xs = mset (seg_members ss)"
proof -
  have stops: "\<forall>stop \<in> set (busStops ss). busDrivers ss stop \<noteq> None" using seg_run_ok [OF assms(1)] by (simp add: stops_ok_def)
  let ?ds = "concat (map (\<lambda>stop. the (busDrivers ss stop)) (rev (busStops ss)))"
  from segment_persons_spec [OF assms(1), of "[]"] obtain drivers late where
    p: "driversAtStops ss = Inr drivers" "getPersons ss [] = Inr (concat (map (\<lambda>(l, ls). laneAgents ls) (laneStatsMap ss)) @ drivers)"
      "getInfinityPersons ss [] = Inr late"
      "mset (concat (map (\<lambda>(l, ls). laneAgents ls) (laneStatsMap ss))) = mset (concat (ordinary_lanes ss)) + mset late" by auto
  have d: "drivers = ?ds" using p(1) driversAtStops_Inr [OF stops] by simp
  have ord: "\<forall>q \<in> set (concat (ordinary_lanes ss)). ps q \<noteq> None \<and> the_order ps ss q \<le> max_double env"
    using assms(2,3) by (fastforce simp: ordinary_lanes_def all_live_def the_order_def doubles_def split: vehicle_ordering.split)
  from topCMerge_spec [OF stops p(3) ord, of rnd k] obtain picks rest k1 where
    t: "topCMergeLanesInSegment env ps rnd k ss = Inr (?ds @ picks @ rest @ late, k1)" "mset (concat (ordinary_lanes ss)) = mset (picks @ rest)"
    by blast
  have "mset (?ds @ picks @ rest @ late) = mset (seg_members ss)" using p(2,4) d t(2) by (simp add: seg_members_def)
  with t(1) show ?thesis by blast
qed

definition members :: "world \<Rightarrow> address list \<Rightarrow> address multiset" where
  "members w segs = sum_list (map (\<lambda>a. case getSeg a w of Inr ss \<Rightarrow> mset (seg_members ss) | Inl _ \<Rightarrow> {#}) segs)"

lemma members_simps [simp]:
  "members w [] = {#}" "getSeg a w = Inr ss \<Longrightarrow> members w (a # segs) = mset (seg_members ss) + members w segs"
  "members w (xs @ ys) = members w xs + members w ys" "members w (rev xs) = members w xs"
  by (simp_all add: members_def flip: rev_map)

definition the_members :: "world \<Rightarrow> address \<Rightarrow> address list" where
  "the_members w a = (case getSeg a w of Inr ss \<Rightarrow> seg_members ss | Inl _ \<Rightarrow> [])"

definition retimed :: "supply_net \<Rightarrow> world \<Rightarrow> world \<Rightarrow> bool" where
  "retimed net w w1 \<longleftrightarrow> w1 = w\<lparr>persons := persons w1\<rparr> \<and> same_but_times (persons w) (persons w1) \<and> doubles (net_env net) (persons w1)"

text \<open>The segments of a conflux are there, have been run, and their persons are in the store.\<close>

definition seg_ready :: "supply_net \<Rightarrow> world \<Rightarrow> address \<Rightarrow> bool" where
  "seg_ready net w a \<longleftrightarrow> (\<exists>ss. getSeg a w = Inr ss \<and> seg_run (net_env net) ss \<and> (\<forall>p \<in> set (seg_members ss). persons w p \<noteq> None))"

lemma all_live_members:
  assumes "seg_run env ss" "\<forall>p \<in> set (seg_members ss). ps p \<noteq> None" "same_but_times ps ps1"
  shows "all_live ps1 ss"
proof -
  from segment_persons_spec [OF assms(1), of "[]"] have
    "set (concat (map (\<lambda>(l, ls). laneAgents ls) (laneStatsMap ss))) \<subseteq> set (seg_members ss)"
    by (elim exE conjE) (simp only: seg_members_def sum.case append_Nil set_append Un_upper1)
  then have "\<forall>e \<in> set (laneStatsMap ss). set (laneAgents (snd e)) \<subseteq> set (seg_members ss)" by (auto simp: case_prod_unfold)
  then show ?thesis using assms(2) same_but_times_live [OF assms(3)] by (fastforce simp: all_live_def)
qed

lemma getSeg_retimed: "retimed net w w1 \<Longrightarrow> getSeg a w1 = getSeg a w"
  by (simp add: getSeg_def) (metis retimed_def world.ext_inject world.surjective world.update_convs(3))

lemma merge_segment_ok:
  assumes "rounds_to_doubles (net_env net)" "seg_ready net w0 a" "retimed net w0 w"
  shows "\<exists>w1 k1 t1 xs. merge_segment net rnd (w, k, t, one) a = Inr (w1, k1, t1, one @ xs) \<and> retimed net w0 w1 \<and> mset xs = members w0 [a]"
proof -
  let ?env = "net_env net"
  from assms(2) obtain ss where ss: "getSeg a w0 = Inr ss" "seg_run ?env ss" "\<forall>p \<in> set (seg_members ss). persons w0 p \<noteq> None"
    by (auto simp: seg_ready_def)
  from assms(3) have r: "w = w0\<lparr>persons := persons w\<rparr>" "same_but_times (persons w0) (persons w)" "doubles ?env (persons w)"
    by (auto simp: retimed_def)
  have inf: "map_of (laneStatsMap ss) (infinityLane ss) \<noteq> None" using seg_run_ok [OF ss(2)] by (simp add: seg_ok_def map_of_eq_None_iff)
  from updateLinkDrivingTimes_ok [OF assms(1) r(3) all_live_members [OF ss(2,3) r(2)] seg_run_lanes [OF ss(2)] inf, of t]
  obtain ps1 where u: "updateLinkDrivingTimes ?env t ss (persons w) = Inr ps1" "same_but_times (persons w) ps1" "doubles ?env ps1" by blast
  have s: "same_but_times (persons w0) ps1" by (rule same_but_times_trans [OF r(2) u(2)])
  from topCMerge_members [OF ss(2) all_live_members [OF ss(2,3) s] u(3), of rnd k]
  obtain xs k1 where m: "topCMergeLanesInSegment ?env ps1 rnd k ss = Inr (xs, k1)" "mset xs = mset (seg_members ss)" by blast
  have "getSeg a w = Inr ss" using getSeg_retimed [OF assms(3)] ss(1) by simp
  then have "\<exists>t1. merge_segment net rnd (w, k, t, one) a = Inr (w\<lparr>persons := ps1\<rparr>, k1, t1, one @ xs)"
    by (simp add: merge_segment_def Let_def u(1) m(1))
  moreover have "retimed net w0 (w\<lparr>persons := ps1\<rparr>)" unfolding retimed_def using r(1) s u(3) by (cases w; cases w0) simp
  ultimately show ?thesis using m(2) ss(1) by auto
qed

lemma merge_segments_ok:
  assumes "rounds_to_doubles (net_env net)"
  shows "\<forall>a \<in> set segs. seg_ready net w0 a \<Longrightarrow> retimed net w0 w \<Longrightarrow> \<exists>w1 k1 t1 xs.
     run_list (merge_segment net rnd) (w, k, t, one) segs = Inr (w1, k1, t1, one @ xs) \<and> retimed net w0 w1 \<and> mset xs = members w0 segs"
proof (induction segs arbitrary: w k t one)
  case (Cons a segs)
  from Cons.prems(1) have a: "seg_ready net w0 a" by simp
  from merge_segment_ok [OF assms a Cons.prems(2), of rnd k t one] obtain w1 k1 t1 xs where
    s: "merge_segment net rnd (w, k, t, one) a = Inr (w1, k1, t1, one @ xs)" "retimed net w0 w1" "mset xs = members w0 [a]" by blast
  from Cons.prems(1) have "\<forall>a \<in> set segs. seg_ready net w0 a" by simp
  from Cons.IH [OF this s(2), of k1 t1 "one @ xs"] obtain w2 k2 t2 ys where
    r: "run_list (merge_segment net rnd) (w1, k1, t1, one @ xs) segs = Inr (w2, k2, t2, (one @ xs) @ ys)" "retimed net w0 w2"
      "mset ys = members w0 segs" by blast
  have "mset (xs @ ys) = members w0 (a # segs)" using s(3) r(3) members_simps(3) [of w0 "[a]" segs] by simp
  with s(1) r(1,2) show ?case by (intro exI [of _ w2] exI [of _ k2] exI [of _ t2] exI [of _ "xs @ ys"]) simp
qed simp

lemma merge_links_ok:
  assumes "rounds_to_doubles (net_env net)"
  shows "\<forall>(lnk, segs) \<in> set links. segs \<noteq> [] \<and> (\<forall>a \<in> set segs. seg_ready net w0 a) \<Longrightarrow> retimed net w0 w \<Longrightarrow> \<exists>w1 k1 cap1 yss.
     run_list (merge_link net rnd) (w, k, cap, xss) links = Inr (w1, k1, cap1, xss @ yss) \<and> retimed net w0 w1 \<and>
     mset (concat yss) = members w0 (concat (map snd links))"
proof (induction links arbitrary: w k cap xss)
  case (Cons e links)
  obtain lnk segs where e: "e = (lnk, segs)" by force
  from Cons.prems(1) e have segs: "segs \<noteq> []" "\<forall>a \<in> set (rev segs). seg_ready net w0 a" by auto
  from merge_segments_ok [OF assms segs(2) Cons.prems(2), of rnd k 0 "[]"] obtain w1 k1 t1 xs where
    s: "run_list (merge_segment net rnd) (w, k, 0, []) (rev segs) = Inr (w1, k1, t1, xs)" "retimed net w0 w1" "mset xs = members w0 segs" by auto
  have "seg_ready net w0 (last segs)" using segs by simp
  then obtain lst where "getSeg (last segs) w = Inr lst" using getSeg_retimed [OF Cons.prems(2)] by (auto simp: seg_ready_def)
  then have m: "merge_link net rnd (w, k, cap, xss) e = Inr (w1, k1, cap + \<lceil>capacity (supplyParams lst)\<rceil>, xss @ [xs])"
    using segs(1) s(1) by (simp add: merge_link_def e)
  from Cons.prems(1) have "\<forall>(lnk, segs) \<in> set links. segs \<noteq> [] \<and> (\<forall>a \<in> set segs. seg_ready net w0 a)" by simp
  from Cons.IH [OF this s(2), of k1 "cap + \<lceil>capacity (supplyParams lst)\<rceil>" "xss @ [xs]"] obtain w2 k2 cap2 yss where
    r: "run_list (merge_link net rnd) (w1, k1, cap + \<lceil>capacity (supplyParams lst)\<rceil>, xss @ [xs]) links = Inr (w2, k2, cap2, (xss @ [xs]) @ yss)"
      "retimed net w0 w2" "mset (concat yss) = members w0 (concat (map snd links))" by blast
  then show ?case using m s(3) e
    by (intro exI [of _ w2] exI [of _ k2] exI [of _ cap2] exI [of _ "xs # yss"]) simp
qed simp

lemma members_live: "\<forall>a \<in> set segs. seg_ready net w a \<Longrightarrow> p \<in># members w segs \<Longrightarrow> persons w p \<noteq> None"
proof (induction segs)
  case (Cons a segs)
  then obtain ss where ss: "getSeg a w = Inr ss" "\<forall>p \<in> set (seg_members ss). persons w p \<noteq> None" by (auto simp: seg_ready_def)
  with Cons show ?case by auto
qed simp

text \<open>C13: In every world whose segments have been run, the order in which the persons of a conflux move is found without an
  error; it has every person in the lanes and at the stops of the conflux exactly as often as there, and finding it
  changes nothing but driving times. The random choices and the rounding do not matter.\<close>

theorem conflux_merge_complete:
  assumes "getConflux c w = Inr cf" "rounds_to_doubles (net_env net)" "doubles (net_env net) (persons w)"
    "\<forall>(lnk, segs) \<in> set (upstreamSegStatsMap cf). segs \<noteq> [] \<and> (\<forall>a \<in> set segs. seg_ready net w a)"
  shows "\<exists>w1 out k1. getAllPersonsUsingTopCMerge net rnd k c w = Inr (w1, out, k1) \<and>
     mset out = members w (concat (map snd (upstreamSegStatsMap cf))) \<and>
     w1 = w\<lparr>persons := persons w1\<rparr> \<and> same_but_times (persons w) (persons w1)"
proof -
  have "retimed net w w" using assms(3) by (simp add: retimed_def)
  from merge_links_ok [OF assms(2,4) this, of rnd k 0 "[]"] obtain w1 k1 cap xss where
    m: "run_list (merge_link net rnd) (w, k, 0, []) (upstreamSegStatsMap cf) = Inr (w1, k1, cap, xss)" "retimed net w w1"
      "mset (concat xss) = members w (concat (map snd (upstreamSegStatsMap cf)))" by auto
  let ?ps = "persons w1"
  have live: "?ps p \<noteq> None" if "p \<in> set (concat xss)" for p
  proof -
    from that m(3) have "p \<in># members w (concat (map snd (upstreamSegStatsMap cf)))" by (metis set_mset_mset)
    moreover have "\<forall>a \<in> set (concat (map snd (upstreamSegStatsMap cf))). seg_ready net w a" using assms(4) by auto
    ultimately have "persons w p \<noteq> None" using members_live by blast
    then show ?thesis using m(2) same_but_times_live unfolding retimed_def by blast
  qed
  let ?kd = "\<lambda>p. case ?ps p of None \<Rightarrow> 0 | Some pp \<Rightarrow> drivingTimeToEndOfLink pp"
  have "\<forall>p \<in> set (concat xss). driving_time_of ?ps p = Inr (?kd p) \<and> ?kd p \<le> max_double (net_env net)"
  proof
    fix p assume "p \<in> set (concat xss)"
    with live obtain pp where pp: "?ps p = Some pp" by blast
    then have "drivingTimeToEndOfLink pp \<le> max_double (net_env net)" using m(2) by (auto simp: retimed_def doubles_def)
    with pp show "driving_time_of ?ps p = Inr (?kd p) \<and> ?kd p \<le> max_double (net_env net)" by (simp add: driving_time_of_def)
  qed
  from pick_links_spec [OF this, of rnd "unat (word_of_int cap :: 64 word)" k1 "[]"] obtain picks rest k2 where
    p: "topCMergeDifferentLinksInConflux (net_env net) ?ps rnd k1 xss cap = Inr (picks @ concat rest, k2)"
      "picked ?kd (unat (word_of_int cap :: 64 word)) xss picks rest" by (auto simp: topCMergeDifferentLinksInConflux_def)
  have "mset (picks @ concat rest) = members w (concat (map snd (upstreamSegStatsMap cf)))" using p(2) m(3) by (simp add: picked_def)
  moreover have "getAllPersonsUsingTopCMerge net rnd k c w = Inr (w1, picks @ concat rest, k2)"
    by (simp add: getAllPersonsUsingTopCMerge_def assms(1) m(1) p(1))
  ultimately show ?thesis using m(2) by (auto simp: retimed_def)
qed

section \<open>The list of all persons repeats the earlier segments\<close>

lemma append_segments:
  assumes "\<forall>a \<in> set segs. seg_ready net w a"
  shows "run_list (append_segment w) (allp, tmp) segs = Inr
     (allp @ concat (map (\<lambda>i. tmp @ concat (map (\<lambda>a. the_members w a) (take (Suc i) segs))) [0..<length segs]),
      tmp @ concat (map (\<lambda>a. the_members w a) segs))"
  using assms
proof (induction segs arbitrary: allp tmp)
  case (Cons a segs)
  then obtain ss where ss: "getSeg a w = Inr ss" "seg_run (net_env net) ss" by (auto simp: seg_ready_def)
  let ?t = "tmp @ seg_members ss"
  have a: "append_segment w (allp, tmp) a = Inr (allp @ ?t, ?t)" by (simp add: append_segment_def ss(1) seg_members_run [OF ss(2)])
  have m: "the_members w a = seg_members ss" by (simp add: the_members_def ss(1))
  have u: "[0..<length (a # segs)] = 0 # map Suc [0..<length segs]" by (simp add: map_Suc_upt upt_conv_Cons del: upt_Suc)
  from Cons have "\<forall>a \<in> set segs. seg_ready net w a" by simp
  from Cons.IH [OF this] a show ?case unfolding u by (simp add: m comp_def)
qed simp

text \<open>C39: The list of all persons of a conflux repeats, for every segment, the persons of all segments before it.\<close>

theorem getAllPersons_repeats:
  assumes "getConflux c w = Inr cf" "\<forall>a \<in> set (concat (map snd (upstreamSegStatsMap cf))). seg_ready net w a"
  shows "getAllPersons c w = Inr (let segs = concat (map snd (upstreamSegStatsMap cf)) in
     concat (map (\<lambda>i. concat (map (the_members w) (take (Suc i) segs))) [0..<length segs]) @
     concat (map snd (virtualQueuesMap cf)) @ activityPerformers cf @ pedestrianList cf)"
  using append_segments [OF assms(2), of "[]" "[]"]
  by (simp add: getAllPersons_def onRoadPersons_def assms(1) Let_def del: concat_eq_Nil_conv)

section \<open>Examples\<close>

text \<open>In the second example the largest \<open>double\<close> is 1000, and values above it are rounded to it; the segment is that of
  the first example.\<close>

definition fl2 :: round_fn where
  "fl2 x = (if x \<le> 1000 then x else 1000)"

lemma fl2_small [simp]: "x \<le> 1000 \<Longrightarrow> fl2 x = x"
  by (simp add: fl2_def)

definition senv2 :: supply_env where
  "senv2 = senv1\<lparr>fl := fl2, max_double := 1000\<rparr>"

definition net2 :: supply_net where
  "net2 = net1\<lparr>net_env := senv2\<rparr>"

lemma senv_fields: "fl senv2 = fl2" "supplyInterval senv2 = 1" "fl senv1 = (\<lambda>x. x)" "supplyInterval senv1 = 1" "capacity sp1 = 1"
  by (simp_all add: senv2_def senv1_def sp1_def newSupplyParams_def)

lemma initLane_same: "initLaneParams fl2 1 20 1 2 (newLaneStats 0 100 False) = initLaneParams (\<lambda>x. x) 1 20 1 2 (newLaneStats 0 100 False)"
  by (simp add: initLaneParams_def updateAcceptRate_def updateOutputCounter_def params_updateOutputCounter_def newLaneStats_def
      newLaneParams_def fdiv_def SHORT_SEGMENT_LENGTH_LIMIT_def PASSENGER_CAR_UNIT_def Let_def trunc_int_def)

lemma addLane_keeps: "addLane env j ss e = Inr ss1 \<Longrightarrow> segVehicleSpeed ss1 = segVehicleSpeed ss \<and> supplyParams ss1 = supplyParams ss \<and>
   roadLanes ss1 = roadLanes ss \<and> segLength ss1 = segLength ss"
  by (auto simp: addLane_def rbind_Inr Let_def split: prod.splits if_splits)

lemma addLanes_same:
  "segVehicleSpeed ss = 20 \<Longrightarrow> supplyParams ss = sp1 \<Longrightarrow> length (roadLanes ss) = 2 \<Longrightarrow> segLength ss = 100 \<Longrightarrow>
     run_list (addLane senv2 0) ss es = run_list (addLane senv1 0) ss es"
proof (induction es arbitrary: ss)
  case (Cons e es)
  then have "addLane senv2 0 ss e = addLane senv1 0 ss e" by (simp add: addLane_def senv_fields initLane_same)
  with Cons show ?case by (auto dest: addLane_keeps split: sum.split)
qed simp

lemma seg0_run2: "seg_run senv2 seg0"
proof (rule seg_run.made)
  show "newSegmentStats senv2 0 0 [(11, False), (12, False)] 19 100 sp1 20 = Inr seg0"
    unfolding seg0_made [symmetric] newSegmentStats_def Let_def by (subst addLanes_same) simp_all
qed simp

definition short_lanes :: "real \<Rightarrow> segment_stats \<Rightarrow> bool" where
  "short_lanes x ss \<longleftrightarrow> (\<forall>l ls. map_of (laneStatsMap ss) l = Some ls \<longrightarrow> totalLength ls \<le> x \<and> queueLength ls \<le> x)"

lemma addPerson_same:
  assumes "ps p = Some (car d q)" "totalLength ls \<le> 100" "queueLength ls \<le> 100"
  shows "addPerson fl2 ps p ls = addPerson (\<lambda>x. x) ps p ls"
  using assms by (simp add: addPerson_def the_role_def car_role_def car_vehicle_def cong: if_cong)

lemma addAgent_same:
  assumes "short_lanes x ss" "x \<le> 96" "p \<in> {1, 2, 3}"
  shows "addAgent senv2 people2 l p ss = addAgent senv1 people2 l p ss"
    "addAgent senv1 people2 l p ss = Inr ss1 \<Longrightarrow> short_lanes (x + 4) ss1"
proof -
  obtain d q where p: "people2 p = Some (car d q)" using assms(3) by auto
  show "addAgent senv2 people2 l p ss = addAgent senv1 people2 l p ss"
    using addPerson_same [of people2 p d q, OF p] assms(1,2)
    by (cases "map_of (laneStatsMap ss) l") (fastforce simp: addAgent_def getLane_def senv_fields short_lanes_def)+
  show "addAgent senv1 people2 l p ss = Inr ss1 \<Longrightarrow> short_lanes (x + 4) ss1"
    using assms(1) p by (fastforce simp: addAgent_def getLane_Inr rbind_Inr Let_def short_lanes_def putLane_def addPerson_def
        the_role_def senv_fields update_conv' car_role_def car_vehicle_def split: if_splits)
qed

lemma seg1_run2: "seg_run senv2 seg1"
proof -
  from seg1_made obtain s1 s2 where a: "addAgent senv1 people2 11 1 seg0 = Inr s1" "addAgent senv1 people2 11 2 s1 = Inr s2"
    "addAgent senv1 people2 12 3 s2 = Inr seg1" unfolding run_list_Cons_Inr by auto
  have 0: "short_lanes 0 seg0" by (simp add: short_lanes_def seg0_def seg_eval)
  have 1: "short_lanes 4 s1" using addAgent_same(2) [OF 0 _ _ a(1)] by simp
  have 2: "short_lanes 8 s2" using addAgent_same(2) [OF 1 _ _ a(2)] by simp
  have b: "addAgent senv2 people2 11 1 seg0 = Inr s1" "addAgent senv2 people2 11 2 s1 = Inr s2" "addAgent senv2 people2 12 3 s2 = Inr seg1"
    using a addAgent_same(1) [OF 0] addAgent_same(1) [OF 1] addAgent_same(1) [OF 2] by simp_all
  have "seg_run senv2 s1" by (rule seg_run.added [OF seg0_run2 _ b(1)]) simp
  then have "seg_run senv2 s2" by (rule seg_run.added [OF _ _ b(2)]) simp
  then show ?thesis by (rule seg_run.added [OF _ _ b(3)]) simp
qed

lemma seg1_members: "seg_members seg1 = [2, 1, 3]"
  by (simp add: seg_members_def getPersons_def driversAtStops_def seg1_def seg0_def seg_eval addAgent_def getLane_def
      putLane_def addPerson_def the_role_def distance_of_def insert_by_distance_def)

text \<open>Two segments of one link, the second without persons.\<close>

definition world2 :: world where
  "world2 = \<lparr>confluxes = [(50, conflux1\<lparr>upstreamSegStatsMap := [(60, [100, 101])]\<rparr>)], segments = [(100, seg1), (101, seg0)],
     persons = people2, outbox = [], activeAgents = []\<rparr>"

lemma people2_cars: "people2 p = Some pp \<Longrightarrow> drivingTimeToEndOfLink pp \<le> 100 \<and> distanceToEndOfSegment pp \<le> 100"
  by (auto simp: people2_def people1_def car_def split: if_splits)

lemma seg0_members: "seg_members seg0 = []"
  by (simp add: seg_members_def getPersons_def driversAtStops_def seg0_def seg_eval)

lemma world2_ready: "\<forall>a \<in> {100, 101}. seg_ready net2 world2 a" "getSeg 100 world2 = Inr seg1" "getSeg 101 world2 = Inr seg0"
  by (auto simp: seg_ready_def getSeg_def world2_def net2_def seg1_run2 seg0_run2 seg1_members seg0_members)

lemma conflux_merge_complete_witness:
  "\<exists>w1 out k1. getAllPersonsUsingTopCMerge net2 (\<lambda>n. n) 0 50 world2 = Inr (w1, out, k1) \<and> mset out = {#1, 2, 3#}"
proof -
  let ?cf = "conflux1\<lparr>upstreamSegStatsMap := [(60, [100, 101])]\<rparr>"
  have "getConflux 50 world2 = Inr ?cf" by (simp add: getConflux_def world2_def)
  moreover have "rounds_to_doubles (net_env net2)" by (simp add: rounds_to_doubles_def net2_def senv2_def fl2_def)
  moreover have "doubles (net_env net2) (persons world2)"
    using people2_cars by (fastforce simp: doubles_def world2_def net2_def senv2_def senv1_def)
  moreover have "\<forall>(lnk, segs) \<in> set (upstreamSegStatsMap ?cf). segs \<noteq> [] \<and> (\<forall>a \<in> set segs. seg_ready net2 world2 a)"
    using world2_ready(1) by simp
  ultimately have "\<exists>w1 out k1. getAllPersonsUsingTopCMerge net2 (\<lambda>n. n) 0 50 world2 = Inr (w1, out, k1) \<and>
     mset out = members world2 (concat (map snd (upstreamSegStatsMap ?cf))) \<and> w1 = world2\<lparr>persons := persons w1\<rparr> \<and>
     same_but_times (persons world2) (persons w1)" by (rule conflux_merge_complete)
  moreover have "members world2 (concat (map snd (upstreamSegStatsMap ?cf))) = {#1, 2, 3#}"
    using world2_ready(2,3) by (simp add: members_def seg1_members seg0_members)
  ultimately show ?thesis by auto
qed

text \<open>Everybody is listed twice.\<close>

lemma getAllPersons_repeats_witness: "getAllPersons 50 world2 = Inr [2, 1, 3, 2, 1, 3]"
proof -
  let ?cf = "conflux1\<lparr>upstreamSegStatsMap := [(60, [100, 101])]\<rparr>"
  have c: "getConflux 50 world2 = Inr ?cf" by (simp add: getConflux_def world2_def)
  have "\<forall>a \<in> set (concat (map snd (upstreamSegStatsMap ?cf))). seg_ready net2 world2 a" using world2_ready(1) by simp
  from getAllPersons_repeats [OF c this] show ?thesis
    by (simp add: Let_def the_members_def world2_ready(2,3) seg1_members seg0_members conflux1_def upt_rec)
qed

end
