(* ===== verification/Conflux_Ticks.thy ===== *)
theory Conflux_Ticks
  imports Conflux_Merge
begin

text \<open>
  The mid-term supply, part five: the tick of a conflux (\<open>medium/entities/conflux/Conflux.cpp\<close>): persons enter and are
  handed over by messages, the switch to the next item of the trip chain, the virtual queues with their bounds, and the
  permission to enter the next link. What a person does by its role and its trip chain is an argument.
\<close>

section \<open>Persons enter a conflux\<close>

definition conflux_lists :: "address \<Rightarrow> (conflux \<Rightarrow> conflux) \<Rightarrow> world \<Rightarrow> (supply_error, world) result" where
  "conflux_lists c f w = conflux_op c (\<lambda>cf. Inr (f cf)) w"

definition role_of :: "address \<Rightarrow> world \<Rightarrow> (supply_error, role_type) result" where
  "role_of p w = rbind (deref Dangling (persons w p)) (\<lambda>pp. Inr (case currRole pp of None \<Rightarrow> RL_UNKNOWN | Some r \<Rightarrow> roleType r))"

definition assignPersonToPedestrianlist :: "supply_net \<Rightarrow> address \<Rightarrow> address \<Rightarrow> world \<Rightarrow> (supply_error, world) result" where
  "assignPersonToPedestrianlist net c p w = rbind (role_of p w) (\<lambda>r.
     if r = RL_PEDESTRIAN
     then rbind (conflux_lists c (\<lambda>cf. cf\<lparr>pedestrianList := pedestrianList cf @ [p]\<rparr>) (send (ReRegister p c) w)) (\<lambda>w1.
       Inr (send (WakeUpPedestrian p (travelTime net p div baseGranMS net)) w1))
     else Inr w)"

definition assignPersonToMRT :: "supply_net \<Rightarrow> address \<Rightarrow> address \<Rightarrow> world \<Rightarrow> (supply_error, world) result" where
  "assignPersonToMRT net c p w = rbind (role_of p w) (\<lambda>r.
     if r = RL_TRAINPASSENGER
     then rbind (conflux_lists c (\<lambda>cf. cf\<lparr>mrt := mrt cf @ [p]\<rparr>) (send (ReRegister p c) w)) (\<lambda>w1.
       Inr (send (WakeUpMRT p (travelTime net p div baseGranMS net)) w1))
     else Inr w)"

definition stashPerson :: "supply_net \<Rightarrow> address \<Rightarrow> address \<Rightarrow> world \<Rightarrow> (supply_error, world) result" where
  "stashPerson net c p w = rbind (role_of p w) (\<lambda>r.
     if r = RL_CARPASSENGER \<or> r = RL_PRIVATEBUSPASSENGER
     then rbind (conflux_lists c (\<lambda>cf. if p \<in> set (stashedPersons cf) then cf else cf\<lparr>stashedPersons := stashedPersons cf @ [p]\<rparr>) w) (\<lambda>w1.
       Inr (send (WakeUpStashed p (travelTime net p div baseGranMS net)) w1))
     else Inr w)"

text \<open>The stop of the origin, or else that of the sub-trip; the twin of a stop that is the end of a line.\<close>

definition assignPersonToBusStopAgent :: "supply_net \<Rightarrow> address \<Rightarrow> world \<Rightarrow> (supply_error, world) result" where
  "assignPersonToBusStopAgent net p w = rbind (role_of p w) (\<lambda>r.
     if r = RL_WAITBUSACTIVITY
     then (let stop = (if originStop net p \<noteq> 0 then originStop net p else subTripStop net p)
           in if stop = 0 then Inr w
              else rbind (if sinkTerminus net stop
                          then (let twin = twinStop net stop
                                in if twin = 0 then Inl NullPointer else if sinkTerminus net twin then Inl StopListError else Inr twin)
                          else Inr stop) (\<lambda>stop1.
                Inr (if stopAgentOf net stop1 \<noteq> 0 then send (ArrivalAtBusStop (stopAgentOf net stop1) p) w else w)))
     else Inr w)"

definition assignPersonToStationAgent :: "supply_net \<Rightarrow> address \<Rightarrow> world \<Rightarrow> (supply_error, world) result" where
  "assignPersonToStationAgent net p w = rbind (role_of p w) (\<lambda>r.
     Inr (if r = RL_WAITTRAINACTIVITY \<and> originPlatform net p \<noteq> 0 then send (ArrivalAtPlatform (stationAgentOf net (originPlatform net p)) p) w else w))"

definition starting_roles :: "role_type list" where
  "starting_roles = [RL_DRIVER, RL_BUSDRIVER, RL_BIKER, RL_TRUCKER_LGV, RL_TAXIDRIVER, RL_TRUCKER_HGV, RL_ON_HAIL_DRIVER, RL_ON_CALL_DRIVER]"

definition start_on_lane_infinity :: "supply_net \<Rightarrow> address \<Rightarrow> world \<Rightarrow> (supply_error, world) result" where
  "start_on_lane_infinity net p w = rbind (deref Dangling (persons w p)) (\<lambda>pp. rbind (getSeg (currSegStats pp) w) (\<lambda>ss.
     rbind (person_op p (\<lambda>pp. pp\<lparr>currLane := infinityLane ss, distanceToEndOfSegment := segLength ss,
              remainingTimeThisTick := tickSeconds (net_env net)\<rparr>) w) (\<lambda>w1.
       seg_op (currSegStats pp) (addAgent (net_env net) (persons w1) (infinityLane ss) p) w1)))"

definition conflux_addAgent :: "supply_net \<Rightarrow> address \<Rightarrow> address \<Rightarrow> world \<Rightarrow> (supply_error, world) result" where
  "conflux_addAgent net c p w = rbind (getConflux c w) (\<lambda>cf.
     if isLoader cf then conflux_lists c (\<lambda>cf. cf\<lparr>loadingQueue := loadingQueue cf @ [p]\<rparr>) w
     else rbind (deref Dangling (persons w p)) (\<lambda>pp. case currRole pp of
       None \<Rightarrow> Inr (w\<lparr>persons := (persons w)(p := None)\<rparr>)
     | Some r \<Rightarrow>
        if roleType r \<in> set starting_roles then start_on_lane_infinity net p w
        else if roleType r = RL_PEDESTRIAN then assignPersonToPedestrianlist net c p w
        else if roleType r = RL_WAITBUSACTIVITY then assignPersonToBusStopAgent net p w
        else if roleType r = RL_WAITTRAINACTIVITY then assignPersonToStationAgent net p w
        else if roleType r = RL_TRAINPASSENGER then assignPersonToMRT net c p w
        else if roleType r = RL_CARPASSENGER \<or> roleType r = RL_PRIVATEBUSPASSENGER then stashPerson net c p w
        else if roleType r = RL_ACTIVITY then conflux_lists c (\<lambda>cf. cf\<lparr>activityPerformers := activityPerformers cf @ [p]\<rparr>) w
        else if roleType r = RL_PASSENGER then Inl StartsAsPassenger
        else Inr w))"

definition acceptBrokenDriver :: "address \<Rightarrow> address \<Rightarrow> world \<Rightarrow> (supply_error, world) result" where
  "acceptBrokenDriver c p w = conflux_lists c (\<lambda>cf. cf\<lparr>brokenPersons := brokenPersons cf @ [p]\<rparr>) w"

definition removeBrokenDriver :: "address \<Rightarrow> address \<Rightarrow> world \<Rightarrow> (supply_error, world) result" where
  "removeBrokenDriver c p w = conflux_lists c (\<lambda>cf. cf\<lparr>brokenPersons := remove1 p (brokenPersons cf)\<rparr>) w"

definition run_over :: "('a \<Rightarrow> world \<Rightarrow> (supply_error, world) result) \<Rightarrow> 'a list \<Rightarrow> world \<Rightarrow> (supply_error, world) result" where
  "run_over f xs w = run_list (\<lambda>w x. f x w) w xs"

definition insertIncident :: "supply_net \<Rightarrow> real \<Rightarrow> address \<Rightarrow> world \<Rightarrow> (supply_error, world) result" where
  "insertIncident net newFlowRate a w = rbind (getSeg a w) (\<lambda>ss.
     run_over (\<lambda>l. seg_op a (updateLaneParamsOf (net_env net) l newFlowRate)) (map fst (roadLanes ss)) w)"

definition removeIncident :: "supply_net \<Rightarrow> address \<Rightarrow> world \<Rightarrow> (supply_error, world) result" where
  "removeIncident net a w = rbind (getSeg a w) (\<lambda>ss.
     run_over (\<lambda>l. seg_op a (restoreLaneParams (net_env net) l)) (map fst (roadLanes ss)) w)"

section \<open>The trip chain and the messages\<close>

text \<open>What a person does by its role and its trip chain: the virtual functions of the role and of its movement facet, and
  \<open>checkTripChain\<close>, which makes the role of the next item and tells whether there is none. They are arguments; what they
  change is in the world they return.\<close>

record behaviour =
  checkTripChain :: "address \<Rightarrow> u32 \<Rightarrow> world \<Rightarrow> (supply_error, world \<times> bool) result"
  collectTravelTime :: "address \<Rightarrow> world \<Rightarrow> (supply_error, world) result"
  make_frame_tick_params :: "address \<Rightarrow> world \<Rightarrow> (supply_error, world) result"
  role_frame_init :: "address \<Rightarrow> world \<Rightarrow> (supply_error, world) result"
  role_frame_tick :: "address \<Rightarrow> world \<Rightarrow> (supply_error, world) result"
  departFromCurrentStop :: "address \<Rightarrow> world \<Rightarrow> (supply_error, world) result"
  destinationConflux :: "address \<Rightarrow> world \<Rightarrow> address"
  stopAgentsUpdate :: "address \<Rightarrow> world \<Rightarrow> (supply_error, world) result"
  findStartingConflux :: "address \<Rightarrow> u32 \<Rightarrow> world \<Rightarrow> address"

definition setStartTime :: "u32 \<Rightarrow> address \<Rightarrow> world \<Rightarrow> (supply_error, world) result" where
  "setStartTime t p w = person_op p (\<lambda>pp. pp\<lparr>startTime := t\<rparr>) w"

text \<open>The build without assertions uses the role without a check.\<close>

definition callMovementFrameInit :: "behaviour \<Rightarrow> u32 \<Rightarrow> address \<Rightarrow> world \<Rightarrow> (supply_error, world \<times> bool) result" where
  "callMovementFrameInit B now p w = rbind (deref Dangling (persons w p)) (\<lambda>pp.
     rbind (if hasContext pp then Inr w else person_op p (\<lambda>pp. pp\<lparr>hasContext := True\<rparr>) w) (\<lambda>w1.
     rbind (if currRole pp = None then rbind (checkTripChain B p now w1) (\<lambda>(w2, finished). rbind (setStartTime now p w2) (\<lambda>w3. Inr (w3, finished)))
            else Inr (w1, False)) (\<lambda>(w3, finished).
     if finished then Inr (w3, False)
     else rbind (the_role (persons w3) p) (\<lambda>_. rbind (make_frame_tick_params B p w3) (\<lambda>w4. rbind (role_frame_init B p w4) (\<lambda>w5.
          rbind (deref Dangling (persons w5 p)) (\<lambda>pp. Inr (w5, \<not> toBeRemoved pp))))))))"

text \<open>Where a person with a new role goes; the role is that of before the initialisation.\<close>

definition place_in_role :: "supply_net \<Rightarrow> behaviour \<Rightarrow> address \<Rightarrow> address \<Rightarrow> role_type \<Rightarrow> world \<Rightarrow> (supply_error, world) result" where
  "place_in_role net B c p r w =
     (if r = RL_ACTIVITY then conflux_lists c (\<lambda>cf. cf\<lparr>activityPerformers := activityPerformers cf @ [p]\<rparr>) w
      else if r = RL_WAITBUSACTIVITY then assignPersonToBusStopAgent net p w
      else if r = RL_WAITTRAINACTIVITY then assignPersonToStationAgent net p w
      else if r = RL_TRAINPASSENGER then assignPersonToMRT net c p w
      else if r = RL_CARPASSENGER \<or> r = RL_PRIVATEBUSPASSENGER then stashPerson net c p w
      else if r = RL_PEDESTRIAN then Inr (send (PedestrianTransfer (destinationConflux B p w) p) w)
      else Inr w)"

text \<open>The times and the place of an activity are not modelled; the result is whether the person is done.\<close>

definition switchTripChainItem :: "supply_net \<Rightarrow> behaviour \<Rightarrow> address \<Rightarrow> address \<Rightarrow> world \<Rightarrow> (supply_error, world \<times> bool) result" where
  "switchTripChainItem net B c p w = rbind (getConflux c w) (\<lambda>cf. rbind (deref Dangling (persons w p)) (\<lambda>pp.
     rbind (if currRole pp = None then Inr w else collectTravelTime B p w) (\<lambda>w1.
     rbind (checkTripChain B p (ms (currFrame cf)) w1) (\<lambda>(w2, finished).
     if finished then Inr (w2, True)
     else rbind (setStartTime (ms (currFrame cf)) p w2) (\<lambda>w3. rbind (deref Dangling (persons w3 p)) (\<lambda>pp3.
          rbind (if prevRole pp3 = RL_PEDESTRIAN then conflux_lists c (\<lambda>cf. cf\<lparr>pedestrianList := remove1 p (pedestrianList cf)\<rparr>) w3 else Inr w3) (\<lambda>w4.
          rbind (if itemIsActivity pp3
                 then (case currRole pp3 of None \<Rightarrow> Inl NullPointer | Some r \<Rightarrow> guard NullPointer (roleType r = RL_ACTIVITY) (Inr (send (ReRegister p c) w4)))
                 else Inr w4) (\<lambda>w5.
          rbind (callMovementFrameInit B (ms (currFrame cf)) p w5) (\<lambda>(w6, ok).
          if \<not> ok then Inr (w6, True)
          else rbind (person_op p (\<lambda>pp. pp\<lparr>initialized := True\<rparr>) w6) (\<lambda>w7.
               case currRole pp3 of None \<Rightarrow> Inr (w7, False)
               | Some r \<Rightarrow> rbind (place_in_role net B c p (roleType r) w7) (\<lambda>w8. Inr (w8, False))))))))))))"

text \<open>The messages; the incident message has the statistics of the affected segment, which the conflux looks up.\<close>

datatype conflux_message = MSG_PERSON_TRANSFER address address address | MSG_PEDESTRIAN_TRANSFER_REQUEST address
  | MSG_TRAVELER_TRANSFER address | MSG_INSERT_INCIDENT "address list" real | MSG_WAKEUP_MRT_PAX address
  | MSG_WAKEUP_STASHED_PERSON address | MSG_WAKEUP_PEDESTRIAN address | MSG_PERSON_LOAD address
  | PASSENGER_LEAVE_FRM_PLATFORM address | MSG_WAKEUP_SHIFT_END address

definition wake_up :: "supply_net \<Rightarrow> behaviour \<Rightarrow> address \<Rightarrow> (conflux \<Rightarrow> address list) \<Rightarrow> (address list \<Rightarrow> conflux \<Rightarrow> conflux) \<Rightarrow> address \<Rightarrow> world \<Rightarrow>
    (supply_error, world) result" where
  "wake_up net B c list upd p w = rbind (getConflux c w) (\<lambda>cf. guard PersonNotInLane (p \<in> set (list cf))
     (rbind (conflux_lists c (\<lambda>cf. upd (remove1 p (list cf)) cf) w) (\<lambda>w1. rbind (switchTripChainItem net B c p w1) (\<lambda>(w2, finished).
       Inr (if finished then w2\<lparr>persons := (persons w2)(p := None)\<rparr> else w2)))))"

definition conflux_HandleMessage :: "supply_net \<Rightarrow> behaviour \<Rightarrow> address \<Rightarrow> conflux_message \<Rightarrow> world \<Rightarrow> (supply_error, world) result" where
  "conflux_HandleMessage net B c msg w = (case msg of
     MSG_PERSON_TRANSFER p s l \<Rightarrow> seg_op s (addAgent (net_env net) (persons w) l p) w
   | MSG_PEDESTRIAN_TRANSFER_REQUEST p \<Rightarrow> assignPersonToPedestrianlist net c p w
   | MSG_TRAVELER_TRANSFER p \<Rightarrow> conflux_lists c (\<lambda>cf. cf\<lparr>travelingPersons := travelingPersons cf @ [p]\<rparr>) w
   | MSG_INSERT_INCIDENT stats rate \<Rightarrow> run_over (insertIncident net rate) stats w
   | MSG_WAKEUP_MRT_PAX p \<Rightarrow> wake_up net B c mrt (\<lambda>xs cf. cf\<lparr>mrt := xs\<rparr>) p w
   | MSG_WAKEUP_STASHED_PERSON p \<Rightarrow> wake_up net B c stashedPersons (\<lambda>xs cf. cf\<lparr>stashedPersons := xs\<rparr>) p w
   | MSG_WAKEUP_PEDESTRIAN p \<Rightarrow> wake_up net B c pedestrianList (\<lambda>xs cf. cf\<lparr>pedestrianList := xs\<rparr>) p w
   | MSG_PERSON_LOAD p \<Rightarrow> conflux_addAgent net c p w
   | PASSENGER_LEAVE_FRM_PLATFORM p \<Rightarrow> rbind (switchTripChainItem net B c p w) (\<lambda>(w1, _).
       rbind (deref Dangling (persons w1 p)) (\<lambda>pp. if toBeRemoved pp then Inr w1
       else rbind (the_role (persons w1) p) (\<lambda>r. if roleType r = RL_DRIVER then start_on_lane_infinity net p w1 else Inr w1)))
   | MSG_WAKEUP_SHIFT_END p \<Rightarrow> Inr (send (ShiftEnd p) w))"

section \<open>Virtual queues\<close>

definition segs_of :: "conflux \<Rightarrow> address list" where
  "segs_of cf = concat (map snd (upstreamSegStatsMap cf))"

text \<open>The bound is the expected output of the first segment of the link, converted from \<open>int\<close> to \<open>unsigned int\<close>. The number of
  persons in the queues is returned.\<close>

definition resetOutputBounds :: "supply_net \<Rightarrow> round_fn \<Rightarrow> address \<Rightarrow> world \<Rightarrow> (supply_error, world \<times> nat) result" where
  "resetOutputBounds net single c w = rbind (getConflux c w) (\<lambda>cf.
     rbind (run_list (\<lambda>b (lnk, q). rbind (deref VirtualQueueNotFound (map_of (upstreamSegStatsMap cf) lnk)) (\<lambda>ss.
              rbind (if ss = [] then Inl Dangling else getSeg (hd ss) w) (\<lambda>st.
              Inr (case b of (bounds, n) \<Rightarrow> (bounds(lnk \<mapsto> of_int (computeExpectedOutputPerTick (net_env net) single st)), n + length q)))))
            (Map.empty, 0) (virtualQueuesMap cf)) (\<lambda>(bounds, n).
     rbind (conflux_lists c (\<lambda>cf. cf\<lparr>vqBounds := bounds, evadeVQ_Bounds := False\<rparr>) w) (\<lambda>w1. Inr (w1, n))))"

definition hasSpaceInVirtualQueue :: "address \<Rightarrow> address \<Rightarrow> i16 \<Rightarrow> world \<Rightarrow> (supply_error, world \<times> bool) result" where
  "hasSpaceInVirtualQueue c lnk stuck w =
     (let evade = sint stuck \<ge> 24
      in rbind (conflux_lists c (\<lambda>cf. cf\<lparr>evadeVQ_Bounds := evade\<rparr>) w) (\<lambda>w1. rbind (getConflux c w1) (\<lambda>cf.
         if evade then Inr (w1, True)
         else rbind (deref VirtualQueueNotFound (vqBounds cf lnk)) (\<lambda>b.
              rbind (deref VirtualQueueNotFound (map_of (virtualQueuesMap cf) lnk)) (\<lambda>q. Inr (w1, unat b > length q))))))"

text \<open>The request of a driver at the end of a link, from the loop of \<open>callMovementFrameTick\<close>: the new world and whether the
  loop breaks.\<close>

definition request_next_link :: "supply_net \<Rightarrow> u32 \<Rightarrow> address \<Rightarrow> world \<Rightarrow> (supply_error, world \<times> bool) result" where
  "request_next_link net now p w = rbind (deref Dangling (persons w p)) (\<lambda>pp.
     if requestedNextSegStats pp = 0 then Inr (w, False)
     else let nxt = requestedNextSegStats pp; nc = parentConflux net nxt
       in rbind (person_op p (\<lambda>pp. pp\<lparr>canMoveToNextSegment := GRANTED\<rparr>) w) (\<lambda>w1.
          rbind (getSeg (currSegStats pp) w1) (\<lambda>ss. rbind (getLane LaneNotFound (currLane pp) ss) (\<lambda>ls.
          rbind (getConflux nc w1) (\<lambda>ncf.
          let decrement = seg_op (currSegStats pp) (\<lambda>ss. rbind (decrementOutputCounter (laneParams ls)) (\<lambda>lp.
                Inr (putLane (currLane pp) (ls\<lparr>laneParams := lp\<rparr>) ss)))
          in if uint now > lastUpdatedFrameOf ncf
          then rbind (hasSpaceInVirtualQueue nc (parentLink net nxt) (numTicksStuck pp) w1) (\<lambda>(w2, space).
               if space \<and> outputCounter (laneParams ls) > 0
               then rbind (decrement w2) (\<lambda>w3. rbind (person_op p (\<lambda>pp. pp\<lparr>currSegStats := nxt, lastReqSegStats := nxt, currLane := 0,
                      requestedNextSegStats := 0\<rparr>) w3) (\<lambda>w4. Inr (w4, True)))
               else rbind (person_op p (\<lambda>pp. pp\<lparr>canMoveToNextSegment := DENIED, requestedNextSegStats := 0\<rparr>) w2) (\<lambda>w3. Inr (w3, False)))
          else if uint now = lastUpdatedFrameOf ncf
          then rbind (if outputCounter (laneParams ls) > 0 then decrement w1
                      else person_op p (\<lambda>pp. pp\<lparr>canMoveToNextSegment := DENIED\<rparr>) w1) (\<lambda>w2.
               rbind (person_op p (\<lambda>pp. pp\<lparr>requestedNextSegStats := 0\<rparr>) w2) (\<lambda>w3. Inr (w3, False)))
          else Inl FramesMiscounted)))))"

end
