(* ===== verification/Conflux_Updates.thy ===== *)
theory Conflux_Updates
  imports Conflux_Ticks Std_Permutations
begin

text \<open>
  The mid-term supply: the update of a conflux (\<open>medium/entities/conflux/Conflux.cpp\<close>). A person moves in rounds until its
  time in the tick is used up (\<open>callMovementFrameTick\<close>); the loop need not end, so that its model is a partial function.
  Then the person is put in its place or killed (\<open>updateAgent\<close>, \<open>killAgent\<close>). A conflux updates its persons, then its
  virtual queues, then its statistics, in three calls of \<open>update\<close> in a tick.
\<close>

section \<open>The movement of a person\<close>

text \<open>One round of the loop: the movement, the switch of the trip chain item, the request for the next link. The loop keeps
  the role that the person had when it began (\<open>cr\<close>, its type) and looks it up again only after a switch of the trip chain item;
  \<open>role_frame_tick\<close> is the movement of that role. A movement is taken not to replace the role of its person, whose vehicle is
  read when the round stops.\<close>

datatype round_end = Again | Stopped | Finished

definition captured :: "address \<Rightarrow> world \<Rightarrow> (supply_error, role_type option) result" where
  "captured p w = rbind (deref Dangling (persons w p)) (\<lambda>pp. Inr (map_option roleType (currRole pp)))"

definition frame_round :: "supply_net \<Rightarrow> behaviour \<Rightarrow> u32 \<Rightarrow> address \<Rightarrow> address \<Rightarrow> role_type option \<Rightarrow> world \<Rightarrow>
    (supply_error, world \<times> round_end \<times> role_type option) result" where
  "frame_round net B now c p cr w = rbind (deref Dangling (persons w p)) (\<lambda>pp.
     rbind (if toBeRemoved pp then Inr w
            else rbind (deref NullPointer cr) (\<lambda>rt. rbind (role_frame_tick B p w) (\<lambda>w1.
                 if rt = RL_ACTIVITY then person_op p (\<lambda>pp. pp\<lparr>remainingTimeThisTick := 0\<rparr>) w1 else Inr w1))) (\<lambda>w1.
     rbind (deref Dangling (persons w1 p)) (\<lambda>pp1.
     rbind (if toBeRemoved pp1 then switchTripChainItem net B c p w1 else Inr (w1, False)) (\<lambda>(w2, finished).
     if finished then Inr (w2, Finished, cr)
     else rbind (if toBeRemoved pp1 then captured p w2 else Inr cr) (\<lambda>cr1.
          rbind (request_next_link net now p w2) (\<lambda>(w3, stop).
          if \<not> stop then Inr (w3, Again, cr1)
          else rbind (deref NullPointer cr1) (\<lambda>rt. rbind (the_role (persons w3) p) (\<lambda>r. rbind (deref NullPointer (currResource r)) (\<lambda>v.
               if \<not> moving v \<and> rt = RL_BUSDRIVER then rbind (departFromCurrentStop B p w3) (\<lambda>w4. Inr (w4, Stopped, cr1))
               else Inr (w3, Stopped, cr1))))))))))"

type_synonym 'a outcome_of = "(supply_error, 'a) result option"

definition obind :: "'a outcome_of \<Rightarrow> ('a \<Rightarrow> 'b outcome_of) \<Rightarrow> 'b outcome_of" where
  "obind m f = (case m of None \<Rightarrow> None | Some (Inl e) \<Rightarrow> Some (Inl e) | Some (Inr x) \<Rightarrow> f x)"

partial_function (option) frame_loop :: "supply_net \<Rightarrow> behaviour \<Rightarrow> u32 \<Rightarrow> address \<Rightarrow> address \<Rightarrow> role_type option \<Rightarrow> world \<Rightarrow>
    (world \<times> bool) outcome_of" where
  "frame_loop net B now c p cr w = (case persons w p of
     None \<Rightarrow> Some (Inl Dangling)
   | Some pp \<Rightarrow>
      if remainingTimeThisTick pp > 0
      then (case frame_round net B now c p cr w of
              Inl e \<Rightarrow> Some (Inl e)
            | Inr (w1, r, cr1) \<Rightarrow> (if r = Again then frame_loop net B now c p cr1 w1 else Some (Inr (w1, r = Finished))))
      else Some (Inr (w, False)))"

definition start_tick :: "behaviour \<Rightarrow> address \<Rightarrow> address \<Rightarrow> world \<Rightarrow> (supply_error, conflux \<times> world) result" where
  "start_tick B c p w = rbind (getConflux c w) (\<lambda>cf. rbind (deref Dangling (persons w p)) (\<lambda>pp.
     rbind (if resetParamsRequired pp
            then rbind (the_role (persons w) p) (\<lambda>_. rbind (make_frame_tick_params B p w) (person_op p (\<lambda>pp. pp\<lparr>resetParamsRequired := False\<rparr>)))
            else Inr w) (\<lambda>w1.
     rbind (person_op p (\<lambda>pp. pp\<lparr>lastUpdatedFrame := uint (frame (currFrame cf))\<rparr>) w1) (\<lambda>w2. Inr (cf, w2)))))"

definition callMovementFrameTick :: "supply_net \<Rightarrow> behaviour \<Rightarrow> address \<Rightarrow> address \<Rightarrow> world \<Rightarrow> (world \<times> bool) outcome_of" where
  "callMovementFrameTick net B c p w = obind (Some (captured p w)) (\<lambda>cr.
     obind (Some (start_tick B c p w)) (\<lambda>(cf, w2). frame_loop net B (frame (currFrame cf)) c p cr w2))"

definition init_once :: "behaviour \<Rightarrow> address \<Rightarrow> address \<Rightarrow> world \<Rightarrow> (supply_error, world \<times> bool) result" where
  "init_once B c p w = rbind (getConflux c w) (\<lambda>cf. rbind (deref Dangling (persons w p)) (\<lambda>pp.
     if initialized pp then Inr (w, True)
     else rbind (callMovementFrameInit B (ms (currFrame cf)) p w) (\<lambda>(w1, ok).
          if \<not> ok then Inr (w1, False)
          else rbind (person_op p (\<lambda>pp. pp\<lparr>initialized := True\<rparr>) w1) (\<lambda>w2. Inr (w2, True)))))"

definition after_tick :: "address \<Rightarrow> world \<Rightarrow> bool \<Rightarrow> (supply_error, world \<times> bool) result" where
  "after_tick p w finished = (if finished then Inr (w, True)
     else rbind (deref Dangling (persons w p)) (\<lambda>pp.
          rbind (if remainingTimeThisTick pp \<le> 0 then person_op p (\<lambda>pp. pp\<lparr>resetParamsRequired := True\<rparr>) w else Inr w) (\<lambda>w1.
          Inr (w1, False))))"

definition movePerson :: "supply_net \<Rightarrow> behaviour \<Rightarrow> address \<Rightarrow> address \<Rightarrow> world \<Rightarrow> (world \<times> bool) outcome_of" where
  "movePerson net B c p w = obind (Some (init_once B c p w)) (\<lambda>(w1, ok).
     if \<not> ok then Some (Inr (w1, True))
     else obind (callMovementFrameTick net B c p w1) (\<lambda>(w2, finished). Some (after_tick p w2 finished)))"

section \<open>The end of a person\<close>

definition remove_from_lane :: "supply_net \<Rightarrow> bool \<Rightarrow> person_props \<Rightarrow> address \<Rightarrow> world \<Rightarrow> (supply_error, world) result" where
  "remove_from_lane net must before p w =
     (if pr_lane before = 0 then Inr w
      else rbind (getSeg (pr_segStats before) w) (\<lambda>ss.
           rbind (removeAgent (net_env net) (pr_lane before) p (pr_isQueuing before) (pr_vehicleLength before) ss) (\<lambda>(ss1, removed).
           guard PersonToKillNotFound (removed \<or> \<not> must) (Inr (w\<lparr>segments := AList.update (pr_segStats before) ss1 (segments w)\<rparr>)))))"

text \<open>The person leaves the list of its role: it must be in its lane if it drives, or if it has been moving.\<close>

definition leave_place :: "supply_net \<Rightarrow> address \<Rightarrow> person_props \<Rightarrow> address \<Rightarrow> world \<Rightarrow> (supply_error, world) result" where
  "leave_place net c before p w = (let r = pr_roleType before in
     if r = RL_ACTIVITY then conflux_lists c (\<lambda>cf. cf\<lparr>activityPerformers := remove1 p (activityPerformers cf)\<rparr>) w
     else if r = RL_PEDESTRIAN then conflux_lists c (\<lambda>cf. cf\<lparr>pedestrianList := remove1 p (pedestrianList cf)\<rparr>) w
     else if r \<in> {RL_PASSENGER, RL_CARPASSENGER, RL_PRIVATEBUSPASSENGER}
     then conflux_lists c (\<lambda>cf. cf\<lparr>stashedPersons := remove1 p (stashedPersons cf)\<rparr>) w
     else if r = RL_TRAINPASSENGER then conflux_lists c (\<lambda>cf. cf\<lparr>mrt := remove1 p (mrt cf)\<rparr>) w
     else if r \<in> {RL_DRIVER, RL_BIKER, RL_TAXIDRIVER, RL_TRUCKER_LGV, RL_TRUCKER_HGV} then remove_from_lane net True before p w
     else if r \<in> {RL_ON_HAIL_DRIVER, RL_ON_CALL_DRIVER} then remove_from_lane net (pr_isMoving before) before p w
     else if r = RL_BUSDRIVER then remove_from_lane net (pr_isMoving before) before p
       (if parentEntityOf net p \<noteq> 0 then send (LeavesController (parentEntityOf net p) p) w else w)
     else if r = RL_WAITBUSACTIVITY
     then rbind (captured p w) (\<lambda>cr. Inr (if cr = Some RL_WAITBUSACTIVITY then send (LeavesBusStop p) w else w))
     else Inl PersonToKillNotFound)"

text \<open>The role is used without a check.\<close>

definition killAgent :: "supply_net \<Rightarrow> address \<Rightarrow> person_props \<Rightarrow> address \<Rightarrow> world \<Rightarrow> (supply_error, world) result" where
  "killAgent net c before p w = rbind (leave_place net c before p w) (\<lambda>w1.
     rbind (the_role (persons w1) p) (\<lambda>r. rbind (deref Dangling (persons w1 p)) (\<lambda>pp.
     let w2 = (if roleType r = RL_ON_CALL_DRIVER \<and> sureToBeDeleted pp then send (ReRegister p c) w1 else w1);
         w3 = send (UnRegister p) w2
     in Inr (w3\<lparr>activeAgents := remove1 p (activeAgents w3), persons := (persons w3)(p := None)\<rparr>))))"

section \<open>The update of a person\<close>

text \<open>At the start of an update the time of the person may be set to the full tick, and its properties are captured.\<close>

definition begin_update :: "supply_net \<Rightarrow> real \<Rightarrow> address \<Rightarrow> address \<Rightarrow> world \<Rightarrow> (supply_error, world \<times> person_props) result" where
  "begin_update net junk c p w = rbind (getConflux c w) (\<lambda>cf. rbind (deref Dangling (persons w p)) (\<lambda>pp.
     rbind (if lastUpdatedFrame pp < uint (frame (currFrame cf))
            then person_op p (\<lambda>pp. pp\<lparr>remainingTimeThisTick := tickSeconds (net_env net)\<rparr>) w else Inr w) (\<lambda>w1.
     rbind (props_of net junk c p w1) (\<lambda>before. Inr (w1, before)))))"

definition updateAgent :: "supply_net \<Rightarrow> behaviour \<Rightarrow> real \<Rightarrow> address \<Rightarrow> address \<Rightarrow> world \<Rightarrow> world outcome_of" where
  "updateAgent net B junk c p w =
     obind (Some (begin_update net junk c p w)) (\<lambda>(w1, before).
     obind (movePerson net B c p w1) (\<lambda>(w2, finished).
       Some (if finished then killAgent net c before p w2
             else rbind (props_of net junk c p w2) (\<lambda>after.
                  rbind (housekeep net c before after p w2) (\<lambda>w3. Inr (updateAgentContext before after p w3))))))"

text \<open>The persons of a conflux: \<open>latestUpdatedFrameTick\<close> is set after the update, of a person who may have been killed.\<close>

definition update_and_stamp :: "supply_net \<Rightarrow> behaviour \<Rightarrow> real \<Rightarrow> address \<Rightarrow> address \<Rightarrow> world \<Rightarrow> world outcome_of" where
  "update_and_stamp net B junk c p w = obind (updateAgent net B junk c p w) (\<lambda>w1.
     Some (rbind (getConflux c w1) (\<lambda>cf. person_op p (\<lambda>pp. pp\<lparr>latestUpdatedFrameTick := of_nat (unat (frame (currFrame cf)))\<rparr>) w1)))"

fun orun :: "('a \<Rightarrow> world \<Rightarrow> world outcome_of) \<Rightarrow> 'a list \<Rightarrow> world \<Rightarrow> world outcome_of" where
  "orun f [] w = Some (Inr w)"
| "orun f (x # xs) w = obind (f x w) (orun f xs)"

definition processAgents :: "supply_net \<Rightarrow> behaviour \<Rightarrow> real \<Rightarrow> (nat \<Rightarrow> nat) \<Rightarrow> nat \<Rightarrow> address \<Rightarrow> world \<Rightarrow> world outcome_of" where
  "processAgents net B junk rnd k c w =
     obind (Some (getAllPersonsUsingTopCMerge net rnd k c w)) (\<lambda>(w1, merged, k1).
     obind (Some (getConflux c w1)) (\<lambda>cf.
     obind (orun (update_and_stamp net B junk c) (merged @ activityPerformers cf @ travelingPersons cf @ brokenPersons cf) w1) (\<lambda>w2.
       Some (stopAgentsUpdate B c w2))))"

definition processStartingAgents :: "supply_net \<Rightarrow> behaviour \<Rightarrow> real \<Rightarrow> address \<Rightarrow> world \<Rightarrow> world outcome_of" where
  "processStartingAgents net B junk c w =
     obind (Some (rbind (getConflux c w) (\<lambda>cf. run_list (\<lambda>xs a. rbind (getSeg a w) (\<lambda>ss. getInfinityPersons ss xs)) [] (segs_of cf))))
       (\<lambda>xs. orun (updateAgent net B junk c) xs w)"

section \<open>The virtual queues\<close>

definition remaining_of :: "people \<Rightarrow> address \<Rightarrow> real" where
  "remaining_of ps p = (case ps p of None \<Rightarrow> 0 | Some pp \<Rightarrow> remainingTimeThisTick pp)"

definition sortPersonsDecreasingRemTime :: "people \<Rightarrow> address list \<Rightarrow> (supply_error, address list) result" where
  "sortPersonsDecreasingRemTime ps xs =
     (if length xs > 1 then guard Dangling (\<forall>p \<in> set xs. ps p \<noteq> None) (Inr (std_sort (\<lambda>x y. remaining_of ps x > remaining_of ps y) xs))
      else Inr xs)"

definition pop_front :: "address \<Rightarrow> address \<Rightarrow> world \<Rightarrow> (supply_error, world \<times> address) result" where
  "pop_front c lnk w = rbind (getConflux c w) (\<lambda>cf. rbind (deref Dangling (map_of (virtualQueuesMap cf) lnk)) (\<lambda>q.
     if q = [] then Inl Dangling
     else rbind (conflux_lists c (\<lambda>cf. cf\<lparr>virtualQueuesMap := AList.update lnk (tl q) (virtualQueuesMap cf)\<rparr>) w) (\<lambda>w1. Inr (w1, hd q))))"

fun update_fronts :: "supply_net \<Rightarrow> behaviour \<Rightarrow> real \<Rightarrow> address \<Rightarrow> address \<Rightarrow> nat \<Rightarrow> world \<Rightarrow> world outcome_of" where
  "update_fronts net B junk c lnk 0 w = Some (Inr w)"
| "update_fronts net B junk c lnk (Suc counter) w = obind (Some (pop_front c lnk w)) (\<lambda>(w1, p).
     obind (updateAgent net B junk c p w1) (update_fronts net B junk c lnk counter))"

definition process_queue :: "supply_net \<Rightarrow> behaviour \<Rightarrow> real \<Rightarrow> address \<Rightarrow> address \<Rightarrow> world \<Rightarrow> world outcome_of" where
  "process_queue net B junk c lnk w =
     obind (Some (rbind (getConflux c w) (\<lambda>cf. rbind (deref Dangling (map_of (virtualQueuesMap cf) lnk)) (\<lambda>q.
       rbind (sortPersonsDecreasingRemTime (persons w) q) (\<lambda>q1.
       rbind (conflux_lists c (\<lambda>cf. cf\<lparr>virtualQueuesMap := AList.update lnk q1 (virtualQueuesMap cf)\<rparr>) w) (\<lambda>w1. Inr (w1, length q))))))) (\<lambda>(w1, counter).
     update_fronts net B junk c lnk counter w1)"

definition processVirtualQueues :: "supply_net \<Rightarrow> behaviour \<Rightarrow> real \<Rightarrow> address \<Rightarrow> world \<Rightarrow> world outcome_of" where
  "processVirtualQueues net B junk c w = obind (Some (getConflux c w)) (\<lambda>cf.
     orun (process_queue net B junk c) (map fst (virtualQueuesMap cf)) w)"

section \<open>The update of a conflux\<close>

definition full_time :: "supply_net \<Rightarrow> conflux \<Rightarrow> world \<Rightarrow> address \<Rightarrow> (supply_error, world) result" where
  "full_time net cf w p = rbind (deref Dangling (persons w p)) (\<lambda>pp.
     if lastUpdatedFrame pp < uint (frame (currFrame cf)) then person_op p (\<lambda>pp. pp\<lparr>remainingTimeThisTick := tickSeconds (net_env net)\<rparr>) w
     else Inr w)"

definition resetPersonRemTimes :: "supply_net \<Rightarrow> address \<Rightarrow> world \<Rightarrow> (supply_error, world) result" where
  "resetPersonRemTimes net c w = rbind (getConflux c w) (\<lambda>cf.
     rbind (run_list (\<lambda>w a. rbind (getSeg a w) (\<lambda>ss. rbind (getPersonsInLane (infinityLane ss) ss) (run_list (full_time net cf) w))) w (segs_of cf)) (\<lambda>w1.
       run_list (full_time net cf) w1 (concat (map snd (virtualQueuesMap cf)))))"

definition resetPositions :: "address \<Rightarrow> world \<Rightarrow> (supply_error, world) result" where
  "resetPositions c w = rbind (getConflux c w) (\<lambda>cf.
     run_over (\<lambda>a. seg_op a (\<lambda>ss. Inr (resetPositionOfLastUpdatedAgentOnLanes ss))) (segs_of cf) w)"

text \<open>The statistics of the segments and links. The text of the reports is not modelled; an operation on a link that throws
  or blocks does not return, which is an error here.\<close>

definition link_op :: "address \<Rightarrow> address \<Rightarrow> (link_stats \<Rightarrow> 'a outcome) \<Rightarrow> world \<Rightarrow> (supply_error, world) result" where
  "link_op c lnk f w = conflux_op c (\<lambda>cf. rbind (deref Dangling (map_of (linkStatsMap cf) lnk)) (\<lambda>ls.
     case f ls of Returned _ ls1 \<Rightarrow> Inr (cf\<lparr>linkStatsMap := AList.update lnk ls1 (linkStatsMap cf)\<rparr>) | _ \<Rightarrow> Inl LinkFailed)) w"

definition report_segment :: "supply_net \<Rightarrow> bool \<Rightarrow> world \<times> real \<Rightarrow> address \<Rightarrow> (supply_error, world \<times> real) result" where
  "report_segment net report = (\<lambda>(w, total) a. rbind (getSeg a w) (\<lambda>ss.
     rbind (if report then seg_op a (\<lambda>ss. Inr (resetSegFlow ss)) w else Inr w) (\<lambda>w1.
     rbind (seg_op a (updateLaneParams (net_env net)) w1) (\<lambda>w2.
       Inr (w2, if report then fl (net_env net) (total + getTotalVehicleLength (net_env net) ss) else total)))))"

definition updateAndReportSupplyStats :: "supply_net \<Rightarrow> round_fn \<Rightarrow> address \<Rightarrow> world \<Rightarrow> (supply_error, world) result" where
  "updateAndReportSupplyStats net single c w = rbind (getConflux c w) (\<lambda>cf.
     guard DivisionByZero (updateInterval net \<noteq> 0)
       (if frame (currFrame cf) mod updateInterval net \<noteq> 0 then Inr w
        else rbind (run_list (\<lambda>w (lnk, segs).
               rbind (run_list (report_segment net (outputEnabled net)) (w, 0) segs) (\<lambda>(w1, total).
                 if outputEnabled net
                 then rbind (link_op c lnk (computeLinkDensity (fl (net_env net)) total) w1) (link_op c lnk writeOutLinkStats)
                 else Inr w1)) w (upstreamSegStatsMap cf)) (\<lambda>w1.
             if outputEnabled net then rbind (resetOutputBounds net single c w1) (\<lambda>(w2, n). Inr w2) else Inr w1)))"

text \<open>The loader: the persons whose starting conflux is found are sent to it.\<close>

fun load_all :: "behaviour \<Rightarrow> u32 \<Rightarrow> address list \<Rightarrow> world \<Rightarrow> world" where
  "load_all B t [] w = w"
| "load_all B t (p # ps) w = load_all B t ps (if findStartingConflux B p t w \<noteq> 0 then send (LoadPerson (findStartingConflux B p t w) p) w else w)"

definition loadPersons :: "supply_net \<Rightarrow> behaviour \<Rightarrow> u32 \<Rightarrow> address \<Rightarrow> world \<Rightarrow> (supply_error, world) result" where
  "loadPersons net B granPersonTicks c w = rbind (getConflux c w) (\<lambda>cf.
     rbind (conflux_lists c (\<lambda>cf. cf\<lparr>loadingQueue := []\<rparr>) w) (\<lambda>w1.
       Inr (load_all B ((frame (currFrame cf) + granPersonTicks) * baseGranMS net) (loadingQueue cf) w1)))"

text \<open>The result is whether the tick of the conflux is complete.\<close>

definition conflux_update :: "supply_net \<Rightarrow> behaviour \<Rightarrow> real \<Rightarrow> round_fn \<Rightarrow> (nat \<Rightarrow> nat) \<Rightarrow> nat \<Rightarrow> u32 \<Rightarrow> timeslice \<Rightarrow> address \<Rightarrow> world \<Rightarrow>
    (world \<times> bool) outcome_of" where
  "conflux_update net B junk single rnd k gran now c w =
     obind (Some (getConflux c w)) (\<lambda>cf.
     if \<not> confluxInitialized cf
     then Some (rbind (conflux_lists c (\<lambda>cf. cf\<lparr>confluxInitialized := True\<rparr>) w) (\<lambda>w1. Inr (w1, False)))
     else if numUpdatesThisTick cf = 0
     then obind (Some (conflux_lists c (\<lambda>cf. cf\<lparr>currFrame := now\<rparr>) w)) (\<lambda>w1.
          if isLoader cf then Some (rbind (loadPersons net B gran c w1) (\<lambda>w2. Inr (w2, True)))
          else obind (Some (rbind (resetPositions c w1) (resetPersonRemTimes net c))) (\<lambda>w2.
               obind (processAgents net B junk rnd k c w2) (\<lambda>w3.
               Some (rbind (conflux_lists c (\<lambda>cf. cf\<lparr>lastUpdatedFrameOf := uint (frame now), numUpdatesThisTick := 1\<rparr>) w3) (\<lambda>w4.
                 Inr (w4, False))))))
     else if numUpdatesThisTick cf = 1
     then obind (processVirtualQueues net B junk c w) (\<lambda>w1.
          Some (rbind (conflux_lists c (\<lambda>cf. cf\<lparr>numUpdatesThisTick := 2\<rparr>) w1) (\<lambda>w2. Inr (w2, False))))
     else if numUpdatesThisTick cf = 2
     then Some (rbind (updateAndReportSupplyStats net single c w) (\<lambda>w1.
          rbind (conflux_lists c (\<lambda>cf. cf\<lparr>numUpdatesThisTick := 0\<rparr>) w1) (\<lambda>w2. Inr (w2, True))))
     else Some (Inl UpdatesMiscounted))"

section \<open>Moving a person does not touch the road\<close>

text \<open>The persons in the lanes and virtual queues. The movement by the role changes the person; the conflux changes the lists.\<close>

definition road_view :: "world \<Rightarrow> (address \<times> (address \<times> address list \<times> bool) list) list \<times> (address \<times> (address \<times> address list) list) list" where
  "road_view w = (map (\<lambda>(a, ss). (a, lanes_view (laneStatsMap ss))) (segments w), map (\<lambda>(c, cf). (c, virtualQueuesMap cf)) (confluxes w))"

definition quiet :: "(world \<Rightarrow> (supply_error, world) result) \<Rightarrow> bool" where
  "quiet f \<longleftrightarrow> (\<forall>w w1. f w = Inr w1 \<longrightarrow> road_view w1 = road_view w)"

definition keeps_road :: "behaviour \<Rightarrow> bool" where
  "keeps_road B \<longleftrightarrow> (\<forall>p. quiet (collectTravelTime B p) \<and> quiet (make_frame_tick_params B p) \<and> quiet (role_frame_init B p) \<and>
     quiet (role_frame_tick B p) \<and> quiet (departFromCurrentStop B p) \<and>
     (\<forall>t w w1 fin. checkTripChain B p t w = Inr (w1, fin) \<longrightarrow> road_view w1 = road_view w))"

lemma on_road_view: "road_view w1 = road_view w \<Longrightarrow> on_road w1 = on_road w"
proof -
  let ?f = "\<lambda>v. sum_list (map (\<lambda>(a, lanes). sum_list (map (\<lambda>(l, xs, i). mset xs) lanes)) (fst v)) +
     sum_list (map (\<lambda>(c, qs). sum_list (map (\<lambda>(l, q). mset q) qs)) (snd v))"
  have "on_road w = ?f (road_view w)" for w
    by (simp add: on_road_def road_view_def lane_persons_def queue_persons_def lanes_view_def comp_def case_prod_unfold)
  then show "road_view w1 = road_view w \<Longrightarrow> on_road w1 = on_road w" by simp
qed

lemma map_update_same:
  "map_of m k = Some v \<Longrightarrow> f (k, v1) = f (k, v) \<Longrightarrow> map f (AList.update k v1 m) = map f m"
  by (induction m) auto

text \<open>An operation keeps a view of the world: what it returns contains a world with the same view. The rules follow the
  structure of the operations; what is only read stands in the premises of the rest.\<close>

definition keeps :: "(world \<Rightarrow> 'v) \<Rightarrow> ('y \<Rightarrow> world) \<Rightarrow> world \<Rightarrow> (supply_error, 'y) result \<Rightarrow> bool" where
  "keeps v g w m \<longleftrightarrow> (\<forall>y. m = Inr y \<longrightarrow> v (g y) = v w)"

abbreviation "keepsW v \<equiv> keeps v (\<lambda>w. w)"

lemma keepsD: "keeps v g w m \<Longrightarrow> m = Inr y \<Longrightarrow> v (g y) = v w"
  by (simp add: keeps_def)

lemma keeps_bind: "keepsW v w m \<Longrightarrow> (\<And>w1. m = Inr w1 \<Longrightarrow> keeps v h w1 (f w1)) \<Longrightarrow> keeps v h w (rbind m f)"
  by (auto simp: keeps_def rbind_Inr)

lemma keeps_bind_pair: "keeps v fst w m \<Longrightarrow> (\<And>w1 b. m = Inr (w1, b) \<Longrightarrow> keeps v h w1 (f w1 b)) \<Longrightarrow> keeps v h w (rbind m (\<lambda>(w1, b). f w1 b))"
  by (auto simp: keeps_def rbind_Inr)

lemma keeps_read: "(\<And>x. m = Inr x \<Longrightarrow> keeps v h w (f x)) \<Longrightarrow> keeps v h w (rbind m f)"
  by (auto simp: keeps_def rbind_Inr)

lemma keeps_Inr: "v (g y) = v w \<Longrightarrow> keeps v g w (Inr y)" "keeps v g w (Inl e)"
  by (simp_all add: keeps_def)

lemma keeps_if: "(b \<Longrightarrow> keeps v g w m) \<Longrightarrow> (\<not> b \<Longrightarrow> keeps v g w n) \<Longrightarrow> keeps v g w (if b then m else n)"
  by simp

lemma keeps_option: "(x = None \<Longrightarrow> keeps v g w m) \<Longrightarrow> (\<And>y. x = Some y \<Longrightarrow> keeps v g w (f y)) \<Longrightarrow> keeps v g w (case x of None \<Rightarrow> m | Some y \<Rightarrow> f y)"
  by (cases x) simp_all

lemma keeps_let: "(\<And>x. keeps v g w (f x)) \<Longrightarrow> keeps v g w (Let a f)"
  by simp

lemma keeps_guard: "(b \<Longrightarrow> keeps v g w m) \<Longrightarrow> keeps v g w (guard e b m)"
  by (cases b) (simp_all add: keeps_Inr)

lemmas keeps_reads = keeps_read [of "deref e x" for e x] keeps_read [of "getConflux c w" for c w] keeps_read [of "getSeg a w" for a w]
  keeps_read [of "the_role ps p" for ps p] keeps_read [of "role_of p w" for p w] keeps_read [of "captured p w" for p w] keeps_read [of "getLane e l ss" for e l ss]

lemmas keeps_rules = keeps_reads keeps_bind keeps_bind_pair keeps_if keeps_option keeps_guard keeps_Inr

lemma person_op_keeps_road: "keepsW road_view w (person_op p f w)"
  by (auto simp: keeps_def person_op_def rbind_Inr road_view_def)

lemma send_view [simp]: "road_view (send m w) = road_view w"
  by (simp add: send_def road_view_def)

lemma conflux_op_road_view:
  assumes "\<And>cf cf1. f cf = Inr cf1 \<Longrightarrow> virtualQueuesMap cf1 = virtualQueuesMap cf"
  shows "keepsW road_view w (conflux_op c f w)"
  unfolding keeps_def
proof (intro allI impI)
  fix w1 assume "conflux_op c f w = Inr w1"
  then obtain cf cf1 where c: "map_of (confluxes w) c = Some cf" "f cf = Inr cf1" "w1 = w\<lparr>confluxes := AList.update c cf1 (confluxes w)\<rparr>"
    by (auto simp: conflux_op_def getConflux_def rbind_Inr deref_Inr)
  show "road_view w1 = road_view w" using map_update_same [OF c(1), of "\<lambda>(c, cf). (c, virtualQueuesMap cf)" cf1] assms [OF c(2)]
    by (simp add: road_view_def c(3))
qed

lemma keeps_from: "v w0 = v w \<Longrightarrow> keeps v g w0 m \<Longrightarrow> keeps v g w m"
  by (simp add: keeps_def)

lemma conflux_lists_road_view:
  "road_view w0 = road_view w \<Longrightarrow> (\<And>cf. virtualQueuesMap (f cf) = virtualQueuesMap cf) \<Longrightarrow> keepsW road_view w (conflux_lists c f w0)"
  unfolding conflux_lists_def by (erule keeps_from, rule conflux_op_road_view) auto

lemma seg_op_road_view:
  assumes "\<And>ss ss1. map_of (segments w) a = Some ss \<Longrightarrow> f ss = Inr ss1 \<Longrightarrow> lanes_view (laneStatsMap ss1) = lanes_view (laneStatsMap ss)"
  shows "keepsW road_view w (seg_op a f w)"
  unfolding keeps_def
proof (intro allI impI)
  fix w1 assume "seg_op a f w = Inr w1"
  then obtain ss ss1 where c: "map_of (segments w) a = Some ss" "f ss = Inr ss1" "w1 = w\<lparr>segments := AList.update a ss1 (segments w)\<rparr>"
    by (auto simp: seg_op_def getSeg_def rbind_Inr deref_Inr)
  show "road_view w1 = road_view w" using map_update_same [OF c(1), of "\<lambda>(a, ss). (a, lanes_view (laneStatsMap ss))" ss1] assms [OF c(1,2)]
    by (simp add: road_view_def c(3))
qed

lemmas road_keeping = person_op_keeps_road conflux_lists_road_view

lemma keeps_roadD:
  assumes "keeps_road B"
  shows "keepsW road_view w (collectTravelTime B p w)" "keepsW road_view w (make_frame_tick_params B p w)"
    "keepsW road_view w (role_frame_init B p w)" "keepsW road_view w (role_frame_tick B p w)"
    "keepsW road_view w (departFromCurrentStop B p w)" "keeps road_view fst w (checkTripChain B p t w)"
  using assms unfolding keeps_road_def quiet_def keeps_def by auto

lemma assign_stop_road: "keepsW road_view w (assignPersonToBusStopAgent net p w)"
  unfolding assignPersonToBusStopAgent_def by (rule keeps_reads keeps_if keeps_let keeps_read keeps_Inr | simp)+

lemma assign_road:
  "keepsW road_view w (assignPersonToPedestrianlist net c p w)" "keepsW road_view w (assignPersonToMRT net c p w)"
  "keepsW road_view w (stashPerson net c p w)" "keepsW road_view w (assignPersonToStationAgent net p w)"
  unfolding assignPersonToPedestrianlist_def assignPersonToMRT_def stashPerson_def assignPersonToStationAgent_def Let_def
  by (rule keeps_rules conflux_lists_road_view | simp)+

lemma place_in_role_road: "keepsW road_view w (place_in_role net B c p r w)"
  unfolding place_in_role_def by (rule keeps_if assign_road assign_stop_road conflux_lists_road_view keeps_Inr | simp)+

lemma callMovementFrameInit_road: "keeps_road B \<Longrightarrow> keeps road_view fst w (callMovementFrameInit B now p w)"
  unfolding callMovementFrameInit_def setStartTime_def
  by (rule keeps_reads keeps_bind_pair keeps_bind keeps_if keeps_Inr person_op_keeps_road keeps_roadD | assumption | simp)+

lemma switchTripChainItem_road: "keeps_road B \<Longrightarrow> keeps road_view fst w (switchTripChainItem net B c p w)"
  unfolding switchTripChainItem_def setStartTime_def
  by (rule keeps_reads keeps_bind_pair keeps_bind keeps_if keeps_option keeps_guard keeps_Inr person_op_keeps_road keeps_roadD
      callMovementFrameInit_road conflux_lists_road_view place_in_role_road | assumption | simp)+

text \<open>A finer view: the road, the other persons, and of the person itself what decides where it is put.\<close>

definition driver_state :: "person \<Rightarrow> bool \<times> bool \<times> role_type option" where
  "driver_state pp = (toBeRemoved pp, initialized pp, map_option roleType (currRole pp))"

definition driver_view :: "address \<Rightarrow> world \<Rightarrow> (((address \<times> (address \<times> address list \<times> bool) list) list \<times>
    (address \<times> (address \<times> address list) list) list) \<times> people \<times> (bool \<times> bool \<times> role_type option) option)" where
  "driver_view p w = (road_view w, (persons w)(p := None), map_option driver_state (persons w p))"

lemma keeps_coarser: "keeps v g w m \<Longrightarrow> (\<And>w w1. v w1 = v w \<Longrightarrow> u w1 = u w) \<Longrightarrow> keeps u g w m"
  unfolding keeps_def by blast

lemma driver_view_road: "driver_view p w1 = driver_view p w \<Longrightarrow> road_view w1 = road_view w"
  by (simp add: driver_view_def)

lemma road_view_persons [simp]: "road_view (w\<lparr>persons := ps\<rparr>) = road_view w"
  by (simp add: road_view_def)

lemma person_op_driver:
  assumes "\<And>pp. driver_state (f pp) = driver_state pp"
  shows "keepsW (driver_view p) w (person_op p f w)"
  using assms by (auto simp: keeps_def driver_view_def person_op_def rbind_Inr deref_Inr)

lemma same_persons_driver: "persons w1 = persons w \<Longrightarrow> road_view w1 = road_view w \<Longrightarrow> driver_view p w1 = driver_view p w"
  by (simp add: driver_view_def)

lemma hasSpace_segments: "hasSpaceInVirtualQueue c lnk n w = Inr (w1, b) \<Longrightarrow> segments w1 = segments w"
  by (auto simp: hasSpaceInVirtualQueue_def Let_def rbind_Inr conflux_lists_def conflux_op_def split: if_splits)

lemma hasSpace_driver: "keeps (driver_view p) fst w (hasSpaceInVirtualQueue c lnk n w)"
proof -
  have r: "keeps road_view fst w (hasSpaceInVirtualQueue c lnk n w)"
    unfolding hasSpaceInVirtualQueue_def Let_def by (rule keeps_rules conflux_lists_road_view | simp)+
  have s: "persons w1 = persons w" if "hasSpaceInVirtualQueue c lnk n w = Inr (w1, b)" for w1 b
    using that by (auto simp: hasSpaceInVirtualQueue_def Let_def rbind_Inr conflux_lists_def conflux_op_def split: if_splits)
  show ?thesis unfolding keeps_def
  proof (intro allI impI)
    fix y assume "hasSpaceInVirtualQueue c lnk n w = Inr y"
    then show "driver_view p (fst y) = driver_view p w" using s keepsD [OF r] by (cases y) (auto intro!: same_persons_driver)
  qed
qed

lemma decrement_road:
  assumes "\<And>s. map_of (segments w) a = Some s \<Longrightarrow> map_of (laneStatsMap s) l = Some ls"
  shows "keepsW road_view w (seg_op a (\<lambda>ss. rbind (decrementOutputCounter (laneParams ls)) (\<lambda>lp. Inr (putLane l (ls\<lparr>laneParams := lp\<rparr>) ss))) w)"
proof (rule seg_op_road_view)
  fix s s1 assume s: "map_of (segments w) a = Some s"
    "rbind (decrementOutputCounter (laneParams ls)) (\<lambda>lp. Inr (putLane l (ls\<lparr>laneParams := lp\<rparr>) s)) = Inr s1"
  from s(2) obtain lp where "s1 = putLane l (ls\<lparr>laneParams := lp\<rparr>) s" by (auto simp: rbind_Inr)
  then show "lanes_view (laneStatsMap s1) = lanes_view (laneStatsMap s)"
    using map_update_same [OF assms [OF s(1)], of "\<lambda>(l, ls). (l, laneAgents ls, laneInfinity ls)" "ls\<lparr>laneParams := lp\<rparr>"]
    by (simp add: putLane_def lanes_view_def)
qed

lemma decrement_driver:
  assumes "\<And>s. map_of (segments w) a = Some s \<Longrightarrow> map_of (laneStatsMap s) l = Some ls"
  shows "keepsW (driver_view p) w (seg_op a (\<lambda>ss. rbind (decrementOutputCounter (laneParams ls)) (\<lambda>lp. Inr (putLane l (ls\<lparr>laneParams := lp\<rparr>) ss))) w)"
  using keepsD [OF decrement_road [OF assms]] by (auto simp: keeps_def seg_op_def rbind_Inr intro!: same_persons_driver)

lemma request_next_link_driver: "keeps (driver_view p) fst w (request_next_link net now p w)"
proof -
  have person: "segments w1 = segments w" if "person_op p f w = Inr w1" for f w w1
    using that by (auto simp: person_op_def rbind_Inr)
  show ?thesis
    unfolding request_next_link_def Let_def
    apply (rule keeps_reads keeps_if keeps_Inr keeps_bind [OF person_op_driver] | simp add: driver_state_def)+
    apply (rule keeps_bind_pair [OF hasSpace_driver])
    apply (rule keeps_if)
     apply (rule keeps_bind [OF decrement_driver])
    subgoal by (auto simp: getSeg_def deref_Inr getLane_Inr dest!: hasSpace_segments person)
    apply (rule keeps_if keeps_Inr keeps_bind [OF person_op_driver] | simp add: driver_state_def)+
    apply (intro conjI impI)
     apply (rule keeps_bind [OF decrement_driver])
    subgoal by (auto simp: getSeg_def deref_Inr getLane_Inr dest!: person)
    apply (rule keeps_Inr keeps_bind [OF person_op_driver] | simp add: driver_state_def)+
    done
qed

lemma request_next_link_road: "keeps road_view fst w (request_next_link net now p w)"
  by (rule keeps_coarser [OF request_next_link_driver driver_view_road])

lemma frame_round_road: "keeps_road B \<Longrightarrow> keeps road_view fst w (frame_round net B now c p cr w)"
  unfolding frame_round_def
  by (rule keeps_read [of "if b then captured p w else Inr cr" for b p w cr] keeps_reads keeps_bind_pair [OF request_next_link_road] keeps_bind_pair [OF keeps_if [OF switchTripChainItem_road keeps_Inr(1)]]
      keeps_bind keeps_if keeps_guard keeps_Inr person_op_keeps_road keeps_roadD | assumption | simp)+

text \<open>The same for operations that may not return.\<close>

definition okeeps :: "(world \<Rightarrow> 'v) \<Rightarrow> ('y \<Rightarrow> world) \<Rightarrow> world \<Rightarrow> 'y outcome_of \<Rightarrow> bool" where
  "okeeps v g w m \<longleftrightarrow> (\<forall>y. m = Some (Inr y) \<longrightarrow> v (g y) = v w)"

lemma obind_Inr: "obind m f = Some (Inr y) \<longleftrightarrow> (\<exists>x. m = Some (Inr x) \<and> f x = Some (Inr y))"
  by (auto simp: obind_def split: option.splits sum.splits)

lemma obind_simps [simp]: "obind None f = None" "obind (Some (Inl e)) f = Some (Inl e)" "obind (Some (Inr x)) f = f x"
  by (simp_all add: obind_def)

lemma okeepsD: "okeeps v g w m \<Longrightarrow> m = Some (Inr y) \<Longrightarrow> v (g y) = v w"
  by (simp add: okeeps_def)

lemma okeeps_Some: "keeps v g w m \<Longrightarrow> okeeps v g w (Some m)"
  by (simp add: okeeps_def keeps_def)

lemma okeeps_bind:
  assumes "okeeps v g w m" "\<And>x. m = Some (Inr x) \<Longrightarrow> okeeps v h (g x) (f x)"
  shows "okeeps v h w (obind m f)"
  unfolding okeeps_def obind_Inr
proof (intro allI impI, elim exE conjE)
  fix y x assume x: "m = Some (Inr x)" "f x = Some (Inr y)"
  show "v (h y) = v w" using okeepsD [OF assms(1) x(1)] okeepsD [OF assms(2) [OF x(1)] x(2)] by simp
qed

text \<open>A property of the world that the rounds keep is kept by the loop, together with the view.\<close>

lemma frame_loop_keeps:
  assumes "\<And>w cr w1 r cr1. P w \<Longrightarrow> frame_round net B now c p cr w = Inr (w1, r, cr1) \<Longrightarrow>
      v w1 = v w \<and> (r = Again \<longrightarrow> P w1) \<and> (r = Finished \<longrightarrow> ok)"
  shows "frame_loop net B now c p cr w = Some (Inr (w2, fin)) \<Longrightarrow> P w \<Longrightarrow> v w2 = v w \<and> (fin \<longrightarrow> ok)"
proof -
  define Q where "Q = (\<lambda>net' B' now' c' p' (cr' :: role_type option) w (y :: (supply_error, world \<times> bool) result). net' = net \<and> B' = B \<and> now' = now \<and>
    c' = c \<and> p' = p \<and> P w \<longrightarrow> (\<forall>w2 fin. y = Inr (w2, fin) \<longrightarrow> v w2 = v w \<and> (fin \<longrightarrow> ok)))"
  have Q: "Q net B now c p cr w y" if a: "frame_loop net B now c p cr w = Some y" for cr w y
  proof (rule frame_loop.raw_induct [of Q, OF _ a])
    fix loop net' B' now' c' p' cr' w y
    assume IH: "\<And>net B now c p cr w y. loop net B now c p cr w = Some y \<Longrightarrow> Q net B now c p cr w y"
      and step: "(case persons w p' of None \<Rightarrow> Some (Inl Dangling)
        | Some pp \<Rightarrow> if 0 < remainingTimeThisTick pp
             then case frame_round net' B' now' c' p' cr' w of Inl e \<Rightarrow> Some (Inl e)
                  | Inr (w1, r, cr1) \<Rightarrow> if r = Again then loop net' B' now' c' p' cr1 w1 else Some (Inr (w1, r = Finished))
             else Some (Inr (w, False))) = Some y"
    show "Q net' B' now' c' p' cr' w y" unfolding Q_def
    proof (intro impI allI)
      fix w2 fin assume e: "net' = net \<and> B' = B \<and> now' = now \<and> c' = c \<and> p' = p \<and> P w" and y: "y = Inr (w2, fin)"
      from step e y obtain pp where pp: "persons w p = Some pp" by (auto split: option.splits)
      show "v w2 = v w \<and> (fin \<longrightarrow> ok)"
      proof (cases "remainingTimeThisTick pp > 0")
        case False
        then show ?thesis using step e y pp by simp
      next
        case True
        with step e y pp obtain w1 r cr1 where r: "frame_round net B now c p cr' w = Inr (w1, r, cr1)"
          "(if r = Again then loop net B now c p cr1 w1 else Some (Inr (w1, r = Finished))) = Some (Inr (w2, fin))"
          by (auto split: sum.splits prod.splits)
        have k: "v w1 = v w \<and> (r = Again \<longrightarrow> P w1) \<and> (r = Finished \<longrightarrow> ok)" by (rule assms [OF _ r(1)]) (use e in simp)
        show ?thesis
        proof (cases "r = Again")
          case False
          with r(2) k show ?thesis by auto
        next
          case True
          with r(2) have "loop net B now c p cr1 w1 = Some (Inr (w2, fin))" by simp
          from IH [OF this] k True show ?thesis by (auto simp: Q_def)
        qed
      qed
    qed
  qed
  assume "frame_loop net B now c p cr w = Some (Inr (w2, fin))" "P w"
  from Q [OF this(1)] this(2) show "v w2 = v w \<and> (fin \<longrightarrow> ok)" by (simp add: Q_def)
qed

lemma frame_loop_road:
  assumes "keeps_road B"
  shows "okeeps road_view fst w (frame_loop net B now c p cr w)"
  unfolding okeeps_def
proof (intro allI impI)
  fix y assume y: "frame_loop net B now c p cr w = Some (Inr y)"
  have "road_view (fst y) = road_view w \<and> (snd y \<longrightarrow> True)"
  proof (rule frame_loop_keeps [where P = "\<lambda>_. True" and net = net and B = B and now = now and c = c and p = p])
    fix w cr w1 r cr1 assume "frame_round net B now c p cr w = Inr (w1, r, cr1)"
    from keepsD [OF frame_round_road [OF assms] this] show "road_view w1 = road_view w \<and> (r = Again \<longrightarrow> True) \<and> (r = Finished \<longrightarrow> True)" by simp
  qed (use y in simp_all)
  then show "road_view (fst y) = road_view w" by simp
qed

lemma okeeps_bind_pair:
  "okeeps v fst w m \<Longrightarrow> (\<And>w1 b. m = Some (Inr (w1, b)) \<Longrightarrow> okeeps v h w1 (f w1 b)) \<Longrightarrow> okeeps v h w (obind m (\<lambda>(w1, b). f w1 b))"
  by (erule okeeps_bind) auto

lemma okeeps_bind_snd:
  "okeeps v snd w m \<Longrightarrow> (\<And>a w1. m = Some (Inr (a, w1)) \<Longrightarrow> okeeps v h w1 (f a w1)) \<Longrightarrow> okeeps v h w (obind m (\<lambda>(a, w1). f a w1))"
  by (erule okeeps_bind) auto

lemma okeeps_read: "(\<And>x. m = Inr x \<Longrightarrow> okeeps v h w (f x)) \<Longrightarrow> okeeps v h w (obind (Some m) f)"
  by (auto simp: okeeps_def obind_Inr)

lemma okeeps_if: "(b \<Longrightarrow> okeeps v g w m) \<Longrightarrow> (\<not> b \<Longrightarrow> okeeps v g w n) \<Longrightarrow> okeeps v g w (if b then m else n)"
  by simp

lemma start_tick_road: "keeps_road B \<Longrightarrow> keeps road_view snd w (start_tick B c p w)"
  unfolding start_tick_def by (rule keeps_reads keeps_bind keeps_if keeps_Inr person_op_keeps_road keeps_roadD | assumption | simp)+

lemma init_once_road: "keeps_road B \<Longrightarrow> keeps road_view fst w (init_once B c p w)"
  unfolding init_once_def
  by (rule keeps_reads keeps_bind_pair [OF callMovementFrameInit_road] keeps_bind keeps_if keeps_Inr person_op_keeps_road | assumption | simp)+

lemma after_tick_road: "keeps road_view fst w (after_tick p w finished)"
  unfolding after_tick_def by (rule keeps_reads keeps_bind keeps_if keeps_Inr person_op_keeps_road | simp)+

lemma movePerson_road: "keeps_road B \<Longrightarrow> okeeps road_view fst w (movePerson net B c p w)"
  unfolding movePerson_def callMovementFrameTick_def
  by (rule okeeps_bind_pair [OF okeeps_Some [OF init_once_road]] okeeps_read [of "captured p w" for p w] okeeps_bind_snd [OF okeeps_Some [OF start_tick_road]] okeeps_if
      okeeps_bind_pair okeeps_Some after_tick_road frame_loop_road keeps_Inr | assumption | simp)+

section \<open>Nobody is lost by an update\<close>

lemma removeAgent_road:
  assumes "removeAgent env l p q len ss = Inr (ss1, removed)"
  shows "if removed then lane_persons ss = add_mset p (lane_persons ss1) else lane_persons ss1 = lane_persons ss"
proof -
  from assms obtain ls ls1 where l: "map_of (laneStatsMap ss) l = Some ls" "removePerson (fl env) p q len ls = Inr (ls1, removed)"
    "lane_persons ss1 = lane_persons (putLane l ls1 ss)"
    by (auto simp: removeAgent_def rbind_Inr getLane_Inr lane_persons_def Let_def split: if_splits)
  have "if removed then mset (laneAgents ls) = add_mset p (mset (laneAgents ls1)) else laneAgents ls1 = laneAgents ls"
    using l(2) by (auto simp: removePerson_def guard_Inr Let_def split: if_splits)
  with putLane_road [OF l(1), of ls1] l(3) show ?thesis by (auto split: if_splits)
qed

lemma remove_from_lane_road:
  assumes "remove_from_lane net must before p w = Inr w1"
  shows "if pr_lane before \<noteq> 0 \<and> must then balanced p (- 1) w w1 else balanced p (- 1) w w1 \<or> balanced p 0 w w1"
proof (cases "pr_lane before = 0")
  case True
  then show ?thesis using assms by (simp add: remove_from_lane_def balanced_same)
next
  case False
  from assms False obtain ss ss1 removed where s: "map_of (segments w) (pr_segStats before) = Some ss"
    "removeAgent (net_env net) (pr_lane before) p (pr_isQueuing before) (pr_vehicleLength before) ss = Inr (ss1, removed)"
    "must \<longrightarrow> removed" "w1 = w\<lparr>segments := AList.update (pr_segStats before) ss1 (segments w)\<rparr>"
    by (auto simp: remove_from_lane_def rbind_Inr getSeg_def deref_Inr guard_Inr)
  have "on_road w + lane_persons ss1 = on_road w1 + lane_persons ss"
    using sum_list_update [OF s(1), of lane_persons ss1] unfolding on_road_def s(4) by (simp add: ac_simps)
  then have "if removed then balanced p (- 1) w w1 else balanced p 0 w w1"
    using removeAgent_road [OF s(2)] by (auto intro!: balanced_out balanced_same split: if_splits)
  with s(3) show ?thesis by (auto split: if_splits)
qed

definition lane_drivers :: "role_type set" where
  "lane_drivers = {RL_DRIVER, RL_BIKER, RL_TAXIDRIVER, RL_TRUCKER_LGV, RL_TRUCKER_HGV}"

text \<open>Persons who are taken out of their lane when they are killed: drivers who have a lane; a bus, on-hail or on-call driver
  may have been dequeued for a stop, unless it was moving.\<close>

definition taken_out :: "person_props \<Rightarrow> bool" where
  "taken_out before \<longleftrightarrow> pr_lane before \<noteq> 0 \<and> (pr_roleType before \<in> lane_drivers \<or>
     pr_roleType before \<in> {RL_ON_HAIL_DRIVER, RL_ON_CALL_DRIVER, RL_BUSDRIVER} \<and> pr_isMoving before)"

lemma kill_balanced:
  assumes "killAgent net c before p w = Inr w1"
  shows "persons w1 p = None \<and> (if taken_out before then balanced p (- 1) w w1 else balanced p (- 1) w w1 \<or> balanced p 0 w w1)"
proof -
  from assms obtain w0 where k: "leave_place net c before p w = Inr w0" "on_road w1 = on_road w0" "persons w1 p = None"
    by (auto simp: killAgent_def rbind_Inr Let_def on_road_def send_def split: if_splits)
  have "if taken_out before then balanced p (- 1) w w0 else balanced p (- 1) w w0 \<or> balanced p 0 w w0"
  proof (cases "pr_roleType before \<in> lane_drivers")
    case True
    then have "remove_from_lane net True before p w = Inr w0" using k(1) by (auto simp: leave_place_def lane_drivers_def)
    from remove_from_lane_road [OF this] True show ?thesis by (auto simp: taken_out_def split: if_splits)
  next
    case False
    have lists: "balanced p 0 w w0" if "keepsW road_view w (leave_place net c before p w)"
      using on_road_view [OF keepsD [OF that k(1)]] by (rule balanced_same)
    show ?thesis
    proof (cases "pr_roleType before \<in> {RL_ON_HAIL_DRIVER, RL_ON_CALL_DRIVER, RL_BUSDRIVER}")
      case True
      then obtain w' where w': "remove_from_lane net (pr_isMoving before) before p w' = Inr w0" "on_road w' = on_road w"
        using k(1) by (auto simp: leave_place_def Let_def split: if_splits)
      from remove_from_lane_road [OF w'(1)] w'(2) \<open>pr_roleType before \<notin> lane_drivers\<close> show ?thesis
        by (auto simp: balanced_def taken_out_def split: if_splits)
    next
      case other: False
      have "keepsW road_view w (leave_place net c before p w)"
        using False other unfolding leave_place_def Let_def lane_drivers_def
        by (auto intro!: keeps_if keeps_Inr keeps_reads conflux_lists_road_view)
      from lists [OF this] False other show ?thesis by (auto simp: taken_out_def)
    qed
  qed
  moreover have "balanced p n w w1 = balanced p n w w0" for n by (simp add: balanced_def k(2))
  ultimately show ?thesis using k(3) by simp
qed

text \<open>What an operation on one person does not change: how often each other person is in the lanes and virtual queues.\<close>

definition others :: "address \<Rightarrow> world \<Rightarrow> address multiset" where
  "others p w = filter_mset (\<lambda>q. q \<noteq> p) (on_road w)"

lemma others_in: "on_road w1 = add_mset p (on_road w) \<Longrightarrow> others p w1 = others p w"
  by (simp add: others_def)

lemma others_same: "on_road w1 = on_road w \<Longrightarrow> \<forall>p. others p w1 = others p w"
  by (simp add: others_def)

lemma others_count: "others p w1 = others p w \<Longrightarrow> q \<noteq> p \<Longrightarrow> count (on_road w1) q = count (on_road w) q"
proof -
  assume "others p w1 = others p w" "q \<noteq> p"
  then have "count (others p w1) q = count (others p w) q" by simp
  with \<open>q \<noteq> p\<close> show ?thesis by (simp add: others_def)
qed

lemma dequeue_any:
  assumes "dequeue env p l q len ss = Inr (ss1, p1)"
  shows "lane_persons ss1 = lane_persons ss \<or> lane_persons ss = add_mset p (lane_persons ss1)"
proof (cases "p = 0 \<or> map_of (laneStatsMap ss) l = None")
  case True
  with assms show ?thesis by (auto simp: dequeue_def split: if_splits)
next
  case False
  with assms obtain ls ls1 where d: "map_of (laneStatsMap ss) l = Some ls" "lane_dequeue (fl env) p q len ls = Inr (ls1, p1)"
    "lane_persons ss1 = lane_persons (putLane l ls1 ss)"
    by (auto simp: dequeue_def rbind_Inr lane_persons_def Let_def split: if_splits)
  have "laneAgents ls1 = laneAgents ls \<or> mset (laneAgents ls) = add_mset p (mset (laneAgents ls1))"
    using d(2) by (cases "laneAgents ls") (auto simp: lane_dequeue_def guard_Inr Let_def split: if_splits)
  with putLane_road [OF d(1), of ls1] d(3) show ?thesis by auto
qed

lemma dequeue_from_others: "dequeue_from net before p w = Inr w1 \<Longrightarrow> others p w1 = others p w"
proof -
  assume "dequeue_from net before p w = Inr w1"
  from seg_op_road [OF this [unfolded dequeue_from_def]] obtain ss ss1 p1 where
    "dequeue (net_env net) p (pr_lane before) (pr_isQueuing before) (pr_vehicleLength before) ss = Inr (ss1, p1)"
    "on_road w1 + lane_persons ss = on_road w + lane_persons ss1" by (auto simp: rbind_Inr)
  with dequeue_any [OF this(1)] have "on_road w1 = on_road w \<or> on_road w = add_mset p (on_road w1)" by auto
  then show ?thesis by (auto simp: others_def)
qed

lemma conflux_remove_others:
  "conflux_op c (\<lambda>cf. Inr (cf\<lparr>activityPerformers := remove1 p (activityPerformers cf)\<rparr>)) w = Inr w1 \<Longrightarrow> others p w1 = others p w"
  "conflux_op c (\<lambda>cf. Inr (cf\<lparr>travelingPersons := remove1 p (travelingPersons cf)\<rparr>)) w = Inr w1 \<Longrightarrow> others p w1 = others p w"
  "conflux_op c (\<lambda>cf. Inr (cf\<lparr>travelingPersons := travelingPersons cf @ [p]\<rparr>)) w = Inr w1 \<Longrightarrow> others p w1 = others p w"
  by (rule spec [OF others_same], erule conflux_lists_road, simp)+

lemmas others_dests = dequeue_from_others conflux_remove_others others_in [OF add_to_road] others_in [OF to_virtual_queue_road]
  others_same [OF mark_position_road] others_same [OF mark_unless_infinity_road] others_same [OF set_updated_road(1)]
  others_same [OF set_updated_road(2)] others_same [OF queue_status_road]

lemma send_others [simp]: "others p (send m w) = others p w"
  by (simp add: others_def)

lemma place_on_road_others: "place_on_road net before after p w = Inr w1 \<Longrightarrow> others p w1 = others p w"
  unfolding place_on_road_def by (auto simp: rbind_Inr split: if_splits dest!: others_dests)

lemma role_change_others: "leave_role net c before p w = Inr w1 \<Longrightarrow> others p w1 = others p w"
  "enter_role net c after p w = Inr w1 \<Longrightarrow> others p w1 = others p w"
  unfolding leave_role_def enter_role_def by (auto simp: rbind_Inr split: if_splits dest!: others_dests)

lemma keep_role_others: "keep_role net c before after p w = Inr (Some w1) \<Longrightarrow> others p w1 = others p w"
  unfolding keep_role_def by (auto simp: rbind_Inr split: if_splits dest!: others_dests)

lemma housekeep_others:
  assumes "housekeep net c before after p w = Inr w1"
  shows "others p w1 = others p w"
proof (cases "pr_roleType before = pr_roleType after")
  case False
  with assms show ?thesis by (auto simp: housekeep_def handleRoleChange_def rbind_Inr dest!: role_change_others)
next
  case True
  with assms show ?thesis
    by (auto simp: housekeep_def handleRoleChange_def rbind_Inr split: option.splits if_splits
        dest!: keep_role_others place_on_road_others others_dests)
qed

text \<open>C19: An update of a person, movement included, loses and doubles nobody else: every other person is in the lanes and
  virtual queues as often as before, whatever happens. A person whose trip chain has ended is deleted and taken out of its
  lane, if it drives in one (a bus, on-hail or on-call driver if it was moving); it is never there more often than
  before. The number of a person who goes on changes as the change of its role, lane and movement tells, if it had no lane or
  is in front of its lane or stays in it; a person who is not in front and leaves is not dequeued by the code and is doubled.
  Before it moves its time may be set to the full tick. The movement by the roles may change everything but the lists of the
  lanes and of the virtual queues.\<close>

theorem update_conserves_persons:
  assumes "keeps_road B" "updateAgent net B junk c p w = Some (Inr w1)" "p \<noteq> 0"
  shows "\<exists>w0 before w2 fin. begin_update net junk c p w = Inr (w0, before) \<and>
     movePerson net B c p w0 = Some (Inr (w2, fin)) \<and> on_road w2 = on_road w \<and>
     (\<forall>q. q \<noteq> p \<longrightarrow> count (on_road w1) q = count (on_road w) q) \<and>
     (if fin then persons w1 p = None \<and>
          (count (on_road w1) p + 1 = count (on_road w) p \<or> \<not> taken_out before \<and> count (on_road w1) p = count (on_road w) p)
      else \<exists>after. props_of net junk c p w2 = Inr after \<and>
          (pr_lane before = 0 \<or> can_leave before p w2 \<or> stays before after w2 \<longrightarrow>
           int (count (on_road w1) p) = int (count (on_road w) p) + road_change c before after))"
proof -
  from assms(2) obtain w0 before w2 fin where m: "begin_update net junk c p w = Inr (w0, before)"
    "movePerson net B c p w0 = Some (Inr (w2, fin))"
    "(if fin then killAgent net c before p w2 else rbind (props_of net junk c p w2) (\<lambda>after.
        rbind (housekeep net c before after p w2) (\<lambda>w3. Inr (updateAgentContext before after p w3)))) = Inr w1"
    unfolding updateAgent_def by (auto simp: obind_Inr)
  have v: "road_view w0 = road_view w"
    using m(1) by (auto simp: begin_update_def rbind_Inr split: if_splits dest!: keepsD [OF person_op_keeps_road])
  have r: "on_road w2 = on_road w"
    using okeepsD [OF movePerson_road [OF assms(1)] m(2)] v by (intro on_road_view) simp
  show ?thesis
  proof (cases fin)
    case True
    with m(3) have "killAgent net c before p w2 = Inr w1" by simp
    from kill_balanced [OF this] have k: "persons w1 p = None" "if taken_out before then balanced p (- 1) w2 w1
      else balanced p (- 1) w2 w1 \<or> balanced p 0 w2 w1" by auto
    have "\<forall>q. q \<noteq> p \<longrightarrow> count (on_road w1) q = count (on_road w) q"
      using k(2) r by (auto simp: balanced_def split: if_splits)
    moreover have "count (on_road w1) p + 1 = count (on_road w) p \<or> \<not> taken_out before \<and> count (on_road w1) p = count (on_road w) p"
      using k(2) r by (fastforce simp: balanced_def split: if_splits)
    ultimately show ?thesis using m(1,2) r True k(1) by (intro exI [of _ w0] exI [of _ before] exI [of _ w2] exI [of _ fin]) simp
  next
    case False
    with m(3) obtain after w3 where h: "props_of net junk c p w2 = Inr after" "housekeep net c before after p w2 = Inr w3"
      "w1 = updateAgentContext before after p w3" by (auto simp: rbind_Inr)
    have e: "on_road w1 = on_road w3" by (simp add: h(3) updateAgentContext_def)
    then have "pr_lane before = 0 \<or> can_leave before p w2 \<or> stays before after w2 \<longrightarrow>
        int (count (on_road w1) p) = int (count (on_road w) p) + road_change c before after"
      using housekeep_balanced [OF h(2) assms(3)] r by (simp add: balanced_def)
    moreover have "\<forall>q. q \<noteq> p \<longrightarrow> count (on_road w1) q = count (on_road w) q"
      using others_count [OF housekeep_others [OF h(2)]] e r by simp
    ultimately show ?thesis using m(1,2) r False h(1)
      by (intro exI [of _ w0] exI [of _ before] exI [of _ w2] exI [of _ fin]) simp
  qed
qed

section \<open>The virtual queues lose nobody\<close>

text \<open>Drivers drive on: their movement leaves the lists, the other persons, their own role and their stay in the simulation.\<close>

definition drives_on :: "behaviour \<Rightarrow> bool" where
  "drives_on B \<longleftrightarrow> (\<forall>p w. keepsW (driver_view p) w (role_frame_tick B p w) \<and> keepsW (driver_view p) w (make_frame_tick_params B p w) \<and>
     keepsW (driver_view p) w (departFromCurrentStop B p w))"

definition in_simulation :: "address \<Rightarrow> world \<Rightarrow> bool" where
  "in_simulation p w \<longleftrightarrow> (\<exists>pp. persons w p = Some pp \<and> \<not> toBeRemoved pp)"

lemma in_simulation_view: "driver_view p w1 = driver_view p w \<Longrightarrow> in_simulation p w1 = in_simulation p w"
  by (cases "persons w p"; cases "persons w1 p") (auto simp: in_simulation_def driver_view_def driver_state_def)

lemma frame_round_driver:
  assumes "drives_on B" "in_simulation p w" "frame_round net B now c p cr w = Inr (w1, r, cr1)"
  shows "driver_view p w1 = driver_view p w \<and> r \<noteq> Finished"
proof -
  from assms(2,3) obtain rt w' w2 where s: "cr = Some rt" "role_frame_tick B p w = Inr w'"
    "(if rt = RL_ACTIVITY then person_op p (\<lambda>pp. pp\<lparr>remainingTimeThisTick := 0\<rparr>) w' else Inr w') = Inr w2"
    "rbind (deref Dangling (persons w2 p)) (\<lambda>pp1.
     rbind (if toBeRemoved pp1 then switchTripChainItem net B c p w2 else Inr (w2, False)) (\<lambda>(w2, finished).
     if finished then Inr (w2, Finished, cr)
     else rbind (if toBeRemoved pp1 then captured p w2 else Inr cr) (\<lambda>cr1.
          rbind (request_next_link net now p w2) (\<lambda>(w3, stop).
          if \<not> stop then Inr (w3, Again, cr1)
          else rbind (deref NullPointer cr1) (\<lambda>rt. rbind (the_role (persons w3) p) (\<lambda>r. rbind (deref NullPointer (currResource r)) (\<lambda>v.
               if \<not> moving v \<and> rt = RL_BUSDRIVER then rbind (departFromCurrentStop B p w3) (\<lambda>w4. Inr (w4, Stopped, cr1))
               else Inr (w3, Stopped, cr1)))))))) = Inr (w1, r, cr1)"
    unfolding frame_round_def rbind_Inr by (auto simp: in_simulation_def deref_Inr rbind_Inr)
  have v1: "driver_view p w' = driver_view p w" using keepsD [of "driver_view p" "\<lambda>w. w", OF _ s(2)] assms(1) by (auto simp: drives_on_def)
  have "keepsW (driver_view p) w' (if rt = RL_ACTIVITY then person_op p (\<lambda>pp. pp\<lparr>remainingTimeThisTick := 0\<rparr>) w' else Inr w')"
    by (rule keeps_if keeps_Inr person_op_driver | simp add: driver_state_def)+
  from keepsD [OF this s(3)] v1 have v2: "driver_view p w2 = driver_view p w" by simp
  then obtain pp1 where pp1: "persons w2 p = Some pp1" "\<not> toBeRemoved pp1"
    using assms(2) in_simulation_view [OF v2] by (auto simp: in_simulation_def)
  let ?rest = "rbind (request_next_link net now p w2) (\<lambda>(w3, stop).
          if \<not> stop then Inr (w3, Again, cr)
          else rbind (deref NullPointer cr) (\<lambda>rt. rbind (the_role (persons w3) p) (\<lambda>r. rbind (deref NullPointer (currResource r)) (\<lambda>v.
               if \<not> moving v \<and> rt = RL_BUSDRIVER then rbind (departFromCurrentStop B p w3) (\<lambda>w4. Inr (w4, Stopped, cr))
               else Inr (w3, Stopped, cr)))))"
  have d: "keepsW (driver_view p) w3 (departFromCurrentStop B p w3)" for w3 using assms(1) by (simp add: drives_on_def)
  have rest: "?rest = Inr (w1, r, cr1)" using s(4) pp1 by simp
  have "keeps (driver_view p) fst w2 ?rest"
    by (rule keeps_bind_pair [OF request_next_link_driver] keeps_reads keeps_if keeps_bind [OF d] keeps_Inr | simp)+
  from keepsD [OF this rest] v2 have "driver_view p w1 = driver_view p w" by simp
  moreover have "r \<noteq> Finished" using rest by (auto simp: rbind_Inr split: if_splits)
  ultimately show ?thesis by blast
qed

lemma movePerson_driver:
  assumes "drives_on B" "persons w p = Some pp" "initialized pp" "\<not> toBeRemoved pp" "movePerson net B c p w = Some (Inr (w1, fin))"
  shows "driver_view p w1 = driver_view p w \<and> \<not> fin"
proof -
  from assms(2,3,5) obtain cf w2 w3 fin1 cr where m: "start_tick B c p w = Inr (cf, w2)" "frame_loop net B (frame (currFrame cf)) c p cr w2 = Some (Inr (w3, fin1))"
    "after_tick p w3 fin1 = Inr (w1, fin)"
    by (auto simp: movePerson_def callMovementFrameTick_def init_once_def obind_Inr rbind_Inr deref_Inr)
  have mk: "keepsW (driver_view p) w (make_frame_tick_params B p w)" for w using assms(1) by (simp add: drives_on_def)
  have "keeps (driver_view p) snd w (start_tick B c p w)"
    unfolding start_tick_def by (rule keeps_reads keeps_bind keeps_if keeps_Inr person_op_driver mk | simp add: driver_state_def)+
  from keepsD [OF this m(1)] have v: "driver_view p w2 = driver_view p w" by simp
  have "in_simulation p w" using assms(2,4) by (simp add: in_simulation_def)
  then have i: "in_simulation p w2" using in_simulation_view [OF v] by simp
  have l: "driver_view p w3 = driver_view p w2 \<and> (fin1 \<longrightarrow> False)"
  proof (rule frame_loop_keeps [where P = "in_simulation p", OF _ m(2) i])
    fix w cr w1 r cr1 assume "in_simulation p w" "frame_round net B (frame (currFrame cf)) c p cr w = Inr (w1, r, cr1)"
    with frame_round_driver [OF assms(1) this] in_simulation_view
    show "driver_view p w1 = driver_view p w \<and> (r = Again \<longrightarrow> in_simulation p w1) \<and> (r = Finished \<longrightarrow> False)" by blast
  qed
  have "keeps (driver_view p) fst w3 (after_tick p w3 fin1)"
    unfolding after_tick_def by (rule keeps_reads keeps_bind keeps_if keeps_Inr person_op_driver | simp add: driver_state_def)+
  from keepsD [OF this m(3)] l v have "driver_view p w1 = driver_view p w" by simp
  moreover have "\<not> fin" using m(3) l by (auto simp: after_tick_def rbind_Inr)
  ultimately show ?thesis by blast
qed

text \<open>A driver who comes from a virtual queue is put into a lane or into a virtual queue.\<close>

definition queue_view :: "address \<Rightarrow> world \<Rightarrow> people \<times> ((bool \<times> bool \<times> role_type option) \<times> address) option \<times> (address \<times> (address \<times> address list) list) list" where
  "queue_view p w = ((persons w)(p := None), map_option (\<lambda>pp. (driver_state pp, currLane pp)) (persons w p), snd (road_view w))"

definition queued :: "address \<Rightarrow> world \<Rightarrow> address set" where
  "queued c w = (case map_of (confluxes w) c of None \<Rightarrow> {} | Some cf \<Rightarrow> (\<Union>e \<in> set (virtualQueuesMap cf). set (snd e)))"

lemma map_of_view: "map_of (map (\<lambda>(c, cf). (c, virtualQueuesMap cf)) m) c = map_option virtualQueuesMap (map_of m c)"
  by (induction m) auto

lemma queued_view: "snd (road_view w1) = snd (road_view w) \<Longrightarrow> queued c w1 = queued c w"
proof -
  have "queued c w = (case map_of (snd (road_view w)) c of None \<Rightarrow> {} | Some qs \<Rightarrow> (\<Union>e \<in> set qs. set (snd e)))" for w
    by (simp add: queued_def road_view_def map_of_view split: option.split)
  then show "snd (road_view w1) = snd (road_view w) \<Longrightarrow> queued c w1 = queued c w" by simp
qed

lemma seg_op_queue: "keepsW (queue_view p) w (seg_op a f w)"
  by (auto simp: keeps_def queue_view_def road_view_def seg_op_def rbind_Inr)

lemma person_op_queue: "(\<And>pp. driver_state (f pp) = driver_state pp \<and> currLane (f pp) = currLane pp) \<Longrightarrow> keepsW (queue_view p) w (person_op p f w)"
  by (auto simp: keeps_def queue_view_def road_view_def person_op_def rbind_Inr deref_Inr)

lemmas queue_reads = keeps_reads keeps_read [of "is_infinity b w" for b w] keeps_read [of "distance_of ps p" for ps p]

lemma mark_position_queue: "keepsW (queue_view p) w (mark_position net after p w)"
  unfolding mark_position_def by (rule queue_reads seg_op_queue)+

lemma set_updated_queue: "keepsW (queue_view p) w (set_laneUpdated b p w)" "keepsW (queue_view p) w (set_updatedLane l p w)"
  unfolding set_laneUpdated_def set_updatedLane_def by (rule person_op_queue; simp add: driver_state_def)+

lemma add_to_queue: "keepsW (queue_view p) w (add_to net after p w)"
  unfolding add_to_def by (rule seg_op_queue)

lemma queue_view_queued: "queue_view p w1 = queue_view p w \<Longrightarrow> queued c w1 = queued c w"
  by (rule queued_view) (simp add: queue_view_def)

lemma queue_view_others: "queue_view p w1 = queue_view p w \<Longrightarrow> q \<noteq> p \<Longrightarrow> persons w1 q = persons w q"
proof -
  assume v: "queue_view p w1 = queue_view p w" and q: "q \<noteq> p"
  from v have "(persons w1)(p := None) = (persons w)(p := None)" unfolding queue_view_def prod.inject by (elim conjE)
  from fun_cong [OF this, of q] q show "persons w1 q = persons w q" by simp
qed

lemma queue_view_person:
  assumes "queue_view p w1 = queue_view p w" "persons w p = Some pp"
  shows "\<exists>pp1. persons w1 p = Some pp1 \<and> driver_state pp1 = driver_state pp \<and> currLane pp1 = currLane pp"
proof -
  from assms have "map_option (\<lambda>pp. (driver_state pp, currLane pp)) (persons w1 p) = Some (driver_state pp, currLane pp)"
    by (simp add: queue_view_def)
  then show ?thesis by auto
qed

lemmas queue_view_parts = queue_view_queued queue_view_others queue_view_person

definition moved_from_queue :: "address \<Rightarrow> address \<Rightarrow> world \<Rightarrow> world \<Rightarrow> bool" where
  "moved_from_queue c p w w1 \<longleftrightarrow> (\<forall>q. q \<noteq> p \<longrightarrow> persons w1 q = persons w q) \<and>
     (\<forall>pp. persons w p = Some pp \<longrightarrow> (\<exists>pp1. persons w1 p = Some pp1 \<and> driver_state pp1 = driver_state pp \<and> currLane pp1 = currLane pp \<and>
        queued c w1 \<subseteq> queued c w \<union> (if currLane pp = 0 then {p} else {})))"

lemma moved_same:
  assumes "queue_view p w1 = queue_view p w"
  shows "moved_from_queue c p w w1"
  unfolding moved_from_queue_def
proof (intro conjI allI impI)
  fix q assume "q \<noteq> p"
  then show "persons w1 q = persons w q" by (rule queue_view_others [OF assms])
next
  fix pp assume "persons w p = Some pp"
  from queue_view_person [OF assms this] queue_view_queued [OF assms, of c]
  show "\<exists>pp1. persons w1 p = Some pp1 \<and> driver_state pp1 = driver_state pp \<and> currLane pp1 = currLane pp \<and>
     queued c w1 \<subseteq> queued c w \<union> (if currLane pp = 0 then {p} else {})" by blast
qed

lemma push_queued:
  assumes "pushBackOntoVirtualQueue d lnk p w = Inr w1"
  shows "queued c w1 \<subseteq> insert p (queued c w)" "persons w1 = persons w"
proof -
  from assms obtain cf q where p: "map_of (confluxes w) d = Some cf" "map_of (virtualQueuesMap cf) lnk = Some q"
    "w1 = w\<lparr>confluxes := AList.update d (cf\<lparr>virtualQueuesMap := AList.update lnk (q @ [p]) (virtualQueuesMap cf)\<rparr>) (confluxes w)\<rparr>"
    by (auto simp: pushBackOntoVirtualQueue_def conflux_op_def getConflux_def rbind_Inr deref_Inr)
  have "e \<in> set (AList.update lnk (q @ [p]) m) \<Longrightarrow> e = (lnk, q @ [p]) \<or> e \<in> set m" for e m
    by (induction m) (auto split: if_splits)
  then have u: "(\<Union>e \<in> set (AList.update lnk (q @ [p]) (virtualQueuesMap cf)). set (snd e)) \<subseteq> insert p (\<Union>e \<in> set (virtualQueuesMap cf). set (snd e))"
    using map_of_SomeD [OF p(2)] by fastforce
  show "queued c w1 \<subseteq> insert p (queued c w)"
  proof (cases "c = d")
    case True
    with u p(1) show ?thesis by (simp add: queued_def p(3) update_conv')
  next
    case False
    then have "queued c w1 = queued c w" by (simp add: queued_def p(3) update_conv')
    then show ?thesis by blast
  qed
  show "persons w1 = persons w" by (simp add: p(3))
qed

lemma to_virtual_queue_moved:
  assumes "to_virtual_queue net after p w = Inr w1" "persons w p = Some pp" "currLane pp = 0"
  shows "moved_from_queue c p w w1"
proof -
  from assms(1) obtain ss :: segment_stats and w0 where t: "person_op p (\<lambda>pp. pp\<lparr>distanceToEndOfSegment := segLength ss\<rparr>) w = Inr w0"
    "pushBackOntoVirtualQueue (parentConflux net (pr_segStats after)) (parentLink net (pr_segStats after)) p w0 = Inr w1"
    unfolding to_virtual_queue_def rbind_Inr by (elim exE conjE) (rule that)
  have "keepsW (queue_view p) w (person_op p (\<lambda>pp. pp\<lparr>distanceToEndOfSegment := segLength ss\<rparr>) w)"
    by (rule person_op_queue) (simp add: driver_state_def)
  from keepsD [OF this t(1)] have "queue_view p w0 = queue_view p w" by simp
  then have m: "moved_from_queue c p w w0" by (rule moved_same)
  from push_queued(1) [OF t(2), of c] push_queued(2) [OF t(2)] m assms(2,3) show ?thesis by (auto simp: moved_from_queue_def)
qed

lemma housekeep_from_queue:
  assumes "housekeep net c before after p w = Inr w1" "pr_lane before = 0" "pr_roleType before = pr_roleType after"
    "pr_roleType after \<in> set driving_roles" "persons w p = Some pp" "currLane pp = pr_lane after"
  shows "moved_from_queue d p w w1"
proof -
  have "pr_roleType after \<notin> {RL_ACTIVITY, RL_TAXIPASSENGER, RL_TRAVELPEDESTRIAN, RL_WAITTAXIACTIVITY}" "pr_roleType after \<notin> set stopping_roles"
    using assms(4) unfolding driving_roles_def stopping_roles_def by auto
  then have k: "keep_role net c before after p w = Inr None" by (simp add: keep_role_def)
  have e: "housekeep net c before after p w = rbind (place_on_road net before after p w) (\<lambda>w2. if pr_lane after \<noteq> 0
      then rbind (is_infinity after w2) (\<lambda>i. if i then Inr w2 else rbind (mark_position net after p w2) (set_updatedLane (pr_lane after) p))
      else Inr w2)"
    using assms(3) k by (simp add: housekeep_def handleRoleChange_def)
  from assms(1) obtain w2 where h: "place_on_road net before after p w = Inr w2"
    "(if pr_lane after \<noteq> 0 then rbind (is_infinity after w2) (\<lambda>i. if i then Inr w2
                else rbind (mark_position net after p w2) (set_updatedLane (pr_lane after) p)) else Inr w2) = Inr w1"
    unfolding e rbind_Inr [of "place_on_road net before after p w"] by (elim exE conjE) (rule that)
  show ?thesis
  proof (cases "pr_lane after = 0")
    case True
    with h assms(2) have "to_virtual_queue net after p w = Inr w1" by (simp add: place_on_road_def split: if_splits)
    from to_virtual_queue_moved [OF this assms(5)] assms(6) True show ?thesis by simp
  next
    case False
    have "keepsW (queue_view p) w (place_on_road net before after p w)"
      unfolding place_on_road_def if_P [OF assms(2)] if_P [OF False] by (rule keeps_bind [OF add_to_queue set_updated_queue(1)])
    moreover have "keepsW (queue_view p) w2 (if pr_lane after \<noteq> 0 then rbind (is_infinity after w2) (\<lambda>i. if i then Inr w2
                else rbind (mark_position net after p w2) (set_updatedLane (pr_lane after) p)) else Inr w2)"
      by (rule keeps_if queue_reads keeps_bind [OF mark_position_queue] set_updated_queue keeps_Inr | simp)+
    ultimately have "queue_view p w1 = queue_view p w" using keepsD [of "queue_view p" "\<lambda>w. w" w, OF _ h(1)]
      keepsD [of "queue_view p" "\<lambda>w. w" w2, OF _ h(2)] by simp
    then show ?thesis by (rule moved_same)
  qed
qed

definition queue_driver :: "address \<Rightarrow> world \<Rightarrow> bool" where
  "queue_driver p w \<longleftrightarrow> p \<noteq> 0 \<and> (\<exists>pp r. persons w p = Some pp \<and> currLane pp = 0 \<and> driver_state pp = (False, True, Some r) \<and> r \<in> set driving_roles)"

lemma driver_view_others: "driver_view p w1 = driver_view p w \<Longrightarrow> q \<noteq> p \<Longrightarrow> persons w1 q = persons w q"
proof -
  assume v: "driver_view p w1 = driver_view p w" and q: "q \<noteq> p"
  from v have "(persons w1)(p := None) = (persons w)(p := None)" unfolding driver_view_def prod.inject by (elim conjE)
  from fun_cong [OF this, of q] q show "persons w1 q = persons w q" by simp
qed

lemma driver_view_person:
  assumes "driver_view p w1 = driver_view p w" "persons w p = Some pp"
  shows "\<exists>pp1. persons w1 p = Some pp1 \<and> driver_state pp1 = driver_state pp"
proof -
  from assms have "map_option driver_state (persons w1 p) = Some (driver_state pp)" by (simp add: driver_view_def)
  then show ?thesis by auto
qed

lemma road_view_queued: "road_view w1 = road_view w \<Longrightarrow> queued c w1 = queued c w"
  by (rule queued_view) simp

lemma updateAgent_from_queue:
  assumes "drives_on B" "queue_driver p w" "updateAgent net B junk c p w = Some (Inr w1)"
  shows "on_road w1 = add_mset p (on_road w) \<and> (\<forall>q. q \<noteq> p \<longrightarrow> persons w1 q = persons w q) \<and>
     (\<exists>pp1. persons w1 p = Some pp1 \<and> (currLane pp1 = 0 \<longrightarrow> queue_driver p w1) \<and>
        queued d w1 \<subseteq> queued d w \<union> (if currLane pp1 = 0 then {p} else {}))"
proof -
  from assms(2) obtain pp r where pp: "p \<noteq> 0" "persons w p = Some pp" "currLane pp = 0" "driver_state pp = (False, True, Some r)"
    "r \<in> set driving_roles" by (auto simp: queue_driver_def)
  from assms(3) obtain cf :: conflux and pp' :: person and w0 before w2 fin where m: "persons w p = Some pp'"
    "(if lastUpdatedFrame pp' < uint (frame (currFrame cf)) then person_op p (\<lambda>pp. pp\<lparr>remainingTimeThisTick := tickSeconds (net_env net)\<rparr>) w
      else Inr w) = Inr w0"
    "props_of net junk c p w0 = Inr before" "movePerson net B c p w0 = Some (Inr (w2, fin))"
    "(if fin then killAgent net c before p w2 else rbind (props_of net junk c p w2) (\<lambda>after.
        rbind (housekeep net c before after p w2) (\<lambda>w3. Inr (updateAgentContext before after p w3)))) = Inr w1"
    unfolding updateAgent_def begin_update_def by (auto simp: obind_Inr rbind_Inr deref_Inr)
  have v0: "driver_view p w0 = driver_view p w" "queue_view p w0 = queue_view p w"
  proof -
    have "keepsW (driver_view p) w (if lastUpdatedFrame pp' < uint (frame (currFrame cf)) then person_op p (\<lambda>pp. pp\<lparr>remainingTimeThisTick := tickSeconds (net_env net)\<rparr>) w
      else Inr w)" "keepsW (queue_view p) w (if lastUpdatedFrame pp' < uint (frame (currFrame cf)) then person_op p (\<lambda>pp. pp\<lparr>remainingTimeThisTick := tickSeconds (net_env net)\<rparr>) w
      else Inr w)"
      by (rule keeps_if keeps_Inr person_op_driver person_op_queue | simp add: driver_state_def)+
    from keepsD [OF this(1) m(2)] keepsD [OF this(2) m(2)] show "driver_view p w0 = driver_view p w" "queue_view p w0 = queue_view p w" .
  qed
  from queue_view_person [OF v0(2) pp(2)] pp(3,4) obtain p0 where p0: "persons w0 p = Some p0" "driver_state p0 = (False, True, Some r)" "currLane p0 = 0"
    by auto
  then have st: "initialized p0" "\<not> toBeRemoved p0" by (simp_all add: driver_state_def)
  from movePerson_driver [OF assms(1) p0(1) st m(4)] have v2: "driver_view p w2 = driver_view p w0" and fin: "\<not> fin" by auto
  from driver_view_person [OF v2 p0(1)] p0(2) obtain p2 where p2: "persons w2 p = Some p2" "driver_state p2 = (False, True, Some r)" by auto
  from m(5) fin obtain after w3 where h: "props_of net junk c p w2 = Inr after" "housekeep net c before after p w2 = Inr w3"
    "w1 = updateAgentContext before after p w3" by (auto simp: rbind_Inr)
  have b: "pr_lane before = 0" "pr_roleType before = r" using m(3) p0 by (auto simp: props_of_def Let_def driver_state_def)
  have a: "pr_lane after = currLane p2" "pr_roleType after = r" using h(1) p2 by (auto simp: props_of_def Let_def driver_state_def)
  have w1: "on_road w1 = on_road w3" "persons w1 = persons w3" "queued d w1 = queued d w3"
    by (simp_all add: h(3) updateAgentContext_def send_def on_road_def queued_def)
  have rd: "driver_view p w2 = driver_view p w" using v2 v0(1) by simp
  have "balanced p (road_change c before after) w2 w3" using housekeep_balanced [OF h(2) pp(1)] b(1) by blast
  moreover have "road_change c before after = 1" using a b pp(5) by (auto simp: road_change_def driving_roles_def stopping_roles_def)
  moreover have "on_road w2 = on_road w" by (rule on_road_view [OF driver_view_road [OF rd]])
  ultimately have road: "on_road w1 = add_mset p (on_road w)"
    unfolding w1(1) by (intro multiset_eqI) (auto simp: balanced_def split: if_splits)
  have "moved_from_queue d p w2 w3"
    by (rule housekeep_from_queue [OF h(2) b(1) _ _ p2(1)]) (use a b pp(5) in simp_all)
  then obtain p3 where p3: "persons w3 p = Some p3" "driver_state p3 = driver_state p2" "currLane p3 = currLane p2"
    "queued d w3 \<subseteq> queued d w2 \<union> (if currLane p2 = 0 then {p} else {})" "\<forall>q. q \<noteq> p \<longrightarrow> persons w3 q = persons w2 q"
    using p2(1) unfolding moved_from_queue_def by blast
  have "queued d w2 = queued d w" by (rule road_view_queued [OF driver_view_road [OF rd]])
  moreover have "\<forall>q. q \<noteq> p \<longrightarrow> persons w1 q = persons w q" using p3(5) driver_view_others [OF rd] w1(2) by simp
  moreover have "currLane p3 = 0 \<longrightarrow> queue_driver p w1" using p3(1,2) p2(2) pp(1,5) w1(2) by (auto simp: queue_driver_def)
  ultimately show ?thesis using road p3(1,3,4) w1(2,3) by auto
qed

text \<open>Everybody in the virtual queues of a conflux is a driver without a lane, and is on the road once.\<close>

definition queues_ok :: "address \<Rightarrow> world \<Rightarrow> bool" where
  "queues_ok c w \<longleftrightarrow> (\<forall>p \<in> queued c w. queue_driver p w \<and> count (on_road w) p = 1)"

lemma queued_on_road: "p \<in> queued c w \<Longrightarrow> 0 < count (on_road w) p"
proof -
  assume "p \<in> queued c w"
  then obtain cf e where e: "map_of (confluxes w) c = Some cf" "e \<in> set (virtualQueuesMap cf)" "p \<in> set (snd e)"
    by (auto simp: queued_def split: option.splits)
  have m: "x \<in> set xs \<Longrightarrow> f x \<subseteq># sum_list (map f xs)" for f :: "'z \<Rightarrow> address multiset" and x xs
    by (induction xs) (auto intro: subset_mset.add_increasing2 subset_mset.add_increasing)
  have "mset (snd e) \<subseteq># queue_persons cf" unfolding queue_persons_def by (rule m [OF e(2)])
  moreover have "queue_persons cf \<subseteq># on_road w"
    using m [OF map_of_SomeD [OF e(1)], of "\<lambda>e. queue_persons (snd e)"] by (simp add: on_road_def subset_mset.add_increasing)
  moreover have "p \<in># mset (snd e)" using e(3) by simp
  ultimately have "p \<in># on_road w" by (blast dest: mset_subset_eqD)
  then show "0 < count (on_road w) p" by simp
qed

lemma multiset_exchange:
  fixes x y :: "'b multiset"
  assumes "d + q = c + q1" "x + c = y + d"
  shows "x + q = y + q1"
proof -
  have "(x + q) + c = (x + c) + q" by (simp add: ac_simps)
  also have "\<dots> = y + (d + q)" using assms(2) by (simp add: ac_simps)
  also have "\<dots> = (y + q1) + c" using assms(1) by (simp add: ac_simps)
  finally show ?thesis by simp
qed

lemma conflux_queue_op:
  assumes "map_of (confluxes w) c = Some cf" "map_of (virtualQueuesMap cf) lnk = Some q"
    "conflux_lists c (\<lambda>cf. cf\<lparr>virtualQueuesMap := AList.update lnk q1 (virtualQueuesMap cf)\<rparr>) w = Inr w1"
  shows "on_road w1 + mset q = on_road w + mset q1" "persons w1 = persons w" "set q1 \<subseteq> set q \<Longrightarrow> queued c w1 \<subseteq> queued c w" "set q \<subseteq> queued c w"
proof -
  let ?cf1 = "cf\<lparr>virtualQueuesMap := AList.update lnk q1 (virtualQueuesMap cf)\<rparr>"
  have w1: "w1 = w\<lparr>confluxes := AList.update c ?cf1 (confluxes w)\<rparr>"
    using assms(1,3) by (auto simp: conflux_lists_def conflux_op_def getConflux_def)
  have "queue_persons ?cf1 + mset q = queue_persons cf + mset q1"
    using sum_list_update [where f = mset, OF assms(2)] by (simp add: queue_persons_def)
  moreover have "sum_list (map (\<lambda>e. queue_persons (snd e)) (confluxes w1)) + queue_persons cf =
      sum_list (map (\<lambda>e. queue_persons (snd e)) (confluxes w)) + queue_persons ?cf1"
    using sum_list_update [where f = queue_persons, OF assms(1)] by (simp add: w1)
  ultimately have "sum_list (map (\<lambda>e. queue_persons (snd e)) (confluxes w1)) + mset q =
      sum_list (map (\<lambda>e. queue_persons (snd e)) (confluxes w)) + mset q1"
    by (rule multiset_exchange)
  then show "on_road w1 + mset q = on_road w + mset q1" by (simp add: on_road_def w1 ac_simps)
  show "persons w1 = persons w" by (simp add: w1)
  have e: "(lnk, q) \<in> set (virtualQueuesMap cf)" by (rule map_of_SomeD [OF assms(2)])
  have qw: "queued c w = (\<Union>e \<in> set (virtualQueuesMap cf). set (snd e))" using assms(1) by (auto simp: queued_def)
  from e show all: "set q \<subseteq> queued c w" unfolding qw by force
  have u: "e \<in> set (AList.update lnk q1 m) \<Longrightarrow> e = (lnk, q1) \<or> e \<in> set m" for e m
    by (induction m) (auto split: if_splits)
  have "map_of (confluxes w1) c = Some ?cf1" by (simp add: w1 update_conv')
  then have "queued c w1 = (\<Union>e \<in> set (AList.update lnk q1 (virtualQueuesMap cf)). set (snd e))" by (auto simp: queued_def)
  then have "queued c w1 \<subseteq> set q1 \<union> queued c w" unfolding qw by (auto dest: u)
  then show "set q1 \<subseteq> set q \<Longrightarrow> queued c w1 \<subseteq> queued c w" using all by blast
qed

lemma pop_front_spec:
  assumes "pop_front c lnk w = Inr (w1, p)"
  shows "on_road w = add_mset p (on_road w1)" "persons w1 = persons w" "queued c w1 \<subseteq> queued c w" "p \<in> queued c w"
proof -
  from assms obtain cf :: conflux and q where q: "map_of (confluxes w) c = Some cf" "map_of (virtualQueuesMap cf) lnk = Some q" "q \<noteq> []" "p = hd q"
    "conflux_lists c (\<lambda>cf. cf\<lparr>virtualQueuesMap := AList.update lnk (tl q) (virtualQueuesMap cf)\<rparr>) w = Inr w1"
    by (auto simp: pop_front_def rbind_Inr getConflux_def deref_Inr split: if_splits)
  note o = conflux_queue_op [OF q(1,2,5)]
  have m: "mset q = add_mset p (mset (tl q))" using q(3,4) by (cases q) auto
  show "on_road w = add_mset p (on_road w1)" using o(1) by (simp add: m)
  show "persons w1 = persons w" by (rule o(2))
  show "queued c w1 \<subseteq> queued c w" by (rule o(3)) (use q(3) in \<open>auto dest: list.set_sel(2)\<close>)
  show "p \<in> queued c w" using o(4) q(3,4) by auto
qed

lemma queue_driver_same: "persons w1 p = persons w p \<Longrightarrow> queue_driver p w1 = queue_driver p w"
  by (simp add: queue_driver_def)

lemma update_fronts_ok:
  assumes "drives_on B"
  shows "queues_ok c w \<Longrightarrow> update_fronts net B junk c lnk n w = Some (Inr w1) \<Longrightarrow> queues_ok c w1 \<and> on_road w1 = on_road w"
proof (induction n arbitrary: w)
  case (Suc n)
  from Suc.prems(2) obtain w0 p w2 where s: "pop_front c lnk w = Inr (w0, p)" "updateAgent net B junk c p w0 = Some (Inr w2)"
    "update_fronts net B junk c lnk n w2 = Some (Inr w1)" by (auto simp: obind_Inr)
  note o = pop_front_spec [OF s(1)]
  have pd: "queue_driver p w0" using Suc.prems(1) o(4) queue_driver_same [of w0 p w] o(2) by (auto simp: queues_ok_def)
  from updateAgent_from_queue [OF assms pd s(2), of c] obtain pp1 where u: "on_road w2 = add_mset p (on_road w0)"
    "\<forall>q. q \<noteq> p \<longrightarrow> persons w2 q = persons w0 q" "persons w2 p = Some pp1" "currLane pp1 = 0 \<longrightarrow> queue_driver p w2"
    "queued c w2 \<subseteq> queued c w0 \<union> (if currLane pp1 = 0 then {p} else {})" by (elim conjE exE) (rule that)
  have r: "on_road w2 = on_road w" using u(1) o(1) by simp
  have gone: "p \<notin> queued c w0"
  proof -
    have "count (on_road w) p = 1" using Suc.prems(1) o(4) by (simp add: queues_ok_def)
    then have "count (on_road w0) p = 0" using o(1) by simp
    then show ?thesis using queued_on_road [of p c w0] by auto
  qed
  have "queues_ok c w2" unfolding queues_ok_def
  proof
    fix q assume "q \<in> queued c w2"
    with u(5) consider (old) "q \<in> queued c w0" | (new) "q = p" "currLane pp1 = 0" by (auto split: if_splits)
    then show "queue_driver q w2 \<and> count (on_road w2) q = 1"
    proof cases
      case old
      with gone have "q \<noteq> p" by auto
      with u(2) o(2) have "persons w2 q = persons w q" by simp
      moreover have "q \<in> queued c w" using old o(3) by blast
      ultimately show ?thesis using Suc.prems(1) queue_driver_same [of w2 q w] r by (auto simp: queues_ok_def)
    next
      case new
      then show ?thesis using u(4) Suc.prems(1) o(4) r by (auto simp: queues_ok_def)
    qed
  qed
  from Suc.IH [OF this s(3)] r show ?case by simp
qed simp

lemma process_queue_ok:
  assumes "drives_on B" "queues_ok c w" "process_queue net B junk c lnk w = Some (Inr w1)"
  shows "queues_ok c w1 \<and> on_road w1 = on_road w"
proof -
  from assms(3) obtain cf :: conflux and q q1 w0 where s: "map_of (confluxes w) c = Some cf" "map_of (virtualQueuesMap cf) lnk = Some q"
    "sortPersonsDecreasingRemTime (persons w) q = Inr q1"
    "conflux_lists c (\<lambda>cf. cf\<lparr>virtualQueuesMap := AList.update lnk q1 (virtualQueuesMap cf)\<rparr>) w = Inr w0"
    "update_fronts net B junk c lnk (length q) w0 = Some (Inr w1)"
    by (auto simp: process_queue_def obind_Inr rbind_Inr getConflux_def deref_Inr)
  note o = conflux_queue_op [OF s(1,2,4)]
  have m: "mset q1 = mset q" using s(3) by (auto simp: sortPersonsDecreasingRemTime_def guard_Inr split: if_splits)
  then have "set q1 = set q" by (rule mset_eq_setD)
  then have sub: "queued c w0 \<subseteq> queued c w" using o(3) by simp
  have r: "on_road w0 = on_road w" using o(1) m by simp
  have "queues_ok c w0"
  proof (unfold queues_ok_def, intro ballI)
    fix p assume "p \<in> queued c w0"
    with sub have "p \<in> queued c w" by blast
    with assms(2) have "queue_driver p w" "count (on_road w) p = 1" by (simp_all add: queues_ok_def)
    moreover have "queue_driver p w0 = queue_driver p w" by (rule queue_driver_same) (simp add: o(2))
    ultimately show "queue_driver p w0 \<and> count (on_road w0) p = 1" using r by simp
  qed
  from update_fronts_ok [OF assms(1) this s(5)] r show ?thesis by simp
qed

lemma orun_invariant:
  "(\<And>x w w1. P w \<Longrightarrow> f x w = Some (Inr w1) \<Longrightarrow> P w1) \<Longrightarrow> P w \<Longrightarrow> orun f xs w = Some (Inr w1) \<Longrightarrow> P w1"
  by (induction xs arbitrary: w) (auto simp: obind_Inr)

text \<open>C9: The virtual queues lose and double nobody: if the persons in the queues of a conflux are drivers without a lane who are
  on the road once, and drivers drive on, then after the update of the queues the persons in all lanes and queues are the
  same as before, and the queues are as they should be for the next tick. The order of the persons with the same remaining
  time does not matter.\<close>

theorem virtual_queues_lose_nobody:
  assumes "drives_on B" "queues_ok c w" "processVirtualQueues net B junk c w = Some (Inr w1)"
  shows "on_road w1 = on_road w \<and> queues_ok c w1"
proof -
  from assms(3) obtain links where "orun (process_queue net B junk c) links w = Some (Inr w1)"
    by (auto simp: processVirtualQueues_def obind_Inr)
  then have "queues_ok c w1 \<and> on_road w1 = on_road w"
    by (rule orun_invariant [where P = "\<lambda>v. queues_ok c v \<and> on_road v = on_road w", rotated 2])
      (use process_queue_ok [OF assms(1)] assms(2) in auto)
  then show ?thesis by simp
qed

section \<open>A person who has finished is written after its deletion\<close>

lemma orun_append: "orun f (xs @ ys) w = obind (orun f xs w) (orun f ys)"
proof (induction xs arbitrary: w)
  case (Cons x xs)
  then show ?case by (simp add: obind_def split: option.split sum.split)
qed (simp add: obind_def)

lemma killAgent_conflux:
  assumes "killAgent net c before p w = Inr w1" "getConflux c w = Inr cf"
  shows "\<exists>cf1. getConflux c w1 = Inr cf1"
proof -
  from assms(1) obtain w0 where k: "leave_place net c before p w = Inr w0" "confluxes w1 = confluxes w0"
    by (auto simp: killAgent_def rbind_Inr Let_def send_def split: if_splits)
  have r: "confluxes v1 = confluxes v" if "remove_from_lane net must before p v = Inr v1" for must v v1
    using that by (auto simp: remove_from_lane_def rbind_Inr guard_Inr split: if_splits)
  have l: "\<exists>cf1. getConflux c v1 = Inr cf1" if "conflux_lists c f w = Inr v1" for f v1
    using that by (auto simp: conflux_lists_def conflux_op_def rbind_Inr getConflux_def deref_Inr update_conv')
  have "\<exists>cf1. getConflux c w0 = Inr cf1"
    using k(1) assms(2) unfolding leave_place_def Let_def
    by (auto simp: rbind_Inr getConflux_def send_def split: if_splits dest!: r l [unfolded getConflux_def])
  then show ?thesis by (simp add: getConflux_def k(2))
qed

text \<open>C40: The loop over the persons of a conflux writes the last tick of every person after its update. The update of a
  person whose sub-trip is over when its turn comes (initialised, with a role, with time left in the tick and nothing to be
  reset) and who has no further item in its trip chain deletes it, provided \<open>killAgent\<close> does not throw: whoever comes before and
  after it, the write goes to a deleted object.\<close>

theorem finished_person_is_written:
  assumes "orun (update_and_stamp net B junk c) us w = Some (Inr w1)" "begin_update net junk c p w1 = Inr (w2, before)"
    "getConflux c w2 = Inr cf" "persons w2 p = Some pp" "initialized pp" "toBeRemoved pp" "\<not> resetParamsRequired pp"
    "0 < remainingTimeThisTick pp" "currRole pp \<noteq> None"
    "collectTravelTime B p (w2\<lparr>persons := (persons w2)(p \<mapsto> pp\<lparr>lastUpdatedFrame := uint (frame (currFrame cf))\<rparr>)\<rparr>) = Inr w3"
    "checkTripChain B p (ms (currFrame cf)) w3 = Inr (w4, True)"
    "killAgent net c before p w4 = Inr w5" "getConflux c w4 = Inr cf4"
  shows "updateAgent net B junk c p w1 = Some (Inr w5) \<and> persons w5 p = None \<and>
     orun (update_and_stamp net B junk c) (us @ p # vs) w = Some (Inl Dangling)"
proof -
  let ?pp = "pp\<lparr>lastUpdatedFrame := uint (frame (currFrame cf))\<rparr>"
  let ?w = "w2\<lparr>persons := (persons w2)(p \<mapsto> ?pp)\<rparr>"
  obtain r where r: "currRole pp = Some r" using assms(9) by blast
  have "init_once B c p w2 = Inr (w2, True)" using assms(3-5) by (simp add: init_once_def)
  moreover have "start_tick B c p w2 = Inr (cf, ?w)" using assms(3,4,7) by (simp add: start_tick_def person_op_def)
  moreover have "captured p w2 = Inr (Some (roleType r))" using assms(4) r by (simp add: captured_def)
  moreover have "frame_loop net B (frame (currFrame cf)) c p (Some (roleType r)) ?w = Some (Inr (w4, True))"
  proof -
    have "getConflux c ?w = Inr cf" using assms(3) by (simp add: getConflux_def)
    then have "switchTripChainItem net B c p ?w = Inr (w4, True)" using r assms(10,11) by (simp add: switchTripChainItem_def)
    then have "frame_round net B (frame (currFrame cf)) c p (Some (roleType r)) ?w = Inr (w4, Finished, Some (roleType r))"
      using assms(6) by (simp add: frame_round_def)
    then show ?thesis using assms(8) by (subst frame_loop.simps) simp
  qed
  ultimately have m: "movePerson net B c p w2 = Some (Inr (w4, True))"
    by (simp add: movePerson_def callMovementFrameTick_def after_tick_def)
  then have u: "updateAgent net B junk c p w1 = Some (Inr w5)" using assms(2,12) by (simp add: updateAgent_def)
  have k: "persons w5 p = None" using kill_balanced [OF assms(12)] by simp
  obtain cf5 where "getConflux c w5 = Inr cf5" using killAgent_conflux [OF assms(12,13)] by blast
  with u k assms(1) show ?thesis by (simp add: orun_append update_and_stamp_def person_op_def)
qed

section \<open>An example\<close>

text \<open>Cars 1 and 2 wait in the virtual queue of link 60 before the empty segment 100; car 2 has more time left, so that it moves
  first, into lane 11. Car 1 finds no space and uses up its time.\<close>

definition waiting :: "real \<Rightarrow> person" where
  "waiting t = (car 50 False)\<lparr>currLane := 0, currSegStats := 100, remainingTimeThisTick := t\<rparr>"

definition moved :: "address \<Rightarrow> person \<Rightarrow> person" where
  "moved p pp = pp\<lparr>currLane := if p = 2 then 11 else 0, remainingTimeThisTick := 0\<rparr>"

definition behaviour3 :: behaviour where
  "behaviour3 = \<lparr>checkTripChain = (\<lambda>p t w. Inr (w, True)), collectTravelTime = (\<lambda>p w. Inr w), make_frame_tick_params = (\<lambda>p w. Inr w),
     role_frame_init = (\<lambda>p w. Inr w), role_frame_tick = (\<lambda>p. person_op p (moved p)), departFromCurrentStop = (\<lambda>p w. Inr w),
     destinationConflux = (\<lambda>p w. 0), stopAgentsUpdate = (\<lambda>c w. Inr w), findStartingConflux = (\<lambda>p t w. 0)\<rparr>"

definition queue3 :: "address list \<Rightarrow> conflux" where
  "queue3 q = conflux1\<lparr>virtualQueuesMap := [(60, q)]\<rparr>"

lemma queue3_fields [simp]: "virtualQueuesMap (queue3 q) = [(60, q)]" "currFrame (queue3 q) = \<lparr>frame = 0, ms = 0\<rparr>"
  "queue3 q\<lparr>virtualQueuesMap := [(60, q1)]\<rparr> = queue3 q1"
  by (simp_all add: queue3_def conflux1_def)

definition world3 :: world where
  "world3 = \<lparr>confluxes = [(50, queue3 [1, 2])], segments = [(100, seg0)],
     persons = [1 \<mapsto> waiting 1, 2 \<mapsto> waiting 2], outbox = [], activeAgents = []\<rparr>"

lemma world3_confluxes: "confluxes world3 = [(50, queue3 [1, 2])]"
  by (simp add: world3_def)

lemma waiting_fields [simp]: "currRole (waiting t) = Some car_role" "currLane (waiting t) = 0" "currSegStats (waiting t) = 100"
  "remainingTimeThisTick (waiting t) = t" "isQueuing (waiting t) = False" "distanceToEndOfSegment (waiting t) = 50"
  "toBeRemoved (waiting t) = False" "initialized (waiting t) = True" "requestedNextSegStats (waiting t) = 0"
  "resetParamsRequired (waiting t) = False" "lastUpdatedFrame (waiting t) = 0"
  by (simp_all add: waiting_def car_def)

lemma moved_fields [simp]: "currRole (moved p pp) = currRole pp" "currSegStats (moved p pp) = currSegStats pp"
  "remainingTimeThisTick (moved p pp) = 0" "isQueuing (moved p pp) = isQueuing pp" "distanceToEndOfSegment (moved p pp) = distanceToEndOfSegment pp"
  "toBeRemoved (moved p pp) = toBeRemoved pp" "initialized (moved p pp) = initialized pp" "requestedNextSegStats (moved p pp) = requestedNextSegStats pp"
  "resetParamsRequired (moved p pp) = resetParamsRequired pp" "lastUpdatedFrame (moved p pp) = lastUpdatedFrame pp"
  "currLane (moved p pp) = (if p = 2 then 11 else 0)"
  by (simp_all add: moved_def)

lemma behaviour3_drives: "drives_on behaviour3" "keeps_road behaviour3"
  using person_op_keeps_road by (auto simp: drives_on_def keeps_road_def behaviour3_def moved_def keeps_Inr quiet_def driver_state_def
      keeps_def [of road_view] intro!: person_op_driver)

lemma world3_queues: "queues_ok 50 world3"
  by (auto simp: queues_ok_def queued_def world3_def queue_driver_def driver_state_def driving_roles_def car_role_def on_road_def
      lane_persons_def queue_persons_def seg0_def seg_eval)

text \<open>One round is enough: the movement uses up the time.\<close>

lemma frame_loop3:
  assumes "persons w p = Some pp" "0 < remainingTimeThisTick pp" "\<not> toBeRemoved pp" "currRole pp = Some car_role" "requestedNextSegStats pp = 0"
  shows "frame_loop net1 behaviour3 now 50 p (Some RL_DRIVER) w = Some (Inr (w\<lparr>persons := (persons w)(p \<mapsto> moved p pp)\<rparr>, False))"
proof -
  let ?w1 = "w\<lparr>persons := (persons w)(p \<mapsto> moved p pp)\<rparr>"
  have r: "frame_round net1 behaviour3 now 50 p (Some RL_DRIVER) w = Inr (?w1, Again, Some RL_DRIVER)"
    by (simp add: frame_round_def assms behaviour3_def person_op_def request_next_link_def)
  have e: "frame_loop net1 behaviour3 now 50 p (Some RL_DRIVER) ?w1 = Some (Inr (?w1, False))"
    by (subst frame_loop.simps) simp
  show ?thesis by (subst frame_loop.simps) (simp add: assms(1,2) r e)
qed

definition after3 :: "address \<Rightarrow> person" where
  "after3 p = (moved p (waiting 0))\<lparr>resetParamsRequired := True\<rparr>"

lemma movePerson3:
  assumes "persons w p = Some (waiting t)" "0 < t" "getConflux 50 w = Inr cf" "currFrame cf = \<lparr>frame = 0, ms = 0\<rparr>"
  shows "movePerson net1 behaviour3 50 p w = Some (Inr (w\<lparr>persons := (persons w)(p \<mapsto> after3 p)\<rparr>, False))"
proof -
  have i: "(waiting t)\<lparr>lastUpdatedFrame := 0\<rparr> = waiting t" by (simp add: waiting_def car_def)
  have m: "(moved p (waiting t))\<lparr>resetParamsRequired := True\<rparr> = after3 p" by (simp add: after3_def moved_def waiting_def)
  have "init_once behaviour3 50 p w = Inr (w, True)" by (simp add: init_once_def assms)
  moreover have "start_tick behaviour3 50 p w = Inr (cf, w)"
    using assms(1) by (simp add: start_tick_def assms person_op_def i map_upd_triv)
  moreover have "captured p w = Inr (Some RL_DRIVER)" by (simp add: captured_def assms(1) car_role_def)
  ultimately show ?thesis
    by (simp add: movePerson_def obind_def callMovementFrameTick_def frame_loop3 [OF assms(1)] assms(2) after_tick_def person_op_def m)
qed

lemma after3_fields: "currRole (after3 p) = Some car_role" "currLane (after3 p) = (if p = 2 then 11 else 0)" "currSegStats (after3 p) = 100"
  "isQueuing (after3 p) = False" "distanceToEndOfSegment (after3 p) = 50"
  by (simp_all add: after3_def)

lemma net1_fields [simp]: "net_env net1 = senv1" "parentConflux net1 a = 50" "parentLink net1 a = 60" "startConfluxOf net1 a = None"
  "fl senv1 x = x"
  by (simp_all add: net1_def senv1_def)

lemma seg0_enters:
  assumes "ps p = Some pp" "currRole pp = Some car_role" "isQueuing pp = False"
  shows "\<exists>ss. addAgent senv1 ps 11 p seg0 = Inr ss \<and> infinityLane ss \<noteq> 11 \<and> (\<forall>x. \<exists>ss1. setPositionOfLastUpdatedAgentInLane x 11 ss = Inr ss1)"
  using assms by (simp add: addAgent_def getLane_def putLane_def addPerson_def the_role_def distance_of_def insert_by_distance_def
      setPositionOfLastUpdatedAgentInLane_def seg0_def seg_eval)

text \<open>Car 2 goes to lane 11, car 1 back into the queue.\<close>

lemma car2_enters:
  assumes "confluxes w = [(50, queue3 q)]" "segments w = [(100, seg0)]" "persons w 2 = Some (waiting t)" "0 < t"
  shows "\<exists>w1 ss. updateAgent net1 behaviour3 0 50 2 w = Some (Inr w1) \<and> confluxes w1 = confluxes w \<and> persons w1 1 = persons w 1 \<and>
     segments w1 = [(100, ss)]"
proof -
  have g: "getConflux 50 w = Inr (queue3 q)" by (simp add: getConflux_def assms)
  let ?ps = "(persons w)(2 \<mapsto> after3 2)"
  from seg0_enters [of ?ps 2 "after3 2"] obtain ss where ss: "addAgent senv1 ?ps 11 2 seg0 = Inr ss" "infinityLane ss \<noteq> 11"
    "\<forall>x. \<exists>ss1. setPositionOfLastUpdatedAgentInLane x 11 ss = Inr ss1" by (auto simp: after3_def)
  from ss(3) obtain ss1 where ss1: "setPositionOfLastUpdatedAgentInLane 54 11 ss = Inr ss1" by blast
  show ?thesis
    by (simp add: updateAgent_def begin_update_def obind_def g assms movePerson3 [OF assms(3,4) g] props_of_def Let_def ss ss1
      housekeep_def handleRoleChange_def keep_role_def place_on_road_def stopping_roles_def after3_fields
      is_infinity_def getSeg_def add_to_def seg_op_def set_laneUpdated_def person_op_def mark_position_def set_updatedLane_def
      updateAgentContext_def the_role_def distance_of_def del: One_nat_def)
qed

lemma car1_returns:
  assumes "confluxes w = [(50, queue3 q)]" "segments w = [(100, ss)]" "persons w 1 = Some (waiting t)" "0 < t"
  shows "\<exists>w1. updateAgent net1 behaviour3 0 50 1 w = Some (Inr w1) \<and> confluxes w1 = [(50, queue3 (q @ [1]))]"
proof -
  have g: "getConflux 50 w = Inr (queue3 q)" by (simp add: getConflux_def assms)
  show ?thesis
    by (simp add: updateAgent_def begin_update_def obind_def g assms movePerson3 [OF assms(3,4) g] props_of_def Let_def
      housekeep_def handleRoleChange_def keep_role_def place_on_road_def stopping_roles_def after3_fields
      to_virtual_queue_def pushBackOntoVirtualQueue_def conflux_op_def updateAgentContext_def getSeg_def person_op_def getConflux_def
      del: One_nat_def)
qed

lemma world3_queue_runs: "\<exists>w1. processVirtualQueues net1 behaviour3 0 50 world3 = Some (Inr w1) \<and> confluxes w1 = [(50, queue3 [1])]"
proof -
  have s: "sortPersonsDecreasingRemTime (persons world3) [1, 2] = Inr [2, 1]"
    by (simp add: sortPersonsDecreasingRemTime_def guard_def world3_def std_sort_def remaining_of_def)
  let ?w = "world3\<lparr>confluxes := [(50, queue3 [1])]\<rparr>"
  from car2_enters [of ?w "[1]" 2] obtain w1 ss where w1: "updateAgent net1 behaviour3 0 50 2 ?w = Some (Inr w1)"
    "confluxes w1 = [(50, queue3 [1])]" "persons w1 1 = Some (waiting 1)" "segments w1 = [(100, ss)]"
    by (auto simp: world3_def)
  from car1_returns [of "w1\<lparr>confluxes := [(50, queue3 [])]\<rparr>" "[]" ss 1] w1 obtain w2 where
    w2: "updateAgent net1 behaviour3 0 50 1 (w1\<lparr>confluxes := [(50, queue3 [])]\<rparr>) = Some (Inr w2)" "confluxes w2 = [(50, queue3 [1])]"
    by auto
  have c: "getConflux 50 v = Inr (queue3 q)" if "confluxes v = [(50, queue3 q)]" for v q using that by (simp add: getConflux_def)
  have p: "pop_front 50 60 v = Inr (v\<lparr>confluxes := [(50, queue3 (tl q))]\<rparr>, hd q)" if "confluxes v = [(50, queue3 q)]" "q \<noteq> []" for v q
    using that by (simp add: pop_front_def c [OF that(1)] conflux_lists_def conflux_op_def)
  let ?v = "world3\<lparr>confluxes := [(50, queue3 [2, 1])]\<rparr>"
  have "update_fronts net1 behaviour3 0 50 60 (Suc (Suc 0)) ?v = Some (Inr w2)"
    using w1(1) w2(1) by (simp add: obind_def p w1(2))
  moreover have "conflux_lists 50 (\<lambda>cf. cf\<lparr>virtualQueuesMap := AList.update 60 [2, 1] (virtualQueuesMap cf)\<rparr>) world3 = Inr ?v"
    by (simp add: conflux_lists_def conflux_op_def getConflux_def world3_def)
  ultimately have "process_queue net1 behaviour3 0 50 60 world3 = Some (Inr w2)"
    by (simp add: process_queue_def obind_def c [of world3 "[1, 2]"] world3_confluxes s del: One_nat_def)
  then have "processVirtualQueues net1 behaviour3 0 50 world3 = Some (Inr w2)"
    by (simp add: processVirtualQueues_def obind_def c [of world3 "[1, 2]"] world3_confluxes del: One_nat_def)
  with w2(2) show ?thesis by blast
qed

lemma virtual_queues_lose_nobody_witness:
  "\<exists>w1. processVirtualQueues net1 behaviour3 0 50 world3 = Some (Inr w1) \<and> on_road w1 = {#1, 2#} \<and> queued 50 w1 = {1}"
proof -
  from world3_queue_runs obtain w1 where w1: "processVirtualQueues net1 behaviour3 0 50 world3 = Some (Inr w1)" "confluxes w1 = [(50, queue3 [1])]"
    by blast
  from virtual_queues_lose_nobody [OF behaviour3_drives(1) world3_queues w1(1)] have "on_road w1 = on_road world3" by simp
  moreover have "on_road world3 = {#1, 2#}"
    by (simp add: on_road_def world3_def lane_persons_def queue_persons_def seg0_def seg_eval)
  moreover have "queued 50 w1 = {1}" by (simp add: queued_def w1(2))
  ultimately show ?thesis using w1(1) by auto
qed

text \<open>Car 1 is updated while both cars are in the queue: it is there twice afterwards, since the queues take it out before.\<close>

lemma update_conserves_persons_witness:
  "\<exists>w1. updateAgent net1 behaviour3 0 50 1 world3 = Some (Inr w1) \<and> count (on_road w1) 1 = 2 \<and> count (on_road w1) 2 = 1"
proof -
  have p: "persons world3 1 = Some (waiting 1)" by (simp add: world3_def)
  have g: "getConflux 50 world3 = Inr (queue3 [1, 2])" by (simp add: getConflux_def world3_confluxes)
  from car1_returns [of world3 "[1, 2]" seg0 1] p obtain w1 where w1: "updateAgent net1 behaviour3 0 50 1 world3 = Some (Inr w1)"
    by (auto simp: world3_confluxes world3_def)
  from update_conserves_persons [OF behaviour3_drives(2) w1] obtain w0 before w2 fin where
    m: "begin_update net1 0 50 1 world3 = Inr (w0, before)" "movePerson net1 behaviour3 50 1 w0 = Some (Inr (w2, fin))"
    "\<forall>q. q \<noteq> 1 \<longrightarrow> count (on_road w1) q = count (on_road world3) q"
    "if fin then persons w1 1 = None \<and>
          (count (on_road w1) 1 + 1 = count (on_road world3) 1 \<or> \<not> taken_out before \<and> count (on_road w1) 1 = count (on_road world3) 1)
      else \<exists>after. props_of net1 0 50 1 w2 = Inr after \<and>
          (pr_lane before = 0 \<or> can_leave before 1 w2 \<or> stays before after w2 \<longrightarrow>
           int (count (on_road w1) 1) = int (count (on_road world3) 1) + road_change 50 before after)"
    by auto
  have w0: "w0 = world3" and b: "before = \<lparr>pr_lane = 0, pr_isQueuing = False, pr_isMoving = True, pr_roleType = RL_DRIVER, pr_vehicleLength = 4,
      pr_segStats = 100, pr_conflux = 50, pr_distance = 50\<rparr>"
    using m(1) by (simp_all add: begin_update_def g p props_of_def Let_def car_role_def del: One_nat_def)
  have "fin = False" "w2 = world3\<lparr>persons := (persons world3)(1 \<mapsto> after3 1)\<rparr>"
    using m(2) movePerson3 [OF p _ g] by (simp_all add: w0)
  then have "pr_lane before = 0" "props_of net1 0 50 1 w2 = Inr before" "\<not> fin"
    by (simp_all add: b props_of_def Let_def after3_fields car_role_def)
  then have r: "int (count (on_road w1) 1) = int (count (on_road world3) 1) + road_change 50 before before"
    using m(4) by simp
  have "road_change 50 before before = 1" by (simp add: b road_change_def stopping_roles_def)
  moreover have "on_road world3 = {#1, 2#}"
    by (simp add: on_road_def world3_def lane_persons_def queue_persons_def seg0_def seg_eval)
  ultimately have "count (on_road w1) 1 = 2" "count (on_road w1) 2 = 1" using r m(3) by simp_all
  with w1 show ?thesis by blast
qed

text \<open>Car 1 has ended its sub-trip, and there is no further item in its trip chain.\<close>

definition world4 :: world where
  "world4 = world3\<lparr>persons := [1 \<mapsto> (waiting 1)\<lparr>toBeRemoved := True\<rparr>]\<rparr>"

lemma finished_person_is_written_witness:
  "orun (update_and_stamp net1 behaviour3 0 50) [1, 2] world4 = Some (Inl Dangling)"
proof -
  let ?p = "(waiting 1)\<lparr>toBeRemoved := True\<rparr>"
  have p: "persons world4 1 = Some ?p" by (simp add: world4_def)
  have g: "getConflux 50 world4 = Inr (queue3 [1, 2])" by (simp add: getConflux_def world4_def world3_def)
  obtain before where b: "begin_update net1 0 50 1 world4 = Inr (world4, before)" "pr_lane before = 0" "pr_roleType before = RL_DRIVER"
    by (simp add: begin_update_def g p props_of_def Let_def car_role_def del: One_nat_def)
  let ?w = "world4\<lparr>persons := (persons world4)(1 \<mapsto> ?p\<lparr>lastUpdatedFrame := uint (frame (currFrame (queue3 [1, 2])))\<rparr>)\<rparr>"
  have c: "collectTravelTime behaviour3 1 ?w = Inr ?w" "checkTripChain behaviour3 1 (ms (currFrame (queue3 [1, 2]))) ?w = Inr (?w, True)"
    by (simp_all add: behaviour3_def)
  obtain w5 where k: "killAgent net1 50 before 1 ?w = Inr w5"
    using b(2,3) by (simp add: killAgent_def leave_place_def remove_from_lane_def the_role_def Let_def del: One_nat_def)
  have g1: "getConflux 50 ?w = Inr (queue3 [1, 2])" using g by (simp add: getConflux_def)
  from finished_person_is_written [of net1 behaviour3 0 50 "[]" world4, OF _ b(1) g p _ _ _ _ _ c k g1, of "[2]"]
  show ?thesis by simp
qed

end
