(* ===== verification/Spec2Isabelle.thy ===== *)
theory Spec2Isabelle
  imports Daily_Time Base64_Codec Fixed_Delayed Event_Publisher Message_Bus Buffered_Data Flexi_Barrier Workers Work_Groups Sharing_Controllers Scats_Signals Intersection_Manager Link_Stats Conflux_Updates
begin

text \<open>
  SimMobility simulates the travel of a city's people at three time scales (\<open>short\<close>, \<open>medium\<close> and
  \<open>long\<close>), on a common kernel (\<open>shared\<close>). All paths below are relative to \<open>src/dev/Basic/\<close>. This library
  models the kernel that runs the agents, the services it gives them, the controllers of the
  on-demand mobility services, the traffic signals with their detectors, and the supply of the mid-term
  simulator: where the persons are on the network, and in which order they move.

  \<^bold>\<open>The program.\<close> A simulation advances in ticks. The main thread owns work groups; a group has workers,
  one thread each; a worker updates the entities it has been given. In a tick the groups whose step
  divides the tick update their entities, then flip the double-buffered data, then the message bus
  distributes the messages, and barriers keep the threads together between the phases. Entities talk
  through the message bus and its event publisher. The controllers of the on-demand services are
  entities: drivers subscribe to them, travellers send requests, and every few ticks they compute
  schedules and send them to the drivers.

  \<^bold>\<open>Theories, from the bottom.\<close>

  \<^item> \<open>SM_Prelude\<close>: the result type of operations that may throw (\<open>rbind\<close>, \<open>guard\<close>, \<open>deref\<close>, \<open>run_list\<close>),
    32-bit words, division as in C++. \<open>SM_Types\<close>: addresses, points of simulation time
    (\<open>shared/metrics/Frame.hpp\<close>), \<open>std::set\<close> of pointers.
  \<^item> \<open>Daily_Time\<close>: times of day (\<open>shared/util/DailyTime.cpp\<close>): parsing, printing and arithmetic. Printing
    and parsing are inverse to each other; the errors of the parser are characterised.
  \<^item> \<open>Base64_Codec\<close>: the two codecs (\<open>shared/util/Base64.cpp\<close> and
    \<open>short/entities/commsim/serialization/Base64Escape.cpp\<close>), equal to a reference encoder over bytes and
    inverted by their decoders, with the inputs on which the first one is not.
  \<^item> \<open>Fixed_Delayed\<close>: delayed perception (\<open>shared/perception/FixedDelayed.hpp\<close>) refines a log of all values.
  \<^item> \<open>Event_Publisher\<close>: \<open>shared/event\<close>: subscription and delivery refine a log of subscriptions; the version
    under a mutex refines the sequential one; the manager of timed events.
  \<^item> \<open>Message_Bus\<close>: \<open>shared/message/MessageBus.cpp\<close>: contexts with their queues, distribution, dispatch by
    priority, future messages and events. A run is a sequence of operations of the threads; the queues'
    contents after a distribution are stated as multisets, the priority queue is an interface (a locale).
  \<^item> \<open>Buffered_Data\<close>: \<open>shared/buffering\<close>: what a reader sees before and after the flip, reference counts.
  \<^item> \<open>Flexi_Barrier\<close>: \<open>shared/util/FlexiBarrier.cpp\<close>: arrivals and wake-ups as a step relation, its rounds.
  \<^item> \<open>Workers\<close>: \<open>shared/workers/Worker.cpp\<close> and \<open>shared/entities/Entity.cpp\<close>: the frame tick of a worker
    and the loop of its thread with its waits at the barriers.
  \<^item> \<open>Work_Groups\<close>: \<open>shared/workers/WorkGroup.cpp\<close> and \<open>WorkGroupManager.cpp\<close>, with the start of a run from
    \<open>short/main_impl.cpp\<close>: the life cycle, the phases of a tick, the arrivals of
    the main thread at the barriers and, from the loops of the workers, theirs: which barriers complete a round in a tick,
    and where the message barrier does not.
  \<^item> \<open>Std_Permutations\<close>: \<open>std::sort\<close> and \<open>std::next_permutation\<close>; the loop over them visits every permutation.
  \<^item> \<open>Trip_Schedules\<close>: requests and schedules (\<open>shared/message/MobilityServiceControllerMessage.cpp\<close>).
  \<^item> \<open>OnCall_Controller\<close>: \<open>shared/entities/controllers/MobilityServiceController.cpp\<close> and
    \<open>OnCallController.cpp\<close>: the messages, the frame tick, the assignment of schedules; the invariant of the
    state and the contract \<open>schedule_computation\<close> of the way schedules are computed, with the
    consistency of every run for every such way.
  \<^item> \<open>Greedy_Controller\<close>: \<open>GreedyController.cpp\<close> and the closest driver. \<open>Schedule_Search\<close>: the evaluation of a
    schedule and the search over its permutations. \<open>Sharing_Controllers\<close>: \<open>IncrementalSharing.cpp\<close> and
    \<open>AMOD_Controller.cpp\<close>: insertion of requests into schedules. All three controllers interpret the contract.
  \<^item> \<open>Signal_Plans\<close>: colours, phases, offsets, cycles and split plans of a signal (\<open>short/entities/signal/Color.cpp\<close>,
    \<open>Phase.cpp\<close>, \<open>Offset.cpp\<close>, \<open>Cycle.cpp\<close>, \<open>SplitPlan.cpp\<close>): the bounds of the cycle, the vote over the plans.
  \<^item> \<open>Loop_Detectors\<close>: \<open>short/entities/LoopDetectorEntity.cpp\<close> and \<open>shared/entities/Sensor.cpp\<close>: where a detector
    is, what it counts over a run, which lanes have one. The counts are data of \<open>Buffered_Data\<close>.
  \<^item> \<open>Scats_Signals\<close>: \<open>short/entities/signal/Signal.cpp\<close>: the phases from the turning groups, the tick, what a
    driver sees, the log of counts. The invariant \<open>scats_ok\<close> holds in every interleaving of the ticks of a
    signal and of its detectors; that no tick throws and what the lights show is stated in exact arithmetic.
  \<^item> \<open>Intersection_Manager\<close>: \<open>short/entities/IntersectionManager.cpp\<close>: the access times at intersections
    without a signal. A run is an inductive relation that keeps the history of all grants; what it grants
    stays apart. The loops that erase while they iterate are characterised with their step past the end.
  \<^item> \<open>Lane_Stats\<close>, \<open>Segment_Stats\<close> (\<open>medium/entities/conflux/SegmentStats.cpp\<close>), \<open>Link_Stats\<close>
    (\<open>LinkStats.cpp\<close>): the persons in a lane, a segment and a link, with their counters; the merge that orders the
    persons of a segment; the speed as a function of the density. Runs are inductive relations; the counters refine
    the lists of persons.
  \<^item> \<open>Conflux_State\<close>, \<open>Conflux_Ticks\<close> (\<open>medium/entities/conflux/Conflux.cpp\<close>): the segments and virtual queues
    of an intersection. After a person has moved, \<open>housekeep\<close> compares its properties before and after and puts it
    in its place; it loses and doubles nobody. Persons enter by messages, and ask for permission to enter a link.
  \<^item> \<open>Conflux_Merge\<close> (the same file): the order in which the persons of all links move, which is complete whatever the
    random choices, and the lists of all persons, which repeat some. \<open>Conflux_Updates\<close>: the update of a person and of a
    conflux in its three phases. The movement of a person is a loop that need not end, a partial function whose value is
    \<open>None\<close> where it does not; what a person does by its role and its trip chain is the record \<open>behaviour\<close>, an argument.
    The registration of the handlers when a conflux is initialised, the texts of the reports and the travel times are
    not modelled.

  \<^bold>\<open>Conventions.\<close> Objects are records, pointers are addresses with 0 as null, classes of errors are datatypes,
  and every \<open>throw\<close> and every use of a null or dangling pointer that the model can see is an error value.
  \<open>unsigned int\<close> and \<open>uint32_t\<close> are 32-bit words. In the controllers, the signals and the supply a \<open>double\<close> is a real number and
  every operation rounds with a function given to the model; infinities and NaN are not modelled. The code
  is the release build (\<open>NDEBUG\<close>); the consistency checks of the debug build of the controllers are a predicate.
  Threads are interleavings: an operation under a mutex is one step. What an entity, a message handler, a
  driver, the route choice or the parking index does is an argument of the definitions that use it.

  \<^bold>\<open>Loops.\<close> Loops are structural recursion or \<open>function\<close> with a measure. Two loops whose end is not evident are
  partial functions: the search over the permutations, where that it returns is part of the theorem about it, and the
  movement of a person in \<open>Conflux_Updates\<close>, which ends only if the roles use up the time. The loop of a worker's thread is
  cut after a number of rounds, an argument; a worker with an end stops by itself before it.

  \<^bold>\<open>Not modelled.\<close> The periodic loader, the aura and partition managers (spatial indexes and MPI). The
  movement of vehicles and persons by their roles in the short- and mid-term simulators: floating-point formulas
  with random draws over a network from a database; the supply has this movement, and the switch to the next
  item of a trip chain, as an argument. The choice models: Lua scripts and regression formulas. The long-term
  market models. Path sets and shortest paths: Boost graph algorithms. The controllers that match requests by
  a solver or a library. Configuration, database access, logging, the communication simulator (sockets), and
  the vendored libraries. Packing agents for another process.
\<close>

end
